(* ===== verification/Prelude.thy ===== *)
theory Prelude
  imports Main "HOL-Library.Word"
begin

text \<open>
  Shared vocabulary of the development: the C integer types as words, \<open>size_t\<close>
  arithmetic as naturals with the wrap-around written out, operations that may fail as
  state transformers returning an option, and the byte-level views of integers
  (big endian for the DER and TLS encodings, little endian for the protobuf wire format)
  with the lemmas the components share.
\<close>

unbundle bit_operations_syntax

section \<open>Types\<close>

type_synonym u8 = "8 word"
type_synonym u16 = "16 word"
type_synonym u32 = "32 word"
type_synonym u64 = "64 word"
type_synonym bytes = "u8 list"

named_theorems op_simps \<open>unfolding of failing state transformers\<close>
named_theorems size_simps \<open>size_t arithmetic\<close>

section \<open>size_t\<close>

text \<open>
  A \<open>size_t\<close> is 64 bits wide; it is a natural number and every sum or product that
  the code computes in \<open>size_t\<close> is reduced by \<open>sz\<close>.
\<close>

definition sz :: "nat \<Rightarrow> nat" where
  "sz n = n mod 2 ^ 64"

abbreviation SIZE_LIMIT :: nat where
  "SIZE_LIMIT \<equiv> 2 ^ 64"

lemma sz_id [size_simps]: "n < SIZE_LIMIT \<Longrightarrow> sz n = n"
  by (simp add: sz_def)

lemma sz_less [simp]: "sz n < SIZE_LIMIT"
  by (simp add: sz_def)

lemma sz_le [simp]: "sz n \<le> n"
  by (simp add: sz_def)

definition INT_MAX :: nat where "INT_MAX = 2 ^ 31 - 1"

text \<open>A \<open>size_t\<close> that is passed as an \<open>int\<close>.\<close>

definition to_int :: "nat \<Rightarrow> int" where
  "to_int n = sint (word_of_nat n :: u32)"

lemma to_int_id: "n \<le> INT_MAX \<Longrightarrow> to_int n = int n"
  by (simp add: to_int_def INT_MAX_def signed_of_nat signed_take_bit_int_eq_self)

text \<open>The overflow test \<open>a + b < a\<close> of the code is exact.\<close>

lemma sz_add_overflow:
  assumes "a < SIZE_LIMIT" "b < SIZE_LIMIT"
  shows "sz (a + b) < a \<longleftrightarrow> SIZE_LIMIT \<le> a + b"
proof (cases "a + b < SIZE_LIMIT")
  case True
  then show ?thesis by (simp add: sz_def)
next
  case False
  then have "sz (a + b) = a + b - SIZE_LIMIT"
    using assms by (simp add: sz_def mod_if)
  with False assms show ?thesis by linarith
qed

lemma sz_add_no_overflow:
  assumes "a < SIZE_LIMIT" "b < SIZE_LIMIT" "\<not> sz (a + b) < a"
  shows "sz (a + b) = a + b" "a + b < SIZE_LIMIT"
  using assms sz_add_overflow [OF assms(1,2)] by (simp_all add: sz_id)

section \<open>Operations that may fail\<close>

text \<open>
  A C function that returns 1 or 0, updates the object it is given and fills an out
  parameter is a function from the object to an option (None for the return value 0)
  and the object afterwards. The object is there in both cases: a failing call may
  have advanced it.
\<close>

type_synonym ('s, 'a) op = "'s \<Rightarrow> 'a option \<times> 's"

definition op_return :: "'a \<Rightarrow> ('s, 'a) op" where
  "op_return x s = (Some x, s)"

definition op_fail :: "('s, 'a) op" where
  "op_fail s = (None, s)"

definition op_bind :: "('s, 'a) op \<Rightarrow> ('a \<Rightarrow> ('s, 'b) op) \<Rightarrow> ('s, 'b) op" where
  "op_bind m f s = (case m s of (None, s') \<Rightarrow> (None, s') | (Some x, s') \<Rightarrow> f x s')"

definition op_guard :: "bool \<Rightarrow> ('s, unit) op" where
  "op_guard b s = (if b then Some () else None, s)"

lemma op_return_apply [op_simps]: "op_return x s = (Some x, s)"
  by (simp add: op_return_def)

lemma op_fail_apply [op_simps]: "op_fail s = (None, s)"
  by (simp add: op_fail_def)

lemma op_bind_Some [op_simps]: "m s = (Some x, s') \<Longrightarrow> op_bind m f s = f x s'"
  by (simp add: op_bind_def)

lemma op_bind_None [op_simps]: "m s = (None, s') \<Longrightarrow> op_bind m f s = (None, s')"
  by (simp add: op_bind_def)

lemma op_guard_apply [op_simps]: "op_guard b s = (if b then Some () else None, s)"
  by (simp add: op_guard_def)

lemma op_bind_SomeD:
  assumes "op_bind m f s = (Some y, s'')"
  obtains x s' where "m s = (Some x, s')" "f x s' = (Some y, s'')"
  using assms by (auto simp: op_bind_def split: prod.splits option.splits)

lemma op_bind_assoc: "op_bind (op_bind m f) g = op_bind m (\<lambda>x. op_bind (f x) g)"
  by (rule ext) (simp add: op_bind_def split: prod.split option.split)

section \<open>Byte views of integers\<close>

text \<open>\<open>push_bit 8 r OR ucast b\<close>, the step of every big-endian read, adds.\<close>

lemma shift_or_byte:
  fixes r :: "'a::len word" and b :: u8
  shows "push_bit 8 r OR ucast b = r * 256 + ucast b"
proof -
  have "push_bit 8 r AND ucast b = 0"
    by (rule bit_word_eqI) (auto simp: bit_simps dest: bit_imp_le_length)
  then have "push_bit 8 r + ucast b = push_bit 8 r OR ucast b"
    by (rule disjunctive_add_eq_or)
  then show ?thesis by (simp add: push_bit_eq_mult)
qed

lemma xor_word_zero_iff: "p XOR q = 0 \<longleftrightarrow> p = q" for p q :: "'a::len word"
  by (metis xor.assoc xor_self_eq xor.left_neutral xor.right_neutral)

lemma word_eq_of_nat: "unat w = n \<Longrightarrow> w = word_of_nat n"
  by auto

lemma ucast_eq_of_unat: "unat w = unat x \<Longrightarrow> ucast w = x"
  for w :: "'a::len word" and x :: "'b::len word"
proof -
  assume "unat w = unat x"
  moreover have "ucast w = (word_of_nat (unat w) :: 'b word)" by simp
  ultimately show ?thesis by simp
qed

lemma unat_ucast_up:
  fixes w :: "'a::len word"
  assumes "LENGTH('a) \<le> LENGTH('b)"
  shows "unat (ucast w :: 'b::len word) = unat w"
proof -
  have "unat w < 2 ^ LENGTH('a)" by (rule unsigned_less)
  also have "(2 :: nat) ^ LENGTH('a) \<le> 2 ^ LENGTH('b)" using assms by (rule power_increasing) simp
  finally show ?thesis by (simp add: unsigned_ucast_eq take_bit_nat_eq_self)
qed

lemma unat_take_bit: "unat (take_bit k w) = unat w mod 2 ^ k" for w :: "'a::len word"
  by (simp only: unsigned_take_bit_eq) (simp add: take_bit_eq_mod)

text \<open>An OR of parts that do not overlap is their sum.\<close>

lemma unat_push_or:
  fixes x y :: "'a::len word"
  assumes y: "unat y < 2 ^ k" and lim: "unat x * 2 ^ k + unat y < 2 ^ LENGTH('a)"
  shows "unat (push_bit k x OR y) = unat x * 2 ^ k + unat y"
proof -
  have "unat (take_bit k y) = unat y" using y by (simp add: unat_take_bit)
  then have ty: "take_bit k y = y" by (simp add: word_unat_eq_iff)
  have "\<not> bit y n" if "k \<le> n" for n
    using that ty by (metis bit_take_bit_iff linorder_not_less)
  then have "push_bit k x AND y = 0"
    by (intro bit_word_eqI) (auto simp: bit_simps)
  then have "push_bit k x OR y = push_bit k x + y"
    by (simp add: disjunctive_add_eq_or)
  also have "\<dots> = word_of_nat (unat x * 2 ^ k + unat y)"
    by (simp add: push_bit_eq_mult)
  finally show ?thesis using lim by (simp only: unat_of_nat) simp
qed

lemma unat_drop: "unat (drop_bit k w) = unat w div 2 ^ k" for w :: "'a::len word"
  by (simp only: unat_drop_bit_eq) (simp only: drop_bit_eq_div)

lemma div_eq_0_or_1: "(n :: nat) < 2 * m \<Longrightarrow> n div m = (if n < m then 0 else 1)"
  by (auto simp: div_if)

definition be_nat :: "bytes \<Rightarrow> nat" where
  "be_nat bs = foldl (\<lambda>n b. n * 256 + unat b) 0 bs"

fun be_bytes :: "nat \<Rightarrow> nat \<Rightarrow> bytes" where
  "be_bytes 0 v = []"
| "be_bytes (Suc n) v = be_bytes n (v div 256) @ [word_of_nat v]"

lemma be_nat_Nil [simp]: "be_nat [] = 0"
  by (simp add: be_nat_def)

lemma be_nat_snoc [simp]: "be_nat (bs @ [b]) = be_nat bs * 256 + unat b"
  by (simp add: be_nat_def)

lemma be_nat_singleton [simp]: "be_nat [b] = unat b"
  by (simp add: be_nat_def)

lemma length_be_bytes [simp]: "length (be_bytes n v) = n"
  by (induction n arbitrary: v) auto

lemma unat_byte_less [simp]: "unat (b :: u8) < 256"
  using unsigned_less [of b, where 'a = nat] by simp

lemma unat_byte_of_nat [simp]: "unat (word_of_nat v :: u8) = v mod 256"
  by (simp add: unat_of_nat)

lemma byte_eq_of_nat: "unat b = v mod 256 \<Longrightarrow> b = (word_of_nat v :: u8)"
  by (simp only: word_unat_eq_iff unat_byte_of_nat)

lemma be_bytes_Cons: "be_bytes (Suc n) v = word_of_nat (v div 256 ^ n) # be_bytes n v"
proof (induction n arbitrary: v)
  case 0
  then show ?case by simp
next
  case (Suc n)
  have "be_bytes (Suc (Suc n)) v = be_bytes (Suc n) (v div 256) @ [word_of_nat v]"
    by (rule be_bytes.simps)
  also have "\<dots> = word_of_nat (v div 256 ^ Suc n) # be_bytes (Suc n) v"
    using Suc.IH [of "v div 256"] be_bytes.simps(2) [of n v]
    by (simp add: div_mult2_eq del: be_bytes.simps)
  finally show ?case .
qed

lemma be_bytes_numeral:
  "be_bytes (numeral k) v = be_bytes (pred_numeral k) (v div 256) @ [word_of_nat v]"
  by (simp only: numeral_eq_Suc be_bytes.simps)

lemma be_nat_be_bytes_mod: "be_nat (be_bytes n v) = v mod 256 ^ n"
proof (induction n arbitrary: v)
  case 0
  then show ?case by simp
next
  case (Suc n)
  have "v mod (256 * 256 ^ n) = 256 * (v div 256 mod 256 ^ n) + v mod 256"
    by (simp add: mod_mult2_eq)
  with Suc show ?case by simp
qed

lemma be_nat_be_bytes: "v < 256 ^ n \<Longrightarrow> be_nat (be_bytes n v) = v"
  by (simp add: be_nat_be_bytes_mod)

lemma be_nat_less: "be_nat bs < 256 ^ length bs"
proof (induction bs rule: rev_induct)
  case Nil
  then show ?case by simp
next
  case (snoc b bs)
  have "unat b < 256" by simp
  with snoc.IH show ?case by (simp only: be_nat_snoc length_append_singleton power_Suc)
qed

lemma be_bytes_be_nat: "be_bytes (length bs) (be_nat bs) = bs"
proof (induction bs rule: rev_induct)
  case Nil
  then show ?case by simp
next
  case (snoc b bs)
  have b: "unat b < 256" by simp
  have "word_of_nat (be_nat bs * 256 + unat b) = b"
    using b by (simp only: word_unat_eq_iff unat_byte_of_nat) simp
  with snoc b show ?case by simp
qed

lemma be_nat_append: "be_nat (xs @ ys) = be_nat xs * 256 ^ length ys + be_nat ys"
proof (induction ys rule: rev_induct)
  case (snoc y ys)
  have "be_nat (xs @ ys @ [y]) = be_nat (xs @ ys) * 256 + unat y"
    using be_nat_snoc [of "xs @ ys" y] by simp
  then show ?case using snoc by (simp add: algebra_simps)
qed simp

lemma be_bytes_append: "be_bytes (a + b) v = be_bytes a (v div 256 ^ b) @ be_bytes b v"
proof (induction b arbitrary: v)
  case (Suc b)
  have "v div 256 div 256 ^ b = v div 256 ^ Suc b" by (simp add: div_mult2_eq mult.commute)
  then show ?case using Suc [of "v div 256"] by simp
qed simp

lemma be_bytes_cong: "v mod 256 ^ n = w mod 256 ^ n \<Longrightarrow> be_bytes n v = be_bytes n w"
  by (metis be_nat_be_bytes_mod be_bytes_be_nat length_be_bytes)

lemma be_bytes_inj:
  assumes "be_bytes n v = be_bytes n w" "v < 256 ^ n" "w < 256 ^ n"
  shows "v = w"
  using assms be_nat_be_bytes by metis

lemma foldl_shift_or_byte_gen:
  "foldl (\<lambda>r b. push_bit 8 r OR ucast b) (word_of_nat n) bs
     = (word_of_nat (foldl (\<lambda>n b. n * 256 + unat b) n bs) :: 'a::len word)"
  for bs :: bytes
proof (induction bs arbitrary: n)
  case Nil
  then show ?case by simp
next
  case (Cons b bs)
  have "push_bit 8 (word_of_nat n) OR ucast b = (word_of_nat (n * 256 + unat b) :: 'a word)"
    by (simp add: shift_or_byte)
  then show ?case by (simp only: foldl_Cons Cons.IH)
qed

text \<open>The loop \<open>result <<= 8; result |= data[i]\<close> reads a big-endian number.\<close>

lemma foldl_shift_or_byte:
  "foldl (\<lambda>r b. push_bit 8 r OR ucast b) 0 bs = (word_of_nat (be_nat bs) :: 'a::len word)"
  for bs :: bytes
  using foldl_shift_or_byte_gen [of 0 bs] by (simp add: be_nat_def)

fun le_bytes :: "nat \<Rightarrow> nat \<Rightarrow> bytes" where
  "le_bytes 0 v = []"
| "le_bytes (Suc n) v = word_of_nat v # le_bytes n (v div 256)"

fun le_nat :: "bytes \<Rightarrow> nat" where
  "le_nat [] = 0"
| "le_nat (b # bs) = unat b + 256 * le_nat bs"

lemma length_le_bytes [simp]: "length (le_bytes n v) = n"
  by (induction n arbitrary: v) auto

lemma le_nat_le_bytes_mod: "le_nat (le_bytes n v) = v mod 256 ^ n"
  by (induction n arbitrary: v) (simp_all add: mod_mult2_eq)

lemma le_nat_le_bytes: "v < 256 ^ n \<Longrightarrow> le_nat (le_bytes n v) = v"
  by (simp add: le_nat_le_bytes_mod)

section \<open>Writing into a byte array\<close>

text \<open>
  \<open>memcpy(buf + off, src, n)\<close> and a loop of assignments \<open>buf[off + i] = src[i]\<close>
  replace a segment of the array. Where the segment does not lie in the array, C is
  undefined; the invariants of the components exclude it.
\<close>

definition write_at :: "'a list \<Rightarrow> nat \<Rightarrow> 'a list \<Rightarrow> 'a list" where
  "write_at buf off src = take off buf @ src @ drop (off + length src) buf"

lemma length_write_at [simp]:
  "off + length src \<le> length buf \<Longrightarrow> length (write_at buf off src) = length buf"
  by (simp add: write_at_def)

lemma write_at_Nil [simp]: "write_at buf off [] = buf"
  by (simp add: write_at_def)

lemma take_write_at:
  "off + length src \<le> length buf \<Longrightarrow>
   take (off + length src) (write_at buf off src) = take off buf @ src"
  by (simp add: write_at_def)

lemma take_write_at_less:
  "n \<le> off \<Longrightarrow> off \<le> length buf \<Longrightarrow> take n (write_at buf off src) = take n buf"
  by (simp add: write_at_def min_absorb1)

lemma write_at_single:
  "off < length buf \<Longrightarrow> buf[off := x] = write_at buf off [x]"
  by (simp add: write_at_def upd_conv_take_nth_drop)

section \<open>Bits of an octet\<close>

lemma and_7f: "b AND 0x7f = take_bit 7 b" for b :: u8
  by (simp only: take_bit_eq_mask) (simp add: mask_eq_exp_minus_1)

lemma unat_and_7f: "unat (b AND 0x7f) = unat b mod 128" for b :: u8
  by (simp only: and_7f unsigned_take_bit_eq) (simp add: take_bit_eq_mod)

lemma and_1f: "b AND 0x1f = take_bit 5 b" for b :: u8
  by (simp only: take_bit_eq_mask) (simp add: mask_eq_exp_minus_1)

lemma unat_and_1f: "unat (b AND 0x1f) = unat b mod 32" for b :: u8
  by (simp only: and_1f unsigned_take_bit_eq) (simp add: take_bit_eq_mod)

lemma drop_zero_iff: "drop_bit k w = 0 \<longleftrightarrow> unat w < 2 ^ k" for w :: "'a::len word"
  using unat_drop [of k w] by (metis div_eq_0_iff unat_eq_0 power_eq_0_iff zero_neq_numeral)

lemma and_80_iff: "b AND 0x80 = 0 \<longleftrightarrow> unat b < 128" for b :: u8
proof -
  have "b AND 2 ^ 7 = 0 \<longleftrightarrow> \<not> bit b 7"
    by (rule and_exp_eq_0_iff_not_bit)
  also have "bit b 7 \<longleftrightarrow> odd (unat b div 2 ^ 7)"
    using bit_iff_odd [of "unat b" 7] by (simp only: bit_unsigned_iff) simp
  also have "unat b div 2 ^ 7 = (if unat b < 128 then 0 else 1)"
    using div_eq_0_or_1 [of "unat b" 128] by simp
  finally show ?thesis by simp
qed

lemma byte_high_mod: "128 \<le> unat b \<Longrightarrow> unat b mod 128 = unat b - 128" for b :: u8
proof -
  assume b: "128 \<le> unat b"
  have "unat b - 128 < 128" using b unat_byte_less [of b] by linarith
  with b show ?thesis by (simp add: le_mod_geq)
qed

lemma digit_byte: "unat (ucast (drop_bit (7 * i) v AND 0x7f) :: u8) = unat v div 128 ^ i mod 128"
  for v :: u64
proof -
  have "(2 :: nat) ^ (7 * i) = 128 ^ i" by (simp add: power_mult)
  then have "unat (take_bit 7 (drop_bit (7 * i) v)) = unat v div 128 ^ i mod 128"
    by (simp only: unat_take_bit unat_drop) simp
  moreover have "(0x7f :: u64) = mask 7" by (simp add: mask_eq_exp_minus_1)
  then have "drop_bit (7 * i) v AND 0x7f = take_bit 7 (drop_bit (7 * i) v)"
    by (simp only: take_bit_eq_mask)
  ultimately have "unat (drop_bit (7 * i) v AND 0x7f) = unat v div 128 ^ i mod 128" by metis
  then show ?thesis by (simp add: unsigned_ucast_eq take_bit_eq_mod)
qed

lemma byte_or_80: "unat b < 128 \<Longrightarrow> b OR 0x80 = word_of_nat (unat b + 128)" for b :: u8
proof -
  assume "unat b < 128"
  then have "b AND 0x80 = 0" by (simp add: and_80_iff)
  then have "b OR 0x80 = b + 0x80" by (rule disjunctive_add_eq_or [symmetric])
  then show ?thesis by simp
qed

end
