(* ===== verification/Const_Time.thy ===== *)
theory Const_Time
  imports Prelude
begin

text \<open>
  The constant-time comparisons and selections of crypto/internal.h, on 64 bit words
  (\<open>crypto_word_t\<close> of the 64 bit build), and the facts that let the components replace
  each mask by the condition it stands for.
\<close>

section \<open>Definitions\<close>

definition constant_time_msb_w :: "u64 \<Rightarrow> u64" where
  "constant_time_msb_w a = 0 - drop_bit 63 a"

definition constant_time_lt_w :: "u64 \<Rightarrow> u64 \<Rightarrow> u64" where
  "constant_time_lt_w a b = constant_time_msb_w (a XOR ((a XOR b) OR ((a - b) XOR a)))"

definition constant_time_lt_8 :: "u64 \<Rightarrow> u64 \<Rightarrow> u8" where
  "constant_time_lt_8 a b = ucast (constant_time_lt_w a b)"

definition constant_time_ge_w :: "u64 \<Rightarrow> u64 \<Rightarrow> u64" where
  "constant_time_ge_w a b = NOT (constant_time_lt_w a b)"

definition constant_time_ge_8 :: "u64 \<Rightarrow> u64 \<Rightarrow> u8" where
  "constant_time_ge_8 a b = ucast (constant_time_ge_w a b)"

definition constant_time_is_zero_w :: "u64 \<Rightarrow> u64" where
  "constant_time_is_zero_w a = constant_time_msb_w (NOT a AND (a - 1))"

definition constant_time_is_zero_8 :: "u64 \<Rightarrow> u8" where
  "constant_time_is_zero_8 a = ucast (constant_time_is_zero_w a)"

definition constant_time_eq_w :: "u64 \<Rightarrow> u64 \<Rightarrow> u64" where
  "constant_time_eq_w a b = constant_time_is_zero_w (a XOR b)"

definition constant_time_eq_8 :: "u64 \<Rightarrow> u64 \<Rightarrow> u8" where
  "constant_time_eq_8 a b = ucast (constant_time_eq_w a b)"

definition constant_time_eq_int :: "32 word \<Rightarrow> 32 word \<Rightarrow> u64" where
  "constant_time_eq_int a b = constant_time_eq_w (scast a) (scast b)"

definition constant_time_eq_int_8 :: "32 word \<Rightarrow> 32 word \<Rightarrow> u8" where
  "constant_time_eq_int_8 a b = constant_time_eq_8 (scast a) (scast b)"

definition constant_time_select_w :: "u64 \<Rightarrow> u64 \<Rightarrow> u64 \<Rightarrow> u64" where
  "constant_time_select_w m a b = (m AND a) OR (NOT m AND b)"

definition constant_time_select_8 :: "u8 \<Rightarrow> u8 \<Rightarrow> u8 \<Rightarrow> u8" where
  "constant_time_select_8 m a b = ucast (constant_time_select_w (ucast m) (ucast a) (ucast b))"

definition constant_time_select_int :: "u64 \<Rightarrow> 32 word \<Rightarrow> 32 word \<Rightarrow> 32 word" where
  "constant_time_select_int m a b = ucast (constant_time_select_w m (scast a) (scast b))"

section \<open>What the masks stand for\<close>

named_theorems ct_simps \<open>masks as conditions\<close>

lemma bit_63_iff: "bit w 63 \<longleftrightarrow> 2 ^ 63 \<le> uint w" for w :: u64
proof -
  have "uint w < 2 ^ 64" "0 \<le> uint w" using uint_bounded [of w] by simp_all
  then have "uint w div 2 ^ 63 = (if 2 ^ 63 \<le> uint w then 1 else 0)"
    by (auto intro: div_pos_pos_trivial int_div_pos_eq [of _ _ _ "uint w - 2 ^ 63"])
  moreover have "bit w 63 \<longleftrightarrow> bit (uint w) 63"
    by (simp add: bit_uint_iff)
  ultimately show ?thesis
    by (simp only: bit_iff_odd [of "uint w" 63]) simp
qed

lemma constant_time_msb_w_eq [ct_simps]: "constant_time_msb_w a = (if bit a 63 then -1 else 0)"
proof -
  have "drop_bit 63 a = of_bool (bit a 63)"
  proof (rule bit_word_eqI)
    fix n assume "n < LENGTH(64)"
    show "bit (drop_bit 63 a) n \<longleftrightarrow> bit (of_bool (bit a 63) :: u64) n"
      by (cases n) (auto simp: bit_simps dest: bit_imp_le_length)
  qed
  then show ?thesis by (simp add: constant_time_msb_w_def)
qed

lemma uint_64_bounds: "0 \<le> uint w" "uint w < 2 ^ 64" for w :: u64
  using uint_bounded [of w] by simp_all

lemma uint_sub_64: "uint (a - b) = (if uint b \<le> uint a then uint a - uint b else uint a - uint b + 2 ^ 64)"
  for a b :: u64
proof (cases "uint b \<le> uint a")
  case True
  have "(uint a - uint b) mod 2 ^ 64 = uint a - uint b"
    using True uint_64_bounds [of a] uint_64_bounds [of b] by (intro mod_pos_pos_trivial) linarith+
  with True show ?thesis by (simp add: uint_word_ariths)
next
  case False
  have "(uint a - uint b + 2 ^ 64) mod 2 ^ 64 = uint a - uint b + 2 ^ 64"
    using False uint_64_bounds [of a] uint_64_bounds [of b] by (intro mod_pos_pos_trivial) linarith+
  with False show ?thesis by (simp add: uint_word_ariths)
qed

lemma bit_sub_63:
  fixes a b :: u64
  assumes "bit a 63 = bit b 63"
  shows "bit (a - b) 63 \<longleftrightarrow> a < b"
proof -
  define x y where "x = uint a" and "y = uint b"
  have "0 \<le> x" "x < 2 ^ 64" "0 \<le> y" "y < 2 ^ 64"
    using uint_64_bounds [of a] uint_64_bounds [of b] by (simp_all add: x_def y_def)
  moreover have "(2 ^ 63 \<le> x) = (2 ^ 63 \<le> y)"
    using assms by (simp add: bit_63_iff x_def y_def)
  ultimately have "2 ^ 63 \<le> (if y \<le> x then x - y else x - y + 2 ^ 64) \<longleftrightarrow> x < y"
    by auto
  then show ?thesis
    by (simp only: bit_63_iff uint_sub_64 word_less_def x_def y_def)
qed

lemma constant_time_lt_w_eq [ct_simps]: "constant_time_lt_w a b = (if a < b then -1 else 0)"
proof -
  have "bit (a XOR ((a XOR b) OR ((a - b) XOR a))) 63 \<longleftrightarrow> a < b"
  proof (cases "bit a 63 = bit b 63")
    case True
    with bit_sub_63 [OF True] show ?thesis by (auto simp: bit_simps)
  next
    case False
    then have "bit b 63 \<longleftrightarrow> a < b"
      unfolding bit_63_iff word_less_def by auto
    with False show ?thesis by (auto simp: bit_simps)
  qed
  then show ?thesis by (simp add: constant_time_lt_w_def ct_simps)
qed

lemma constant_time_is_zero_w_eq [ct_simps]:
  "constant_time_is_zero_w a = (if a = 0 then -1 else 0)"
proof -
  have "bit (NOT a AND (a - 1)) 63 \<longleftrightarrow> a = 0"
  proof (cases "a = 0")
    case True
    then show ?thesis by (simp add: bit_simps)
  next
    case False
    then have "uint a \<noteq> 0" by (simp add: uint_0_iff)
    then have "1 \<le> uint a" using uint_64_bounds [of a] by linarith
    then have "uint (a - 1) = uint a - 1"
      using uint_sub_64 [of a 1] by simp
    then have "\<not> bit a 63 \<Longrightarrow> \<not> bit (a - 1) 63"
      by (simp add: bit_63_iff)
    then show ?thesis using False by (auto simp: bit_simps)
  qed
  then show ?thesis by (simp add: constant_time_is_zero_w_def ct_simps)
qed

lemma constant_time_eq_w_eq [ct_simps]: "constant_time_eq_w a b = (if a = b then -1 else 0)"
  by (simp add: constant_time_eq_w_def ct_simps xor_word_zero_iff)

lemma constant_time_select_w_eq [ct_simps]:
  "constant_time_select_w (if c then -1 else 0) a b = (if c then a else b)"
  by (simp add: constant_time_select_w_def)

lemma constant_time_ge_w_eq [ct_simps]: "constant_time_ge_w a b = (if b \<le> a then -1 else 0)"
  by (auto simp: constant_time_ge_w_def ct_simps)

lemma ucast_mask_8 [simp]: "ucast (-1 :: u64) = (-1 :: u8)"
  by (rule bit_word_eqI) (simp add: bit_simps)

lemma constant_time_lt_8_eq [ct_simps]: "constant_time_lt_8 a b = (if a < b then -1 else 0)"
  by (simp add: constant_time_lt_8_def ct_simps)

lemma constant_time_ge_8_eq [ct_simps]: "constant_time_ge_8 a b = (if b \<le> a then -1 else 0)"
  by (auto simp: constant_time_ge_8_def ct_simps)

lemma constant_time_is_zero_8_eq [ct_simps]: "constant_time_is_zero_8 a = (if a = 0 then -1 else 0)"
  by (simp add: constant_time_is_zero_8_def ct_simps)

lemma constant_time_eq_8_eq [ct_simps]: "constant_time_eq_8 a b = (if a = b then -1 else 0)"
  by (simp add: constant_time_eq_8_def ct_simps)

lemma constant_time_select_8_eq [ct_simps]:
  "constant_time_select_8 (if c then -1 else 0) a b = (if c then a else b)"
proof (cases c)
  case True
  have "ucast ((ucast (-1 :: u8) AND ucast a) OR (NOT (ucast (-1 :: u8)) AND ucast b) :: u64) = a"
    by (rule bit_word_eqI) (auto simp: bit_simps)
  with True show ?thesis by (simp add: constant_time_select_8_def constant_time_select_w_def)
next
  case False
  have "ucast (ucast b :: u64) = b"
    by (rule bit_word_eqI) (auto simp: bit_simps)
  with False show ?thesis by (simp add: constant_time_select_8_def constant_time_select_w_def)
qed

end
