(* ===== verification/Base64.thy ===== *)
theory Base64
  imports Const_Time
begin

text \<open>
  crypto/base64/base64.c: base64 encoding and decoding, in one call and streaming. The
  caller's output buffer is the list of the bytes written through \<open>out\<close>; the NUL that the
  encoder writes behind its output is included where the code writes it.
\<close>

section \<open>Characters\<close>

definition constant_time_lt_args_8 :: "u8 \<Rightarrow> u8 \<Rightarrow> u8" where
  "constant_time_lt_args_8 a b =
     (let aw = ucast a :: u64; bw = ucast b :: u64 in ucast (constant_time_msb_w (aw - bw)))"

definition constant_time_in_range_8 :: "u8 \<Rightarrow> u8 \<Rightarrow> u8 \<Rightarrow> u8" where
  "constant_time_in_range_8 a mn mx = (let a = a - mn in constant_time_lt_args_8 a (mx - mn + 1))"

definition conv_bin2ascii :: "u8 \<Rightarrow> u8" where
  "conv_bin2ascii a =
     (let a = a AND 0x3f;
          ret = constant_time_select_8 (constant_time_eq_8 (ucast a) 62) 0x2b 0x2f;
          ret = constant_time_select_8 (constant_time_lt_args_8 a 62) (a - 52 + 0x30) ret;
          ret = constant_time_select_8 (constant_time_lt_args_8 a 52) (a - 26 + 0x61) ret
      in constant_time_select_8 (constant_time_lt_args_8 a 26) (a + 0x41) ret)"

definition base64_ascii_to_bin :: "u8 \<Rightarrow> u8" where
  "base64_ascii_to_bin a =
     (let is_upper = constant_time_in_range_8 a 0x41 0x5a;
          is_lower = constant_time_in_range_8 a 0x61 0x7a;
          is_digit = constant_time_in_range_8 a 0x30 0x39;
          is_plus = constant_time_eq_8 (ucast a) 0x2b;
          is_slash = constant_time_eq_8 (ucast a) 0x2f;
          is_equals = constant_time_eq_8 (ucast a) 0x3d;
          ret = 0xff;
          ret = constant_time_select_8 is_upper (a - 0x41) ret;
          ret = constant_time_select_8 is_lower (a - 0x61 + 26) ret;
          ret = constant_time_select_8 is_digit (a - 0x30 + 52) ret;
          ret = constant_time_select_8 is_plus 62 ret;
          ret = constant_time_select_8 is_slash 63 ret
      in constant_time_select_8 is_equals 0 ret)"

section \<open>Encoding\<close>

record evp_encode_ctx =
  data_used :: nat
  ctx_data :: bytes
  eof_seen :: bool
  error_encountered :: bool

definition EVP_EncodedLength :: "nat \<Rightarrow> nat option" where
  "EVP_EncodedLength len =
     (if sz (len + 2) < len then None
      else
        let len = sz (len + 2) div 3 in
        if sz (len * 4) div 4 \<noteq> len then None
        else
          let len = sz (len * 4) in
          if sz (len + 1) < len then None else Some (sz (len + 1)))"

definition EVP_EncodeInit :: evp_encode_ctx where
  "EVP_EncodeInit = \<lparr>data_used = 0, ctx_data = replicate 48 0, eof_seen = False, error_encountered = False\<rparr>"

text \<open>The bytes written before the terminating NUL; the value returned is their number.\<close>

fun encode_block :: "bytes \<Rightarrow> bytes" where
  "encode_block [] = []"
| "encode_block [s0] =
     (let l = push_bit 16 (ucast s0) :: u32
      in [conv_bin2ascii (ucast (drop_bit 18 l)), conv_bin2ascii (ucast (drop_bit 12 l)), 0x3d, 0x3d])"
| "encode_block [s0, s1] =
     (let l = push_bit 16 (ucast s0) OR push_bit 8 (ucast s1) :: u32
      in [conv_bin2ascii (ucast (drop_bit 18 l)), conv_bin2ascii (ucast (drop_bit 12 l)),
          conv_bin2ascii (ucast (drop_bit 6 l)), 0x3d])"
| "encode_block (s0 # s1 # s2 # src) =
     (let l = push_bit 16 (ucast s0) OR push_bit 8 (ucast s1) OR ucast s2 :: u32
      in conv_bin2ascii (ucast (drop_bit 18 l)) # conv_bin2ascii (ucast (drop_bit 12 l)) #
         conv_bin2ascii (ucast (drop_bit 6 l)) # conv_bin2ascii (ucast l) # encode_block src)"

definition EVP_EncodeBlock :: "bytes \<Rightarrow> nat \<Rightarrow> bytes \<times> nat" where
  "EVP_EncodeBlock src src_len =
     (let dst = encode_block (take src_len src) in (dst @ [0], length dst))"

text \<open>The loop over whole blocks of 48 bytes; None is the overflow of \<open>total\<close>.\<close>

fun encode_lines :: "nat \<Rightarrow> bytes \<Rightarrow> bytes \<Rightarrow> nat \<Rightarrow> (bytes \<times> bytes \<times> nat) option \<times> bytes" where
  "encode_lines 0 inp out tot = (Some (inp, out, tot), out)"
| "encode_lines (Suc fuel) inp out tot =
     (if length inp \<ge> 48 then
        let (blk, encoded) = EVP_EncodeBlock inp 48;
            out' = out @ take encoded blk @ [0x0a];
            inp' = drop 48 inp
        in if sz (tot + encoded + 1) < tot then (None, out')
           else encode_lines fuel inp' out' (sz (tot + (encoded + 1)))
      else (Some (inp, out, tot), out))"

text \<open>The NUL behind the last line.\<close>

definition with_nul :: "bytes \<Rightarrow> bytes" where
  "with_nul out = (if out = [] then [] else out @ [0])"

text \<open>
  The context after the call, the bytes written at \<open>out\<close>, and \<open>*out_len\<close>;
  \<open>encode_rest\<close> is the part of \<open>EVP_EncodeUpdate\<close> from the loop on.
\<close>

definition encode_rest :: "evp_encode_ctx \<Rightarrow> bytes \<Rightarrow> bytes \<Rightarrow> nat \<Rightarrow> evp_encode_ctx \<times> bytes \<times> nat" where
  "encode_rest ctx inp out tot =
     (case encode_lines (length inp) inp out tot of
        (None, out') \<Rightarrow> (ctx, with_nul out', 0)
      | (Some (inp', out', tot'), _) \<Rightarrow>
          (ctx\<lparr>ctx_data := write_at (ctx_data ctx) 0 inp', data_used := length inp'\<rparr>,
           with_nul out', if tot' > INT_MAX then 0 else tot'))"

definition EVP_EncodeUpdate :: "evp_encode_ctx \<Rightarrow> bytes \<Rightarrow> evp_encode_ctx \<times> bytes \<times> nat" where
  "EVP_EncodeUpdate ctx inp =
     (if length inp = 0 then (ctx, [], 0)
      else if 48 - data_used ctx > length inp then
        (ctx\<lparr>ctx_data := write_at (ctx_data ctx) (data_used ctx) inp,
             data_used := data_used ctx + length inp\<rparr>, [], 0)
      else
        let (ctx1, inp1, out1, tot1) =
              (if data_used ctx \<noteq> 0 then
                 let todo = 48 - data_used ctx;
                     data = write_at (ctx_data ctx) (data_used ctx) (take todo inp);
                     (blk, encoded) = EVP_EncodeBlock data 48
                 in (ctx\<lparr>ctx_data := data, data_used := 0\<rparr>, drop todo inp,
                     take encoded blk @ [0x0a], encoded + 1)
               else (ctx, inp, [], 0))
        in encode_rest ctx1 inp1 out1 tot1)"

definition EVP_EncodeFinal :: "evp_encode_ctx \<Rightarrow> evp_encode_ctx \<times> bytes \<times> nat" where
  "EVP_EncodeFinal ctx =
     (if data_used ctx = 0 then (ctx, [], 0)
      else
        let (blk, encoded) = EVP_EncodeBlock (ctx_data ctx) (data_used ctx)
        in (ctx\<lparr>data_used := 0\<rparr>, take encoded blk @ [0x0a, 0], encoded + 1))"

section \<open>Decoding\<close>

definition EVP_DecodedLength :: "nat \<Rightarrow> nat option" where
  "EVP_DecodedLength len = (if len mod 4 \<noteq> 0 then None else Some (len div 4 * 3))"

definition EVP_DecodeInit :: evp_encode_ctx where
  "EVP_DecodeInit = \<lparr>data_used = 0, ctx_data = replicate 48 0, eof_seen = False, error_encountered = False\<rparr>"

text \<open>The bytes a quad stands for; None is the return value 0.\<close>

definition base64_decode_quad :: "u8 \<Rightarrow> u8 \<Rightarrow> u8 \<Rightarrow> u8 \<Rightarrow> bytes option" where
  "base64_decode_quad in0 in1 in2 in3 =
     (let a = base64_ascii_to_bin in0; b = base64_ascii_to_bin in1;
          c = base64_ascii_to_bin in2; d = base64_ascii_to_bin in3
      in if a = 0xff \<or> b = 0xff \<or> c = 0xff \<or> d = 0xff then None
         else
           let v = push_bit 18 (ucast a) OR push_bit 12 (ucast b) OR push_bit 6 (ucast c) OR ucast d :: u32;
               padding_pattern = (in0 = 0x3d, in1 = 0x3d, in2 = 0x3d, in3 = 0x3d)
           in if padding_pattern = (False, False, False, False) then
                Some [ucast (drop_bit 16 v), ucast (drop_bit 8 v), ucast v]
              else if padding_pattern = (False, False, False, True) then
                Some [ucast (drop_bit 16 v), ucast (drop_bit 8 v)]
              else if padding_pattern = (False, False, True, True) then
                Some [ucast (drop_bit 16 v)]
              else None)"

definition is_b64_space :: "u8 \<Rightarrow> bool" where
  "is_b64_space c \<longleftrightarrow> c = 0x20 \<or> c = 0x09 \<or> c = 0x0d \<or> c = 0x0a"

text \<open>The loop of \<open>EVP_DecodeUpdate\<close>: the context and what was written, and whether an error ended it.\<close>

fun decode_chars :: "evp_encode_ctx \<Rightarrow> bytes \<Rightarrow> bytes \<Rightarrow> evp_encode_ctx \<times> bytes \<times> bool" where
  "decode_chars ctx [] out = (ctx, out, True)"
| "decode_chars ctx (c # inp) out =
     (if is_b64_space c then decode_chars ctx inp out
      else if eof_seen ctx then (ctx\<lparr>error_encountered := True\<rparr>, out, False)
      else
        let ctx1 = ctx\<lparr>ctx_data := (ctx_data ctx)[data_used ctx := c], data_used := data_used ctx + 1\<rparr>
        in if data_used ctx1 = 4 then
             (case base64_decode_quad (ctx_data ctx1 ! 0) (ctx_data ctx1 ! 1) (ctx_data ctx1 ! 2)
                     (ctx_data ctx1 ! 3) of
                None \<Rightarrow> (ctx1\<lparr>error_encountered := True\<rparr>, out, False)
              | Some bs \<Rightarrow>
                  decode_chars (ctx1\<lparr>data_used := 0, eof_seen := (length bs < 3 \<or> eof_seen ctx1)\<rparr>) inp (out @ bs))
           else decode_chars ctx1 inp out)"

definition EVP_DecodeUpdate :: "evp_encode_ctx \<Rightarrow> bytes \<Rightarrow> int \<times> evp_encode_ctx \<times> bytes \<times> nat" where
  "EVP_DecodeUpdate ctx inp =
     (if error_encountered ctx then (-1, ctx, [], 0)
      else
        case decode_chars ctx inp [] of
          (ctx1, out, False) \<Rightarrow> (-1, ctx1, out, 0)
        | (ctx1, out, True) \<Rightarrow>
            if length out > INT_MAX then (-1, ctx1\<lparr>error_encountered := True\<rparr>, out, 0)
            else (if eof_seen ctx1 then 0 else 1, ctx1, out, length out))"

definition EVP_DecodeFinal :: "evp_encode_ctx \<Rightarrow> int" where
  "EVP_DecodeFinal ctx = (if error_encountered ctx \<or> data_used ctx \<noteq> 0 then -1 else 1)"

text \<open>The loop of \<open>EVP_DecodeBase64\<close>: only the last quad may stand for fewer than three bytes.\<close>

fun decode_quads :: "bytes \<Rightarrow> bytes option" where
  "decode_quads [] = Some []"
| "decode_quads (a # b # c # d # inp) =
     (case base64_decode_quad a b c d of
        None \<Rightarrow> None
      | Some bs \<Rightarrow>
          if length bs \<noteq> 3 \<and> inp \<noteq> [] then None
          else map_option (\<lambda>r. bs @ r) (decode_quads inp))"
| "decode_quads _ = None"

definition EVP_DecodeBase64 :: "nat \<Rightarrow> bytes \<Rightarrow> bytes option" where
  "EVP_DecodeBase64 max_out inp =
     (if length inp mod 4 \<noteq> 0 then None
      else
        case EVP_DecodedLength (length inp) of
          None \<Rightarrow> None
        | Some max_len \<Rightarrow> if max_out < max_len then None else decode_quads inp)"

definition trim_left :: "bytes \<Rightarrow> bytes" where
  "trim_left src = dropWhile (\<lambda>c. c = 0x20 \<or> c = 0x09) src"

definition trim_right :: "bytes \<Rightarrow> bytes" where
  "trim_right src = rev (dropWhile is_b64_space (rev src))"

definition pad_zeros :: "bytes \<Rightarrow> bytes" where
  "pad_zeros dst = dst @ replicate ((3 - length dst mod 3) mod 3) 0"

text \<open>None is the return value -1; the value returned otherwise is the number of bytes.\<close>

definition EVP_DecodeBlock :: "bytes \<Rightarrow> bytes option" where
  "EVP_DecodeBlock src =
     (let src = trim_right (trim_left src) in
      case EVP_DecodedLength (length src) of
        None \<Rightarrow> None
      | Some dst_len \<Rightarrow>
          if dst_len > INT_MAX then None
          else map_option pad_zeros (EVP_DecodeBase64 dst_len src))"

section \<open>The alphabet\<close>

text \<open>The characters of the base64 alphabet, in the order of the values they stand for.\<close>

definition b64_char :: "nat \<Rightarrow> u8" where
  "b64_char n = word_of_nat
     (if n < 26 then 65 + n else if n < 52 then 97 + (n - 26) else if n < 62 then 48 + (n - 52)
      else if n = 62 then 43 else 47)"

lemma lt_args_8_eq: "constant_time_lt_args_8 a b = (if a < b then -1 else 0)"
proof -
  have l: "unat (ucast a :: u64) = unat a" "unat (ucast b :: u64) = unat b"
    by (simp_all add: unat_ucast_up)
  have "\<not> bit (ucast a :: u64) 63" "\<not> bit (ucast b :: u64) 63"
    by (auto simp: bit_simps dest: bit_imp_le_length)
  then have "bit (ucast a - ucast b :: u64) 63 \<longleftrightarrow> (ucast a :: u64) < ucast b"
    by (intro bit_sub_63) simp
  also have "\<dots> \<longleftrightarrow> a < b" by (simp add: word_less_nat_alt l)
  finally show ?thesis by (simp add: constant_time_lt_args_8_def Let_def ct_simps)
qed

lemma eq_8_byte: "constant_time_eq_8 (ucast a) (ucast b) = (if a = b then -1 else 0)" for a b :: u8
proof -
  have "(ucast a :: u64) = ucast b \<longleftrightarrow> a = b"
    by (simp add: word_unat_eq_iff unat_ucast_up)
  then show ?thesis by (simp add: ct_simps)
qed

lemma conv_bin2ascii_cases:
  "conv_bin2ascii a =
     (let a = a AND 0x3f in
      if a < 26 then a + 0x41 else if a < 52 then a - 26 + 0x61 else if a < 62 then a - 52 + 0x30
      else if a = 62 then 0x2b else 0x2f)"
proof -
  have e: "constant_time_eq_8 (ucast (a AND 0x3f)) 62 = (if a AND 0x3f = 62 then -1 else 0)"
    using eq_8_byte [of "a AND 0x3f" 62] by simp
  show ?thesis
    unfolding conv_bin2ascii_def Let_def e lt_args_8_eq constant_time_select_8_eq ..
qed

lemma unat_and_3f: "unat (a AND 0x3f) = unat a mod 64" for a :: u8
proof -
  have "(0x3f :: u8) = mask 6" by (simp add: mask_eq_exp_minus_1)
  then have "a AND 0x3f = take_bit 6 a" by (simp only: take_bit_eq_mask)
  then show ?thesis by (simp only: unat_take_bit) simp
qed

lemma conv_bin2ascii_char: "conv_bin2ascii a = b64_char (unat a mod 64)"
proof -
  define n where "n = unat a mod 64"
  have n: "n < 64" by (simp add: n_def)
  have a: "a AND 0x3f = word_of_nat n" by (rule word_eq_of_nat) (simp add: unat_and_3f n_def)
  have u: "unat (word_of_nat n :: u8) = n" using n by simp
  have less: "(word_of_nat n :: u8) < k \<longleftrightarrow> n < unat k" "(word_of_nat n :: u8) = k \<longleftrightarrow> n = unat k" for k
    by (simp_all only: word_less_nat_alt word_unat_eq_iff u)
  show ?thesis
    unfolding conv_bin2ascii_cases a Let_def less n_def [symmetric] b64_char_def
    using n by (auto simp: of_nat_diff)
qed

lemma in_range_8_eq:
  assumes "mn \<le> mx" "mx - mn \<noteq> -1"
  shows "constant_time_in_range_8 a mn mx = (if mn \<le> a \<and> a \<le> mx then -1 else 0)"
proof -
  have le: "unat mn \<le> unat mx" using assms(1) by (simp only: word_le_nat_alt)
  have m: "unat mx < 256" by simp
  have d: "unat (mx - mn) = unat mx - unat mn" using le by (simp add: unat_sub word_le_nat_alt)
  have "unat (mx - mn) \<noteq> unat (-1 :: u8)" using assms(2) by (simp only: word_unat_eq_iff [symmetric] not_False_eq_True)
  moreover have "unat (-1 :: u8) = 255" by (simp add: unsigned_minus_1_eq_mask mask_eq_exp_minus_1)
  ultimately have d255: "unat mx - unat mn \<noteq> 255" by (simp add: d)
  have e: "unat (mx - mn + 1) = unat mx - unat mn + 1"
  proof -
    have "Suc (unat mx - unat mn) < 256" using d255 unat_byte_less [of mx] by linarith
    then show ?thesis by (simp add: unat_word_ariths d)
  qed
  have "a - mn < mx - mn + 1 \<longleftrightarrow> mn \<le> a \<and> a \<le> mx"
  proof (cases "mn \<le> a")
    case True
    then have "unat (a - mn) = unat a - unat mn" by (simp add: unat_sub)
    with True le e show ?thesis by (auto simp: word_less_nat_alt word_le_nat_alt)
  next
    case False
    then have l: "unat a < unat mn" by (simp add: word_le_nat_alt)
    have "unat (a - mn) = 256 + unat a - unat mn"
      using l m le by (simp add: unat_sub_if')
    moreover have "\<not> 256 + unat a - unat mn < Suc (unat mx - unat mn)"
      using l le unat_byte_less [of mx] by linarith
    ultimately show ?thesis using False e by (simp add: word_less_nat_alt)
  qed
  then show ?thesis by (simp add: constant_time_in_range_8_def Let_def lt_args_8_eq)
qed

lemma ascii_to_bin_cases:
  "base64_ascii_to_bin a =
     (if a = 0x3d then 0 else if a = 0x2f then 63 else if a = 0x2b then 62
      else if 0x30 \<le> a \<and> a \<le> 0x39 then a - 0x30 + 52
      else if 0x61 \<le> a \<and> a \<le> 0x7a then a - 0x61 + 26
      else if 0x41 \<le> a \<and> a \<le> 0x5a then a - 0x41 else 0xff)"
proof -
  have e: "constant_time_eq_8 (ucast a) 0x2b = (if a = 0x2b then -1 else 0)"
    "constant_time_eq_8 (ucast a) 0x2f = (if a = 0x2f then -1 else 0)"
    "constant_time_eq_8 (ucast a) 0x3d = (if a = 0x3d then -1 else 0)"
    by (simp_all add: eq_8_byte [of a "0x2b", simplified] eq_8_byte [of a "0x2f", simplified] eq_8_byte [of a "0x3d", simplified])
  have r: "constant_time_in_range_8 a 0x41 0x5a = (if 0x41 \<le> a \<and> a \<le> 0x5a then -1 else 0)"
    "constant_time_in_range_8 a 0x61 0x7a = (if 0x61 \<le> a \<and> a \<le> 0x7a then -1 else 0)"
    "constant_time_in_range_8 a 0x30 0x39 = (if 0x30 \<le> a \<and> a \<le> 0x39 then -1 else 0)"
    by (simp_all add: in_range_8_eq)
  show ?thesis
    unfolding base64_ascii_to_bin_def Let_def e r constant_time_select_8_eq ..
qed

lemma b64_char_value: "n < 64 \<Longrightarrow> unat (base64_ascii_to_bin (b64_char n)) = n"
proof -
  assume n: "n < 64"
  have "list_all (\<lambda>n. unat (base64_ascii_to_bin (b64_char n)) = n) [0..<64]"
    unfolding ascii_to_bin_cases b64_char_def by code_simp
  then show ?thesis using n by (simp add: list_all_iff)
qed

lemma b64_char_not_special: "n < 64 \<Longrightarrow> b64_char n \<noteq> 0x3d \<and> \<not> is_b64_space (b64_char n)"
proof -
  assume n: "n < 64"
  have "list_all (\<lambda>n. b64_char n \<noteq> 0x3d \<and> \<not> is_b64_space (b64_char n)) [0..<64]"
    unfolding b64_char_def is_b64_space_def by code_simp
  then show ?thesis using n by (simp add: list_all_iff)
qed

section \<open>Quads\<close>

text \<open>Three bytes as one number, and its four sextets.\<close>

definition b64_num :: "u8 \<Rightarrow> u8 \<Rightarrow> u8 \<Rightarrow> nat" where
  "b64_num a b c = unat a * 65536 + unat b * 256 + unat c"

definition b64_quad :: "nat \<Rightarrow> bytes" where
  "b64_quad n = map (\<lambda>k. b64_char (n div 64 ^ k mod 64)) [3, 2, 1, 0]"

lemma b64_num_less: "b64_num a b c < 2 ^ 24"
proof -
  have "b64_num a b c < 16777216"
    using unat_byte_less [of a] unat_byte_less [of b] unat_byte_less [of c]
    unfolding b64_num_def by linarith
  then show ?thesis by simp
qed

lemma unat_group: "unat (push_bit 16 (ucast s0) OR push_bit 8 (ucast s1) OR ucast s2 :: u32) = b64_num s0 s1 s2"
proof -
  have b: "unat (ucast b :: u32) = unat b" for b :: u8 by (simp add: unat_ucast_up)
  have 1: "unat (push_bit 8 (ucast s1) OR ucast s2 :: u32) = unat s1 * 2 ^ 8 + unat s2"
    using unat_push_or [of "ucast s2 :: u32" 8 "ucast s1"] unat_byte_less [of s1] unat_byte_less [of s2]
    by (simp add: b)
  have "unat (push_bit 16 (ucast s0) OR (push_bit 8 (ucast s1) OR ucast s2) :: u32) =
      unat s0 * 2 ^ 16 + (unat s1 * 2 ^ 8 + unat s2)"
    using unat_push_or [of "push_bit 8 (ucast s1) OR ucast s2 :: u32" 16 "ucast s0"]
      unat_byte_less [of s0] unat_byte_less [of s1] unat_byte_less [of s2]
    by (simp add: b 1)
  then show ?thesis by (simp add: b64_num_def or.assoc)
qed

lemma conv_group: "conv_bin2ascii (ucast (drop_bit k (l :: u32))) = b64_char (unat l div 2 ^ k mod 64)"
proof -
  have "unat (ucast (drop_bit k l) :: u8) mod 64 = unat (drop_bit k l) mod 256 mod 64"
    by (simp add: unsigned_ucast_eq take_bit_eq_mod)
  also have "\<dots> = unat l div 2 ^ k mod 64"
    by (simp only: unat_drop) (simp add: mod_mod_cancel)
  finally show ?thesis by (simp only: conv_bin2ascii_char)
qed

lemma encode_block_3:
  "encode_block (s0 # s1 # s2 # src) = b64_quad (b64_num s0 s1 s2) @ encode_block src"
  using conv_group [of 0 "push_bit 16 (ucast s0) OR push_bit 8 (ucast s1) OR ucast s2 :: u32"]
  by (simp add: Let_def conv_group unat_group b64_quad_def)

lemma encode_block_2: "encode_block [s0, s1] = take 3 (b64_quad (b64_num s0 s1 0)) @ [0x3d]"
  using unat_group [of s0 s1 0] by (simp add: Let_def conv_group b64_quad_def)

lemma encode_block_1: "encode_block [s0] = take 2 (b64_quad (b64_num s0 0 0)) @ [0x3d, 0x3d]"
  using unat_group [of s0 0 0] by (simp add: Let_def conv_group b64_quad_def)

text \<open>A quad of values below 64 is put together again.\<close>

lemma sextets: "n < 2 ^ 24 \<Longrightarrow>
  n div 64 ^ 3 mod 64 * 2 ^ 18 + (n div 64 ^ 2 mod 64 * 2 ^ 12 + (n div 64 mod 64 * 2 ^ 6 + n mod 64)) = n"
  for n :: nat
proof -
  assume n: "n < 2 ^ 24"
  have d: "n div 4096 = n div 64 div 64" "n div 262144 = n div 4096 div 64"
    by (simp_all add: div_mult2_eq [symmetric])
  have 1: "n = n div 64 * 64 + n mod 64" by simp
  have 2: "n div 64 = n div 4096 * 64 + n div 64 mod 64" unfolding d by simp
  have 3: "n div 4096 = n div 262144 * 64 + n div 4096 mod 64" unfolding d(2) by simp
  have "n div 262144 < 64" using n by simp
  then have "n div 262144 mod 64 = n div 262144" by simp
  moreover have "n div 262144 * 262144 + (n div 4096 mod 64 * 4096 + (n div 64 mod 64 * 64 + n mod 64)) = n"
    using 1 2 3 by linarith
  ultimately show ?thesis by simp
qed

lemma unat_quad:
  assumes "unat a < 64" "unat b < 64" "unat c < 64" "unat d < (64 :: nat)"
  shows "unat (push_bit 18 (ucast (a :: u8)) OR push_bit 12 (ucast (b :: u8)) OR
      push_bit 6 (ucast (c :: u8)) OR ucast (d :: u8) :: u32) =
    unat a * 2 ^ 18 + (unat b * 2 ^ 12 + (unat c * 2 ^ 6 + unat d))"
proof -
  have u: "unat (ucast b :: u32) = unat b" for b :: u8 by (simp add: unat_ucast_up)
  have 1: "unat (push_bit 6 (ucast c) OR ucast d :: u32) = unat c * 2 ^ 6 + unat d"
    using unat_push_or [of "ucast d :: u32" 6 "ucast c"] assms by (simp add: u)
  have 2: "unat (push_bit 12 (ucast b) OR (push_bit 6 (ucast c) OR ucast d) :: u32) =
      unat b * 2 ^ 12 + (unat c * 2 ^ 6 + unat d)"
    using unat_push_or [of "push_bit 6 (ucast c) OR ucast d :: u32" 12 "ucast b"] assms by (simp add: u 1)
  have "unat (push_bit 18 (ucast a) OR (push_bit 12 (ucast b) OR (push_bit 6 (ucast c) OR ucast d)) :: u32) =
      unat a * 2 ^ 18 + (unat b * 2 ^ 12 + (unat c * 2 ^ 6 + unat d))"
    using unat_push_or [of "push_bit 12 (ucast b) OR (push_bit 6 (ucast c) OR ucast d) :: u32" 18 "ucast a"] assms
    by (simp add: u 2)
  then show ?thesis by (simp add: or.assoc)
qed

lemma byte_of_num: "ucast (v :: u32) = (word_of_nat (unat v) :: u8)"
  by simp

lemma b64_char_neq:
  "n < 64 \<Longrightarrow> b64_char n \<noteq> 0x3d" "n < 64 \<Longrightarrow> base64_ascii_to_bin (b64_char n) \<noteq> 0xff"
  using b64_char_not_special [of n] b64_char_value [of n] by auto

lemma bin_equals: "base64_ascii_to_bin 0x3d = 0"
  by (simp add: ascii_to_bin_cases)

lemma unat_quad_num:
  assumes "n < 2 ^ 24" "unat a = n div 64 ^ 3 mod 64" "unat b = n div 64 ^ 2 mod 64"
    "unat c = n div 64 mod 64" "unat d = n mod 64"
  shows "unat (push_bit 18 (ucast (a :: u8)) OR push_bit 12 (ucast (b :: u8)) OR
      push_bit 6 (ucast (c :: u8)) OR ucast (d :: u8) :: u32) = n"
  using unat_quad [of a b c d] sextets [OF assms(1)] assms(2-) by simp

lemma decode_quad_3:
  assumes n: "n < 2 ^ 24"
  shows "base64_decode_quad (b64_char (n div 64 ^ 3 mod 64)) (b64_char (n div 64 ^ 2 mod 64))
      (b64_char (n div 64 mod 64)) (b64_char (n mod 64)) =
    Some [word_of_nat (n div 65536), word_of_nat (n div 256), word_of_nat n]"
proof -
  have l: "k mod 64 < 64" for k :: nat by simp
  note v = unat_quad_num [OF n b64_char_value [OF l] b64_char_value [OF l] b64_char_value [OF l] b64_char_value [OF l]]
  show ?thesis
    unfolding base64_decode_quad_def Let_def
    by (simp only: b64_char_neq [OF l] byte_of_num unat_drop v) simp
qed

lemma decode_quad_2:
  assumes n: "n < 2 ^ 24" "n mod 64 = 0"
  shows "base64_decode_quad (b64_char (n div 64 ^ 3 mod 64)) (b64_char (n div 64 ^ 2 mod 64))
      (b64_char (n div 64 mod 64)) 0x3d =
    Some [word_of_nat (n div 65536), word_of_nat (n div 256)]"
proof -
  have l: "k mod 64 < 64" for k :: nat by simp
  have "unat (base64_ascii_to_bin 0x3d) = n mod 64" by (simp add: bin_equals n(2))
  note v = unat_quad_num [OF n(1) b64_char_value [OF l] b64_char_value [OF l] b64_char_value [OF l] this]
  show ?thesis
    unfolding base64_decode_quad_def Let_def
    by (simp only: b64_char_neq [OF l] byte_of_num unat_drop v) (simp add: bin_equals)
qed

lemma decode_quad_1:
  assumes n: "n < 2 ^ 24" "n mod 64 = 0" "n div 64 mod 64 = 0"
  shows "base64_decode_quad (b64_char (n div 64 ^ 3 mod 64)) (b64_char (n div 64 ^ 2 mod 64)) 0x3d 0x3d =
    Some [word_of_nat (n div 65536)]"
proof -
  have l: "k mod 64 < 64" for k :: nat by simp
  have z: "unat (base64_ascii_to_bin 0x3d) = n mod 64" "unat (base64_ascii_to_bin 0x3d) = n div 64 mod 64"
    using n(2,3) by (simp_all add: bin_equals)
  note v = unat_quad_num [OF n(1) b64_char_value [OF l] b64_char_value [OF l] z(2) z(1)]
  show ?thesis
    unfolding base64_decode_quad_def Let_def
    by (simp only: b64_char_neq [OF l] byte_of_num unat_drop v) (simp add: bin_equals)
qed

lemma b64_num_bytes:
  "word_of_nat (b64_num a b c div 65536) = a" "word_of_nat (b64_num a b c div 256) = b"
  "word_of_nat (b64_num a b c) = c"
proof -
  have "b64_num a b c div 65536 = unat a"
  proof -
    have "unat b * 256 + unat c < 65536" using unat_byte_less [of b] unat_byte_less [of c] by linarith
    moreover have "b64_num a b c = (unat b * 256 + unat c) + unat a * 65536" by (simp add: b64_num_def)
    ultimately show ?thesis by simp
  qed
  then show "word_of_nat (b64_num a b c div 65536) = a" by simp
  have e: "b64_num a b c = (unat a * 256 + unat b) * 256 + unat c" by (simp add: b64_num_def)
  have "b64_num a b c div 256 = unat a * 256 + unat b"
    unfolding e by (subst div_mult_self3) simp_all
  moreover have "(unat a * 256 + unat b) mod 256 = unat b"
    by (metis mod_mult_self3 mod_less unat_byte_less)
  ultimately show "word_of_nat (b64_num a b c div 256) = b"
    by (metis byte_eq_of_nat)
  have "b64_num a b c mod 256 = unat c"
    unfolding e by (metis mod_mult_self3 mod_less unat_byte_less)
  then show "word_of_nat (b64_num a b c) = c" by (metis byte_eq_of_nat)
qed

lemma b64_num_zero:
  "b64_num a b 0 mod 64 = 0" "b64_num a 0 0 mod 64 = 0" "b64_num a 0 0 div 64 mod 64 = 0"
proof -
  have "b64_num a b 0 = 64 * (unat a * 1024 + unat b * 4)" by (simp add: b64_num_def)
  then show "b64_num a b 0 mod 64 = 0" by (metis mod_mult_self1_is_0)
  have "b64_num a 0 0 = 64 * (64 * (unat a * 16))" by (simp add: b64_num_def)
  then show "b64_num a 0 0 mod 64 = 0" "b64_num a 0 0 div 64 mod 64 = 0" by (metis mod_mult_self1_is_0, simp)
qed

text \<open>Decoding an encoded block gives it back.\<close>

lemma decode_encode_block: "decode_quads (encode_block s) = Some s"
proof (induction s rule: encode_block.induct)
  case 1
  then show ?case by simp
next
  case (2 s0)
  have "take 2 (b64_quad n) = [b64_char (n div 64 ^ 3 mod 64), b64_char (n div 64 ^ 2 mod 64)]" for n
    by (simp add: b64_quad_def)
  then show ?case
    using decode_quad_1 [OF b64_num_less b64_num_zero(2,3), of s0]
    by (simp add: encode_block_1 b64_num_bytes del: encode_block.simps power_numeral)
next
  case (3 s0 s1)
  have "take 3 (b64_quad n) = [b64_char (n div 64 ^ 3 mod 64), b64_char (n div 64 ^ 2 mod 64),
      b64_char (n div 64 mod 64)]" for n
    by (simp add: b64_quad_def)
  then show ?case
    using decode_quad_2 [OF b64_num_less b64_num_zero(1), of s0 s1]
    by (simp add: encode_block_2 b64_num_bytes del: encode_block.simps power_numeral)
next
  case (4 s0 s1 s2 src)
  have "b64_quad n = [b64_char (n div 64 ^ 3 mod 64), b64_char (n div 64 ^ 2 mod 64),
      b64_char (n div 64 mod 64), b64_char (n mod 64)]" for n
    by (simp add: b64_quad_def)
  then show ?case
    using decode_quad_3 [OF b64_num_less, of s0 s1 s2] 4
    by (simp add: encode_block_3 b64_num_bytes del: encode_block.simps power_numeral)
qed

lemma length_encode_block: "length (encode_block s) = 4 * ((length s + 2) div 3)"
  by (induction s rule: encode_block.induct) (simp_all add: Let_def, presburger)

section \<open>Lengths\<close>

lemma EVP_EncodedLength_eq:
  assumes "len < SIZE_LIMIT"
  shows "EVP_EncodedLength len =
    (if 4 * ((len + 2) div 3) + 1 < SIZE_LIMIT then Some (4 * ((len + 2) div 3) + 1) else None)"
proof (cases "len + 2 < SIZE_LIMIT")
  case False
  then have "sz (len + 2) < len" using sz_add_overflow [of len 2] assms by simp
  moreover have "\<not> 4 * ((len + 2) div 3) + 1 < SIZE_LIMIT" using False by simp
  ultimately show ?thesis by (simp only: EVP_EncodedLength_def if_True if_False)
next
  case True
  define k where "k = (len + 2) div 3"
  have s: "sz (len + 2) = len + 2" using True by (rule sz_id)
  have e: "EVP_EncodedLength len =
      (if sz (k * 4) div 4 \<noteq> k then None
       else if sz (sz (k * 4) + 1) < sz (k * 4) then None else Some (sz (sz (k * 4) + 1)))"
    by (simp only: EVP_EncodedLength_def s k_def Let_def) simp
  show ?thesis
  proof (cases "k * 4 < SIZE_LIMIT")
    case True
    then have "sz (k * 4) = k * 4" by (rule sz_id)
    moreover have "k * 4 + 1 < SIZE_LIMIT" using True by simp
    then have "sz (k * 4 + 1) = k * 4 + 1" by (rule sz_id)
    ultimately show ?thesis using \<open>k * 4 + 1 < SIZE_LIMIT\<close>
      unfolding e k_def [symmetric] mult.commute [of 4 k] by simp
  next
    case False
    have "sz (k * 4) < SIZE_LIMIT" by (rule sz_less)
    then have "sz (k * 4) div 4 < k" using False by simp
    moreover have "\<not> 4 * k + 1 < SIZE_LIMIT" using False by simp
    ultimately show ?thesis unfolding e k_def [symmetric] by simp
  qed
qed

section \<open>Streaming\<close>

text \<open>
  The reference: every 48 bytes are a line, and the rest is a line at the end.
\<close>

function b64_full_lines :: "bytes \<Rightarrow> bytes" where
  "b64_full_lines s =
     (if length s \<ge> 48 then encode_block (take 48 s) @ [0x0a] @ b64_full_lines (drop 48 s) else [])"
  by pat_completeness auto
termination by (relation "measure length") auto

function b64_pending :: "bytes \<Rightarrow> bytes" where
  "b64_pending s = (if length s \<ge> 48 then b64_pending (drop 48 s) else s)"
  by pat_completeness auto
termination by (relation "measure length") auto

declare b64_full_lines.simps [simp del] b64_pending.simps [simp del]

definition b64_text :: "bytes \<Rightarrow> bytes" where
  "b64_text s = b64_full_lines s @
     (if b64_pending s = [] then [] else encode_block (b64_pending s) @ [0x0a])"

lemma b64_short: "length s < 48 \<Longrightarrow> b64_full_lines s = [] \<and> b64_pending s = s"
  by (simp add: b64_full_lines.simps b64_pending.simps)

lemma b64_long:
  "48 \<le> length s \<Longrightarrow> b64_full_lines s = encode_block (take 48 s) @ [0x0a] @ b64_full_lines (drop 48 s)"
  "48 \<le> length s \<Longrightarrow> b64_pending s = b64_pending (drop 48 s)"
  by (simp_all add: b64_full_lines.simps [of s] b64_pending.simps [of s])

lemma b64_pending_less: "length (b64_pending s) < 48"
  by (induction s rule: b64_pending.induct) (subst b64_pending.simps, simp)

text \<open>A prefix is encoded as far as its lines go; what it leaves pending precedes the rest.\<close>

lemma b64_append:
  "b64_full_lines (s @ t) = b64_full_lines s @ b64_full_lines (b64_pending s @ t)"
  "b64_pending (s @ t) = b64_pending (b64_pending s @ t)"
proof (induction s rule: b64_full_lines.induct)
  case (1 s)
  {
    case 1
    show ?case
      using "1.IH"(1) by (cases "48 \<le> length s") (simp_all add: b64_long [of s] b64_long [of "s @ t"] b64_short)
  next
    case 2
    show ?case
      using "1.IH"(2) by (cases "48 \<le> length s") (simp_all add: b64_long [of s] b64_long [of "s @ t"] b64_short)
  }
qed

lemma length_full_lines: "length (b64_full_lines s) = 65 * (length s div 48)"
proof (induction s rule: b64_full_lines.induct)
  case (1 s)
  show ?case
  proof (cases "48 \<le> length s")
    case True
    have "length s div 48 = Suc ((length s - 48) div 48)" using True by (simp add: le_div_geq)
    then show ?thesis using 1 True by (simp add: b64_long length_encode_block)
  next
    case False
    then show ?thesis by (simp add: b64_short)
  qed
qed

lemma encode_lines_eq:
  "length inp \<le> fuel \<Longrightarrow> tot + 65 * (length inp div 48) < SIZE_LIMIT \<Longrightarrow>
   encode_lines fuel inp out tot =
     (Some (b64_pending inp, out @ b64_full_lines inp, tot + length (b64_full_lines inp)),
      out @ b64_full_lines inp)"
proof (induction fuel inp out tot rule: encode_lines.induct)
  case (1 inp out tot)
  then show ?case by (simp add: b64_short)
next
  case (2 fuel inp out tot)
  show ?case
  proof (cases "48 \<le> length inp")
    case False
    then show ?thesis by (simp add: b64_short)
  next
    case True
    have d: "length inp div 48 = Suc ((length inp - 48) div 48)" using True by (simp add: le_div_geq)
    have eb: "EVP_EncodeBlock inp 48 = (encode_block (take 48 inp) @ [0], 64)"
      using True by (simp add: EVP_EncodeBlock_def Let_def length_encode_block)
    have le: "length (encode_block (take 48 inp)) = 64" using True by (simp add: length_encode_block)
    have s: "sz (tot + 64 + 1) = tot + 65" "sz (tot + (64 + 1)) = tot + 65"
      using "2.prems"(2) d by (simp_all add: sz_id)
    have "encode_lines (Suc fuel) inp out tot =
        encode_lines fuel (drop 48 inp) (out @ encode_block (take 48 inp) @ [0x0a]) (tot + 65)"
      using True s by (simp add: eb le Let_def del: encode_block.simps)
    also have "\<dots> = (Some (b64_pending (drop 48 inp),
        (out @ encode_block (take 48 inp) @ [0x0a]) @ b64_full_lines (drop 48 inp),
        tot + 65 + length (b64_full_lines (drop 48 inp))),
        (out @ encode_block (take 48 inp) @ [0x0a]) @ b64_full_lines (drop 48 inp))"
    proof -
      have "\<not> sz (tot + 64 + 1) < tot" using s by simp
      with "2.IH" [OF True eb [symmetric] refl refl] True "2.prems" d s le
      show ?thesis by (simp del: encode_block.simps)
    qed
    finally show ?thesis using True by (simp add: b64_long length_encode_block del: encode_block.simps)
  qed
qed

text \<open>The context holds the bytes of the line not yet complete.\<close>

definition enc_ok :: "evp_encode_ctx \<Rightarrow> bool" where
  "enc_ok ctx \<longleftrightarrow> length (ctx_data ctx) = 48 \<and> data_used ctx < 48"

definition enc_pending :: "evp_encode_ctx \<Rightarrow> bytes" where
  "enc_pending ctx = take (data_used ctx) (ctx_data ctx)"

lemma EVP_EncodeUpdate_ok:
  assumes ctx: "enc_ok ctx" and len: "length inp < 2 ^ 30"
    and r: "EVP_EncodeUpdate ctx inp = (ctx', out, out_len)"
  shows "enc_ok ctx'" "enc_pending ctx' = b64_pending (enc_pending ctx @ inp)"
    "take out_len out = b64_full_lines (enc_pending ctx @ inp)"
    "out = with_nul (b64_full_lines (enc_pending ctx @ inp))"
proof -
  define p where "p = enc_pending ctx"
  have dl: "length (ctx_data ctx) = 48" "data_used ctx < 48" using ctx by (auto simp: enc_ok_def)
  have pl: "length p = data_used ctx" using dl by (simp add: p_def enc_pending_def)
  have "enc_ok ctx' \<and> enc_pending ctx' = b64_pending (p @ inp) \<and>
      take out_len out = b64_full_lines (p @ inp) \<and> out = with_nul (b64_full_lines (p @ inp))"
  proof (cases "data_used ctx + length inp < 48")
    case True
    have "take (data_used ctx + length inp) (write_at (ctx_data ctx) (data_used ctx) inp) = p @ inp"
      using take_write_at [of "data_used ctx" inp "ctx_data ctx"] True dl by (simp add: p_def enc_pending_def)
    then show ?thesis
      using r True dl b64_short [of "p @ inp"] pl
      by (auto simp: EVP_EncodeUpdate_def enc_ok_def enc_pending_def with_nul_def p_def split: if_splits)
  next
    case False
    define tail where "tail = (if data_used ctx \<noteq> 0 then drop (48 - data_used ctx) inp else inp)"
    define out1 where "out1 = (if data_used ctx \<noteq> 0 then
        encode_block (p @ take (48 - data_used ctx) inp) @ [0x0a] else [])"
    define ctx1 where "ctx1 = (if data_used ctx \<noteq> 0 then
        ctx\<lparr>ctx_data := write_at (ctx_data ctx) (data_used ctx) (take (48 - data_used ctx) inp), data_used := 0\<rparr>
        else ctx)"
    have full: "write_at (ctx_data ctx) (data_used ctx) (take (48 - data_used ctx) inp) =
        p @ take (48 - data_used ctx) inp"
      using False dl by (simp add: write_at_def p_def enc_pending_def)
    have l48: "length (p @ take (48 - data_used ctx) inp) = 48" using False dl pl by simp
    have eb: "EVP_EncodeBlock (p @ take (48 - data_used ctx) inp) 48 =
        (encode_block (p @ take (48 - data_used ctx) inp) @ [0], 64)"
    proof -
      have "take 48 (p @ take (48 - data_used ctx) inp) = p @ take (48 - data_used ctx) inp"
        using l48 by (intro take_all) simp
      then show ?thesis
        using l48 by (simp only: EVP_EncodeBlock_def Let_def length_encode_block) simp
    qed
    have l64: "length (encode_block (p @ take (48 - data_used ctx) inp)) = 64"
      using l48 by (simp add: length_encode_block)
    have lines: "b64_full_lines (p @ inp) = out1 @ b64_full_lines tail"
      and pend: "b64_pending (p @ inp) = b64_pending tail"
    proof -
      have "data_used ctx \<noteq> 0 \<Longrightarrow> b64_full_lines (p @ inp) = out1 @ b64_full_lines tail \<and>
          b64_pending (p @ inp) = b64_pending tail"
        using b64_long [of "p @ inp"] False dl by (simp add: out1_def tail_def pl [symmetric])
      moreover have "data_used ctx = 0 \<Longrightarrow> p = []" using pl by simp
      ultimately show "b64_full_lines (p @ inp) = out1 @ b64_full_lines tail"
        "b64_pending (p @ inp) = b64_pending tail"
        by (cases "data_used ctx = 0"; simp add: out1_def tail_def)+
    qed
    have lt: "length tail \<le> length inp" by (simp add: tail_def)
    have "length out1 + 65 * (length tail div 48) < SIZE_LIMIT"
    proof -
      have "65 * (length tail div 48) \<le> 65 * length tail" by simp
      moreover have "length out1 \<le> 65" using l64 by (simp add: out1_def)
      ultimately show ?thesis using lt len by simp
    qed
    note el = encode_lines_eq [OF order_refl this, of out1]
    have "EVP_EncodeUpdate ctx inp = encode_rest ctx1 tail out1 (length out1)"
      using False dl l64
      by (auto simp: EVP_EncodeUpdate_def full eb tail_def out1_def ctx1_def Let_def)
    with r el have ctx': "ctx' = ctx1\<lparr>ctx_data := write_at (ctx_data ctx1) 0 (b64_pending tail),
          data_used := length (b64_pending tail)\<rparr>"
      and out: "out = with_nul (b64_full_lines (p @ inp))"
      and ol: "out_len = (if length (b64_full_lines (p @ inp)) > INT_MAX then 0 else length (b64_full_lines (p @ inp)))"
      by (auto simp: lines encode_rest_def)
    have "length (p @ inp) < 2 ^ 30 + 48" using pl dl len by simp
    then have "length (b64_full_lines (p @ inp)) \<le> INT_MAX"
      by (simp add: length_full_lines INT_MAX_def)
    then have "take out_len out = b64_full_lines (p @ inp)"
      using ol out by (auto simp: with_nul_def)
    moreover have "length (ctx_data ctx1) = 48"
      using dl full l48 by (simp add: ctx1_def)
    then have "enc_ok ctx' \<and> enc_pending ctx' = b64_pending tail"
      using b64_pending_less [of tail] by (simp add: ctx' enc_ok_def enc_pending_def write_at_def)
    ultimately show ?thesis using out pend by simp
  qed
  then show "enc_ok ctx'" "enc_pending ctx' = b64_pending (enc_pending ctx @ inp)"
    "take out_len out = b64_full_lines (enc_pending ctx @ inp)"
    "out = with_nul (b64_full_lines (enc_pending ctx @ inp))" by (auto simp: p_def)
qed

lemma EVP_EncodeFinal_ok:
  assumes "enc_ok ctx" "EVP_EncodeFinal ctx = (ctx', out, out_len)"
  shows "take out_len out = (if enc_pending ctx = [] then [] else encode_block (enc_pending ctx) @ [0x0a])"
  using assms
  by (auto simp: EVP_EncodeFinal_def EVP_EncodeBlock_def enc_ok_def enc_pending_def Let_def
      simp del: encode_block.simps split: if_splits)

text \<open>A whole stream: the caller keeps \<open>*out_len\<close> bytes of each call.\<close>

fun encode_chunks :: "evp_encode_ctx \<Rightarrow> bytes list \<Rightarrow> bytes" where
  "encode_chunks ctx [] = (let (_, out, n) = EVP_EncodeFinal ctx in take n out)"
| "encode_chunks ctx (c # cs) = (let (ctx', out, n) = EVP_EncodeUpdate ctx c in take n out @ encode_chunks ctx' cs)"

lemma encode_chunks_ok:
  "enc_ok ctx \<Longrightarrow> list_all (\<lambda>c. length c < 2 ^ 30) cs \<Longrightarrow>
   encode_chunks ctx cs = b64_text (enc_pending ctx @ concat cs)"
proof (induction cs arbitrary: ctx)
  case Nil
  obtain ctx' out n where f: "EVP_EncodeFinal ctx = (ctx', out, n)" by (cases "EVP_EncodeFinal ctx") auto
  have "length (enc_pending ctx) < 48" using Nil.prems(1) by (simp add: enc_ok_def enc_pending_def)
  then show ?case
    using EVP_EncodeFinal_ok [OF Nil.prems(1) f] f b64_short [of "enc_pending ctx"] by (simp add: b64_text_def)
next
  case (Cons c cs)
  obtain ctx' out n where u: "EVP_EncodeUpdate ctx c = (ctx', out, n)" by (cases "EVP_EncodeUpdate ctx c") auto
  have l: "length c < 2 ^ 30" using Cons.prems(2) by simp
  note ok = EVP_EncodeUpdate_ok [OF Cons.prems(1) l u]
  have "encode_chunks ctx' cs = b64_text (enc_pending ctx' @ concat cs)"
    using Cons.prems(2) by (intro Cons.IH ok(1)) simp
  then show ?case
    using u ok(2,3) b64_append [of "enc_pending ctx @ c" "concat cs"] by (simp add: b64_text_def)
qed

section \<open>Decoding a stream\<close>

text \<open>Whitespace is skipped wherever it stands.\<close>

lemma decode_chars_filter:
  "decode_chars ctx inp out = decode_chars ctx (filter (\<lambda>c. \<not> is_b64_space c) inp) out"
  by (induction ctx inp out rule: decode_chars.induct) (auto simp: Let_def split: option.splits)

text \<open>Input may be cut anywhere.\<close>

lemma decode_chars_append:
  "decode_chars ctx (xs @ ys) out =
     (case decode_chars ctx xs out of
        (ctx', out', True) \<Rightarrow> decode_chars ctx' ys out'
      | (ctx', out', False) \<Rightarrow> (ctx', out', False))"
  by (induction ctx xs out rule: decode_chars.induct) (auto simp: Let_def split: option.splits)

definition dec_start :: "evp_encode_ctx \<Rightarrow> bool" where
  "dec_start ctx \<longleftrightarrow> length (ctx_data ctx) = 48 \<and> data_used ctx = 0 \<and> \<not> error_encountered ctx"

lemma decode_chars_quad:
  assumes ctx: "dec_start ctx" "\<not> eof_seen ctx"
    and ns: "\<not> is_b64_space a" "\<not> is_b64_space b" "\<not> is_b64_space c" "\<not> is_b64_space d"
  shows "decode_chars ctx (a # b # c # d # inp) out =
    (let data = a # b # c # d # drop 4 (ctx_data ctx) in
     case base64_decode_quad a b c d of
       None \<Rightarrow> (ctx\<lparr>ctx_data := data, data_used := 4, error_encountered := True\<rparr>, out, False)
     | Some bs \<Rightarrow>
         decode_chars (ctx\<lparr>ctx_data := data, data_used := 0, eof_seen := length bs < 3\<rparr>) inp (out @ bs))"
proof -
  obtain x0 x1 x2 x3 r where "ctx_data ctx = x0 # x1 # x2 # x3 # r"
    using ctx by (auto simp: dec_start_def length_Suc_conv eval_nat_numeral)
  then show ?thesis
    using assms by (simp add: dec_start_def Let_def split: option.split)
qed

lemma base64_decode_quad_length: "base64_decode_quad a b c d = Some bs \<Longrightarrow> 1 \<le> length bs \<and> length bs \<le> 3"
  by (auto simp: base64_decode_quad_def Let_def split: if_splits)

lemma decode_chars_quads:
  "decode_quads q = Some r \<Longrightarrow> dec_start ctx \<Longrightarrow> \<not> eof_seen ctx \<or> q = [] \<Longrightarrow> list_all (\<lambda>c. \<not> is_b64_space c) q \<Longrightarrow>
   \<exists>ctx'. decode_chars ctx q out = (ctx', out @ r, True) \<and> dec_start ctx'"
proof (induction q arbitrary: ctx out r rule: decode_quads.induct)
  case 1
  then show ?case by simp
next
  case (2 a b c d inp)
  from "2.prems"(1) obtain bs r' where bs: "base64_decode_quad a b c d = Some bs"
    and r': "decode_quads inp = Some r'" "r = bs @ r'" and l: "length bs = 3 \<or> inp = []"
    by (auto split: option.splits if_splits)
  define ctx1 where "ctx1 = ctx\<lparr>ctx_data := a # b # c # d # drop 4 (ctx_data ctx), data_used := 0,
      eof_seen := length bs < 3\<rparr>"
  have c1: "dec_start ctx1" "\<not> eof_seen ctx1 \<or> inp = []"
    using "2.prems"(2) l by (auto simp: ctx1_def dec_start_def)
  have "\<exists>ctx'. decode_chars ctx1 inp (out @ bs) = (ctx', (out @ bs) @ r', True) \<and> dec_start ctx'"
    by (rule "2.IH" [OF bs _ r'(1) c1]) (use l "2.prems" in auto)
  moreover have "decode_chars ctx (a # b # c # d # inp) out = decode_chars ctx1 inp (out @ bs)"
    using "2.prems" bs by (subst decode_chars_quad) (auto simp: Let_def ctx1_def)
  ultimately show ?case using r' by simp
qed auto

lemma encode_block_no_space: "list_all (\<lambda>c. \<not> is_b64_space c) (encode_block s)"
proof -
  have n: "\<not> is_b64_space (b64_char (k mod 64))" for k using b64_char_not_special [of "k mod 64"] by simp
  have e: "\<not> is_b64_space 0x3d" by (simp add: is_b64_space_def)
  show ?thesis
    by (induction s rule: encode_block.induct)
      (simp_all add: encode_block_1 encode_block_2 encode_block_3 b64_quad_def n e del: encode_block.simps(2-4))
qed

lemma filter_encode_block: "filter (\<lambda>c. \<not> is_b64_space c) (encode_block s) = encode_block s"
  using encode_block_no_space [of s] by (simp add: filter_id_conv list_all_iff)

text \<open>Without its line ends the stream is the block encoding of the whole.\<close>

lemma encode_block_append: "length s mod 3 = 0 \<Longrightarrow> encode_block (s @ t) = encode_block s @ encode_block t"
  by (induction s rule: encode_block.induct) (auto simp: Let_def)

lemma filter_b64_lines:
  "filter (\<lambda>c. \<not> is_b64_space c) (b64_full_lines s) @ encode_block (b64_pending s) = encode_block s"
proof (induction s rule: b64_full_lines.induct)
  case (1 s)
  show ?case
  proof (cases "48 \<le> length s")
    case True
    have "encode_block s = encode_block (take 48 s @ drop 48 s)" by simp
    also have "\<dots> = encode_block (take 48 s) @ encode_block (drop 48 s)"
      using True by (intro encode_block_append) simp
    finally show ?thesis
      using 1 True by (simp add: b64_long filter_encode_block is_b64_space_def [of 10])
  next
    case False
    then show ?thesis by (simp add: b64_short)
  qed
qed

lemma filter_b64_text: "filter (\<lambda>c. \<not> is_b64_space c) (b64_text s) = encode_block s"
  using filter_b64_lines [of s]
  by (auto simp: b64_text_def filter_encode_block is_b64_space_def [of 10])

text \<open>A stream is decoded in whatever pieces it arrives; the result keeps the written bytes.\<close>

fun decode_chunks :: "evp_encode_ctx \<Rightarrow> bytes list \<Rightarrow> bytes option" where
  "decode_chunks ctx [] = (if EVP_DecodeFinal ctx = 1 then Some [] else None)"
| "decode_chunks ctx (c # cs) =
     (let (ret, ctx', out, n) = EVP_DecodeUpdate ctx c in
      if ret = -1 then None else map_option (\<lambda>r. take n out @ r) (decode_chunks ctx' cs))"

lemma decode_chars_out: "\<exists>r. fst (snd (decode_chars ctx inp out)) = out @ r \<and> length r \<le> 3 * length inp"
proof (induction ctx inp out rule: decode_chars.induct)
  case (1 ctx out)
  then show ?case by simp
next
  case (2 ctx c inp out)
  define ctx1 where "ctx1 = ctx\<lparr>ctx_data := (ctx_data ctx)[data_used ctx := c], data_used := data_used ctx + 1\<rparr>"
  show ?case
  proof (cases "is_b64_space c \<or> eof_seen ctx")
    case True
    then show ?thesis using "2.IH"(1) by auto
  next
    case False
    show ?thesis
    proof (cases "data_used ctx1 = 4")
      case True
      show ?thesis
      proof (cases "base64_decode_quad (ctx_data ctx1 ! 0) (ctx_data ctx1 ! 1) (ctx_data ctx1 ! 2) (ctx_data ctx1 ! 3)")
        case None
        then show ?thesis using False True by (auto simp: ctx1_def Let_def)
      next
        case (Some bs)
        have "length bs \<le> 3" using base64_decode_quad_length [OF Some] by simp
        then show ?thesis
          using "2.IH"(2) [OF _ _ ctx1_def True Some] False True Some
          by (auto simp: ctx1_def Let_def)
      qed
    next
      case n4: False
      then show ?thesis
        using "2.IH"(3) [OF _ _ ctx1_def n4] False by (auto simp: ctx1_def Let_def)
    qed
  qed
qed

lemma decode_chars_prefix:
  "decode_chars ctx inp out = (case decode_chars ctx inp [] of (c, r, ok) \<Rightarrow> (c, out @ r, ok))"
proof -
  have "decode_chars ctx inp (out @ p) = (case decode_chars ctx inp p of (c, r, ok) \<Rightarrow> (c, out @ r, ok))" for p
    by (induction ctx inp p rule: decode_chars.induct) (auto simp: Let_def split: option.splits)
  from this [of "[]"] show ?thesis by simp
qed

lemma decode_chars_no_error:
  "decode_chars ctx inp out = (ctx', out', True) \<Longrightarrow> error_encountered ctx' = error_encountered ctx"
  by (induction ctx inp out rule: decode_chars.induct) (auto simp: Let_def split: option.splits if_splits)

lemma decode_chunks_ok:
  "decode_chars ctx (concat cs) [] = (ctx', r, True) \<Longrightarrow> \<not> error_encountered ctx \<Longrightarrow> data_used ctx' = 0 \<Longrightarrow>
   list_all (\<lambda>c. length c < 2 ^ 29) cs \<Longrightarrow> decode_chunks ctx cs = Some r"
proof (induction cs arbitrary: ctx r)
  case Nil
  then show ?case by (simp add: EVP_DecodeFinal_def)
next
  case (Cons c cs)
  obtain c1 o1 where d1: "decode_chars ctx c [] = (c1, o1, True)"
    and d2: "decode_chars c1 (concat cs) o1 = (ctx', r, True)"
    using Cons.prems(1) by (auto simp: decode_chars_append split: prod.splits bool.splits)
  from d2 obtain r2 where d3: "decode_chars c1 (concat cs) [] = (ctx', r2, True)" and r: "r = o1 @ r2"
    by (subst (asm) decode_chars_prefix) (auto split: prod.splits)
  have e1: "\<not> error_encountered c1" using decode_chars_no_error [OF d1] Cons.prems(2) by simp
  have "length o1 \<le> 3 * length c" using decode_chars_out [of ctx c "[]"] d1 by simp
  then have "length o1 \<le> INT_MAX" using Cons.prems(4) by (simp add: INT_MAX_def)
  then have "EVP_DecodeUpdate ctx c = (if eof_seen c1 then 0 else 1, c1, o1, length o1)"
    using Cons.prems(2) d1 by (simp add: EVP_DecodeUpdate_def)
  moreover have "decode_chunks c1 cs = Some r2"
    by (rule Cons.IH [OF d3 e1 Cons.prems(3)]) (use Cons.prems(4) in simp)
  ultimately show ?case by (simp add: r)
qed

lemma decode_init: "dec_start EVP_DecodeInit" "\<not> eof_seen EVP_DecodeInit" "\<not> error_encountered EVP_DecodeInit"
  by (simp_all add: dec_start_def EVP_DecodeInit_def)

lemma decode_text_chunks:
  assumes "filter (\<lambda>c. \<not> is_b64_space c) (concat cs) = encode_block s" "list_all (\<lambda>c. length c < 2 ^ 29) cs"
  shows "decode_chunks EVP_DecodeInit cs = Some s"
proof -
  from decode_chars_quads [OF decode_encode_block decode_init(1) _ encode_block_no_space, of s "[]"] decode_init(2)
  obtain ctx' where d: "decode_chars EVP_DecodeInit (encode_block s) [] = (ctx', s, True)" "dec_start ctx'"
    by auto
  then have "decode_chars EVP_DecodeInit (concat cs) [] = (ctx', s, True)"
    by (subst decode_chars_filter) (simp add: assms(1))
  then show ?thesis
    by (rule decode_chunks_ok) (use decode_init d assms in \<open>auto simp: dec_start_def\<close>)
qed

end
