(* ===== verification/Memory.thy ===== *)
theory Memory
  imports Prelude
begin

text \<open>
  The allocation and byte-string helpers of crypto/mem.c and the growable buffers of
  crypto/buf/buf.c. An allocator says, for the number of bytes asked of the C library's
  \<open>malloc\<close>, whether the call fails (None) and otherwise what the fresh block holds;
  the statements are for all allocators, so for every choice of the sizes that fail and every
  initial content. A pointer to a block is the list of the bytes behind it, NULL is None.
  C strings are the bytes from the pointer on; a read at the end of the list is the
  terminating NUL.
\<close>

section \<open>Allocation (crypto/mem.c)\<close>

type_synonym allocator = "nat \<Rightarrow> (nat \<Rightarrow> u8) option"

text \<open>
  The block is preceded by an 8 byte header that records the size. The addition
  \<open>size + OPENSSL_MALLOC_PREFIX\<close> is in \<open>size_t\<close>; the bytes usable behind the
  returned pointer are those of the block after the header.
\<close>

definition OPENSSL_malloc :: "allocator \<Rightarrow> nat \<Rightarrow> bytes option" where
  "OPENSSL_malloc al n =
     (case al (sz (n + 8)) of
        None \<Rightarrow> None
      | Some f \<Rightarrow> Some (map (\<lambda>i. f (i + 8)) [0..<sz (n + 8) - 8]))"

definition OPENSSL_realloc :: "allocator \<Rightarrow> bytes option \<Rightarrow> nat \<Rightarrow> bytes option" where
  "OPENSSL_realloc al orig new_size =
     (case orig of
        None \<Rightarrow> OPENSSL_malloc al new_size
      | Some old \<Rightarrow>
          (case OPENSSL_malloc al new_size of
             None \<Rightarrow> None
           | Some ret \<Rightarrow>
               (let to_copy = (if length old < new_size then length old else new_size)
                in Some (write_at ret 0 (take to_copy old)))))"

lemma length_OPENSSL_malloc:
  "OPENSSL_malloc al n = Some b \<Longrightarrow> n + 8 < SIZE_LIMIT \<Longrightarrow> length b = n"
  by (auto simp: OPENSSL_malloc_def sz_id split: option.splits)

lemma length_OPENSSL_realloc:
  "OPENSSL_realloc al orig n = Some b \<Longrightarrow> n + 8 < SIZE_LIMIT \<Longrightarrow> length b = n"
  by (auto simp: OPENSSL_realloc_def Let_def dest: length_OPENSSL_malloc split: option.splits)

lemma take_OPENSSL_realloc:
  assumes "OPENSSL_realloc al (Some old) n = Some b" "n + 8 < SIZE_LIMIT"
    "k \<le> length old" "k \<le> n"
  shows "take k b = take k old"
  using assms by (auto simp: OPENSSL_realloc_def write_at_def Let_def min_absorb1 split: option.splits)

text \<open>
  No allocator gives out \<open>2 ^ 62\<close> bytes: addresses have fewer bits. \<open>alloc_total\<close> is an
  allocator that never fails below that size.
\<close>

definition alloc_bounded :: "allocator \<Rightarrow> bool" where
  "alloc_bounded al \<longleftrightarrow> (\<forall>n \<ge> 2 ^ 62. al n = None)"

definition alloc_total :: "allocator \<Rightarrow> bool" where
  "alloc_total al \<longleftrightarrow> (\<forall>n < 2 ^ 62. al n \<noteq> None)"

lemma malloc_total:
  assumes "alloc_total al" "n < 2 ^ 61"
  shows "\<exists>b. OPENSSL_malloc al n = Some b"
proof -
  have "sz (n + 8) = n + 8" using assms(2) by (intro sz_id) simp
  moreover have "n + 8 < 2 ^ 62" using assms(2) by simp
  then have "al (n + 8) \<noteq> None" using assms(1) unfolding alloc_total_def by blast
  ultimately show ?thesis by (auto simp: OPENSSL_malloc_def)
qed

lemma malloc_bounded:
  assumes al: "alloc_bounded al" and r: "OPENSSL_malloc al n = Some b" and n: "n < 2 ^ 63"
  shows "length b = n" "n < 2 ^ 62"
proof -
  have s: "sz (n + 8) = n + 8" using n by (intro sz_id) simp
  have "al (n + 8) \<noteq> None" using r by (auto simp: OPENSSL_malloc_def s split: option.splits)
  then have "n + 8 < 2 ^ 62" using al unfolding alloc_bounded_def by (meson leI)
  then show "n < 2 ^ 62" by simp
  have "n + 8 < SIZE_LIMIT" using n by simp
  then show "length b = n" by (rule length_OPENSSL_malloc [OF r])
qed

section \<open>Comparison, hashing and C strings (crypto/mem.c)\<close>

text \<open>The constant-time comparison accumulates the differences of all bytes.\<close>

definition CRYPTO_memcmp :: "bytes \<Rightarrow> bytes \<Rightarrow> nat \<Rightarrow> u8" where
  "CRYPTO_memcmp a b len =
     foldl (\<lambda>x (p, q). x OR (p XOR q)) 0 (zip (take len a) (take len b))"

definition OPENSSL_hash32 :: "bytes \<Rightarrow> nat \<Rightarrow> u32" where
  "OPENSSL_hash32 ptr len =
     foldl (\<lambda>h b. (h XOR ucast b) * 16777619) 2166136261 (take len ptr)"

fun OPENSSL_strnlen :: "bytes \<Rightarrow> nat \<Rightarrow> nat" where
  "OPENSSL_strnlen s 0 = 0"
| "OPENSSL_strnlen [] (Suc n) = 0"
| "OPENSSL_strnlen (c # s) (Suc n) = (if c = 0 then 0 else Suc (OPENSSL_strnlen s n))"

definition strlen :: "bytes \<Rightarrow> nat" where
  "strlen s = length (takeWhile (\<lambda>c. c \<noteq> 0) s)"

definition OPENSSL_strdup :: "allocator \<Rightarrow> bytes \<Rightarrow> bytes option" where
  "OPENSSL_strdup al s =
     (let len = strlen s + 1 in
      case OPENSSL_malloc al len of
        None \<Rightarrow> None
      | Some ret \<Rightarrow> Some (write_at ret 0 (take len (s @ [0]))))"

definition OPENSSL_tolower :: "int \<Rightarrow> int" where
  "OPENSSL_tolower c = (if 65 \<le> c \<and> c \<le> 90 then c + 32 else c)"

text \<open>
  \<open>char\<close> is signed on the platforms the program is built for, so \<open>a[i]\<close> is
  converted to \<open>int\<close> with its sign.
\<close>

definition char_at :: "bytes \<Rightarrow> int" where
  "char_at s = (case s of [] \<Rightarrow> 0 | c # _ \<Rightarrow> sint c)"

function OPENSSL_strcasecmp :: "bytes \<Rightarrow> bytes \<Rightarrow> int" where
  "OPENSSL_strcasecmp a b =
     (let aa = OPENSSL_tolower (char_at a); bb = OPENSSL_tolower (char_at b) in
      if aa < bb then -1
      else if aa > bb then 1
      else if aa = 0 then 0
      else OPENSSL_strcasecmp (tl a) (tl b))"
  by pat_completeness auto
termination
  by (relation "measure (\<lambda>(a, b). length a)")
    (auto simp: char_at_def OPENSSL_tolower_def split: list.splits if_splits)

fun OPENSSL_strncasecmp :: "bytes \<Rightarrow> bytes \<Rightarrow> nat \<Rightarrow> int" where
  "OPENSSL_strncasecmp a b 0 = 0"
| "OPENSSL_strncasecmp a b (Suc n) =
     (let aa = OPENSSL_tolower (char_at a); bb = OPENSSL_tolower (char_at b) in
      if aa < bb then -1
      else if aa > bb then 1
      else if aa = 0 then 0
      else OPENSSL_strncasecmp (tl a) (tl b) n)"

declare OPENSSL_strcasecmp.simps [simp del]

text \<open>
  \<open>memcmp\<close>: the difference of the first bytes that differ. The C standard fixes only its
  sign, and its callers use only its sign.
\<close>

fun OPENSSL_memcmp :: "bytes \<Rightarrow> bytes \<Rightarrow> nat \<Rightarrow> int" where
  "OPENSSL_memcmp (a # as) (b # bs) (Suc n) = (if a = b then OPENSSL_memcmp as bs n else uint a - uint b)"
| "OPENSSL_memcmp _ _ _ = 0"

text \<open>\<open>strcmp\<close>: the same up to the NUL of the strings.\<close>

definition c_char :: "bytes \<Rightarrow> u8" where
  "c_char s = (case s of [] \<Rightarrow> 0 | c # _ \<Rightarrow> c)"

function strcmp :: "bytes \<Rightarrow> bytes \<Rightarrow> int" where
  "strcmp a b =
     (if c_char a \<noteq> c_char b then uint (c_char a) - uint (c_char b)
      else if c_char a = 0 then 0
      else strcmp (tl a) (tl b))"
  by pat_completeness auto
termination
  by (relation "measure (\<lambda>(a, b). length a)") (auto simp: c_char_def split: list.splits)

declare strcmp.simps [simp del]

text \<open>The string a pointer stands for: the bytes up to the NUL.\<close>

definition c_str :: "bytes \<Rightarrow> bytes" where
  "c_str s = takeWhile (\<lambda>c. c \<noteq> 0) s"

lemma strcmp_zero_iff: "strcmp a b = 0 \<longleftrightarrow> c_str a = c_str b"
proof (induction a b rule: strcmp.induct)
  case (1 a b)
  show ?case
    by (subst strcmp.simps)
      (use 1 in \<open>auto simp: c_char_def c_str_def word_uint_eq_iff split: list.splits\<close>)
qed

lemma take_strlen: "take (strlen s) s = c_str s"
  by (simp add: strlen_def c_str_def takeWhile_eq_take [symmetric])

lemma length_c_str [simp]: "length (c_str s) = strlen s"
  by (simp add: strlen_def c_str_def)

lemma memcmp_zero_iff:
  "length a = n \<Longrightarrow> length b = n \<Longrightarrow> OPENSSL_memcmp a b n = 0 \<longleftrightarrow> a = b"
  by (induction a b n rule: OPENSSL_memcmp.induct) (auto simp: word_uint_eq_iff)

text \<open>The accumulator is zero exactly when every pair of bytes agrees.\<close>

lemma memcmp_fold_zero:
  "foldl (\<lambda>x (p, q). x OR (p XOR q)) acc ps = (0 :: u8) \<longleftrightarrow>
     acc = 0 \<and> (\<forall>(p, q) \<in> set ps. p = q)"
  by (induction ps arbitrary: acc) (auto simp: or_eq_0_iff xor_word_zero_iff)

lemma zip_all_eq_iff:
  "length xs = length ys \<Longrightarrow> (\<forall>(p, q) \<in> set (zip xs ys). p = q) \<longleftrightarrow> xs = ys"
  by (induction xs ys rule: list_induct2) auto

lemma CRYPTO_memcmp_zero_iff:
  "len \<le> length a \<Longrightarrow> len \<le> length b \<Longrightarrow>
   CRYPTO_memcmp a b len = 0 \<longleftrightarrow> take len a = take len b"
  by (simp add: CRYPTO_memcmp_def memcmp_fold_zero zip_all_eq_iff)

lemma OPENSSL_strnlen_eq: "OPENSSL_strnlen s n = min n (strlen s)"
  by (induction s n rule: OPENSSL_strnlen.induct) (auto simp: strlen_def)

end
