(* ===== verification/Sorting.thy ===== *)
theory Sorting
  imports Prelude "HOL-Library.Multiset"
begin

text \<open>
  The C library's \<open>qsort\<close> and \<open>bsearch\<close>, which the stack and the SET OF writer call with a
  comparison of their own. They are parameters of the models; the contracts the C standard
  gives them are the locales of this theory, and a concrete sort and search have them.
\<close>

section \<open>qsort\<close>

text \<open>
  The contract: for a comparison that is a consistent total preorder (its sign is reversed
  with its arguments), the result is a permutation of the array in ascending order.
\<close>

definition cmp_preorder :: "('a \<Rightarrow> 'a \<Rightarrow> int) \<Rightarrow> bool" where
  "cmp_preorder cmp \<longleftrightarrow> (\<forall>a b. cmp a b < 0 \<longleftrightarrow> 0 < cmp b a) \<and>
     (\<forall>a b c. cmp a b \<le> 0 \<longrightarrow> cmp b c \<le> 0 \<longrightarrow> cmp a c \<le> 0)"

lemma cmp_preorderD:
  assumes "cmp_preorder cmp"
  shows "cmp a b < 0 \<longleftrightarrow> 0 < cmp b a" "cmp a b \<le> 0 \<Longrightarrow> cmp b c \<le> 0 \<Longrightarrow> cmp a c \<le> 0"
    "cmp a b \<le> 0 \<or> cmp b a \<le> 0" "cmp a b = 0 \<longleftrightarrow> cmp b a = 0"
  using assms unfolding cmp_preorder_def by (blast, blast, (smt (verit))+)

locale qsort_spec =
  fixes qsort :: "('a \<Rightarrow> 'a \<Rightarrow> int) \<Rightarrow> 'a list \<Rightarrow> 'a list"
  assumes permutes: "mset (qsort cmp xs) = mset xs"
    and sorts: "cmp_preorder cmp \<Longrightarrow> sorted_wrt (\<lambda>a b. cmp a b \<le> 0) (qsort cmp xs)"
begin

lemma length_qsort: "length (qsort cmp xs) = length xs"
  using permutes [of cmp xs] by (metis size_mset)

lemma set_qsort: "set (qsort cmp xs) = set xs"
  using permutes [of cmp xs] by (metis set_mset_mset)

text \<open>Where equal comparison means equality, the order of the array does not matter.\<close>

lemma qsort_unique:
  assumes p: "cmp_preorder cmp" and eq: "\<And>a b. cmp a b \<le> 0 \<Longrightarrow> cmp b a \<le> 0 \<Longrightarrow> a = b"
    and ys: "mset ys = mset xs" "sorted_wrt (\<lambda>a b. cmp a b \<le> 0) ys"
  shows "qsort cmp xs = ys"
proof -
  have "mset zs = mset ys \<Longrightarrow> sorted_wrt (\<lambda>a b. cmp a b \<le> 0) zs \<Longrightarrow>
      sorted_wrt (\<lambda>a b. cmp a b \<le> 0) ys \<Longrightarrow> zs = ys" for zs ys
  proof (induction zs arbitrary: ys)
    case Nil
    then show ?case by simp
  next
    case (Cons z zs)
    then obtain w ws where ys: "ys = w # ws" by (cases ys) auto
    have "z = w"
    proof (rule ccontr)
      assume "z \<noteq> w"
      have "set (z # zs) = set (w # ws)"
        using Cons.prems(1) ys by (metis set_mset_mset)
      with \<open>z \<noteq> w\<close> have "w \<in> set zs" "z \<in> set ws" by auto
      then have "cmp z w \<le> 0" "cmp w z \<le> 0" using Cons.prems ys by auto
      with eq \<open>z \<noteq> w\<close> show False by blast
    qed
    then show ?case using Cons ys by simp
  qed
  then show ?thesis using permutes [of cmp xs] sorts [OF p, of xs] ys by simp
qed

end

text \<open>Insertion by a comparison, a concrete sort with this contract.\<close>

fun insert_by :: "('a \<Rightarrow> 'a \<Rightarrow> int) \<Rightarrow> 'a \<Rightarrow> 'a list \<Rightarrow> 'a list" where
  "insert_by cmp x [] = [x]"
| "insert_by cmp x (y # ys) = (if cmp x y \<le> 0 then x # y # ys else y # insert_by cmp x ys)"

definition sort_by :: "('a \<Rightarrow> 'a \<Rightarrow> int) \<Rightarrow> 'a list \<Rightarrow> 'a list" where
  "sort_by cmp xs = foldr (insert_by cmp) xs []"

lemma mset_insert_by: "mset (insert_by cmp x ys) = add_mset x (mset ys)"
  by (induction ys) auto

lemma set_insert_by: "set (insert_by cmp x ys) = insert x (set ys)"
  by (induction ys) auto

lemma sorted_insert_by:
  "cmp_preorder cmp \<Longrightarrow> sorted_wrt (\<lambda>a b. cmp a b \<le> 0) ys \<Longrightarrow>
   sorted_wrt (\<lambda>a b. cmp a b \<le> 0) (insert_by cmp x ys)"
proof (induction ys)
  case (Cons y ys)
  have t: "cmp a b \<le> 0 \<Longrightarrow> cmp b c \<le> 0 \<Longrightarrow> cmp a c \<le> 0" for a b c
    using cmp_preorderD(2) [OF Cons.prems(1)] by blast
  have tot: "cmp a b \<le> 0 \<or> cmp b a \<le> 0" for a b
    using cmp_preorderD(3) [OF Cons.prems(1)] by blast
  show ?case
    using Cons t tot [of x y] by (auto simp: set_insert_by)
qed simp

lemma sort_by_spec: "mset (sort_by cmp xs) = mset xs"
  "cmp_preorder cmp \<Longrightarrow> sorted_wrt (\<lambda>a b. cmp a b \<le> 0) (sort_by cmp xs)"
  by (induction xs) (auto simp: sort_by_def mset_insert_by sorted_insert_by)

interpretation sort_by: qsort_spec sort_by
  by unfold_locales (simp_all add: sort_by_spec)

section \<open>bsearch\<close>

text \<open>
  The contract: where the array holds first the elements less than the key, then those equal to it and
  then those greater than it, as the C standard asks, the result is the index of some element that compares equal to the key,
  and none only where there is no such element. Keys and elements may be of different types.
\<close>

definition ordered_for :: "('k \<Rightarrow> 'a \<Rightarrow> int) \<Rightarrow> 'k \<Rightarrow> 'a list \<Rightarrow> bool" where
  "ordered_for cmp key xs \<longleftrightarrow>
     sorted_wrt (\<lambda>a b. (cmp key a \<le> 0 \<longrightarrow> cmp key b \<le> 0) \<and> (cmp key a < 0 \<longrightarrow> cmp key b < 0)) xs"

locale bsearch_spec =
  fixes bsearch :: "('k \<Rightarrow> 'a \<Rightarrow> int) \<Rightarrow> 'k \<Rightarrow> 'a list \<Rightarrow> nat option"
  assumes found: "ordered_for cmp key xs \<Longrightarrow> bsearch cmp key xs = Some i \<Longrightarrow>
      i < length xs \<and> cmp key (xs ! i) = 0"
    and missed: "ordered_for cmp key xs \<Longrightarrow> bsearch cmp key xs = None \<Longrightarrow>
      i < length xs \<Longrightarrow> cmp key (xs ! i) \<noteq> 0"
begin

lemma find_iff:
  assumes "ordered_for cmp key xs"
  shows "bsearch cmp key xs \<noteq> None \<longleftrightarrow> (\<exists>x \<in> set xs. cmp key x = 0)"
proof (cases "bsearch cmp key xs")
  case None
  with missed [OF assms None] show ?thesis by (auto simp: in_set_conv_nth)
next
  case (Some i)
  with found [OF assms Some] show ?thesis by auto
qed

end

text \<open>An array sorted by a comparison of its elements is ordered for each of them.\<close>

lemma ordered_for_sorted:
  assumes p: "cmp_preorder cmp" and s: "sorted_wrt (\<lambda>a b. cmp a b \<le> 0) xs"
  shows "ordered_for cmp key xs"
  unfolding ordered_for_def
proof (rule sorted_wrt_mono_rel [OF _ s])
  fix a b assume ab: "cmp a b \<le> 0"
  note d = cmp_preorderD [OF p]
  have "cmp key a < 0 \<longrightarrow> cmp key b < 0"
    using ab d(1) d(2) [of a b key] d(2) [of b key a] d(2) [of key a b] by (smt (verit))
  then show "(cmp key a \<le> 0 \<longrightarrow> cmp key b \<le> 0) \<and> (cmp key a < 0 \<longrightarrow> cmp key b < 0)"
    using ab d(2) by blast
qed

text \<open>The same where the elements are indices into another array.\<close>

lemma ordered_for_map:
  assumes p: "cmp_preorder c" and s: "sorted_wrt (\<lambda>i j. c (f i) (f j) \<le> 0) xs"
  shows "ordered_for (\<lambda>k i. c k (f i)) key xs"
proof -
  have "sorted_wrt (\<lambda>a b. c a b \<le> 0) (map f xs)" using s by (simp add: sorted_wrt_map)
  from ordered_for_sorted [OF p this, of key] show ?thesis by (simp add: ordered_for_def sorted_wrt_map)
qed

text \<open>Binary search has the contract.\<close>

function bin_search :: "('k \<Rightarrow> 'a \<Rightarrow> int) \<Rightarrow> 'k \<Rightarrow> 'a list \<Rightarrow> nat \<Rightarrow> nat \<Rightarrow> nat option" where
  "bin_search cmp key xs lo hi =
     (if hi \<le> lo then None
      else
        let m = (lo + hi) div 2; c = cmp key (xs ! m) in
        if c = 0 then Some m
        else if c < 0 then bin_search cmp key xs lo m
        else bin_search cmp key xs (m + 1) hi)"
  by pat_completeness auto
termination
  by (relation "measure (\<lambda>(cmp, key, xs, lo, hi). hi - lo)") auto

declare bin_search.simps [simp del]

definition bsearch_by :: "('k \<Rightarrow> 'a \<Rightarrow> int) \<Rightarrow> 'k \<Rightarrow> 'a list \<Rightarrow> nat option" where
  "bsearch_by cmp key xs = bin_search cmp key xs 0 (length xs)"

lemma bin_search_found:
  "bin_search cmp key xs lo hi = Some i \<Longrightarrow> lo \<le> i \<and> i < hi \<and> cmp key (xs ! i) = 0"
proof (induction cmp key xs lo hi rule: bin_search.induct)
  case (1 cmp key xs lo hi)
  define m where "m = (lo + hi) div 2"
  have lt: "lo < hi" using "1.prems" by (subst (asm) bin_search.simps) (auto split: if_splits)
  then have m: "lo \<le> m" "m < hi" by (auto simp: m_def)
  have e: "(if cmp key (xs ! m) = 0 then Some m
      else if cmp key (xs ! m) < 0 then bin_search cmp key xs lo m
      else bin_search cmp key xs (m + 1) hi) = Some i"
    using "1.prems" lt by (subst (asm) bin_search.simps) (simp add: m_def [symmetric] Let_def)
  show ?case
    using "1.IH"(1) [OF _ m_def refl] "1.IH"(2) [OF _ m_def refl] e m lt
    by (auto split: if_splits)
qed

lemma bin_search_missed:
  "ordered_for cmp key xs \<Longrightarrow> hi \<le> length xs \<Longrightarrow>
   bin_search cmp key xs lo hi = None \<Longrightarrow> lo \<le> i \<Longrightarrow> i < hi \<Longrightarrow> cmp key (xs ! i) \<noteq> 0"
proof (induction cmp key xs lo hi rule: bin_search.induct)
  case (1 cmp key xs lo hi)
  define m where "m = (lo + hi) div 2"
  have lt: "lo < hi" using "1.prems" by simp
  then have m: "lo \<le> m" "m < hi" by (auto simp: m_def)
  have le: "(cmp key (xs ! j) \<le> 0 \<longrightarrow> cmp key (xs ! k) \<le> 0) \<and> (cmp key (xs ! j) < 0 \<longrightarrow> cmp key (xs ! k) < 0)"
    if "j \<le> k" "k < hi" for j k
  proof (cases "j = k")
    case False
    then have "j < k" "k < length xs" using that "1.prems"(2) by simp_all
    then show ?thesis using "1.prems"(1) unfolding ordered_for_def sorted_wrt_iff_nth_less by blast
  qed simp
  show ?case
  proof (cases "cmp key (xs ! m) < 0")
    case True
    have r: "bin_search cmp key xs lo m = None"
      using "1.prems"(3) lt True by (subst (asm) bin_search.simps) (auto simp: m_def [symmetric] Let_def)
    show ?thesis
    proof (cases "i < m")
      case True
      have "m \<le> length xs" using m "1.prems"(2) by simp
      from "1.IH"(1) [OF _ m_def refl _ _ "1.prems"(1) this r "1.prems"(4) True]
      show ?thesis using lt \<open>cmp key (xs ! m) < 0\<close> by auto
    next
      case False
      then show ?thesis using le [of m i] "1.prems"(5) True by simp
    qed
  next
    case False
    have ne: "cmp key (xs ! m) \<noteq> 0"
      using "1.prems"(3) lt by (subst (asm) bin_search.simps) (auto simp: m_def [symmetric] Let_def)
    have r: "bin_search cmp key xs (m + 1) hi = None"
      using "1.prems"(3) lt False ne by (subst (asm) bin_search.simps) (auto simp: m_def [symmetric] Let_def)
    show ?thesis
    proof (cases "m < i")
      case True
      then have "m + 1 \<le> i" by simp
      from "1.IH"(2) [OF _ m_def refl _ _ "1.prems"(1,2) r this "1.prems"(5)]
      show ?thesis using lt False ne by auto
    next
      case False
      then show ?thesis using le [of i m] m \<open>\<not> cmp key (xs ! m) < 0\<close> ne by auto
    qed
  qed
qed

interpretation bsearch_by: bsearch_spec bsearch_by
proof
  fix cmp :: "'a \<Rightarrow> 'b \<Rightarrow> int" and xs key i
  show "bsearch_by cmp key xs = Some i \<Longrightarrow> i < length xs \<and> cmp key (xs ! i) = 0"
    using bin_search_found [of cmp key xs 0 "length xs" i] by (simp add: bsearch_by_def)
  show "ordered_for cmp key xs \<Longrightarrow> bsearch_by cmp key xs = None \<Longrightarrow> i < length xs \<Longrightarrow> cmp key (xs ! i) \<noteq> 0"
    using bin_search_missed [of cmp key xs "length xs" 0 i] by (simp add: bsearch_by_def)
qed

end
