(* ===== verification/Stack.thy ===== *)
theory Stack
  imports Memory Sorting
begin

text \<open>
  crypto/stack/stack.c: the stack of pointers. A pointer is a number, 0 is NULL; a
  comparison function is named by a number too (\<open>sk_comp\<close>, None for NULL) and an
  environment gives what each name computes. A call on a NULL stack returns at once; the
  operations are on the stack behind a non-NULL pointer, and \<open>on_stack\<close> adds that check.
\<close>

section \<open>State\<close>

record stack_st =
  sk_n :: nat
  sk_data :: "nat list"
  sk_sorted :: bool
  sk_num_alloc :: nat
  sk_comp :: "nat option"

type_synonym cmp_env = "nat \<Rightarrow> nat \<Rightarrow> nat \<Rightarrow> int"

text \<open>A block of fresh memory as an array of pointers of 8 bytes each.\<close>

definition ptr_block :: "bytes \<Rightarrow> nat list" where
  "ptr_block b = map (\<lambda>i. le_nat (take 8 (drop (8 * i) b))) [0..<length b div 8]"

definition realloc_ptrs :: "allocator \<Rightarrow> nat list \<Rightarrow> nat \<Rightarrow> nat list option" where
  "realloc_ptrs al data alloc_size =
     (case OPENSSL_malloc al alloc_size of
        None \<Rightarrow> None
      | Some b \<Rightarrow> Some (write_at (ptr_block b) 0 (take (alloc_size div 8) data)))"

section \<open>Operations\<close>

definition sk_new :: "allocator \<Rightarrow> nat option \<Rightarrow> stack_st option" where
  "sk_new al cmpf =
     (if OPENSSL_malloc al 40 = None \<or> OPENSSL_malloc al (8 * 4) = None then None
      else Some \<lparr>sk_n = 0, sk_data = replicate 4 0, sk_sorted = False, sk_num_alloc = 4, sk_comp = cmpf\<rparr>)"

definition sk_new_null :: "allocator \<Rightarrow> stack_st option" where
  "sk_new_null al = sk_new al None"

definition sk_num :: "stack_st option \<Rightarrow> nat" where
  "sk_num sk = (case sk of None \<Rightarrow> 0 | Some s \<Rightarrow> sk_n s)"

definition sk_zero :: "stack_st \<Rightarrow> stack_st" where
  "sk_zero sk =
     (if sk_n sk = 0 then sk
      else sk\<lparr>sk_data := write_at (sk_data sk) 0 (replicate (sk_n sk) 0), sk_n := 0, sk_sorted := False\<rparr>)"

definition sk_value :: "stack_st \<Rightarrow> nat \<Rightarrow> nat" where
  "sk_value sk i = (if i \<ge> sk_n sk then 0 else sk_data sk ! i)"

definition sk_set :: "stack_st \<Rightarrow> nat \<Rightarrow> nat \<Rightarrow> nat \<times> stack_st" where
  "sk_set sk i value =
     (if i \<ge> sk_n sk then (0, sk) else (value, sk\<lparr>sk_data := (sk_data sk)[i := value]\<rparr>))"

text \<open>The pointers \<open>sk_pop_free\<close> hands to \<open>func\<close>, in order.\<close>

definition sk_pop_free :: "stack_st \<Rightarrow> nat list" where
  "sk_pop_free sk = filter (\<lambda>p. p \<noteq> 0) (take (sk_n sk) (sk_data sk))"

definition sk_grow_size :: "nat \<Rightarrow> (nat \<times> nat) option" where
  "sk_grow_size num_alloc =
     (let new0 = sz (num_alloc * 2); size0 = sz (new0 * 8);
          (new, size) = (if new0 < num_alloc \<or> size0 div 8 \<noteq> new0
                         then (sz (num_alloc + 1), sz (sz (num_alloc + 1) * 8)) else (new0, size0))
      in if new < num_alloc \<or> size div 8 \<noteq> new then None else Some (new, size))"

text \<open>The first half of \<open>sk_insert\<close> makes room, the second half places the pointer.\<close>

definition sk_grow :: "allocator \<Rightarrow> stack_st \<Rightarrow> stack_st option" where
  "sk_grow al sk =
     (case sk_grow_size (sk_num_alloc sk) of
        None \<Rightarrow> None
      | Some (new_alloc, alloc_size) \<Rightarrow>
          map_option (\<lambda>data. sk\<lparr>sk_data := data, sk_num_alloc := new_alloc\<rparr>)
            (realloc_ptrs al (sk_data sk) alloc_size))"

definition sk_place :: "stack_st \<Rightarrow> nat \<Rightarrow> nat \<Rightarrow> nat \<times> stack_st" where
  "sk_place sk p wh =
     (let n = sk_n sk; data = sk_data sk;
          data' = (if wh \<ge> n then data[n := p]
                   else (write_at data (wh + 1) (take (n - wh) (drop wh data)))[wh := p])
      in (n + 1, sk\<lparr>sk_data := data', sk_n := n + 1, sk_sorted := False\<rparr>))"

definition sk_insert :: "allocator \<Rightarrow> stack_st \<Rightarrow> nat \<Rightarrow> nat \<Rightarrow> nat \<times> stack_st" where
  "sk_insert al sk p wh =
     (case (if sk_num_alloc sk \<le> sk_n sk + 1 then sk_grow al sk else Some sk) of
        None \<Rightarrow> (0, sk)
      | Some sk1 \<Rightarrow> sk_place sk1 p wh)"

definition sk_delete :: "stack_st \<Rightarrow> nat \<Rightarrow> nat \<times> stack_st" where
  "sk_delete sk wh =
     (if wh \<ge> sk_n sk then (0, sk)
      else
        let n = sk_n sk; data = sk_data sk;
            data' = (if wh \<noteq> n - 1
                     then write_at data wh (take (n - wh - 1) (drop (wh + 1) data)) else data)
        in (data ! wh, sk\<lparr>sk_data := data', sk_n := n - 1\<rparr>))"

text \<open>The first index of the first \<open>n\<close> entries that holds \<open>p\<close>.\<close>

fun find_ptr :: "nat list \<Rightarrow> nat \<Rightarrow> nat \<Rightarrow> nat option" where
  "find_ptr [] p i = None"
| "find_ptr (q # data) p i = (if q = p then Some i else find_ptr data p (i + 1))"

definition sk_delete_ptr :: "stack_st \<Rightarrow> nat \<Rightarrow> nat \<times> stack_st" where
  "sk_delete_ptr sk p =
     (case find_ptr (take (sk_n sk) (sk_data sk)) p 0 of
        None \<Rightarrow> (0, sk)
      | Some i \<Rightarrow> sk_delete sk i)"

definition sk_sort ::
  "((nat \<Rightarrow> nat \<Rightarrow> int) \<Rightarrow> nat list \<Rightarrow> nat list) \<Rightarrow> cmp_env \<Rightarrow> stack_st \<Rightarrow> stack_st" where
  "sk_sort qsort env sk =
     (case sk_comp sk of
        None \<Rightarrow> sk
      | Some c \<Rightarrow>
          if sk_sorted sk then sk
          else sk\<lparr>sk_data := write_at (sk_data sk) 0 (qsort (env c) (take (sk_n sk) (sk_data sk))),
                  sk_sorted := True\<rparr>)"

text \<open>The walk back to the first match.\<close>

fun first_match :: "(nat \<Rightarrow> nat \<Rightarrow> int) \<Rightarrow> nat \<Rightarrow> nat list \<Rightarrow> nat \<Rightarrow> nat" where
  "first_match cmp p data 0 = 0"
| "first_match cmp p data (Suc i) = (if cmp p (data ! i) = 0 then first_match cmp p data i else Suc i)"

definition sk_find ::
  "((nat \<Rightarrow> nat \<Rightarrow> int) \<Rightarrow> nat list \<Rightarrow> nat list) \<Rightarrow>
   ((nat \<Rightarrow> nat \<Rightarrow> int) \<Rightarrow> nat \<Rightarrow> nat list \<Rightarrow> nat option) \<Rightarrow>
   cmp_env \<Rightarrow> stack_st \<Rightarrow> nat \<Rightarrow> nat option \<times> stack_st" where
  "sk_find qsort bsearch env sk p =
     (case sk_comp sk of
        None \<Rightarrow> (find_ptr (take (sk_n sk) (sk_data sk)) p 0, sk)
      | Some c \<Rightarrow>
          if p = 0 then (None, sk)
          else
            let sk1 = sk_sort qsort env sk; data = take (sk_n sk1) (sk_data sk1)
            in (case bsearch (env c) p data of
                  None \<Rightarrow> (None, sk1)
                | Some idx \<Rightarrow> (Some (first_match (env c) p data idx), sk1)))"

definition sk_shift :: "stack_st \<Rightarrow> nat \<times> stack_st" where
  "sk_shift sk = (if sk_n sk = 0 then (0, sk) else sk_delete sk 0)"

definition sk_push :: "allocator \<Rightarrow> stack_st \<Rightarrow> nat \<Rightarrow> nat \<times> stack_st" where
  "sk_push al sk p = sk_insert al sk p (sk_n sk)"

definition sk_pop :: "stack_st \<Rightarrow> nat \<times> stack_st" where
  "sk_pop sk = (if sk_n sk = 0 then (0, sk) else sk_delete sk (sk_n sk - 1))"

definition sk_dup :: "allocator \<Rightarrow> stack_st \<Rightarrow> stack_st option" where
  "sk_dup al sk =
     (case sk_new al (sk_comp sk) of
        None \<Rightarrow> None
      | Some ret \<Rightarrow>
          (case realloc_ptrs al (sk_data ret) (sz (8 * sk_num_alloc sk)) of
             None \<Rightarrow> None
           | Some s \<Rightarrow>
               Some (ret\<lparr>sk_data := write_at s 0 (take (sk_n sk) (sk_data sk)), sk_n := sk_n sk,
                         sk_sorted := sk_sorted sk, sk_num_alloc := sk_num_alloc sk, sk_comp := sk_comp sk\<rparr>)))"

definition sk_is_sorted :: "stack_st option \<Rightarrow> bool" where
  "sk_is_sorted sk = (case sk of None \<Rightarrow> True | Some s \<Rightarrow> sk_sorted s)"

definition sk_set_cmp_func :: "stack_st \<Rightarrow> nat option \<Rightarrow> nat option \<times> stack_st" where
  "sk_set_cmp_func sk cmpf =
     (sk_comp sk,
      (if sk_comp sk \<noteq> cmpf then sk\<lparr>sk_sorted := False\<rparr> else sk)\<lparr>sk_comp := cmpf\<rparr>)"

text \<open>
  The copying loop: the entries copied so far are in front. Where a copy fails, the second
  component is the list of the copies that are freed.
\<close>

fun copy_loop :: "(nat \<Rightarrow> nat) \<Rightarrow> nat list \<Rightarrow> nat list \<Rightarrow> nat list + nat list" where
  "copy_loop copy_func acc [] = Inr acc"
| "copy_loop copy_func acc (q # data) =
     (if q = 0 then copy_loop copy_func (acc @ [0]) data
      else
        let q' = copy_func q in
        if q' = 0 then Inl (filter (\<lambda>p. p \<noteq> 0) acc)
        else copy_loop copy_func (acc @ [q']) data)"

definition sk_deep_copy :: "allocator \<Rightarrow> (nat \<Rightarrow> nat) \<Rightarrow> stack_st \<Rightarrow> nat list + stack_st" where
  "sk_deep_copy al copy_func sk =
     (case sk_dup al sk of
        None \<Rightarrow> Inl []
      | Some ret \<Rightarrow>
          (case copy_loop copy_func [] (take (sk_n ret) (sk_data ret)) of
             Inl freed \<Rightarrow> Inl freed
           | Inr copies \<Rightarrow> Inr (ret\<lparr>sk_data := write_at (sk_data ret) 0 copies\<rparr>)))"

text \<open>The check for a NULL stack.\<close>

definition on_stack :: "'a \<Rightarrow> (stack_st \<Rightarrow> 'a \<times> stack_st) \<Rightarrow> stack_st option \<Rightarrow> 'a \<times> stack_st option" where
  "on_stack null f sk = (case sk of None \<Rightarrow> (null, None) | Some s \<Rightarrow> (case f s of (r, s') \<Rightarrow> (r, Some s')))"

section \<open>Invariant and contents\<close>

text \<open>There is room for one more entry at all times.\<close>

definition sk_ok :: "stack_st \<Rightarrow> bool" where
  "sk_ok sk \<longleftrightarrow> sk_n sk < sk_num_alloc sk \<and> length (sk_data sk) = sk_num_alloc sk \<and> sk_num_alloc sk < 2 ^ 59"

definition sk_contents :: "stack_st \<Rightarrow> nat list" where
  "sk_contents sk = take (sk_n sk) (sk_data sk)"

text \<open>The \<open>sorted\<close> flag tells the truth.\<close>

definition sk_flag_ok :: "cmp_env \<Rightarrow> stack_st \<Rightarrow> bool" where
  "sk_flag_ok env sk \<longleftrightarrow> (case sk_comp sk of
     None \<Rightarrow> True
   | Some c \<Rightarrow> sk_sorted sk \<longrightarrow> sorted_wrt (\<lambda>a b. env c a b \<le> 0) (sk_contents sk))"

lemma length_ptr_block [simp]: "length (ptr_block b) = length b div 8"
  by (simp add: ptr_block_def)

lemma length_sk_contents: "sk_ok sk \<Longrightarrow> length (sk_contents sk) = sk_n sk"
  by (simp add: sk_ok_def sk_contents_def)

lemma sk_new_ok:
  "sk_new al cmpf = Some sk \<Longrightarrow> sk_ok sk \<and> sk_contents sk = [] \<and> sk_flag_ok env sk \<and> sk_comp sk = cmpf"
  by (auto simp: sk_new_def sk_ok_def sk_contents_def sk_flag_ok_def split: if_splits option.splits)

text \<open>Below the limit the array doubles.\<close>

lemma sk_grow_size_eq: "n < 2 ^ 59 \<Longrightarrow> sk_grow_size n = Some (2 * n, 16 * n)"
  by (simp add: sk_grow_size_def Let_def sz_id)

lemma realloc_ptrs_ok:
  assumes al: "alloc_bounded al" and r: "realloc_ptrs al data (8 * n) = Some data'" and n: "n < 2 ^ 60"
    and k: "length data \<le> n"
  shows "length data' = n" "take (length data) data' = data" "n < 2 ^ 59"
proof -
  from r obtain b where b: "OPENSSL_malloc al (8 * n) = Some b"
    and d: "data' = write_at (ptr_block b) 0 (take n data)"
    by (auto simp: realloc_ptrs_def split: option.splits)
  have n8: "8 * n < 2 ^ 63" using n by simp
  note mb = malloc_bounded [OF al b n8]
  show "length data' = n" using k mb by (simp add: d)
  show "take (length data) data' = data" using k mb by (simp add: d write_at_def)
  show "n < 2 ^ 59" using mb(2) by simp
qed

lemma insert_middle:
  assumes "w \<le> n" "n < length data"
  shows "take (n + 1) ((write_at data (w + 1) (take (n - w) (drop w data)))[w := p]) =
    take w (take n data) @ p # drop w (take n data)"
proof -
  have "write_at data (w + 1) (take (n - w) (drop w data)) =
      take w data @ data ! w # take (n - w) (drop w data) @ drop (n + 1) data"
    using assms by (simp add: write_at_def take_Suc_conv_app_nth)
  then have "(write_at data (w + 1) (take (n - w) (drop w data)))[w := p] =
      take w data @ p # take (n - w) (drop w data) @ drop (n + 1) data"
    using assms by (simp add: list_update_append)
  then show ?thesis using assms by (simp add: drop_take min_absorb1 Suc_diff_le)
qed

text \<open>Inserting shifts the entries behind; a failing call changes nothing.\<close>

lemma sk_insert_ok:
  assumes sk: "sk_ok sk" and al: "alloc_bounded al" and r: "sk_insert al sk p w = (n, sk')" and n: "n \<noteq> 0"
  shows "n = sk_n sk + 1" "sk_ok sk'"
    "sk_contents sk' = take w (sk_contents sk) @ p # drop w (sk_contents sk)" "sk_flag_ok env sk'"
    "sk_comp sk' = sk_comp sk"
proof -
  have lim: "sk_num_alloc sk < 2 ^ 59" "length (sk_data sk) = sk_num_alloc sk" "sk_n sk < sk_num_alloc sk"
    using sk by (auto simp: sk_ok_def)
  obtain t where t: "(if sk_num_alloc sk \<le> sk_n sk + 1 then sk_grow al sk else Some sk) = Some t"
    and r1: "sk_place t p w = (n, sk')"
    using r n by (auto simp: sk_insert_def split: option.splits)
  have tok: "sk_n t = sk_n sk \<and> sk_n sk + 1 < sk_num_alloc t \<and> length (sk_data t) = sk_num_alloc t \<and>
      sk_num_alloc t < 2 ^ 59 \<and> take (sk_n sk) (sk_data t) = sk_contents sk \<and> sk_comp t = sk_comp sk"
  proof (cases "sk_num_alloc sk \<le> sk_n sk + 1")
    case False
    then show ?thesis using t lim by (simp add: sk_contents_def)
  next
    case True
    then obtain data where d: "realloc_ptrs al (sk_data sk) (8 * (2 * sk_num_alloc sk)) = Some data"
      and te: "t = sk\<lparr>sk_data := data, sk_num_alloc := 2 * sk_num_alloc sk\<rparr>"
      using t by (auto simp: sk_grow_def sk_grow_size_eq [OF lim(1)])
    have l: "2 * sk_num_alloc sk < 2 ^ 60" "length (sk_data sk) \<le> 2 * sk_num_alloc sk" using lim by simp_all
    note ok = realloc_ptrs_ok [OF al d l]
    have "take (sk_n sk) data = take (sk_n sk) (take (length (sk_data sk)) data)" using lim by simp
    then have "take (sk_n sk) data = sk_contents sk" unfolding ok(2) by (simp add: sk_contents_def)
    moreover have "sk_n sk + 1 < 2 * sk_num_alloc sk" using True lim by linarith
    ultimately show ?thesis using ok lim by (simp add: te)
  qed
  define m where "m = min w (sk_n sk)"
  have data': "(if w \<ge> sk_n t then (sk_data t)[sk_n t := p]
      else (write_at (sk_data t) (w + 1) (take (sk_n t - w) (drop w (sk_data t))))[w := p]) =
      (write_at (sk_data t) (m + 1) (take (sk_n t - m) (drop m (sk_data t))))[m := p]"
    using tok by (auto simp: m_def min_def)
  have sk': "n = sk_n sk + 1" "sk' = t\<lparr>sk_data := (write_at (sk_data t) (m + 1)
      (take (sk_n t - m) (drop m (sk_data t))))[m := p], sk_n := sk_n t + 1, sk_sorted := False\<rparr>"
    unfolding data' [symmetric] using r1 tok by (auto simp: sk_place_def Let_def)
  have "m \<le> sk_n t" "sk_n t < length (sk_data t)" using tok by (auto simp: m_def)
  from insert_middle [OF this, of p] have c: "sk_contents sk' = take m (sk_contents sk) @ p # drop m (sk_contents sk)"
    using tok by (simp add: sk' sk_contents_def)
  show "n = sk_n sk + 1" by (rule sk'(1))
  have "length (write_at (sk_data t) (m + 1) (take (sk_n t - m) (drop m (sk_data t)))) = length (sk_data t)"
    using tok by (intro length_write_at) (auto simp: m_def)
  then show "sk_ok sk'" using tok by (simp add: sk' sk_ok_def)
  show "sk_contents sk' = take w (sk_contents sk) @ p # drop w (sk_contents sk)"
    using c length_sk_contents [OF sk] by (auto simp: m_def min_def split: if_splits)
  show "sk_flag_ok env sk'" by (simp add: sk' sk_flag_ok_def split: option.split)
  show "sk_comp sk' = sk_comp sk" using tok by (simp add: sk')
qed

lemma sk_insert_fail: "sk_insert al sk p w = (0, sk') \<Longrightarrow> sk' = sk"
  by (auto simp: sk_insert_def sk_place_def Let_def split: option.splits if_splits)

lemma sk_insert_succeeds:
  assumes sk: "sk_ok sk" and al: "alloc_total al" and n: "sk_num_alloc sk < 2 ^ 56"
  shows "fst (sk_insert al sk p w) = sk_n sk + 1"
proof -
  have lim: "sk_num_alloc sk < 2 ^ 59" "16 * sk_num_alloc sk < 2 ^ 61" using n by simp_all
  from malloc_total [OF al lim(2)] obtain b where "OPENSSL_malloc al (16 * sk_num_alloc sk) = Some b" by blast
  then show ?thesis
    by (simp add: sk_insert_def sk_grow_def sk_grow_size_eq [OF lim(1)] realloc_ptrs_def sk_place_def Let_def)
qed

text \<open>Deleting returns the entry and closes the gap.\<close>

lemma sk_delete_ok:
  assumes sk: "sk_ok sk" and w: "w < sk_n sk" and r: "sk_delete sk w = (p, sk')"
  shows "p = sk_contents sk ! w" "sk_ok sk'"
    "sk_contents sk' = take w (sk_contents sk) @ drop (w + 1) (sk_contents sk)"
    "sk_comp sk' = sk_comp sk" "sk_sorted sk' = sk_sorted sk"
proof -
  have l: "length (sk_data sk) = sk_num_alloc sk" "sk_n sk < sk_num_alloc sk" using sk by (auto simp: sk_ok_def)
  define d where "d = (if w \<noteq> sk_n sk - 1
      then write_at (sk_data sk) w (take (sk_n sk - w - 1) (drop (w + 1) (sk_data sk))) else sk_data sk)"
  have pe: "p = sk_data sk ! w" and sk': "sk' = sk\<lparr>sk_data := d, sk_n := sk_n sk - 1\<rparr>"
    using r w by (auto simp: sk_delete_def Let_def d_def)
  show "p = sk_contents sk ! w" using pe w by (simp add: sk_contents_def)
  have dl: "length d = length (sk_data sk)" using w l by (simp add: d_def)
  then show "sk_ok sk'" using sk w l by (auto simp: sk' sk_ok_def)
  show "sk_contents sk' = take w (sk_contents sk) @ drop (w + 1) (sk_contents sk)"
  proof (cases "w = sk_n sk - 1")
    case True
    then show ?thesis using w l by (simp add: sk' d_def sk_contents_def min_absorb1)
  next
    case False
    have "w + length (take (sk_n sk - w - 1) (drop (w + 1) (sk_data sk))) = sk_n sk - 1"
      using w l by simp
    with take_write_at [of w "take (sk_n sk - w - 1) (drop (w + 1) (sk_data sk))" "sk_data sk"] w l
    have "take (sk_n sk - 1) d = take w (sk_data sk) @ take (sk_n sk - w - 1) (drop (w + 1) (sk_data sk))"
      using False by (simp add: d_def)
    then show ?thesis using w by (simp add: sk' sk_contents_def drop_take min_absorb1)
  qed
  show "sk_comp sk' = sk_comp sk" "sk_sorted sk' = sk_sorted sk" by (simp_all add: sk')
qed

lemma sorted_wrt_delete: "sorted_wrt P xs \<Longrightarrow> sorted_wrt P (take w xs @ drop (w + 1) xs)"
proof -
  assume s: "sorted_wrt P xs"
  have "sorted_wrt P (take w xs @ drop w xs)" using s by simp
  then have "sorted_wrt P (take w xs)" "sorted_wrt P (drop w xs)"
    "\<forall>x \<in> set (take w xs). \<forall>y \<in> set (drop w xs). P x y" unfolding sorted_wrt_append by blast+
  moreover have "set (drop (w + 1) xs) \<subseteq> set (drop w xs)" by (simp add: set_drop_subset_set_drop)
  moreover have "sorted_wrt P (drop (w + 1) xs)"
    using \<open>sorted_wrt P (drop w xs)\<close> sorted_wrt_drop [of P "drop w xs" 1] by simp
  ultimately show ?thesis by (auto simp: sorted_wrt_append)
qed

lemma sk_delete_flag: "sk_ok sk \<Longrightarrow> sk_flag_ok env sk \<Longrightarrow> sk_flag_ok env (snd (sk_delete sk w))"
proof -
  assume sk: "sk_ok sk" "sk_flag_ok env sk"
  obtain p sk' where d: "sk_delete sk w = (p, sk')" by (cases "sk_delete sk w")
  show ?thesis
  proof (cases "w < sk_n sk")
    case True
    note ok = sk_delete_ok [OF sk(1) True d]
    show ?thesis
      using sk(2) ok sorted_wrt_delete by (auto simp: sk_flag_ok_def d split: option.splits)
  next
    case False
    then show ?thesis using sk by (simp add: sk_delete_def)
  qed
qed

text \<open>Linear search finds the first occurrence.\<close>

lemma find_ptr_Some: "find_ptr xs p i = Some k \<longleftrightarrow>
    i \<le> k \<and> k - i < length xs \<and> xs ! (k - i) = p \<and> (\<forall>j < k - i. xs ! j \<noteq> p)"
proof (induction xs p i arbitrary: k rule: find_ptr.induct)
  case (1 p i)
  then show ?case by simp
next
  case (2 q data p i)
  show ?case
  proof (cases "q = p")
    case True
    show ?thesis
    proof
      assume "find_ptr (q # data) p i = Some k"
      then show "i \<le> k \<and> k - i < length (q # data) \<and> (q # data) ! (k - i) = p \<and> (\<forall>j < k - i. (q # data) ! j \<noteq> p)"
        using True by simp
    next
      assume a: "i \<le> k \<and> k - i < length (q # data) \<and> (q # data) ! (k - i) = p \<and> (\<forall>j < k - i. (q # data) ! j \<noteq> p)"
      then have "k = i" using True by (metis gr0I diff_is_0_eq nth_Cons_0 le_antisym)
      then show "find_ptr (q # data) p i = Some k" using True by simp
    qed
  next
    case False
    have "(i + 1 \<le> k \<and> k - (i + 1) < length data \<and> data ! (k - (i + 1)) = p \<and> (\<forall>j < k - (i + 1). data ! j \<noteq> p)) \<longleftrightarrow>
        (i \<le> k \<and> k - i < length (q # data) \<and> (q # data) ! (k - i) = p \<and> (\<forall>j < k - i. (q # data) ! j \<noteq> p))"
    proof (cases "i + 1 \<le> k")
      case True
      then obtain m where "k = i + 1 + m" using le_iff_add by blast
      then show ?thesis using False by (auto simp: less_Suc_eq_0_disj)
    next
      case f: False
      then show ?thesis using False by (cases "i \<le> k") auto
    qed
    then show ?thesis using 2 False by simp
  qed
qed

lemma find_ptr_None: "find_ptr xs p i = None \<longleftrightarrow> p \<notin> set xs"
  by (induction xs p i rule: find_ptr.induct) auto

section \<open>Sorting and searching\<close>

lemma sk_sort_ok:
  assumes q: "qsort_spec qsort" and sk: "sk_ok sk" and c: "sk_comp sk = Some c" "cmp_preorder (env c)"
    and flag: "sk_flag_ok env sk"
  shows "sk_ok (sk_sort qsort env sk)" "sk_flag_ok env (sk_sort qsort env sk)" "sk_sorted (sk_sort qsort env sk)"
    "mset (sk_contents (sk_sort qsort env sk)) = mset (sk_contents sk)"
    "sorted_wrt (\<lambda>a b. env c a b \<le> 0) (sk_contents (sk_sort qsort env sk))"
    "sk_comp (sk_sort qsort env sk) = Some c" "sk_n (sk_sort qsort env sk) = sk_n sk"
proof -
  let ?s = "sk_sort qsort env sk"
  have "sk_ok ?s \<and> sk_sorted ?s \<and> mset (sk_contents ?s) = mset (sk_contents sk) \<and>
      sorted_wrt (\<lambda>a b. env c a b \<le> 0) (sk_contents ?s) \<and> sk_comp ?s = Some c \<and> sk_n ?s = sk_n sk"
  proof (cases "sk_sorted sk")
    case True
    then show ?thesis using sk c flag by (simp add: sk_sort_def sk_flag_ok_def)
  next
    case False
    define ys where "ys = qsort (env c) (sk_contents sk)"
    have ly: "length ys = sk_n sk"
      using qsort_spec.length_qsort [OF q, of "env c" "sk_contents sk"] length_sk_contents [OF sk]
      by (simp add: ys_def)
    have s: "?s = sk\<lparr>sk_data := write_at (sk_data sk) 0 ys, sk_sorted := True\<rparr>"
      using False c by (simp add: sk_sort_def ys_def sk_contents_def)
    have l: "length ys \<le> length (sk_data sk)" using sk ly by (simp add: sk_ok_def)
    have ct: "sk_contents ?s = ys" using ly by (simp add: s sk_contents_def write_at_def)
    have "sk_ok ?s" using sk l by (simp add: s sk_ok_def)
    moreover have "sorted_wrt (\<lambda>a b. env c a b \<le> 0) ys" "mset ys = mset (sk_contents sk)"
      unfolding ys_def by (rule qsort_spec.sorts [OF q c(2)]) (rule qsort_spec.permutes [OF q])
    ultimately show ?thesis using ct c by (simp add: s)
  qed
  then show "sk_ok ?s" "sk_flag_ok env ?s" "sk_sorted ?s" "mset (sk_contents ?s) = mset (sk_contents sk)"
    "sorted_wrt (\<lambda>a b. env c a b \<le> 0) (sk_contents ?s)" "sk_comp ?s = Some c" "sk_n ?s = sk_n sk"
    by (auto simp: sk_flag_ok_def)
qed

lemma first_match_le: "first_match cmp p data i \<le> i"
  by (induction i) auto

lemma first_match_eq:
  "cmp p (data ! i) = 0 \<Longrightarrow> cmp p (data ! first_match cmp p data i) = 0"
  by (induction i) auto

lemma first_match_stop:
  "0 < first_match cmp p data i \<Longrightarrow> cmp p (data ! (first_match cmp p data i - 1)) \<noteq> 0"
  by (induction i) (auto split: if_splits)

text \<open>In a sorted stack the walk back ends at the first match of all.\<close>

lemma first_match_first:
  assumes c: "cmp_preorder cmp" and s: "sorted_wrt (\<lambda>a b. cmp a b \<le> 0) data"
    and i: "i < length data" "cmp p (data ! i) = 0" and j: "j < first_match cmp p data i"
  shows "cmp p (data ! j) \<noteq> 0"
proof
  define k where "k = first_match cmp p data i"
  assume eq: "cmp p (data ! j) = 0"
  note pre = cmp_preorderD [OF c]
  have k: "0 < k" "k < length data" "j \<le> k - 1"
    using j i first_match_le [of cmp p data i] by (auto simp: k_def)
  have refl: "cmp x x \<le> 0" for x using pre(3) by blast
  have le: "cmp (data ! a) (data ! b) \<le> 0" if "a \<le> b" "b < length data" for a b
    using that s refl by (cases "a = b") (auto simp: sorted_wrt_iff_nth_less)
  have "cmp (data ! j) (data ! (k - 1)) \<le> 0" "cmp (data ! (k - 1)) (data ! k) \<le> 0"
    using k by (auto intro: le)
  moreover have "cmp p (data ! k) = 0" unfolding k_def using first_match_eq [of cmp p data i] i(2) by simp
  ultimately have "cmp p (data ! (k - 1)) \<le> 0" "cmp (data ! (k - 1)) p \<le> 0"
    using eq pre by (metis order_refl)+
  then have "cmp p (data ! (k - 1)) = 0" using pre(1) by (metis linorder_not_less order_antisym)
  then show False using first_match_stop [of cmp p data i] k by (simp add: k_def)
qed

lemma sk_find_ok:
  assumes q: "qsort_spec qsort" and b: "bsearch_spec bsearch" and sk: "sk_ok sk" and flag: "sk_flag_ok env sk"
    and c: "sk_comp sk = Some c" "cmp_preorder (env c)" and p: "p \<noteq> 0"
    and r: "sk_find qsort bsearch env sk p = (res, sk')"
  shows "sk_ok sk'" "sk_flag_ok env sk'" "mset (sk_contents sk') = mset (sk_contents sk)"
    "res = None \<Longrightarrow> \<forall>x \<in> set (sk_contents sk). env c p x \<noteq> 0"
    "res = Some k \<Longrightarrow> k < sk_n sk' \<and> env c p (sk_contents sk' ! k) = 0 \<and>
       (\<forall>j < k. env c p (sk_contents sk' ! j) \<noteq> 0)"
proof -
  note so = sk_sort_ok [OF q sk c flag]
  define t where "t = sk_sort qsort env sk"
  have e: "(case bsearch (env c) p (sk_contents t) of None \<Rightarrow> (None, t)
      | Some idx \<Rightarrow> (Some (first_match (env c) p (sk_contents t) idx), t)) = (res, sk')"
    using r c p by (auto simp: sk_find_def Let_def sk_contents_def t_def [symmetric] split: option.splits)
  then have sk': "sk' = t" by (auto split: option.splits)
  show "sk_ok sk'" "sk_flag_ok env sk'" "mset (sk_contents sk') = mset (sk_contents sk)"
    using so by (simp_all add: sk' t_def)
  have st: "sorted_wrt (\<lambda>a b. env c a b \<le> 0) (sk_contents t)" using so(5) by (simp add: t_def)
  have len: "length (sk_contents t) = sk_n t" using so(1) by (simp add: t_def length_sk_contents)
  have sets: "set (sk_contents t) = set (sk_contents sk)"
    using so(4) by (metis t_def set_mset_mset)
  show "\<forall>x \<in> set (sk_contents sk). env c p x \<noteq> 0" if "res = None"
  proof -
    have "bsearch (env c) p (sk_contents t) = None" using e that by (auto split: option.splits)
    then show ?thesis
      using bsearch_spec.find_iff [OF b ordered_for_sorted [OF c(2) st, of p]] sets by auto
  qed
  show "k < sk_n sk' \<and> env c p (sk_contents sk' ! k) = 0 \<and> (\<forall>j < k. env c p (sk_contents sk' ! j) \<noteq> 0)"
    if res: "res = Some k"
  proof -
    obtain i where i: "bsearch (env c) p (sk_contents t) = Some i"
      and k: "k = first_match (env c) p (sk_contents t) i"
      using e res by (auto split: option.splits)
    from bsearch_spec.found [OF b ordered_for_sorted [OF c(2) st] i] have i2: "i < length (sk_contents t)" "env c p (sk_contents t ! i) = 0"
      by auto
    show ?thesis
      using first_match_eq [of "env c" p "sk_contents t" i] first_match_le [of "env c" p "sk_contents t" i]
        first_match_first [OF c(2) st i2] i2 len
      by (auto simp: k sk')
  qed
qed

section \<open>Copies\<close>

lemma sk_dup_ok:
  assumes al: "alloc_bounded al" and sk: "sk_ok sk" and r: "sk_dup al sk = Some d"
  shows "sk_ok d" "sk_contents d = sk_contents sk" "sk_comp d = sk_comp sk" "sk_sorted d = sk_sorted sk"
    "sk_flag_ok env sk \<Longrightarrow> sk_flag_ok env d"
proof -
  have lim: "sk_num_alloc sk < 2 ^ 59" "length (sk_data sk) = sk_num_alloc sk" "sk_n sk < sk_num_alloc sk"
    using sk by (auto simp: sk_ok_def)
  have s8: "sz (8 * sk_num_alloc sk) = 8 * sk_num_alloc sk" using lim by (intro sz_id) simp
  from r obtain ret s where s: "realloc_ptrs al (sk_data ret) (8 * sk_num_alloc sk) = Some s"
    and n: "sk_new al (sk_comp sk) = Some ret"
    and d: "d = ret\<lparr>sk_data := write_at s 0 (take (sk_n sk) (sk_data sk)), sk_n := sk_n sk,
                         sk_sorted := sk_sorted sk, sk_num_alloc := sk_num_alloc sk, sk_comp := sk_comp sk\<rparr>"
    by (auto simp: sk_dup_def s8 split: option.splits)
  from s obtain b where b: "OPENSSL_malloc al (8 * sk_num_alloc sk) = Some b"
    and se: "s = write_at (ptr_block b) 0 (take (sk_num_alloc sk) (sk_data ret))"
    by (auto simp: realloc_ptrs_def split: option.splits)
  have "8 * sk_num_alloc sk < 2 ^ 63" using lim by simp
  from malloc_bounded(1) [OF al b this] have ls: "length s = sk_num_alloc sk" by (simp add: se)
  show "sk_ok d" using lim ls by (simp add: d sk_ok_def)
  show c: "sk_contents d = sk_contents sk" using lim ls by (simp add: d sk_contents_def write_at_def)
  show "sk_comp d = sk_comp sk" "sk_sorted d = sk_sorted sk" by (simp_all add: d)
  then show "sk_flag_ok env sk \<Longrightarrow> sk_flag_ok env d" using c by (auto simp: sk_flag_ok_def split: option.splits)
qed

definition copy_ptr :: "(nat \<Rightarrow> nat) \<Rightarrow> nat \<Rightarrow> nat" where
  "copy_ptr f q = (if q = 0 then 0 else f q)"

lemma copy_ptr_simps: "copy_ptr f 0 = 0" "q \<noteq> 0 \<Longrightarrow> copy_ptr f q = f q"
  by (simp_all add: copy_ptr_def)

text \<open>Either every non-NULL entry is copied, or the copies before the first failure are freed.\<close>

lemma copy_loop_eq:
  "copy_loop f acc data =
     (if \<forall>q \<in> set data. q \<noteq> 0 \<longrightarrow> f q \<noteq> 0 then Inr (acc @ map (copy_ptr f) data)
      else Inl (filter (\<lambda>p. p \<noteq> 0)
        (acc @ map (copy_ptr f) (takeWhile (\<lambda>q. q \<noteq> 0 \<longrightarrow> f q \<noteq> 0) data))))"
  by (induction f acc data rule: copy_loop.induct)
    (auto simp: Let_def copy_ptr_simps)

lemma sk_deep_copy_ok:
  assumes al: "alloc_bounded al" and sk: "sk_ok sk" and r: "sk_deep_copy al f sk = Inr d"
  shows "sk_ok d" "sk_contents d = map (copy_ptr f) (sk_contents sk)"
proof -
  from r obtain ret cs where ret: "sk_dup al sk = Some ret"
    and cs: "copy_loop f [] (sk_contents ret) = Inr cs" and d: "d = ret\<lparr>sk_data := write_at (sk_data ret) 0 cs\<rparr>"
    by (auto simp: sk_deep_copy_def sk_contents_def split: option.splits sum.splits)
  note ok = sk_dup_ok(1-4) [OF al sk ret]
  have "cs = map (copy_ptr f) (sk_contents sk)" using cs ok(2) by (simp add: copy_loop_eq split: if_splits)
  moreover have "length (sk_contents sk) = sk_n ret" using length_sk_contents [OF ok(1)] ok(2) by simp
  ultimately show "sk_ok d" "sk_contents d = map (copy_ptr f) (sk_contents sk)"
    using ok(1) by (auto simp: d sk_ok_def sk_contents_def write_at_def)
qed

end
