(* ===== verification/Buf.thy ===== *)
theory Buf
  imports Memory
begin

text \<open>
  crypto/buf/buf.c: the growable buffer \<open>BUF_MEM\<close>, and the duplicating and bounded
  string copies. A call that pushes an error and returns 0 or NULL is the reason of that
  error on the left of a sum; the buffer is returned in both cases.
\<close>

section \<open>State\<close>

datatype err_reason = ERR_R_MALLOC_FAILURE | ERR_R_OVERFLOW

record buf_mem =
  bm_length :: nat
  bm_data :: "bytes option"
  bm_max :: nat

section \<open>Operations\<close>

definition BUF_MEM_new :: "allocator \<Rightarrow> err_reason + buf_mem" where
  "BUF_MEM_new al =
     (case OPENSSL_malloc al 24 of
        None \<Rightarrow> Inl ERR_R_MALLOC_FAILURE
      | Some _ \<Rightarrow> Inr \<lparr>bm_length = 0, bm_data = None, bm_max = 0\<rparr>)"

definition BUF_MEM_reserve :: "allocator \<Rightarrow> nat \<Rightarrow> buf_mem \<Rightarrow> (err_reason + unit) \<times> buf_mem" where
  "BUF_MEM_reserve al cap buf =
     (if bm_max buf \<ge> cap then (Inr (), buf)
      else
        let n0 = sz (cap + 3) in
        if n0 < cap then (Inl ERR_R_MALLOC_FAILURE, buf)
        else
          let n = n0 div 3; alloc_size = sz (n * 4) in
          if alloc_size div 4 \<noteq> n then (Inl ERR_R_MALLOC_FAILURE, buf)
          else
            (case OPENSSL_realloc al (bm_data buf) alloc_size of
               None \<Rightarrow> (Inl ERR_R_MALLOC_FAILURE, buf)
             | Some new_buf \<Rightarrow> (Inr (), buf\<lparr>bm_data := Some new_buf, bm_max := alloc_size\<rparr>)))"

definition BUF_MEM_grow :: "allocator \<Rightarrow> nat \<Rightarrow> buf_mem \<Rightarrow> (err_reason + nat) \<times> buf_mem" where
  "BUF_MEM_grow al len buf =
     (case BUF_MEM_reserve al len buf of
        (Inl e, buf') \<Rightarrow> (Inl e, buf')
      | (Inr _, buf') \<Rightarrow>
          (let buf'' = (if bm_length buf' < len
                        then buf'\<lparr>bm_data := map_option
                               (\<lambda>d. write_at d (bm_length buf') (replicate (len - bm_length buf') 0))
                               (bm_data buf')\<rparr>
                        else buf')
           in (Inr len, buf''\<lparr>bm_length := len\<rparr>)))"

definition BUF_MEM_grow_clean :: "allocator \<Rightarrow> nat \<Rightarrow> buf_mem \<Rightarrow> (err_reason + nat) \<times> buf_mem" where
  "BUF_MEM_grow_clean al len buf = BUF_MEM_grow al len buf"

definition BUF_MEM_append :: "allocator \<Rightarrow> bytes \<Rightarrow> buf_mem \<Rightarrow> (err_reason + unit) \<times> buf_mem" where
  "BUF_MEM_append al src buf =
     (let len = length src; new_len = sz (bm_length buf + len) in
      if new_len < len then (Inl ERR_R_OVERFLOW, buf)
      else
        (case BUF_MEM_reserve al new_len buf of
           (Inl e, buf') \<Rightarrow> (Inl e, buf')
         | (Inr _, buf') \<Rightarrow>
             (Inr (), buf'\<lparr>bm_data := map_option (\<lambda>d. write_at d (bm_length buf') src) (bm_data buf'),
                            bm_length := new_len\<rparr>)))"

fun BUF_strnlen :: "bytes \<Rightarrow> nat \<Rightarrow> nat" where
  "BUF_strnlen str 0 = 0"
| "BUF_strnlen [] (Suc n) = 0"
| "BUF_strnlen (c # str) (Suc n) = (if c = 0 then 0 else Suc (BUF_strnlen str n))"

definition BUF_strndup :: "allocator \<Rightarrow> bytes option \<Rightarrow> nat \<Rightarrow> bytes option" where
  "BUF_strndup al str_ptr max_size =
     (case str_ptr of
        None \<Rightarrow> None
      | Some str \<Rightarrow>
          (let n = BUF_strnlen str max_size; alloc_size = sz (n + 1) in
           if alloc_size < n then None
           else
             (case OPENSSL_malloc al alloc_size of
                None \<Rightarrow> None
              | Some ret \<Rightarrow> Some ((write_at ret 0 (take n str))[n := 0]))))"

definition BUF_strdup :: "allocator \<Rightarrow> bytes option \<Rightarrow> bytes option" where
  "BUF_strdup al str_ptr =
     (case str_ptr of None \<Rightarrow> None | Some str \<Rightarrow> BUF_strndup al (Some str) (strlen str))"

definition BUF_memdup :: "allocator \<Rightarrow> bytes \<Rightarrow> bytes option" where
  "BUF_memdup al data =
     (if length data = 0 then None
      else (case OPENSSL_malloc al (length data) of
              None \<Rightarrow> None
            | Some ret \<Rightarrow> Some (write_at ret 0 data)))"

text \<open>
  The bounded copies write into the array behind \<open>dst\<close>; \<open>i\<close> is how far the
  pointer \<open>dst\<close> has moved.
\<close>

fun strlcpy_loop :: "bytes \<Rightarrow> nat \<Rightarrow> bytes \<Rightarrow> nat \<Rightarrow> bytes \<times> nat \<times> bytes \<times> nat" where
  "strlcpy_loop dst i [] n = (dst, i, [], n)"
| "strlcpy_loop dst i (c # src) n =
     (if n > 1 \<and> c \<noteq> 0 then strlcpy_loop (dst[i := c]) (Suc i) src (n - 1)
      else (dst, i, c # src, n))"

definition BUF_strlcpy_at :: "bytes \<Rightarrow> nat \<Rightarrow> bytes \<Rightarrow> nat \<Rightarrow> nat \<times> bytes" where
  "BUF_strlcpy_at dst d src dst_size =
     (let (dst', i, rest, n) = strlcpy_loop dst d src dst_size;
          dst'' = (if n \<noteq> 0 then dst'[i := 0] else dst')
      in ((i - d) + strlen rest, dst''))"

definition BUF_strlcpy :: "bytes \<Rightarrow> bytes \<Rightarrow> nat \<Rightarrow> nat \<times> bytes" where
  "BUF_strlcpy dst src dst_size = BUF_strlcpy_at dst 0 src dst_size"

definition BUF_strlcat :: "bytes \<Rightarrow> bytes \<Rightarrow> nat \<Rightarrow> nat \<times> bytes" where
  "BUF_strlcat dst src dst_size =
     (let l = BUF_strnlen dst dst_size;
          (r, dst') = BUF_strlcpy_at dst l src (dst_size - l)
      in (l + r, dst'))"

section \<open>Invariant and contents\<close>

definition buf_wf :: "buf_mem \<Rightarrow> bool" where
  "buf_wf b \<longleftrightarrow> bm_length b \<le> bm_max b \<and> bm_max b < SIZE_LIMIT \<and>
     (case bm_data b of None \<Rightarrow> bm_max b = 0 | Some d \<Rightarrow> length d = bm_max b)"

definition bm_bytes :: "buf_mem \<Rightarrow> bytes" where
  "bm_bytes b = (case bm_data b of None \<Rightarrow> [] | Some d \<Rightarrow> take (bm_length b) d)"

lemma length_bm_bytes [simp]: "buf_wf b \<Longrightarrow> length (bm_bytes b) = bm_length b"
  by (auto simp: buf_wf_def bm_bytes_def split: option.splits)

lemma BUF_MEM_new_wf: "BUF_MEM_new al = Inr b \<Longrightarrow> buf_wf b \<and> bm_bytes b = []"
  by (auto simp: BUF_MEM_new_def buf_wf_def bm_bytes_def split: option.splits)

text \<open>
  What a successful reservation keeps and gives. The bound on the capacity keeps the
  size of the block, header included, in \<open>size_t\<close>.
\<close>

lemma BUF_MEM_reserve_ok:
  assumes r: "BUF_MEM_reserve al cap b = (Inr (), b')" and wf: "buf_wf b" and cap: "cap \<le> 2 ^ 63"
  shows "buf_wf b'" "bm_bytes b' = bm_bytes b" "bm_length b' = bm_length b" "cap \<le> bm_max b'"
proof -
  let ?n = "(cap + 3) div 3"
  have n: "sz (cap + 3) = cap + 3" "sz (?n * 4) = ?n * 4" "?n * 4 + 8 < SIZE_LIMIT" "cap \<le> ?n * 4"
    using cap by (simp_all add: sz_def)
  have *: "buf_wf b' \<and> bm_bytes b' = bm_bytes b \<and> bm_length b' = bm_length b \<and> cap \<le> bm_max b'"
  proof (cases "bm_max b \<ge> cap")
    case True
    with r wf show ?thesis by (simp add: BUF_MEM_reserve_def)
  next
    case False
    with r n obtain d where d: "OPENSSL_realloc al (bm_data b) (?n * 4) = Some d"
      and b': "b' = b\<lparr>bm_data := Some d, bm_max := ?n * 4\<rparr>"
      by (auto simp: BUF_MEM_reserve_def Let_def split: option.splits)
    have len: "length d = ?n * 4"
      using d n(3) by (rule length_OPENSSL_realloc)
    have less: "bm_length b \<le> ?n * 4"
      using wf False n(4) by (simp add: buf_wf_def)
    have "bm_bytes b' = bm_bytes b"
    proof (cases "bm_data b")
      case None
      with wf show ?thesis by (simp add: b' bm_bytes_def buf_wf_def)
    next
      case (Some old)
      with wf have "bm_length b \<le> length old" by (simp add: buf_wf_def)
      then have "take (bm_length b) d = take (bm_length b) old"
        using take_OPENSSL_realloc [OF d [unfolded Some] n(3)] less by simp
      with Some show ?thesis by (simp add: b' bm_bytes_def)
    qed
    with len less n show ?thesis by (simp add: b' buf_wf_def)
  qed
  then show "buf_wf b'" "bm_bytes b' = bm_bytes b" "bm_length b' = bm_length b" "cap \<le> bm_max b'"
    by simp_all
qed

lemma BUF_MEM_reserve_fail: "BUF_MEM_reserve al cap b = (Inl e, b') \<Longrightarrow> b' = b"
  by (auto simp: BUF_MEM_reserve_def Let_def split: if_splits option.splits)

lemma bm_bytes_write:
  assumes "buf_wf b" "bm_length b + length src \<le> bm_max b"
  defines "b' \<equiv> b\<lparr>bm_data := map_option (\<lambda>d. write_at d (bm_length b) src) (bm_data b),
                   bm_length := bm_length b + length src\<rparr>"
  shows "buf_wf b'" "bm_bytes b' = bm_bytes b @ src"
  using assms by (auto simp: buf_wf_def bm_bytes_def take_write_at split: option.splits)

lemma BUF_MEM_append_ok:
  assumes r: "BUF_MEM_append al src b = (Inr (), b')" and wf: "buf_wf b"
    and bound: "bm_length b + length src \<le> 2 ^ 63"
  shows "buf_wf b'" "bm_bytes b' = bm_bytes b @ src"
proof -
  have s: "sz (bm_length b + length src) = bm_length b + length src"
    using bound by (simp add: sz_def)
  from r obtain b1 where b1: "BUF_MEM_reserve al (bm_length b + length src) b = (Inr (), b1)"
    and b': "b' = b1\<lparr>bm_data := map_option (\<lambda>d. write_at d (bm_length b1) src) (bm_data b1),
                     bm_length := bm_length b + length src\<rparr>"
    by (auto simp: BUF_MEM_append_def Let_def s split: prod.splits sum.splits)
  note ok = BUF_MEM_reserve_ok [OF b1 wf bound]
  with bm_bytes_write [of b1 src] show "buf_wf b'" "bm_bytes b' = bm_bytes b @ src"
    by (simp_all add: b')
qed

lemma BUF_MEM_append_fail: "BUF_MEM_append al src b = (Inl e, b') \<Longrightarrow> b' = b"
  by (auto simp: BUF_MEM_append_def Let_def dest: BUF_MEM_reserve_fail
      split: if_splits prod.splits sum.splits)

lemma BUF_MEM_grow_ok:
  assumes r: "BUF_MEM_grow al len b = (Inr n, b')" and wf: "buf_wf b" and bound: "len \<le> 2 ^ 63"
  shows "n = len" "buf_wf b'" "bm_bytes b' = take len (bm_bytes b) @ replicate (len - bm_length b) 0"
proof -
  from r obtain b1 where b1: "BUF_MEM_reserve al len b = (Inr (), b1)"
    by (auto simp: BUF_MEM_grow_def Let_def split: prod.splits sum.splits)
  note ok = BUF_MEM_reserve_ok [OF b1 wf bound]
  show "n = len"
    using r b1 by (simp add: BUF_MEM_grow_def Let_def split: if_splits)
  have *: "buf_wf b' \<and> bm_bytes b' = take len (bm_bytes b) @ replicate (len - bm_length b) 0"
  proof (cases "bm_length b < len")
    case True
    with r b1 ok have b': "b' = b1\<lparr>bm_data := map_option (\<lambda>d. write_at d (bm_length b1)
        (replicate (len - bm_length b1) 0)) (bm_data b1),
        bm_length := bm_length b1 + length (replicate (len - bm_length b1) (0 :: u8))\<rparr>"
      by (auto simp: BUF_MEM_grow_def)
    have "bm_length b1 + length (replicate (len - bm_length b1) (0 :: u8)) \<le> bm_max b1"
      using True ok by simp
    from bm_bytes_write [OF ok(1) this] True show ?thesis
      unfolding b' using ok wf by simp
  next
    case False
    with r b1 ok have b': "b' = b1\<lparr>bm_length := len\<rparr>"
      by (auto simp: BUF_MEM_grow_def)
    have "bm_bytes b' = take len (bm_bytes b1)"
      using False ok(3) by (simp add: b' bm_bytes_def min_absorb1 split: option.split)
    moreover have "buf_wf b'"
      using False ok by (auto simp: b' buf_wf_def split: option.splits)
    ultimately show ?thesis using False ok(2) by simp
  qed
  then show "buf_wf b'" "bm_bytes b' = take len (bm_bytes b) @ replicate (len - bm_length b) 0"
    by simp_all
qed

section \<open>Bounded string copy\<close>

lemma strlen_Nil [simp]: "strlen [] = 0"
  by (simp add: strlen_def)

lemma strlen_Cons: "strlen (c # s) = (if c = 0 then 0 else Suc (strlen s))"
  by (simp add: strlen_def)

lemma BUF_strnlen_eq: "BUF_strnlen s n = min n (strlen s)"
  by (induction s n rule: BUF_strnlen.induct) (auto simp: strlen_def)

text \<open>The number of bytes copied, what remains of the source, and the destination.\<close>

lemma strlcpy_loop_eq:
  "strlcpy_loop dst i src n = (dst', i', rest, n') \<Longrightarrow> i + n \<le> length dst \<Longrightarrow>
   dst' = write_at dst i (take (min (n - 1) (strlen src)) src) \<and>
   i' = i + min (n - 1) (strlen src) \<and> rest = drop (min (n - 1) (strlen src)) src \<and>
   n' = n - min (n - 1) (strlen src)"
proof (induction dst i src n rule: strlcpy_loop.induct)
  case (1 dst i n)
  then show ?case by simp
next
  case (2 dst i c src n)
  show ?case
  proof (cases "n > 1 \<and> c \<noteq> 0")
    case True
    define m where "m = min (n - 1 - 1) (strlen src)"
    have IH: "dst' = write_at (dst[i := c]) (Suc i) (take m src) \<and> i' = Suc i + m
        \<and> rest = drop m src \<and> n' = n - 1 - m"
      unfolding m_def using True "2.prems" by (intro "2.IH") auto
    have m: "min (n - 1) (strlen (c # src)) = Suc m"
      using True by (auto simp: m_def strlen_Cons)
    have "write_at (dst[i := c]) (Suc i) (take m src) = write_at dst i (take (Suc m) (c # src))"
      using True "2.prems"(2) by (simp add: write_at_def take_Suc_conv_app_nth)
    then show ?thesis
      using IH unfolding m by simp
  next
    case False
    with "2.prems" show ?thesis
      by (auto simp: strlen_Cons)
  qed
qed

lemma strlen_drop: "k \<le> strlen s \<Longrightarrow> strlen (drop k s) = strlen s - k"
proof (induction s arbitrary: k)
  case Nil
  then show ?case by simp
next
  case (Cons c s)
  then show ?case by (cases k) (auto simp: strlen_Cons split: if_splits)
qed

lemma BUF_strlcpy_at_eq:
  fixes src :: bytes
  assumes "d + n \<le> length dst" "0 < n"
  defines "k \<equiv> min (n - 1) (strlen src)"
  shows "BUF_strlcpy_at dst d src n = (strlen src, write_at dst d (take k src @ [0]))"
proof -
  obtain dst' i rest n' where l: "strlcpy_loop dst d src n = (dst', i, rest, n')"
    by (cases "strlcpy_loop dst d src n")
  from strlcpy_loop_eq [OF l assms(1)] have
    e: "dst' = write_at dst d (take k src)" "i = d + k" "rest = drop k src" "n' = n - k"
    by (simp_all add: k_def)
  have k: "k \<le> strlen src" "k < n" using assms by (auto simp: k_def)
  have le: "k \<le> length src"
    using k(1) length_takeWhile_le [of "\<lambda>c. c \<noteq> 0" src] by (simp add: strlen_def)
  have "(write_at dst d (take k src))[d + k := 0] = write_at dst d (take k src @ [0])"
    using k assms(1) le
    by (simp add: write_at_def list_update_append drop_update_cancel
        Cons_nth_drop_Suc [symmetric] min_absorb2)
  with k show ?thesis
    by (simp add: BUF_strlcpy_at_def l e strlen_drop)
qed

end
