(* ===== verification/Cbs.thy ===== *)
theory Cbs
  imports Buf
begin

text \<open>
  crypto/bytestring/cbs.c: the byte string parser CBS. A CBS is a pointer and a length
  into constant memory; the model is the list of the bytes that remain. Every parsing
  call is an operation of the prelude: None is the return value 0, and the CBS after the
  call is returned in both cases, since a failing call may have advanced it. Out
  parameters of a failing call are not part of the contract and not modelled.
\<close>

section \<open>Raw access\<close>

type_synonym cbs = bytes

definition CBS_init :: "bytes \<Rightarrow> nat \<Rightarrow> cbs" where
  "CBS_init data len = take len data"

definition cbs_get :: "nat \<Rightarrow> (cbs, bytes) op" where
  "cbs_get n cbs = (if length cbs < n then (None, cbs) else (Some (take n cbs), drop n cbs))"

definition CBS_skip :: "nat \<Rightarrow> (cbs, unit) op" where
  "CBS_skip len = op_bind (cbs_get len) (\<lambda>_. op_return ())"

definition CBS_data :: "cbs \<Rightarrow> bytes" where
  "CBS_data cbs = cbs"

definition CBS_len :: "cbs \<Rightarrow> nat" where
  "CBS_len cbs = length cbs"

text \<open>The result, \<open>*out_ptr\<close> and \<open>*out_len\<close> after the call.\<close>

definition CBS_stow :: "allocator \<Rightarrow> cbs \<Rightarrow> bool \<times> bytes option \<times> nat" where
  "CBS_stow al cbs =
     (if length cbs = 0 then (True, None, 0)
      else (case BUF_memdup al cbs of
              None \<Rightarrow> (False, None, 0)
            | Some p \<Rightarrow> (True, Some p, length cbs)))"

text \<open>\<open>data_null\<close> says whether \<open>cbs->data\<close> is NULL, which an empty CBS may have.\<close>

definition CBS_strdup :: "allocator \<Rightarrow> bool \<Rightarrow> cbs \<Rightarrow> bytes option" where
  "CBS_strdup al data_null cbs =
     BUF_strndup al (if data_null then None else Some cbs) (length cbs)"

definition CBS_contains_zero_byte :: "cbs \<Rightarrow> bool" where
  "CBS_contains_zero_byte cbs \<longleftrightarrow> List.member cbs 0"

definition CBS_mem_equal :: "cbs \<Rightarrow> bytes \<Rightarrow> nat \<Rightarrow> bool" where
  "CBS_mem_equal cbs data len \<longleftrightarrow> len = length cbs \<and> CRYPTO_memcmp cbs data len = 0"

section \<open>Integers and length-prefixed strings\<close>

definition cbs_get_u :: "nat \<Rightarrow> (cbs, u32) op" where
  "cbs_get_u len =
     op_bind (cbs_get len)
       (\<lambda>data. op_return (foldl (\<lambda>result d. push_bit 8 result OR ucast d) 0 data))"

definition CBS_get_u8 :: "(cbs, u8) op" where
  "CBS_get_u8 = op_bind (cbs_get 1) (\<lambda>v. op_return (v ! 0))"

definition CBS_get_u16 :: "(cbs, u16) op" where
  "CBS_get_u16 = op_bind (cbs_get_u 2) (\<lambda>v. op_return (ucast v))"

definition CBS_get_u24 :: "(cbs, u32) op" where
  "CBS_get_u24 = cbs_get_u 3"

definition CBS_get_u32 :: "(cbs, u32) op" where
  "CBS_get_u32 = cbs_get_u 4"

definition CBS_get_last_u8 :: "(cbs, u8) op" where
  "CBS_get_last_u8 cbs =
     (if length cbs = 0 then (None, cbs)
      else (Some (cbs ! (length cbs - 1)), take (length cbs - 1) cbs))"

definition CBS_get_bytes :: "nat \<Rightarrow> (cbs, cbs) op" where
  "CBS_get_bytes len = op_bind (cbs_get len) (\<lambda>v. op_return (CBS_init v len))"

definition CBS_copy_bytes :: "nat \<Rightarrow> (cbs, bytes) op" where
  "CBS_copy_bytes len = op_bind (cbs_get len) (\<lambda>v. op_return (take len v))"

definition cbs_get_length_prefixed :: "nat \<Rightarrow> (cbs, cbs) op" where
  "cbs_get_length_prefixed len_len =
     op_bind (cbs_get_u len_len) (\<lambda>len. CBS_get_bytes (unat len))"

definition CBS_get_u8_length_prefixed :: "(cbs, cbs) op" where
  "CBS_get_u8_length_prefixed = cbs_get_length_prefixed 1"

definition CBS_get_u16_length_prefixed :: "(cbs, cbs) op" where
  "CBS_get_u16_length_prefixed = cbs_get_length_prefixed 2"

definition CBS_get_u24_length_prefixed :: "(cbs, cbs) op" where
  "CBS_get_u24_length_prefixed = cbs_get_length_prefixed 3"

section \<open>ASN.1 elements\<close>

text \<open>The loop of \<open>parse_base128_integer\<close>: one octet per round, up to the first with the high bit clear.\<close>

fun parse_base128_loop :: "u64 \<Rightarrow> (cbs, u64) op" where
  "parse_base128_loop v [] = (None, [])"
| "parse_base128_loop v (b # cbs) =
     (if drop_bit (64 - 7) v \<noteq> 0 then (None, cbs)
      else if v = 0 \<and> b = 0x80 then (None, cbs)
      else
        let v' = push_bit 7 v OR ucast (b AND 0x7f) in
        if b AND 0x80 \<noteq> 0 then parse_base128_loop v' cbs else (Some v', cbs))"

definition parse_base128_integer :: "(cbs, u64) op" where
  "parse_base128_integer = parse_base128_loop 0"

definition CBS_ASN1_TAG_NUMBER_MASK :: u32 where
  "CBS_ASN1_TAG_NUMBER_MASK = push_bit (5 + 24) 1 - 1"

definition CBS_ASN1_CONSTRUCTED :: u32 where
  "CBS_ASN1_CONSTRUCTED = push_bit 24 0x20"

definition parse_asn1_tag :: "(cbs, u32) op" where
  "parse_asn1_tag =
     op_bind CBS_get_u8 (\<lambda>tag_byte.
       let tag = push_bit 24 (ucast tag_byte AND 0xe0) :: u32;
           tag_number = ucast (tag_byte AND 0x1f) :: u32
       in if tag_number = 0x1f then
            op_bind parse_base128_integer (\<lambda>v.
              if v > ucast CBS_ASN1_TAG_NUMBER_MASK \<or> v < 0x1f then op_fail
              else op_return (tag OR ucast v))
          else op_return (tag OR tag_number))"

text \<open>
  \<open>cbs_get_any_asn1_element\<close> parses on a copy of the CBS; only the final
  \<open>CBS_get_bytes\<close> advances it. The result is the element, its tag and the length of
  its header.
\<close>

definition asn1_take :: "nat \<Rightarrow> u32 \<Rightarrow> nat \<Rightarrow> (cbs, cbs \<times> u32 \<times> nat) op" where
  "asn1_take len tag header_len = op_bind (CBS_get_bytes len) (\<lambda>out. op_return (out, tag, header_len))"

definition cbs_get_any_asn1_element :: "bool \<Rightarrow> (cbs, cbs \<times> u32 \<times> nat) op" where
  "cbs_get_any_asn1_element ber_ok cbs =
     (case op_bind parse_asn1_tag (\<lambda>tag. op_bind CBS_get_u8 (\<lambda>b. op_return (tag, b))) cbs of
        (None, _) \<Rightarrow> (None, cbs)
      | (Some (tag, length_byte), header) \<Rightarrow>
          (let header_len = CBS_len cbs - CBS_len header in
           if length_byte AND 0x80 = 0 then
             asn1_take (sz (unat length_byte + header_len)) tag header_len cbs
           else
             let num_bytes = unat (length_byte AND 0x7f) in
             if ber_ok \<and> tag AND CBS_ASN1_CONSTRUCTED \<noteq> 0 \<and> num_bytes = 0 then
               asn1_take header_len tag header_len cbs
             else if num_bytes = 0 \<or> num_bytes > 4 then (None, cbs)
             else
               (case cbs_get_u num_bytes header of
                  (None, _) \<Rightarrow> (None, cbs)
                | (Some len32, _) \<Rightarrow>
                    if len32 < 128 then (None, cbs)
                    else if drop_bit ((num_bytes - 1) * 8) len32 = 0 then (None, cbs)
                    else
                      let len = unat len32 in
                      if sz (len + header_len + num_bytes) < len then (None, cbs)
                      else asn1_take (sz (len + (header_len + num_bytes))) tag
                             (sz (header_len + num_bytes)) cbs)))"

definition CBS_get_any_asn1_element :: "(cbs, cbs \<times> u32 \<times> nat) op" where
  "CBS_get_any_asn1_element = cbs_get_any_asn1_element False"

definition CBS_get_any_ber_asn1_element :: "(cbs, cbs \<times> u32 \<times> nat) op" where
  "CBS_get_any_ber_asn1_element = cbs_get_any_asn1_element True"

text \<open>\<open>CBS_skip (out, header_len)\<close> on the element just parsed.\<close>

definition CBS_get_any_asn1 :: "(cbs, cbs \<times> u32) op" where
  "CBS_get_any_asn1 =
     op_bind CBS_get_any_asn1_element (\<lambda>(out, tag, header_len).
       case CBS_skip header_len out of
         (None, _) \<Rightarrow> op_fail
       | (Some _, out') \<Rightarrow> op_return (out', tag))"

definition cbs_get_asn1 :: "u32 \<Rightarrow> bool \<Rightarrow> (cbs, cbs) op" where
  "cbs_get_asn1 tag_value skip_header =
     op_bind CBS_get_any_asn1_element (\<lambda>(out, tag, header_len).
       if tag \<noteq> tag_value then op_fail
       else if skip_header then
         (case CBS_skip header_len out of
            (None, _) \<Rightarrow> op_fail
          | (Some _, out') \<Rightarrow> op_return out')
       else op_return out)"

definition CBS_get_asn1 :: "u32 \<Rightarrow> (cbs, cbs) op" where
  "CBS_get_asn1 tag_value = cbs_get_asn1 tag_value True"

definition CBS_get_asn1_element :: "u32 \<Rightarrow> (cbs, cbs) op" where
  "CBS_get_asn1_element tag_value = cbs_get_asn1 tag_value False"

definition CBS_peek_asn1_tag :: "cbs \<Rightarrow> u32 \<Rightarrow> bool" where
  "CBS_peek_asn1_tag cbs tag_value =
     (if CBS_len cbs < 1 then False
      else (case parse_asn1_tag cbs of
              (None, _) \<Rightarrow> False
            | (Some actual_tag, _) \<Rightarrow> tag_value = actual_tag))"

section \<open>Typed elements\<close>

definition CBS_ASN1_BOOLEAN :: u32 where "CBS_ASN1_BOOLEAN = 0x1"
definition CBS_ASN1_OBJECT :: u32 where "CBS_ASN1_OBJECT = 0x6"
definition CBS_ASN1_INTEGER :: u32 where "CBS_ASN1_INTEGER = 0x2"
definition CBS_ASN1_OCTETSTRING :: u32 where "CBS_ASN1_OCTETSTRING = 0x4"

fun asn1_uint64_loop :: "u64 \<Rightarrow> bytes \<Rightarrow> u64 option" where
  "asn1_uint64_loop out [] = Some out"
| "asn1_uint64_loop out (d # data) =
     (if drop_bit 56 out \<noteq> 0 then None
      else asn1_uint64_loop (push_bit 8 out OR ucast d) data)"

definition CBS_get_asn1_uint64 :: "(cbs, u64) op" where
  "CBS_get_asn1_uint64 =
     op_bind (CBS_get_asn1 CBS_ASN1_INTEGER) (\<lambda>data.
       let len = length data in
       if len = 0 then op_fail
       else if data ! 0 AND 0x80 \<noteq> 0 then op_fail
       else if data ! 0 = 0 \<and> len > 1 \<and> data ! 1 AND 0x80 = 0 then op_fail
       else (case asn1_uint64_loop 0 data of
               None \<Rightarrow> op_fail
             | Some out \<Rightarrow> op_return out))"

definition CBS_get_asn1_bool :: "(cbs, bool) op" where
  "CBS_get_asn1_bool =
     op_bind (CBS_get_asn1 CBS_ASN1_BOOLEAN) (\<lambda>data.
       if CBS_len data \<noteq> 1 then op_fail
       else let val = data ! 0 in
            if val \<noteq> 0 \<and> val \<noteq> 0xff then op_fail else op_return (val \<noteq> 0))"

text \<open>\<open>CBS_get_optional_asn1\<close>: None is "not present", as \<open>*out_present = 0\<close>.\<close>

definition CBS_get_optional_asn1 :: "u32 \<Rightarrow> (cbs, cbs option) op" where
  "CBS_get_optional_asn1 tag cbs =
     (if CBS_peek_asn1_tag cbs tag
      then op_bind (CBS_get_asn1 tag) (\<lambda>out. op_return (Some out)) cbs
      else op_return None cbs)"

definition CBS_get_optional_asn1_octet_string :: "u32 \<Rightarrow> (cbs, cbs \<times> bool) op" where
  "CBS_get_optional_asn1_octet_string tag =
     op_bind (CBS_get_optional_asn1 tag) (\<lambda>child.
       case child of
         Some c \<Rightarrow>
           (case CBS_get_asn1 CBS_ASN1_OCTETSTRING c of
              (None, _) \<Rightarrow> op_fail
            | (Some out, c') \<Rightarrow> if CBS_len c' \<noteq> 0 then op_fail else op_return (out, True))
       | None \<Rightarrow> op_return (CBS_init [] 0, False))"

definition CBS_get_optional_asn1_uint64 :: "u32 \<Rightarrow> u64 \<Rightarrow> (cbs, u64) op" where
  "CBS_get_optional_asn1_uint64 tag default_value =
     op_bind (CBS_get_optional_asn1 tag) (\<lambda>child.
       case child of
         Some c \<Rightarrow>
           (case CBS_get_asn1_uint64 c of
              (None, _) \<Rightarrow> op_fail
            | (Some out, c') \<Rightarrow> if CBS_len c' \<noteq> 0 then op_fail else op_return out)
       | None \<Rightarrow> op_return default_value)"

definition CBS_get_optional_asn1_bool :: "u32 \<Rightarrow> int \<Rightarrow> (cbs, int) op" where
  "CBS_get_optional_asn1_bool tag default_value =
     op_bind (CBS_get_optional_asn1 tag) (\<lambda>child.
       case child of
         Some c \<Rightarrow>
           (case CBS_get_asn1 CBS_ASN1_BOOLEAN c of
              (None, _) \<Rightarrow> op_fail
            | (Some child2, c') \<Rightarrow>
                if CBS_len child2 \<noteq> 1 \<or> CBS_len c' \<noteq> 0 then op_fail
                else let boolean = CBS_data child2 ! 0 in
                     if boolean = 0 then op_return 0
                     else if boolean = 0xff then op_return 1
                     else op_fail)
       | None \<Rightarrow> op_return default_value)"

definition CBS_is_valid_asn1_bitstring :: "cbs \<Rightarrow> bool" where
  "CBS_is_valid_asn1_bitstring cbs =
     (case CBS_get_u8 cbs of
        (None, _) \<Rightarrow> False
      | (Some num_unused_bits, rest) \<Rightarrow>
          if num_unused_bits > 7 then False
          else if num_unused_bits = 0 then True
          else (case CBS_get_last_u8 rest of
                  (None, _) \<Rightarrow> False
                | (Some l, _) \<Rightarrow> l AND (push_bit (unat num_unused_bits) 1 - 1) = 0))"

definition CBS_asn1_bitstring_has_bit :: "cbs \<Rightarrow> u32 \<Rightarrow> bool" where
  "CBS_asn1_bitstring_has_bit cbs b =
     (if \<not> CBS_is_valid_asn1_bitstring cbs then False
      else let byte_num = unat (drop_bit 3 b + 1);
               bit_num = unat (7 - (b AND 7))
           in byte_num < CBS_len cbs \<and>
              CBS_data cbs ! byte_num AND push_bit bit_num 1 \<noteq> 0)"

end
