(* ===== verification/Der.thy ===== *)
theory Der
  imports Cbs
begin

text \<open>
  The DER encodings that the ASN.1 calls of CBS and CBB share, written as plain functions
  of the values (X.690: identifier octets, definite lengths in the minimum number of
  octets), and the proof that the parser of cbs.c accepts exactly these encodings: it reads
  back every one of them and nothing else.
\<close>

section \<open>Groups of seven bits\<close>

lemma drop_bit_57_iff: "drop_bit 57 v = 0 \<longleftrightarrow> unat v < 2 ^ 57" for v :: u64
  by (rule drop_zero_iff)

lemma push_7_or:
  fixes v :: u64 and b :: u8
  assumes "unat v < 2 ^ 57"
  shows "unat (push_bit 7 v OR ucast (b AND 0x7f)) = unat v * 128 + unat b mod 128"
proof -
  have z: "push_bit 7 v AND ucast (take_bit 7 b) = 0"
    by (rule bit_word_eqI) (auto simp: bit_simps)
  have "push_bit 7 v OR ucast (b AND 0x7f) = v * 128 + ucast (b AND 0x7f)"
    by (simp only: and_7f disjunctive_add_eq_or [OF z, symmetric]) (simp add: push_bit_eq_mult)
  then have "unat (push_bit 7 v OR ucast (b AND 0x7f))
      = (unat v * 128 + unat (ucast (b AND 0x7f) :: u64)) mod 2 ^ 64"
    by (simp only: unat_word_ariths) (simp add: mod_simps)
  also have "unat (ucast (b AND 0x7f) :: u64) = unat b mod 128"
    by (simp add: unsigned_ucast_eq unat_and_7f take_bit_eq_mod)
  finally show ?thesis using assms by simp
qed

section \<open>Base 128 integers\<close>

text \<open>\<open>base128_hi\<close> are the octets with the high bit set, \<open>base128\<close> the whole integer.\<close>

fun base128_hi :: "nat \<Rightarrow> bytes" where
  "base128_hi v = (if v = 0 then [] else base128_hi (v div 128) @ [word_of_nat (v mod 128 + 128)])"

declare base128_hi.simps [simp del]

definition base128 :: "nat \<Rightarrow> bytes" where
  "base128 v = base128_hi (v div 128) @ [word_of_nat (v mod 128)]"

lemma base128_hi_0 [simp]: "base128_hi 0 = []"
  by (simp add: base128_hi.simps)

lemma base128_hi_step:
  "w > 0 \<Longrightarrow> base128_hi w = base128_hi (w div 128) @ [word_of_nat (w mod 128 + 128)]"
  by (subst base128_hi.simps) simp

lemma loop_base128_hi:
  "w < 2 ^ 57 \<Longrightarrow> parse_base128_loop 0 (base128_hi w @ rest) = parse_base128_loop (word_of_nat w) rest"
proof (induction w arbitrary: rest rule: less_induct)
  case (less w)
  show ?case
  proof (cases "w = 0")
    case True
    then show ?thesis by simp
  next
    case False
    define b :: u8 where "b = word_of_nat (w mod 128 + 128)"
    define v :: u64 where "v = word_of_nat (w div 128)"
    have b: "unat b = w mod 128 + 128" by (simp only: b_def unat_byte_of_nat) simp
    have v: "unat v = w div 128" "unat v < 2 ^ 57"
      using less.prems by (simp_all add: v_def unat_of_nat)
    have "parse_base128_loop 0 (base128_hi w @ rest) = parse_base128_loop v (b # rest)"
      using less.IH [of "w div 128" "b # rest"] less.prems False
      by (simp add: base128_hi_step [of w] b_def v_def)
    also have "\<dots> = parse_base128_loop (push_bit 7 v OR ucast (b AND 0x7f)) rest"
    proof -
      have "\<not> (v = 0 \<and> b = 0x80)"
      proof
        assume "v = 0 \<and> b = 0x80"
        then have "w div 128 = 0" "w mod 128 = 0" using v b by auto
        with False show False by simp
      qed
      then show ?thesis using v b by (auto simp: drop_bit_57_iff and_80_iff)
    qed
    also have "push_bit 7 v OR ucast (b AND 0x7f) = word_of_nat w"
    proof -
      have "unat (push_bit 7 v OR ucast (b AND 0x7f)) = w"
        using v b by (simp add: push_7_or)
      then show ?thesis by (rule word_eq_of_nat)
    qed
    finally show ?thesis .
  qed
qed

lemma parse_base128:
  assumes "v < 2 ^ 64"
  shows "parse_base128_integer (base128 v @ rest) = (Some (word_of_nat v), rest)"
proof -
  define u :: u64 where "u = word_of_nat (v div 128)"
  define b :: u8 where "b = word_of_nat (v mod 128)"
  have u: "unat u = v div 128" "unat u < 2 ^ 57"
    using assms by (simp_all add: u_def unat_of_nat)
  have b: "unat b = v mod 128" by (simp add: b_def)
  have "parse_base128_integer (base128 v @ rest) = parse_base128_loop u (b # rest)"
    using assms by (simp add: parse_base128_integer_def base128_def loop_base128_hi u_def b_def)
  also have "\<dots> = (Some (push_bit 7 u OR ucast (b AND 0x7f)), rest)"
    using u b by (auto simp: drop_bit_57_iff and_80_iff)
  also have "push_bit 7 u OR ucast (b AND 0x7f) = word_of_nat v"
  proof -
    have "unat (push_bit 7 u OR ucast (b AND 0x7f)) = v"
      using u b by (simp add: push_7_or)
    then show ?thesis by (rule word_eq_of_nat)
  qed
  finally show ?thesis .
qed

lemma parse_base128_loop_sound:
  "parse_base128_loop v cs = (Some r, rest) \<Longrightarrow> base128_hi (unat v) @ cs = base128 (unat r) @ rest"
proof (induction v cs rule: parse_base128_loop.induct)
  case (1 v)
  then show ?case by simp
next
  case (2 v b cs)
  define v' where "v' = push_bit 7 v OR ucast (b AND 0x7f)"
  from "2.prems" have small: "unat v < 2 ^ 57" and nz: "\<not> (v = 0 \<and> b = 0x80)"
    by (auto simp: drop_bit_57_iff split: if_splits)
  have v': "unat v' = unat v * 128 + unat b mod 128"
    unfolding v'_def using small by (rule push_7_or)
  show ?case
  proof (cases "b AND 0x80 = 0")
    case True
    then have b: "unat b < 128" by (simp add: and_80_iff)
    from "2.prems" True small nz have "r = v'" "rest = cs"
      by (auto simp: v'_def drop_bit_57_iff Let_def)
    moreover have "word_of_nat (unat b) = b" by simp
    ultimately show ?thesis using v' b by (simp add: base128_def)
  next
    case False
    then have b: "128 \<le> unat b" by (simp add: and_80_iff)
    have bm: "unat b mod 128 = unat b - 128" using b by (rule byte_high_mod)
    have pos: "unat v' > 0"
    proof (rule ccontr)
      assume "\<not> unat v' > 0"
      with v' bm b have "unat v = 0" "unat b = 128" by auto
      then have "v = 0" "b = word_of_nat 128"
        by (simp_all only: unat_eq_0 word_eq_of_nat)
      with nz show False by simp
    qed
    have "parse_base128_loop v' cs = (Some r, rest)"
      using "2.prems" False small nz by (auto simp: v'_def drop_bit_57_iff Let_def)
    then have "base128_hi (unat v') @ cs = base128 (unat r) @ rest"
      using "2.IH" [OF _ _ v'_def] False small nz by (auto simp: drop_bit_57_iff)
    moreover have "base128_hi (unat v') = base128_hi (unat v) @ [b]"
    proof -
      have "unat v' div 128 = unat v" "unat v' mod 128 = unat b mod 128"
        by (simp_all only: v') simp_all
      with bm b have "unat v' div 128 = unat v" "unat v' mod 128 + 128 = unat b"
        by simp_all
      then show ?thesis using base128_hi_step [OF pos] by simp
    qed
    ultimately show ?thesis by simp
  qed
qed

lemma parse_base128_sound:
  "parse_base128_integer cs = (Some r, rest) \<Longrightarrow> cs = base128 (unat r) @ rest"
  using parse_base128_loop_sound [of 0] by (simp add: parse_base128_integer_def)

section \<open>Tags\<close>

text \<open>
  A tag is 32 bits: class and constructed bit in the three most significant, the number in
  the others, so every 32 bit word is a tag.
\<close>

definition tag_bits :: "u32 \<Rightarrow> u8" where
  "tag_bits t = ucast (drop_bit 24 t) AND 0xe0"

definition tag_number :: "u32 \<Rightarrow> nat" where
  "tag_number t = unat (t AND CBS_ASN1_TAG_NUMBER_MASK)"

definition der_tag :: "u32 \<Rightarrow> bytes" where
  "der_tag t = (if tag_number t \<ge> 31 then (tag_bits t OR 0x1f) # base128 (tag_number t)
                else [tag_bits t OR word_of_nat (tag_number t)])"

lemma tag_mask: "CBS_ASN1_TAG_NUMBER_MASK = mask 29"
  by (simp add: CBS_ASN1_TAG_NUMBER_MASK_def mask_eq_exp_minus_1 push_bit_eq_mult)

lemma tag_number_eq: "tag_number t = unat (take_bit 29 t)"
  by (simp only: tag_number_def tag_mask take_bit_eq_mask)

lemma tag_number_less: "tag_number t < 2 ^ 29"
  by (simp only: tag_number_eq unsigned_take_bit_eq take_bit_nat_less_exp)

lemma e0_mask: "(0xe0 :: 'a::len word) = push_bit 5 (mask 3)"
  by (simp add: push_bit_eq_mult mask_eq_exp_minus_1)

lemma mask_1f: "(0x1f :: 'a::len word) = mask 5"
  by (simp add: mask_eq_exp_minus_1)

text \<open>The parts of a tag, as the parser and the builder cut them out.\<close>

lemma tag_join:
  assumes "u AND 0xe0 = (0 :: u8)"
  shows "push_bit 24 (ucast (tag_bits t OR u) AND 0xe0) OR take_bit 29 t = (t :: u32)"
proof (rule bit_word_eqI)
  fix n assume n: "n < LENGTH(32)"
  have u: "\<not> bit u k" if "5 \<le> k" for k
  proof
    assume b: "bit u k"
    then have "k < 8" using bit_imp_le_length [of u k] by simp
    with that b have "bit (u AND push_bit 5 (mask 3)) k" by (auto simp: bit_simps)
    with assms show False by (simp add: e0_mask)
  qed
  show "bit (push_bit 24 (ucast (tag_bits t OR u) AND 0xe0) OR take_bit 29 t) n \<longleftrightarrow> bit t n"
  proof (cases "29 \<le> n")
    case True
    then have "\<not> bit u (n - 24)" using u [of "n - 24"] by simp
    with n True show ?thesis by (auto simp: tag_bits_def e0_mask bit_simps)
  next
    case False
    with n show ?thesis by (auto simp: tag_bits_def e0_mask bit_simps)
  qed
qed

lemma parse_asn1_tag_der: "parse_asn1_tag (der_tag t @ rest) = (Some t, rest)"
proof (cases "tag_number t \<ge> 31")
  case True
  have low: "(tag_bits t OR 0x1f) AND 0x1f = 0x1f"
    by (simp only: mask_1f, rule bit_word_eqI) (auto simp: bit_simps)
  have z: "(0x1f :: u8) AND 0xe0 = 0"
    by simp
  have num: "parse_base128_integer (base128 (tag_number t) @ rest) = (Some (word_of_nat (tag_number t)), rest)"
    by (rule parse_base128) (use tag_number_less [of t] in simp)
  have v: "unat (word_of_nat (tag_number t) :: u64) = tag_number t"
    using tag_number_less [of t] by (simp add: unat_of_nat)
  have le: "\<not> (ucast CBS_ASN1_TAG_NUMBER_MASK :: u64) < word_of_nat (tag_number t)"
    using tag_number_less [of t] v
    by (simp add: word_less_nat_alt CBS_ASN1_TAG_NUMBER_MASK_def push_bit_eq_mult)
  have ge: "\<not> (word_of_nat (tag_number t) :: u64) < 0x1f"
    using True v by (simp add: word_less_nat_alt)
  have c: "ucast (word_of_nat (tag_number t) :: u64) = take_bit 29 t"
    by (rule ucast_eq_of_unat) (simp only: v, simp only: tag_number_eq)
  show ?thesis
    using True le ge tag_join [OF z, of t]
    by (simp add: parse_asn1_tag_def der_tag_def CBS_get_u8_def cbs_get_def low num c
        op_bind_def op_return_def Let_def)
next
  case False
  define u :: u8 where "u = word_of_nat (tag_number t)"
  have u: "unat u = tag_number t" using False by (simp add: u_def)
  have z: "u AND 0xe0 = 0"
  proof -
    have "take_bit 5 u = u"
      using False u by (simp add: take_bit_eq_self_iff_drop_bit_eq_0 drop_zero_iff)
    then have "u AND 0xe0 = take_bit 5 u AND 0xe0" by simp
    also have "\<dots> = 0"
      by (simp only: e0_mask, rule bit_word_eqI) (auto simp: bit_simps)
    finally show ?thesis .
  qed
  have low: "(tag_bits t OR u) AND 0x1f = u"
  proof -
    have "tag_bits t AND 0x1f = 0"
      by (simp only: tag_bits_def e0_mask mask_1f, rule bit_word_eqI) (auto simp: bit_simps)
    moreover have "u AND 0x1f = u"
      using False u by (simp add: and_1f take_bit_eq_self_iff_drop_bit_eq_0 drop_zero_iff)
    ultimately show ?thesis by (simp add: bit.conj_disj_distrib2)
  qed
  have e: "ucast u = take_bit 29 t"
    by (rule ucast_eq_of_unat) (simp only: u tag_number_eq)
  moreover have "ucast u \<noteq> (0x1f :: u32)"
  proof
    assume "ucast u = (0x1f :: u32)"
    then have "tag_number t = unat (0x1f :: u32)" by (simp only: e tag_number_eq)
    with False show False by simp
  qed
  ultimately show ?thesis
    using False tag_join [OF z, of t]
    by (simp add: parse_asn1_tag_def der_tag_def CBS_get_u8_def cbs_get_def low u_def [symmetric]
        op_bind_def op_return_def Let_def)
qed

lemma tag_split:
  assumes "take_bit 29 x = (x :: u32)" "t = push_bit 24 (ucast b AND 0xe0) OR x"
  shows "tag_number t = unat x" "tag_bits t = b AND 0xe0"
proof -
  have x: "\<not> bit x k" if "29 \<le> k" for k
    using assms(1) that by (metis bit_take_bit_iff leD)
  have "take_bit 29 t = x"
  proof (rule bit_word_eqI)
    fix n assume "n < LENGTH(32)"
    then show "bit (take_bit 29 t) n \<longleftrightarrow> bit x n"
      using x [of n] by (cases "29 \<le> n") (auto simp: assms(2) e0_mask bit_simps)
  qed
  then show "tag_number t = unat x" by (simp only: tag_number_eq)
  show "tag_bits t = b AND 0xe0"
  proof (rule bit_word_eqI)
    fix n assume "n < LENGTH(8)"
    then show "bit (tag_bits t) n \<longleftrightarrow> bit (b AND 0xe0) n"
      using x [of "24 + n"] by (cases "5 \<le> n") (auto simp: assms(2) tag_bits_def e0_mask bit_simps)
  qed
qed

lemma byte_split: "(b AND 0xe0) OR (b AND 0x1f) = b" for b :: u8
  by (simp only: e0_mask mask_1f, rule bit_word_eqI) (auto simp: bit_simps)

lemma parse_asn1_tag_sound:
  assumes "parse_asn1_tag cs = (Some t, rest)"
  shows "cs = der_tag t @ rest"
proof -
  from assms obtain b cs' where cs: "cs = b # cs'"
    by (cases cs) (auto simp: parse_asn1_tag_def CBS_get_u8_def cbs_get_def op_bind_def)
  show ?thesis
  proof (cases "b AND 0x1f = 0x1f")
    case True
    then have "ucast (b AND 0x1f) = (0x1f :: u32)" by simp
    with assms obtain v where v: "parse_base128_integer cs' = (Some v, rest)"
      and le: "v \<le> ucast CBS_ASN1_TAG_NUMBER_MASK" and ge: "0x1f \<le> v"
      and t: "t = push_bit 24 (ucast b AND 0xe0) OR ucast v"
      by (auto simp: cs parse_asn1_tag_def CBS_get_u8_def cbs_get_def op_bind_def op_return_def
          op_fail_def Let_def split: prod.splits option.splits if_splits)
    have vn: "unat v < 2 ^ 29" "31 \<le> unat v"
      using le ge by (simp_all add: word_le_nat_alt CBS_ASN1_TAG_NUMBER_MASK_def push_bit_eq_mult)
    have x: "unat (ucast v :: u32) = unat v"
      using vn by (simp add: unsigned_ucast_eq take_bit_eq_mod)
    have "take_bit 29 (ucast v :: u32) = ucast v"
      using vn x by (simp add: take_bit_eq_self_iff_drop_bit_eq_0 drop_zero_iff)
    from tag_split [OF this t] have "tag_number t = unat v" "tag_bits t = b AND 0xe0"
      by (simp_all add: x)
    with vn True byte_split [of b] parse_base128_sound [OF v] show ?thesis
      by (simp add: cs der_tag_def)
  next
    case False
    have x: "unat (ucast (b AND 0x1f) :: u32) = unat (b AND 0x1f)"
      by (simp add: unsigned_ucast_eq unat_and_1f take_bit_eq_mod)
    have "unat (b AND 0x1f) \<noteq> 31"
      using False by (metis word_eq_of_nat of_nat_numeral)
    then have less: "unat (b AND 0x1f) < 31"
      by (simp only: unat_and_1f)
    have "ucast (b AND 0x1f) \<noteq> (0x1f :: u32)"
    proof
      assume "ucast (b AND 0x1f) = (0x1f :: u32)"
      then have "unat (b AND 0x1f) = unat (0x1f :: u32)" using x by simp
      with less show False by simp
    qed
    with assms have t: "t = push_bit 24 (ucast b AND 0xe0) OR ucast (b AND 0x1f)" and r: "rest = cs'"
      by (auto simp: cs parse_asn1_tag_def CBS_get_u8_def cbs_get_def op_bind_def op_return_def
          Let_def)
    have "take_bit 29 (ucast (b AND 0x1f) :: u32) = ucast (b AND 0x1f)"
      using less x by (simp add: take_bit_eq_self_iff_drop_bit_eq_0 drop_zero_iff)
    from tag_split [OF this t] have n: "tag_number t = unat (b AND 0x1f)" and "tag_bits t = b AND 0xe0"
      by (simp_all add: x)
    moreover have "word_of_nat (tag_number t) = b AND 0x1f"
      by (simp only: n) simp
    ultimately show ?thesis
      using less byte_split [of b] by (simp add: cs r der_tag_def)
  qed
qed

section \<open>Lengths\<close>

text \<open>The number of octets of a long-form length, and the length octets.\<close>

definition len_octets :: "nat \<Rightarrow> nat" where
  "len_octets n = (if n < 2 ^ 8 then 1 else if n < 2 ^ 16 then 2 else if n < 2 ^ 24 then 3 else 4)"

definition der_len :: "nat \<Rightarrow> bytes" where
  "der_len n = (if n < 128 then [word_of_nat n]
                else word_of_nat (128 + len_octets n) # be_bytes (len_octets n) n)"

text \<open>An element: tag, length and contents.\<close>

definition der_element :: "u32 \<Rightarrow> bytes \<Rightarrow> bytes" where
  "der_element t c = der_tag t @ der_len (length c) @ c"

lemma len_octets_bounds:
  assumes "n < 2 ^ 32"
  shows "n < 256 ^ len_octets n" "1 \<le> len_octets n" "len_octets n \<le> 4"
    "128 \<le> n \<Longrightarrow> n \<ge> 256 ^ (len_octets n - 1) \<or> len_octets n = 1"
  using assms by (auto simp: len_octets_def)

lemma pow_256: "(2 :: nat) ^ (n * 8) = 256 ^ n"
proof -
  have "(2 :: nat) ^ (8 * n) = (2 ^ 8) ^ n" by (rule power_mult)
  then show ?thesis by (simp add: mult.commute)
qed

lemma len_octets_unique:
  assumes "n < 256 ^ k" "256 ^ (k - 1) \<le> n" "1 \<le> k" "k \<le> 4"
  shows "k = len_octets n"
proof -
  have "k \<in> {1, 2, 3, 4}" using assms(3,4) by auto
  then show ?thesis using assms(1,2) by (auto simp: len_octets_def)
qed

lemma length_base128_hi: "w < 128 ^ k \<Longrightarrow> length (base128_hi w) \<le> k"
proof (induction k arbitrary: w)
  case 0
  then show ?case by simp
next
  case (Suc k)
  show ?case
  proof (cases "w = 0")
    case False
    have "w div 128 < 128 ^ k" using Suc.prems by (simp add: div_less_iff_less_mult mult.commute)
    with Suc.IH False show ?thesis by (simp add: base128_hi_step)
  qed simp
qed

lemma length_der_tag: "1 \<le> length (der_tag t)" "length (der_tag t) \<le> 6"
proof -
  have "tag_number t div 128 < 128 ^ 4" using tag_number_less [of t] by simp
  from length_base128_hi [OF this] show "length (der_tag t) \<le> 6"
    by (simp add: der_tag_def base128_def)
qed (simp add: der_tag_def)

lemma length_der_len: "n < 2 ^ 32 \<Longrightarrow> 1 \<le> length (der_len n) \<and> length (der_len n) \<le> 5"
  using len_octets_bounds [of n] by (simp add: der_len_def)

lemma cbs_get_u_eq:
  "cbs_get_u n cs = (if length cs < n then (None, cs)
                     else (Some (word_of_nat (be_nat (take n cs))), drop n cs))"
  by (simp add: cbs_get_u_def cbs_get_def op_bind_def op_return_def foldl_shift_or_byte)

lemma CBS_get_u8_Cons [simp]: "CBS_get_u8 (b # cs) = (Some b, cs)"
  by (simp add: CBS_get_u8_def cbs_get_def op_bind_def op_return_def)

lemma CBS_get_u8_Nil [simp]: "CBS_get_u8 [] = (None, [])"
  by (simp add: CBS_get_u8_def cbs_get_def op_bind_def)

lemma asn1_take_eq:
  "asn1_take n t h cs = (if length cs < n then (None, cs) else (Some (take n cs, t, h), drop n cs))"
  by (simp add: asn1_take_def CBS_get_bytes_def cbs_get_def CBS_init_def op_bind_def op_return_def)

section \<open>Elements\<close>

text \<open>The parser reads back every DER element, and leaves what follows it.\<close>

lemma CBS_get_any_asn1_element_der:
  assumes c: "length c < 2 ^ 32" and rest: "length (der_element t c @ rest) < SIZE_LIMIT"
  shows "CBS_get_any_asn1_element (der_element t c @ rest) =
    (Some (der_element t c, t, length (der_tag t) + length (der_len (length c))), rest)"
proof -
  define n where "n = length c"
  have n: "n < 2 ^ 32" using c by (simp add: n_def)
  have len: "length (der_element t c) = length (der_tag t) + length (der_len n) + n"
    by (simp add: der_element_def n_def)
  have tag: "parse_asn1_tag (der_tag t @ xs) = (Some t, xs)" for xs
    by (rule parse_asn1_tag_der)
  have small: "length (der_tag t) \<le> 6" by (rule length_der_tag)
  have tk: "take (length (der_element t c)) (der_element t c @ rest) = der_element t c"
    "drop (length (der_element t c)) (der_element t c @ rest) = rest" by simp_all
  show ?thesis
  proof (cases "n < 128")
    case True
    have b: "(word_of_nat n :: u8) AND 0x80 = 0" "unat (word_of_nat n :: u8) = n"
      using True by (simp_all add: and_80_iff)
    have e: "der_element t c = der_tag t @ word_of_nat n # c" and l: "length (der_len n) = 1"
      using True by (simp_all add: der_element_def der_len_def n_def)
    have s: "sz (n + (length (der_tag t) + 1)) = length (der_element t c)"
      using rest len l by (simp add: sz_id)
    have "CBS_get_any_asn1_element (der_element t c @ rest) =
        asn1_take (length (der_element t c)) t (length (der_tag t) + 1) (der_element t c @ rest)"
      using s True by (simp add: e CBS_get_any_asn1_element_def cbs_get_any_asn1_element_def tag
          op_bind_def op_return_def CBS_len_def b Let_def)
    then show ?thesis by (simp add: asn1_take_eq tk l n_def [symmetric])
  next
    case False
    define k where "k = len_octets n"
    have k: "n < 256 ^ k" "1 \<le> k" "k \<le> 4" "256 ^ (k - 1) \<le> n"
      using len_octets_bounds [OF n] False by (auto simp: k_def)
    have ub: "unat (word_of_nat (128 + k) :: u8) = 128 + k"
      using k by (simp only: unat_byte_of_nat) simp
    have b: "(word_of_nat (128 + k) :: u8) AND 0x80 \<noteq> 0"
        "unat ((word_of_nat (128 + k) :: u8) AND 0x7f) = k"
      using k by (simp_all only: and_80_iff unat_and_7f ub) simp_all
    have e: "der_element t c = der_tag t @ word_of_nat (128 + k) # be_bytes k n @ c"
      and l: "length (der_len n) = 1 + k"
      using False by (simp_all add: der_element_def der_len_def n_def k_def)
    define w :: u32 where "w = word_of_nat n"
    have w: "unat w = n" using n by (simp add: w_def unat_of_nat)
    have u: "cbs_get_u k (be_bytes k n @ c @ rest) = (Some w, c @ rest)"
      by (simp add: cbs_get_u_eq be_nat_be_bytes [OF k(1)] w_def)
    have w128: "\<not> w < 128" using False w by (simp add: word_less_nat_alt)
    have wk: "drop_bit ((k - 1) * 8) w \<noteq> 0"
    proof -
      have "(2 :: nat) ^ ((k - 1) * 8) = 256 ^ (k - 1)"
        by (rule pow_256)
      with k(4) w show ?thesis by (simp add: drop_zero_iff)
    qed
    have s: "\<not> sz (n + (length (der_tag t) + 1) + k) < n"
      "sz (n + (length (der_tag t) + 1 + k)) = length (der_element t c)"
      "sz (length (der_tag t) + 1 + k) = length (der_tag t) + 1 + k"
      using rest len l by (simp_all add: sz_id)
    have "CBS_get_any_asn1_element (der_element t c @ rest) =
        asn1_take (length (der_element t c)) t (length (der_tag t) + 1 + k) (der_element t c @ rest)"
      using s b u w w128 wk k
      by (simp add: e CBS_get_any_asn1_element_def cbs_get_any_asn1_element_def tag
          op_bind_def op_return_def CBS_len_def Let_def)
    then show ?thesis by (simp add: asn1_take_eq tk l n_def [symmetric])
  qed
qed

text \<open>The long form read backwards: what the checks of the parser leave.\<close>

lemma long_form_sound:
  assumes hd: "cbs_get_u k hdr = (Some w, hdr')" and k: "1 \<le> k" "k \<le> 4"
    and w: "\<not> w < 128" "drop_bit ((k - 1) * 8) w \<noteq> 0"
    and b: "unat b = 128 + k"
  shows "b # hdr = der_len (unat w) @ hdr'"
proof -
  have hl: "k \<le> length hdr" and w': "w = word_of_nat (be_nat (take k hdr))" and hdr': "hdr' = drop k hdr"
    using hd by (auto simp: cbs_get_u_eq split: if_splits)
  have lt: "be_nat (take k hdr) < 256 ^ k"
    using be_nat_less [of "take k hdr"] hl by (simp add: min_absorb2)
  have "(256 :: nat) ^ k \<le> 256 ^ 4" using k by (intro power_increasing) auto
  with lt have "be_nat (take k hdr) < 2 ^ 32" by simp
  then have un: "unat w = be_nat (take k hdr)" by (simp add: w' unat_of_nat)
  have ge: "128 \<le> unat w" using w(1) by (simp add: word_less_nat_alt)
  have "256 ^ (k - 1) \<le> unat w"
    using w(2) by (simp only: drop_zero_iff pow_256)
  then have lo: "k = len_octets (unat w)"
    using lt k by (intro len_octets_unique) (simp_all add: un)
  have "be_bytes k (unat w) = take k hdr"
    using be_bytes_be_nat [of "take k hdr"] hl by (simp add: un min_absorb2)
  moreover have "b = word_of_nat (128 + k)" using b by (rule word_eq_of_nat)
  ultimately show ?thesis
    using ge lo hdr' by (simp add: der_len_def)
qed

text \<open>
  The other direction: whatever the DER parser returns is the DER element of its tag and
  contents, so no non-minimal tag or length is ever accepted.
\<close>

lemma CBS_get_any_asn1_element_sound:
  assumes r: "CBS_get_any_asn1_element cs = (Some (out, t, h), rest)"
    and size: "length cs < SIZE_LIMIT"
  obtains c where "out = der_element t c" "cs = der_element t c @ rest" "length c < 2 ^ 32"
    "h = length (der_tag t) + length (der_len (length c))"
proof -
  from r obtain b hdr where tag: "parse_asn1_tag cs = (Some t, b # hdr)"
    by (auto simp: CBS_get_any_asn1_element_def cbs_get_any_asn1_element_def op_bind_def
        op_return_def Let_def asn1_take_eq neq_Nil_conv CBS_get_u8_def cbs_get_def
        split: prod.splits option.splits if_splits)
  then have cs: "cs = der_tag t @ b # hdr" by (rule parse_asn1_tag_sound)
  define hl where "hl = length (der_tag t) + 1"
  have hl: "length cs - length hdr = hl" by (simp add: cs hl_def)
  have split: "length out = length (der_tag t) + length (der_len m) + m \<Longrightarrow>
      cs = der_tag t @ der_len m @ hdr' \<Longrightarrow> out = take (length out) cs \<Longrightarrow>
      rest = drop (length out) cs \<Longrightarrow> length out \<le> length cs \<Longrightarrow>
      out = der_element t (take m hdr') \<and> cs = der_element t (take m hdr') @ rest
        \<and> length (take m hdr') = m" for m hdr'
    by (simp add: der_element_def min_def split: if_splits)
  show ?thesis
  proof (cases "b AND 0x80 = 0")
    case True
    then have bl: "unat b < 128" by (simp add: and_80_iff)
    have s: "sz (unat b + hl) = unat b + hl"
      using length_der_tag [of t] bl by (intro sz_id) (simp add: hl_def)
    from r True have a: "asn1_take (unat b + hl) t hl cs = (Some (out, t, h), rest)"
      by (simp add: CBS_get_any_asn1_element_def cbs_get_any_asn1_element_def op_bind_def
          op_return_def tag CBS_len_def hl s Let_def)
    have dl: "der_len (unat b) = [b]" using bl by (simp add: der_len_def)
    have "out = der_element t (take (unat b) hdr) \<and> cs = der_element t (take (unat b) hdr) @ rest
        \<and> length (take (unat b) hdr) = unat b"
      using a by (intro split) (auto simp: asn1_take_eq cs dl hl_def split: if_splits)
    moreover have "h = hl" using a by (auto simp: asn1_take_eq split: if_splits)
    ultimately show ?thesis
      using bl dl by (intro that [of "take (unat b) hdr"]) (auto simp: hl_def)
  next
    case False
    then have "128 \<le> unat b" by (simp add: and_80_iff)
    define k where "k = unat (b AND 0x7f)"
    have "unat b = 128 + unat b mod 128"
      using \<open>128 \<le> unat b\<close> byte_high_mod [of b] by simp
    then have bk: "unat b = 128 + k" by (simp add: k_def unat_and_7f)
    from r False obtain w hdr' where u: "cbs_get_u k hdr = (Some w, hdr')"
      and k: "1 \<le> k" "k \<le> 4"
      and w: "\<not> w < 128" "drop_bit ((k - 1) * 8) w \<noteq> 0"
      and a: "asn1_take (sz (unat w + (hl + k))) t (sz (hl + k)) cs = (Some (out, t, h), rest)"
      by (auto simp: CBS_get_any_asn1_element_def cbs_get_any_asn1_element_def op_bind_def
          op_return_def tag CBS_len_def hl Let_def k_def [symmetric]
          split: prod.splits option.splits if_splits)
    have dl: "b # hdr = der_len (unat w) @ hdr'"
      by (rule long_form_sound [OF u k w bk])
    have lw: "unat w < 2 ^ 32" using unsigned_less [of w, where 'a = nat] by simp
    have dlk: "length (der_len (unat w)) = 1 + k"
      using u dl by (auto simp: cbs_get_u_eq dest!: arg_cong [of _ _ length] split: if_splits)
    have s: "sz (unat w + (hl + k)) = unat w + (hl + k)" "sz (hl + k) = hl + k"
      using length_der_tag [of t] lw k by (auto intro!: sz_id simp: hl_def)
    have a': "asn1_take (unat w + (hl + k)) t (hl + k) cs = (Some (out, t, h), rest)"
      using a by (simp only: s)
    have out: "out = take (unat w + (hl + k)) cs" "rest = drop (unat w + (hl + k)) cs"
      "unat w + (hl + k) \<le> length cs"
      using a' by (auto simp: asn1_take_eq split: if_splits)
    then have lo: "length out = unat w + (hl + k)" by simp
    have "out = der_element t (take (unat w) hdr') \<and> cs = der_element t (take (unat w) hdr') @ rest
        \<and> length (take (unat w) hdr') = unat w"
    proof (rule split)
      show "length out = length (der_tag t) + length (der_len (unat w)) + unat w"
        by (simp add: lo dlk hl_def)
      show "cs = der_tag t @ der_len (unat w) @ hdr'" by (simp add: cs dl)
    qed (use out lo in \<open>simp_all\<close>)
    moreover have "h = hl + k" using a' by (auto simp: asn1_take_eq split: if_splits)
    ultimately show ?thesis
      using lw dlk by (intro that [of "take (unat w) hdr'"]) (auto simp: hl_def)
  qed
qed

end
