(* ===== verification/Cbb.thy ===== *)
theory Cbb
  imports Der
begin

text \<open>
  crypto/bytestring/cbb.c: the byte string builder. A top-level CBB and the chain of its
  open descendants share one buffer, so they are one state: the buffer
  (\<open>struct cbb_buffer_st\<close>, None for a NULL \<open>base\<close>) and the list of the CBBs of the
  chain, the top-level one first and each one the \<open>child\<close> of the one before it. An
  operation is called on a CBB by its depth in the chain. A depth beyond the chain is a
  CBB that was flushed away, whose \<open>base\<close> is NULL. The allocator is an argument of
  each call that may grow the buffer.
\<close>

section \<open>State\<close>

record cbb_buffer_st =
  cb_buf :: bytes
  cb_len :: nat
  cb_cap :: nat
  cb_can_resize :: bool
  cb_error :: bool

record cbb_frame =
  fr_offset :: nat
  fr_pending_len_len :: nat
  fr_pending_is_asn1 :: bool

record cbb =
  cbb_base :: "cbb_buffer_st option"
  cbb_chain :: "cbb_frame list"

definition CBB_zero :: cbb where
  "CBB_zero = \<lparr>cbb_base = None, cbb_chain = []\<rparr>"

definition cbb_init :: "allocator \<Rightarrow> bytes \<Rightarrow> nat \<Rightarrow> cbb option" where
  "cbb_init al buf cap =
     (case OPENSSL_malloc al 32 of
        None \<Rightarrow> None
      | Some _ \<Rightarrow>
          Some \<lparr>cbb_base = Some \<lparr>cb_buf = buf, cb_len = 0, cb_cap = cap,
                                 cb_can_resize = True, cb_error = False\<rparr>,
                cbb_chain = [\<lparr>fr_offset = 0, fr_pending_len_len = 0, fr_pending_is_asn1 = False\<rparr>]\<rparr>)"

text \<open>A NULL buffer, which only an initial capacity of 0 allows, is the empty list.\<close>

definition CBB_init :: "allocator \<Rightarrow> nat \<Rightarrow> cbb option" where
  "CBB_init al initial_capacity =
     (case OPENSSL_malloc al initial_capacity of
        None \<Rightarrow> if initial_capacity > 0 then None else cbb_init al [] initial_capacity
      | Some buf \<Rightarrow> cbb_init al buf initial_capacity)"

definition CBB_init_fixed :: "allocator \<Rightarrow> bytes \<Rightarrow> nat \<Rightarrow> cbb option" where
  "CBB_init_fixed al buf len =
     (case cbb_init al buf len of
        None \<Rightarrow> None
      | Some cbb \<Rightarrow> Some (cbb\<lparr>cbb_base := map_option (\<lambda>b. b\<lparr>cb_can_resize := False\<rparr>) (cbb_base cbb)\<rparr>))"

definition CBB_cleanup :: "cbb \<Rightarrow> cbb" where
  "CBB_cleanup cbb = cbb\<lparr>cbb_base := None\<rparr>"

section \<open>The buffer\<close>

text \<open>The result of a call on the buffer is its offset for the caller to write at.\<close>

definition cbb_buffer_reserve :: "allocator \<Rightarrow> nat \<Rightarrow> (cbb_buffer_st, nat) op" where
  "cbb_buffer_reserve al len base =
     (let newlen = sz (cb_len base + len) in
      if newlen < cb_len base then (None, base\<lparr>cb_error := True\<rparr>)
      else if newlen > cb_cap base then
        if \<not> cb_can_resize base then (None, base\<lparr>cb_error := True\<rparr>)
        else
          let newcap0 = sz (cb_cap base * 2);
              newcap = (if newcap0 < cb_cap base \<or> newcap0 < newlen then newlen else newcap0)
          in (case OPENSSL_realloc al (Some (cb_buf base)) newcap of
                None \<Rightarrow> (None, base\<lparr>cb_error := True\<rparr>)
              | Some newbuf \<Rightarrow> (Some (cb_len base), base\<lparr>cb_buf := newbuf, cb_cap := newcap\<rparr>))
      else (Some (cb_len base), base))"

definition cbb_buffer_add :: "allocator \<Rightarrow> nat \<Rightarrow> (cbb_buffer_st, nat) op" where
  "cbb_buffer_add al len =
     op_bind (cbb_buffer_reserve al len)
       (\<lambda>out base. (Some out, base\<lparr>cb_len := cb_len base + len\<rparr>))"

text \<open>The loop that writes \<open>v\<close> in \<open>n\<close> big-endian bytes; what is left of \<open>v\<close> is returned.\<close>

fun put_be :: "bytes \<Rightarrow> nat \<Rightarrow> nat \<Rightarrow> nat \<Rightarrow> bytes \<times> nat" where
  "put_be buf off 0 v = (buf, v)"
| "put_be buf off (Suc i) v = put_be (buf[off + i := word_of_nat v]) off i (v div 256)"

definition cbb_buffer_add_u :: "allocator \<Rightarrow> u32 \<Rightarrow> nat \<Rightarrow> (cbb_buffer_st, unit) op" where
  "cbb_buffer_add_u al v len_len =
     (if len_len = 0 then op_return ()
      else op_bind (cbb_buffer_add al len_len) (\<lambda>buf base.
        let (data, v') = put_be (cb_buf base) buf len_len (unat v);
            base' = base\<lparr>cb_buf := data\<rparr>
        in if v' \<noteq> 0 then (None, base'\<lparr>cb_error := True\<rparr>) else (Some (), base')))"

section \<open>Flushing\<close>

text \<open>The number of octets of a DER length and its first octet; None is "too large".\<close>

definition asn1_len_len :: "nat \<Rightarrow> (nat \<times> u8) option" where
  "asn1_len_len len =
     (if len > 0xfffffffe then None
      else if len > 0xffffff then Some (5, 0x84)
      else if len > 0xffff then Some (4, 0x83)
      else if len > 0xff then Some (3, 0x82)
      else if len > 0x7f then Some (2, 0x81)
      else Some (1, word_of_nat len))"

text \<open>
  The second half of \<open>CBB_flush\<close>: the contents of the child frame \<open>f\<close> are the
  bytes from \<open>child_start\<close> on, and its length prefix is written in front of them.
\<close>

definition cbb_write_prefix :: "allocator \<Rightarrow> cbb_frame \<Rightarrow> nat \<Rightarrow> (cbb_buffer_st, unit) op" where
  "cbb_write_prefix al f child_start base =
     (let len = cb_len base - child_start in
      if fr_pending_is_asn1 f then
        (case asn1_len_len len of
           None \<Rightarrow> (None, base)
         | Some (len_len, initial_length_byte) \<Rightarrow>
             (let len' = (if len_len = 1 then 0 else len);
                  extra_bytes = len_len - 1;
                  (moved, base1) =
                    (if len_len \<noteq> 1 then
                       (case cbb_buffer_add al extra_bytes base of
                          (None, b) \<Rightarrow> (False, b)
                        | (Some _, b) \<Rightarrow>
                            (True, b\<lparr>cb_buf := write_at (cb_buf b) (child_start + extra_bytes)
                                       (take len' (drop child_start (cb_buf b)))\<rparr>))
                     else (True, base))
              in if \<not> moved then (None, base1)
                 else
                   let buf = (cb_buf base1)[fr_offset f := initial_length_byte];
                       (buf', rest) = put_be buf (fr_offset f + 1) (len_len - 1) len'
                   in (if rest \<noteq> 0 then None else Some (), base1\<lparr>cb_buf := buf'\<rparr>)))
      else
        let (buf', rest) = put_be (cb_buf base) (fr_offset f) (fr_pending_len_len f) len
        in (if rest \<noteq> 0 then None else Some (), base\<lparr>cb_buf := buf'\<rparr>))"

text \<open>
  \<open>CBB_flush\<close> on a CBB whose open descendants are the given frames: the result is
  whether it succeeded, the descendants still attached, and the buffer.
\<close>

fun cbb_flush :: "allocator \<Rightarrow> cbb_frame list \<Rightarrow> cbb_buffer_st \<Rightarrow> bool \<times> cbb_frame list \<times> cbb_buffer_st" where
  "cbb_flush al [] base = (\<not> cb_error base, [], base)"
| "cbb_flush al (f # fs) base =
     (if cb_error base then (False, f # fs, base)
      else if fr_pending_len_len f = 0 then (True, f # fs, base)
      else
        let child_start = sz (fr_offset f + fr_pending_len_len f);
            (ok, fs', base1) = cbb_flush al fs base
        in if \<not> ok \<or> child_start < fr_offset f \<or> cb_len base1 < child_start
           then (False, f # fs', base1\<lparr>cb_error := True\<rparr>)
           else (case cbb_write_prefix al f child_start base1 of
                   (None, base2) \<Rightarrow> (False, f # fs', base2\<lparr>cb_error := True\<rparr>)
                 | (Some _, base2) \<Rightarrow> (True, [], base2)))"

definition CBB_flush :: "allocator \<Rightarrow> nat \<Rightarrow> (cbb, unit) op" where
  "CBB_flush al d cbb =
     (case cbb_base cbb of
        None \<Rightarrow> (None, cbb)
      | Some base \<Rightarrow>
          if length (cbb_chain cbb) \<le> d then (None, cbb)
          else
            let (ok, fs, base') = cbb_flush al (drop (Suc d) (cbb_chain cbb)) base
            in (if ok then Some () else None,
                cbb\<lparr>cbb_base := Some base', cbb_chain := take (Suc d) (cbb_chain cbb) @ fs\<rparr>))"

text \<open>A call on \<open>cbb->base\<close>, which is not NULL where \<open>CBB_flush\<close> succeeded.\<close>

definition on_base :: "(cbb_buffer_st, 'a) op \<Rightarrow> (cbb, 'a) op" where
  "on_base f cbb =
     (case cbb_base cbb of
        None \<Rightarrow> (None, cbb)
      | Some base \<Rightarrow> (case f base of (r, base') \<Rightarrow> (r, cbb\<lparr>cbb_base := Some base'\<rparr>)))"

text \<open>
  \<open>CBB_finish\<close> gives the buffer and the number of its valid bytes. The arguments say
  whether \<open>out_data\<close> and \<open>out_len\<close> are non-NULL. Only the top-level CBB, at depth 0,
  has \<open>is_top_level\<close>.
\<close>

definition CBB_finish :: "allocator \<Rightarrow> nat \<Rightarrow> bool \<Rightarrow> bool \<Rightarrow> (cbb, bytes \<times> nat) op" where
  "CBB_finish al d out_data out_len =
     (if d \<noteq> 0 then op_fail
      else op_bind (CBB_flush al d) (\<lambda>_.
        op_bind (on_base (\<lambda>base. (Some base, base))) (\<lambda>base cbb.
          if cb_can_resize base \<and> (\<not> out_data \<or> \<not> out_len) then (None, cbb)
          else (Some (cb_buf base, cb_len base), CBB_cleanup cbb))))"

definition CBB_data :: "nat \<Rightarrow> cbb \<Rightarrow> bytes" where
  "CBB_data d cbb =
     (case cbb_base cbb of
        None \<Rightarrow> []
      | Some base \<Rightarrow> let f = cbb_chain cbb ! d in drop (fr_offset f + fr_pending_len_len f) (cb_buf base))"

definition CBB_len :: "nat \<Rightarrow> cbb \<Rightarrow> nat" where
  "CBB_len d cbb =
     (case cbb_base cbb of
        None \<Rightarrow> 0
      | Some base \<Rightarrow> let f = cbb_chain cbb ! d in cb_len base - fr_offset f - fr_pending_len_len f)"

section \<open>Length-prefixed children\<close>

text \<open>\<open>out_contents\<close> becomes the child of the CBB at depth \<open>d\<close>: the CBB at depth \<open>d + 1\<close>.\<close>

definition cbb_push :: "nat \<Rightarrow> cbb_frame \<Rightarrow> (cbb, unit) op" where
  "cbb_push d f cbb = (Some (), cbb\<lparr>cbb_chain := take (Suc d) (cbb_chain cbb) @ [f]\<rparr>)"

definition cbb_add_length_prefixed :: "allocator \<Rightarrow> nat \<Rightarrow> nat \<Rightarrow> (cbb, unit) op" where
  "cbb_add_length_prefixed al d len_len =
     op_bind (CBB_flush al d) (\<lambda>_.
       op_bind (on_base (cbb_buffer_add al len_len)) (\<lambda>offset.
         op_bind (on_base (\<lambda>base. (Some (),
             base\<lparr>cb_buf := write_at (cb_buf base) offset (replicate len_len 0)\<rparr>))) (\<lambda>_.
           cbb_push d \<lparr>fr_offset = offset, fr_pending_len_len = len_len,
                       fr_pending_is_asn1 = False\<rparr>)))"

definition CBB_add_u8_length_prefixed :: "allocator \<Rightarrow> nat \<Rightarrow> (cbb, unit) op" where
  "CBB_add_u8_length_prefixed al d = cbb_add_length_prefixed al d 1"

definition CBB_add_u16_length_prefixed :: "allocator \<Rightarrow> nat \<Rightarrow> (cbb, unit) op" where
  "CBB_add_u16_length_prefixed al d = cbb_add_length_prefixed al d 2"

definition CBB_add_u24_length_prefixed :: "allocator \<Rightarrow> nat \<Rightarrow> (cbb, unit) op" where
  "CBB_add_u24_length_prefixed al d = cbb_add_length_prefixed al d 3"

section \<open>Bytes and integers\<close>

definition CBB_add_bytes :: "allocator \<Rightarrow> nat \<Rightarrow> bytes \<Rightarrow> (cbb, unit) op" where
  "CBB_add_bytes al d data =
     op_bind (CBB_flush al d) (\<lambda>_.
       op_bind (on_base (cbb_buffer_add al (length data))) (\<lambda>dest.
         on_base (\<lambda>base. (Some (), base\<lparr>cb_buf := write_at (cb_buf base) dest data\<rparr>))))"

definition CBB_add_space :: "allocator \<Rightarrow> nat \<Rightarrow> nat \<Rightarrow> (cbb, nat) op" where
  "CBB_add_space al d len =
     op_bind (CBB_flush al d) (\<lambda>_. on_base (cbb_buffer_add al len))"

definition CBB_reserve :: "allocator \<Rightarrow> nat \<Rightarrow> nat \<Rightarrow> (cbb, nat) op" where
  "CBB_reserve al d len =
     op_bind (CBB_flush al d) (\<lambda>_. on_base (cbb_buffer_reserve al len))"

definition CBB_did_write :: "nat \<Rightarrow> nat \<Rightarrow> (cbb, unit) op" where
  "CBB_did_write d len cbb =
     (case cbb_base cbb of
        None \<Rightarrow> (None, cbb)
      | Some base \<Rightarrow>
          (let newlen = sz (cb_len base + len) in
           if Suc d < length (cbb_chain cbb) \<or> newlen < cb_len base \<or> newlen > cb_cap base
           then (None, cbb)
           else (Some (), cbb\<lparr>cbb_base := Some (base\<lparr>cb_len := newlen\<rparr>)\<rparr>)))"

definition cbb_add_u :: "allocator \<Rightarrow> nat \<Rightarrow> u32 \<Rightarrow> nat \<Rightarrow> (cbb, unit) op" where
  "cbb_add_u al d v len_len =
     op_bind (CBB_flush al d) (\<lambda>_. on_base (cbb_buffer_add_u al v len_len))"

definition CBB_add_u8 :: "allocator \<Rightarrow> nat \<Rightarrow> u8 \<Rightarrow> (cbb, unit) op" where
  "CBB_add_u8 al d value = cbb_add_u al d (ucast value) 1"

definition CBB_add_u16 :: "allocator \<Rightarrow> nat \<Rightarrow> u16 \<Rightarrow> (cbb, unit) op" where
  "CBB_add_u16 al d value = cbb_add_u al d (ucast value) 2"

definition CBB_add_u24 :: "allocator \<Rightarrow> nat \<Rightarrow> u32 \<Rightarrow> (cbb, unit) op" where
  "CBB_add_u24 al d value = cbb_add_u al d value 3"

definition CBB_add_u32 :: "allocator \<Rightarrow> nat \<Rightarrow> u32 \<Rightarrow> (cbb, unit) op" where
  "CBB_add_u32 al d value = cbb_add_u al d value 4"

definition CBB_discard_child :: "nat \<Rightarrow> cbb \<Rightarrow> cbb" where
  "CBB_discard_child d cbb =
     (case cbb_base cbb of
        None \<Rightarrow> cbb
      | Some base \<Rightarrow>
          if length (cbb_chain cbb) \<le> Suc d then cbb
          else cbb\<lparr>cbb_base := Some (base\<lparr>cb_len := fr_offset (cbb_chain cbb ! Suc d)\<rparr>),
                   cbb_chain := take (Suc d) (cbb_chain cbb)\<rparr>)"

section \<open>ASN.1\<close>

text \<open>The number of base 128 digits, then the digits from the most significant on.\<close>

function base128_len :: "u64 \<Rightarrow> nat" where
  "base128_len copy = (if copy = 0 then 0 else Suc (base128_len (drop_bit 7 copy)))"
  by pat_completeness auto
termination
proof (relation "measure unat")
  fix copy :: u64
  assume "copy \<noteq> 0"
  then have "0 < unat copy" by (simp add: unat_gt_0)
  then show "(drop_bit 7 copy, copy) \<in> measure unat" by (simp add: unat_drop)
qed simp

declare base128_len.simps [simp del]

fun add_base128_loop :: "allocator \<Rightarrow> nat \<Rightarrow> u64 \<Rightarrow> nat \<Rightarrow> (cbb, unit) op" where
  "add_base128_loop al d v 0 = op_return ()"
| "add_base128_loop al d v (Suc i) =
     (let byte0 = ucast (drop_bit (7 * i) v AND 0x7f) :: u8;
          byte = (if i \<noteq> 0 then byte0 OR 0x80 else byte0)
      in op_bind (CBB_add_u8 al d byte) (\<lambda>_. add_base128_loop al d v i))"

definition add_base128_integer :: "allocator \<Rightarrow> nat \<Rightarrow> u64 \<Rightarrow> (cbb, unit) op" where
  "add_base128_integer al d v =
     (let len_len0 = base128_len v;
          len_len = (if len_len0 = 0 then 1 else len_len0)
      in add_base128_loop al d v len_len)"

definition CBB_add_asn1 :: "allocator \<Rightarrow> nat \<Rightarrow> u32 \<Rightarrow> (cbb, unit) op" where
  "CBB_add_asn1 al d tag =
     op_bind (CBB_flush al d) (\<lambda>_.
       let bits = ucast (drop_bit 24 tag) AND 0xe0 :: u8;
           number = tag AND CBS_ASN1_TAG_NUMBER_MASK
       in op_bind
            (if number \<ge> 0x1f then
               op_bind (CBB_add_u8 al d (bits OR 0x1f)) (\<lambda>_.
                 add_base128_integer al d (ucast number))
             else CBB_add_u8 al d (bits OR ucast number)) (\<lambda>_.
          op_bind (on_base (\<lambda>base. (Some (cb_len base), base))) (\<lambda>offset.
            op_bind (CBB_add_u8 al d 0) (\<lambda>_.
              cbb_push d \<lparr>fr_offset = offset, fr_pending_len_len = 1,
                          fr_pending_is_asn1 = True\<rparr>))))"

text \<open>The loop over the octets of \<open>value\<close>, most significant first.\<close>

fun asn1_uint64_bytes :: "allocator \<Rightarrow> nat \<Rightarrow> u64 \<Rightarrow> nat \<Rightarrow> bool \<Rightarrow> (cbb, bool) op" where
  "asn1_uint64_bytes al d value 0 started = op_return started"
| "asn1_uint64_bytes al d value (Suc i) started =
     (let byte = ucast (drop_bit (8 * i) value AND 0xff) :: u8 in
      if \<not> started \<and> byte = 0 then asn1_uint64_bytes al d value i False
      else
        op_bind (if \<not> started \<and> byte AND 0x80 \<noteq> 0 then CBB_add_u8 al d 0 else op_return ()) (\<lambda>_.
          op_bind (CBB_add_u8 al d byte) (\<lambda>_. asn1_uint64_bytes al d value i True)))"

definition CBB_add_asn1_uint64 :: "allocator \<Rightarrow> nat \<Rightarrow> u64 \<Rightarrow> (cbb, unit) op" where
  "CBB_add_asn1_uint64 al d value =
     op_bind (CBB_add_asn1 al d CBS_ASN1_INTEGER) (\<lambda>_.
       op_bind (asn1_uint64_bytes al (Suc d) value 8 False) (\<lambda>started.
         op_bind (if \<not> started then CBB_add_u8 al (Suc d) 0 else op_return ()) (\<lambda>_.
           CBB_flush al d)))"

definition CBB_add_asn1_octet_string :: "allocator \<Rightarrow> nat \<Rightarrow> bytes \<Rightarrow> (cbb, unit) op" where
  "CBB_add_asn1_octet_string al d data =
     op_bind (CBB_add_asn1 al d CBS_ASN1_OCTETSTRING) (\<lambda>_.
       op_bind (CBB_add_bytes al (Suc d) data) (\<lambda>_. CBB_flush al d))"

definition CBB_add_asn1_bool :: "allocator \<Rightarrow> nat \<Rightarrow> int \<Rightarrow> (cbb, unit) op" where
  "CBB_add_asn1_bool al d value =
     op_bind (CBB_add_asn1 al d CBS_ASN1_BOOLEAN) (\<lambda>_.
       op_bind (CBB_add_u8 al (Suc d) (if value \<noteq> 0 then 0xff else 0)) (\<lambda>_. CBB_flush al d))"

end
