(* ===== verification/Cbb_Flush.thy ===== *)
theory Cbb_Flush
  imports Cbb
begin

text \<open>
  What the byte string builder promises. The abstract value of a CBB is the byte string it
  would hold once its open descendants are closed; the theory states the invariant of the
  buffer and the frames, computes that value from a state (\<open>closed\<close>, \<open>cbb_val\<close>), and
  shows that \<open>CBB_flush\<close> writes exactly it: the length prefixes, the growth of a DER
  length beyond one octet and the move of the contents included.
\<close>

section \<open>The buffer invariant\<close>

definition buf_ok :: "cbb_buffer_st \<Rightarrow> bool" where
  "buf_ok b \<longleftrightarrow> cb_len b \<le> cb_cap b \<and> length (cb_buf b) = cb_cap b \<and> cb_cap b < 2 ^ 62"

definition cb_out :: "cbb_buffer_st \<Rightarrow> bytes" where
  "cb_out b = take (cb_len b) (cb_buf b)"

definition can_hold :: "allocator \<Rightarrow> cbb_buffer_st \<Rightarrow> nat \<Rightarrow> bool" where
  "can_hold al b n \<longleftrightarrow> n < 2 ^ 60 \<and> (n \<le> cb_cap b \<or> (cb_can_resize b \<and> alloc_total al))"

text \<open>How any successful call changes the buffer: the flags stay, the room never shrinks.\<close>

definition buf_ext :: "cbb_buffer_st \<Rightarrow> cbb_buffer_st \<Rightarrow> bool" where
  "buf_ext b b' \<longleftrightarrow> buf_ok b' \<and> cb_can_resize b' = cb_can_resize b \<and> cb_error b' = cb_error b \<and>
     cb_cap b \<le> cb_cap b'"

lemma buf_ext_trans: "buf_ext a b \<Longrightarrow> buf_ext b c \<Longrightarrow> buf_ext a c"
  by (auto simp: buf_ext_def)

lemma can_hold_ext: "can_hold al b n \<Longrightarrow> buf_ext b b' \<Longrightarrow> can_hold al b' n"
  by (auto simp: can_hold_def buf_ext_def)

lemma can_hold_mono: "can_hold al b n \<Longrightarrow> m \<le> n \<Longrightarrow> can_hold al b m"
  by (auto simp: can_hold_def)

lemma length_cb_out: "buf_ok b \<Longrightarrow> length (cb_out b) = cb_len b"
  by (simp add: cb_out_def buf_ok_def)

lemma realloc_bounded:
  assumes al: "alloc_bounded al" and r: "OPENSSL_realloc al (Some old) n = Some new"
    and n: "n < 2 ^ 63"
  shows "length new = n" "n < 2 ^ 62" "k \<le> length old \<Longrightarrow> k \<le> n \<Longrightarrow> take k new = take k old"
proof -
  have s: "sz (n + 8) = n + 8" using n by (intro sz_id) simp
  have "al (n + 8) \<noteq> None"
    using r by (auto simp: OPENSSL_realloc_def OPENSSL_malloc_def s split: option.splits)
  then have "n + 8 < 2 ^ 62"
    using al unfolding alloc_bounded_def by (meson leI)
  then show "n < 2 ^ 62" by simp
  have lim: "n + 8 < SIZE_LIMIT" using n by simp
  show "length new = n" by (rule length_OPENSSL_realloc [OF r lim])
  show "k \<le> length old \<Longrightarrow> k \<le> n \<Longrightarrow> take k new = take k old"
    by (rule take_OPENSSL_realloc [OF r lim])
qed

lemma realloc_total:
  assumes "alloc_total al" "n < 2 ^ 61"
  shows "\<exists>new. OPENSSL_realloc al orig n = Some new"
proof -
  have s: "sz (n + 8) = n + 8" using assms(2) by (intro sz_id) simp
  have "n + 8 < 2 ^ 62" using assms(2) by simp
  then obtain f where "al (n + 8) = Some f"
    using assms(1) unfolding alloc_total_def by blast
  then show ?thesis
    by (simp add: OPENSSL_realloc_def OPENSSL_malloc_def s Let_def split: option.split)
qed

text \<open>The new capacity: at least what is needed, and no overflow below the limit.\<close>

lemma reserve_ok:
  assumes b: "buf_ok b" and al: "alloc_bounded al" and n: "n < 2 ^ 62"
    and r: "cbb_buffer_reserve al n b = (Some x, b')"
  shows "x = cb_len b" "buf_ext b b'" "cb_len b' = cb_len b" "cb_len b + n \<le> cb_cap b'"
    "cb_out b' = cb_out b"
proof -
  have lim: "cb_len b < 2 ^ 62" "cb_cap b < 2 ^ 62" using b by (auto simp: buf_ok_def)
  have s1: "sz (cb_len b + n) = cb_len b + n" using lim n by (intro sz_id) simp
  have s2: "sz (cb_cap b * 2) = cb_cap b * 2" using lim by (intro sz_id) simp
  have "x = cb_len b \<and> buf_ext b b' \<and> cb_len b' = cb_len b \<and> cb_len b + n \<le> cb_cap b' \<and>
      cb_out b' = cb_out b"
  proof (cases "cb_len b + n > cb_cap b")
    case False
    then show ?thesis
      using r b by (auto simp: cbb_buffer_reserve_def s1 Let_def buf_ext_def)
  next
    case True
    define c where "c = (if cb_cap b * 2 < cb_len b + n then cb_len b + n else cb_cap b * 2)"
    have c: "c < 2 ^ 63" "cb_len b + n \<le> c" "cb_cap b \<le> c"
      using lim n True by (auto simp: c_def)
    obtain new where a: "OPENSSL_realloc al (Some (cb_buf b)) c = Some new"
      and x: "x = cb_len b" and b': "b' = b\<lparr>cb_buf := new, cb_cap := c\<rparr>"
      using r True by (auto simp: cbb_buffer_reserve_def s1 s2 Let_def c_def
          split: if_splits option.splits)
    note ra = realloc_bounded [OF al a c(1)]
    have "cb_len b \<le> length (cb_buf b)" "cb_len b \<le> c" using b c by (auto simp: buf_ok_def)
    then have "take (cb_len b) new = take (cb_len b) (cb_buf b)" by (rule ra(3))
    then show ?thesis
      using x b' b c ra(1,2) by (auto simp: buf_ext_def buf_ok_def cb_out_def)
  qed
  then show "x = cb_len b" "buf_ext b b'" "cb_len b' = cb_len b" "cb_len b + n \<le> cb_cap b'"
    "cb_out b' = cb_out b" by auto
qed

lemma reserve_succeeds:
  assumes b: "buf_ok b" and h: "can_hold al b (cb_len b + n)"
  shows "\<exists>b'. cbb_buffer_reserve al n b = (Some (cb_len b), b')"
proof -
  have lim: "cb_cap b < 2 ^ 62" "cb_len b + n < 2 ^ 60"
    using b h by (auto simp: buf_ok_def can_hold_def)
  have s1: "sz (cb_len b + n) = cb_len b + n" using lim by (intro sz_id) simp
  have s2: "sz (cb_cap b * 2) = cb_cap b * 2" using lim by (intro sz_id) simp
  show ?thesis
  proof (cases "cb_len b + n > cb_cap b")
    case False
    then show ?thesis by (simp add: cbb_buffer_reserve_def s1 Let_def)
  next
    case True
    define c where "c = (if cb_cap b * 2 < cb_len b + n then cb_len b + n else cb_cap b * 2)"
    have "c < 2 ^ 61" using lim True by (auto simp: c_def)
    moreover have "alloc_total al" "cb_can_resize b" using h True by (auto simp: can_hold_def)
    ultimately obtain new where "OPENSSL_realloc al (Some (cb_buf b)) c = Some new"
      using realloc_total by blast
    then show ?thesis
      using True \<open>cb_can_resize b\<close> by (simp add: cbb_buffer_reserve_def s1 s2 Let_def c_def)
  qed
qed

lemma buffer_add_ok:
  assumes b: "buf_ok b" and al: "alloc_bounded al" and n: "n < 2 ^ 62"
    and r: "cbb_buffer_add al n b = (Some x, b')"
  shows "x = cb_len b" "buf_ext b b'" "cb_len b' = cb_len b + n"
    "take (cb_len b) (cb_buf b') = cb_out b" "take (cb_len b) (cb_out b') = cb_out b"
proof -
  from r obtain b1 where r1: "cbb_buffer_reserve al n b = (Some x, b1)"
    and b': "b' = b1\<lparr>cb_len := cb_len b1 + n\<rparr>"
    by (auto simp: cbb_buffer_add_def elim!: op_bind_SomeD)
  note ok = reserve_ok [OF b al n r1]
  show "x = cb_len b" by (rule ok)
  show "buf_ext b b'" "cb_len b' = cb_len b + n"
    using ok by (auto simp: b' buf_ext_def buf_ok_def)
  show t: "take (cb_len b) (cb_buf b') = cb_out b"
    using ok(3,5) by (simp add: b' cb_out_def)
  then show "take (cb_len b) (cb_out b') = cb_out b"
    using ok by (simp add: b' cb_out_def min_def)
qed

lemma buffer_add_succeeds:
  assumes "buf_ok b" "can_hold al b (cb_len b + n)"
  shows "\<exists>b'. cbb_buffer_add al n b = (Some (cb_len b), b')"
  using reserve_succeeds [OF assms] by (auto simp: cbb_buffer_add_def op_bind_def)

text \<open>A fixed buffer refuses what does not fit and remembers the error.\<close>

lemma buffer_add_fixed_full:
  assumes "buf_ok b" "\<not> cb_can_resize b" "cb_cap b < cb_len b + n" "n < 2 ^ 62"
  shows "cbb_buffer_add al n b = (None, b\<lparr>cb_error := True\<rparr>)"
proof -
  have "sz (cb_len b + n) = cb_len b + n"
    using assms by (intro sz_id) (auto simp: buf_ok_def)
  with assms show ?thesis
    by (simp add: cbb_buffer_add_def cbb_buffer_reserve_def op_bind_def Let_def)
qed

section \<open>Big-endian writes\<close>

lemma put_be_write:
  "off + n \<le> length buf \<Longrightarrow> put_be buf off n v = (write_at buf off (be_bytes n v), v div 256 ^ n)"
proof (induction n arbitrary: buf v)
  case 0
  then show ?case by simp
next
  case (Suc n)
  have "write_at (buf[off + n := word_of_nat v]) off (be_bytes n (v div 256)) =
      write_at buf off (be_bytes n (v div 256) @ [word_of_nat v])"
    using Suc.prems
    by (simp add: write_at_def upd_conv_take_nth_drop take_update_cancel nth_append
        min_def drop_update_cancel) 
  moreover have "v div 256 div 256 ^ n = v div 256 ^ Suc n"
    by (simp add: div_mult2_eq)
  ultimately show ?case using Suc by simp
qed

section \<open>Closing the open descendants\<close>

text \<open>
  \<open>enc_prefix\<close> is the encoding of a child's contents with its length, \<open>closed\<close> the bytes
  from \<open>pos\<close> on of an output with open frames once all are closed; None where some
  length does not fit its prefix.
\<close>

definition enc_prefix :: "cbb_frame \<Rightarrow> bytes \<Rightarrow> bytes option" where
  "enc_prefix f c =
     (if fr_pending_is_asn1 f then
        (if length c \<le> 0xfffffffe then Some (der_len (length c) @ c) else None)
      else if length c < 256 ^ fr_pending_len_len f
           then Some (be_bytes (fr_pending_len_len f) (length c) @ c) else None)"

definition fr_end :: "cbb_frame \<Rightarrow> nat" where
  "fr_end f = fr_offset f + fr_pending_len_len f"

fun frames_ok :: "nat \<Rightarrow> nat \<Rightarrow> cbb_frame list \<Rightarrow> bool" where
  "frames_ok pos n [] \<longleftrightarrow> pos \<le> n"
| "frames_ok pos n (f # fs) \<longleftrightarrow>
     pos \<le> fr_offset f \<and> 1 \<le> fr_pending_len_len f \<and> fr_pending_len_len f \<le> 3 \<and>
     (fr_pending_is_asn1 f \<longrightarrow> fr_pending_len_len f = 1) \<and> frames_ok (fr_end f) n fs"

fun closed :: "cbb_frame list \<Rightarrow> nat \<Rightarrow> bytes \<Rightarrow> bytes option" where
  "closed [] pos out = Some (drop pos out)"
| "closed (f # fs) pos out =
     (case closed fs (fr_end f) out of
        None \<Rightarrow> None
      | Some c \<Rightarrow> map_option (\<lambda>e. take (fr_offset f - pos) (drop pos out) @ e) (enc_prefix f c))"

lemma frames_ok_le: "frames_ok pos n fs \<Longrightarrow> pos \<le> n"
  by (induction fs arbitrary: pos) (fastforce simp: fr_end_def)+

lemma frames_ok_mono: "frames_ok pos n fs \<Longrightarrow> n \<le> m \<Longrightarrow> frames_ok pos m fs"
  by (induction fs arbitrary: pos) auto

lemma asn1_len_len_Some:
  assumes "asn1_len_len n = Some (k, b)"
  shows "n \<le> 0xfffffffe" "der_len n = b # be_bytes (k - 1) (if k = 1 then 0 else n)"
    "(if k = 1 then 0 else n) < 256 ^ (k - 1)" "1 \<le> k" "k \<le> 5"
  using assms
  by (auto simp: asn1_len_len_def der_len_def len_octets_def split: if_splits)

lemma asn1_len_len_None: "asn1_len_len n = None \<longleftrightarrow> n > 0xfffffffe"
  by (auto simp: asn1_len_len_def)

lemma length_enc_prefix_ge:
  "enc_prefix f c = Some e \<Longrightarrow> (fr_pending_is_asn1 f \<longrightarrow> fr_pending_len_len f = 1) \<Longrightarrow>
   fr_pending_len_len f + length c \<le> length e"
  using length_der_len [of "length c"]
  by (auto simp: enc_prefix_def split: if_splits)

text \<open>Closing only makes the output longer.\<close>

lemma closed_length:
  "closed fs pos out = Some c \<Longrightarrow> frames_ok pos (length out) fs \<Longrightarrow> length out \<le> pos + length c"
proof (induction fs arbitrary: pos c)
  case Nil
  then show ?case by auto
next
  case (Cons f fs)
  from Cons.prems obtain c' e where c': "closed fs (fr_end f) out = Some c'"
    and e: "enc_prefix f c' = Some e"
    and c: "c = take (fr_offset f - pos) (drop pos out) @ e"
    by (auto split: option.splits)
  have fr: "frames_ok (fr_end f) (length out) fs" using Cons.prems by simp
  have le: "fr_pending_len_len f + length c' \<le> length e"
    using e Cons.prems by (intro length_enc_prefix_ge) auto
  have "length out \<le> fr_end f + length c'" by (rule Cons.IH [OF c' fr])
  moreover have "fr_end f \<le> length out" using fr by (rule frames_ok_le)
  ultimately show ?case using le Cons.prems by (auto simp: c fr_end_def)
qed

text \<open>The part of the output before the first frame does not matter.\<close>

lemma closed_cong:
  "drop pos out = drop pos out' \<Longrightarrow> frames_ok pos n fs \<Longrightarrow> closed fs pos out = closed fs pos out'"
proof (induction fs arbitrary: pos)
  case Nil
  then show ?case by simp
next
  case (Cons f fs)
  have "pos \<le> fr_end f" using Cons.prems by (simp add: fr_end_def)
  then have "drop (fr_end f) out = drop (fr_end f) out'"
    using Cons.prems(1) by (metis drop_drop le_add_diff_inverse2)
  with Cons show ?case by (simp split: option.split)
qed

section \<open>Writing one prefix\<close>

lemma split_at:
  assumes "o1 + k + n \<le> length (xs :: 'a list)"
  obtains a m c t where "xs = a @ m @ c @ t" "length a = o1" "length m = k" "length c = n"
proof
  show "xs = take o1 xs @ take k (drop o1 xs) @ take n (drop (o1 + k) xs) @ drop (o1 + k + n) xs"
    by (metis append_take_drop_id drop_drop add.commute)
qed (use assms in simp_all)

lemma move_and_prefix:
  assumes "o1 + 1 + length bs + length c \<le> length buf"
  shows "take (o1 + 1 + length bs + length c)
      (write_at ((write_at buf (o1 + 1 + length bs) c)[o1 := ib]) (o1 + 1) bs) =
    take o1 buf @ ib # bs @ c"
proof -
  obtain a m d t where buf: "buf = a @ m @ d @ t" and l: "length a = o1"
    "length m = 1 + length bs" "length d = length c"
    by (rule split_at [of o1 "1 + length bs" "length c" buf]) (use assms in auto)
  from l(2) obtain x m' where m: "m = x # m'" "length m' = length bs"
    by (cases m) auto
  show ?thesis by (simp add: buf l m write_at_def list_update_append)
qed

lemma write_at_take:
  "off + length bs \<le> n \<Longrightarrow> n \<le> length buf \<Longrightarrow>
   take n (write_at buf off bs) = take off buf @ bs @ drop (off + length bs) (take n buf)"
  by (simp add: write_at_def drop_take)

text \<open>The two ways through the DER branch.\<close>

lemma write_prefix_short:
  assumes "fr_pending_is_asn1 f" "asn1_len_len (cb_len b - cs) = Some (1, ib)"
  shows "cbb_write_prefix al f cs b = (Some (), b\<lparr>cb_buf := (cb_buf b)[fr_offset f := ib]\<rparr>)"
  using assms by (simp add: cbb_write_prefix_def)

lemma write_prefix_long:
  assumes "fr_pending_is_asn1 f" "asn1_len_len (cb_len b - cs) = Some (k, ib)" "k \<noteq> 1"
    and "cbb_buffer_add al (k - 1) b = (Some y, b1)"
    and "put_be ((write_at (cb_buf b1) (cs + (k - 1))
             (take (cb_len b - cs) (drop cs (cb_buf b1))))[fr_offset f := ib])
          (fr_offset f + 1) (k - 1) (cb_len b - cs) = (buf', rest)"
  shows "cbb_write_prefix al f cs b = (if rest \<noteq> 0 then None else Some (), b1\<lparr>cb_buf := buf'\<rparr>)"
  using assms by (simp add: cbb_write_prefix_def)

text \<open>The bytes a prefix is written in front of are kept, and so is everything before it.\<close>

text \<open>The bytes a prefix is written in front of are kept, and so is everything before it.\<close>

lemma write_asn1_prefix:
  assumes b: "buf_ok b" and al: "alloc_bounded al" and le: "fr_end f \<le> cb_len b"
    and f: "fr_pending_is_asn1 f" "fr_pending_len_len f = 1"
    and c: "c = drop (fr_end f) (cb_out b)"
    and r: "cbb_write_prefix al f (fr_end f) b = (Some u, b')"
  shows "length c \<le> 0xfffffffe" "buf_ext b b'"
    "cb_out b' = take (fr_offset f) (cb_out b) @ der_len (length c) @ c"
proof -
  define n where "n = cb_len b - fr_end f"
  have n: "length c = n" using b by (simp add: c n_def length_cb_out)
  have L: "cb_len b = fr_offset f + 1 + n" and fe: "fr_end f = fr_offset f + 1"
    using le f by (auto simp: n_def fr_end_def)
  obtain k ib where al2: "asn1_len_len n = Some (k, ib)"
    using r f by (auto simp: cbb_write_prefix_def n_def [symmetric] Let_def split: option.splits)
  note spec = asn1_len_len_Some [OF al2]
  have bl: "cb_len b \<le> length (cb_buf b)" using b by (simp add: buf_ok_def)
  have "buf_ext b b' \<and> cb_out b' = take (fr_offset f) (cb_out b) @ der_len n @ c"
  proof (cases "k = 1")
    case True
    have b': "b' = b\<lparr>cb_buf := (cb_buf b)[fr_offset f := ib]\<rparr>"
      using r f True by (simp add: cbb_write_prefix_def n_def [symmetric] al2)
    have "take (cb_len b) ((cb_buf b)[fr_offset f := ib]) = take (fr_offset f) (cb_out b) @ ib # c"
      using bl L by (simp add: write_at_single write_at_take c cb_out_def fe min_def)
    then show ?thesis
      using b True spec(2) by (simp add: b' cb_out_def buf_ext_def buf_ok_def)
  next
    case False
    define x where "x = k - 1"
    have x: "x \<le> 4" "1 \<le> x" using spec(4,5) False by (auto simp: x_def)
    define bs where "bs = be_bytes x n"
    have bs: "length bs = x" by (simp add: bs_def)
    obtain y b1 where a: "cbb_buffer_add al x b = (Some y, b1)"
      using r f False by (auto simp: cbb_write_prefix_def n_def [symmetric] al2 x_def Let_def
          split: option.splits prod.splits)
    have al2': "asn1_len_len (cb_len b - fr_end f) = Some (k, ib)" using al2 by (simp add: n_def)
    note ok = buffer_add_ok [OF b al _ a]
    have x62: "x < 2 ^ 62" using x by simp
    note ok = ok [OF x62]
    have lb: "cb_len b + x \<le> length (cb_buf b1)"
      using ok(2,3) by (auto simp: buf_ext_def buf_ok_def)
    have mv: "take n (drop (fr_end f) (cb_buf b1)) = c"
    proof -
      have "n + fr_end f = cb_len b" using L fe by simp
      then show ?thesis by (simp only: take_drop ok(4) c)
    qed
    define buf where "buf = (write_at (cb_buf b1) (fr_offset f + 1 + x) c)[fr_offset f := ib]"
    have lbuf: "length buf = length (cb_buf b1)" using lb L n by (simp add: buf_def)
    have pb: "put_be buf (fr_offset f + 1) x n = (write_at buf (fr_offset f + 1) bs, n div 256 ^ x)"
      unfolding bs_def by (rule put_be_write) (use lb L lbuf in simp)
    have pb': "put_be ((write_at (cb_buf b1) (fr_end f + (k - 1))
          (take (cb_len b - fr_end f) (drop (fr_end f) (cb_buf b1))))[fr_offset f := ib])
        (fr_offset f + 1) (k - 1) (cb_len b - fr_end f) =
        (write_at buf (fr_offset f + 1) bs, n div 256 ^ x)"
      using pb by (simp only: n_def [symmetric] mv x_def [symmetric]) (simp only: fe buf_def)
    have b': "b' = b1\<lparr>cb_buf := write_at buf (fr_offset f + 1) bs\<rparr>"
      using write_prefix_long [OF f(1) al2' False a [unfolded x_def] pb'] r
      by (simp split: if_splits)
    have "cb_out b' = take (fr_offset f) (cb_buf b1) @ ib # bs @ c"
      using move_and_prefix [of "fr_offset f" bs c "cb_buf b1" ib] lb L n bs ok(3)
      by (simp add: b' cb_out_def buf_def add.commute add.left_commute)
    moreover have "take (fr_offset f) (cb_buf b1) = take (fr_offset f) (cb_out b)"
      using ok(4) L by (metis add.assoc le_add1 min.absorb1 take_take)
    moreover have "buf_ext b b'"
      using ok(2) lbuf lb L n bs by (simp add: b' buf_ext_def buf_ok_def)
    ultimately show ?thesis using spec(2) False by (simp add: bs_def x_def)
  qed
  then show "length c \<le> 0xfffffffe" "buf_ext b b'"
    "cb_out b' = take (fr_offset f) (cb_out b) @ der_len (length c) @ c"
    using spec(1) n by auto
qed

lemma write_prefix_fixed:
  assumes "\<not> fr_pending_is_asn1 f" "buf_ok b" "fr_end f \<le> cb_len b"
  shows "cbb_write_prefix al f (fr_end f) b =
    (if cb_len b - fr_end f < 256 ^ fr_pending_len_len f then Some () else None,
     b\<lparr>cb_buf := write_at (cb_buf b) (fr_offset f)
         (be_bytes (fr_pending_len_len f) (cb_len b - fr_end f))\<rparr>)"
proof -
  have "fr_offset f + fr_pending_len_len f \<le> length (cb_buf b)"
    using assms by (simp add: fr_end_def buf_ok_def)
  then show ?thesis
    using assms by (simp add: cbb_write_prefix_def put_be_write div_greater_zero_iff Let_def)
qed

lemma write_prefix_ok:
  assumes b: "buf_ok b" and al: "alloc_bounded al" and le: "fr_end f \<le> cb_len b"
    and f: "fr_pending_is_asn1 f \<longrightarrow> fr_pending_len_len f = 1"
    and r: "cbb_write_prefix al f (fr_end f) b = (Some u, b')"
  shows "\<exists>e. enc_prefix f (drop (fr_end f) (cb_out b)) = Some e \<and> buf_ext b b' \<and>
    cb_out b' = take (fr_offset f) (cb_out b) @ e"
proof (cases "fr_pending_is_asn1 f")
  case True
  then show ?thesis
    using write_asn1_prefix [OF b al le True _ refl r] f by (auto simp: enc_prefix_def)
next
  case False
  define bs where "bs = be_bytes (fr_pending_len_len f) (cb_len b - fr_end f)"
  have lb: "fr_offset f + length bs \<le> cb_len b" "cb_len b \<le> length (cb_buf b)"
    using le b by (auto simp: bs_def fr_end_def buf_ok_def)
  have fits: "cb_len b - fr_end f < 256 ^ fr_pending_len_len f"
    and b': "b' = b\<lparr>cb_buf := write_at (cb_buf b) (fr_offset f) bs\<rparr>"
    using r write_prefix_fixed [OF False b le] by (auto simp: bs_def split: if_splits)
  have "cb_out b' = take (fr_offset f) (cb_out b) @ bs @ drop (fr_end f) (cb_out b)"
    using write_at_take [OF lb] lb by (simp add: b' cb_out_def min_absorb1 bs_def fr_end_def)
  moreover have "buf_ext b b'"
    using b lb by (simp add: b' buf_ext_def buf_ok_def)
  ultimately show ?thesis using False fits by (simp add: enc_prefix_def length_cb_out [OF b] bs_def)
qed

lemma write_prefix_succeeds:
  assumes b: "buf_ok b" and al: "alloc_bounded al" and le: "fr_end f \<le> cb_len b"
    and f: "fr_pending_is_asn1 f \<longrightarrow> fr_pending_len_len f = 1"
    and e: "enc_prefix f (drop (fr_end f) (cb_out b)) = Some e"
    and h: "can_hold al b (fr_offset f + length e)"
  shows "\<exists>b'. cbb_write_prefix al f (fr_end f) b = (Some (), b')"
proof (cases "fr_pending_is_asn1 f")
  case False
  then show ?thesis
    using write_prefix_fixed [OF False b le] e b
    by (simp add: enc_prefix_def length_cb_out split: if_splits)
next
  case True
  define n where "n = cb_len b - fr_end f"
  have n: "length (drop (fr_end f) (cb_out b)) = n" using b by (simp add: n_def length_cb_out)
  have le2: "\<not> n > 0xfffffffe" and el: "length e = length (der_len n) + n"
    using e True n by (auto simp: enc_prefix_def split: if_splits)
  obtain k ib where k: "asn1_len_len n = Some (k, ib)"
    using asn1_len_len_None [of n] le2 by (cases "asn1_len_len n") auto
  note spec = asn1_len_len_Some [OF k]
  show ?thesis
  proof (cases "k = 1")
    case True
    then show ?thesis
      using write_prefix_short [OF \<open>fr_pending_is_asn1 f\<close>] k by (auto simp: n_def)
  next
    case False
    have "cb_len b + (k - 1) = fr_offset f + length e"
      using f True le spec(2,4) el by (simp add: n_def fr_end_def)
    with h have "can_hold al b (cb_len b + (k - 1))" by simp
    from buffer_add_succeeds [OF b this] obtain b1
      where a: "cbb_buffer_add al (k - 1) b = (Some (cb_len b), b1)" by blast
    have k62: "k - 1 < 2 ^ 62" using spec(5) by simp
    note ok = buffer_add_ok [OF b al k62 a]
    have lb: "fr_end f + (k - 1) + n \<le> length (cb_buf b1)"
      using ok(2,3) le by (auto simp: buf_ext_def buf_ok_def n_def)
    then have "fr_offset f + 1 + (k - 1) \<le> length ((write_at (cb_buf b1) (fr_end f + (k - 1))
        (take n (drop (fr_end f) (cb_buf b1))))[fr_offset f := ib])"
      using f True by (simp add: fr_end_def)
    note w = put_be_write [OF this, of n]
    have "n div 256 ^ (k - 1) = 0" using spec(3) False by simp
    then show ?thesis
      using write_prefix_long [OF True k [unfolded n_def] False a w [unfolded n_def]]
      by (simp add: n_def)
  qed
qed

section \<open>CBB_flush\<close>

lemma take_append_at: "n \<le> length xs \<Longrightarrow> take n xs @ drop n xs = xs"
  by simp

text \<open>A successful flush detaches every descendant and leaves the closed output.\<close>

lemma cbb_flush_ok:
  assumes "buf_ok b" "alloc_bounded al" "frames_ok pos (cb_len b) fs"
    "cbb_flush al fs b = (True, fs', b')"
  shows "fs' = [] \<and> \<not> cb_error b \<and> buf_ext b b' \<and>
    (\<exists>c. closed fs pos (cb_out b) = Some c \<and> cb_out b' = take pos (cb_out b) @ c)"
  using assms
proof (induction fs arbitrary: pos fs' b')
  case Nil
  then show ?case by (auto simp: buf_ext_def)
next
  case (Cons f fs)
  have fr: "frames_ok (fr_end f) (cb_len b) fs"
    and f: "pos \<le> fr_offset f" "1 \<le> fr_pending_len_len f" "fr_pending_len_len f \<le> 3"
      "fr_pending_is_asn1 f \<longrightarrow> fr_pending_len_len f = 1"
    using Cons.prems(3) by auto
  have end_le: "fr_end f \<le> cb_len b" using fr by (rule frames_ok_le)
  have s: "sz (fr_offset f + fr_pending_len_len f) = fr_end f"
    using end_le Cons.prems(1) by (simp add: fr_end_def buf_ok_def sz_id)
  obtain ok fs1 b1 where rec: "cbb_flush al fs b = (ok, fs1, b1)" by (cases "cbb_flush al fs b") auto
  have ok: "ok" and ne: "\<not> cb_error b" and le1: "fr_end f \<le> cb_len b1" and fs': "fs' = []"
    and w: "\<exists>u. cbb_write_prefix al f (fr_end f) b1 = (Some u, b')"
    using Cons.prems(4) f(2) by (auto simp: s rec Let_def split: if_splits option.splits prod.splits)
  from Cons.IH [OF Cons.prems(1,2) fr] rec ok obtain c where b1: "buf_ext b b1"
    and c: "closed fs (fr_end f) (cb_out b) = Some c"
    and out1: "cb_out b1 = take (fr_end f) (cb_out b) @ c" by auto
  have ob: "buf_ok b1" using b1 by (simp add: buf_ext_def)
  have lo: "length (cb_out b) = cb_len b" using Cons.prems(1) by (rule length_cb_out)
  have d1: "drop (fr_end f) (cb_out b1) = c" using end_le lo by (simp add: out1)
  have t1: "take (fr_offset f) (cb_out b1) = take (fr_offset f) (cb_out b)"
    using end_le lo by (simp add: out1 fr_end_def)
  from w obtain u where "cbb_write_prefix al f (fr_end f) b1 = (Some u, b')" by blast
  from write_prefix_ok [OF ob Cons.prems(2) le1 f(4) this] obtain e
    where e: "enc_prefix f c = Some e" and b': "buf_ext b1 b'"
      and out': "cb_out b' = take (fr_offset f) (cb_out b) @ e"
    by (auto simp: d1 t1)
  have "take (fr_offset f) (cb_out b) = take pos (cb_out b) @ take (fr_offset f - pos) (drop pos (cb_out b))"
    using f(1) by (metis le_add_diff_inverse take_add)
  then show ?case
    using ne fs' buf_ext_trans [OF b1 b'] c e out' by simp
qed

text \<open>And it succeeds where every length fits its prefix and the buffer can hold the result.\<close>

lemma cbb_flush_succeeds:
  assumes "buf_ok b" "alloc_bounded al" "frames_ok pos (cb_len b) fs" "\<not> cb_error b"
    "closed fs pos (cb_out b) = Some c" "can_hold al b (pos + length c)"
  shows "\<exists>b'. cbb_flush al fs b = (True, [], b')"
  using assms
proof (induction fs arbitrary: pos c)
  case Nil
  then show ?case by simp
next
  case (Cons f fs)
  have fr: "frames_ok (fr_end f) (cb_len b) fs"
    and f: "pos \<le> fr_offset f" "1 \<le> fr_pending_len_len f" "fr_pending_len_len f \<le> 3"
      "fr_pending_is_asn1 f \<longrightarrow> fr_pending_len_len f = 1"
    using Cons.prems(3) by auto
  have end_le: "fr_end f \<le> cb_len b" using fr by (rule frames_ok_le)
  have s: "sz (fr_offset f + fr_pending_len_len f) = fr_end f"
    using end_le Cons.prems(1) by (simp add: fr_end_def buf_ok_def sz_id)
  from Cons.prems(5) obtain c' e where c': "closed fs (fr_end f) (cb_out b) = Some c'"
    and e: "enc_prefix f c' = Some e"
    and c: "c = take (fr_offset f - pos) (drop pos (cb_out b)) @ e"
    by (auto split: option.splits)
  have lo: "length (cb_out b) = cb_len b" using Cons.prems(1) by (rule length_cb_out)
  have le: "fr_pending_len_len f + length c' \<le> length e" by (rule length_enc_prefix_ge [OF e f(4)])
  have pc: "pos + length c = fr_offset f + length e"
    using f(1) end_le lo by (simp add: c fr_end_def)
  have h: "can_hold al b (fr_end f + length c')"
    by (rule can_hold_mono [OF Cons.prems(6)]) (use le pc in \<open>simp add: fr_end_def\<close>)
  from Cons.IH [OF Cons.prems(1,2) fr Cons.prems(4) c' h] obtain b1
    where rec: "cbb_flush al fs b = (True, [], b1)" by blast
  from cbb_flush_ok [OF Cons.prems(1,2) fr rec] c' have b1: "buf_ext b b1"
    and out1: "cb_out b1 = take (fr_end f) (cb_out b) @ c'" by auto
  have ob: "buf_ok b1" using b1 by (simp add: buf_ext_def)
  have d1: "drop (fr_end f) (cb_out b1) = c'" using end_le lo by (simp add: out1)
  have "cb_len b1 = length (cb_out b1)" using ob by (simp add: length_cb_out)
  then have le1: "fr_end f \<le> cb_len b1" using end_le lo by (simp add: out1)
  have "can_hold al b1 (fr_offset f + length e)"
    using Cons.prems(6) pc b1 by (auto intro: can_hold_ext)
  from write_prefix_succeeds [OF ob Cons.prems(2) le1 f(4) _ this] e d1
  obtain b' where "cbb_write_prefix al f (fr_end f) b1 = (Some (), b')" by auto
  then show ?case
    using Cons.prems(4) f(2) le1 by (simp add: s rec fr_end_def)
qed

end
