(* ===== verification/Cbb_Build.thy ===== *)
theory Cbb_Build
  imports Cbb_Flush
begin

text \<open>
  The operations of the builder against their specification. \<open>cbb_val d s\<close> is the byte
  string that the CBB at depth \<open>d\<close> stands for; each operation that succeeds extends it
  by the encoding of its argument, and it succeeds where the encoding exists and the buffer
  can hold it. The operations that flush and then write share one contract, a locale; the
  nested calls of a client are a tree of items (\<open>run_items\<close>), and what they build is the
  specification \<open>encode_items\<close> of that tree.
\<close>

section \<open>The value of a CBB\<close>

definition cbb_pos :: "nat \<Rightarrow> cbb \<Rightarrow> nat" where
  "cbb_pos d s = fr_end (cbb_chain s ! d)"

definition cbb_inv :: "nat \<Rightarrow> cbb \<Rightarrow> bool" where
  "cbb_inv d s \<longleftrightarrow> d < length (cbb_chain s) \<and>
     (case cbb_base s of
        None \<Rightarrow> False
      | Some b \<Rightarrow> buf_ok b \<and> \<not> cb_error b \<and>
          frames_ok (cbb_pos d s) (cb_len b) (drop (Suc d) (cbb_chain s)))"

definition cbb_val :: "nat \<Rightarrow> cbb \<Rightarrow> bytes option" where
  "cbb_val d s =
     (case cbb_base s of
        None \<Rightarrow> None
      | Some b \<Rightarrow>
          map_option (\<lambda>c. take (cbb_pos d s) (cb_out b) @ c)
            (closed (drop (Suc d) (cbb_chain s)) (cbb_pos d s) (cb_out b)))"

definition cbb_holds :: "allocator \<Rightarrow> cbb \<Rightarrow> nat \<Rightarrow> bool" where
  "cbb_holds al s n \<longleftrightarrow> (case cbb_base s of None \<Rightarrow> False | Some b \<Rightarrow> can_hold al b n)"

text \<open>The CBB at depth \<open>d\<close> has no open child and the output so far is \<open>out\<close>.\<close>

definition cbb_at :: "nat \<Rightarrow> cbb \<Rightarrow> bytes \<Rightarrow> bool" where
  "cbb_at d s out \<longleftrightarrow> cbb_inv d s \<and> length (cbb_chain s) = Suc d \<and>
     (\<exists>b. cbb_base s = Some b \<and> cb_out b = out)"

text \<open>What every successful call keeps: the chain down to \<open>d\<close> and the room of the buffer.\<close>

definition cbb_keeps :: "nat \<Rightarrow> cbb \<Rightarrow> cbb \<Rightarrow> bool" where
  "cbb_keeps d s s' \<longleftrightarrow> take (Suc d) (cbb_chain s') = take (Suc d) (cbb_chain s) \<and>
     (\<exists>b b'. cbb_base s = Some b \<and> cbb_base s' = Some b' \<and> buf_ext b b')"

lemma cbb_keeps_trans: "cbb_keeps d s t \<Longrightarrow> cbb_keeps d t u \<Longrightarrow> cbb_keeps d s u"
  by (auto simp: cbb_keeps_def intro: buf_ext_trans)

lemma cbb_keeps_holds: "cbb_keeps d s s' \<Longrightarrow> cbb_holds al s n \<Longrightarrow> cbb_holds al s' n"
  by (auto simp: cbb_keeps_def cbb_holds_def intro: can_hold_ext)

lemma cbb_keeps_less: "cbb_keeps (Suc d) s s' \<Longrightarrow> cbb_keeps d s s'"
proof -
  assume k: "cbb_keeps (Suc d) s s'"
  then have "take (Suc d) (take (Suc (Suc d)) (cbb_chain s')) =
      take (Suc d) (take (Suc (Suc d)) (cbb_chain s))" by (simp only: cbb_keeps_def)
  then show ?thesis using k by (simp add: cbb_keeps_def)
qed

lemma cbb_keeps_refl: "cbb_inv d s \<Longrightarrow> cbb_keeps d s s"
  by (auto simp: cbb_keeps_def cbb_inv_def buf_ext_def split: option.splits)

lemma cbb_holds_mono: "cbb_holds al s n \<Longrightarrow> m \<le> n \<Longrightarrow> cbb_holds al s m"
  by (auto simp: cbb_holds_def intro: can_hold_mono split: option.splits)

lemma cbb_at_val: "cbb_at d s out \<Longrightarrow> cbb_val d s = Some out"
  by (auto simp: cbb_at_def cbb_val_def)

lemma cbb_at_inv: "cbb_at d s out \<Longrightarrow> cbb_inv d s"
  by (simp add: cbb_at_def)

lemma cbb_at_pos: "cbb_at d s out \<Longrightarrow> cbb_pos d s \<le> length out"
  by (auto simp: cbb_at_def cbb_inv_def length_cb_out)

lemma cbb_at_length: "cbb_at d s out \<Longrightarrow> cbb_base s = Some b \<Longrightarrow> cb_len b = length out"
  by (auto simp: cbb_at_def cbb_inv_def length_cb_out)

lemma cbb_at_baseE:
  assumes "cbb_at d s out"
  obtains b where "cbb_base s = Some b" "buf_ok b" "\<not> cb_error b" "cb_out b = out"
    "cb_len b = length out"
  using assms by (auto simp: cbb_at_def cbb_inv_def length_cb_out)

lemma CBB_flush_ok:
  assumes inv: "cbb_inv d s" and al: "alloc_bounded al" and r: "CBB_flush al d s = (Some u, s')"
  shows "\<exists>out. cbb_val d s = Some out \<and> cbb_at d s' out \<and> cbb_keeps d s s'"
proof -
  obtain b where b: "cbb_base s = Some b" "buf_ok b" "\<not> cb_error b"
    "frames_ok (cbb_pos d s) (cb_len b) (drop (Suc d) (cbb_chain s))" and d: "d < length (cbb_chain s)"
    using inv by (auto simp: cbb_inv_def split: option.splits)
  obtain fs b' where f: "cbb_flush al (drop (Suc d) (cbb_chain s)) b = (True, fs, b')"
    and s': "s' = s\<lparr>cbb_base := Some b', cbb_chain := take (Suc d) (cbb_chain s) @ fs\<rparr>"
    using r b(1) d by (auto simp: CBB_flush_def Let_def split: prod.splits if_splits)
  note ok = cbb_flush_ok [OF b(2) al b(4) f]
  then obtain c where c: "closed (drop (Suc d) (cbb_chain s)) (cbb_pos d s) (cb_out b) = Some c"
    "cb_out b' = take (cbb_pos d s) (cb_out b) @ c" and e: "fs = []" "buf_ext b b'" by auto
  have p: "cbb_pos d s' = cbb_pos d s" using d by (simp add: cbb_pos_def s' e)
  have "cb_len b' = length (cb_out b')" using e by (simp add: length_cb_out buf_ext_def)
  moreover have "cbb_pos d s \<le> cb_len b" using b(4) by (rule frames_ok_le)
  ultimately have "cbb_pos d s \<le> cb_len b'" using c(2) b(2) by (simp add: length_cb_out)
  then have "cbb_at d s' (cb_out b')"
    using e b d p by (auto simp: cbb_at_def cbb_inv_def s' buf_ext_def)
  moreover have "cbb_keeps d s s'" using e b d by (auto simp: cbb_keeps_def s')
  moreover have "cbb_val d s = Some (cb_out b')" using b(1) c by (simp add: cbb_val_def)
  ultimately show ?thesis by blast
qed

lemma CBB_flush_succeeds:
  assumes inv: "cbb_inv d s" and al: "alloc_bounded al" and v: "cbb_val d s = Some out"
    and h: "cbb_holds al s (length out)"
  shows "\<exists>s'. CBB_flush al d s = (Some (), s')"
proof -
  obtain b where b: "cbb_base s = Some b" "buf_ok b" "\<not> cb_error b"
    "frames_ok (cbb_pos d s) (cb_len b) (drop (Suc d) (cbb_chain s))" and d: "d < length (cbb_chain s)"
    using inv by (auto simp: cbb_inv_def split: option.splits)
  from v b(1) obtain c where c: "closed (drop (Suc d) (cbb_chain s)) (cbb_pos d s) (cb_out b) = Some c"
    and out: "out = take (cbb_pos d s) (cb_out b) @ c" by (auto simp: cbb_val_def)
  have "cbb_pos d s \<le> cb_len b" using b(4) by (rule frames_ok_le)
  then have "can_hold al b (cbb_pos d s + length c)"
    using h b(1,2) by (simp add: cbb_holds_def out length_cb_out min_absorb2)
  from cbb_flush_succeeds [OF b(2) al b(4) b(3) c this] obtain b'
    where "cbb_flush al (drop (Suc d) (cbb_chain s)) b = (True, [], b')" by blast
  then show ?thesis using b(1) d by (simp add: CBB_flush_def Let_def)
qed

section \<open>The contract of a writing operation\<close>

text \<open>
  A step on the buffer that appends an encoding: where it succeeds the encoding exists and
  is what the output grew by, and it succeeds where the encoding exists and fits.
\<close>

locale appender =
  fixes al :: allocator and pre :: bool and f :: "(cbb_buffer_st, 'a) op" and enc :: "bytes option"
  assumes appends: "pre \<Longrightarrow> alloc_bounded al \<Longrightarrow> buf_ok b \<Longrightarrow> f b = (Some x, b') \<Longrightarrow>
      \<exists>c. enc = Some c \<and> buf_ext b b' \<and> cb_out b' = cb_out b @ c"
    and succeeds: "pre \<Longrightarrow> alloc_bounded al \<Longrightarrow> buf_ok b \<Longrightarrow> enc = Some c \<Longrightarrow>
      can_hold al b (cb_len b + length c) \<Longrightarrow> \<exists>x b'. f b = (Some x, b')"
begin

lemma at_step:
  assumes pre: pre and al: "alloc_bounded al" and s: "cbb_at d s out" and r: "on_base f s = (Some x, s')"
  shows "\<exists>c. enc = Some c \<and> cbb_at d s' (out @ c) \<and> cbb_keeps d s s'"
proof -
  from s obtain b where b: "cbb_base s = Some b" "buf_ok b" "\<not> cb_error b" "cb_out b = out"
    "cb_len b = length out" by (rule cbb_at_baseE)
  from r b(1) obtain b' where f: "f b = (Some x, b')" and s': "s' = s\<lparr>cbb_base := Some b'\<rparr>"
    by (auto simp: on_base_def split: prod.splits)
  from appends [OF pre al b(2) f] obtain c where c: "enc = Some c" "buf_ext b b'" "cb_out b' = out @ c"
    using b(4) by auto
  have ok: "buf_ok b'" using c(2) by (simp add: buf_ext_def)
  then have "cb_len b' = length out + length c" using c(3) length_cb_out [of b'] by simp
  then have "cbb_at d s' (out @ c)"
    using s b c ok cbb_at_pos [OF s]
    by (auto simp: cbb_at_def cbb_inv_def s' cbb_pos_def buf_ext_def)
  then show ?thesis using b c by (auto simp: cbb_keeps_def s')
qed

lemma at_succeeds:
  assumes pre: pre and al: "alloc_bounded al" and s: "cbb_at d s out" and e: "enc = Some c"
    and h: "cbb_holds al s (length out + length c)"
  shows "\<exists>x s'. on_base f s = (Some x, s')"
proof -
  from s obtain b where b: "cbb_base s = Some b" "buf_ok b" "\<not> cb_error b" "cb_out b = out"
    "cb_len b = length out" by (rule cbb_at_baseE)
  from succeeds [OF pre al b(2) e] h b obtain x b' where "f b = (Some x, b')"
    by (auto simp: cbb_holds_def)
  then show ?thesis using b(1) by (simp add: on_base_def)
qed

lemma flush_step:
  assumes pre: pre and al: "alloc_bounded al" and inv: "cbb_inv d s"
    and r: "op_bind (CBB_flush al d) (\<lambda>_. on_base f) s = (Some x, s')"
  shows "\<exists>out c. cbb_val d s = Some out \<and> enc = Some c \<and> cbb_at d s' (out @ c) \<and> cbb_keeps d s s'"
proof -
  from r obtain u t where t: "CBB_flush al d s = (Some u, t)" and f: "on_base f t = (Some x, s')"
    by (rule op_bind_SomeD)
  from CBB_flush_ok [OF inv al t] obtain out where o: "cbb_val d s = Some out" "cbb_at d t out"
    "cbb_keeps d s t" by blast
  from at_step [OF pre al o(2) f] o show ?thesis by (blast intro: cbb_keeps_trans)
qed

lemma flush_succeeds:
  assumes pre: pre and al: "alloc_bounded al" and inv: "cbb_inv d s" and v: "cbb_val d s = Some out"
    and e: "enc = Some c" and h: "cbb_holds al s (length out + length c)"
  shows "\<exists>x s'. op_bind (CBB_flush al d) (\<lambda>_. on_base f) s = (Some x, s')"
proof -
  have "cbb_holds al s (length out)" by (rule cbb_holds_mono [OF h]) simp
  from CBB_flush_succeeds [OF inv al v this] obtain t where t: "CBB_flush al d s = (Some (), t)"
    by blast
  from CBB_flush_ok [OF inv al t] v have o: "cbb_at d t out" "cbb_keeps d s t" by auto
  have "cbb_holds al t (length out + length c)" by (rule cbb_keeps_holds [OF o(2) h])
  from at_succeeds [OF pre al o(1) e this] t show ?thesis by (simp add: op_simps)
qed

end

section \<open>The writing operations keep the contract\<close>

definition put_bytes :: "allocator \<Rightarrow> bytes \<Rightarrow> (cbb_buffer_st, nat) op" where
  "put_bytes al data =
     op_bind (cbb_buffer_add al (length data))
       (\<lambda>dest base. (Some dest, base\<lparr>cb_buf := write_at (cb_buf base) dest data\<rparr>))"

definition enc_u :: "nat \<Rightarrow> nat \<Rightarrow> bytes option" where
  "enc_u n v = (if v < 256 ^ n then Some (be_bytes n v) else None)"

text \<open>Room is added behind the valid bytes and then filled.\<close>

lemma add_and_write:
  assumes b: "buf_ok b" and al: "alloc_bounded al" and n: "length data < 2 ^ 62"
    and a: "cbb_buffer_add al (length data) b = (Some dest, b1)"
    and b': "b' = b1\<lparr>cb_buf := write_at (cb_buf b1) dest data\<rparr>"
  shows "buf_ext b b'" "cb_out b' = cb_out b @ data" "dest = cb_len b"
proof -
  note ok = buffer_add_ok [OF b al n a]
  have lb: "cb_len b + length data \<le> length (cb_buf b1)"
    using ok(2,3) by (auto simp: buf_ext_def buf_ok_def)
  then show "buf_ext b b'" using ok(1,2) by (simp add: b' buf_ext_def buf_ok_def)
  show "cb_out b' = cb_out b @ data"
    using take_write_at [OF lb] ok(1,3,4) by (simp add: b' cb_out_def)
  show "dest = cb_len b" by (rule ok(1))
qed

interpretation put: appender al "length data < 2 ^ 62" "put_bytes al data" "Some data" for al data
proof
  fix b b' x
  assume n: "length data < 2 ^ 62" and al: "alloc_bounded al" and b: "buf_ok b"
    and r: "put_bytes al data b = (Some x, b')"
  from r obtain y b1 where a: "cbb_buffer_add al (length data) b = (Some y, b1)"
    and b': "b' = b1\<lparr>cb_buf := write_at (cb_buf b1) y data\<rparr>"
    by (auto simp: put_bytes_def elim!: op_bind_SomeD)
  from add_and_write [OF b al n a b']
  show "\<exists>c. Some data = Some c \<and> buf_ext b b' \<and> cb_out b' = cb_out b @ c" by blast
next
  fix b c
  assume "buf_ok b" "Some data = Some c" "can_hold al b (cb_len b + length c)"
  then show "\<exists>x b'. put_bytes al data b = (Some x, b')"
    using buffer_add_succeeds [of b al "length data"] by (auto simp: put_bytes_def op_bind_def)
qed

lemma add_u_eq:
  assumes "buf_ok b" "alloc_bounded al" "1 \<le> n" "n \<le> 4"
    "cbb_buffer_add al n b = (Some dest, b1)"
  shows "cbb_buffer_add_u al v n b =
    (if unat v < 256 ^ n then (Some (), b1\<lparr>cb_buf := write_at (cb_buf b1) dest (be_bytes n (unat v))\<rparr>)
     else (None, b1\<lparr>cb_buf := write_at (cb_buf b1) dest (be_bytes n (unat v)), cb_error := True\<rparr>))"
proof -
  have n: "n < 2 ^ 62" using assms(4) by simp
  note ok = buffer_add_ok [OF assms(1,2) n assms(5)]
  have lb: "dest + n \<le> length (cb_buf b1)"
    using ok(1,2,3) by (auto simp: buf_ext_def buf_ok_def)
  show ?thesis
    using assms(3,5) lb
    by (auto simp: cbb_buffer_add_u_def op_bind_def put_be_write Let_def div_greater_zero_iff)
qed

interpretation put_u: appender al "1 \<le> n \<and> n \<le> 4" "cbb_buffer_add_u al v n" "enc_u n (unat v)"
  for al v n
proof
  fix b b' x
  assume n: "1 \<le> n \<and> n \<le> 4" and al: "alloc_bounded al" and b: "buf_ok b"
    and r: "cbb_buffer_add_u al v n b = (Some x, b')"
  from r n obtain y b1 where a: "cbb_buffer_add al n b = (Some y, b1)"
    by (auto simp: cbb_buffer_add_u_def elim!: op_bind_SomeD)
  have fits: "unat v < 256 ^ n"
    and b': "b' = b1\<lparr>cb_buf := write_at (cb_buf b1) y (be_bytes n (unat v))\<rparr>"
    using r add_u_eq [OF b al _ _ a, of v] n by (auto split: if_splits)
  have l: "length (be_bytes n (unat v)) < 2 ^ 62" using n by simp
  from add_and_write [OF b al l _ b'] a fits
  show "\<exists>c. enc_u n (unat v) = Some c \<and> buf_ext b b' \<and> cb_out b' = cb_out b @ c"
    by (simp add: enc_u_def)
next
  fix b c
  assume n: "1 \<le> n \<and> n \<le> 4" and al: "alloc_bounded al" and b: "buf_ok b"
    and e: "enc_u n (unat v) = Some c" and h: "can_hold al b (cb_len b + length c)"
  from e have fits: "unat v < 256 ^ n" and "length c = n" by (auto simp: enc_u_def split: if_splits)
  with buffer_add_succeeds [OF b, of al n] h obtain b1
    where a: "cbb_buffer_add al n b = (Some (cb_len b), b1)" by auto
  show "\<exists>x b'. cbb_buffer_add_u al v n b = (Some x, b')"
    using add_u_eq [OF b al _ _ a, of v] n fits by auto
qed

section \<open>Leaf operations\<close>

definition cbb_appends :: "nat \<Rightarrow> cbb \<Rightarrow> cbb \<Rightarrow> bytes \<Rightarrow> bool" where
  "cbb_appends d s s' c \<longleftrightarrow>
     (\<exists>out. cbb_val d s = Some out \<and> cbb_at d s' (out @ c) \<and> cbb_keeps d s s')"

text \<open>Room for \<open>k\<close> more bytes, counted from the value of the CBB.\<close>

definition cbb_room :: "allocator \<Rightarrow> nat \<Rightarrow> cbb \<Rightarrow> nat \<Rightarrow> bool" where
  "cbb_room al d s k \<longleftrightarrow> (\<exists>out. cbb_val d s = Some out \<and> cbb_holds al s (length out + k))"

lemma cbb_appends_inv: "cbb_appends d s s' c \<Longrightarrow> cbb_inv d s'"
  by (auto simp: cbb_appends_def intro: cbb_at_inv)

lemma cbb_appends_trans:
  assumes "cbb_appends d s t a" "cbb_appends d t u b"
  shows "cbb_appends d s u (a @ b)"
proof -
  from assms(1) obtain out where o: "cbb_val d s = Some out" "cbb_at d t (out @ a)" "cbb_keeps d s t"
    by (auto simp: cbb_appends_def)
  from assms(2) cbb_at_val [OF o(2)] have "cbb_at d u ((out @ a) @ b)" "cbb_keeps d t u"
    by (auto simp: cbb_appends_def)
  with o show ?thesis by (auto simp: cbb_appends_def intro: cbb_keeps_trans)
qed

lemma cbb_appends_room: "cbb_appends d s t a \<Longrightarrow> cbb_room al d s (length a + k) \<Longrightarrow> cbb_room al d t k"
  by (auto simp: cbb_appends_def cbb_room_def cbb_at_val dest: cbb_keeps_holds simp: add.assoc)

lemma cbb_room_mono: "cbb_room al d s n \<Longrightarrow> m \<le> n \<Longrightarrow> cbb_room al d s m"
  unfolding cbb_room_def by (meson add_left_mono cbb_holds_mono)

lemma on_base_bind:
  "op_bind (on_base f) (\<lambda>x. on_base (g x)) = on_base (op_bind f g)"
  by (rule ext) (auto simp: op_bind_def on_base_def split: option.splits prod.splits)

lemma CBB_add_bytes_put:
  "CBB_add_bytes al d data =
     op_bind (op_bind (CBB_flush al d) (\<lambda>_. on_base (put_bytes al data))) (\<lambda>_. op_return ())"
  by (rule ext) (auto simp: CBB_add_bytes_def put_bytes_def op_bind_assoc on_base_bind op_bind_def
      on_base_def op_return_def split: option.splits prod.splits)

lemma CBB_add_bytes_ok:
  assumes "cbb_inv d s" "alloc_bounded al" "length data < 2 ^ 62"
    "CBB_add_bytes al d data s = (Some u, s')"
  shows "cbb_appends d s s' data"
proof -
  from assms(4) [unfolded CBB_add_bytes_put] obtain x where
    "op_bind (CBB_flush al d) (\<lambda>_. on_base (put_bytes al data)) s = (Some x, s')"
    by (rule op_bind_SomeD) (auto simp: op_return_def)
  from put.flush_step [OF assms(3,2,1) this] show ?thesis by (auto simp: cbb_appends_def)
qed

lemma CBB_add_bytes_succeeds:
  assumes "cbb_inv d s" "alloc_bounded al" "cbb_room al d s (length data)" "length data < 2 ^ 62"
  shows "\<exists>s'. CBB_add_bytes al d data s = (Some (), s')"
proof -
  from assms(3) obtain out where v: "cbb_val d s = Some out"
    and h: "cbb_holds al s (length out + length data)" by (auto simp: cbb_room_def)
  from put.flush_succeeds [OF assms(4,2,1) v refl h]
  show ?thesis by (auto simp: CBB_add_bytes_put op_return_def op_bind_Some)
qed

lemma cbb_add_u_ok:
  assumes "cbb_inv d s" "alloc_bounded al" "1 \<le> n \<and> n \<le> 4" "cbb_add_u al d v n s = (Some u, s')"
  shows "unat v < 256 ^ n" "cbb_appends d s s' (be_bytes n (unat v))"
  using put_u.flush_step [OF assms(3,2,1), of v u s'] assms(4)
  by (auto simp: cbb_add_u_def cbb_appends_def enc_u_def split: if_splits)

lemma cbb_add_u_succeeds:
  assumes "cbb_inv d s" "alloc_bounded al" "1 \<le> n \<and> n \<le> 4" "unat v < 256 ^ n" "cbb_room al d s n"
  shows "\<exists>s'. cbb_add_u al d v n s = (Some (), s')"
proof -
  from assms(5) obtain out where "cbb_val d s = Some out" "cbb_holds al s (length out + n)"
    by (auto simp: cbb_room_def)
  with put_u.flush_succeeds [OF assms(3,2,1), of out v "be_bytes n (unat v)"] assms(4)
  show ?thesis by (auto simp: cbb_add_u_def enc_u_def)
qed

lemma CBB_add_u8_ok:
  assumes "cbb_inv d s" "alloc_bounded al" "CBB_add_u8 al d v s = (Some u, s')"
  shows "cbb_appends d s s' [v]"
proof -
  have "be_bytes 1 (unat (ucast v :: u32)) = [v]" by (simp add: unat_ucast_up)
  then show ?thesis
    using cbb_add_u_ok(2) [OF assms(1,2) _ assms(3) [unfolded CBB_add_u8_def]] by simp
qed

lemma CBB_add_u8_succeeds:
  assumes "cbb_inv d s" "alloc_bounded al" "cbb_room al d s 1"
  shows "\<exists>s'. CBB_add_u8 al d v s = (Some (), s')"
proof -
  have "unat (ucast v :: u32) < 256 ^ 1" by (simp add: unat_ucast_up)
  then show ?thesis
    unfolding CBB_add_u8_def by (intro cbb_add_u_succeeds) (use assms in auto)
qed

section \<open>Base 128 integers and tags\<close>

text \<open>The octets the loop of \<open>add_base128_integer\<close> writes.\<close>

fun base128_digits :: "u64 \<Rightarrow> nat \<Rightarrow> bytes" where
  "base128_digits v 0 = []"
| "base128_digits v (Suc i) =
     (let byte0 = ucast (drop_bit (7 * i) v AND 0x7f) :: u8
      in (if i \<noteq> 0 then byte0 OR 0x80 else byte0) # base128_digits v i)"

lemma add_base128_loop_ok:
  "cbb_inv d s \<Longrightarrow> alloc_bounded al \<Longrightarrow> add_base128_loop al d v (Suc n) s = (Some u, s') \<Longrightarrow>
   cbb_appends d s s' (base128_digits v (Suc n))"
proof (induction n arbitrary: s)
  case 0
  then show ?case
    by (auto simp: Let_def op_return_def elim!: op_bind_SomeD dest: CBB_add_u8_ok)
next
  case (Suc n)
  define b where "b = (ucast (drop_bit (7 * Suc n) v AND 0x7f) :: u8) OR 0x80"
  have "add_base128_loop al d v (Suc (Suc n)) =
      op_bind (CBB_add_u8 al d b) (\<lambda>_. add_base128_loop al d v (Suc n))"
    by (subst add_base128_loop.simps) (simp add: b_def Let_def)
  with Suc.prems(3) have
    "op_bind (CBB_add_u8 al d b) (\<lambda>_. add_base128_loop al d v (Suc n)) s = (Some u, s')"
    by (simp only:)
  then obtain x t where t: "CBB_add_u8 al d b s = (Some x, t)"
    and r: "add_base128_loop al d v (Suc n) t = (Some u, s')"
    by (rule op_bind_SomeD)
  have a: "cbb_appends d s t [b]" by (rule CBB_add_u8_ok [OF Suc.prems(1,2) t])
  from cbb_appends_trans [OF a Suc.IH [OF cbb_appends_inv [OF a] Suc.prems(2) r]]
  show ?case by (simp add: b_def)
qed

lemma add_base128_loop_succeeds:
  "cbb_inv d s \<Longrightarrow> alloc_bounded al \<Longrightarrow> cbb_room al d s n \<Longrightarrow>
   \<exists>s'. add_base128_loop al d v n s = (Some (), s')"
proof (induction n arbitrary: s)
  case 0
  then show ?case by (simp add: op_return_def)
next
  case (Suc n)
  define b where "b = (let c = ucast (drop_bit (7 * n) v AND 0x7f) :: u8
      in if n \<noteq> 0 then c OR 0x80 else c)"
  have "cbb_room al d s 1" by (rule cbb_room_mono [OF Suc.prems(3)]) simp
  from CBB_add_u8_succeeds [OF Suc.prems(1,2) this] obtain t
    where t: "CBB_add_u8 al d b s = (Some (), t)" by blast
  have a: "cbb_appends d s t [b]" by (rule CBB_add_u8_ok [OF Suc.prems(1,2) t])
  have "cbb_room al d t n" by (rule cbb_appends_room [OF a]) (use Suc.prems(3) in simp)
  from Suc.IH [OF cbb_appends_inv [OF a] Suc.prems(2) this] obtain s'
    where "add_base128_loop al d v n t = (Some (), s')" by blast
  then show ?case using t by (simp add: b_def Let_def op_bind_Some)
qed

text \<open>They are the base 128 encoding.\<close>

definition hi_digits :: "nat \<Rightarrow> nat \<Rightarrow> bytes" where
  "hi_digits w n = map (\<lambda>i. word_of_nat (w div 128 ^ i mod 128 + 128)) (rev [0..<n])"

lemma hi_digits_Suc: "hi_digits w (Suc n) = hi_digits (w div 128) n @ [word_of_nat (w mod 128 + 128)]"
proof -
  have "rev [0..<Suc n] = map Suc (rev [0..<n]) @ [0]"
    by (simp only: upt_conv_Cons zero_less_Suc rev.simps map_Suc_upt [symmetric] rev_map)
  then show ?thesis by (simp add: hi_digits_def div_mult2_eq)
qed

lemma base128_hi_digits: "base128_hi (unat w) = hi_digits (unat w) (base128_len w)"
proof (induction w rule: base128_len.induct)
  case (1 w)
  show ?case
  proof (cases "w = 0")
    case True
    then show ?thesis by (simp add: base128_len.simps hi_digits_def)
  next
    case False
    then have "0 < unat w" by (simp add: unat_gt_0)
    then show ?thesis
      using 1 [OF False] base128_hi_step [of "unat w"] False
      by (subst base128_len.simps) (simp add: hi_digits_Suc unat_drop)
  qed
qed

lemma base128_digits_hi:
  "base128_digits v (Suc n) = hi_digits (unat v div 128) n @ [word_of_nat (unat v mod 128)]"
proof (induction n)
  case 0
  have "(ucast (v AND 0x7f) :: u8) = word_of_nat (unat v mod 128)"
    using digit_byte [of 0 v] by (intro word_eq_of_nat) simp
  then show ?case by (simp add: hi_digits_def)
next
  case (Suc n)
  define b where "b = (ucast (drop_bit (7 * Suc n) v AND 0x7f) :: u8)"
  have b: "unat b = unat v div 128 div 128 ^ n mod 128"
    using digit_byte [of "Suc n" v] by (simp add: b_def div_mult2_eq)
  then have "b OR 0x80 = word_of_nat (unat v div 128 div 128 ^ n mod 128 + 128)"
    by (simp add: byte_or_80)
  then have "base128_digits v (Suc (Suc n)) =
      word_of_nat (unat v div 128 div 128 ^ n mod 128 + 128) # base128_digits v (Suc n)"
    by (subst base128_digits.simps) (simp add: b_def)
  then show ?case using Suc by (simp add: hi_digits_def)
qed

lemma base128_digits_eq:
  "base128_digits v (let n = base128_len v in if n = 0 then 1 else n) = base128 (unat v)"
proof -
  have "(let n = base128_len v in if n = 0 then 1 else n) = Suc (base128_len (drop_bit 7 v))"
    by (subst base128_len.simps) (auto simp: base128_len.simps Let_def)
  then show ?thesis
    using base128_hi_digits [of "drop_bit 7 v"]
    by (simp add: base128_digits_hi base128_def unat_drop del: base128_digits.simps)
qed

lemma add_base128_integer_ok:
  assumes "cbb_inv d s" "alloc_bounded al" "add_base128_integer al d v s = (Some u, s')"
  shows "cbb_appends d s s' (base128 (unat v))"
proof -
  obtain n where n: "(let n = base128_len v in if n = 0 then 1 else n) = Suc n"
    by (cases "base128_len v") (auto simp: Let_def)
  then show ?thesis
    using add_base128_loop_ok [OF assms(1,2), of v n u s'] assms(3) base128_digits_eq [of v]
    by (simp add: add_base128_integer_def Let_def)
qed

lemma length_base128_digits [simp]: "length (base128_digits v n) = n"
  by (induction n) (auto simp: Let_def)

lemma add_base128_integer_succeeds:
  assumes "cbb_inv d s" "alloc_bounded al" "cbb_room al d s (length (base128 (unat v)))"
  shows "\<exists>s'. add_base128_integer al d v s = (Some (), s')"
proof -
  have "length (base128 (unat v)) = (let n = base128_len v in if n = 0 then 1 else n)"
    using base128_digits_eq [of v] length_base128_digits by metis
  then show ?thesis
    using add_base128_loop_succeeds [OF assms(1,2)] assms(3)
    by (simp add: add_base128_integer_def Let_def)
qed

end
