(* ===== verification/Cbb_Items.thy ===== *)
theory Cbb_Items
  imports Cbb_Build
begin

text \<open>
  Children of a CBB and whole client programs. A child is opened by
  \<open>CBB_add_asn1\<close> or \<open>CBB_add_u*_length_prefixed\<close>, filled through the CBB one level
  deeper, and closed by the next flush of its parent; the parent's value then grows by the
  prefixed encoding. \<open>item\<close> is the tree of the calls a client makes, \<open>run_items\<close> makes
  them, and \<open>encode_items\<close> is the byte string they stand for.
\<close>

section \<open>Opening and closing a child\<close>

definition oapp :: "bytes option \<Rightarrow> bytes option \<Rightarrow> bytes option" where
  "oapp a b = (case a of None \<Rightarrow> None | Some x \<Rightarrow> map_option (\<lambda>y. x @ y) b)"

lemma oapp_simps [simp]:
  "oapp None b = None" "oapp a None = None" "oapp (Some x) (Some y) = Some (x @ y)"
  by (auto simp: oapp_def split: option.split)

lemma oapp_assoc: "oapp (oapp a b) c = oapp a (oapp b c)"
  by (cases a; cases b; cases c) simp_all

lemma oapp_Nil [simp]: "oapp a (Some []) = a" "oapp (Some []) a = a"
  by (cases a; simp)+

text \<open>The value of the CBB grew by the encoding, or is none where the encoding is none.\<close>

definition cbb_extends :: "nat \<Rightarrow> cbb \<Rightarrow> cbb \<Rightarrow> bytes option \<Rightarrow> bool" where
  "cbb_extends d s s' e \<longleftrightarrow> cbb_inv d s' \<and> cbb_keeps d s s' \<and> cbb_val d s' = oapp (cbb_val d s) e"

lemma cbb_appends_extends: "cbb_appends d s s' c \<Longrightarrow> cbb_extends d s s' (Some c)"
  by (auto simp: cbb_appends_def cbb_extends_def cbb_at_val cbb_at_inv)

lemma cbb_extends_trans: "cbb_extends d s t a \<Longrightarrow> cbb_extends d t u b \<Longrightarrow> cbb_extends d s u (oapp a b)"
  by (auto simp: cbb_extends_def oapp_assoc intro: cbb_keeps_trans)

lemma cbb_extends_refl: "cbb_inv d s \<Longrightarrow> cbb_extends d s s (Some [])"
  by (simp add: cbb_extends_def cbb_keeps_refl)

lemma cbb_extends_room: "cbb_extends d s t (Some a) \<Longrightarrow> cbb_room al d s (length a + k) \<Longrightarrow> cbb_room al d t k"
  by (auto simp: cbb_extends_def cbb_room_def dest: cbb_keeps_holds simp: add.assoc)

text \<open>
  The chain ends with the child of depth \<open>d + 1\<close>, whose contents are still empty: only the
  placeholder of its length follows \<open>out\<close>.
\<close>

definition cbb_child :: "nat \<Rightarrow> cbb \<Rightarrow> bytes \<Rightarrow> cbb_frame \<Rightarrow> bool" where
  "cbb_child d s out f \<longleftrightarrow> cbb_chain s ! Suc d = f \<and> fr_offset f = length out \<and>
     1 \<le> fr_pending_len_len f \<and> fr_pending_len_len f \<le> 3 \<and>
     (fr_pending_is_asn1 f \<longrightarrow> fr_pending_len_len f = 1) \<and> cbb_pos d s \<le> length out \<and>
     (\<exists>ph. length ph = fr_pending_len_len f \<and> cbb_at (Suc d) s (out @ ph))"

lemma cbb_push_child:
  assumes s: "cbb_at d s (out @ ph)" and le: "cbb_pos d s \<le> length out"
    and f: "fr_offset f = length out" "fr_pending_len_len f = length ph"
      "1 \<le> length ph" "length ph \<le> 3" "fr_pending_is_asn1 f \<longrightarrow> length ph = 1"
    and r: "cbb_push d f s = (Some u, s')"
  shows "cbb_child d s' out f" "cbb_keeps d s s'"
proof -
  from s obtain b where b: "cbb_base s = Some b" "buf_ok b" "\<not> cb_error b" "cb_out b = out @ ph"
    "cb_len b = length (out @ ph)" by (rule cbb_at_baseE)
  have l: "length (cbb_chain s) = Suc d" using s by (simp add: cbb_at_def)
  have s': "s' = s\<lparr>cbb_chain := cbb_chain s @ [f]\<rparr>" using r l by (simp add: cbb_push_def)
  have nth: "cbb_chain s' ! Suc d = f" "cbb_chain s' ! d = cbb_chain s ! d"
    using l by (auto simp: s' nth_append)
  have "cbb_at (Suc d) s' (out @ ph)"
    using b l nth f by (auto simp: cbb_at_def cbb_inv_def cbb_pos_def s' fr_end_def)
  then show "cbb_child d s' out f"
    using f le nth unfolding cbb_child_def cbb_pos_def by auto
  show "cbb_keeps d s s'"
    using l b by (auto simp: cbb_keeps_def s' buf_ext_def)
qed

text \<open>Whatever was written through the child, the parent's value is the prefixed contents.\<close>

lemma cbb_close_child:
  assumes ch: "cbb_child d s out f" and x: "cbb_extends (Suc d) s s' e"
  shows "cbb_inv d s'" "cbb_val d s' = oapp (Some out) (Option.bind e (enc_prefix f))"
proof -
  from ch obtain ph where nth: "cbb_chain s ! Suc d = f" and f: "fr_offset f = length out"
    "1 \<le> fr_pending_len_len f" "fr_pending_len_len f \<le> 3"
    "fr_pending_is_asn1 f \<longrightarrow> fr_pending_len_len f = 1"
    and le: "cbb_pos d s \<le> length out" and ph: "length ph = fr_pending_len_len f"
    and at: "cbb_at (Suc d) s (out @ ph)" by (auto simp: cbb_child_def)
  from x obtain inv: "cbb_inv (Suc d) s'" and keep: "cbb_keeps (Suc d) s s'"
    and val: "cbb_val (Suc d) s' = oapp (Some (out @ ph)) e"
    using cbb_at_val [OF at] by (auto simp: cbb_extends_def)
  have lc: "Suc d < length (cbb_chain s')" using inv by (simp add: cbb_inv_def)
  have tk: "take (Suc (Suc d)) (cbb_chain s') = take (Suc (Suc d)) (cbb_chain s)"
    using keep by (simp add: cbb_keeps_def)
  have nth': "cbb_chain s' ! Suc d = f" "cbb_chain s' ! d = cbb_chain s ! d"
    using arg_cong [OF tk, of "\<lambda>l. l ! Suc d"] arg_cong [OF tk, of "\<lambda>l. l ! d"] nth by simp_all
  have dr: "drop (Suc d) (cbb_chain s') = f # drop (Suc (Suc d)) (cbb_chain s')"
    using Cons_nth_drop_Suc [OF lc] nth' by simp
  have pos: "cbb_pos d s' = cbb_pos d s" "cbb_pos (Suc d) s' = fr_end f"
    using nth' by (simp_all add: cbb_pos_def)
  obtain b where b: "cbb_base s' = Some b" "buf_ok b" "\<not> cb_error b"
    "frames_ok (fr_end f) (cb_len b) (drop (Suc (Suc d)) (cbb_chain s'))"
    using inv pos by (auto simp: cbb_inv_def split: option.splits)
  show "cbb_inv d s'"
    using b lc dr pos le f by (simp add: cbb_inv_def fr_end_def)
  have fe: "fr_end f = length (out @ ph)" using f ph by (simp add: fr_end_def)
  show "cbb_val d s' = oapp (Some out) (Option.bind e (enc_prefix f))"
  proof (cases e)
    case None
    then have "closed (drop (Suc (Suc d)) (cbb_chain s')) (fr_end f) (cb_out b) = None"
      using val b(1) pos by (auto simp: cbb_val_def)
    then show ?thesis using None b(1) by (simp add: cbb_val_def dr)
  next
    case (Some c)
    then obtain c' where c': "closed (drop (Suc (Suc d)) (cbb_chain s')) (fr_end f) (cb_out b) = Some c'"
      and eq: "take (fr_end f) (cb_out b) @ c' = (out @ ph) @ c"
      using val b(1) pos by (auto simp: cbb_val_def)
    have "fr_end f \<le> length (cb_out b)"
      using frames_ok_le [OF b(4)] b(2) by (simp add: length_cb_out)
    then have "length (take (fr_end f) (cb_out b)) = length (out @ ph)" using fe by simp
    with eq have "take (fr_end f) (cb_out b) = out @ ph \<and> c' = c"
      by (metis append_eq_append_conv)
    then have t: "take (fr_end f) (cb_out b) = out @ ph" and "c' = c" by auto
    have "take (fr_offset f) (cb_out b) = take (fr_offset f) (take (fr_end f) (cb_out b))"
      by (simp add: fr_end_def min_absorb1)
    then have to: "take (fr_offset f) (cb_out b) = out" using f by (simp add: t)
    have j: "take (cbb_pos d s) (cb_out b) @ take (fr_offset f - cbb_pos d s) (drop (cbb_pos d s) (cb_out b)) @ x
        = out @ x" for x
      using le f(1) to by (metis append.assoc le_add_diff_inverse take_add)
    show ?thesis
      by (cases "enc_prefix f c")
        (simp_all add: cbb_val_def dr pos b(1) c' \<open>c' = c\<close> Some j)
  qed
qed

lemma cbb_child_keeps: "cbb_extends (Suc d) s s' e \<Longrightarrow> cbb_keeps d s s'"
  by (auto simp: cbb_extends_def intro: cbb_keeps_less)

lemma cbb_child_inv: "cbb_child d s out f \<Longrightarrow> cbb_inv (Suc d) s"
  by (auto simp: cbb_child_def cbb_at_inv)

text \<open>Opening: the parent's value is extended by \<open>pre\<close>, then the child's placeholder follows.\<close>

definition cbb_opens :: "nat \<Rightarrow> cbb \<Rightarrow> cbb \<Rightarrow> bytes \<Rightarrow> cbb_frame \<Rightarrow> bool" where
  "cbb_opens d s s' pre f \<longleftrightarrow>
     (\<exists>out. cbb_val d s = Some out \<and> cbb_child d s' (out @ pre) f \<and> cbb_keeps d s s')"

lemma cbb_opens_extends:
  assumes "cbb_opens d s s1 pre f" "cbb_extends (Suc d) s1 s2 e"
  shows "cbb_extends d s s2 (oapp (Some pre) (Option.bind e (enc_prefix f)))"
proof -
  from assms(1) obtain out where o: "cbb_val d s = Some out" "cbb_child d s1 (out @ pre) f"
    "cbb_keeps d s s1" by (auto simp: cbb_opens_def)
  note c = cbb_close_child [OF o(2) assms(2)]
  have "cbb_keeps d s s2" by (rule cbb_keeps_trans [OF o(3) cbb_child_keeps [OF assms(2)]])
  then show ?thesis using c o(1) by (cases "Option.bind e (enc_prefix f)") (simp_all add: cbb_extends_def)
qed

lemma cbb_opens_inv: "cbb_opens d s s1 pre f \<Longrightarrow> cbb_inv (Suc d) s1"
  by (auto simp: cbb_opens_def intro: cbb_child_inv)

lemma cbb_opens_room:
  assumes "cbb_opens d s s1 pre f" "cbb_room al d s (length pre + fr_pending_len_len f + k)"
  shows "cbb_room al (Suc d) s1 k"
proof -
  from assms(1) obtain out ph where o: "cbb_val d s = Some out" "cbb_keeps d s s1"
    "length ph = fr_pending_len_len f" "cbb_at (Suc d) s1 ((out @ pre) @ ph)"
    by (auto simp: cbb_opens_def cbb_child_def)
  with assms(2) cbb_at_val [OF o(4)] show ?thesis
    by (auto simp: cbb_room_def add.assoc intro: cbb_keeps_holds)
qed

section \<open>The operations that open a child\<close>

lemma put_bytes_offset:
  assumes "cbb_at d s out" "alloc_bounded al" "length data < 2 ^ 62"
    "on_base (put_bytes al data) s = (Some x, s')"
  shows "x = length out" "cbb_at d s' (out @ data)" "cbb_keeps d s s'"
proof -
  from put.at_step [OF assms(3,2,1,4)]
  show "cbb_at d s' (out @ data)" "cbb_keeps d s s'" by auto
  from assms(1) obtain b where b: "cbb_base s = Some b" "buf_ok b" "cb_out b = out"
    "cb_len b = length out" by (rule cbb_at_baseE)
  with assms(4) obtain y b1 where a: "cbb_buffer_add al (length data) b = (Some y, b1)" and "x = y"
    by (auto simp: on_base_def put_bytes_def op_bind_def split: prod.splits option.splits)
  then show "x = length out"
    using buffer_add_ok(1) [OF b(2) assms(2,3) a] b(4) by simp
qed

lemma cbb_add_length_prefixed_put:
  "cbb_add_length_prefixed al d n =
     op_bind (CBB_flush al d) (\<lambda>_. op_bind (on_base (put_bytes al (replicate n 0))) (\<lambda>offset.
       cbb_push d \<lparr>fr_offset = offset, fr_pending_len_len = n, fr_pending_is_asn1 = False\<rparr>))"
  by (rule ext) (auto simp: cbb_add_length_prefixed_def put_bytes_def op_bind_def on_base_def
      split: option.splits prod.splits)

lemma add_length_prefixed_ok:
  assumes inv: "cbb_inv d s" and al: "alloc_bounded al" and n: "1 \<le> n" "n \<le> 3"
    and r: "cbb_add_length_prefixed al d n s = (Some u, s')"
  shows "\<exists>f. cbb_opens d s s' [] f \<and> fr_pending_len_len f = n \<and> \<not> fr_pending_is_asn1 f"
proof -
  have n62: "length (replicate n (0 :: u8)) < 2 ^ 62" using n by simp
  from r [unfolded cbb_add_length_prefixed_put] obtain v t where t: "CBB_flush al d s = (Some v, t)"
    and r2: "op_bind (on_base (put_bytes al (replicate n 0))) (\<lambda>offset. cbb_push d
      \<lparr>fr_offset = offset, fr_pending_len_len = n, fr_pending_is_asn1 = False\<rparr>) t = (Some u, s')"
    by (rule op_bind_SomeD)
  from CBB_flush_ok [OF inv al t] obtain out where o: "cbb_val d s = Some out" "cbb_at d t out"
    "cbb_keeps d s t" by blast
  from r2 obtain x w where w: "on_base (put_bytes al (replicate n 0)) t = (Some x, w)"
    and p: "cbb_push d \<lparr>fr_offset = x, fr_pending_len_len = n, fr_pending_is_asn1 = False\<rparr> w = (Some u, s')"
    by (rule op_bind_SomeD)
  note ok = put_bytes_offset [OF o(2) al n62 w]
  have le: "cbb_pos d w \<le> length out"
    using cbb_at_pos [OF o(2)] o(2) ok(2,3)
    by (auto simp: cbb_pos_def cbb_keeps_def cbb_at_def)
  from cbb_push_child [OF ok(2) le _ _ _ _ _ p] n ok(1)
  have "cbb_child d s' out \<lparr>fr_offset = x, fr_pending_len_len = n, fr_pending_is_asn1 = False\<rparr>"
    "cbb_keeps d w s'" by auto
  with o ok(3) show ?thesis
    by (intro exI [of _ "\<lparr>fr_offset = x, fr_pending_len_len = n, fr_pending_is_asn1 = False\<rparr>"])
      (auto simp: cbb_opens_def intro: cbb_keeps_trans)
qed

lemma add_length_prefixed_succeeds:
  assumes inv: "cbb_inv d s" and al: "alloc_bounded al" and n: "n \<le> 3" and h: "cbb_room al d s n"
  shows "\<exists>s'. cbb_add_length_prefixed al d n s = (Some (), s')"
proof -
  have n62: "length (replicate n (0 :: u8)) < 2 ^ 62" using n by simp
  from h obtain out where v: "cbb_val d s = Some out"
    and h: "cbb_holds al s (length out + length (replicate n (0 :: u8)))" by (auto simp: cbb_room_def)
  from put.flush_succeeds [OF n62 al inv v refl h] obtain x t
    where "op_bind (CBB_flush al d) (\<lambda>_. on_base (put_bytes al (replicate n 0))) s = (Some x, t)"
    by blast
  then show ?thesis
    by (auto simp: cbb_add_length_prefixed_put op_bind_assoc [symmetric] op_bind_Some cbb_push_def)
qed

text \<open>The tag octets of \<open>CBB_add_asn1\<close>.\<close>

definition add_tag :: "allocator \<Rightarrow> nat \<Rightarrow> u32 \<Rightarrow> (cbb, unit) op" where
  "add_tag al d tag =
     (let bits = tag_bits tag; number = tag AND CBS_ASN1_TAG_NUMBER_MASK
      in if number \<ge> 0x1f then
           op_bind (CBB_add_u8 al d (bits OR 0x1f)) (\<lambda>_. add_base128_integer al d (ucast number))
         else CBB_add_u8 al d (bits OR ucast number))"

lemma tag_number_ge: "t AND CBS_ASN1_TAG_NUMBER_MASK \<ge> 0x1f \<longleftrightarrow> 31 \<le> tag_number t"
  by (simp add: word_le_nat_alt tag_number_def)

lemma tag_number_u64: "unat (ucast (t AND CBS_ASN1_TAG_NUMBER_MASK) :: u64) = tag_number t"
  by (simp add: unat_ucast_up tag_number_def)

lemma tag_number_u8: "(ucast (t AND CBS_ASN1_TAG_NUMBER_MASK) :: u8) = word_of_nat (tag_number t)"
  by (simp add: tag_number_def)

lemma add_tag_ok:
  assumes inv: "cbb_inv d s" and al: "alloc_bounded al" and r: "add_tag al d tag s = (Some u, s')"
  shows "cbb_appends d s s' (der_tag tag)"
proof (cases "31 \<le> tag_number tag")
  case True
  with r obtain v t where t: "CBB_add_u8 al d (tag_bits tag OR 0x1f) s = (Some v, t)"
    and b: "add_base128_integer al d (ucast (tag AND CBS_ASN1_TAG_NUMBER_MASK)) t = (Some u, s')"
    by (auto simp: add_tag_def Let_def tag_number_ge elim!: op_bind_SomeD)
  note a = CBB_add_u8_ok [OF inv al t]
  from cbb_appends_trans [OF a add_base128_integer_ok [OF cbb_appends_inv [OF a] al b]] True
  show ?thesis by (simp add: der_tag_def tag_number_u64)
next
  case False
  with r CBB_add_u8_ok [OF inv al] show ?thesis
    by (simp add: add_tag_def Let_def tag_number_ge der_tag_def tag_number_u8)
qed

lemma add_tag_succeeds:
  assumes inv: "cbb_inv d s" and al: "alloc_bounded al" and h: "cbb_room al d s (length (der_tag tag))"
  shows "\<exists>s'. add_tag al d tag s = (Some (), s')"
proof (cases "31 \<le> tag_number tag")
  case True
  have "cbb_room al d s 1" by (rule cbb_room_mono [OF h]) (rule length_der_tag)
  from CBB_add_u8_succeeds [OF inv al this] obtain t
    where t: "CBB_add_u8 al d (tag_bits tag OR 0x1f) s = (Some (), t)" by blast
  note a = CBB_add_u8_ok [OF inv al t]
  have "cbb_room al d t (length (base128 (tag_number tag)))"
    by (rule cbb_appends_room [OF a]) (use h True in \<open>simp add: der_tag_def\<close>)
  then have "\<exists>s'. add_base128_integer al d (ucast (tag AND CBS_ASN1_TAG_NUMBER_MASK)) t = (Some (), s')"
    by (intro add_base128_integer_succeeds cbb_appends_inv [OF a] al) (simp add: tag_number_u64)
  then show ?thesis using True t by (auto simp: add_tag_def Let_def tag_number_ge op_bind_Some)
next
  case False
  have "cbb_room al d s 1" by (rule cbb_room_mono [OF h]) (rule length_der_tag)
  from CBB_add_u8_succeeds [OF inv al this] show ?thesis
    using False by (simp add: add_tag_def Let_def tag_number_ge)
qed

lemma CBB_add_asn1_tag:
  "CBB_add_asn1 al d tag =
     op_bind (CBB_flush al d) (\<lambda>_. op_bind (add_tag al d tag) (\<lambda>_.
       op_bind (on_base (\<lambda>base. (Some (cb_len base), base))) (\<lambda>offset.
         op_bind (CBB_add_u8 al d 0) (\<lambda>_.
           cbb_push d \<lparr>fr_offset = offset, fr_pending_len_len = 1, fr_pending_is_asn1 = True\<rparr>))))"
  by (simp add: CBB_add_asn1_def add_tag_def tag_bits_def Let_def)

abbreviation asn1_frame :: "nat \<Rightarrow> cbb_frame" where
  "asn1_frame n \<equiv> \<lparr>fr_offset = n, fr_pending_len_len = 1, fr_pending_is_asn1 = True\<rparr>"

lemma cbb_appends_at:
  "cbb_at d s out \<Longrightarrow> cbb_appends d s s' c \<Longrightarrow> cbb_at d s' (out @ c) \<and> cbb_keeps d s s'"
  by (auto simp: cbb_appends_def dest: cbb_at_val)

lemma CBB_add_asn1_ok:
  assumes inv: "cbb_inv d s" and al: "alloc_bounded al" and r: "CBB_add_asn1 al d tag s = (Some u, s')"
  shows "\<exists>f. cbb_opens d s s' (der_tag tag) f \<and> fr_pending_is_asn1 f \<and> fr_pending_len_len f = 1"
proof -
  from r [unfolded CBB_add_asn1_tag] obtain v t where t: "CBB_flush al d s = (Some v, t)"
    and r1: "op_bind (add_tag al d tag) (\<lambda>_.
       op_bind (on_base (\<lambda>base. (Some (cb_len base), base))) (\<lambda>offset.
         op_bind (CBB_add_u8 al d 0) (\<lambda>_. cbb_push d (asn1_frame offset)))) t = (Some u, s')"
    by (rule op_bind_SomeD)
  from CBB_flush_ok [OF inv al t] obtain out where o: "cbb_val d s = Some out" "cbb_at d t out"
    "cbb_keeps d s t" by blast
  from r1 obtain v2 w where w: "add_tag al d tag t = (Some v2, w)"
    and r2: "op_bind (on_base (\<lambda>base. (Some (cb_len base), base))) (\<lambda>offset.
         op_bind (CBB_add_u8 al d 0) (\<lambda>_. cbb_push d (asn1_frame offset))) w = (Some u, s')"
    by (rule op_bind_SomeD)
  from cbb_appends_at [OF o(2) add_tag_ok [OF cbb_at_inv [OF o(2)] al w]]
  have wa: "cbb_at d w (out @ der_tag tag)" and wk: "cbb_keeps d t w" by auto
  from wa obtain b where b: "cbb_base w = Some b" "cb_len b = length (out @ der_tag tag)"
    by (rule cbb_at_baseE)
  have "on_base (\<lambda>base. (Some (cb_len base), base)) w = (Some (length (out @ der_tag tag)), w)"
    using b by (simp add: on_base_def)
  with r2 have r3: "op_bind (CBB_add_u8 al d 0)
      (\<lambda>_. cbb_push d (asn1_frame (length (out @ der_tag tag)))) w = (Some u, s')"
    by (simp add: op_bind_Some)
  from r3 obtain v3 x where x: "CBB_add_u8 al d 0 w = (Some v3, x)"
    and p: "cbb_push d (asn1_frame (length (out @ der_tag tag))) x = (Some u, s')"
    by (rule op_bind_SomeD)
  from cbb_appends_at [OF wa CBB_add_u8_ok [OF cbb_at_inv [OF wa] al x]]
  have xa: "cbb_at d x ((out @ der_tag tag) @ [0])" and xk: "cbb_keeps d w x" by auto
  have "cbb_pos d x = cbb_pos d w"
    using wa xa xk by (auto simp: cbb_pos_def cbb_keeps_def cbb_at_def)
  then have le: "cbb_pos d x \<le> length (out @ der_tag tag)" using cbb_at_pos [OF wa] by simp
  have "cbb_child d s' (out @ der_tag tag) (asn1_frame (length (out @ der_tag tag)))" "cbb_keeps d x s'"
    using cbb_push_child [OF xa le _ _ _ _ _ p] by auto
  moreover have "cbb_keeps d s s'"
    using o(3) wk xk \<open>cbb_keeps d x s'\<close> by (blast intro: cbb_keeps_trans)
  ultimately show ?thesis
    using o(1) by (intro exI [of _ "asn1_frame (length (out @ der_tag tag))"]) (auto simp: cbb_opens_def)
qed

lemma cbb_room_holds: "cbb_at d s out \<Longrightarrow> cbb_holds al s (length out + k) \<Longrightarrow> cbb_room al d s k"
  by (auto simp: cbb_room_def dest: cbb_at_val)

lemma CBB_add_asn1_succeeds:
  assumes inv: "cbb_inv d s" and al: "alloc_bounded al"
    and h: "cbb_room al d s (length (der_tag tag) + 1)"
  shows "\<exists>s'. CBB_add_asn1 al d tag s = (Some (), s')"
proof -
  from h obtain out where v: "cbb_val d s = Some out"
    and h1: "cbb_holds al s (length out + (length (der_tag tag) + 1))" by (auto simp: cbb_room_def)
  have "cbb_holds al s (length out)" by (rule cbb_holds_mono [OF h1]) simp
  from CBB_flush_succeeds [OF inv al v this] obtain t where t: "CBB_flush al d s = (Some (), t)" by blast
  from CBB_flush_ok [OF inv al t] v have o: "cbb_at d t out" "cbb_keeps d s t" by auto
  have h2: "cbb_room al d t (length (der_tag tag) + 1)"
    by (rule cbb_room_holds [OF o(1) cbb_keeps_holds [OF o(2) h1]])
  have "cbb_room al d t (length (der_tag tag))" by (rule cbb_room_mono [OF h2]) simp
  from add_tag_succeeds [OF cbb_at_inv [OF o(1)] al this] obtain w
    where w: "add_tag al d tag t = (Some (), w)" by blast
  note a = add_tag_ok [OF cbb_at_inv [OF o(1)] al w]
  have "cbb_room al d w 1" by (rule cbb_appends_room [OF a h2])
  from CBB_add_u8_succeeds [OF cbb_appends_inv [OF a] al this] obtain x
    where x: "CBB_add_u8 al d 0 w = (Some (), x)" by blast
  from cbb_appends_at [OF o(1) a] obtain b where "cbb_base w = Some b"
    by (auto elim: cbb_at_baseE)
  then have "on_base (\<lambda>base. (Some (cb_len base), base)) w = (Some (cb_len b), w)"
    by (simp add: on_base_def)
  then show ?thesis using t w x by (simp add: CBB_add_asn1_tag op_bind_Some cbb_push_def)
qed

end
