(* ===== verification/Cbb_Run.thy ===== *)
theory Cbb_Run
  imports Cbb_Items
begin

text \<open>
  The typed ASN.1 writers (\<open>CBB_add_asn1_uint64\<close>, \<open>_octet_string\<close>, \<open>_bool\<close>), the tree
  of the calls a client of the builder makes, and the byte string it denotes.
\<close>

section \<open>Typed values\<close>

text \<open>The minimal contents of a non-negative INTEGER below \<open>2 ^ 64\<close>.\<close>

definition der_uint :: "nat \<Rightarrow> bytes" where
  "der_uint v =
     (let r = dropWhile (\<lambda>b. b = 0) (be_bytes 8 v) in
      if r = [] then [0] else if 128 \<le> unat (hd r) then 0 # r else r)"

definition der_bool :: "bool \<Rightarrow> bytes" where
  "der_bool v = [if v then 0xff else 0]"

text \<open>The octets the loop of \<open>CBB_add_asn1_uint64\<close> writes, and whether it started.\<close>

fun uint64_octets :: "u64 \<Rightarrow> nat \<Rightarrow> bool \<Rightarrow> bytes" where
  "uint64_octets v 0 started = []"
| "uint64_octets v (Suc i) started =
     (let byte = ucast (drop_bit (8 * i) v AND 0xff) :: u8 in
      if \<not> started \<and> byte = 0 then uint64_octets v i False
      else (if \<not> started \<and> byte AND 0x80 \<noteq> 0 then [0] else []) @ byte # uint64_octets v i True)"

fun uint64_started :: "u64 \<Rightarrow> nat \<Rightarrow> bool \<Rightarrow> bool" where
  "uint64_started v 0 started = started"
| "uint64_started v (Suc i) started =
     uint64_started v i (started \<or> (ucast (drop_bit (8 * i) v AND 0xff) :: u8) \<noteq> 0)"

lemma uint64_started_True [simp]: "uint64_started v n True"
  by (induction n) auto

lemma octet_of: "(ucast (drop_bit (8 * i) v AND 0xff) :: u8) = word_of_nat (unat v div 256 ^ i)"
  for v :: u64
proof (rule byte_eq_of_nat)
  have "(0xff :: u64) = mask 8" by (simp add: mask_eq_exp_minus_1)
  then have "drop_bit (8 * i) v AND 0xff = take_bit 8 (drop_bit (8 * i) v)"
    by (simp only: take_bit_eq_mask)
  moreover have "(2 :: nat) ^ (8 * i) = 256 ^ i" by (simp add: power_mult)
  ultimately have "unat (drop_bit (8 * i) v AND 0xff) = unat v div 256 ^ i mod 256"
    by (simp only: unat_take_bit unat_drop) simp
  then show "unat (ucast (drop_bit (8 * i) v AND 0xff) :: u8) = unat v div 256 ^ i mod 256"
    by (simp add: unsigned_ucast_eq take_bit_eq_mod)
qed

lemma uint64_octets_True: "uint64_octets v n True = be_bytes n (unat v)"
  by (induction n) (simp_all add: octet_of be_bytes_Cons Let_def del: be_bytes.simps(2))

lemma uint64_octets_False:
  "uint64_octets v n False =
     (let r = dropWhile (\<lambda>b. b = 0) (be_bytes n (unat v)) in
      if r = [] then [] else if 128 \<le> unat (hd r) then 0 # r else r)"
proof (induction n)
  case 0
  then show ?case by simp
next
  case (Suc n)
  define b where "b = (ucast (drop_bit (8 * n) v AND 0xff) :: u8)"
  have be: "be_bytes (Suc n) (unat v) = b # be_bytes n (unat v)"
    by (simp only: be_bytes_Cons b_def octet_of)
  have u: "uint64_octets v (Suc n) False =
      (if b = 0 then uint64_octets v n False
       else (if b AND 0x80 \<noteq> 0 then [0] else []) @ b # be_bytes n (unat v))"
    by (simp add: b_def Let_def uint64_octets_True)
  show ?case
    by (cases "b = 0") (simp_all only: u be Suc if_True if_False dropWhile.simps
        Let_def and_80_iff, auto simp: not_less)
qed

lemma uint64_started_iff:
  "uint64_started v n False \<longleftrightarrow> dropWhile (\<lambda>b. b = 0) (be_bytes n (unat v)) \<noteq> []"
proof (induction n)
  case 0
  then show ?case by simp
next
  case (Suc n)
  define b where "b = (ucast (drop_bit (8 * n) v AND 0xff) :: u8)"
  have be: "be_bytes (Suc n) (unat v) = b # be_bytes n (unat v)"
    by (simp only: be_bytes_Cons b_def octet_of)
  have "uint64_started v (Suc n) False = uint64_started v n (b \<noteq> 0)" by (simp add: b_def)
  then show ?case using Suc by (cases "b = 0") (simp_all add: be del: be_bytes.simps)
qed

lemma der_uint_octets:
  "der_uint (unat v) = uint64_octets v 8 False @ (if uint64_started v 8 False then [] else [0])"
  by (simp add: der_uint_def uint64_octets_False uint64_started_iff Let_def
      del: be_bytes.simps uint64_octets.simps uint64_started.simps)

lemma asn1_uint64_bytes_ok:
  "cbb_inv d s \<Longrightarrow> alloc_bounded al \<Longrightarrow> asn1_uint64_bytes al d v n st s = (Some x, s') \<Longrightarrow>
   x = uint64_started v n st \<and> cbb_extends d s s' (Some (uint64_octets v n st))"
proof (induction n arbitrary: s st)
  case 0
  then show ?case by (simp add: op_return_def cbb_extends_refl)
next
  case (Suc n)
  define b where "b = (ucast (drop_bit (8 * n) v AND 0xff) :: u8)"
  show ?case
  proof (cases "\<not> st \<and> b = 0")
    case True
    then show ?thesis using Suc by (simp add: b_def [symmetric])
  next
    case False
    define pad where "pad = (if \<not> st \<and> b AND 0x80 \<noteq> 0 then [0 :: u8] else [])"
    from Suc.prems(3) False obtain y t where
      t: "(if \<not> st \<and> b AND 0x80 \<noteq> 0 then CBB_add_u8 al d 0 else op_return ()) s = (Some y, t)"
      and r: "op_bind (CBB_add_u8 al d b) (\<lambda>_. asn1_uint64_bytes al d v n True) t = (Some x, s')"
      by (simp only: asn1_uint64_bytes.simps b_def [symmetric] Let_def if_False) (erule op_bind_SomeD)
    have e1: "cbb_extends d s t (Some pad)"
      using t CBB_add_u8_ok [OF Suc.prems(1,2)] cbb_extends_refl [OF Suc.prems(1)]
      by (auto simp: pad_def op_return_def intro: cbb_appends_extends split: if_splits)
    from r obtain z w where w: "CBB_add_u8 al d b t = (Some z, w)"
      and r2: "asn1_uint64_bytes al d v n True w = (Some x, s')" by (rule op_bind_SomeD)
    have it: "cbb_inv d t" using e1 by (simp add: cbb_extends_def)
    note a = CBB_add_u8_ok [OF it Suc.prems(2) w]
    from Suc.IH [OF cbb_appends_inv [OF a] Suc.prems(2) r2]
    have "x \<and> cbb_extends d w s' (Some (uint64_octets v n True))" by simp
    with cbb_extends_trans [OF cbb_extends_trans [OF e1 cbb_appends_extends [OF a]]]
    have "x \<and> cbb_extends d s s' (Some ((pad @ [b]) @ uint64_octets v n True))"
      by (metis oapp_simps(3))
    then show ?thesis
      using False by (auto simp: b_def [symmetric] pad_def Let_def)
  qed
qed

lemma asn1_uint64_bytes_succeeds:
  "cbb_inv d s \<Longrightarrow> alloc_bounded al \<Longrightarrow> cbb_room al d s (length (uint64_octets v n st)) \<Longrightarrow>
   \<exists>x s'. asn1_uint64_bytes al d v n st s = (Some x, s')"
proof (induction n arbitrary: s st)
  case 0
  then show ?case by (simp add: op_return_def)
next
  case (Suc n)
  define b where "b = (ucast (drop_bit (8 * n) v AND 0xff) :: u8)"
  show ?case
  proof (cases "\<not> st \<and> b = 0")
    case True
    then show ?thesis using Suc by (simp add: b_def [symmetric])
  next
    case False
    define pad where "pad = (if \<not> st \<and> b AND 0x80 \<noteq> 0 then [0 :: u8] else [])"
    have room: "cbb_room al d s (length pad + (1 + length (uint64_octets v n True)))"
      using Suc.prems(3) False by (simp add: b_def [symmetric] pad_def Let_def split: if_splits)
    have "cbb_room al d s 1" by (rule cbb_room_mono [OF room]) simp
    from CBB_add_u8_succeeds [OF Suc.prems(1,2) this, of 0] obtain t where
      t: "(if \<not> st \<and> b AND 0x80 \<noteq> 0 then CBB_add_u8 al d 0 else op_return ()) s = (Some (), t)"
      by (cases "\<not> st \<and> b AND 0x80 \<noteq> 0") (auto simp: op_return_def)
    have e1: "cbb_extends d s t (Some pad)"
      using t CBB_add_u8_ok [OF Suc.prems(1,2)] cbb_extends_refl [OF Suc.prems(1)]
      by (auto simp: pad_def op_return_def intro: cbb_appends_extends split: if_splits)
    have it: "cbb_inv d t" using e1 by (simp add: cbb_extends_def)
    have rt: "cbb_room al d t (1 + length (uint64_octets v n True))" by (rule cbb_extends_room [OF e1 room])
    have "cbb_room al d t 1" by (rule cbb_room_mono [OF rt]) simp
    from CBB_add_u8_succeeds [OF it Suc.prems(2) this] obtain w
      where w: "CBB_add_u8 al d b t = (Some (), w)" by blast
    note a = CBB_add_u8_ok [OF it Suc.prems(2) w]
    have "cbb_room al d w (length (uint64_octets v n True))"
      by (rule cbb_appends_room [OF a]) (use rt in simp)
    from Suc.IH [OF cbb_appends_inv [OF a] Suc.prems(2) this] t w show ?thesis
      using False by (auto simp: b_def [symmetric] Let_def op_bind_Some)
  qed
qed

text \<open>Closing a child by an explicit flush of its parent.\<close>

lemma cbb_close_flush:
  assumes o: "cbb_opens d s s1 pre f" and x: "cbb_extends (Suc d) s1 s2 (Some c)" and al: "alloc_bounded al"
    and r: "CBB_flush al d s2 = (Some u, s')"
  shows "\<exists>e. enc_prefix f c = Some e \<and> cbb_appends d s s' (pre @ e)"
proof -
  note e = cbb_opens_extends [OF o x]
  then have "cbb_inv d s2" by (simp add: cbb_extends_def)
  from CBB_flush_ok [OF this al r] obtain out where out: "cbb_val d s2 = Some out" "cbb_at d s' out"
    "cbb_keeps d s2 s'" by blast
  with e obtain out0 e' where e': "cbb_val d s = Some out0" "enc_prefix f c = Some e'"
    "out = out0 @ pre @ e'"
    by (cases "enc_prefix f c") (auto simp: cbb_extends_def oapp_def split: option.splits)
  moreover have "cbb_keeps d s s'"
    using e out(3) by (auto simp: cbb_extends_def intro: cbb_keeps_trans)
  ultimately show ?thesis using out by (auto simp: cbb_appends_def)
qed

lemma cbb_close_flush_succeeds:
  assumes o: "cbb_opens d s s1 pre f" and x: "cbb_extends (Suc d) s1 s2 (Some c)" and al: "alloc_bounded al"
    and e: "enc_prefix f c = Some e" and h: "cbb_room al d s (length pre + length e)"
  shows "\<exists>s'. CBB_flush al d s2 = (Some (), s')"
proof -
  note ext = cbb_opens_extends [OF o x]
  then have inv: "cbb_inv d s2" and k: "cbb_keeps d s s2" by (auto simp: cbb_extends_def)
  from h obtain out where v: "cbb_val d s = Some out"
    and h1: "cbb_holds al s (length out + (length pre + length e))" by (auto simp: cbb_room_def)
  have v2: "cbb_val d s2 = Some (out @ pre @ e)" using ext v e by (simp add: cbb_extends_def)
  have "cbb_holds al s2 (length (out @ pre @ e))" using cbb_keeps_holds [OF k h1] by simp
  from CBB_flush_succeeds [OF inv al v2 this] show ?thesis .
qed

lemma enc_prefix_asn1:
  "fr_pending_is_asn1 f \<Longrightarrow> length c \<le> 0xfffffffe \<Longrightarrow> enc_prefix f c = Some (der_len (length c) @ c)"
  by (simp add: enc_prefix_def)

lemma length_der_len_pos: "1 \<le> length (der_len n)"
  by (simp add: der_len_def)

text \<open>An element whose contents one body writes and which is flushed at once.\<close>

lemma asn1_value_ok:
  assumes inv: "cbb_inv d s" and al: "alloc_bounded al"
    and r: "op_bind (CBB_add_asn1 al d tag) (\<lambda>_. op_bind body (\<lambda>_. CBB_flush al d)) s = (Some u, s')"
    and body: "\<And>s1 x s2. cbb_inv (Suc d) s1 \<Longrightarrow> body s1 = (Some x, s2) \<Longrightarrow>
      cbb_extends (Suc d) s1 s2 (Some c)"
  shows "length c \<le> 0xfffffffe" "cbb_appends d s s' (der_element tag c)"
proof -
  from r obtain v s1 where a: "CBB_add_asn1 al d tag s = (Some v, s1)"
    and r1: "op_bind body (\<lambda>_. CBB_flush al d) s1 = (Some u, s')" by (rule op_bind_SomeD)
  from CBB_add_asn1_ok [OF inv al a] obtain f where o: "cbb_opens d s s1 (der_tag tag) f"
    and f: "fr_pending_is_asn1 f" by blast
  from r1 obtain x s2 where b: "body s1 = (Some x, s2)" and fl: "CBB_flush al d s2 = (Some u, s')"
    by (rule op_bind_SomeD)
  from cbb_close_flush [OF o body [OF cbb_opens_inv [OF o] b] al fl] f
  have "length c \<le> 0xfffffffe \<and> cbb_appends d s s' (der_element tag c)"
    by (auto simp: enc_prefix_def der_element_def split: if_splits)
  then show "length c \<le> 0xfffffffe" "cbb_appends d s s' (der_element tag c)" by auto
qed

lemma asn1_value_succeeds:
  assumes inv: "cbb_inv d s" and al: "alloc_bounded al"
    and h: "cbb_room al d s (length (der_element tag c))" and c: "length c \<le> 0xfffffffe"
    and body: "\<And>s1 x s2. cbb_inv (Suc d) s1 \<Longrightarrow> body s1 = (Some x, s2) \<Longrightarrow>
      cbb_extends (Suc d) s1 s2 (Some c)"
    and bodys: "\<And>s1. cbb_inv (Suc d) s1 \<Longrightarrow> cbb_room al (Suc d) s1 (length c) \<Longrightarrow>
      \<exists>x s2. body s1 = (Some x, s2)"
  shows "\<exists>s'. op_bind (CBB_add_asn1 al d tag) (\<lambda>_. op_bind body (\<lambda>_. CBB_flush al d)) s = (Some (), s')"
proof -
  have le: "length (der_tag tag) + 1 + length c \<le> length (der_element tag c)"
    using length_der_len_pos [of "length c"] by (simp add: der_element_def)
  have "cbb_room al d s (length (der_tag tag) + 1)"
    by (rule cbb_room_mono [OF h]) (use le in linarith)
  from CBB_add_asn1_succeeds [OF inv al this] obtain s1
    where a: "CBB_add_asn1 al d tag s = (Some (), s1)" by blast
  from CBB_add_asn1_ok [OF inv al a] obtain f where o: "cbb_opens d s s1 (der_tag tag) f"
    and f: "fr_pending_is_asn1 f" "fr_pending_len_len f = 1" by blast
  have "cbb_room al (Suc d) s1 (length c)"
    by (rule cbb_opens_room [OF o]) (rule cbb_room_mono [OF h], use le f in simp)
  from bodys [OF cbb_opens_inv [OF o] this] obtain x s2 where b: "body s1 = (Some x, s2)" by blast
  have "cbb_room al d s (length (der_tag tag) + length (der_len (length c) @ c))"
    using h by (simp add: der_element_def)
  from cbb_close_flush_succeeds [OF o body [OF cbb_opens_inv [OF o] b] al enc_prefix_asn1 [OF f(1) c] this]
  obtain s' where "CBB_flush al d s2 = (Some (), s')" by blast
  then show ?thesis using a b by (auto simp: op_bind_Some)
qed

definition uint64_body :: "allocator \<Rightarrow> nat \<Rightarrow> u64 \<Rightarrow> (cbb, unit) op" where
  "uint64_body al d v =
     op_bind (asn1_uint64_bytes al d v 8 False) (\<lambda>started.
       if \<not> started then CBB_add_u8 al d 0 else op_return ())"

lemma CBB_add_asn1_uint64_body:
  "CBB_add_asn1_uint64 al d v =
     op_bind (CBB_add_asn1 al d CBS_ASN1_INTEGER) (\<lambda>_.
       op_bind (uint64_body al (Suc d) v) (\<lambda>_. CBB_flush al d))"
  by (simp add: CBB_add_asn1_uint64_def uint64_body_def op_bind_assoc)

lemma uint64_body_ok:
  assumes inv: "cbb_inv d s" and al: "alloc_bounded al" and r: "uint64_body al d v s = (Some x, s')"
  shows "cbb_extends d s s' (Some (der_uint (unat v)))"
proof -
  from r [unfolded uint64_body_def] obtain st t
    where t: "asn1_uint64_bytes al d v 8 False s = (Some st, t)"
    and r1: "(if \<not> st then CBB_add_u8 al d 0 else op_return ()) t = (Some x, s')"
    by (rule op_bind_SomeD)
  from asn1_uint64_bytes_ok [OF inv al t] have st: "st = uint64_started v 8 False"
    and e: "cbb_extends d s t (Some (uint64_octets v 8 False))" by auto
  have it: "cbb_inv d t" using e by (simp add: cbb_extends_def)
  have "cbb_extends d t s' (Some (if st then [] else [0]))"
    using r1 CBB_add_u8_ok [OF it al] cbb_extends_refl [OF it]
    by (auto simp: op_return_def intro: cbb_appends_extends split: if_splits)
  from cbb_extends_trans [OF e this] show ?thesis by (simp only: der_uint_octets st oapp_simps)
qed

lemma uint64_body_succeeds:
  assumes inv: "cbb_inv d s" and al: "alloc_bounded al"
    and h: "cbb_room al d s (length (der_uint (unat v)))"
  shows "\<exists>s'. uint64_body al d v s = (Some (), s')"
proof -
  have h1: "cbb_room al d s (length (uint64_octets v 8 False) +
      (if uint64_started v 8 False then 0 else 1))"
    using h by (simp only: der_uint_octets length_append) (simp split: if_splits)
  have "cbb_room al d s (length (uint64_octets v 8 False))" by (rule cbb_room_mono [OF h1]) simp
  from asn1_uint64_bytes_succeeds [OF inv al this] obtain st t
    where t: "asn1_uint64_bytes al d v 8 False s = (Some st, t)" by blast
  from asn1_uint64_bytes_ok [OF inv al t] have st: "st = uint64_started v 8 False"
    and e: "cbb_extends d s t (Some (uint64_octets v 8 False))" by auto
  have it: "cbb_inv d t" using e by (simp add: cbb_extends_def)
  have rt: "cbb_room al d t (if st then 0 else 1)" by (rule cbb_extends_room [OF e h1 [folded st]])
  have "\<exists>u s'. (if \<not> st then CBB_add_u8 al d 0 else op_return ()) t = (Some u, s')"
    using rt CBB_add_u8_succeeds [OF it al] by (cases st) (auto simp: op_return_def)
  then show ?thesis using t by (auto simp: uint64_body_def op_bind_Some)
qed

section \<open>Client programs\<close>

text \<open>
  The calls a client makes on a CBB, children included: \<open>Prefixed n\<close> is one of
  \<open>CBB_add_u8/16/24_length_prefixed\<close>, whose child is given the items listed, and
  \<open>Asn1 tag\<close> is \<open>CBB_add_asn1\<close>.
\<close>

datatype item =
    Bytes bytes
  | U8 u8
  | U16 u16
  | U24 u32
  | U32 u32
  | Uint64 u64
  | Octet_string bytes
  | Boolean int
  | Prefixed nat "item list"
  | Asn1 u32 "item list"

fun run_item :: "allocator \<Rightarrow> nat \<Rightarrow> item \<Rightarrow> (cbb, unit) op"
  and run_items :: "allocator \<Rightarrow> nat \<Rightarrow> item list \<Rightarrow> (cbb, unit) op" where
  "run_item al d (Bytes bs) = CBB_add_bytes al d bs"
| "run_item al d (U8 v) = CBB_add_u8 al d v"
| "run_item al d (U16 v) = CBB_add_u16 al d v"
| "run_item al d (U24 v) = CBB_add_u24 al d v"
| "run_item al d (U32 v) = CBB_add_u32 al d v"
| "run_item al d (Uint64 v) = CBB_add_asn1_uint64 al d v"
| "run_item al d (Octet_string bs) = CBB_add_asn1_octet_string al d bs"
| "run_item al d (Boolean v) = CBB_add_asn1_bool al d v"
| "run_item al d (Prefixed n is) =
     op_bind (if n = 1 then CBB_add_u8_length_prefixed al d
              else if n = 2 then CBB_add_u16_length_prefixed al d
              else CBB_add_u24_length_prefixed al d) (\<lambda>_. run_items al (Suc d) is)"
| "run_item al d (Asn1 tag is) = op_bind (CBB_add_asn1 al d tag) (\<lambda>_. run_items al (Suc d) is)"
| "run_items al d [] = op_return ()"
| "run_items al d (i # is) = op_bind (run_item al d i) (\<lambda>_. run_items al d is)"

definition enc_asn1 :: "u32 \<Rightarrow> bytes \<Rightarrow> bytes option" where
  "enc_asn1 tag c = (if length c \<le> 0xfffffffe then Some (der_element tag c) else None)"

definition enc_prefixed :: "nat \<Rightarrow> bytes \<Rightarrow> bytes option" where
  "enc_prefixed n c = (if length c < 256 ^ n then Some (be_bytes n (length c) @ c) else None)"

fun encode_item :: "item \<Rightarrow> bytes option" and encode_items :: "item list \<Rightarrow> bytes option" where
  "encode_item (Bytes bs) = Some bs"
| "encode_item (U8 v) = Some [v]"
| "encode_item (U16 v) = Some (be_bytes 2 (unat v))"
| "encode_item (U24 v) = enc_u 3 (unat v)"
| "encode_item (U32 v) = Some (be_bytes 4 (unat v))"
| "encode_item (Uint64 v) = Some (der_element CBS_ASN1_INTEGER (der_uint (unat v)))"
| "encode_item (Octet_string bs) = enc_asn1 CBS_ASN1_OCTETSTRING bs"
| "encode_item (Boolean v) = Some (der_element CBS_ASN1_BOOLEAN (der_bool (v \<noteq> 0)))"
| "encode_item (Prefixed n is) =
     Option.bind (encode_items is) (enc_prefixed (if n = 1 then 1 else if n = 2 then 2 else 3))"
| "encode_item (Asn1 tag is) = Option.bind (encode_items is) (enc_asn1 tag)"
| "encode_items [] = Some []"
| "encode_items (i # is) = oapp (encode_item i) (encode_items is)"

text \<open>Every byte string a client passes is an object in memory.\<close>

fun item_ok :: "item \<Rightarrow> bool" where
  "item_ok (Bytes bs) \<longleftrightarrow> length bs < 2 ^ 62"
| "item_ok (Octet_string bs) \<longleftrightarrow> length bs < 2 ^ 62"
| "item_ok (Prefixed n is) \<longleftrightarrow> list_all item_ok is"
| "item_ok (Asn1 tag is) \<longleftrightarrow> list_all item_ok is"
| "item_ok _ \<longleftrightarrow> True"

lemma length_der_uint: "length (der_uint v) \<le> 9"
  using length_dropWhile_le [of "\<lambda>b. b = 0" "be_bytes 8 v"]
  by (simp add: der_uint_def Let_def del: be_bytes.simps)

lemma oapp_asn1:
  "fr_pending_is_asn1 f \<Longrightarrow> oapp (Some (der_tag tag)) (Option.bind e (enc_prefix f)) = Option.bind e (enc_asn1 tag)"
  by (cases e) (simp_all add: enc_prefix_def enc_asn1_def der_element_def)

lemma oapp_prefixed:
  "\<not> fr_pending_is_asn1 f \<Longrightarrow>
   oapp (Some []) (Option.bind e (enc_prefix f)) = Option.bind e (enc_prefixed (fr_pending_len_len f))"
  by (cases e) (simp_all add: enc_prefix_def enc_prefixed_def)

lemma prefixed_call:
  "(if n = 1 then CBB_add_u8_length_prefixed al d
    else if n = 2 then CBB_add_u16_length_prefixed al d else CBB_add_u24_length_prefixed al d) =
   cbb_add_length_prefixed al d (if n = 1 then 1 else if n = 2 then 2 else 3)"
  by (simp add: CBB_add_u8_length_prefixed_def CBB_add_u16_length_prefixed_def
      CBB_add_u24_length_prefixed_def)

lemma octet_string_body:
  "CBB_add_asn1_octet_string al d bs = op_bind (CBB_add_asn1 al d CBS_ASN1_OCTETSTRING)
     (\<lambda>_. op_bind (CBB_add_bytes al (Suc d) bs) (\<lambda>_. CBB_flush al d))"
  by (simp add: CBB_add_asn1_octet_string_def)

lemma bool_body:
  "CBB_add_asn1_bool al d v = op_bind (CBB_add_asn1 al d CBS_ASN1_BOOLEAN)
     (\<lambda>_. op_bind (CBB_add_u8 al (Suc d) (if v \<noteq> 0 then 0xff else 0)) (\<lambda>_. CBB_flush al d))"
  by (simp add: CBB_add_asn1_bool_def)

text \<open>The leaves.\<close>

lemma run_uint64_ok:
  "cbb_inv d s \<Longrightarrow> alloc_bounded al \<Longrightarrow> CBB_add_asn1_uint64 al d v s = (Some u, s') \<Longrightarrow>
   cbb_appends d s s' (der_element CBS_ASN1_INTEGER (der_uint (unat v)))"
  unfolding CBB_add_asn1_uint64_body
  by (erule (2) asn1_value_ok(2)) (rule uint64_body_ok)

lemma run_octet_string_ok:
  "cbb_inv d s \<Longrightarrow> alloc_bounded al \<Longrightarrow> length bs < 2 ^ 62 \<Longrightarrow>
   CBB_add_asn1_octet_string al d bs s = (Some u, s') \<Longrightarrow>
   length bs \<le> 0xfffffffe \<and> cbb_appends d s s' (der_element CBS_ASN1_OCTETSTRING bs)"
  using asn1_value_ok [of d s al CBS_ASN1_OCTETSTRING "CBB_add_bytes al (Suc d) bs" u s' bs]
  unfolding octet_string_body by (blast intro: cbb_appends_extends CBB_add_bytes_ok)

lemma run_bool_ok:
  "cbb_inv d s \<Longrightarrow> alloc_bounded al \<Longrightarrow> CBB_add_asn1_bool al d v s = (Some u, s') \<Longrightarrow>
   cbb_appends d s s' (der_element CBS_ASN1_BOOLEAN (der_bool (v \<noteq> 0)))"
  unfolding bool_body der_bool_def
  by (erule (2) asn1_value_ok(2)) (blast intro: cbb_appends_extends CBB_add_u8_ok)

text \<open>Every successful run extends the value of the CBB by the encoding of its items.\<close>

lemma run_items_ext:
  "cbb_inv d s \<Longrightarrow> alloc_bounded al \<Longrightarrow> item_ok i \<Longrightarrow> run_item al d i s = (Some u, s') \<Longrightarrow>
   cbb_extends d s s' (encode_item i)"
  "cbb_inv d s \<Longrightarrow> alloc_bounded al \<Longrightarrow> list_all item_ok is \<Longrightarrow> run_items al d is s = (Some u, s') \<Longrightarrow>
   cbb_extends d s s' (encode_items is)"
proof (induction al d i and al d "is" arbitrary: s s' u and s s' u rule: run_item_run_items.induct)
  case (9 al d n "is")
  define m where "m = (if n = 1 then 1 else if n = 2 then 2 else 3 :: nat)"
  from "9.prems"(4) obtain v s1 where a: "cbb_add_length_prefixed al d m s = (Some v, s1)"
    and r: "run_items al (Suc d) is s1 = (Some u, s')"
    unfolding run_item.simps prefixed_call m_def [symmetric] by (rule op_bind_SomeD)
  have "1 \<le> m" "m \<le> 3" by (auto simp: m_def)
  from add_length_prefixed_ok [OF "9.prems"(1,2) this a] obtain f where o: "cbb_opens d s s1 [] f"
    and f: "fr_pending_len_len f = m" "\<not> fr_pending_is_asn1 f" by blast
  have "cbb_extends (Suc d) s1 s' (encode_items is)"
    using "9.IH" [OF cbb_opens_inv [OF o] "9.prems"(2) _ r] "9.prems"(3) by simp
  from cbb_opens_extends [OF o this] show ?case
    unfolding oapp_prefixed [OF f(2)] by (simp add: f m_def)
next
  case (10 al d tag "is")
  from "10.prems"(4) obtain v s1 where a: "CBB_add_asn1 al d tag s = (Some v, s1)"
    and r: "run_items al (Suc d) is s1 = (Some u, s')"
    unfolding run_item.simps by (rule op_bind_SomeD)
  from CBB_add_asn1_ok [OF "10.prems"(1,2) a] obtain f where o: "cbb_opens d s s1 (der_tag tag) f"
    and f: "fr_pending_is_asn1 f" by blast
  have "cbb_extends (Suc d) s1 s' (encode_items is)"
    using "10.IH" [OF cbb_opens_inv [OF o] "10.prems"(2) _ r] "10.prems"(3) by simp
  from cbb_opens_extends [OF o this] show ?case
    unfolding oapp_asn1 [OF f] by simp
next
  case (12 al d i "is")
  from "12.prems"(4) obtain v t where a: "run_item al d i s = (Some v, t)"
    and r: "run_items al d is t = (Some u, s')" by (auto elim!: op_bind_SomeD)
  have e: "cbb_extends d s t (encode_item i)"
    using "12.IH"(1) [OF "12.prems"(1,2) _ a] "12.prems"(3) by simp
  then have "cbb_inv d t" by (simp add: cbb_extends_def)
  from cbb_extends_trans [OF e "12.IH"(2) [OF this "12.prems"(2) _ r]] "12.prems"(3)
  show ?case by simp
next
  case (3 al d v)
  have l: "unat (ucast v :: u32) = unat v" by (rule unat_ucast_up) simp
  show ?case
    using cbb_add_u_ok(2) [OF "3.prems"(1,2), of 2 "ucast v" u s'] "3.prems"(4)
    by (auto simp: CBB_add_u16_def l intro!: cbb_appends_extends simp del: be_bytes.simps)
next
  case (4 al d v)
  then show ?case
    using cbb_add_u_ok [OF "4.prems"(1,2), of 3]
    by (auto simp: CBB_add_u24_def enc_u_def intro!: cbb_appends_extends simp del: be_bytes.simps)
next
  case (5 al d v)
  then show ?case
    using cbb_add_u_ok [OF "5.prems"(1,2), of 4]
    by (auto simp: CBB_add_u32_def intro!: cbb_appends_extends simp del: be_bytes.simps)
next
  case (1 al d bs)
  then show ?case
    using CBB_add_bytes_ok [OF "1.prems"(1,2), of bs u s'] by (simp add: cbb_appends_extends)
next
  case (7 al d bs)
  then show ?case
    using run_octet_string_ok [OF "7.prems"(1,2), of bs u s']
    by (simp add: enc_asn1_def cbb_appends_extends)
qed (auto intro: cbb_appends_extends CBB_add_bytes_ok CBB_add_u8_ok run_uint64_ok run_bool_ok
    simp: op_return_def cbb_extends_refl)

text \<open>
  And a run succeeds where the encoding exists and the buffer can hold it: the buffer is
  never asked for more than the finished encoding takes.
\<close>

lemma length_enc_prefixed: "enc_prefixed n c = Some e \<Longrightarrow> length e = n + length c"
  by (auto simp: enc_prefixed_def split: if_splits)

lemma length_enc_asn1: "enc_asn1 t c = Some e \<Longrightarrow> length (der_tag t) + 1 + length c \<le> length e"
  using length_der_len_pos [of "length c"] by (auto simp: enc_asn1_def der_element_def split: if_splits)

lemma run_u_succeeds:
  "cbb_inv d s \<Longrightarrow> alloc_bounded al \<Longrightarrow> 1 \<le> n \<Longrightarrow> n \<le> 4 \<Longrightarrow> unat v < 256 ^ n \<Longrightarrow>
   cbb_room al d s n \<Longrightarrow> \<exists>s'. cbb_add_u al d v n s = (Some (), s')"
  by (intro cbb_add_u_succeeds) auto

lemma run_uint64_succeeds:
  assumes "cbb_inv d s" "alloc_bounded al"
    "cbb_room al d s (length (der_element CBS_ASN1_INTEGER (der_uint (unat v))))"
  shows "\<exists>s'. CBB_add_asn1_uint64 al d v s = (Some (), s')"
  unfolding CBB_add_asn1_uint64_body
  by (rule asn1_value_succeeds [OF assms])
    (use length_der_uint [of "unat v"] in \<open>auto intro: uint64_body_ok [OF _ assms(2)] uint64_body_succeeds [OF _ assms(2)]\<close>)

lemma run_octet_string_succeeds:
  assumes "cbb_inv d s" "alloc_bounded al" "length bs \<le> 0xfffffffe"
    "cbb_room al d s (length (der_element CBS_ASN1_OCTETSTRING bs))"
  shows "\<exists>s'. CBB_add_asn1_octet_string al d bs s = (Some (), s')"
proof -
  have l: "length bs < 2 ^ 62" using assms(3) by simp
  show ?thesis
    unfolding octet_string_body
    by (rule asn1_value_succeeds [OF assms(1,2,4,3)])
      (use CBB_add_bytes_ok [OF _ assms(2) l] CBB_add_bytes_succeeds [OF _ assms(2) _ l]
        in \<open>blast intro: cbb_appends_extends\<close>)+
qed

lemma run_bool_succeeds:
  assumes "cbb_inv d s" "alloc_bounded al"
    "cbb_room al d s (length (der_element CBS_ASN1_BOOLEAN (der_bool (v \<noteq> 0))))"
  shows "\<exists>s'. CBB_add_asn1_bool al d v s = (Some (), s')"
  unfolding bool_body
  by (rule asn1_value_succeeds [OF assms])
    (use CBB_add_u8_ok [OF _ assms(2)] CBB_add_u8_succeeds [OF _ assms(2)]
      in \<open>auto simp: der_bool_def intro: cbb_appends_extends\<close>)

lemma run_items_succeeds:
  "cbb_inv d s \<Longrightarrow> alloc_bounded al \<Longrightarrow> item_ok i \<Longrightarrow> encode_item i = Some e \<Longrightarrow>
   cbb_room al d s (length e) \<Longrightarrow> \<exists>s'. run_item al d i s = (Some (), s')"
  "cbb_inv d s \<Longrightarrow> alloc_bounded al \<Longrightarrow> list_all item_ok is \<Longrightarrow> encode_items is = Some e \<Longrightarrow>
   cbb_room al d s (length e) \<Longrightarrow> \<exists>s'. run_items al d is s = (Some (), s')"
proof (induction al d i and al d "is" arbitrary: s e and s e rule: run_item_run_items.induct)
  case (9 al d n "is")
  define m where "m = (if n = 1 then 1 else if n = 2 then 2 else 3 :: nat)"
  have m: "1 \<le> m" "m \<le> 3" by (auto simp: m_def)
  from "9.prems"(4) obtain c where c: "encode_items is = Some c" and e: "enc_prefixed m c = Some e"
    by (cases "encode_items is") (auto simp: m_def)
  have h: "cbb_room al d s (length [] + m + length c)"
    using "9.prems"(5) length_enc_prefixed [OF e] by simp
  have "cbb_room al d s m" by (rule cbb_room_mono [OF h]) simp
  from add_length_prefixed_succeeds [OF "9.prems"(1,2) m(2) this] obtain s1
    where a: "cbb_add_length_prefixed al d m s = (Some (), s1)" by blast
  from add_length_prefixed_ok [OF "9.prems"(1,2) m a] obtain f where o: "cbb_opens d s s1 [] f"
    and f: "fr_pending_len_len f = m" by blast
  have "cbb_room al (Suc d) s1 (length c)"
    by (rule cbb_opens_room [OF o]) (use h f in simp)
  from "9.IH" [OF cbb_opens_inv [OF o] "9.prems"(2) _ c this] "9.prems"(3)
  obtain s' where "run_items al (Suc d) is s1 = (Some (), s')" by auto
  then show ?case unfolding run_item.simps prefixed_call m_def [symmetric]
    using a by (simp add: op_bind_Some)
next
  case (10 al d tag "is")
  from "10.prems"(4) obtain c where c: "encode_items is = Some c" and e: "enc_asn1 tag c = Some e"
    by (cases "encode_items is") auto
  have h: "cbb_room al d s (length (der_tag tag) + 1 + length c)"
    by (rule cbb_room_mono [OF "10.prems"(5) length_enc_asn1 [OF e]])
  have "cbb_room al d s (length (der_tag tag) + 1)" by (rule cbb_room_mono [OF h]) simp
  from CBB_add_asn1_succeeds [OF "10.prems"(1,2) this] obtain s1
    where a: "CBB_add_asn1 al d tag s = (Some (), s1)" by blast
  from CBB_add_asn1_ok [OF "10.prems"(1,2) a] obtain f where o: "cbb_opens d s s1 (der_tag tag) f"
    and f: "fr_pending_len_len f = 1" by blast
  have "cbb_room al (Suc d) s1 (length c)"
    by (rule cbb_opens_room [OF o]) (use h f in simp)
  from "10.IH" [OF cbb_opens_inv [OF o] "10.prems"(2) _ c this] "10.prems"(3)
  obtain s' where "run_items al (Suc d) is s1 = (Some (), s')" by auto
  then show ?case using a by (simp add: op_bind_Some)
next
  case (12 al d i "is")
  from "12.prems"(4) obtain e1 e2 where e: "encode_item i = Some e1" "encode_items is = Some e2"
    "e = e1 @ e2" by (auto simp: oapp_def split: option.splits)
  have h: "cbb_room al d s (length e1 + length e2)" using "12.prems"(5) e(3) by simp
  have "cbb_room al d s (length e1)" by (rule cbb_room_mono [OF h]) simp
  from "12.IH"(1) [OF "12.prems"(1,2) _ e(1) this] "12.prems"(3) obtain t
    where a: "run_item al d i s = (Some (), t)" by auto
  have x: "cbb_extends d s t (Some e1)"
    using run_items_ext(1) [OF "12.prems"(1,2) _ a] "12.prems"(3) e(1) by simp
  then have "cbb_inv d t" by (simp add: cbb_extends_def)
  from "12.IH"(2) [OF this "12.prems"(2) _ e(2) cbb_extends_room [OF x h]] "12.prems"(3) a
  show ?case by (auto simp: op_bind_Some)
next
  case (1 al d bs)
  then show ?case using CBB_add_bytes_succeeds [of d s al bs] by simp
next
  case (2 al d v)
  then show ?case by (auto intro: CBB_add_u8_succeeds)
next
  case (3 al d v)
  have "unat (ucast v :: u32) < 256 ^ 2"
    using unsigned_less [of v, where 'a = nat] by (simp add: unat_ucast_up)
  with run_u_succeeds [OF "3.prems"(1,2)] "3.prems"(4,5)
  show ?case by (auto simp: CBB_add_u16_def simp del: be_bytes.simps)
next
  case (4 al d v)
  then show ?case
    using run_u_succeeds [OF "4.prems"(1,2)]
    by (auto simp: CBB_add_u24_def enc_u_def simp del: be_bytes.simps split: if_splits)
next
  case (5 al d v)
  have "unat v < 256 ^ 4" using unsigned_less [of v, where 'a = nat] by simp
  with 5 show ?case
    using run_u_succeeds [OF "5.prems"(1,2)] by (auto simp: CBB_add_u32_def simp del: be_bytes.simps)
next
  case (6 al d v)
  then show ?case using run_uint64_succeeds by simp
next
  case (7 al d bs)
  then show ?case
    using run_octet_string_succeeds [OF "7.prems"(1,2)] by (auto simp: enc_asn1_def split: if_splits)
next
  case (8 al d v)
  then show ?case using run_bool_succeeds by simp
qed (simp_all add: op_return_def)

end
