(* ===== verification/Asn1.thy ===== *)
theory Asn1
  imports Cbb_Run
begin

text \<open>
  The readers of crypto/bytestring/cbs.c against the DER specification and against the
  builder: a reader accepts exactly the DER encodings of the values of its type, so what
  the builder writes is read back, and nothing else is read.
\<close>

section \<open>Elements\<close>

lemma CBS_skip_eq: "CBS_skip n c = (if length c < n then (None, c) else (Some (), drop n c))"
  by (simp add: CBS_skip_def op_bind_def cbs_get_def op_return_def)

lemma get_any_element_iff:
  assumes "length cs < SIZE_LIMIT"
  shows "CBS_get_any_asn1_element cs = (Some (out, t, h), rest) \<longleftrightarrow>
    (\<exists>c. out = der_element t c \<and> cs = der_element t c @ rest \<and> length c < 2 ^ 32 \<and>
      h = length (der_tag t) + length (der_len (length c)))"
  using CBS_get_any_asn1_element_sound [OF _ assms, of out t h rest]
    CBS_get_any_asn1_element_der [of _ t rest] assms
  by blast

lemma skip_header [simp]:
  "CBS_skip (length (der_tag t) + length (der_len (length c))) (der_element t c) = (Some (), c)"
  by (simp add: CBS_skip_eq der_element_def)

lemma get_asn1_iff:
  assumes "length cs < SIZE_LIMIT"
  shows "CBS_get_asn1 tag cs = (Some c, rest) \<longleftrightarrow> cs = der_element tag c @ rest \<and> length c < 2 ^ 32"
proof
  assume "CBS_get_asn1 tag cs = (Some c, rest)"
  then obtain out t h s where a: "CBS_get_any_asn1_element cs = (Some (out, t, h), s)"
    and b: "t = tag" "s = rest" "CBS_skip h out = (Some (), c)"
    by (auto simp: CBS_get_asn1_def cbs_get_asn1_def op_fail_def op_return_def
        elim!: op_bind_SomeD split: if_splits option.splits prod.splits)
  from a obtain c' where "out = der_element t c'" "cs = der_element t c' @ s" "length c' < 2 ^ 32"
    "h = length (der_tag t) + length (der_len (length c'))"
    unfolding get_any_element_iff [OF assms] by blast
  with b show "cs = der_element tag c @ rest \<and> length c < 2 ^ 32" by auto
next
  assume cs: "cs = der_element tag c @ rest \<and> length c < 2 ^ 32"
  then have "CBS_get_any_asn1_element cs =
      (Some (der_element tag c, tag, length (der_tag tag) + length (der_len (length c))), rest)"
    unfolding get_any_element_iff [OF assms] by blast
  then show "CBS_get_asn1 tag cs = (Some c, rest)"
    by (simp add: CBS_get_asn1_def cbs_get_asn1_def op_bind_Some op_return_def)
qed

lemma get_asn1_der:
  "length c < 2 ^ 32 \<Longrightarrow> length (der_element tag c @ rest) < SIZE_LIMIT \<Longrightarrow>
   CBS_get_asn1 tag (der_element tag c @ rest) = (Some c, rest)"
  by (simp add: get_asn1_iff)

text \<open>A failing call does not move the CBS.\<close>

lemma get_any_element_fail:
  "CBS_get_any_asn1_element cs = (None, s) \<Longrightarrow> s = cs"
  by (auto simp: CBS_get_any_asn1_element_def cbs_get_any_asn1_element_def asn1_take_eq Let_def
      split: prod.splits option.splits if_splits)

section \<open>Integers\<close>

lemma asn1_uint64_loop_eq:
  "unat out < 2 ^ 64 \<Longrightarrow> asn1_uint64_loop out data =
     (let n = foldl (\<lambda>n b. n * 256 + unat b) (unat out) data in
      if n < 2 ^ 64 then Some (word_of_nat n) else None)"
proof (induction data arbitrary: out)
  case Nil
  then show ?case by simp
next
  case (Cons b bs)
  have mono: "n \<le> foldl (\<lambda>n b. n * 256 + unat b) n xs" for n and xs :: bytes
  proof (induction xs arbitrary: n)
    case (Cons x xs)
    have "n \<le> n * 256 + unat x" by simp
    also have "\<dots> \<le> foldl (\<lambda>n b. n * 256 + unat b) (n * 256 + unat x) xs" by (rule Cons)
    finally show ?case by simp
  qed simp
  have z: "drop_bit 56 out = 0 \<longleftrightarrow> unat out < 2 ^ 56" by (rule drop_zero_iff)
  show ?case
  proof (cases "unat out < 2 ^ 56")
    case False
    then have "2 ^ 64 \<le> unat out * 256 + unat b" by simp
    also have "\<dots> \<le> foldl (\<lambda>n b. n * 256 + unat b) (unat out * 256 + unat b) bs" by (rule mono)
    finally show ?thesis using False z by (simp add: Let_def)
  next
    case True
    have "unat (out * 256 + ucast b) = unat out * 256 + unat b"
    proof -
      have "unat b < 256" "unat out < 72057594037927936" using True by simp_all
      then have "unat out * 256 + unat b < 18446744073709551616" by linarith
      then show ?thesis by (simp add: unat_word_ariths unat_ucast_up mod_simps)
    qed
    then have u: "unat (push_bit 8 out OR ucast b) = unat out * 256 + unat b"
      by (simp add: shift_or_byte)
    have "unat out * 256 + unat b < 2 ^ 64" using u unsigned_less [of "push_bit 8 out OR ucast b", where 'a = nat] by simp
    then show ?thesis using Cons.IH [of "push_bit 8 out OR ucast b"] True z u by simp
  qed
qed

lemma asn1_uint64_loop_0:
  "asn1_uint64_loop 0 data = (if be_nat data < 2 ^ 64 then Some (word_of_nat (be_nat data)) else None)"
  by (simp add: asn1_uint64_loop_eq be_nat_def Let_def)

text \<open>The conditions of the reader on the contents: non-empty, non-negative, minimal.\<close>

definition minimal_uint :: "bytes \<Rightarrow> bool" where
  "minimal_uint c \<longleftrightarrow> c \<noteq> [] \<and> unat (hd c) < 128 \<and> (hd c = 0 \<longrightarrow> length c > 1 \<longrightarrow> 128 \<le> unat (c ! 1))"

lemma be_nat_Cons: "be_nat (b # bs) = unat b * 256 ^ length bs + be_nat bs"
  using be_nat_append [of "[b]" bs] by simp

lemma be_nat_zeros: "be_nat (replicate n 0 @ bs) = be_nat bs"
  by (induction n) (simp_all add: be_nat_Cons)

lemma be_bytes_pad:
  assumes "length bs \<le> n"
  shows "be_bytes n (be_nat bs) = replicate (n - length bs) 0 @ bs"
proof -
  have "be_bytes n (be_nat (replicate (n - length bs) 0 @ bs)) = replicate (n - length bs) 0 @ bs"
    using be_bytes_be_nat [of "replicate (n - length bs) 0 @ bs"] assms by simp
  then show ?thesis by (simp add: be_nat_zeros)
qed

lemma dropWhile_zeros: "bs = [] \<or> hd bs \<noteq> 0 \<Longrightarrow> dropWhile (\<lambda>b. b = 0) (replicate n 0 @ bs) = bs"
  for bs :: bytes
  by (induction n) (cases bs; simp)+

text \<open>A number without leading zero octets below \<open>256 ^ n\<close> has at most \<open>n\<close> octets.\<close>

lemma be_nat_length:
  assumes "be_nat bs < 256 ^ n" "bs \<noteq> []" "hd bs \<noteq> 0"
  shows "length bs \<le> n"
proof (rule ccontr)
  assume "\<not> length bs \<le> n"
  obtain b r where bs: "bs = b # r" using assms(2) by (cases bs) auto
  then have "n \<le> length r" using \<open>\<not> length bs \<le> n\<close> by simp
  then have "(256 :: nat) ^ n \<le> 256 ^ length r" by (rule power_increasing) simp
  also have "\<dots> \<le> unat b * 256 ^ length r"
    using assms(3) bs by (simp add: unat_gt_0 Suc_leI)
  also have "\<dots> \<le> be_nat bs" by (simp add: bs be_nat_Cons)
  finally show False using assms(1) by simp
qed

lemma der_uint_minimal: "minimal_uint (der_uint v)"
proof -
  define r where "r = dropWhile (\<lambda>b. b = 0) (be_bytes 8 v)"
  have "r \<noteq> [] \<Longrightarrow> hd r \<noteq> 0"
    unfolding r_def by (metis (full_types) hd_dropWhile)
  then show ?thesis
    unfolding der_uint_def r_def [symmetric]
    by (auto simp: minimal_uint_def Let_def not_le neq_Nil_conv)
qed

lemma be_nat_dropWhile: "be_nat (dropWhile (\<lambda>b. b = 0) bs) = be_nat bs"
  by (induction bs) (simp_all add: be_nat_Cons)

lemma be_nat_der_uint: "v < 2 ^ 64 \<Longrightarrow> be_nat (der_uint v) = v"
proof -
  assume v: "v < 2 ^ 64"
  define r where "r = dropWhile (\<lambda>b. b = 0) (be_bytes 8 v)"
  have "be_nat r = v" using v by (simp add: r_def be_nat_dropWhile be_nat_be_bytes del: be_bytes.simps)
  then show ?thesis
    unfolding der_uint_def r_def [symmetric] by (auto simp: Let_def be_nat_Cons)
qed

lemma minimal_der_uint:
  assumes m: "minimal_uint c" and v: "be_nat c < 2 ^ 64"
  shows "c = der_uint (be_nat c)"
proof -
  have v8: "be_nat c < 256 ^ 8" using v by simp
  have ne: "c \<noteq> []" and h: "unat (hd c) < 128" using m by (auto simp: minimal_uint_def)
  show ?thesis
  proof (cases "hd c = 0")
    case False
    then have "length c \<le> 8" by (rule be_nat_length [OF v8 ne])
    then have "dropWhile (\<lambda>b. b = 0) (be_bytes 8 (be_nat c)) = c"
      using False by (simp add: be_bytes_pad dropWhile_zeros del: be_bytes.simps)
    then show ?thesis using ne h by (simp add: der_uint_def Let_def del: be_bytes.simps)
  next
    case True
    then obtain r where c: "c = 0 # r" using ne by (cases c) auto
    show ?thesis
    proof (cases "r = []")
      case True
      have "be_bytes 8 0 = replicate 8 0" using be_bytes_pad [of "[]" 8] by simp
      then have "dropWhile (\<lambda>b. b = 0) (be_bytes 8 0) = []" by (simp only: dropWhile_eq_Nil_conv) simp
      then show ?thesis using True by (simp add: c be_nat_Cons der_uint_def Let_def del: be_bytes.simps)
    next
      case False
      then have h1: "128 \<le> unat (hd r)" using m by (auto simp: minimal_uint_def c hd_conv_nth)
      then have hr: "hd r \<noteq> 0" by auto
      have br: "be_nat c = be_nat r" by (simp add: c be_nat_Cons)
      have "length r \<le> 8" by (rule be_nat_length [OF _ False hr]) (use v8 br in simp)
      then have "dropWhile (\<lambda>b. b = 0) (be_bytes 8 (be_nat c)) = r"
        using hr by (simp add: br be_bytes_pad dropWhile_zeros del: be_bytes.simps)
      then show ?thesis using False h1 by (simp add: der_uint_def Let_def c del: be_bytes.simps)
    qed
  qed
qed

text \<open>The reader of an INTEGER accepts exactly the minimal encodings.\<close>

lemma asn1_uint64_contents:
  "(c \<noteq> [] \<and> c ! 0 AND 0x80 = 0 \<and> \<not> (c ! 0 = 0 \<and> length c > 1 \<and> c ! 1 AND 0x80 = 0)) \<longleftrightarrow> minimal_uint c"
  by (auto simp: minimal_uint_def and_80_iff hd_conv_nth)

lemma get_asn1_uint64_iff:
  assumes "length cs < SIZE_LIMIT"
  shows "CBS_get_asn1_uint64 cs = (Some v, rest) \<longleftrightarrow>
    cs = der_element CBS_ASN1_INTEGER (der_uint (unat v)) @ rest"
proof
  assume "CBS_get_asn1_uint64 cs = (Some v, rest)"
  then obtain c where c: "CBS_get_asn1 CBS_ASN1_INTEGER cs = (Some c, rest)"
    and m: "minimal_uint c" and l: "asn1_uint64_loop 0 c = Some v"
    unfolding CBS_get_asn1_uint64_def
    by (elim op_bind_SomeD) (auto simp: Let_def op_fail_def op_return_def asn1_uint64_contents [symmetric]
        split: if_splits option.splits)
  have lt: "be_nat c < 2 ^ 64" and v: "v = word_of_nat (be_nat c)"
    using l by (auto simp: asn1_uint64_loop_0 split: if_splits)
  have "unat v = be_nat c" using lt by (simp add: v unat_of_nat)
  then show "cs = der_element CBS_ASN1_INTEGER (der_uint (unat v)) @ rest"
    using c minimal_der_uint [OF m lt] by (simp add: get_asn1_iff [OF assms])
next
  assume cs: "cs = der_element CBS_ASN1_INTEGER (der_uint (unat v)) @ rest"
  define c where "c = der_uint (unat v)"
  have "length c < 2 ^ 32" using length_der_uint [of "unat v"] by (simp add: c_def)
  with cs have g: "CBS_get_asn1 CBS_ASN1_INTEGER cs = (Some c, rest)"
    unfolding get_asn1_iff [OF assms] c_def by blast
  have m: "minimal_uint c" unfolding c_def by (rule der_uint_minimal)
  have n: "be_nat c = unat v"
    unfolding c_def using unsigned_less [of v, where 'a = nat] by (intro be_nat_der_uint) simp
  have "asn1_uint64_loop 0 c = Some v"
    using unsigned_less [of v, where 'a = nat] by (simp add: asn1_uint64_loop_0 n)
  with m [folded asn1_uint64_contents] show "CBS_get_asn1_uint64 cs = (Some v, rest)"
    by (auto simp: CBS_get_asn1_uint64_def op_bind_def g Let_def op_return_def)
qed

lemma get_asn1_bool_iff:
  assumes "length cs < SIZE_LIMIT"
  shows "CBS_get_asn1_bool cs = (Some v, rest) \<longleftrightarrow>
    cs = der_element CBS_ASN1_BOOLEAN (der_bool v) @ rest"
proof
  assume "CBS_get_asn1_bool cs = (Some v, rest)"
  then obtain c where c: "CBS_get_asn1 CBS_ASN1_BOOLEAN cs = (Some c, rest)"
    and l: "length c = 1" and b: "c ! 0 = 0 \<or> c ! 0 = 0xff" and v: "v = (c ! 0 \<noteq> 0)"
    unfolding CBS_get_asn1_bool_def
    by (elim op_bind_SomeD) (auto simp: Let_def op_fail_def op_return_def CBS_len_def split: if_splits)
  have "c = der_bool v" using l b v by (cases c) (auto simp: der_bool_def)
  then show "cs = der_element CBS_ASN1_BOOLEAN (der_bool v) @ rest"
    using c by (simp add: get_asn1_iff [OF assms])
next
  assume cs: "cs = der_element CBS_ASN1_BOOLEAN (der_bool v) @ rest"
  then have g: "CBS_get_asn1 CBS_ASN1_BOOLEAN cs = (Some (der_bool v), rest)"
    unfolding get_asn1_iff [OF assms] by (simp add: der_bool_def)
  then show "CBS_get_asn1_bool cs = (Some v, rest)"
    by (simp add: CBS_get_asn1_bool_def op_bind_def Let_def op_return_def CBS_len_def der_bool_def)
qed

section \<open>Building and reading\<close>

text \<open>A client that initialises a builder, makes its calls and takes the result.\<close>

definition build :: "allocator \<Rightarrow> nat \<Rightarrow> item list \<Rightarrow> bytes option" where
  "build al cap is =
     (case CBB_init al cap of
        None \<Rightarrow> None
      | Some s \<Rightarrow>
          (case op_bind (run_items al 0 is) (\<lambda>_. CBB_finish al 0 True True) s of
             (None, _) \<Rightarrow> None
           | (Some (buf, n), _) \<Rightarrow> Some (take n buf)))"

lemma CBB_init_inv:
  assumes al: "alloc_bounded al" and cap: "cap < 2 ^ 62" and i: "CBB_init al cap = Some s"
  shows "cbb_at 0 s []" "\<exists>b. cbb_base s = Some b \<and> cb_can_resize b"
proof -
  have lim: "cap + 8 < SIZE_LIMIT" using cap by simp
  from i obtain buf where "length buf = cap" and s: "cbb_init al buf cap = Some s"
    using length_OPENSSL_malloc [OF _ lim, of al]
    by (auto simp: CBB_init_def split: option.splits if_splits)
  then show "cbb_at 0 s []" "\<exists>b. cbb_base s = Some b \<and> cb_can_resize b"
    using cap by (auto simp: cbb_init_def cbb_at_def cbb_inv_def buf_ok_def cb_out_def cbb_pos_def
        fr_end_def split: option.splits)
qed

lemma CBB_init_total: "alloc_total al \<Longrightarrow> cap < 2 ^ 61 \<Longrightarrow> CBB_init al cap \<noteq> None"
proof -
  assume al: "alloc_total al" and cap: "cap < 2 ^ 61"
  have m: "OPENSSL_malloc al n \<noteq> None" if "n < 2 ^ 61" for n
  proof -
    have "sz (n + 8) = n + 8" using that by (intro sz_id) simp
    moreover have "n + 8 < 2 ^ 62" using that by simp
    then have "al (n + 8) \<noteq> None" using al unfolding alloc_total_def by blast
    ultimately show ?thesis by (auto simp: OPENSSL_malloc_def)
  qed
  from m [OF cap] m [of 32] show ?thesis
    by (auto simp: CBB_init_def cbb_init_def)
qed

lemma CBB_finish_eq:
  assumes inv: "cbb_inv 0 s" and al: "alloc_bounded al"
    and r: "CBB_finish al 0 True True s = (Some (buf, n), s')"
  shows "cbb_val 0 s = Some (take n buf)" "cbb_base s' = None" "n \<le> length buf"
proof -
  from r obtain t where t: "CBB_flush al 0 s = (Some (), t)"
    and b: "\<exists>b. cbb_base t = Some b \<and> buf = cb_buf b \<and> n = cb_len b" and "cbb_base s' = None"
    by (auto simp: CBB_finish_def on_base_def CBB_cleanup_def elim!: op_bind_SomeD
        split: option.splits if_splits)
  from CBB_flush_ok [OF inv al t] b show "cbb_val 0 s = Some (take n buf)" "n \<le> length buf"
    by (auto simp: cbb_at_def cb_out_def cbb_inv_def buf_ok_def)
  show "cbb_base s' = None" by fact
qed

lemma CBB_finish_succeeds:
  assumes inv: "cbb_inv 0 s" and al: "alloc_bounded al" and v: "cbb_val 0 s = Some out"
    and h: "cbb_holds al s (length out)"
  shows "\<exists>buf n s'. CBB_finish al 0 True True s = (Some (buf, n), s')"
proof -
  from CBB_flush_succeeds [OF inv al v h] obtain t where t: "CBB_flush al 0 s = (Some (), t)" by blast
  from CBB_flush_ok [OF inv al t] obtain b where "cbb_base t = Some b" by (auto simp: cbb_at_def)
  then show ?thesis using t by (simp add: CBB_finish_def op_bind_def on_base_def)
qed

lemma build_sound:
  assumes al: "alloc_bounded al" and cap: "cap < 2 ^ 62" and ok: "list_all item_ok is"
    and r: "build al cap is = Some e"
  shows "encode_items is = Some e"
proof -
  from r obtain s buf n s2 where i: "CBB_init al cap = Some s"
    and f: "op_bind (run_items al 0 is) (\<lambda>_. CBB_finish al 0 True True) s = (Some (buf, n), s2)"
    and e: "e = take n buf" by (auto simp: build_def split: option.splits prod.splits)
  from f obtain u s1 where a: "run_items al 0 is s = (Some u, s1)"
    and b: "CBB_finish al 0 True True s1 = (Some (buf, n), s2)" by (rule op_bind_SomeD)
  note at = CBB_init_inv(1) [OF al cap i]
  have x: "cbb_extends 0 s s1 (encode_items is)"
    by (rule run_items_ext(2) [OF cbb_at_inv [OF at] al ok a])
  then have inv: "cbb_inv 0 s1" by (simp add: cbb_extends_def)
  from CBB_finish_eq(1) [OF inv al b] x cbb_at_val [OF at] show ?thesis
    by (simp add: cbb_extends_def e)
qed

lemma build_complete:
  assumes al: "alloc_bounded al" "alloc_total al" and cap: "cap < 2 ^ 61" and ok: "list_all item_ok is"
    and e: "encode_items is = Some e" "length e < 2 ^ 60"
  shows "build al cap is = Some e"
proof -
  from CBB_init_total [OF al(2) cap] obtain s where i: "CBB_init al cap = Some s" by auto
  have cap62: "cap < 2 ^ 62" using cap by simp
  note init = CBB_init_inv [OF al(1) cap62 i]
  have h: "cbb_holds al s (length e)"
    using init(2) al(2) e(2) by (auto simp: cbb_holds_def can_hold_def)
  have "cbb_room al 0 s (length e)" by (rule cbb_room_holds [OF init(1)]) (use h in simp)
  from run_items_succeeds(2) [OF cbb_at_inv [OF init(1)] al(1) ok e(1) this] obtain s1
    where a: "run_items al 0 is s = (Some (), s1)" by blast
  have x: "cbb_extends 0 s s1 (Some e)"
    using run_items_ext(2) [OF cbb_at_inv [OF init(1)] al(1) ok a] e(1) by simp
  then have inv: "cbb_inv 0 s1" and v: "cbb_val 0 s1 = Some e" and k: "cbb_keeps 0 s s1"
    using cbb_at_val [OF init(1)] by (auto simp: cbb_extends_def)
  from CBB_finish_succeeds [OF inv al(1) v cbb_keeps_holds [OF k h]] obtain buf n s2
    where b: "CBB_finish al 0 True True s1 = (Some (buf, n), s2)" by blast
  with a i have "build al cap is = Some (take n buf)" by (simp add: build_def op_bind_Some)
  with build_sound [OF al(1) cap62 ok this] e(1) show ?thesis by simp
qed

end
