(* ===== verification/Oid.thy ===== *)
theory Oid
  imports Asn1
begin

text \<open>
  Object identifiers: \<open>CBB_add_asn1_oid_from_text\<close> (cbb.c) writes the contents of an OID
  given in dotted decimal, \<open>CBS_asn1_oid_to_text\<close> (cbs.c) prints them. The specification
  of both is the list of the OID's components.
\<close>

section \<open>Dotted decimal\<close>

text \<open>The loop of \<open>parse_dotted_decimal\<close>; \<open>seen\<close> is \<open>seen_digit\<close>.\<close>

fun dotted_loop :: "u64 \<Rightarrow> bool \<Rightarrow> (cbs, u64) op" where
  "dotted_loop out seen [] = (if seen then Some out else None, [])"
| "dotted_loop out seen (u # cs) =
     (if u = 0x2e \<and> cs \<noteq> [] then (if seen then Some out else None, cs)
      else if u < 0x30 \<or> u > 0x39 \<or> (seen \<and> out = 0) \<or> out > (-1) div 10 \<or>
              out * 10 > (-1) - (ucast u - 0x30) then (None, cs)
      else dotted_loop (out * 10 + (ucast u - 0x30)) True cs)"

definition parse_dotted_decimal :: "(cbs, u64) op" where
  "parse_dotted_decimal = dotted_loop 0 False"

lemma dotted_loop_length: "dotted_loop out seen cs = (Some v, cs') \<Longrightarrow> length cs' \<le> length cs"
  by (induction out seen cs rule: dotted_loop.induct) (auto split: if_splits)

lemma parse_dotted_decimal_length: "parse_dotted_decimal cs = (Some v, cs') \<Longrightarrow> length cs' < length cs"
  by (cases cs) (auto simp: parse_dotted_decimal_def split: if_splits dest: dotted_loop_length)

text \<open>The components after the second.\<close>

function oid_rest :: "allocator \<Rightarrow> nat \<Rightarrow> bytes \<Rightarrow> (cbb, unit) op" where
  "oid_rest al d cs =
     (if cs = [] then op_return ()
      else (case parse_dotted_decimal cs of
              (None, _) \<Rightarrow> op_fail
            | (Some a, cs') \<Rightarrow> op_bind (add_base128_integer al d a) (\<lambda>_. oid_rest al d cs')))"
  by pat_completeness auto
termination
  by (relation "measure (\<lambda>(al, d, cs). length cs)") (auto dest: parse_dotted_decimal_length [OF sym])

declare oid_rest.simps [simp del]

definition CBB_add_asn1_oid_from_text :: "allocator \<Rightarrow> nat \<Rightarrow> bytes \<Rightarrow> nat \<Rightarrow> (cbb, unit) op" where
  "CBB_add_asn1_oid_from_text al d text len =
     op_bind (CBB_flush al d) (\<lambda>_.
       case parse_dotted_decimal (CBS_init text len) of
         (None, _) \<Rightarrow> op_fail
       | (Some a, cs) \<Rightarrow>
           (case parse_dotted_decimal cs of
              (None, _) \<Rightarrow> op_fail
            | (Some b, cs') \<Rightarrow>
                if a > 2 \<or> (a < 2 \<and> b > 39) \<or> b > (-1) - 80 then op_fail
                else op_bind (add_base128_integer al d (40 * a + b)) (\<lambda>_. oid_rest al d cs')))"

section \<open>Printing\<close>

text \<open>The digits \<open>%llu\<close> prints.\<close>

fun decimal :: "nat \<Rightarrow> bytes" where
  "decimal n = (if n < 10 then [word_of_nat (48 + n)] else decimal (n div 10) @ [word_of_nat (48 + n mod 10)])"

declare decimal.simps [simp del]

definition add_decimal :: "allocator \<Rightarrow> nat \<Rightarrow> u64 \<Rightarrow> (cbb, unit) op" where
  "add_decimal al d v = CBB_add_bytes al d (decimal (unat v))"

lemma parse_base128_length: "parse_base128_integer cs = (Some v, cs') \<Longrightarrow> length cs' < length cs"
proof -
  have l: "parse_base128_loop u cs = (Some v, cs') \<Longrightarrow> length cs' < length cs" for u
    by (induction u cs rule: parse_base128_loop.induct)
      (auto simp: Let_def split: if_splits)
  then show "parse_base128_integer cs = (Some v, cs') \<Longrightarrow> length cs' < length cs"
    by (simp add: parse_base128_integer_def)
qed

function oid_text_rest :: "allocator \<Rightarrow> bytes \<Rightarrow> (cbb, unit) op" where
  "oid_text_rest al cs =
     (if cs = [] then op_return ()
      else (case parse_base128_integer cs of
              (None, _) \<Rightarrow> op_fail
            | (Some v, cs') \<Rightarrow>
                op_bind (CBB_add_u8 al 0 0x2e) (\<lambda>_.
                  op_bind (add_decimal al 0 v) (\<lambda>_. oid_text_rest al cs'))))"
  by pat_completeness auto
termination
  by (relation "measure (\<lambda>(al, cs). length cs)") (auto dest: parse_base128_length [OF sym])

declare oid_text_rest.simps [simp del]

definition oid_to_text_body :: "allocator \<Rightarrow> cbs \<Rightarrow> (cbb, bytes \<times> nat) op" where
  "oid_to_text_body al cs =
     (case parse_base128_integer cs of
        (None, _) \<Rightarrow> op_fail
      | (Some v, copy) \<Rightarrow>
          op_bind
            (if v \<ge> 80 then
               op_bind (CBB_add_bytes al 0 [0x32, 0x2e]) (\<lambda>_. add_decimal al 0 (v - 80))
             else
               op_bind (add_decimal al 0 (v div 40)) (\<lambda>_.
                 op_bind (CBB_add_u8 al 0 0x2e) (\<lambda>_. add_decimal al 0 (v mod 40)))) (\<lambda>_.
            op_bind (oid_text_rest al copy) (\<lambda>_.
              op_bind (CBB_add_u8 al 0 0) (\<lambda>_. CBB_finish al 0 True True))))"

definition CBS_asn1_oid_to_text :: "allocator \<Rightarrow> cbs \<Rightarrow> bytes option" where
  "CBS_asn1_oid_to_text al cs =
     (case CBB_init al 32 of
        None \<Rightarrow> None
      | Some cbb \<Rightarrow>
          (case oid_to_text_body al cs cbb of
             (None, _) \<Rightarrow> None
           | (Some (txt, txt_len), _) \<Rightarrow> Some (take txt_len txt)))"

section \<open>Decimal numbers\<close>

lemma decimal_digit: "n < 10 \<Longrightarrow> decimal n = [word_of_nat (48 + n)]"
  by (simp add: decimal.simps)

lemma decimal_step: "10 \<le> n \<Longrightarrow> decimal n = decimal (n div 10) @ [word_of_nat (48 + n mod 10)]"
  by (subst decimal.simps) simp

lemma decimal_ne [simp]: "decimal n \<noteq> []"
  by (subst decimal.simps) simp

lemma unat_max_u64: "unat (-1 :: u64) = 2 ^ 64 - 1"
  by (simp add: unsigned_minus_1_eq_mask mask_eq_exp_minus_1)

lemma unat_max_div: "unat ((-1 :: u64) div 10) = (2 ^ 64 - 1) div 10"
  by (simp add: unat_div unat_max_u64)

lemma digit_unat:
  assumes "0x30 \<le> u" "u \<le> (0x39 :: u8)"
  shows "unat (ucast u - 0x30 :: u64) = unat u - 48" "48 \<le> unat u" "unat u \<le> 57"
proof -
  show l: "48 \<le> unat u" "unat u \<le> 57" using assms by (simp_all add: word_le_nat_alt)
  have "unat (0x30 :: u64) \<le> unat (ucast u :: u64)" using l by (simp add: unat_ucast_up)
  then have "(0x30 :: u64) \<le> ucast u" by (simp only: word_le_nat_alt)
  then show "unat (ucast u - 0x30 :: u64) = unat u - 48"
    by (simp add: unat_sub unat_ucast_up)
qed

text \<open>The overflow tests are exact: the number so far and the next digit fit in 64 bits.\<close>

lemma dotted_overflow:
  fixes out :: u64
  assumes "0x30 \<le> u" "u \<le> (0x39 :: u8)"
  shows "\<not> (out > (-1) div 10 \<or> out * 10 > (-1) - (ucast u - 0x30)) \<longleftrightarrow>
      unat out * 10 + (unat u - 48) < 2 ^ 64"
    and "unat out * 10 + (unat u - 48) < 2 ^ 64 \<Longrightarrow>
      unat (out * 10 + (ucast u - 0x30)) = unat out * 10 + (unat u - 48)"
proof -
  note du = digit_unat [OF assms]
  define x where "x = (ucast u - 0x30 :: u64)"
  have x: "unat x = unat u - 48" "unat x \<le> 9" using du by (auto simp: x_def)
  have m: "unat (-1 - x) = 2 ^ 64 - 1 - unat x"
    by (simp add: unat_sub word_order.extremum unat_max_u64)
  show "\<not> (out > (-1) div 10 \<or> out * 10 > (-1) - (ucast u - 0x30)) \<longleftrightarrow>
      unat out * 10 + (unat u - 48) < 2 ^ 64"
  proof (cases "unat out \<le> (2 ^ 64 - 1) div 10")
    case False
    then show ?thesis
      unfolding x_def [symmetric] x(1) [symmetric]
      by (simp only: word_less_nat_alt unat_max_div m) simp
  next
    case True
    then have o: "unat (out * 10) = unat out * 10"
      by (simp add: unat_word_ariths)
    show ?thesis
      unfolding x_def [symmetric] x(1) [symmetric]
      using True x(2) by (simp only: word_less_nat_alt unat_max_div m o) (simp, linarith)
  qed
  assume "unat out * 10 + (unat u - 48) < 2 ^ 64"
  then show "unat (out * 10 + (ucast u - 0x30)) = unat out * 10 + (unat u - 48)"
    unfolding x_def [symmetric] x(1) [symmetric] by (simp add: unat_word_ariths mod_simps)
qed

lemma dotted_loop_digit:
  assumes "0x30 \<le> u" "u \<le> (0x39 :: u8)" "\<not> (seen \<and> out = 0)" "unat out * 10 + (unat u - 48) < 2 ^ 64"
  shows "dotted_loop out seen (u # cs) = dotted_loop (word_of_nat (unat out * 10 + (unat u - 48))) True cs"
proof -
  have "u \<noteq> 0x2e" using assms(1) by auto
  moreover have "out * 10 + (ucast u - 0x30) = word_of_nat (unat out * 10 + (unat u - 48))"
    by (rule word_eq_of_nat) (rule dotted_overflow(2) [OF assms(1,2,4)])
  moreover have "\<not> (u < 0x30 \<or> u > 0x39 \<or> (seen \<and> out = 0) \<or> out > (-1) div 10 \<or>
      out * 10 > (-1) - (ucast u - 0x30))"
    using assms(1-3) iffD2 [OF dotted_overflow(1) [OF assms(1,2)] assms(4)]
    unfolding not_less [symmetric] by blast
  ultimately show ?thesis by (simp only: dotted_loop.simps simp_thms if_False)
qed

lemma digit_byte_range:
  assumes "d < 10"
  shows "0x30 \<le> (word_of_nat (48 + d) :: u8)" "(word_of_nat (48 + d) :: u8) \<le> 0x39"
    "unat (word_of_nat (48 + d) :: u8) = 48 + d"
proof -
  show u: "unat (word_of_nat (48 + d) :: u8) = 48 + d" using assms by (simp only: unat_byte_of_nat) simp
  show "0x30 \<le> (word_of_nat (48 + d) :: u8)" "(word_of_nat (48 + d) :: u8) \<le> 0x39"
    unfolding word_le_nat_alt u using assms by simp_all
qed

lemma dotted_loop_decimal:
  "n < 2 ^ 64 \<Longrightarrow> dotted_loop 0 False (decimal n @ r) = dotted_loop (word_of_nat n) True r"
proof (induction n arbitrary: r rule: less_induct)
  case (less n)
  show ?case
  proof (cases "n < 10")
    case True
    then show ?thesis
      using dotted_loop_digit [OF digit_byte_range(1,2) [OF True], of False 0 r] digit_byte_range(3) [OF True]
      by (simp only: decimal_digit append_Cons append_Nil) simp
  next
    case False
    define m d where "m = n div 10" and "d = n mod 10"
    have d: "d < 10" and n: "n = m * 10 + d" by (simp_all add: m_def d_def)
    have m: "m < n" "m < 2 ^ 64" "0 < m" using False less.prems by (auto simp: m_def)
    have um: "unat (word_of_nat m :: u64) = m" using m by (simp add: unat_of_nat)
    have "dotted_loop 0 False (decimal n @ r) = dotted_loop 0 False (decimal m @ word_of_nat (48 + d) # r)"
      using False decimal_step [of n] by (simp only: m_def d_def) simp
    also have "\<dots> = dotted_loop (word_of_nat m) True (word_of_nat (48 + d) # r)"
      by (rule less.IH [OF m(1,2)])
    also have "\<dots> = dotted_loop (word_of_nat (m * 10 + d)) True r"
    proof -
      have "(word_of_nat m :: u64) \<noteq> 0" using um m(3) by (metis unat_0 less_irrefl)
      then show ?thesis
        using dotted_loop_digit [OF digit_byte_range(1,2) [OF d], of True "word_of_nat m" r]
          digit_byte_range(3) [OF d] um less.prems n by (simp del: of_nat_add of_nat_mult)
    qed
    finally show ?thesis using n by simp
  qed
qed

text \<open>What follows a component: nothing, or a dot and something.\<close>

definition dot_tail :: "bytes \<Rightarrow> bytes" where
  "dot_tail r = (if r = [] then [] else 0x2e # r)"

lemma parse_dotted_decimal_complete:
  "n < 2 ^ 64 \<Longrightarrow> parse_dotted_decimal (decimal n @ dot_tail r) = (Some (word_of_nat n), r)"
  by (simp add: parse_dotted_decimal_def dotted_loop_decimal dot_tail_def)

lemma decimal_snoc:
  assumes "0 < m" "d < 10"
  shows "decimal m @ [word_of_nat (48 + d)] = decimal (m * 10 + d)"
proof -
  have "10 \<le> m * 10 + d" "(m * 10 + d) div 10 = m" "(m * 10 + d) mod 10 = d" using assms by auto
  then show ?thesis by (simp only: decimal_step)
qed

lemma dotted_loop_sound:
  "dotted_loop out seen cs = (Some v, r) \<Longrightarrow>
   (if seen then decimal (unat out) else []) @ cs = decimal (unat v) @ dot_tail r \<or> (\<not> seen \<and> out \<noteq> 0)"
proof (induction out seen cs rule: dotted_loop.induct)
  case (1 out seen)
  then show ?case by (auto simp: dot_tail_def split: if_splits)
next
  case (2 out seen u cs)
  show ?case
  proof (cases "u = 0x2e \<and> cs \<noteq> []")
    case True
    then show ?thesis using "2.prems" by (auto simp: dot_tail_def split: if_splits)
  next
    case False
    then have ok: "0x30 \<le> u" "u \<le> 0x39" "\<not> (seen \<and> out = 0)"
      "\<not> (out > (-1) div 10 \<or> out * 10 > (-1) - (ucast u - 0x30))"
      and r: "dotted_loop (out * 10 + (ucast u - 0x30)) True cs = (Some v, r)"
      using "2.prems" by (auto simp only: dotted_loop.simps not_less not_le de_Morgan_disj
          split: if_splits)
    note fits = dotted_overflow [OF ok(1,2), of out]
    note du = digit_unat [OF ok(1,2)]
    have n: "unat (out * 10 + (ucast u - 0x30)) = unat out * 10 + (unat u - 48)"
      using fits ok(4) by blast
    have IH: "decimal (unat out * 10 + (unat u - 48)) @ cs = decimal (unat v) @ dot_tail r"
      using "2.IH" [OF False _ r] ok n by (simp add: not_less)
    have u: "u = word_of_nat (48 + (unat u - 48))" using du(2) by simp
    show ?thesis
    proof (cases "seen")
      case True
      then have "0 < unat out" using ok(3) by (simp add: unat_gt_0)
      from decimal_snoc [OF this, of "unat u - 48"] u du(3)
      have "decimal (unat out) @ [u] = decimal (unat out * 10 + (unat u - 48))" by simp
      then have "decimal (unat out) @ u # cs = decimal (unat out * 10 + (unat u - 48)) @ cs"
        by (metis append.assoc append_Cons append_Nil)
      then show ?thesis using True IH by simp
    next
      case False
      have "out = 0 \<Longrightarrow> decimal (unat out * 10 + (unat u - 48)) = [u]"
        using decimal_digit [of "unat u - 48"] u du(3) by simp
      then show ?thesis using False IH by auto
    qed
  qed
qed

lemma parse_dotted_decimal_sound:
  "parse_dotted_decimal cs = (Some v, r) \<Longrightarrow> cs = decimal (unat v) @ dot_tail r"
  using dotted_loop_sound [of 0 False cs v r] by (simp add: parse_dotted_decimal_def)

section \<open>The specification\<close>

fun dotted :: "nat list \<Rightarrow> bytes" where
  "dotted [] = []"
| "dotted (n # ns) = decimal n @ dot_tail (dotted ns)"

fun oid_der :: "nat list \<Rightarrow> bytes" where
  "oid_der (a # b # ns) = base128 (40 * a + b) @ concat (map base128 ns)"
| "oid_der _ = []"

fun oid_valid :: "nat list \<Rightarrow> bool" where
  "oid_valid (a # b # ns) \<longleftrightarrow>
     a \<le> 2 \<and> (a < 2 \<longrightarrow> b \<le> 39) \<and> b + 80 < 2 ^ 64 \<and> list_all (\<lambda>n. n < 2 ^ 64) ns"
| "oid_valid _ \<longleftrightarrow> False"

lemma dotted_eq_Nil [simp]: "dotted ns = [] \<longleftrightarrow> ns = []"
  by (cases ns) auto

section \<open>From text\<close>

lemma cbb_appends_refl: "cbb_at d s out \<Longrightarrow> cbb_appends d s s []"
  by (auto simp: cbb_appends_def dest: cbb_at_val cbb_at_inv intro: cbb_keeps_refl)

lemma cbb_appends_at2: "cbb_appends d s t c \<Longrightarrow> \<exists>out. cbb_at d t out"
  by (auto simp: cbb_appends_def)

lemma oid_rest_ok:
  "cbb_at d s out \<Longrightarrow> alloc_bounded al \<Longrightarrow> oid_rest al d cs s = (Some u, s') \<Longrightarrow>
   \<exists>ns. cs = dotted ns \<and> list_all (\<lambda>n. n < 2 ^ 64) ns \<and> cbb_appends d s s' (concat (map base128 ns))"
proof (induction al d cs arbitrary: s out rule: oid_rest.induct)
  case (1 al d cs)
  show ?case
  proof (cases "cs = []")
    case True
    then have "s' = s" using "1.prems"(3) by (simp add: oid_rest.simps op_return_def)
    then show ?thesis
      using True cbb_appends_refl [OF "1.prems"(1)] by (intro exI [of _ "[]"]) simp
  next
    case False
    obtain a cs' where p: "parse_dotted_decimal cs = (Some a, cs')"
      and b: "op_bind (add_base128_integer al d a) (\<lambda>_. oid_rest al d cs') s = (Some u, s')"
      using "1.prems"(3) False
      by (subst (asm) oid_rest.simps) (auto simp: op_fail_def split: prod.splits option.splits)
    from b obtain v t where t: "add_base128_integer al d a s = (Some v, t)"
      and r: "oid_rest al d cs' t = (Some u, s')" by (rule op_bind_SomeD)
    have ap: "cbb_appends d s t (base128 (unat a))"
      by (rule add_base128_integer_ok [OF cbb_at_inv [OF "1.prems"(1)] "1.prems"(2) t])
    from cbb_appends_at2 [OF ap] obtain o2 where at: "cbb_at d t o2" by blast
    from "1.IH" [OF False p [symmetric] refl at "1.prems"(2) r] obtain ns where
      ns: "cs' = dotted ns" "list_all (\<lambda>n. n < 2 ^ 64) ns"
        "cbb_appends d t s' (concat (map base128 ns))" by blast
    have "unat a < 2 ^ 64" using unsigned_less [of a, where 'a = nat] by simp
    then show ?thesis
      using ns parse_dotted_decimal_sound [OF p] cbb_appends_trans [OF ap ns(3)]
      by (intro exI [of _ "unat a # ns"]) simp
  qed
qed

lemma oid_rest_succeeds:
  "cbb_at d s out \<Longrightarrow> alloc_bounded al \<Longrightarrow> list_all (\<lambda>n. n < 2 ^ 64) ns \<Longrightarrow>
   cbb_room al d s (length (concat (map base128 ns))) \<Longrightarrow>
   \<exists>s'. oid_rest al d (dotted ns) s = (Some (), s')"
proof (induction ns arbitrary: s out)
  case Nil
  then show ?case by (simp add: oid_rest.simps op_return_def)
next
  case (Cons n ns)
  have n: "n < 2 ^ 64" "unat (word_of_nat n :: u64) = n" using Cons.prems(3) by (auto simp: unat_of_nat)
  have h: "cbb_room al d s (length (base128 (unat (word_of_nat n :: u64))))"
    by (rule cbb_room_mono [OF Cons.prems(4)]) (simp add: n)
  from add_base128_integer_succeeds [OF cbb_at_inv [OF Cons.prems(1)] Cons.prems(2) h]
  obtain t where t: "add_base128_integer al d (word_of_nat n) s = (Some (), t)" by blast
  have ap: "cbb_appends d s t (base128 n)"
    using add_base128_integer_ok [OF cbb_at_inv [OF Cons.prems(1)] Cons.prems(2) t] n by simp
  from cbb_appends_at2 [OF ap] obtain o2 where at: "cbb_at d t o2" by blast
  have "cbb_room al d t (length (concat (map base128 ns)))"
    by (rule cbb_appends_room [OF ap]) (use Cons.prems(4) in simp)
  from Cons.IH [OF at Cons.prems(2) _ this] Cons.prems(3) obtain s'
    where "oid_rest al d (dotted ns) t = (Some (), s')" by auto
  then show ?case
    using t parse_dotted_decimal_complete [OF n(1)]
    by (subst oid_rest.simps) (simp add: op_bind_Some)
qed

lemma oid_first_fits:
  assumes "a \<le> 2" "b + 80 < 2 ^ 64"
  shows "unat (40 * word_of_nat a + word_of_nat b :: u64) = 40 * a + b"
proof -
  have "40 * a + b < 2 ^ 64" using assms by simp
  moreover have "40 * word_of_nat a + word_of_nat b = (word_of_nat (40 * a + b) :: u64)" by simp
  ultimately show ?thesis by (simp only: unat_of_nat) simp
qed

lemma oid_first_ok:
  fixes a b :: u64
  shows "\<not> (a > 2 \<or> (a < 2 \<and> b > 39) \<or> b > (-1) - 80) \<longleftrightarrow>
    unat a \<le> 2 \<and> (unat a < 2 \<longrightarrow> unat b \<le> 39) \<and> unat b + 80 < 2 ^ 64"
proof -
  have m: "unat ((-1) - 80 :: u64) = 2 ^ 64 - 81" by simp
  show ?thesis by (simp only: word_less_nat_alt m) (simp, linarith)
qed

lemma CBB_add_asn1_oid_from_text_ok:
  assumes inv: "cbb_inv d s" and al: "alloc_bounded al"
    and r: "CBB_add_asn1_oid_from_text al d text len s = (Some u, s')"
  shows "\<exists>ns. oid_valid ns \<and> take len text = dotted ns \<and> cbb_appends d s s' (oid_der ns)"
proof -
  from r [unfolded CBB_add_asn1_oid_from_text_def] obtain v t where t: "CBB_flush al d s = (Some v, t)"
    and r1: "(case parse_dotted_decimal (CBS_init text len) of
         (None, _) \<Rightarrow> op_fail
       | (Some a, cs) \<Rightarrow>
           (case parse_dotted_decimal cs of
              (None, _) \<Rightarrow> op_fail
            | (Some b, cs') \<Rightarrow>
                if a > 2 \<or> (a < 2 \<and> b > 39) \<or> b > (-1) - 80 then op_fail
                else op_bind (add_base128_integer al d (40 * a + b)) (\<lambda>_. oid_rest al d cs'))) t
        = (Some u, s')"
    by (rule op_bind_SomeD)
  from CBB_flush_ok [OF inv al t] obtain out where o: "cbb_val d s = Some out" "cbb_at d t out"
    "cbb_keeps d s t" by blast
  from r1 obtain a cs b cs' where a: "parse_dotted_decimal (CBS_init text len) = (Some a, cs)"
    and b: "parse_dotted_decimal cs = (Some b, cs')"
    and ok: "\<not> (a > 2 \<or> (a < 2 \<and> b > 39) \<or> b > (-1) - 80)"
    and r2: "op_bind (add_base128_integer al d (40 * a + b)) (\<lambda>_. oid_rest al d cs') t = (Some u, s')"
    by (auto simp only: op_fail_def split: prod.splits option.splits if_splits)
  from r2 obtain v2 w where w: "add_base128_integer al d (40 * a + b) t = (Some v2, w)"
    and x: "oid_rest al d cs' w = (Some u, s')" by (rule op_bind_SomeD)
  note ok2 = ok [unfolded oid_first_ok]
  have u: "unat (40 * a + b) = 40 * unat a + unat b"
    using oid_first_fits [of "unat a" "unat b"] ok2 by simp
  have ap: "cbb_appends d t w (base128 (40 * unat a + unat b))"
    using add_base128_integer_ok [OF cbb_at_inv [OF o(2)] al w] u by simp
  from cbb_appends_at2 [OF ap] obtain o2 where at: "cbb_at d w o2" by blast
  from oid_rest_ok [OF at al x] obtain ns where ns: "cs' = dotted ns"
    "list_all (\<lambda>n. n < 2 ^ 64) ns" "cbb_appends d w s' (concat (map base128 ns))" by blast
  have "take len text = decimal (unat a) @ dot_tail (decimal (unat b) @ dot_tail (dotted ns))"
    using parse_dotted_decimal_sound [OF a] parse_dotted_decimal_sound [OF b] ns(1)
    by (simp add: CBS_init_def)
  moreover have "cbb_appends d s t []" using o by (auto simp: cbb_appends_def)
  from cbb_appends_trans [OF this cbb_appends_trans [OF ap ns(3)]]
  have "cbb_appends d s s' (oid_der (unat a # unat b # ns))" by simp
  ultimately show ?thesis
    using ok2 ns(2) by (intro exI [of _ "unat a # unat b # ns"]) simp
qed

lemma CBB_add_asn1_oid_from_text_succeeds:
  assumes inv: "cbb_inv d s" and al: "alloc_bounded al" and v: "oid_valid ns"
    and tx: "take len text = dotted ns" and h: "cbb_room al d s (length (oid_der ns))"
  shows "\<exists>s'. CBB_add_asn1_oid_from_text al d text len s = (Some (), s')"
proof -
  from v obtain a b ms where ns: "ns = a # b # ms" and ok: "a \<le> 2" "a < 2 \<longrightarrow> b \<le> 39"
    "b + 80 < 2 ^ 64" "list_all (\<lambda>n. n < 2 ^ 64) ms" by (cases ns rule: oid_valid.cases) auto
  have ub: "unat (word_of_nat a :: u64) = a" "unat (word_of_nat b :: u64) = b"
    using ok by (auto simp: unat_of_nat)
  from h obtain out where val: "cbb_val d s = Some out"
    and h1: "cbb_holds al s (length out + length (oid_der ns))" by (auto simp: cbb_room_def)
  have "cbb_holds al s (length out)" by (rule cbb_holds_mono [OF h1]) simp
  from CBB_flush_succeeds [OF inv al val this] obtain t where t: "CBB_flush al d s = (Some (), t)" by blast
  from CBB_flush_ok [OF inv al t] val have o: "cbb_at d t out" "cbb_keeps d s t" by auto
  have h2: "cbb_room al d t (length (oid_der ns))"
    by (rule cbb_room_holds [OF o(1) cbb_keeps_holds [OF o(2) h1]])
  have u: "unat (40 * word_of_nat a + word_of_nat b :: u64) = 40 * a + b"
    by (rule oid_first_fits) (use ok in auto)
  have "cbb_room al d t (length (base128 (unat (40 * word_of_nat a + word_of_nat b :: u64))))"
    by (rule cbb_room_mono [OF h2]) (simp add: ns u)
  from add_base128_integer_succeeds [OF cbb_at_inv [OF o(1)] al this] obtain w
    where w: "add_base128_integer al d (40 * word_of_nat a + word_of_nat b) t = (Some (), w)" by blast
  have ap: "cbb_appends d t w (base128 (40 * a + b))"
    using add_base128_integer_ok [OF cbb_at_inv [OF o(1)] al w] u by simp
  from cbb_appends_at2 [OF ap] obtain o2 where at: "cbb_at d w o2" by blast
  have "cbb_room al d w (length (concat (map base128 ms)))"
    by (rule cbb_appends_room [OF ap]) (use h2 in \<open>simp add: ns\<close>)
  from oid_rest_succeeds [OF at al ok(4) this] obtain s'
    where x: "oid_rest al d (dotted ms) w = (Some (), s')" by blast
  have p1: "parse_dotted_decimal (CBS_init text len) = (Some (word_of_nat a), dotted (b # ms))"
    using parse_dotted_decimal_complete [of a "dotted (b # ms)"] ok(1) tx ns by (simp add: CBS_init_def)
  have p2: "parse_dotted_decimal (dotted (b # ms)) = (Some (word_of_nat b), dotted ms)"
    using parse_dotted_decimal_complete [of b "dotted ms"] ok(3) by simp
  have "\<not> ((word_of_nat a :: u64) > 2 \<or> ((word_of_nat a :: u64) < 2 \<and> (word_of_nat b :: u64) > 39)
      \<or> (word_of_nat b :: u64) > (-1) - 80)"
    unfolding oid_first_ok ub using ok by auto
  then show ?thesis
    using t w x by (simp only: CBB_add_asn1_oid_from_text_def op_bind_Some p1 p2 prod.case option.case if_False)
      blast
qed

section \<open>To text\<close>

lemma dot_tail_dotted: "dot_tail (dotted ns) = concat (map (\<lambda>n. 0x2e # decimal n) ns)"
  by (induction ns) (simp_all add: dot_tail_def)

lemma parse_base128_sound_nat:
  assumes "parse_base128_integer cs = (Some v, r)"
  shows "cs = base128 (unat v) @ r"
  using parse_base128_sound [OF assms] by simp

lemma decimal_length_le: "length (decimal (unat v)) \<le> 20" for v :: u64
proof -
  have "n < 10 ^ Suc k \<Longrightarrow> length (decimal n) \<le> Suc k" for n k
  proof (induction k arbitrary: n)
    case 0
    then show ?case by (simp add: decimal_digit)
  next
    case (Suc k)
    show ?case
    proof (cases "n < 10")
      case True
      then show ?thesis by (simp add: decimal_digit)
    next
      case False
      have "n div 10 < 10 ^ Suc k" using Suc.prems by (simp add: less_mult_imp_div_less)
      from Suc.IH [OF this] False show ?thesis by (simp add: decimal_step)
    qed
  qed
  from this [of "unat v" 19] show ?thesis using unsigned_less [of v, where 'a = nat] by simp
qed

lemma add_decimal_ok:
  assumes "cbb_at d s out" "alloc_bounded al" "add_decimal al d v s = (Some u, s')"
  shows "cbb_appends d s s' (decimal (unat v))"
proof -
  have l: "length (decimal (unat v)) < 2 ^ 62"
    by (rule le_less_trans [OF decimal_length_le]) simp
  show ?thesis
    by (rule CBB_add_bytes_ok [OF cbb_at_inv [OF assms(1)] assms(2) l assms(3) [unfolded add_decimal_def]])
qed

lemma add_decimal_succeeds:
  assumes "cbb_at d s out" "alloc_bounded al" "cbb_room al d s (length (decimal (unat v)))"
  shows "\<exists>s'. add_decimal al d v s = (Some (), s')"
proof -
  have "length (decimal (unat v)) < 2 ^ 62"
    by (rule le_less_trans [OF decimal_length_le]) simp
  then show ?thesis
    unfolding add_decimal_def using assms by (intro CBB_add_bytes_succeeds cbb_at_inv [OF assms(1)])
qed

lemma oid_text_rest_ok:
  "cbb_at 0 s out \<Longrightarrow> alloc_bounded al \<Longrightarrow> oid_text_rest al cs s = (Some u, s') \<Longrightarrow>
   \<exists>ns. cs = concat (map base128 ns) \<and> list_all (\<lambda>n. n < 2 ^ 64) ns \<and>
     cbb_appends 0 s s' (dot_tail (dotted ns))"
proof (induction al cs arbitrary: s out rule: oid_text_rest.induct)
  case (1 al cs)
  show ?case
  proof (cases "cs = []")
    case True
    then have "s' = s" using "1.prems"(3) by (simp add: oid_text_rest.simps op_return_def)
    then show ?thesis
      using True cbb_appends_refl [OF "1.prems"(1)] by (intro exI [of _ "[]"]) (simp add: dot_tail_def)
  next
    case False
    obtain v cs' where p: "parse_base128_integer cs = (Some v, cs')"
      and b: "op_bind (CBB_add_u8 al 0 0x2e) (\<lambda>_.
                  op_bind (add_decimal al 0 v) (\<lambda>_. oid_text_rest al cs')) s = (Some u, s')"
      using "1.prems"(3) False
      by (subst (asm) oid_text_rest.simps) (auto simp: op_fail_def split: prod.splits option.splits)
    from b obtain x t where t: "CBB_add_u8 al 0 0x2e s = (Some x, t)"
      and b2: "op_bind (add_decimal al 0 v) (\<lambda>_. oid_text_rest al cs') t = (Some u, s')"
      by (rule op_bind_SomeD)
    have a1: "cbb_appends 0 s t [0x2e]"
      by (rule CBB_add_u8_ok [OF cbb_at_inv [OF "1.prems"(1)] "1.prems"(2) t])
    from cbb_appends_at2 [OF a1] obtain o1 where at1: "cbb_at 0 t o1" by blast
    from b2 obtain y w where w: "add_decimal al 0 v t = (Some y, w)"
      and r: "oid_text_rest al cs' w = (Some u, s')" by (rule op_bind_SomeD)
    note a2 = add_decimal_ok [OF at1 "1.prems"(2) w]
    from cbb_appends_at2 [OF a2] obtain o2 where at2: "cbb_at 0 w o2" by blast
    from "1.IH" [OF False p [symmetric] refl at2 "1.prems"(2) r] obtain ns where
      ns: "cs' = concat (map base128 ns)" "list_all (\<lambda>n. n < 2 ^ 64) ns"
        "cbb_appends 0 w s' (dot_tail (dotted ns))" by blast
    have "unat v < 2 ^ 64" using unsigned_less [of v, where 'a = nat] by simp
    moreover have "cbb_appends 0 s s' (dot_tail (dotted (unat v # ns)))"
      using cbb_appends_trans [OF a1 cbb_appends_trans [OF a2 ns(3)]]
      by (simp add: dot_tail_dotted del: dotted.simps)
    ultimately show ?thesis
      using ns(1,2) parse_base128_sound_nat [OF p] by (intro exI [of _ "unat v # ns"]) simp
  qed
qed

lemma oid_text_rest_succeeds:
  "cbb_at 0 s out \<Longrightarrow> alloc_bounded al \<Longrightarrow> list_all (\<lambda>n. n < 2 ^ 64) ns \<Longrightarrow>
   cbb_room al 0 s (length (dot_tail (dotted ns))) \<Longrightarrow>
   \<exists>s'. oid_text_rest al (concat (map base128 ns)) s = (Some (), s')"
proof (induction ns arbitrary: s out)
  case Nil
  then show ?case by (simp add: oid_text_rest.simps op_return_def)
next
  case (Cons n ns)
  have n: "n < 2 ^ 64" "unat (word_of_nat n :: u64) = n" using Cons.prems(3) by (auto simp: unat_of_nat)
  have h: "cbb_room al 0 s (length [0x2e :: u8] + (length (decimal n) + length (dot_tail (dotted ns))))"
    using Cons.prems(4) by (simp add: dot_tail_dotted del: dotted.simps)
  have "cbb_room al 0 s 1" by (rule cbb_room_mono [OF h]) simp
  from CBB_add_u8_succeeds [OF cbb_at_inv [OF Cons.prems(1)] Cons.prems(2) this]
  obtain t where t: "CBB_add_u8 al 0 0x2e s = (Some (), t)" by blast
  note a1 = CBB_add_u8_ok [OF cbb_at_inv [OF Cons.prems(1)] Cons.prems(2) t]
  from cbb_appends_at2 [OF a1] obtain o1 where at1: "cbb_at 0 t o1" by blast
  note h1 = cbb_appends_room [OF a1 h]
  have "cbb_room al 0 t (length (decimal (unat (word_of_nat n :: u64))))"
    by (rule cbb_room_mono [OF h1]) (simp add: n)
  from add_decimal_succeeds [OF at1 Cons.prems(2) this]
  obtain w where w: "add_decimal al 0 (word_of_nat n) t = (Some (), w)" by blast
  have a2: "cbb_appends 0 t w (decimal n)"
    using add_decimal_ok [OF at1 Cons.prems(2) w] n by simp
  from cbb_appends_at2 [OF a2] obtain o2 where at2: "cbb_at 0 w o2" by blast
  from Cons.IH [OF at2 Cons.prems(2) _ cbb_appends_room [OF a2 h1]] Cons.prems(3) obtain s'
    where "oid_text_rest al (concat (map base128 ns)) w = (Some (), s')" by auto
  then show ?case
    using t w parse_base128 [OF n(1), of "concat (map base128 ns)"]
    by (subst oid_text_rest.simps) (auto simp: op_bind_Some base128_def)
qed

text \<open>The first octets stand for two components.\<close>

definition oid_first_text :: "allocator \<Rightarrow> u64 \<Rightarrow> (cbb, unit) op" where
  "oid_first_text al v =
     (if v \<ge> 80 then
        op_bind (CBB_add_bytes al 0 [0x32, 0x2e]) (\<lambda>_. add_decimal al 0 (v - 80))
      else
        op_bind (add_decimal al 0 (v div 40)) (\<lambda>_.
          op_bind (CBB_add_u8 al 0 0x2e) (\<lambda>_. add_decimal al 0 (v mod 40))))"

definition oid_split :: "nat \<Rightarrow> nat \<times> nat" where
  "oid_split v = (if 80 \<le> v then (2, v - 80) else (v div 40, v mod 40))"

lemma decimal_2: "decimal 2 = [0x32]"
  by (simp add: decimal_digit)

lemma oid_first_text_ok:
  assumes at: "cbb_at 0 s out" and al: "alloc_bounded al" and r: "oid_first_text al v s = (Some u, s')"
  shows "cbb_appends 0 s s' (case oid_split (unat v) of (a, b) \<Rightarrow> decimal a @ 0x2e # decimal b)"
proof (cases "80 \<le> unat v")
  case True
  then have w: "v \<ge> 80" by (simp add: word_le_nat_alt)
  with r obtain x t where t: "CBB_add_bytes al 0 [0x32, 0x2e] s = (Some x, t)"
    and d: "add_decimal al 0 (v - 80) t = (Some u, s')"
    by (auto simp: oid_first_text_def elim!: op_bind_SomeD)
  have a1: "cbb_appends 0 s t [0x32, 0x2e]"
    by (rule CBB_add_bytes_ok [OF cbb_at_inv [OF at] al _ t]) simp
  from cbb_appends_at2 [OF a1] obtain o1 where at1: "cbb_at 0 t o1" by blast
  from cbb_appends_trans [OF a1 add_decimal_ok [OF at1 al d]] w True show ?thesis
    by (simp add: oid_split_def unat_sub decimal_2)
next
  case False
  then have w: "\<not> v \<ge> 80" by (simp add: word_le_nat_alt)
  with r obtain x t y t2 where t: "add_decimal al 0 (v div 40) s = (Some x, t)"
    and t2: "CBB_add_u8 al 0 0x2e t = (Some y, t2)"
    and d: "add_decimal al 0 (v mod 40) t2 = (Some u, s')"
    by (auto simp: oid_first_text_def elim!: op_bind_SomeD)
  note a1 = add_decimal_ok [OF at al t]
  from cbb_appends_at2 [OF a1] obtain o1 where at1: "cbb_at 0 t o1" by blast
  note a2 = CBB_add_u8_ok [OF cbb_at_inv [OF at1] al t2]
  from cbb_appends_at2 [OF a2] obtain o2 where at2: "cbb_at 0 t2 o2" by blast
  from cbb_appends_trans [OF a1 cbb_appends_trans [OF a2 add_decimal_ok [OF at2 al d]]] False
  show ?thesis by (simp add: oid_split_def unat_div unat_mod)
qed

lemma oid_first_text_succeeds:
  assumes at: "cbb_at 0 s out" and al: "alloc_bounded al"
    and h: "cbb_room al 0 s (length (case oid_split (unat v) of (a, b) \<Rightarrow> decimal a @ 0x2e # decimal b))"
  shows "\<exists>s'. oid_first_text al v s = (Some (), s')"
proof (cases "80 \<le> unat v")
  case True
  then have w: "v \<ge> 80" by (simp add: word_le_nat_alt)
  have h1: "cbb_room al 0 s (length [0x32, 0x2e :: u8] + length (decimal (unat (v - 80))))"
    using h True w by (simp add: oid_split_def unat_sub decimal_2)
  have "cbb_room al 0 s (length [0x32, 0x2e :: u8])" by (rule cbb_room_mono [OF h1]) simp
  from CBB_add_bytes_succeeds [OF cbb_at_inv [OF at] al this] obtain t
    where t: "CBB_add_bytes al 0 [0x32, 0x2e] s = (Some (), t)" by auto
  have a1: "cbb_appends 0 s t [0x32, 0x2e]"
    by (rule CBB_add_bytes_ok [OF cbb_at_inv [OF at] al _ t]) simp
  from cbb_appends_at2 [OF a1] obtain o1 where at1: "cbb_at 0 t o1" by blast
  from add_decimal_succeeds [OF at1 al cbb_appends_room [OF a1 h1]] t w show ?thesis
    by (auto simp: oid_first_text_def op_bind_Some)
next
  case False
  then have w: "\<not> v \<ge> 80" by (simp add: word_le_nat_alt)
  have h1: "cbb_room al 0 s (length (decimal (unat (v div 40))) +
      (length [0x2e :: u8] + length (decimal (unat (v mod 40)))))"
    using h False by (simp add: oid_split_def unat_div unat_mod)
  have "cbb_room al 0 s (length (decimal (unat (v div 40))))" by (rule cbb_room_mono [OF h1]) simp
  from add_decimal_succeeds [OF at al this] obtain t
    where t: "add_decimal al 0 (v div 40) s = (Some (), t)" by blast
  note a1 = add_decimal_ok [OF at al t]
  from cbb_appends_at2 [OF a1] obtain o1 where at1: "cbb_at 0 t o1" by blast
  note h2 = cbb_appends_room [OF a1 h1]
  have "cbb_room al 0 t 1" by (rule cbb_room_mono [OF h2]) simp
  from CBB_add_u8_succeeds [OF cbb_at_inv [OF at1] al this] obtain t2
    where t2: "CBB_add_u8 al 0 0x2e t = (Some (), t2)" by blast
  note a2 = CBB_add_u8_ok [OF cbb_at_inv [OF at1] al t2]
  from cbb_appends_at2 [OF a2] obtain o2 where at2: "cbb_at 0 t2 o2" by blast
  from add_decimal_succeeds [OF at2 al cbb_appends_room [OF a2 h2]] t t2 w show ?thesis
    by (auto simp: oid_first_text_def op_bind_Some)
qed

lemma oid_to_text_body_first:
  "oid_to_text_body al cs =
     (case parse_base128_integer cs of
        (None, _) \<Rightarrow> op_fail
      | (Some v, copy) \<Rightarrow>
          op_bind (oid_first_text al v) (\<lambda>_. op_bind (oid_text_rest al copy) (\<lambda>_.
            op_bind (CBB_add_u8 al 0 0) (\<lambda>_. CBB_finish al 0 True True))))"
  by (simp add: oid_to_text_body_def oid_first_text_def split: prod.split option.split)

lemma oid_split_der:
  "v < 2 ^ 64 \<Longrightarrow> list_all (\<lambda>n. n < 2 ^ 64) ns \<Longrightarrow> oid_split v = (a, b) \<Longrightarrow>
   oid_valid (a # b # ns) \<and> oid_der (a # b # ns) = base128 v @ concat (map base128 ns)"
  by (auto simp: oid_split_def split: if_splits)

lemma oid_valid_split:
  "oid_valid (a # b # ns) \<Longrightarrow> 40 * a + b < 2 ^ 64 \<and> oid_split (40 * a + b) = (a, b)"
proof -
  assume v: "oid_valid (a # b # ns)"
  then have "a = 0 \<or> a = 1 \<or> a = 2" by auto
  then show ?thesis using v by (elim disjE) (auto simp: oid_split_def)
qed

text \<open>Whatever is printed is the dotted form of a valid OID whose contents were given.\<close>

lemma CBS_asn1_oid_to_text_ok:
  assumes al: "alloc_bounded al" and r: "CBS_asn1_oid_to_text al cs = Some tx"
  shows "\<exists>ns. oid_valid ns \<and> cs = oid_der ns \<and> tx = dotted ns @ [0]"
proof -
  from r obtain s where i: "CBB_init al 32 = Some s"
    by (auto simp: CBS_asn1_oid_to_text_def split: option.splits)
  with r obtain buf n s' where b: "oid_to_text_body al cs s = (Some (buf, n), s')" and tx: "tx = take n buf"
    by (auto simp: CBS_asn1_oid_to_text_def split: option.splits prod.splits)
  have c32: "(32 :: nat) < 2 ^ 62" by simp
  note at = CBB_init_inv(1) [OF al c32 i]
  from b obtain v copy where p: "parse_base128_integer cs = (Some v, copy)"
    and b1: "op_bind (oid_first_text al v) (\<lambda>_. op_bind (oid_text_rest al copy) (\<lambda>_.
            op_bind (CBB_add_u8 al 0 0) (\<lambda>_. CBB_finish al 0 True True))) s = (Some (buf, n), s')"
    by (auto simp: oid_to_text_body_first op_fail_def split: prod.splits option.splits)
  from b1 obtain x1 s1 where s1: "oid_first_text al v s = (Some x1, s1)"
    and b2: "op_bind (oid_text_rest al copy) (\<lambda>_.
            op_bind (CBB_add_u8 al 0 0) (\<lambda>_. CBB_finish al 0 True True)) s1 = (Some (buf, n), s')"
    by (rule op_bind_SomeD)
  note a1 = oid_first_text_ok [OF at al s1]
  from cbb_appends_at2 [OF a1] obtain o1 where at1: "cbb_at 0 s1 o1" by blast
  from b2 obtain x2 s2 where s2: "oid_text_rest al copy s1 = (Some x2, s2)"
    and b3: "op_bind (CBB_add_u8 al 0 0) (\<lambda>_. CBB_finish al 0 True True) s2 = (Some (buf, n), s')"
    by (rule op_bind_SomeD)
  from oid_text_rest_ok [OF at1 al s2] obtain ns where ns: "copy = concat (map base128 ns)"
    "list_all (\<lambda>n. n < 2 ^ 64) ns" and a2: "cbb_appends 0 s1 s2 (dot_tail (dotted ns))" by blast
  from cbb_appends_at2 [OF a2] obtain o2 where at2: "cbb_at 0 s2 o2" by blast
  from b3 obtain x3 s3 where s3: "CBB_add_u8 al 0 0 s2 = (Some x3, s3)"
    and f: "CBB_finish al 0 True True s3 = (Some (buf, n), s')" by (rule op_bind_SomeD)
  note a3 = CBB_add_u8_ok [OF cbb_at_inv [OF at2] al s3]
  note all = cbb_appends_trans [OF a1 cbb_appends_trans [OF a2 a3]]
  obtain a b where ab: "oid_split (unat v) = (a, b)" by (cases "oid_split (unat v)")
  from CBB_finish_eq(1) [OF cbb_appends_inv [OF a3] al f] all cbb_at_val [OF at]
  have "tx = dotted (a # b # ns) @ [0]"
    by (auto simp: cbb_appends_def tx ab dest!: cbb_at_val) (simp add: dot_tail_def)+
  moreover have "unat v < 2 ^ 64" using unsigned_less [of v, where 'a = nat] by simp
  with oid_split_der [OF _ ns(2) ab] have "oid_valid (a # b # ns)"
    "oid_der (a # b # ns) = base128 (unat v) @ concat (map base128 ns)" by auto
  ultimately show ?thesis
    using parse_base128_sound_nat [OF p] ns(1) by metis
qed

lemma CBS_asn1_oid_to_text_succeeds:
  assumes al: "alloc_bounded al" "alloc_total al" and v: "oid_valid ns" and len: "length (dotted ns) < 2 ^ 59"
  shows "CBS_asn1_oid_to_text al (oid_der ns) = Some (dotted ns @ [0])"
proof -
  have c32: "(32 :: nat) < 2 ^ 62" "(32 :: nat) < 2 ^ 61" by simp_all
  from CBB_init_total [OF al(2) c32(2)] obtain s where i: "CBB_init al 32 = Some s" by auto
  note init = CBB_init_inv [OF al(1) c32(1) i]
  from v obtain a b ms where ns: "ns = a # b # ms" and ms: "list_all (\<lambda>n. n < 2 ^ 64) ms"
    by (cases ns rule: oid_valid.cases) auto
  from oid_valid_split [of a b ms] v ns have lt: "40 * a + b < 2 ^ 64" and sp: "oid_split (40 * a + b) = (a, b)"
    by auto
  define w :: u64 where "w = word_of_nat (40 * a + b)"
  have w: "unat w = 40 * a + b" using lt by (simp add: w_def unat_of_nat del: of_nat_add of_nat_mult)
  have p: "parse_base128_integer (oid_der ns) = (Some w, concat (map base128 ms))"
    using parse_base128 [OF lt, of "concat (map base128 ms)"] by (simp add: ns w_def)
  define ab where "ab = decimal a @ 0x2e # decimal b"
  have tot: "length (dotted ns) = length ab + length (dot_tail (dotted ms))"
    by (simp add: ns ab_def) (simp add: dot_tail_def)
  have "cbb_holds al s (length (dotted ns) + 1)"
    using init(2) al(2) len by (auto simp: cbb_holds_def can_hold_def)
  then have h: "cbb_room al 0 s (length ab + (length (dot_tail (dotted ms)) + 1))"
    using cbb_room_holds [OF init(1)] tot by simp
  have "cbb_room al 0 s (length (case oid_split (unat w) of (a, b) \<Rightarrow> decimal a @ 0x2e # decimal b))"
    by (rule cbb_room_mono [OF h]) (simp add: w sp ab_def)
  from oid_first_text_succeeds [OF init(1) al(1) this] obtain s1
    where s1: "oid_first_text al w s = (Some (), s1)" by blast
  have a1: "cbb_appends 0 s s1 ab"
    using oid_first_text_ok [OF init(1) al(1) s1] by (simp add: w sp ab_def)
  from cbb_appends_at2 [OF a1] obtain o1 where at1: "cbb_at 0 s1 o1" by blast
  note h1 = cbb_appends_room [OF a1 h]
  have "cbb_room al 0 s1 (length (dot_tail (dotted ms)))" by (rule cbb_room_mono [OF h1]) simp
  from oid_text_rest_succeeds [OF at1 al(1) ms this] obtain s2
    where s2: "oid_text_rest al (concat (map base128 ms)) s1 = (Some (), s2)" by blast
  have a2: "cbb_appends 0 s1 s2 (dot_tail (dotted ms))"
  proof -
    from oid_text_rest_ok [OF at1 al(1) s2] obtain ks where ks: "concat (map base128 ms) = concat (map base128 ks)"
      "list_all (\<lambda>n. n < 2 ^ 64) ks" "cbb_appends 0 s1 s2 (dot_tail (dotted ks))" by blast
    have inj: "concat (map base128 xs) = concat (map base128 ys) \<Longrightarrow> list_all (\<lambda>n. n < 2 ^ 64) xs \<Longrightarrow>
        list_all (\<lambda>n. n < 2 ^ 64) ys \<Longrightarrow> xs = ys" for xs ys
    proof (induction xs arbitrary: ys)
      case Nil
      then show ?case by (cases ys) (auto simp: base128_def)
    next
      case (Cons x xs)
      then obtain y zs where ys: "ys = y # zs" by (cases ys) (auto simp: base128_def)
      with Cons.prems parse_base128 [of x "concat (map base128 xs)"]
        parse_base128 [of y "concat (map base128 zs)"]
      have "(word_of_nat x :: u64) = word_of_nat y" and c: "concat (map base128 xs) = concat (map base128 zs)"
        by auto
      then have "unat (word_of_nat x :: u64) = unat (word_of_nat y :: u64)" by simp
      then have "x = y" using Cons.prems ys by (simp add: unat_of_nat)
      with Cons.IH [OF c] Cons.prems ys show ?case by simp
    qed
    from inj [OF ks(1) ms ks(2)] ks(3) show ?thesis by simp
  qed
  from cbb_appends_at2 [OF a2] obtain o2 where at2: "cbb_at 0 s2 o2" by blast
  note h2 = cbb_appends_room [OF a2 h1]
  from CBB_add_u8_succeeds [OF cbb_at_inv [OF at2] al(1) h2] obtain s3
    where s3: "CBB_add_u8 al 0 0 s2 = (Some (), s3)" by blast
  note a3 = CBB_add_u8_ok [OF cbb_at_inv [OF at2] al(1) s3]
  note all = cbb_appends_trans [OF a1 cbb_appends_trans [OF a2 a3]]
  have val: "cbb_val 0 s3 = Some (dotted ns @ [0])"
    using all cbb_at_val [OF init(1)]
    by (auto simp: cbb_appends_def ns ab_def dest!: cbb_at_val) (simp add: dot_tail_def)+
  have "cbb_holds al s3 (length (dotted ns @ [0]))"
    using all \<open>cbb_holds al s (length (dotted ns) + 1)\<close>
    by (auto simp: cbb_appends_def intro: cbb_keeps_holds)
  from CBB_finish_succeeds [OF cbb_appends_inv [OF a3] al(1) val this] obtain buf n s4
    where f: "CBB_finish al 0 True True s3 = (Some (buf, n), s4)" by blast
  with CBB_finish_eq(1) [OF cbb_appends_inv [OF a3] al(1) f] val
  show ?thesis
    by (simp add: CBS_asn1_oid_to_text_def i oid_to_text_body_first p op_bind_Some s1 s2 s3)
qed

end
