(* ===== verification/Set_Of.thy ===== *)
theory Set_Of
  imports Asn1 Sorting
begin

text \<open>
  \<open>CBB_flush_asn1_set_of\<close> (cbb.c): the elements written so far into a SET OF are sorted by
  their encodings. The sort is the C library's \<open>qsort\<close>, a parameter whose contract is a
  locale: what it returns is a permutation, in order for the comparison it is given.
\<close>

section \<open>The comparison\<close>

definition compare_set_of_element :: "cbs \<Rightarrow> cbs \<Rightarrow> int" where
  "compare_set_of_element a b =
     (let a_len = CBS_len a; b_len = CBS_len b;
          min_len = (if a_len < b_len then a_len else b_len);
          ret = OPENSSL_memcmp (CBS_data a) (CBS_data b) min_len
      in if ret \<noteq> 0 then ret
         else if a_len = b_len then 0
         else if a_len < b_len then -1 else 1)"

section \<open>The comparison is a total order\<close>

lemma compare_rec:
  "compare_set_of_element [] [] = 0"
  "compare_set_of_element [] (b # bs) = -1"
  "compare_set_of_element (a # as) [] = 1"
  "compare_set_of_element (a # as) (b # bs) =
     (if a = b then compare_set_of_element as bs else uint a - uint b)"
proof -
  show "compare_set_of_element (a # as) (b # bs) =
     (if a = b then compare_set_of_element as bs else uint a - uint b)"
    by (cases "length as < length bs")
      (auto simp: compare_set_of_element_def CBS_len_def CBS_data_def Let_def word_uint_eq_iff)
qed (simp_all add: compare_set_of_element_def CBS_len_def CBS_data_def)

lemma compare_antisym: "compare_set_of_element a b \<le> 0 \<Longrightarrow> compare_set_of_element b a \<le> 0 \<Longrightarrow> a = b"
proof (induction a arbitrary: b)
  case Nil
  then show ?case by (cases b) (simp_all add: compare_rec)
next
  case (Cons x a)
  then show ?case by (cases b) (auto simp: compare_rec word_uint_eq_iff split: if_splits)
qed

lemma compare_sign: "compare_set_of_element a b < 0 \<longleftrightarrow> 0 < compare_set_of_element b a"
proof (induction a arbitrary: b)
  case Nil
  then show ?case by (cases b) (simp_all add: compare_rec)
next
  case (Cons x a)
  then show ?case by (cases b) (auto simp: compare_rec)
qed

lemma compare_trans:
  "compare_set_of_element a b \<le> 0 \<Longrightarrow> compare_set_of_element b c \<le> 0 \<Longrightarrow> compare_set_of_element a c \<le> 0"
proof (induction a arbitrary: b c)
  case Nil
  then show ?case by (cases c) (simp_all add: compare_rec)
next
  case (Cons x a)
  then show ?case
    by (cases b; cases c) (auto simp: compare_rec word_uint_eq_iff split: if_splits)
qed

lemma compare_preorder: "cmp_preorder compare_set_of_element"
  unfolding cmp_preorder_def using compare_sign compare_trans by blast

section \<open>The elements of a SET OF\<close>

text \<open>
  The loop that counts the elements: it parses one after the other up to the end. The fuel
  is the number of bytes, since each element takes at least one.
\<close>

fun count_elements :: "nat \<Rightarrow> cbs \<Rightarrow> nat option" where
  "count_elements fuel [] = Some 0"
| "count_elements 0 (c # cs) = None"
| "count_elements (Suc fuel) (c # cs) =
     (case CBS_get_any_asn1_element (c # cs) of
        (None, _) \<Rightarrow> None
      | (Some _, rest) \<Rightarrow> map_option Suc (count_elements fuel rest))"

fun get_elements :: "nat \<Rightarrow> (cbs, cbs list) op" where
  "get_elements 0 = op_return []"
| "get_elements (Suc n) =
     op_bind CBS_get_any_asn1_element (\<lambda>(child, _, _). op_bind (get_elements n) (\<lambda>cs. op_return (child # cs)))"

fun add_all :: "allocator \<Rightarrow> nat \<Rightarrow> cbs list \<Rightarrow> (cbb, unit) op" where
  "add_all al d [] = op_return ()"
| "add_all al d (c # cs) = op_bind (CBB_add_bytes al d c) (\<lambda>_. add_all al d cs)"

text \<open>\<open>sizeof(CBS)\<close> is 16. The sort works on a copy of the contents, so the CBB is rewound and rewritten.\<close>

definition set_of_sort ::
  "((cbs \<Rightarrow> cbs \<Rightarrow> int) \<Rightarrow> cbs list \<Rightarrow> cbs list) \<Rightarrow> allocator \<Rightarrow> nat \<Rightarrow> bytes \<Rightarrow> (cbb, unit) op" where
  "set_of_sort qsort al d contents cbb =
     (case count_elements (length contents) (CBS_init contents (length contents)) of
        None \<Rightarrow> (None, cbb)
      | Some num_children \<Rightarrow>
          if num_children < 2 then (Some (), cbb)
          else if num_children > (2 ^ 64 - 1) div 16 then (None, cbb)
          else
            (case BUF_memdup al contents of
               None \<Rightarrow> (None, cbb)
             | Some buf \<Rightarrow>
                 if OPENSSL_malloc al (num_children * 16) = None then (None, cbb)
                 else
                   (case get_elements num_children (CBS_init buf (length contents)) of
                      (None, _) \<Rightarrow> (None, cbb)
                    | (Some children, _) \<Rightarrow>
                        op_bind
                          (on_base (\<lambda>base. (Some (), base\<lparr>cb_len := cbb_pos d cbb\<rparr>)))
                          (\<lambda>_. add_all al d (qsort compare_set_of_element children)) cbb)))"

definition CBB_flush_asn1_set_of ::
  "((cbs \<Rightarrow> cbs \<Rightarrow> int) \<Rightarrow> cbs list \<Rightarrow> cbs list) \<Rightarrow> allocator \<Rightarrow> nat \<Rightarrow> (cbb, unit) op" where
  "CBB_flush_asn1_set_of qsort al d =
     op_bind (CBB_flush al d)
       (\<lambda>_ cbb. set_of_sort qsort al d (take (CBB_len d cbb) (CBB_data d cbb)) cbb)"

section \<open>Correctness\<close>

definition is_der :: "bytes \<Rightarrow> bool" where
  "is_der e \<longleftrightarrow> (\<exists>t c. e = der_element t c \<and> length c < 2 ^ 32)"

lemma is_der_ne: "is_der e \<Longrightarrow> e \<noteq> []"
  using length_der_len_pos by (auto simp: is_der_def der_element_def der_len_def)

lemma get_any_is_der:
  "is_der e \<Longrightarrow> length (e @ rest) < SIZE_LIMIT \<Longrightarrow>
   \<exists>t h. CBS_get_any_asn1_element (e @ rest) = (Some (e, t, h), rest)"
  unfolding is_der_def using CBS_get_any_asn1_element_der by blast

lemma count_elements_sound:
  "count_elements fuel cs = Some n \<Longrightarrow> length cs < SIZE_LIMIT \<Longrightarrow>
   \<exists>es. cs = concat es \<and> length es = n \<and> list_all is_der es"
proof (induction fuel cs arbitrary: n rule: count_elements.induct)
  case (1 fuel)
  then show ?case by (intro exI [of _ "[]"]) simp
next
  case (2 c cs)
  then show ?case by simp
next
  case (3 fuel c cs)
  from "3.prems"(1) obtain out t h rest m where g: "CBS_get_any_asn1_element (c # cs) = (Some (out, t, h), rest)"
    and m: "count_elements fuel rest = Some m" and n: "n = Suc m"
    by (auto split: prod.splits option.splits)
  from g obtain k where k: "out = der_element t k" "c # cs = out @ rest" "length k < 2 ^ 32"
    unfolding get_any_element_iff [OF "3.prems"(2)] by blast
  have "length rest < SIZE_LIMIT" using "3.prems"(2) by (simp add: k(2))
  from "3.IH" [OF g [symmetric] refl m this] obtain es where "rest = concat es" "length es = m" "list_all is_der es"
    by blast
  moreover have "is_der out" using k by (auto simp: is_der_def)
  ultimately show ?case using k(2) n by (intro exI [of _ "out # es"]) auto
qed

lemma length_le_concat: "list_all is_der es \<Longrightarrow> length es \<le> length (concat es)"
proof (induction es)
  case (Cons e es)
  then have "1 \<le> length e" using is_der_ne [of e] by (cases e) auto
  with Cons show ?case by simp
qed simp

lemma count_elements_complete:
  "list_all is_der es \<Longrightarrow> length (concat es) \<le> fuel \<Longrightarrow> length (concat es) < SIZE_LIMIT \<Longrightarrow>
   count_elements fuel (concat es) = Some (length es)"
proof (induction es arbitrary: fuel)
  case Nil
  then show ?case by simp
next
  case (Cons e es)
  have e: "is_der e" using Cons.prems by simp
  obtain c r where cr: "e = c # r" using is_der_ne [OF e] by (cases e) auto
  obtain f where f: "fuel = Suc f" using Cons.prems(2) cr by (cases fuel) auto
  have "length (e @ concat es) < SIZE_LIMIT" using Cons.prems(3) by simp
  from get_any_is_der [OF e this] obtain t h where
    g: "CBS_get_any_asn1_element (e @ concat es) = (Some (e, t, h), concat es)" by blast
  have "count_elements f (concat es) = Some (length es)"
    using Cons.prems cr f by (intro Cons.IH) auto
  then show ?case using g cr f by simp
qed

lemma get_elements_der:
  "list_all is_der es \<Longrightarrow> length (concat es) < SIZE_LIMIT \<Longrightarrow>
   get_elements (length es) (concat es) = (Some es, [])"
proof (induction es)
  case Nil
  then show ?case by (simp add: op_return_def)
next
  case (Cons e es)
  have "length (e @ concat es) < SIZE_LIMIT" using Cons.prems(2) by simp
  from get_any_is_der [OF _ this] Cons.prems obtain t h where
    "CBS_get_any_asn1_element (e @ concat es) = (Some (e, t, h), concat es)" by auto
  moreover have "get_elements (length es) (concat es) = (Some es, [])"
    using Cons by auto
  ultimately show ?case by (simp add: op_bind_def op_return_def)
qed

lemma add_all_ok:
  "cbb_at d s out \<Longrightarrow> alloc_bounded al \<Longrightarrow> list_all (\<lambda>e. length e < 2 ^ 62) es \<Longrightarrow>
   add_all al d es s = (Some u, s') \<Longrightarrow> cbb_at d s' (out @ concat es) \<and> cbb_keeps d s s'"
proof (induction es arbitrary: s out)
  case Nil
  then show ?case by (auto simp: op_return_def intro: cbb_keeps_refl cbb_at_inv)
next
  case (Cons e es)
  from Cons.prems(4) obtain t where t: "CBB_add_bytes al d e s = (Some (), t)"
    and r: "add_all al d es t = (Some u, s')" by (auto elim!: op_bind_SomeD)
  have l: "length e < 2 ^ 62" using Cons.prems(3) by simp
  from cbb_appends_at [OF Cons.prems(1) CBB_add_bytes_ok [OF cbb_at_inv [OF Cons.prems(1)] Cons.prems(2) l t]]
  have at: "cbb_at d t (out @ e)" and k: "cbb_keeps d s t" by auto
  from Cons.IH [OF at Cons.prems(2) _ r] Cons.prems(3) k show ?case
    by (auto intro: cbb_keeps_trans)
qed

lemma add_all_succeeds:
  "cbb_at d s out \<Longrightarrow> alloc_bounded al \<Longrightarrow> list_all (\<lambda>e. length e < 2 ^ 62) es \<Longrightarrow>
   cbb_holds al s (length out + length (concat es)) \<Longrightarrow> \<exists>s'. add_all al d es s = (Some (), s')"
proof (induction es arbitrary: s out)
  case Nil
  then show ?case by (simp add: op_return_def)
next
  case (Cons e es)
  have l: "length e < 2 ^ 62" using Cons.prems(3) by simp
  have "cbb_holds al s (length out + length e)" by (rule cbb_holds_mono [OF Cons.prems(4)]) simp
  from CBB_add_bytes_succeeds [OF cbb_at_inv [OF Cons.prems(1)] Cons.prems(2)
      cbb_room_holds [OF Cons.prems(1) this] l] obtain t
    where t: "CBB_add_bytes al d e s = (Some (), t)" by blast
  from cbb_appends_at [OF Cons.prems(1) CBB_add_bytes_ok [OF cbb_at_inv [OF Cons.prems(1)] Cons.prems(2) l t]]
  have at: "cbb_at d t (out @ e)" and k: "cbb_keeps d s t" by auto
  have "cbb_holds al t (length (out @ e) + length (concat es))"
    using cbb_keeps_holds [OF k Cons.prems(4)] by (simp add: add.assoc)
  from Cons.IH [OF at Cons.prems(2) _ this] Cons.prems(3) t show ?case by (auto simp: op_bind_Some)
qed

text \<open>Rewinding to the start of the contents.\<close>

lemma cbb_rewind:
  assumes at: "cbb_at d s out"
    and r: "on_base (\<lambda>base. (Some (), base\<lparr>cb_len := cbb_pos d s\<rparr>)) s = (Some u, s')"
  shows "cbb_at d s' (take (cbb_pos d s) out)" "cbb_keeps d s s'"
proof -
  from at obtain b where b: "cbb_base s = Some b" "buf_ok b" "\<not> cb_error b" "cb_out b = out"
    "cb_len b = length out" by (rule cbb_at_baseE)
  have le: "cbb_pos d s \<le> cb_len b" using cbb_at_pos [OF at] b(5) by simp
  have s': "s' = s\<lparr>cbb_base := Some (b\<lparr>cb_len := cbb_pos d s\<rparr>)\<rparr>" using r b(1) by (simp add: on_base_def)
  have "cb_out (b\<lparr>cb_len := cbb_pos d s\<rparr>) = take (cbb_pos d s) out"
    using b(4) le by (auto simp: cb_out_def min_absorb1)
  then show "cbb_at d s' (take (cbb_pos d s) out)"
    using at b le by (auto simp: cbb_at_def cbb_inv_def s' buf_ok_def cbb_pos_def)
  show "cbb_keeps d s s'" using b le by (auto simp: cbb_keeps_def s' buf_ext_def buf_ok_def)
qed

lemma cbb_at_contents:
  assumes "cbb_at d s out"
  shows "take (CBB_len d s) (CBB_data d s) = drop (cbb_pos d s) out"
    "CBB_len d s = length (drop (cbb_pos d s) out)"
proof -
  from assms obtain b where b: "cbb_base s = Some b" "buf_ok b" "cb_out b = out" "cb_len b = length out"
    by (rule cbb_at_baseE)
  then show l: "CBB_len d s = length (drop (cbb_pos d s) out)"
    by (simp add: CBB_len_def cbb_pos_def fr_end_def Let_def)
  show "take (CBB_len d s) (CBB_data d s) = drop (cbb_pos d s) out"
    unfolding l using b
    by (simp add: CBB_data_def cbb_pos_def fr_end_def Let_def cb_out_def)
      (metis drop_take)
qed

lemma BUF_memdup_eq:
  assumes "BUF_memdup al data = Some buf" "length data + 8 < SIZE_LIMIT"
  shows "buf = data"
proof -
  from assms(1) obtain ret where "OPENSSL_malloc al (length data) = Some ret" "buf = write_at ret 0 data"
    by (auto simp: BUF_memdup_def split: if_splits option.splits)
  with length_OPENSSL_malloc [OF this(1) assms(2)] show ?thesis by (simp add: write_at_def)
qed

text \<open>Where it succeeds, the contents were DER elements, and they are now sorted.\<close>

lemma flush_set_of_ok:
  assumes q: "qsort_spec qsort" and inv: "cbb_inv d s" and al: "alloc_bounded al"
    and r: "CBB_flush_asn1_set_of qsort al d s = (Some u, s')"
  shows "\<exists>out es. cbb_val d s = Some out \<and> drop (cbb_pos d s) out = concat es \<and> list_all is_der es \<and>
    cbb_at d s' (take (cbb_pos d s) out @ concat (qsort compare_set_of_element es))"
proof -
  from r [unfolded CBB_flush_asn1_set_of_def] obtain v t where t: "CBB_flush al d s = (Some v, t)"
    by (rule op_bind_SomeD)
  from CBB_flush_ok [OF inv al t] obtain out where o: "cbb_val d s = Some out" "cbb_at d t out"
    "cbb_keeps d s t" by blast
  define c where "c = drop (cbb_pos d t) out"
  have p: "cbb_pos d t = cbb_pos d s"
    using o(2,3) inv by (auto simp: cbb_pos_def cbb_keeps_def cbb_at_def cbb_inv_def)
  from o(2) obtain b where b: "buf_ok b" "cb_len b = length out" by (rule cbb_at_baseE)
  have out62: "length out < 2 ^ 62" using b by (auto simp: buf_ok_def)
  then have c62: "length c < 2 ^ 62" by (simp add: c_def)
  note cont = cbb_at_contents [OF o(2), folded c_def]
  from r t cont have r1: "set_of_sort qsort al d c t = (Some u, s')"
    by (simp add: CBB_flush_asn1_set_of_def op_bind_Some)
  then obtain n where n: "count_elements (length c) c = Some n"
    by (cases "count_elements (length c) c") (auto simp: set_of_sort_def CBS_init_def)
  have "length c < SIZE_LIMIT" using c62 by simp
  from count_elements_sound [OF n this] obtain es where es: "c = concat es" "length es = n" "list_all is_der es"
    by blast
  have "cbb_at d s' (take (cbb_pos d t) out @ concat (qsort compare_set_of_element es))"
  proof (cases "n < 2")
    case True
    then have "s' = t" using r1 n by (simp add: set_of_sort_def CBS_init_def)
    moreover have "qsort compare_set_of_element es = es"
    proof (cases es)
      case Nil
      then show ?thesis using qsort_spec.length_qsort [OF q, of compare_set_of_element es] by simp
    next
      case (Cons e fs)
      then have "es = [e]" using True es(2) by (cases fs) auto
      then show ?thesis using qsort_spec.permutes [OF q, of compare_set_of_element es] by simp
    qed
    ultimately show ?thesis using o(2) es(1) c_def by (metis append_take_drop_id)
  next
    case False
    with r1 n obtain buf children rest where m: "BUF_memdup al c = Some buf"
      and g: "get_elements n (take (length c) buf) = (Some children, rest)"
      and r2: "op_bind (on_base (\<lambda>base. (Some (), base\<lparr>cb_len := cbb_pos d t\<rparr>)))
                 (\<lambda>_. add_all al d (qsort compare_set_of_element children)) t = (Some u, s')"
      by (auto simp: set_of_sort_def CBS_init_def split: if_splits option.splits prod.splits)
    have "buf = c" by (rule BUF_memdup_eq [OF m]) (use c62 in simp)
    then have "children = es"
      using g get_elements_der [OF es(3)] es(1,2) \<open>length c < SIZE_LIMIT\<close> by simp
    with r2 obtain x w where w: "on_base (\<lambda>base. (Some (), base\<lparr>cb_len := cbb_pos d t\<rparr>)) t = (Some x, w)"
      and a: "add_all al d (qsort compare_set_of_element es) w = (Some u, s')"
      by (auto elim!: op_bind_SomeD)
    have "length e < 2 ^ 62" if "e \<in> set es" for e
      using that c62 es(1) by (auto dest!: split_list)
    then have "list_all (\<lambda>e. length e < 2 ^ 62) (qsort compare_set_of_element es)"
      by (simp add: list_all_iff qsort_spec.set_qsort [OF q])
    from add_all_ok [OF cbb_rewind(1) [OF o(2) w] al this a] show ?thesis by simp
  qed
  then show ?thesis using o(1) es c_def p by auto
qed

text \<open>And it succeeds on DER elements where memory does not run out.\<close>

lemma flush_set_of_succeeds:
  assumes q: "qsort_spec qsort" and inv: "cbb_inv d s" and al: "alloc_bounded al" "alloc_total al"
    and v: "cbb_val d s = Some out" and h: "cbb_holds al s (length out)" and len: "length out < 2 ^ 56"
    and es: "drop (cbb_pos d s) out = concat es" "list_all is_der es"
  shows "\<exists>s'. CBB_flush_asn1_set_of qsort al d s = (Some (), s')"
proof -
  from CBB_flush_succeeds [OF inv al(1) v h] obtain t where t: "CBB_flush al d s = (Some (), t)" by blast
  from CBB_flush_ok [OF inv al(1) t] v have o: "cbb_at d t out" "cbb_keeps d s t" by auto
  have p: "cbb_pos d t = cbb_pos d s"
    using o inv by (auto simp: cbb_pos_def cbb_keeps_def cbb_at_def cbb_inv_def)
  note cont = cbb_at_contents(1) [OF o(1), unfolded p es(1)]
  define c where "c = concat es"
  have cl: "length c \<le> length out" using arg_cong [OF es(1), of length] by (simp add: c_def)
  have n: "count_elements (length c) c = Some (length es)"
    unfolding c_def using es(2) cl len by (intro count_elements_complete) (simp_all add: c_def)
  have nc: "length es \<le> length c" unfolding c_def by (rule length_le_concat [OF es(2)])
  have "\<exists>s'. set_of_sort qsort al d c t = (Some (), s')"
  proof (cases "length es < 2")
    case True
    then show ?thesis by (simp add: set_of_sort_def CBS_init_def n)
  next
    case False
    then have ne: "length c \<noteq> 0" using nc by linarith
    have "length c < 2 ^ 61" using cl len by simp
    from malloc_total [OF al(2) this] ne obtain buf where m: "BUF_memdup al c = Some buf"
      by (auto simp: BUF_memdup_def)
    have "buf = c" by (rule BUF_memdup_eq [OF m]) (use cl len in simp)
    with m have m: "BUF_memdup al c = Some c" by simp
    have "length es * 16 < 2 ^ 61" using nc cl len by simp
    from malloc_total [OF al(2) this] have mm: "OPENSSL_malloc al (length es * 16) \<noteq> None" by auto
    have g: "get_elements (length es) c = (Some es, [])"
      unfolding c_def using es(2) cl len by (intro get_elements_der) (simp_all add: c_def)
    from o(1) obtain b where b: "cbb_base t = Some b" by (rule cbb_at_baseE)
    then obtain w where w: "on_base (\<lambda>base. (Some (), base\<lparr>cb_len := cbb_pos d t\<rparr>)) t = (Some (), w)"
      by (simp add: on_base_def)
    have perm: "mset (qsort compare_set_of_element es) = mset es" by (rule qsort_spec.permutes [OF q])
    have "length e < 2 ^ 62" if "e \<in> set es" for e
      using that cl len by (auto simp: c_def dest!: split_list)
    then have all: "list_all (\<lambda>e. length e < 2 ^ 62) (qsort compare_set_of_element es)"
      by (simp add: list_all_iff qsort_spec.set_qsort [OF q])
    have "length (concat (qsort compare_set_of_element es)) = length c"
      unfolding c_def length_concat
      by (metis perm mset_map sum_mset_sum_list)
    moreover have "length (take (cbb_pos d t) out) + length c \<le> length out"
      using arg_cong [OF es(1), of length] cbb_at_pos [OF o(1)] by (simp add: c_def p)
    ultimately have "cbb_holds al w (length (take (cbb_pos d t) out) + length (concat (qsort compare_set_of_element es)))"
      using cbb_keeps_holds [OF cbb_rewind(2) [OF o(1) w] cbb_keeps_holds [OF o(2) h]]
      by (auto intro: cbb_holds_mono)
    from add_all_succeeds [OF cbb_rewind(1) [OF o(1) w] al(1) all this] obtain s'
      where "add_all al d (qsort compare_set_of_element es) w = (Some (), s')" by blast
    then show ?thesis
      using False n m mm g w nc cl len
      by (auto simp: set_of_sort_def CBS_init_def op_bind_Some)
  qed
  then show ?thesis using t cont by (auto simp: CBB_flush_asn1_set_of_def op_bind_Some c_def)
qed

end
