(* ===== verification/Lhash.thy ===== *)
theory Lhash
  imports Memory "HOL-Library.Multiset"
begin

text \<open>
  crypto/lhash/lhash.c: the chained hash table. An element is a pointer to a caller's
  object, a value of the type parameter; a chain is the list of its items, a NULL result is
  None. The hash and comparison functions of the table are fields, as in the code; what the
  table needs of them is the locale \<open>lhash_fns\<close>.
\<close>

section \<open>State\<close>

record 'a lhash_item =
  it_data :: 'a
  it_hash :: u32

record 'a lhash =
  lh_items :: nat
  lh_buckets :: "'a lhash_item list list"
  lh_num_buckets :: nat
  lh_callback_depth :: nat
  lh_comp :: "'a \<Rightarrow> 'a \<Rightarrow> int"
  lh_hash :: "'a \<Rightarrow> u32"

definition kMinNumBuckets :: nat where "kMinNumBuckets = 16"
definition kMaxAverageChainLength :: nat where "kMaxAverageChainLength = 2"
definition kMinAverageChainLength :: nat where "kMinAverageChainLength = 1"
definition UINT_MAX :: nat where "UINT_MAX = 2 ^ 32 - 1"

section \<open>Operations\<close>

definition lh_new :: "allocator \<Rightarrow> ('a \<Rightarrow> u32) \<Rightarrow> ('a \<Rightarrow> 'a \<Rightarrow> int) \<Rightarrow> 'a lhash option" where
  "lh_new al hash cmpf =
     (if OPENSSL_malloc al 48 = None \<or> OPENSSL_malloc al (8 * kMinNumBuckets) = None then None
      else Some \<lparr>lh_items = 0, lh_buckets = replicate kMinNumBuckets [], lh_num_buckets = kMinNumBuckets,
                 lh_callback_depth = 0, lh_comp = cmpf, lh_hash = hash\<rparr>)"

definition lh_num_items :: "'a lhash \<Rightarrow> nat" where
  "lh_num_items lh = lh_items lh"

text \<open>
  \<open>get_next_ptr_and_hash\<close>: the bucket, the items of its chain before the pointer that is
  returned, the items from there on (empty where it points to a NULL), and the hash.
\<close>

fun split_chain :: "('a \<Rightarrow> 'a \<Rightarrow> int) \<Rightarrow> 'a \<Rightarrow> 'a lhash_item list \<Rightarrow> 'a lhash_item list \<times> 'a lhash_item list" where
  "split_chain cmpf data [] = ([], [])"
| "split_chain cmpf data (cur # chain) =
     (if cmpf (it_data cur) data = 0 then ([], cur # chain)
      else (case split_chain cmpf data chain of (before, from_) \<Rightarrow> (cur # before, from_)))"

definition get_next_ptr_and_hash ::
  "'a lhash \<Rightarrow> 'a \<Rightarrow> nat \<times> ('a lhash_item list \<times> 'a lhash_item list) \<times> u32" where
  "get_next_ptr_and_hash lh data =
     (let hash = lh_hash lh data; b = unat hash mod lh_num_buckets lh
      in (b, split_chain (lh_comp lh) data (lh_buckets lh ! b), hash))"

definition lh_retrieve :: "'a lhash \<Rightarrow> 'a \<Rightarrow> 'a option" where
  "lh_retrieve lh data =
     (case get_next_ptr_and_hash lh data of
        (_, (_, []), _) \<Rightarrow> None
      | (_, (_, item # _), _) \<Rightarrow> Some (it_data item))"

definition rebucket_item :: "nat \<Rightarrow> 'a lhash_item list list \<Rightarrow> 'a lhash_item \<Rightarrow> 'a lhash_item list list" where
  "rebucket_item n bs cur = (let k = unat (it_hash cur) mod n in bs[k := cur # bs ! k])"

definition lh_rebucket :: "allocator \<Rightarrow> nat \<Rightarrow> 'a lhash \<Rightarrow> 'a lhash" where
  "lh_rebucket al new_num_buckets lh =
     (let alloc_size = sz (8 * new_num_buckets) in
      if alloc_size div 8 \<noteq> new_num_buckets then lh
      else if OPENSSL_malloc al alloc_size = None then lh
      else lh\<lparr>lh_buckets := foldl (foldl (rebucket_item new_num_buckets))
                  (replicate new_num_buckets []) (lh_buckets lh),
              lh_num_buckets := new_num_buckets\<rparr>)"

definition lh_maybe_resize :: "allocator \<Rightarrow> 'a lhash \<Rightarrow> 'a lhash" where
  "lh_maybe_resize al lh =
     (if lh_callback_depth lh > 0 then lh
      else
        let avg_chain_length = lh_items lh div lh_num_buckets lh in
        if avg_chain_length > kMaxAverageChainLength then
          let new_num_buckets = sz (lh_num_buckets lh * 2) in
          if new_num_buckets > lh_num_buckets lh then lh_rebucket al new_num_buckets lh else lh
        else if avg_chain_length < kMinAverageChainLength \<and> lh_num_buckets lh > kMinNumBuckets then
          let new0 = lh_num_buckets lh div 2;
              new_num_buckets = (if new0 < kMinNumBuckets then kMinNumBuckets else new0)
          in lh_rebucket al new_num_buckets lh
        else lh)"

text \<open>The return value, \<open>*old_data\<close> and the table. A new item goes to the end of its chain.\<close>

definition lh_insert :: "allocator \<Rightarrow> 'a lhash \<Rightarrow> 'a \<Rightarrow> bool \<times> 'a option \<times> 'a lhash" where
  "lh_insert al lh data =
     (case get_next_ptr_and_hash lh data of
        (b, (before, item # rest), hash) \<Rightarrow>
          (True, Some (it_data item),
           lh\<lparr>lh_buckets := (lh_buckets lh)[b := before @ item\<lparr>it_data := data\<rparr> # rest]\<rparr>)
      | (b, (before, []), hash) \<Rightarrow>
          if OPENSSL_malloc al 24 = None then (False, None, lh)
          else (True, None,
                lh_maybe_resize al
                  (lh\<lparr>lh_buckets := (lh_buckets lh)[b := before @ [\<lparr>it_data = data, it_hash = hash\<rparr>]],
                      lh_items := lh_items lh + 1\<rparr>)))"

definition lh_delete :: "allocator \<Rightarrow> 'a lhash \<Rightarrow> 'a \<Rightarrow> 'a option \<times> 'a lhash" where
  "lh_delete al lh data =
     (case get_next_ptr_and_hash lh data of
        (b, (before, []), _) \<Rightarrow> (None, lh)
      | (b, (before, item # rest), _) \<Rightarrow>
          (Some (it_data item),
           lh_maybe_resize al
             (lh\<lparr>lh_buckets := (lh_buckets lh)[b := before @ rest], lh_items := lh_items lh - 1\<rparr>)))"

text \<open>
  \<open>lh_doall_internal\<close> with a callback that works on a state of its own (\<open>arg\<close>) and leaves
  the table alone.
\<close>

definition lh_doall_internal :: "allocator \<Rightarrow> ('a \<Rightarrow> 's \<Rightarrow> 's) \<Rightarrow> 'a lhash \<Rightarrow> 's \<Rightarrow> 'a lhash \<times> 's" where
  "lh_doall_internal al func lh s =
     (let lh1 = (if lh_callback_depth lh < UINT_MAX
                 then lh\<lparr>lh_callback_depth := lh_callback_depth lh + 1\<rparr> else lh);
          s' = foldl (foldl (\<lambda>s cur. func (it_data cur) s)) s (lh_buckets lh1);
          lh2 = (if lh_callback_depth lh1 < UINT_MAX
                 then lh1\<lparr>lh_callback_depth := lh_callback_depth lh1 - 1\<rparr> else lh1)
      in (lh_maybe_resize al lh2, s'))"

definition lh_doall :: "allocator \<Rightarrow> ('a \<Rightarrow> 's \<Rightarrow> 's) \<Rightarrow> 'a lhash \<Rightarrow> 's \<Rightarrow> 'a lhash \<times> 's" where
  "lh_doall al func lh s = lh_doall_internal al func lh s"

definition lh_strhash :: "bytes option \<Rightarrow> u32" where
  "lh_strhash c = (case c of None \<Rightarrow> 0 | Some s \<Rightarrow> OPENSSL_hash32 s (strlen s))"

section \<open>What the table needs of its functions\<close>

locale lhash_fns =
  fixes cmpf :: "'a \<Rightarrow> 'a \<Rightarrow> int" and hash :: "'a \<Rightarrow> u32"
  assumes eq_refl: "cmpf a a = 0"
    and eq_sym: "cmpf a b = 0 \<Longrightarrow> cmpf b a = 0"
    and eq_trans: "cmpf a b = 0 \<Longrightarrow> cmpf b c = 0 \<Longrightarrow> cmpf a c = 0"
    and eq_hash: "cmpf a b = 0 \<Longrightarrow> hash a = hash b"

section \<open>Invariant\<close>

text \<open>All items of the table, bucket by bucket.\<close>

definition lh_all :: "'a lhash \<Rightarrow> 'a lhash_item list" where
  "lh_all lh = concat (lh_buckets lh)"

definition chained_ok :: "('a \<Rightarrow> u32) \<Rightarrow> nat \<Rightarrow> nat \<Rightarrow> 'a lhash_item \<Rightarrow> bool" where
  "chained_ok hash n i x \<longleftrightarrow> it_hash x = hash (it_data x) \<and> unat (it_hash x) mod n = i"

definition buckets_ok :: "('a \<Rightarrow> u32) \<Rightarrow> nat \<Rightarrow> 'a lhash_item list list \<Rightarrow> bool" where
  "buckets_ok hash n bs \<longleftrightarrow> length bs = n \<and> (\<forall>i < n. \<forall>x \<in> set (bs ! i). chained_ok hash n i x)"

text \<open>Equal elements do not occur twice.\<close>

definition all_differ :: "('a \<Rightarrow> 'a \<Rightarrow> int) \<Rightarrow> 'a multiset \<Rightarrow> bool" where
  "all_differ cmpf M \<longleftrightarrow> (\<forall>x \<in># M. \<forall>y \<in># M - {#x#}. cmpf x y \<noteq> 0)"

definition lh_elems :: "'a lhash \<Rightarrow> 'a multiset" where
  "lh_elems lh = mset (map it_data (lh_all lh))"

definition lh_ok :: "'a lhash \<Rightarrow> bool" where
  "lh_ok lh \<longleftrightarrow> kMinNumBuckets \<le> lh_num_buckets lh \<and> buckets_ok (lh_hash lh) (lh_num_buckets lh) (lh_buckets lh) \<and>
     lh_items lh = length (lh_all lh) \<and> all_differ (lh_comp lh) (lh_elems lh)"

definition lh_table :: "('a \<Rightarrow> 'a \<Rightarrow> int) \<Rightarrow> ('a \<Rightarrow> u32) \<Rightarrow> 'a lhash \<Rightarrow> bool" where
  "lh_table cmpf hash lh \<longleftrightarrow> lh_ok lh \<and> lh_comp lh = cmpf \<and> lh_hash lh = hash"

section \<open>Buckets and their items\<close>

lemma split_chain_eq:
  assumes "split_chain cmpf d ch = (bef, fr)"
  shows "ch = bef @ fr" "\<forall>x \<in> set bef. cmpf (it_data x) d \<noteq> 0" "fr \<noteq> [] \<Longrightarrow> cmpf (it_data (hd fr)) d = 0"
proof -
  have "ch = bef @ fr \<and> (\<forall>x \<in> set bef. cmpf (it_data x) d \<noteq> 0) \<and> (fr \<noteq> [] \<longrightarrow> cmpf (it_data (hd fr)) d = 0)"
    using assms
    by (induction cmpf d ch arbitrary: bef fr rule: split_chain.induct) (auto split: if_splits prod.splits)
  then show "ch = bef @ fr" "\<forall>x \<in> set bef. cmpf (it_data x) d \<noteq> 0" "fr \<noteq> [] \<Longrightarrow> cmpf (it_data (hd fr)) d = 0"
    by auto
qed

lemma mset_concat_update:
  "b < length bs \<Longrightarrow> mset (concat (bs[b := l])) + mset (bs ! b) = mset (concat bs) + mset l"
proof -
  assume b: "b < length bs"
  then have "bs = take b bs @ bs ! b # drop (Suc b) bs" by (rule id_take_nth_drop)
  then have "mset (concat bs) = mset (concat (take b bs @ bs ! b # drop (Suc b) bs))" by (rule arg_cong)
  then show ?thesis using b by (simp add: upd_conv_take_nth_drop)
qed

lemma in_buckets: "b < length bs \<Longrightarrow> x \<in> set (bs ! b) \<Longrightarrow> x \<in> set (concat bs)"
  using nth_mem by fastforce

lemma buckets_ok_update:
  "buckets_ok hash n bs \<Longrightarrow> b < n \<Longrightarrow>
   \<forall>x \<in> set l. chained_ok hash n b x \<Longrightarrow> buckets_ok hash n (bs[b := l])"
  by (auto simp: buckets_ok_def nth_list_update)

lemma buckets_ok_replicate: "buckets_ok hash n (replicate n [])"
  by (simp add: buckets_ok_def)

lemma rebucket_items_ok:
  "0 < n \<Longrightarrow> buckets_ok hash n bs \<Longrightarrow> \<forall>x \<in> set xs. it_hash x = hash (it_data x) \<Longrightarrow>
   buckets_ok hash n (foldl (rebucket_item n) bs xs) \<and>
   mset (concat (foldl (rebucket_item n) bs xs)) = mset (concat bs) + mset xs"
proof (induction xs arbitrary: bs)
  case Nil
  then show ?case by simp
next
  case (Cons x xs)
  define b where "b = unat (it_hash x) mod n"
  have b: "b < n" "length bs = n" using Cons.prems by (auto simp: b_def buckets_ok_def)
  have e: "rebucket_item n bs x = bs[b := x # bs ! b]" by (simp add: rebucket_item_def b_def Let_def)
  have "\<forall>y \<in> set (bs ! b). chained_ok hash n b y"
    using Cons.prems(2) b by (simp add: buckets_ok_def)
  moreover have "chained_ok hash n b x" unfolding chained_ok_def b_def using Cons.prems(3) by simp
  ultimately have ok: "buckets_ok hash n (bs[b := x # bs ! b])"
    using Cons.prems(2) b by (intro buckets_ok_update) auto
  have "mset (concat (bs[b := x # bs ! b])) = add_mset x (mset (concat bs))"
    using mset_concat_update [of b bs "x # bs ! b"] b by simp
  then show ?case using Cons.IH [OF Cons.prems(1) ok] Cons.prems(3) by (simp add: e)
qed

lemma rebucket_all_ok:
  "0 < n \<Longrightarrow> buckets_ok hash n bs \<Longrightarrow> \<forall>x \<in> set (concat xss). it_hash x = hash (it_data x) \<Longrightarrow>
   buckets_ok hash n (foldl (foldl (rebucket_item n)) bs xss) \<and>
   mset (concat (foldl (foldl (rebucket_item n)) bs xss)) = mset (concat bs) + mset (concat xss)"
proof (induction xss arbitrary: bs)
  case Nil
  then show ?case by simp
next
  case (Cons xs xss)
  have "\<forall>x \<in> set xs. it_hash x = hash (it_data x)" using Cons.prems(3) by simp
  note ok = rebucket_items_ok [OF Cons.prems(1,2) this]
  then show ?case using Cons.IH [OF Cons.prems(1) conjunct1 [OF ok]] Cons.prems(3) by (simp add: add.assoc)
qed

lemma lh_elems_cong: "mset (concat (lh_buckets a)) = mset (concat (lh_buckets b)) \<Longrightarrow> lh_elems a = lh_elems b"
  by (simp add: lh_elems_def lh_all_def mset_map)

lemma buckets_ok_hash:
  "buckets_ok hash n bs \<Longrightarrow> x \<in> set (concat bs) \<Longrightarrow> it_hash x = hash (it_data x)"
  unfolding buckets_ok_def chained_ok_def set_concat by (metis UN_E in_set_conv_nth)

lemma lh_rebucket_ok:
  assumes ok: "lh_ok lh" and n: "kMinNumBuckets \<le> n"
  shows "lh_ok (lh_rebucket al n lh)" "lh_elems (lh_rebucket al n lh) = lh_elems lh"
    "lh_comp (lh_rebucket al n lh) = lh_comp lh" "lh_hash (lh_rebucket al n lh) = lh_hash lh"
proof -
  let ?r = "lh_rebucket al n lh"
  have "lh_ok ?r \<and> lh_elems ?r = lh_elems lh \<and> lh_comp ?r = lh_comp lh \<and> lh_hash ?r = lh_hash lh"
  proof (cases "sz (8 * n) div 8 \<noteq> n \<or> OPENSSL_malloc al (sz (8 * n)) = None")
    case True
    then have "?r = lh" unfolding lh_rebucket_def Let_def by presburger
    then show ?thesis using ok by simp
  next
    case False
    define bs where "bs = foldl (foldl (rebucket_item n)) (replicate n []) (lh_buckets lh)"
    have r: "?r = lh\<lparr>lh_buckets := bs, lh_num_buckets := n\<rparr>"
      using False by (auto simp: lh_rebucket_def Let_def bs_def)
    have n0: "0 < n" using n by (simp add: kMinNumBuckets_def)
    have "\<forall>x \<in> set (concat (lh_buckets lh)). it_hash x = lh_hash lh (it_data x)"
      using ok buckets_ok_hash unfolding lh_ok_def by blast
    from rebucket_all_ok [OF n0 buckets_ok_replicate this]
    have b: "buckets_ok (lh_hash lh) n bs" "mset (concat bs) = mset (concat (lh_buckets lh))"
      by (simp_all add: bs_def)
    have e: "lh_elems ?r = lh_elems lh" by (rule lh_elems_cong) (simp add: r b(2))
    moreover have "length (concat bs) = length (concat (lh_buckets lh))" using b(2) by (metis size_mset)
    then have "lh_ok ?r" using ok b(1) n e by (simp add: lh_ok_def r lh_all_def)
    ultimately show ?thesis by (simp add: r)
  qed
  then show "lh_ok ?r" "lh_elems ?r = lh_elems lh" "lh_comp ?r = lh_comp lh" "lh_hash ?r = lh_hash lh" by auto
qed

text \<open>Resizing, up or down, is invisible.\<close>

lemma lh_maybe_resize_ok:
  assumes ok: "lh_ok lh"
  shows "lh_ok (lh_maybe_resize al lh)" "lh_elems (lh_maybe_resize al lh) = lh_elems lh"
    "lh_comp (lh_maybe_resize al lh) = lh_comp lh" "lh_hash (lh_maybe_resize al lh) = lh_hash lh"
proof -
  have n: "kMinNumBuckets \<le> lh_num_buckets lh" using ok by (simp add: lh_ok_def)
  let ?half = "if lh_num_buckets lh div 2 < kMinNumBuckets then kMinNumBuckets else lh_num_buckets lh div 2"
  consider "lh_maybe_resize al lh = lh"
    | "lh_maybe_resize al lh = lh_rebucket al (sz (lh_num_buckets lh * 2)) lh"
        "lh_num_buckets lh < sz (lh_num_buckets lh * 2)"
    | "lh_maybe_resize al lh = lh_rebucket al ?half lh"
    unfolding lh_maybe_resize_def Let_def by presburger
  then have "lh_maybe_resize al lh = lh \<or> (\<exists>n \<ge> kMinNumBuckets. lh_maybe_resize al lh = lh_rebucket al n lh)"
  proof cases
    case 1
    then show ?thesis ..
  next
    case 2
    then have "kMinNumBuckets \<le> sz (lh_num_buckets lh * 2)" using n by simp
    then show ?thesis using 2(1) by blast
  next
    case 3
    have "kMinNumBuckets \<le> ?half" by simp
    then show ?thesis using 3 by blast
  qed
  with lh_rebucket_ok [OF ok] ok
  show "lh_ok (lh_maybe_resize al lh)" "lh_elems (lh_maybe_resize al lh) = lh_elems lh"
    "lh_comp (lh_maybe_resize al lh) = lh_comp lh" "lh_hash (lh_maybe_resize al lh) = lh_hash lh"
    by auto
qed

section \<open>The table as a set of elements\<close>

lemma insert_fails: "lh_insert al lh d = (False, old, lh') \<Longrightarrow> lh' = lh \<and> old = None"
  by (auto simp: lh_insert_def split: prod.splits list.splits if_splits)

lemma insert_without_memory:
  "lh_retrieve lh d = None \<Longrightarrow> OPENSSL_malloc al 24 = None \<Longrightarrow> lh_insert al lh d = (False, None, lh)"
  by (auto simp: lh_insert_def lh_retrieve_def split: prod.splits list.splits)

lemma insert_with_memory: "OPENSSL_malloc al 24 \<noteq> None \<Longrightarrow> \<exists>old lh'. lh_insert al lh d = (True, old, lh')"
  by (auto simp: lh_insert_def split: prod.splits list.splits)

context lhash_fns
begin

definition table :: "'a lhash \<Rightarrow> bool" where
  "table lh \<longleftrightarrow> lh_ok lh \<and> lh_comp lh = cmpf \<and> lh_hash lh = hash"

lemma table_eq: "table = lh_table cmpf hash"
  by (simp add: fun_eq_iff table_def lh_table_def)

lemma table_new: "lh_new al hash cmpf = Some lh \<Longrightarrow> table lh \<and> lh_elems lh = {#}"
  by (auto simp: lh_new_def table_def lh_ok_def lh_all_def lh_elems_def buckets_ok_replicate all_differ_def
      split: if_splits)

lemma all_differ_unique: "all_differ cmpf M \<Longrightarrow> x \<in># M \<Longrightarrow> y \<in># M \<Longrightarrow> cmpf x y = 0 \<Longrightarrow> x = y"
  unfolding all_differ_def by (rule ccontr) (auto simp: in_diff_count)

lemma split_bucket:
  assumes t: "table lh" and g: "get_next_ptr_and_hash lh d = (b, (bef, fr), h)"
  shows "b < lh_num_buckets lh" "lh_buckets lh ! b = bef @ fr" "h = hash d" "b = unat h mod lh_num_buckets lh"
    "\<forall>x \<in> set bef. cmpf (it_data x) d \<noteq> 0" "fr \<noteq> [] \<Longrightarrow> cmpf (it_data (hd fr)) d = 0"
    "b < length (lh_buckets lh)"
proof -
  have n: "0 < lh_num_buckets lh" using t by (auto simp: table_def lh_ok_def kMinNumBuckets_def)
  have s: "split_chain cmpf d (lh_buckets lh ! b) = (bef, fr)" and bh: "h = hash d" "b = unat h mod lh_num_buckets lh"
    using g t by (auto simp: get_next_ptr_and_hash_def Let_def table_def)
  show "b < lh_num_buckets lh" "h = hash d" "b = unat h mod lh_num_buckets lh" using bh n by auto
  then show "b < length (lh_buckets lh)" using t by (simp add: table_def lh_ok_def buckets_ok_def)
  show "lh_buckets lh ! b = bef @ fr" "\<forall>x \<in> set bef. cmpf (it_data x) d \<noteq> 0"
    "fr \<noteq> [] \<Longrightarrow> cmpf (it_data (hd fr)) d = 0" by (rule split_chain_eq [OF s])+
qed

text \<open>Equal elements have equal hashes, so a match can only be in the bucket searched.\<close>

lemma match_in_bucket:
  assumes t: "table lh" and x: "x \<in># lh_elems lh" "cmpf x d = 0"
  shows "\<exists>i \<in> set (lh_buckets lh ! (unat (hash d) mod lh_num_buckets lh)). it_data i = x"
proof -
  from x(1) obtain i where i: "i \<in> set (concat (lh_buckets lh))" "it_data i = x"
    by (auto simp: lh_elems_def lh_all_def)
  then obtain k where k: "k < length (lh_buckets lh)" "i \<in> set (lh_buckets lh ! k)"
    unfolding set_concat by (metis UN_E in_set_conv_nth)
  have "chained_ok hash (lh_num_buckets lh) k i"
    using t k unfolding table_def lh_ok_def buckets_ok_def by metis
  then have "it_hash i = hash x" "unat (it_hash i) mod lh_num_buckets lh = k"
    unfolding chained_ok_def i(2) [symmetric] by blast+
  then have "k = unat (hash d) mod lh_num_buckets lh" using eq_hash [OF x(2)] by simp
  with k i show ?thesis by blast
qed

lemma retrieve_None: "table lh \<Longrightarrow> lh_retrieve lh d = None \<longleftrightarrow> (\<forall>x \<in># lh_elems lh. cmpf x d \<noteq> 0)"
proof -
  assume t: "table lh"
  obtain b bef fr h where g: "get_next_ptr_and_hash lh d = (b, (bef, fr), h)"
    by (cases "get_next_ptr_and_hash lh d") auto
  note s = split_bucket [OF t g]
  have e: "lh_retrieve lh d = None \<longleftrightarrow> fr = []" by (simp add: lh_retrieve_def g split: list.split)
  show ?thesis
  proof (cases fr)
    case Nil
    have "cmpf x d \<noteq> 0" if x: "x \<in># lh_elems lh" for x
    proof
      assume "cmpf x d = 0"
      from match_in_bucket [OF t x this] obtain i
        where "i \<in> set (lh_buckets lh ! b)" "it_data i = x" using s(3,4) by blast
      with \<open>cmpf x d = 0\<close> s(2,5) Nil show False by auto
    qed
    then show ?thesis using e Nil by simp
  next
    case (Cons i r)
    have "i \<in> set (concat (lh_buckets lh))" by (rule in_buckets [OF s(7)]) (simp add: s(2) Cons)
    then have "it_data i \<in># lh_elems lh" by (simp add: lh_elems_def lh_all_def)
    then show ?thesis using e s(6) Cons by auto
  qed
qed

lemma retrieve_Some: "table lh \<Longrightarrow> lh_retrieve lh d = Some x \<longleftrightarrow> x \<in># lh_elems lh \<and> cmpf x d = 0"
proof -
  assume t: "table lh"
  obtain b bef fr h where g: "get_next_ptr_and_hash lh d = (b, (bef, fr), h)"
    by (cases "get_next_ptr_and_hash lh d") auto
  note s = split_bucket [OF t g]
  have one: "lh_retrieve lh d = Some y \<Longrightarrow> y \<in># lh_elems lh \<and> cmpf y d = 0" for y
  proof -
    assume "lh_retrieve lh d = Some y"
    then obtain i r where i: "fr = i # r" "it_data i = y" by (auto simp: lh_retrieve_def g split: list.splits)
    have "i \<in> set (concat (lh_buckets lh))" by (rule in_buckets [OF s(7)]) (simp add: s(2) i(1))
    then show ?thesis using i s(6) by (auto simp: lh_elems_def lh_all_def)
  qed
  show ?thesis
  proof
    assume "x \<in># lh_elems lh \<and> cmpf x d = 0"
    moreover from this obtain y where y: "lh_retrieve lh d = Some y"
      using retrieve_None [OF t, of d] by (cases "lh_retrieve lh d") auto
    ultimately have "cmpf x y = 0" using one [OF y] eq_sym eq_trans by blast
    then have "x = y"
      using t one [OF y] \<open>x \<in># lh_elems lh \<and> cmpf x d = 0\<close> all_differ_unique
      by (auto simp: table_def lh_ok_def)
    then show "lh_retrieve lh d = Some x" using y by simp
  qed (rule one)
qed

lemma maybe_resize_table: "table lh \<Longrightarrow> table (lh_maybe_resize al lh) \<and> lh_elems (lh_maybe_resize al lh) = lh_elems lh"
  using lh_maybe_resize_ok unfolding table_def by metis

lemma all_differ_add:
  assumes M: "all_differ cmpf M" and d: "\<forall>x \<in># M. cmpf x d \<noteq> 0"
  shows "all_differ cmpf (add_mset d M)"
  unfolding all_differ_def
proof (intro ballI)
  fix x y
  assume x: "x \<in># add_mset d M" and y: "y \<in># add_mset d M - {#x#}"
  show "cmpf x y \<noteq> 0"
  proof (cases "x = d")
    case True
    then have "y \<in># M" using y by simp
    then show ?thesis using d eq_sym True by blast
  next
    case False
    then have xM: "x \<in># M" using x by simp
    then have "add_mset d M - {#x#} = add_mset d (M - {#x#})" by simp
    then have "y = d \<or> y \<in># M - {#x#}" using y by simp
    then show ?thesis using d M xM unfolding all_differ_def by blast
  qed
qed

lemma all_differ_diff: "all_differ cmpf (add_mset x M) \<Longrightarrow> all_differ cmpf M"
  unfolding all_differ_def by (auto simp: in_diff_count split: if_splits)

lemma elems_update:
  assumes "b < length (lh_buckets lh)"
  shows "lh_elems (lh\<lparr>lh_buckets := (lh_buckets lh)[b := l]\<rparr>) + mset (map it_data (lh_buckets lh ! b))
    = lh_elems lh + mset (map it_data l)"
  using arg_cong [OF mset_concat_update [OF assms, of l], of "image_mset it_data"]
  by (simp add: lh_elems_def lh_all_def)

text \<open>The table with one chain changed.\<close>

lemma table_update:
  assumes t: "table lh" and b: "b < lh_num_buckets lh"
    and l: "\<forall>x \<in> set l. chained_ok hash (lh_num_buckets lh) b x"
    and M: "lh_elems (lh\<lparr>lh_buckets := (lh_buckets lh)[b := l]\<rparr>) = M" and d: "all_differ cmpf M"
    and n: "n = size M"
  shows "table (lh\<lparr>lh_buckets := (lh_buckets lh)[b := l], lh_items := n\<rparr>)"
    and "lh_elems (lh\<lparr>lh_buckets := (lh_buckets lh)[b := l], lh_items := n\<rparr>) = M"
proof -
  show e: "lh_elems (lh\<lparr>lh_buckets := (lh_buckets lh)[b := l], lh_items := n\<rparr>) = M"
    using M by (simp add: lh_elems_def lh_all_def)
  have "buckets_ok hash (lh_num_buckets lh) (lh_buckets lh)" using t unfolding table_def lh_ok_def by metis
  then have "buckets_ok hash (lh_num_buckets lh) ((lh_buckets lh)[b := l])" by (rule buckets_ok_update [OF _ b l])
  moreover have "n = length (concat ((lh_buckets lh)[b := l]))"
    using n M by (auto simp: lh_elems_def lh_all_def)
  ultimately show "table (lh\<lparr>lh_buckets := (lh_buckets lh)[b := l], lh_items := n\<rparr>)"
    using t d e unfolding table_def lh_ok_def by (simp add: lh_all_def)
qed

lemma chain_ok:
  assumes t: "table lh" and b: "b < lh_num_buckets lh"
  shows "\<forall>x \<in> set (lh_buckets lh ! b). chained_ok hash (lh_num_buckets lh) b x"
  using t b unfolding table_def lh_ok_def buckets_ok_def by metis

lemma table_items: "table lh \<Longrightarrow> lh_items lh = size (lh_elems lh)"
  by (simp add: table_def lh_ok_def lh_elems_def)

lemma table_differ: "table lh \<Longrightarrow> all_differ cmpf (lh_elems lh)"
  unfolding table_def lh_ok_def by metis

text \<open>Inserting an element that matches one of the table replaces it in its place.\<close>

lemma insert_replaces:
  assumes t: "table lh" and r: "lh_retrieve lh d = Some x" and i: "lh_insert al lh d = (ok, old, lh')"
  shows "ok \<and> old = Some x \<and> table lh' \<and> lh_elems lh' = add_mset d (lh_elems lh - {#x#})"
proof -
  obtain b bef fr h where g: "get_next_ptr_and_hash lh d = (b, (bef, fr), h)"
    by (cases "get_next_ptr_and_hash lh d") auto
  note s = split_bucket [OF t g]
  obtain item rest where fr: "fr = item # rest" "it_data item = x"
    using r by (auto simp: lh_retrieve_def g split: list.splits)
  define l where "l = bef @ item\<lparr>it_data := d\<rparr> # rest"
  have ix: "ok" "old = Some x" "lh' = lh\<lparr>lh_buckets := (lh_buckets lh)[b := l]\<rparr>"
    using i by (simp_all add: lh_insert_def g fr l_def)
  have xm: "x \<in># lh_elems lh" "cmpf x d = 0" using r retrieve_Some [OF t] by auto
  have "lh_elems lh' + {#x#} = lh_elems lh + {#d#}"
    using elems_update [OF s(7), of l] by (simp add: ix s(2) fr l_def)
  then have e: "lh_elems lh' = add_mset d (lh_elems lh - {#x#})"
    using xm(1) by (metis add_mset_add_single add_mset_remove_trivial diff_union_swap2)
  have "all_differ cmpf (lh_elems lh - {#x#})"
    using table_differ [OF t] xm(1) all_differ_diff [of x] by (metis insert_DiffM)
  moreover have "cmpf y d \<noteq> 0" if "y \<in># lh_elems lh - {#x#}" for y
    using that table_differ [OF t] xm eq_sym eq_trans unfolding all_differ_def by blast
  ultimately have d: "all_differ cmpf (lh_elems lh')" unfolding e by (blast intro: all_differ_add)
  have "chained_ok hash (lh_num_buckets lh) b item" using chain_ok [OF t s(1)] s(2) fr by simp
  then have "chained_ok hash (lh_num_buckets lh) b (item\<lparr>it_data := d\<rparr>)"
    using eq_hash [OF xm(2)] fr(2) unfolding chained_ok_def by (metis lhash_item.select_convs lhash_item.surjective lhash_item.update_convs(1))
  then have l: "\<forall>y \<in> set l. chained_ok hash (lh_num_buckets lh) b y"
    using chain_ok [OF t s(1)] s(2) fr by (simp add: l_def ball_Un)
  have "lh_items lh = size (lh_elems lh')"
    using table_items [OF t] xm(1) by (simp add: e size_Suc_Diff1)
  moreover have "lh_elems (lh\<lparr>lh_buckets := (lh_buckets lh)[b := l]\<rparr>) = lh_elems lh'" by (simp add: ix(3))
  ultimately have "table (lh\<lparr>lh_buckets := (lh_buckets lh)[b := l], lh_items := lh_items lh\<rparr>)"
    using table_update(1) [OF t s(1) l _ d] by blast
  then have "table (lh'\<lparr>lh_items := lh_items lh\<rparr>)" by (simp add: ix(3))
  moreover have "lh'\<lparr>lh_items := lh_items lh\<rparr> = lh'" by (simp add: ix(3))
  ultimately show ?thesis using ix e by simp
qed

text \<open>Inserting an element that matches none adds it, or changes nothing when the allocation fails.\<close>

lemma insert_adds:
  assumes t: "table lh" and r: "lh_retrieve lh d = None" and i: "lh_insert al lh d = (ok, old, lh')"
  shows "old = None \<and> table lh' \<and> lh_elems lh' = (if ok then add_mset d (lh_elems lh) else lh_elems lh)"
    and "ok = (OPENSSL_malloc al 24 \<noteq> None)" and "\<not> ok \<Longrightarrow> lh' = lh"
proof -
  obtain b bef fr h where g: "get_next_ptr_and_hash lh d = (b, (bef, fr), h)"
    by (cases "get_next_ptr_and_hash lh d") auto
  note s = split_bucket [OF t g]
  have fr: "fr = []" using r by (auto simp: lh_retrieve_def g split: list.splits)
  define l where "l = bef @ [\<lparr>it_data = d, it_hash = h\<rparr>]"
  define lh1 where "lh1 = lh\<lparr>lh_buckets := (lh_buckets lh)[b := l], lh_items := lh_items lh + 1\<rparr>"
  have ix: "lh_insert al lh d = (if OPENSSL_malloc al 24 = None then (False, None, lh)
      else (True, None, lh_maybe_resize al lh1))"
    by (simp add: lh_insert_def g fr l_def lh1_def)
  have e: "lh_elems (lh\<lparr>lh_buckets := (lh_buckets lh)[b := l]\<rparr>) = add_mset d (lh_elems lh)"
    using elems_update [OF s(7), of l] by (simp add: s(2) fr l_def)
  have d: "all_differ cmpf (add_mset d (lh_elems lh))"
    by (rule all_differ_add [OF table_differ [OF t]]) (use retrieve_None [OF t] r in blast)
  have "chained_ok hash (lh_num_buckets lh) b \<lparr>it_data = d, it_hash = h\<rparr>"
    unfolding chained_ok_def lhash_item.select_convs using s(3,4) by blast
  then have l: "\<forall>y \<in> set l. chained_ok hash (lh_num_buckets lh) b y"
    using chain_ok [OF t s(1)] s(2) fr by (simp add: l_def ball_Un)
  have "lh_items lh + 1 = size (add_mset d (lh_elems lh))" using table_items [OF t] by simp
  note u = table_update [OF t s(1) l e d this]
  have "table (lh_maybe_resize al lh1) \<and> lh_elems (lh_maybe_resize al lh1) = add_mset d (lh_elems lh)"
    using maybe_resize_table [of lh1 al] u unfolding lh1_def by simp
  then show "old = None \<and> table lh' \<and> lh_elems lh' = (if ok then add_mset d (lh_elems lh) else lh_elems lh)"
    "ok = (OPENSSL_malloc al 24 \<noteq> None)" "\<not> ok \<Longrightarrow> lh' = lh"
    using i t unfolding ix by (auto split: if_splits)
qed

lemma delete_removes:
  assumes t: "table lh" and i: "lh_delete al lh d = (r, lh')"
  shows "r = lh_retrieve lh d" "table lh'"
    "lh_elems lh' = (case r of None \<Rightarrow> lh_elems lh | Some x \<Rightarrow> lh_elems lh - {#x#})"
proof -
  obtain b bef fr h where g: "get_next_ptr_and_hash lh d = (b, (bef, fr), h)"
    by (cases "get_next_ptr_and_hash lh d") auto
  note s = split_bucket [OF t g]
  have "r = lh_retrieve lh d \<and> table lh' \<and>
      lh_elems lh' = (case r of None \<Rightarrow> lh_elems lh | Some x \<Rightarrow> lh_elems lh - {#x#})"
  proof (cases fr)
    case Nil
    then have "lh_retrieve lh d = None" by (simp add: lh_retrieve_def g)
    moreover have "(r, lh') = (None, lh)" using i [symmetric] Nil by (simp add: lh_delete_def g)
    ultimately have "lh_retrieve lh d = None" "r = None" "lh' = lh" by simp_all
    then show ?thesis using t by simp
  next
    case (Cons item rest)
    define l where "l = bef @ rest"
    define lh1 where "lh1 = lh\<lparr>lh_buckets := (lh_buckets lh)[b := l], lh_items := lh_items lh - 1\<rparr>"
    have ix: "r = Some (it_data item)" "lh' = lh_maybe_resize al lh1" "lh_retrieve lh d = Some (it_data item)"
      using i by (simp_all add: lh_delete_def lh_retrieve_def g Cons l_def lh1_def)
    have xm: "it_data item \<in># lh_elems lh" using ix(3) retrieve_Some [OF t] by blast
    have "lh_elems (lh\<lparr>lh_buckets := (lh_buckets lh)[b := l]\<rparr>) + {#it_data item#} = lh_elems lh"
      using elems_update [OF s(7), of l] by (simp add: s(2) Cons l_def)
    then have e: "lh_elems (lh\<lparr>lh_buckets := (lh_buckets lh)[b := l]\<rparr>) = lh_elems lh - {#it_data item#}"
      by (metis add_diff_cancel_right')
    have d: "all_differ cmpf (lh_elems lh - {#it_data item#})"
      using table_differ [OF t] xm all_differ_diff [of "it_data item"] by (metis insert_DiffM)
    have l: "\<forall>y \<in> set l. chained_ok hash (lh_num_buckets lh) b y"
      using chain_ok [OF t s(1)] s(2) Cons by (simp add: l_def ball_Un)
    have "lh_items lh - 1 = size (lh_elems lh - {#it_data item#})"
      using table_items [OF t] xm by (simp add: size_Diff_singleton)
    note u = table_update [OF t s(1) l e d this]
    show ?thesis using maybe_resize_table [of lh1 al] u unfolding lh1_def [symmetric] ix by simp
  qed
  then show "r = lh_retrieve lh d" "table lh'"
    "lh_elems lh' = (case r of None \<Rightarrow> lh_elems lh | Some x \<Rightarrow> lh_elems lh - {#x#})" by auto
qed

text \<open>The table is a finite map: what a lookup returns after each operation.\<close>

lemma retrieve_eqI:
  assumes t: "table lh" and x: "x \<in># lh_elems lh" "cmpf x k = 0"
  shows "lh_retrieve lh k = Some x"
  using retrieve_Some [OF t] x by blast

lemma retrieve_SomeD: "table lh \<Longrightarrow> lh_retrieve lh k = Some x \<Longrightarrow> x \<in># lh_elems lh \<and> cmpf x k = 0"
  using retrieve_Some by blast

lemma retrieve_cong:
  assumes t: "table lh" "table lh'"
    and same: "\<And>x. cmpf x k = 0 \<Longrightarrow> x \<in># lh_elems lh' \<longleftrightarrow> x \<in># lh_elems lh"
  shows "lh_retrieve lh' k = lh_retrieve lh k"
proof (cases "lh_retrieve lh k")
  case None
  then show ?thesis using retrieve_None [OF t(1)] retrieve_None [OF t(2)] same by metis
next
  case (Some x)
  with retrieve_SomeD [OF t(1)] same show ?thesis by (metis retrieve_eqI [OF t(2)])
qed

lemma insert_lookup:
  assumes t: "table lh" and i: "lh_insert al lh d = (True, old, lh')"
  shows "table lh'" "old = lh_retrieve lh d"
    "lh_retrieve lh' k = (if cmpf d k = 0 then Some d else lh_retrieve lh k)"
proof -
  have "table lh' \<and> old = lh_retrieve lh d \<and> d \<in># lh_elems lh' \<and>
      (\<forall>x. cmpf x d \<noteq> 0 \<longrightarrow> (x \<in># lh_elems lh' \<longleftrightarrow> x \<in># lh_elems lh))"
  proof (cases "lh_retrieve lh d")
    case None
    from insert_adds(1) [OF t None i] None eq_refl show ?thesis by auto
  next
    case (Some y)
    have y: "cmpf y d = 0" using retrieve_SomeD [OF t Some] by blast
    have m: "x \<in># lh_elems lh - {#y#} \<longleftrightarrow> x \<in># lh_elems lh" if "cmpf x d \<noteq> 0" for x
    proof -
      have "x \<noteq> y" using that y by blast
      then show ?thesis by (simp add: in_diff_count flip: count_greater_zero_iff)
    qed
    from insert_replaces [OF t Some i] have e: "table lh'" "old = Some y"
      "lh_elems lh' = add_mset d (lh_elems lh - {#y#})" by blast+
    have "x \<in># lh_elems lh' \<longleftrightarrow> x \<in># lh_elems lh" if "cmpf x d \<noteq> 0" for x
      using that m [OF that] eq_refl by (auto simp: e(3))
    then show ?thesis using e Some by simp
  qed
  then have *: "table lh'" "old = lh_retrieve lh d" "d \<in># lh_elems lh'"
    "\<And>x. cmpf x d \<noteq> 0 \<Longrightarrow> (x \<in># lh_elems lh' \<longleftrightarrow> x \<in># lh_elems lh)" by blast+
  then show "table lh'" "old = lh_retrieve lh d" by blast+
  show "lh_retrieve lh' k = (if cmpf d k = 0 then Some d else lh_retrieve lh k)"
  proof (cases "cmpf d k = 0")
    case True
    then show ?thesis using retrieve_eqI [OF *(1,3)] by simp
  next
    case False
    have "lh_retrieve lh' k = lh_retrieve lh k"
      by (rule retrieve_cong [OF t *(1)], rule *(4)) (use False eq_sym eq_trans in blast)
    then show ?thesis using False by simp
  qed
qed

lemma delete_lookup:
  assumes t: "table lh" and i: "lh_delete al lh d = (r, lh')"
  shows "table lh'" "r = lh_retrieve lh d"
    "lh_retrieve lh' k = (if cmpf d k = 0 then None else lh_retrieve lh k)"
proof -
  note del = delete_removes [OF t i]
  show t': "table lh'" "r = lh_retrieve lh d" using del by blast+
  have sub: "x \<in># lh_elems lh' \<Longrightarrow> x \<in># lh_elems lh" for x
    using del(3) by (auto split: option.splits dest: in_diffD)
  show "lh_retrieve lh' k = (if cmpf d k = 0 then None else lh_retrieve lh k)"
  proof (cases "cmpf d k = 0")
    case True
    have "cmpf x k \<noteq> 0" if x: "x \<in># lh_elems lh'" for x
    proof
      assume xk: "cmpf x k = 0"
      then have xd: "cmpf x d = 0" using True eq_sym eq_trans by blast
      then have r: "r = Some x" using t'(2) retrieve_eqI [OF t sub [OF x]] by simp
      then have "lh_elems lh' = lh_elems lh - {#x#}" using del(3) by simp
      then show False
        using x xd table_differ [OF t] sub [OF x] eq_refl unfolding all_differ_def by metis
    qed
    then show ?thesis using True retrieve_None [OF t'(1)] by simp
  next
    case False
    have "x \<in># lh_elems lh' \<longleftrightarrow> x \<in># lh_elems lh" if "cmpf x k = 0" for x
    proof (cases r)
      case None
      then show ?thesis using del(3) by simp
    next
      case (Some y)
      then have "cmpf y d = 0" using t'(2) retrieve_SomeD [OF t] by metis
      then have "x \<noteq> y" using that False eq_sym eq_trans by blast
      then show ?thesis using del(3) Some by (simp add: in_diff_count flip: count_greater_zero_iff)
    qed
    then show ?thesis using False retrieve_cong [OF t t'(1)] by simp
  qed
qed

end

section \<open>Visiting every element\<close>

text \<open>\<open>lh_doall\<close> calls the function once for every element of the table.\<close>

lemma foldl_chains:
  "foldl (foldl (\<lambda>s cur. f (it_data cur) s)) s bs = fold f (map it_data (concat bs)) s"
  by (induction bs arbitrary: s) (auto simp: foldl_conv_fold fold_map comp_def)

lemma lh_doall_visits:
  "snd (lh_doall al func lh s) = fold func (map it_data (lh_all lh)) s"
  by (simp add: lh_doall_def lh_doall_internal_def Let_def foldl_chains lh_all_def)

lemma lh_depth:
  "lh_ok (lh\<lparr>lh_callback_depth := k\<rparr>) = lh_ok lh" "lh_elems (lh\<lparr>lh_callback_depth := k\<rparr>) = lh_elems lh"
  by (simp_all add: lh_ok_def lh_elems_def lh_all_def)

lemma lh_doall_keeps:
  assumes ok: "lh_ok lh"
  shows "lh_ok (fst (lh_doall al func lh s)) \<and> lh_elems (fst (lh_doall al func lh s)) = lh_elems lh"
proof -
  obtain k where "fst (lh_doall al func lh s) = lh_maybe_resize al (lh\<lparr>lh_callback_depth := k\<rparr>)"
  proof -
    assume *: "\<And>k. fst (lh_doall al func lh s) = lh_maybe_resize al (lh\<lparr>lh_callback_depth := k\<rparr>) \<Longrightarrow> thesis"
    define lh1 where "lh1 = (if lh_callback_depth lh < UINT_MAX
      then lh\<lparr>lh_callback_depth := lh_callback_depth lh + 1\<rparr> else lh)"
    define lh2 where "lh2 = (if lh_callback_depth lh1 < UINT_MAX
      then lh1\<lparr>lh_callback_depth := lh_callback_depth lh1 - 1\<rparr> else lh1)"
    have "fst (lh_doall al func lh s) = lh_maybe_resize al lh2"
      by (simp add: lh_doall_def lh_doall_internal_def Let_def lh1_def lh2_def)
    moreover have "lh2 = lh\<lparr>lh_callback_depth := lh_callback_depth lh2\<rparr>" by (simp add: lh1_def lh2_def)
    ultimately show thesis using * by metis
  qed
  then show ?thesis using ok by (simp add: lh_maybe_resize_ok lh_depth)
qed

end
