(* ===== verification/Obj.thy ===== *)
theory Obj
  imports Oid Set_Of Lhash
begin

text \<open>
  Object identifiers: \<open>ASN1_OBJECT\<close> (crypto/asn1/a_object.c) and the registry of
  crypto/obj/obj.c, which finds objects by NID, by DER contents and by name in a table that is
  compiled in and in four hash tables of objects added at run time. The compiled-in table
  (obj_dat.h, which is generated) is a parameter, and so are the C library's \<open>qsort\<close> and
  \<open>bsearch\<close>. Locks are left out: every operation is one step.
\<close>

section \<open>Objects (a_object.c)\<close>

record asn1_object =
  ob_sn :: "bytes option"
  ob_ln :: "bytes option"
  ob_nid :: int
  ob_length :: int
  ob_data :: "bytes option"
  ob_flags :: u32

definition FLAG_DYNAMIC :: u32 where "FLAG_DYNAMIC = 0x01"
definition FLAG_DYNAMIC_STRINGS :: u32 where "FLAG_DYNAMIC_STRINGS = 0x04"
definition FLAG_DYNAMIC_DATA :: u32 where "FLAG_DYNAMIC_DATA = 0x08"
definition FLAGS_ALL :: u32 where
  "FLAGS_ALL = FLAG_DYNAMIC OR FLAG_DYNAMIC_STRINGS OR FLAG_DYNAMIC_DATA"

definition NID_undef :: int where "NID_undef = 0"

text \<open>
  The \<open>length\<close> bytes behind \<open>data\<close>. An object whose \<open>data\<close> points to fewer
  bytes is not one the code can use; the missing bytes are read as zero.
\<close>

definition obj_bytes :: "asn1_object \<Rightarrow> bytes" where
  "obj_bytes o1 =
     (let n = nat (ob_length o1);
          d = (case ob_data o1 of None \<Rightarrow> [] | Some d \<Rightarrow> d)
      in take n (d @ replicate n 0))"

definition ASN1_OBJECT_new :: "allocator \<Rightarrow> asn1_object option" where
  "ASN1_OBJECT_new al =
     (if OPENSSL_malloc al 40 = None then None
      else Some \<lparr>ob_sn = None, ob_ln = None, ob_nid = 0, ob_length = 0, ob_data = None,
                 ob_flags = FLAG_DYNAMIC\<rparr>)"

text \<open>A string that is copied where there is one; None is an allocation that failed.\<close>

definition dup_opt :: "allocator \<Rightarrow> bytes option \<Rightarrow> bytes option option" where
  "dup_opt al s = (case s of None \<Rightarrow> Some None | Some t \<Rightarrow> map_option Some (OPENSSL_strdup al t))"

definition OBJ_dup :: "allocator \<Rightarrow> asn1_object option \<Rightarrow> asn1_object option" where
  "OBJ_dup al obj =
     (case obj of
        None \<Rightarrow> None
      | Some ob \<Rightarrow>
          if ob_flags ob AND FLAG_DYNAMIC = 0 then Some ob
          else
            (case ASN1_OBJECT_new al of
               None \<Rightarrow> None
             | Some r \<Rightarrow>
                 (case OPENSSL_malloc al (nat (ob_length ob)) of
                    None \<Rightarrow> None
                  | Some data \<Rightarrow>
                      let data' = (if ob_data ob \<noteq> None then write_at data 0 (obj_bytes ob) else data) in
                      (case dup_opt al (ob_ln ob) of
                         None \<Rightarrow> None
                       | Some ln \<Rightarrow>
                           (case dup_opt al (ob_sn ob) of
                              None \<Rightarrow> None
                            | Some sn \<Rightarrow>
                                Some (r\<lparr>ob_data := Some data', ob_length := ob_length ob, ob_nid := ob_nid ob,
                                        ob_sn := sn, ob_ln := ln, ob_flags := ob_flags ob OR FLAGS_ALL\<rparr>))))))"

definition ASN1_OBJECT_create ::
  "allocator \<Rightarrow> int \<Rightarrow> bytes \<Rightarrow> int \<Rightarrow> bytes option \<Rightarrow> bytes option \<Rightarrow> asn1_object option" where
  "ASN1_OBJECT_create al nid data len sn ln =
     OBJ_dup al (Some \<lparr>ob_sn = sn, ob_ln = ln, ob_nid = nid, ob_length = len, ob_data = Some data,
                       ob_flags = FLAGS_ALL\<rparr>)"

text \<open>
  The check of DER contents in \<open>c2i_ASN1_OBJECT\<close>: no subidentifier starts with
  \<open>0x80\<close>. The first argument is the byte before, if any.
\<close>

fun c2i_scan :: "u8 option \<Rightarrow> bytes \<Rightarrow> bool" where
  "c2i_scan prev [] = True"
| "c2i_scan prev (b # bs) =
     (if b = 0x80 \<and> (case prev of None \<Rightarrow> True | Some q \<Rightarrow> q AND 0x80 = 0) then False
      else c2i_scan (Some b) bs)"

definition c2i_valid :: "bytes option \<Rightarrow> int \<Rightarrow> bool" where
  "c2i_valid p len \<longleftrightarrow>
     (case p of
        None \<Rightarrow> False
      | Some bs \<Rightarrow> \<not> (len \<le> 0 \<or> len > int INT_MAX) \<and> bs ! (nat len - 1) AND 0x80 = 0 \<and>
          c2i_scan None (take (nat len) bs))"

text \<open>
  The object \<open>*a\<close> (None where \<open>a\<close> or \<open>*a\<close> is NULL), the bytes behind \<open>*pp\<close> and their
  number. The result is the object returned, the object behind \<open>*a\<close> after the call, and the
  bytes behind \<open>*pp\<close> after it.
\<close>

definition c2i_ASN1_OBJECT ::
  "allocator \<Rightarrow> asn1_object option \<Rightarrow> bytes option \<Rightarrow> int \<Rightarrow>
   asn1_object option \<times> asn1_object option \<times> bytes option" where
  "c2i_ASN1_OBJECT al a p len =
     (if \<not> c2i_valid p len then (None, a, p)
      else
        let bs = the p; n = nat len;
            reuse = (case a of None \<Rightarrow> False | Some ob \<Rightarrow> ob_flags ob AND FLAG_DYNAMIC \<noteq> 0) in
        (case (if reuse then a else ASN1_OBJECT_new al) of
           None \<Rightarrow> (None, a, p)
         | Some ret \<Rightarrow>
             let fresh = (ob_data ret = None \<or> ob_length ret < len) in
             (case (if fresh then OPENSSL_malloc al n else ob_data ret) of
                None \<Rightarrow> (None, if reuse then Some (ret\<lparr>ob_data := None, ob_length := 0\<rparr>) else a, p)
              | Some data \<Rightarrow>
                  let r = ret\<lparr>ob_data := Some (write_at data 0 (take n bs)), ob_length := len,
                              ob_sn := None, ob_ln := None,
                              ob_flags := (if fresh then ob_flags ret OR FLAG_DYNAMIC_DATA else ob_flags ret)\<rparr>
                  in (Some r, Some r, Some (drop n bs)))))"

section \<open>Comparing objects (obj.c)\<close>

definition OBJ_cmp :: "asn1_object \<Rightarrow> asn1_object \<Rightarrow> int" where
  "OBJ_cmp a b =
     (let ret = ob_length a - ob_length b in
      if ret \<noteq> 0 then ret else OPENSSL_memcmp (obj_bytes a) (obj_bytes b) (nat (ob_length a)))"

definition OBJ_get0_data :: "asn1_object option \<Rightarrow> bytes option" where
  "OBJ_get0_data obj = (case obj of None \<Rightarrow> None | Some ob \<Rightarrow> ob_data ob)"

definition OBJ_length :: "asn1_object option \<Rightarrow> nat" where
  "OBJ_length obj = (case obj of None \<Rightarrow> 0 | Some ob \<Rightarrow> if ob_length ob < 0 then 0 else nat (ob_length ob))"

section \<open>The hash tables of added objects\<close>

definition hash_nid :: "asn1_object \<Rightarrow> u32" where
  "hash_nid obj = word_of_int (ob_nid obj)"

definition cmp_nid :: "asn1_object \<Rightarrow> asn1_object \<Rightarrow> int" where
  "cmp_nid a b = ob_nid a - ob_nid b"

definition hash_data :: "asn1_object \<Rightarrow> u32" where
  "hash_data obj = OPENSSL_hash32 (obj_bytes obj) (nat (ob_length obj))"

definition cmp_data :: "asn1_object \<Rightarrow> asn1_object \<Rightarrow> int" where
  "cmp_data a b =
     (let i = ob_length a - ob_length b in
      if i \<noteq> 0 then i else OPENSSL_memcmp (obj_bytes a) (obj_bytes b) (nat (ob_length a)))"

text \<open>\<open>strcmp\<close> of two names; the code gives it no NULL, which is made different from every string.\<close>

definition strcmp_opt :: "bytes option \<Rightarrow> bytes option \<Rightarrow> int" where
  "strcmp_opt a b =
     (case (a, b) of (Some s, Some t) \<Rightarrow> strcmp s t | (None, None) \<Rightarrow> 0 | (None, _) \<Rightarrow> -1 | _ \<Rightarrow> 1)"

definition hash_short_name :: "asn1_object \<Rightarrow> u32" where
  "hash_short_name obj = lh_strhash (ob_sn obj)"

definition cmp_short_name :: "asn1_object \<Rightarrow> asn1_object \<Rightarrow> int" where
  "cmp_short_name a b = strcmp_opt (ob_sn a) (ob_sn b)"

definition hash_long_name :: "asn1_object \<Rightarrow> u32" where
  "hash_long_name obj = lh_strhash (ob_ln obj)"

definition cmp_long_name :: "asn1_object \<Rightarrow> asn1_object \<Rightarrow> int" where
  "cmp_long_name a b = strcmp_opt (ob_ln a) (ob_ln b)"

section \<open>The comparisons are what the tables need\<close>

lemma length_obj_bytes [simp]: "length (obj_bytes a) = nat (ob_length a)"
  by (simp add: obj_bytes_def Let_def)

lemma cmp_data_zero_iff: "cmp_data a b = 0 \<longleftrightarrow> ob_length a = ob_length b \<and> obj_bytes a = obj_bytes b"
  by (auto simp: cmp_data_def Let_def memcmp_zero_iff)

lemma cmp_nid_zero_iff: "cmp_nid a b = 0 \<longleftrightarrow> ob_nid a = ob_nid b"
  by (simp add: cmp_nid_def)

lemma strcmp_opt_zero_iff: "strcmp_opt a b = 0 \<longleftrightarrow> map_option c_str a = map_option c_str b"
  by (auto simp: strcmp_opt_def strcmp_zero_iff split: option.splits)

lemma cmp_name_zero_iff:
  "cmp_short_name a b = 0 \<longleftrightarrow> map_option c_str (ob_sn a) = map_option c_str (ob_sn b)"
  "cmp_long_name a b = 0 \<longleftrightarrow> map_option c_str (ob_ln a) = map_option c_str (ob_ln b)"
  by (simp_all add: cmp_short_name_def cmp_long_name_def strcmp_opt_zero_iff)

lemma lh_strhash_cong: "map_option c_str a = map_option c_str b \<Longrightarrow> lh_strhash a = lh_strhash b"
  by (cases a; cases b) (auto simp: lh_strhash_def OPENSSL_hash32_def take_strlen)

interpretation by_nid: lhash_fns cmp_nid hash_nid
  by unfold_locales (auto simp: cmp_nid_zero_iff hash_nid_def)

interpretation by_data: lhash_fns cmp_data hash_data
  by unfold_locales (auto simp: cmp_data_zero_iff hash_data_def)

interpretation by_short_name: lhash_fns cmp_short_name hash_short_name
  by unfold_locales (auto simp: cmp_name_zero_iff hash_short_name_def intro: lh_strhash_cong)

interpretation by_long_name: lhash_fns cmp_long_name hash_long_name
  by unfold_locales (auto simp: cmp_name_zero_iff hash_long_name_def intro: lh_strhash_cong)

section \<open>The compiled-in table and the registry (obj.c)\<close>

record obj_tables =
  kObjects :: "asn1_object list"
  kNIDsInOIDOrder :: "nat list"
  kNIDsInShortNameOrder :: "nat list"
  kNIDsInLongNameOrder :: "nat list"

definition NUM_NID :: "obj_tables \<Rightarrow> nat" where
  "NUM_NID T = length (kObjects T)"

record obj_globals =
  global_added_by_data :: "asn1_object lhash option"
  global_added_by_nid :: "asn1_object lhash option"
  global_added_by_short_name :: "asn1_object lhash option"
  global_added_by_long_name :: "asn1_object lhash option"
  global_next_nid :: u32

definition obj_start :: "obj_tables \<Rightarrow> obj_globals" where
  "obj_start T = \<lparr>global_added_by_data = None, global_added_by_nid = None,
     global_added_by_short_name = None, global_added_by_long_name = None,
     global_next_nid = word_of_nat (NUM_NID T)\<rparr>"

definition obj_next_nid :: "obj_globals \<Rightarrow> int \<times> obj_globals" where
  "obj_next_nid g = (sint (global_next_nid g), g\<lparr>global_next_nid := global_next_nid g + 1\<rparr>)"

definition obj_cmp :: "obj_tables \<Rightarrow> asn1_object \<Rightarrow> nat \<Rightarrow> int" where
  "obj_cmp T a nid =
     (let b = kObjects T ! nid in
      if ob_length a < ob_length b then -1
      else if ob_length a > ob_length b then 1
      else OPENSSL_memcmp (obj_bytes a) (obj_bytes b) (nat (ob_length a)))"

text \<open>A lookup in one of the hash tables, which may not be there yet.\<close>

definition added_retrieve :: "asn1_object lhash option \<Rightarrow> asn1_object \<Rightarrow> asn1_object option" where
  "added_retrieve table key = (case table of None \<Rightarrow> None | Some lh \<Rightarrow> lh_retrieve lh key)"

type_synonym 'k obj_search = "('k \<Rightarrow> nat \<Rightarrow> int) \<Rightarrow> 'k \<Rightarrow> nat list \<Rightarrow> nat option"

text \<open>The element of an order that the search finds, as the NID of the object there.\<close>

definition table_nid :: "obj_tables \<Rightarrow> nat list \<Rightarrow> nat option \<Rightarrow> int" where
  "table_nid T order idx =
     (case idx of None \<Rightarrow> NID_undef | Some i \<Rightarrow> ob_nid (kObjects T ! (order ! i)))"

definition OBJ_obj2nid ::
  "asn1_object obj_search \<Rightarrow> obj_tables \<Rightarrow> obj_globals \<Rightarrow> asn1_object option \<Rightarrow> int" where
  "OBJ_obj2nid bsearch T g obj =
     (case obj of
        None \<Rightarrow> NID_undef
      | Some ob \<Rightarrow>
          if ob_nid ob \<noteq> 0 then ob_nid ob
          else
            (case added_retrieve (global_added_by_data g) ob of
               Some m \<Rightarrow> ob_nid m
             | None \<Rightarrow>
                 table_nid T (kNIDsInOIDOrder T) (bsearch (obj_cmp T) ob (kNIDsInOIDOrder T))))"

text \<open>An object of which only some fields are set.\<close>

definition obj_zero :: asn1_object where
  "obj_zero = \<lparr>ob_sn = None, ob_ln = None, ob_nid = 0, ob_length = 0, ob_data = None, ob_flags = 0\<rparr>"

definition OBJ_cbs2nid :: "asn1_object obj_search \<Rightarrow> obj_tables \<Rightarrow> obj_globals \<Rightarrow> cbs \<Rightarrow> int" where
  "OBJ_cbs2nid bsearch T g cs =
     (if CBS_len cs > INT_MAX then NID_undef
      else OBJ_obj2nid bsearch T g
             (Some (obj_zero\<lparr>ob_data := Some (CBS_data cs), ob_length := int (CBS_len cs)\<rparr>)))"

definition short_name_cmp :: "obj_tables \<Rightarrow> bytes \<Rightarrow> nat \<Rightarrow> int" where
  "short_name_cmp T name nid = strcmp_opt (Some name) (ob_sn (kObjects T ! nid))"

definition OBJ_sn2nid :: "bytes obj_search \<Rightarrow> obj_tables \<Rightarrow> obj_globals \<Rightarrow> bytes \<Rightarrow> int" where
  "OBJ_sn2nid bsearch T g short_name =
     (case added_retrieve (global_added_by_short_name g) (obj_zero\<lparr>ob_sn := Some short_name\<rparr>) of
        Some m \<Rightarrow> ob_nid m
      | None \<Rightarrow> table_nid T (kNIDsInShortNameOrder T)
          (bsearch (short_name_cmp T) short_name (kNIDsInShortNameOrder T)))"

definition long_name_cmp :: "obj_tables \<Rightarrow> bytes \<Rightarrow> nat \<Rightarrow> int" where
  "long_name_cmp T name nid = strcmp_opt (Some name) (ob_ln (kObjects T ! nid))"

definition OBJ_ln2nid :: "bytes obj_search \<Rightarrow> obj_tables \<Rightarrow> obj_globals \<Rightarrow> bytes \<Rightarrow> int" where
  "OBJ_ln2nid bsearch T g long_name =
     (case added_retrieve (global_added_by_long_name g) (obj_zero\<lparr>ob_ln := Some long_name\<rparr>) of
        Some m \<Rightarrow> ob_nid m
      | None \<Rightarrow> table_nid T (kNIDsInLongNameOrder T)
          (bsearch (long_name_cmp T) long_name (kNIDsInLongNameOrder T)))"

definition OBJ_nid2obj :: "obj_tables \<Rightarrow> obj_globals \<Rightarrow> int \<Rightarrow> asn1_object option" where
  "OBJ_nid2obj T g nid =
     (if nid \<ge> 0 \<and> nid < int (NUM_NID T) then
        if nid \<noteq> NID_undef \<and> ob_nid (kObjects T ! nat nid) = NID_undef then None
        else Some (kObjects T ! nat nid)
      else added_retrieve (global_added_by_nid g) (obj_zero\<lparr>ob_nid := nid\<rparr>))"

definition OBJ_nid2sn :: "obj_tables \<Rightarrow> obj_globals \<Rightarrow> int \<Rightarrow> bytes option" where
  "OBJ_nid2sn T g nid = (case OBJ_nid2obj T g nid of None \<Rightarrow> None | Some obj \<Rightarrow> ob_sn obj)"

definition OBJ_nid2ln :: "obj_tables \<Rightarrow> obj_globals \<Rightarrow> int \<Rightarrow> bytes option" where
  "OBJ_nid2ln T g nid = (case OBJ_nid2obj T g nid of None \<Rightarrow> None | Some obj \<Rightarrow> ob_ln obj)"

definition OBJ_nid2cbb :: "allocator \<Rightarrow> obj_tables \<Rightarrow> obj_globals \<Rightarrow> nat \<Rightarrow> int \<Rightarrow> (cbb, unit) op" where
  "OBJ_nid2cbb al T g d nid =
     (case OBJ_nid2obj T g nid of
        None \<Rightarrow> op_fail
      | Some obj \<Rightarrow>
          op_bind (CBB_add_asn1 al d CBS_ASN1_OBJECT) (\<lambda>_.
            op_bind (CBB_add_bytes al (d + 1) (obj_bytes obj)) (\<lambda>_. CBB_flush al d)))"

text \<open>\<open>get_nid\<close> is \<open>obj_next_nid\<close> or NULL.\<close>

definition text_oid_der :: "allocator \<Rightarrow> bytes \<Rightarrow> (bytes \<times> nat) option" where
  "text_oid_der al oid =
     (case CBB_init al 32 of
        None \<Rightarrow> None
      | Some cbb \<Rightarrow>
          fst (op_bind (CBB_add_asn1_oid_from_text al 0 oid (strlen oid))
                 (\<lambda>_. CBB_finish al 0 True True) cbb))"

definition create_object_with_text_oid ::
  "allocator \<Rightarrow> bool \<Rightarrow> bytes \<Rightarrow> bytes option \<Rightarrow> bytes option \<Rightarrow> obj_globals \<Rightarrow>
   asn1_object option \<times> obj_globals" where
  "create_object_with_text_oid al get_nid oid sn ln g =
     (case text_oid_der al oid of
        None \<Rightarrow> (None, g)
      | Some (buf, len) \<Rightarrow>
          let (nid, g1) = (if get_nid then obj_next_nid g else (NID_undef, g))
          in (ASN1_OBJECT_create al nid buf (to_int len) sn ln, g1))"

definition OBJ_txt2obj ::
  "bytes obj_search \<Rightarrow> allocator \<Rightarrow> obj_tables \<Rightarrow> obj_globals \<Rightarrow> bytes \<Rightarrow> bool \<Rightarrow> asn1_object option" where
  "OBJ_txt2obj bsearch al T g s dont_search_names =
     (let nid1 = OBJ_sn2nid bsearch T g s;
          nid = (if nid1 = NID_undef then OBJ_ln2nid bsearch T g s else nid1)
      in if \<not> dont_search_names \<and> nid \<noteq> NID_undef then OBJ_nid2obj T g nid
         else fst (create_object_with_text_oid al False s None None g))"

definition OBJ_txt2nid ::
  "bytes obj_search \<Rightarrow> asn1_object obj_search \<Rightarrow> allocator \<Rightarrow> obj_tables \<Rightarrow> obj_globals \<Rightarrow> bytes \<Rightarrow> int" where
  "OBJ_txt2nid bsearch bsearch_oid al T g s =
     OBJ_obj2nid bsearch_oid T g (OBJ_txt2obj bsearch al T g s False)"

text \<open>The return value and the bytes at \<open>dst\<close>.\<close>

definition strlcpy_int :: "bytes \<Rightarrow> bytes \<Rightarrow> int \<Rightarrow> int \<times> bytes" where
  "strlcpy_int dst src dst_size =
     (case BUF_strlcpy dst src (if dst_size < 0 then 0 else nat dst_size) of
        (ret, dst') \<Rightarrow> (if ret > INT_MAX then -1 else int ret, dst'))"

definition OBJ_obj2txt ::
  "asn1_object obj_search \<Rightarrow> allocator \<Rightarrow> obj_tables \<Rightarrow> obj_globals \<Rightarrow> bytes \<Rightarrow> int \<Rightarrow>
   asn1_object option \<Rightarrow> bool \<Rightarrow> int \<times> bytes" where
  "OBJ_obj2txt bsearch al T g out out_len obj always_return_oid =
     (case obj of
        None \<Rightarrow> strlcpy_int out [] out_len
      | Some ob \<Rightarrow>
          if ob_length ob = 0 then strlcpy_int out [] out_len
          else
            let nid = OBJ_obj2nid bsearch T g obj;
                name = (case OBJ_nid2ln T g nid of None \<Rightarrow> OBJ_nid2sn T g nid | Some n \<Rightarrow> Some n)
            in if \<not> always_return_oid \<and> nid \<noteq> NID_undef \<and> name \<noteq> None
               then strlcpy_int out (the name) out_len
               else
                 (case CBS_asn1_oid_to_text al (obj_bytes ob) of
                    None \<Rightarrow> (-1, if out_len > 0 then out[0 := 0] else out)
                  | Some txt \<Rightarrow> strlcpy_int out txt out_len))"

text \<open>
  Adding an object. The outer None is the use of a NULL table: the tables are created together
  and the code looks at \<open>global_added_by_nid\<close> only, and not at whether they could be created.
\<close>

definition added_insert ::
  "allocator \<Rightarrow> asn1_object lhash option \<Rightarrow> asn1_object \<Rightarrow> (bool \<times> asn1_object lhash option) option" where
  "added_insert al table obj =
     (case table of
        None \<Rightarrow> None
      | Some lh \<Rightarrow> (case lh_insert al lh obj of (ok, _, lh') \<Rightarrow> Some (ok, Some lh')))"

definition make_tables :: "allocator \<Rightarrow> obj_globals \<Rightarrow> obj_globals" where
  "make_tables al g =
     (if global_added_by_nid g = None then
        g\<lparr>global_added_by_nid := lh_new al hash_nid cmp_nid,
          global_added_by_data := lh_new al hash_data cmp_data,
          global_added_by_short_name := lh_new al hash_short_name cmp_short_name,
          global_added_by_long_name := lh_new al hash_long_name cmp_long_name\<rparr>
      else g)"

text \<open>An insertion that is made only under a condition; \<open>ok &= ...\<close> otherwise.\<close>

definition insert_if ::
  "allocator \<Rightarrow> bool \<Rightarrow> bool \<Rightarrow> asn1_object lhash option \<Rightarrow> asn1_object \<Rightarrow>
   (bool \<times> asn1_object lhash option) option" where
  "insert_if al c ok table obj =
     (if c then map_option (\<lambda>(ok2, table'). (ok \<and> ok2, table')) (added_insert al table obj)
      else Some (ok, table))"

definition clear_flags :: "asn1_object \<Rightarrow> asn1_object" where
  "clear_flags obj = obj\<lparr>ob_flags := ob_flags obj AND NOT FLAGS_ALL\<rparr>"

definition obj_add_object :: "allocator \<Rightarrow> asn1_object \<Rightarrow> obj_globals \<Rightarrow> (bool \<times> obj_globals) option" where
  "obj_add_object al obj0 g0 =
     (let obj = clear_flags obj0; g = make_tables al g0 in
      case added_insert al (global_added_by_nid g) obj of
        None \<Rightarrow> None
      | Some (ok1, t1) \<Rightarrow>
          (case insert_if al (ob_length obj \<noteq> 0 \<and> ob_data obj \<noteq> None) ok1 (global_added_by_data g) obj of
             None \<Rightarrow> None
           | Some (ok2, t2) \<Rightarrow>
               (case insert_if al (ob_sn obj \<noteq> None) ok2 (global_added_by_short_name g) obj of
                  None \<Rightarrow> None
                | Some (ok3, t3) \<Rightarrow>
                    (case insert_if al (ob_ln obj \<noteq> None) ok3 (global_added_by_long_name g) obj of
                       None \<Rightarrow> None
                     | Some (ok4, t4) \<Rightarrow>
                         Some (ok4, g\<lparr>global_added_by_nid := t1, global_added_by_data := t2,
                                      global_added_by_short_name := t3,
                                      global_added_by_long_name := t4\<rparr>)))))"

definition OBJ_create ::
  "allocator \<Rightarrow> bytes \<Rightarrow> bytes option \<Rightarrow> bytes option \<Rightarrow> obj_globals \<Rightarrow> (int \<times> obj_globals) option" where
  "OBJ_create al oid sn ln g =
     (case create_object_with_text_oid al True oid sn ln g of
        (None, g1) \<Rightarrow> Some (NID_undef, g1)
      | (Some op, g1) \<Rightarrow>
          (case obj_add_object al op g1 of
             None \<Rightarrow> None
           | Some (ok, g2) \<Rightarrow> Some (if ok then ob_nid op else NID_undef, g2)))"

end
