(* ===== verification/Registry.thy ===== *)
theory Registry
  imports Obj
begin

text \<open>
  What the registry of crypto/obj/obj.c promises: a lookup in the compiled-in table finds the
  object that has the key if there is one; an object created at run time is found under its
  NID, its names and its contents, and the lookups of everything else are what they were; the
  text forms of an object identifier and its DER contents determine each other.
\<close>

section \<open>Searching the compiled-in table\<close>

lemma memcmp_sign: "OPENSSL_memcmp a b n < 0 \<longleftrightarrow> 0 < OPENSSL_memcmp b a n"
  by (induction a b n rule: OPENSSL_memcmp.induct) (auto simp: word_uint_eq_iff)

lemma memcmp_trans:
  "length a = n \<Longrightarrow> length b = n \<Longrightarrow> length c = n \<Longrightarrow>
   OPENSSL_memcmp a b n \<le> 0 \<Longrightarrow> OPENSSL_memcmp b c n \<le> 0 \<Longrightarrow> OPENSSL_memcmp a c n \<le> 0"
proof (induction a b n arbitrary: c rule: OPENSSL_memcmp.induct)
  case (1 x a y b n)
  then show ?case by (cases c) (auto simp: word_uint_eq_iff split: if_splits)
qed auto

text \<open>\<open>obj_cmp\<close> as a comparison of two objects.\<close>

definition data_order :: "asn1_object \<Rightarrow> asn1_object \<Rightarrow> int" where
  "data_order a b =
     (if ob_length a < ob_length b then -1
      else if ob_length a > ob_length b then 1
      else OPENSSL_memcmp (obj_bytes a) (obj_bytes b) (nat (ob_length a)))"

lemma obj_cmp_eq: "obj_cmp T = (\<lambda>a i. data_order a (kObjects T ! i))"
  by (simp add: fun_eq_iff obj_cmp_def data_order_def Let_def)

lemma data_order_zero_iff: "data_order a b = 0 \<longleftrightarrow> ob_length a = ob_length b \<and> obj_bytes a = obj_bytes b"
  by (auto simp: data_order_def memcmp_zero_iff)

lemma data_order_preorder: "cmp_preorder data_order"
  unfolding cmp_preorder_def
proof (intro conjI allI impI)
  fix a b c :: asn1_object
  show "data_order a b < 0 \<longleftrightarrow> 0 < data_order b a"
    using memcmp_sign [of "obj_bytes a" "obj_bytes b"] by (auto simp: data_order_def)
  assume *: "data_order a b \<le> 0" "data_order b c \<le> 0"
  then have le: "ob_length a \<le> ob_length b" "ob_length b \<le> ob_length c"
    by (auto simp: data_order_def split: if_splits)
  show "data_order a c \<le> 0"
  proof (cases "ob_length a = ob_length c")
    case True
    then have "ob_length b = ob_length c" using le by simp
    with * True memcmp_trans [of "obj_bytes a" "nat (ob_length c)" "obj_bytes b" "obj_bytes c"]
    show ?thesis by (simp add: data_order_def)
  qed (use le in \<open>simp add: data_order_def\<close>)
qed

lemma strcmp_sign: "strcmp a b < 0 \<longleftrightarrow> 0 < strcmp b a"
proof (induction a b rule: strcmp.induct)
  case (1 a b)
  show ?case
    by (subst strcmp.simps, subst (2) strcmp.simps) (use 1 in \<open>auto simp: word_uint_eq_iff\<close>)
qed

lemma strcmp_trans: "strcmp a b \<le> 0 \<Longrightarrow> strcmp b c \<le> 0 \<Longrightarrow> strcmp a c \<le> 0"
proof (induction a b arbitrary: c rule: strcmp.induct)
  case (1 a b)
  note ab = "1.prems"(1) [unfolded strcmp.simps [of a b]]
  note bc = "1.prems"(2) [unfolded strcmp.simps [of b c]]
  have lt: "uint (c_char a) \<le> uint (c_char b)" using ab
    by (auto split: if_splits)
  have lt2: "uint (c_char b) \<le> uint (c_char c)" using bc by (auto split: if_splits)
  show ?case
  proof (cases "c_char a = c_char b \<and> c_char b = c_char c \<and> c_char a \<noteq> 0")
    case True
    then have "strcmp (tl a) (tl b) \<le> 0" "strcmp (tl b) (tl c) \<le> 0" using ab bc by auto
    then have "strcmp (tl a) (tl c) \<le> 0" by (intro "1.IH" [of "tl c"]) (use True in auto)
    then show ?thesis using True by (subst strcmp.simps) simp
  next
    case False
    then show ?thesis using lt lt2 by (subst strcmp.simps) (auto simp: word_uint_eq_iff)
  qed
qed

lemma strcmp_opt_preorder: "cmp_preorder strcmp_opt"
  unfolding cmp_preorder_def
proof (intro conjI allI impI)
  fix a b c :: "bytes option"
  show "strcmp_opt a b < 0 \<longleftrightarrow> 0 < strcmp_opt b a"
    by (auto simp: strcmp_opt_def strcmp_sign split: option.split)
  show "strcmp_opt a b \<le> 0 \<Longrightarrow> strcmp_opt b c \<le> 0 \<Longrightarrow> strcmp_opt a c \<le> 0"
    using strcmp_trans by (auto simp: strcmp_opt_def split: option.splits)
qed

lemma short_name_cmp_eq: "short_name_cmp T = (\<lambda>s i. strcmp_opt (Some s) (ob_sn (kObjects T ! i)))"
  by (simp add: fun_eq_iff short_name_cmp_def)

lemma long_name_cmp_eq: "long_name_cmp T = (\<lambda>s i. strcmp_opt (Some s) (ob_ln (kObjects T ! i)))"
  by (simp add: fun_eq_iff long_name_cmp_def)

text \<open>
  What the generator of obj_dat.h promises: the orders list objects of the table in the
  ascending order of their keys, without equal keys.
\<close>

definition order_ok :: "('k \<Rightarrow> 'k \<Rightarrow> int) \<Rightarrow> (asn1_object \<Rightarrow> 'k) \<Rightarrow> obj_tables \<Rightarrow> nat list \<Rightarrow> bool" where
  "order_ok cmp key T order \<longleftrightarrow>
     sorted_wrt (\<lambda>i j. cmp (key (kObjects T ! i)) (key (kObjects T ! j)) < 0) order"

definition tables_ok :: "obj_tables \<Rightarrow> bool" where
  "tables_ok T \<longleftrightarrow> order_ok data_order (\<lambda>a. a) T (kNIDsInOIDOrder T) \<and>
     order_ok strcmp_opt ob_sn T (kNIDsInShortNameOrder T) \<and>
     order_ok strcmp_opt ob_ln T (kNIDsInLongNameOrder T)"

lemma order_ok_unique:
  assumes p: "cmp_preorder cmp" and ok: "order_ok cmp key T order" and i: "i \<in> set order" "j \<in> set order"
    and k: "cmp k (key (kObjects T ! i)) = 0" "cmp k (key (kObjects T ! j)) = 0"
  shows "i = j"
proof (rule ccontr)
  assume "i \<noteq> j"
  from i obtain m n where mn: "m < length order" "n < length order" "i = order ! m" "j = order ! n"
    by (auto simp: in_set_conv_nth)
  note d = cmp_preorderD [OF p]
  have *: "cmp (key (kObjects T ! i)) (key (kObjects T ! j)) \<le> 0" "cmp (key (kObjects T ! j)) (key (kObjects T ! i)) \<le> 0"
    using k d(2) d(4) by (metis order_refl)+
  have "m < n \<or> n < m" using mn(3,4) \<open>i \<noteq> j\<close> by (metis linorder_neqE_nat)
  then show False
    using ok mn * d(1) unfolding order_ok_def sorted_wrt_iff_nth_less by (metis linorder_not_less)
qed

text \<open>The index the search returns is that of the element with the key.\<close>

lemma table_search:
  assumes b: "bsearch_spec bs" and p: "cmp_preorder cmp" and ok: "order_ok cmp key T order"
  shows "table_nid T order (bs (\<lambda>k i. cmp (conv k) (key (kObjects T ! i))) k order) =
    (case find (\<lambda>i. cmp (conv k) (key (kObjects T ! i)) = 0) order of
       None \<Rightarrow> NID_undef | Some i \<Rightarrow> ob_nid (kObjects T ! i))"
proof -
  let ?c = "\<lambda>k i. cmp (conv k) (key (kObjects T ! i))"
  have "sorted_wrt (\<lambda>i j. cmp (key (kObjects T ! i)) (key (kObjects T ! j)) \<le> 0) order"
    by (rule sorted_wrt_mono_rel [OF _ ok [unfolded order_ok_def]]) simp
  from ordered_for_map [OF p this, of "conv k"] have o: "ordered_for ?c k order"
    by (simp add: ordered_for_def)
  show ?thesis
  proof (cases "bs ?c k order")
    case None
    with bsearch_spec.find_iff [OF b o] have "find (\<lambda>i. ?c k i = 0) order = None" by (simp add: find_None_iff)
    then show ?thesis using None by (simp add: table_nid_def)
  next
    case (Some n)
    from bsearch_spec.found [OF b o Some] have n: "n < length order" "?c k (order ! n) = 0" by auto
    then obtain i where i: "find (\<lambda>i. ?c k i = 0) order = Some i"
      by (cases "find (\<lambda>i. ?c k i = 0) order") (auto simp: find_None_iff)
    then have "i \<in> set order" "?c k i = 0" by (auto simp: find_Some_iff)
    with order_ok_unique [OF p ok _ nth_mem [OF n(1)]] n(2) have "i = order ! n" by blast
    then show ?thesis using Some i by (simp add: table_nid_def)
  qed
qed

section \<open>Adding an object\<close>

lemma clear_flags_simps [simp]:
  "ob_sn (clear_flags a) = ob_sn a" "ob_ln (clear_flags a) = ob_ln a" "ob_nid (clear_flags a) = ob_nid a"
  "ob_length (clear_flags a) = ob_length a" "ob_data (clear_flags a) = ob_data a"
  "obj_bytes (clear_flags a) = obj_bytes a"
  by (simp_all add: clear_flags_def obj_bytes_def)

lemma cmp_clear_flags [simp]:
  "cmp_nid (clear_flags a) = cmp_nid a" "cmp_data (clear_flags a) = cmp_data a"
  "cmp_short_name (clear_flags a) = cmp_short_name a" "cmp_long_name (clear_flags a) = cmp_long_name a"
  by (simp_all add: fun_eq_iff cmp_nid_def cmp_data_def cmp_short_name_def cmp_long_name_def)

definition opt_table ::
  "(asn1_object \<Rightarrow> asn1_object \<Rightarrow> int) \<Rightarrow> (asn1_object \<Rightarrow> u32) \<Rightarrow> asn1_object lhash option \<Rightarrow> bool" where
  "opt_table cmpf hash t \<longleftrightarrow> (case t of None \<Rightarrow> True | Some lh \<Rightarrow> lh_table cmpf hash lh)"

definition obj_ok :: "obj_globals \<Rightarrow> bool" where
  "obj_ok g \<longleftrightarrow> opt_table cmp_nid hash_nid (global_added_by_nid g) \<and>
     opt_table cmp_data hash_data (global_added_by_data g) \<and>
     opt_table cmp_short_name hash_short_name (global_added_by_short_name g) \<and>
     opt_table cmp_long_name hash_long_name (global_added_by_long_name g) \<and>
     (global_added_by_nid g = None \<longrightarrow> global_added_by_data g = None \<and>
        global_added_by_short_name g = None \<and> global_added_by_long_name g = None)"

lemma obj_ok_start: "obj_ok (obj_start T)"
  by (simp add: obj_ok_def obj_start_def opt_table_def)

lemma obj_ok_next_nid [simp]: "obj_ok (g\<lparr>global_next_nid := n\<rparr>) = obj_ok g"
  by (simp add: obj_ok_def)

context lhash_fns
begin

lemma new_empty: "lh_new al hash cmpf = Some lh \<Longrightarrow> table lh \<and> lh_retrieve lh k = None"
  using table_new retrieve_None by fastforce

end

text \<open>A fresh table holds nothing.\<close>

lemma fresh_table:
  assumes "lhash_fns cmpf hash"
  shows "opt_table cmpf hash (lh_new al hash cmpf)" "added_retrieve (lh_new al hash cmpf) k = None"
  using lhash_fns.new_empty [OF assms, of al _ k]
  by (auto simp: opt_table_def added_retrieve_def lhash_fns.table_eq [OF assms] split: option.split)

lemma added_insert_ok:
  assumes l: "lhash_fns cmpf hash" and t: "opt_table cmpf hash t" and i: "added_insert al t d = Some (ok, t')"
  shows "t \<noteq> None" "opt_table cmpf hash t'" "t' \<noteq> None"
    "added_retrieve t' k = (if ok \<and> cmpf d k = 0 then Some d else added_retrieve t k)"
proof -
  from i obtain lh old lh' where lh: "t = Some lh" "lh_insert al lh d = (ok, old, lh')" "t' = Some lh'"
    by (auto simp: added_insert_def split: option.splits prod.splits)
  show "t \<noteq> None" "t' \<noteq> None" using lh by simp_all
  have tb: "lhash_fns.table cmpf hash lh" using t lh(1) by (simp add: opt_table_def lhash_fns.table_eq [OF l])
  have "opt_table cmpf hash t' \<and>
      added_retrieve t' k = (if ok \<and> cmpf d k = 0 then Some d else added_retrieve t k)"
  proof (cases ok)
    case True
    with lh(2) have i': "lh_insert al lh d = (True, old, lh')" by simp
    from lhash_fns.insert_lookup(1) [OF l tb i'] lhash_fns.insert_lookup(3) [OF l tb i', of k] show ?thesis
      using True lh by (simp add: opt_table_def added_retrieve_def lhash_fns.table_eq [OF l])
  next
    case False
    with lh(2) insert_fails [of al lh d old lh'] have "lh' = lh" by simp
    then show ?thesis using False lh t by (simp add: added_retrieve_def)
  qed
  then show "opt_table cmpf hash t'"
    "added_retrieve t' k = (if ok \<and> cmpf d k = 0 then Some d else added_retrieve t k)" by blast+
qed

lemma insert_if_ok:
  assumes l: "lhash_fns cmpf hash" and t: "opt_table cmpf hash t" and i: "insert_if al c ok0 t d = Some (ok, t')"
  shows "opt_table cmpf hash t'"
    "ok \<Longrightarrow> added_retrieve t' k = (if c \<and> cmpf d k = 0 then Some d else added_retrieve t k)" "ok \<Longrightarrow> ok0"
  using i added_insert_ok [OF l t, of al d _ t'] t
  by (auto simp: insert_if_def split: if_splits)

lemma make_tables_ok:
  assumes "obj_ok g"
  shows "opt_table cmp_nid hash_nid (global_added_by_nid (make_tables al g))"
    "opt_table cmp_data hash_data (global_added_by_data (make_tables al g))"
    "opt_table cmp_short_name hash_short_name (global_added_by_short_name (make_tables al g))"
    "opt_table cmp_long_name hash_long_name (global_added_by_long_name (make_tables al g))"
    "added_retrieve (global_added_by_nid (make_tables al g)) k = added_retrieve (global_added_by_nid g) k"
    "added_retrieve (global_added_by_data (make_tables al g)) k = added_retrieve (global_added_by_data g) k"
    "added_retrieve (global_added_by_short_name (make_tables al g)) k = added_retrieve (global_added_by_short_name g) k"
    "added_retrieve (global_added_by_long_name (make_tables al g)) k = added_retrieve (global_added_by_long_name g) k"
proof -
  have e: "added_retrieve None k = None" by (simp add: added_retrieve_def)
  note f = fresh_table [OF by_nid.lhash_fns_axioms] fresh_table [OF by_data.lhash_fns_axioms]
    fresh_table [OF by_short_name.lhash_fns_axioms] fresh_table [OF by_long_name.lhash_fns_axioms]
  show "opt_table cmp_nid hash_nid (global_added_by_nid (make_tables al g))"
    "opt_table cmp_data hash_data (global_added_by_data (make_tables al g))"
    "opt_table cmp_short_name hash_short_name (global_added_by_short_name (make_tables al g))"
    "opt_table cmp_long_name hash_long_name (global_added_by_long_name (make_tables al g))"
    using assms f by (simp_all add: make_tables_def obj_ok_def)
  show "added_retrieve (global_added_by_nid (make_tables al g)) k = added_retrieve (global_added_by_nid g) k"
    "added_retrieve (global_added_by_data (make_tables al g)) k = added_retrieve (global_added_by_data g) k"
    "added_retrieve (global_added_by_short_name (make_tables al g)) k = added_retrieve (global_added_by_short_name g) k"
    "added_retrieve (global_added_by_long_name (make_tables al g)) k = added_retrieve (global_added_by_long_name g) k"
    using assms f e by (auto simp: make_tables_def obj_ok_def)
qed

lemma obj_add_object_ok:
  assumes g: "obj_ok g" and r: "obj_add_object al ob g = Some (ok, g')"
  shows "obj_ok g'"
    "ok \<Longrightarrow> added_retrieve (global_added_by_nid g') k =
       (if cmp_nid ob k = 0 then Some (clear_flags ob) else added_retrieve (global_added_by_nid g) k)"
    "ok \<Longrightarrow> added_retrieve (global_added_by_data g') k =
       (if ob_length ob \<noteq> 0 \<and> ob_data ob \<noteq> None \<and> cmp_data ob k = 0 then Some (clear_flags ob)
        else added_retrieve (global_added_by_data g) k)"
    "ok \<Longrightarrow> added_retrieve (global_added_by_short_name g') k =
       (if ob_sn ob \<noteq> None \<and> cmp_short_name ob k = 0 then Some (clear_flags ob)
        else added_retrieve (global_added_by_short_name g) k)"
    "ok \<Longrightarrow> added_retrieve (global_added_by_long_name g') k =
       (if ob_ln ob \<noteq> None \<and> cmp_long_name ob k = 0 then Some (clear_flags ob)
        else added_retrieve (global_added_by_long_name g) k)"
proof -
  let ?d = "clear_flags ob" and ?g = "make_tables al g"
  note m = make_tables_ok [OF g]
  from r obtain ok1 t1 ok2 t2 ok3 t3 t4 where
    i1: "added_insert al (global_added_by_nid ?g) ?d = Some (ok1, t1)" and
    i2: "insert_if al (ob_length ob \<noteq> 0 \<and> ob_data ob \<noteq> None) ok1 (global_added_by_data ?g) ?d = Some (ok2, t2)" and
    i3: "insert_if al (ob_sn ob \<noteq> None) ok2 (global_added_by_short_name ?g) ?d = Some (ok3, t3)" and
    i4: "insert_if al (ob_ln ob \<noteq> None) ok3 (global_added_by_long_name ?g) ?d = Some (ok, t4)" and
    g': "g' = ?g\<lparr>global_added_by_nid := t1, global_added_by_data := t2,
      global_added_by_short_name := t3, global_added_by_long_name := t4\<rparr>"
    by (auto simp: obj_add_object_def Let_def split: option.splits prod.splits)
  note n = added_insert_ok [OF by_nid.lhash_fns_axioms m(1) i1]
  note d = insert_if_ok [OF by_data.lhash_fns_axioms m(2) i2]
  note s = insert_if_ok [OF by_short_name.lhash_fns_axioms m(3) i3]
  note l = insert_if_ok [OF by_long_name.lhash_fns_axioms m(4) i4]
  show "obj_ok g'" using n(2,3) d(1) s(1) l(1) by (auto simp: g' obj_ok_def)
  assume ok
  then have "ok1" "ok2" "ok3" using d(3) s(3) l(3) by auto
  with n(4) d(2) s(2) l(2) m(5-8) \<open>ok\<close>
  show "added_retrieve (global_added_by_nid g') k =
       (if cmp_nid ob k = 0 then Some ?d else added_retrieve (global_added_by_nid g) k)"
    "added_retrieve (global_added_by_data g') k =
       (if ob_length ob \<noteq> 0 \<and> ob_data ob \<noteq> None \<and> cmp_data ob k = 0 then Some ?d
        else added_retrieve (global_added_by_data g) k)"
    "added_retrieve (global_added_by_short_name g') k =
       (if ob_sn ob \<noteq> None \<and> cmp_short_name ob k = 0 then Some ?d
        else added_retrieve (global_added_by_short_name g) k)"
    "added_retrieve (global_added_by_long_name g') k =
       (if ob_ln ob \<noteq> None \<and> cmp_long_name ob k = 0 then Some ?d
        else added_retrieve (global_added_by_long_name g) k)"
    by (auto simp: g')
qed

section \<open>Creating an object\<close>

lemma c_str_nul: "c_str (c_str s @ t) = c_str s @ c_str t"
  by (induction s) (auto simp: c_str_def)

lemma strdup_ok:
  assumes al: "alloc_bounded al" and s: "strlen s < 2 ^ 62" and r: "OPENSSL_strdup al s = Some t"
  shows "c_str t = c_str s"
proof -
  from r obtain b where b: "OPENSSL_malloc al (strlen s + 1) = Some b"
    and t: "t = write_at b 0 (take (strlen s + 1) (s @ [0]))"
    by (auto simp: OPENSSL_strdup_def Let_def split: option.splits)
  have "strlen s + 1 < 2 ^ 63" using s by simp
  from malloc_bounded(1) [OF al b this] have len: "length b = strlen s + 1" .
  have le: "strlen s \<le> length s" by (simp add: strlen_def length_takeWhile_le)
  have "take (strlen s + 1) (s @ [0]) = c_str s @ [0]"
  proof (cases "strlen s = length s")
    case True
    then show ?thesis using take_strlen [of s] by simp
  next
    case False
    then have lt: "strlen s < length s" using le by simp
    then have "s ! strlen s = 0"
      using nth_length_takeWhile [of "\<lambda>c. c \<noteq> 0" s] by (simp add: strlen_def)
    then show ?thesis using lt take_Suc_conv_app_nth [OF lt] take_strlen [of s] by simp
  qed
  then have "t = c_str s @ [0]" by (simp add: t write_at_def len)
  then show ?thesis by (simp add: c_str_nul) (simp add: c_str_def)
qed

lemma dup_opt_ok:
  assumes "alloc_bounded al" "\<And>x. s = Some x \<Longrightarrow> strlen x < 2 ^ 62" "dup_opt al s = Some t"
  shows "map_option c_str t = map_option c_str s"
  using assms strdup_ok [of al] by (auto simp: dup_opt_def split: option.splits)

lemma FLAGS_ALL_dynamic: "FLAGS_ALL AND FLAG_DYNAMIC \<noteq> 0"
  by (simp add: FLAGS_ALL_def FLAG_DYNAMIC_def FLAG_DYNAMIC_STRINGS_def FLAG_DYNAMIC_DATA_def)

lemma ASN1_OBJECT_create_ok:
  assumes al: "alloc_bounded al" and len: "0 \<le> len" "len \<le> int INT_MAX" "nat len \<le> length data"
    and names: "\<And>x. sn = Some x \<Longrightarrow> strlen x < 2 ^ 62" "\<And>x. ln = Some x \<Longrightarrow> strlen x < 2 ^ 62"
    and r: "ASN1_OBJECT_create al nid data len sn ln = Some ob"
  shows "ob_nid ob = nid" "ob_length ob = len" "obj_bytes ob = take (nat len) data" "ob_data ob \<noteq> None"
    "map_option c_str (ob_sn ob) = map_option c_str sn" "map_option c_str (ob_ln ob) = map_option c_str ln"
proof -
  let ?o = "\<lparr>ob_sn = sn, ob_ln = ln, ob_nid = nid, ob_length = len, ob_data = Some data, ob_flags = FLAGS_ALL\<rparr>"
  have bytes: "obj_bytes ?o = take (nat len) data" using len(3) by (simp add: obj_bytes_def)
  from r obtain r0 d ln' sn' where r0: "ASN1_OBJECT_new al = Some r0"
    and d: "OPENSSL_malloc al (nat len) = Some d"
    and ln': "dup_opt al ln = Some ln'" and sn': "dup_opt al sn = Some sn'"
    and ob: "ob = r0\<lparr>ob_data := Some (write_at d 0 (obj_bytes ?o)), ob_length := len, ob_nid := nid,
      ob_sn := sn', ob_ln := ln', ob_flags := FLAGS_ALL OR FLAGS_ALL\<rparr>"
    using FLAGS_ALL_dynamic
    by (auto simp: ASN1_OBJECT_create_def OBJ_dup_def Let_def split: option.splits if_splits)
  have "nat len < 2 ^ 63" using len(2) by (simp add: INT_MAX_def)
  from malloc_bounded(1) [OF al d this] have ld: "length d = nat len" .
  show "ob_nid ob = nid" "ob_length ob = len" "ob_data ob \<noteq> None" by (simp_all add: ob)
  show "obj_bytes ob = take (nat len) data"
    using len(3) by (simp add: ob obj_bytes_def write_at_def ld)
  show "map_option c_str (ob_sn ob) = map_option c_str sn" "map_option c_str (ob_ln ob) = map_option c_str ln"
    using dup_opt_ok [OF al names(1) sn'] dup_opt_ok [OF al names(2) ln'] by (simp_all add: ob)
qed

lemma text_oid_der_ok:
  assumes al: "alloc_bounded al" and r: "text_oid_der al oid = Some (buf, n)"
  shows "\<exists>ns. oid_valid ns \<and> c_str oid = dotted ns \<and> take n buf = oid_der ns" "n \<le> length buf"
proof -
  from r obtain s s2 where i: "CBB_init al 32 = Some s"
    and f: "op_bind (CBB_add_asn1_oid_from_text al 0 oid (strlen oid)) (\<lambda>_. CBB_finish al 0 True True) s
      = (Some (buf, n), s2)"
    by (auto simp: text_oid_der_def prod_eq_iff split: option.splits)
  from f obtain u s1 where a: "CBB_add_asn1_oid_from_text al 0 oid (strlen oid) s = (Some u, s1)"
    and b: "CBB_finish al 0 True True s1 = (Some (buf, n), s2)" by (rule op_bind_SomeD)
  have "(32 :: nat) < 2 ^ 62" by simp
  note at = CBB_init_inv(1) [OF al this i]
  from CBB_add_asn1_oid_from_text_ok [OF cbb_at_inv [OF at] al a] obtain ns where ns: "oid_valid ns"
    "take (strlen oid) oid = dotted ns" "cbb_appends 0 s s1 (oid_der ns)" by blast
  note f = CBB_finish_eq [OF cbb_appends_inv [OF ns(3)] al b]
  show "n \<le> length buf" by (rule f(3))
  have "take n buf = oid_der ns"
    using f(1) ns(3) cbb_at_val [OF at] by (auto simp: cbb_appends_def dest!: cbb_at_val)
  then show "\<exists>ns. oid_valid ns \<and> c_str oid = dotted ns \<and> take n buf = oid_der ns"
    using ns by (auto simp: take_strlen)
qed

section \<open>An object's contents are not longer than its text\<close>

lemma base128_step: "128 \<le> n \<Longrightarrow> length (base128 n) = Suc (length (base128 (n div 128)))"
  by (simp add: base128_def base128_hi.simps [of "n div 128"])

lemma base128_short: "n < 128 \<Longrightarrow> length (base128 n) = 1"
  by (simp add: base128_def)

lemma base128_mono: "m \<le> n \<Longrightarrow> length (base128 m) \<le> length (base128 n)"
proof (induction n arbitrary: m rule: less_induct)
  case (less n)
  show ?case
  proof (cases "m < 128")
    case True
    then show ?thesis by (simp add: base128_short) (simp add: base128_def)
  next
    case False
    then have "128 \<le> m" "128 \<le> n" using less.prems by simp_all
    moreover have "n div 128 < n" "m div 128 \<le> n div 128" using False less.prems by (auto intro: div_le_mono)
    ultimately show ?thesis using less.IH by (simp add: base128_step)
  qed
qed

lemma base128_decimal: "length (base128 n) \<le> length (decimal n)"
proof (induction n rule: less_induct)
  case (less n)
  show ?case
  proof (cases "n < 128")
    case True
    then show ?thesis using decimal_ne [of n] by (simp add: base128_short Suc_le_eq del: decimal_ne)
  next
    case False
    then have "length (base128 n) = Suc (length (base128 (n div 128)))" by (intro base128_step) simp
    also have "\<dots> \<le> Suc (length (base128 (n div 10)))" by (simp add: base128_mono div_le_mono2)
    also have "\<dots> \<le> Suc (length (decimal (n div 10)))" using less.IH [of "n div 10"] False by simp
    also have "\<dots> = length (decimal n)" using False by (simp add: decimal_step [of n])
    finally show ?thesis .
  qed
qed

lemma base128_first: "a \<le> 2 \<Longrightarrow> length (base128 (40 * a + b)) \<le> 1 + length (decimal b)"
proof -
  assume a: "a \<le> 2"
  have "length (base128 (40 * a + b)) \<le> length (base128 (80 + b))" using a by (intro base128_mono) simp
  also have "\<dots> \<le> 1 + length (base128 b)"
  proof (cases "80 + b < 128")
    case True
    then show ?thesis by (simp add: base128_short)
  next
    case False
    then have "(80 + b) div 128 \<le> b" by simp
    then show ?thesis using False base128_mono by (simp add: base128_step)
  qed
  finally show ?thesis using base128_decimal [of b] by linarith
qed

lemma length_base128s: "length (concat (map base128 ns)) \<le> length (dotted ns)"
proof (induction ns)
  case (Cons n ns)
  then show ?case using base128_decimal [of n] by (simp add: dot_tail_def)
qed simp

lemma length_oid_der: "oid_valid ns \<Longrightarrow> length (oid_der ns) \<le> length (dotted ns)"
proof (cases ns rule: oid_valid.cases)
  case (1 a b ms)
  assume "oid_valid ns"
  then have "length (base128 (40 * a + b)) \<le> 1 + length (decimal b)" using 1 by (intro base128_first) simp
  moreover have "1 \<le> length (decimal a)" by (simp add: Suc_le_eq)
  ultimately show ?thesis using length_base128s [of ms] 1 by (simp add: dot_tail_def)
qed simp_all

section \<open>A created object is found\<close>

text \<open>What is known of an object that \<open>OBJ_create\<close> has made and registered.\<close>

definition created :: "bytes \<Rightarrow> bytes option \<Rightarrow> bytes option \<Rightarrow> int \<Rightarrow> asn1_object \<Rightarrow> bool" where
  "created oid sn ln nid ob \<longleftrightarrow> ob_nid ob = nid \<and> ob_data ob \<noteq> None \<and> ob_length ob \<noteq> 0 \<and>
     map_option c_str (ob_sn ob) = map_option c_str sn \<and> map_option c_str (ob_ln ob) = map_option c_str ln \<and>
     (\<exists>ns. oid_valid ns \<and> c_str oid = dotted ns \<and> obj_bytes ob = oid_der ns \<and>
       ob_length ob = int (length (oid_der ns)))"

lemma oid_der_ne: "oid_valid ns \<Longrightarrow> oid_der ns \<noteq> []"
  by (cases ns rule: oid_valid.cases) (auto simp: base128_def)

lemma same_nid: "\<exists>n. (g :: obj_globals) = g\<lparr>global_next_nid := n\<rparr>"
  by (rule exI [of _ "global_next_nid g"]) simp

lemma create_object_nid:
  assumes "create_object_with_text_oid al get_nid oid sn ln g = (op, g')"
  shows "\<exists>n. g' = g\<lparr>global_next_nid := n\<rparr>"
proof (cases "g' = g")
  case True
  then show ?thesis using same_nid by blast
next
  case False
  then show ?thesis using assms
    by (auto simp: create_object_with_text_oid_def obj_next_nid_def split: option.splits if_splits)
qed

lemma create_object_ok:
  assumes al: "alloc_bounded al" and oid: "strlen oid \<le> INT_MAX"
    and names: "\<And>x. sn = Some x \<Longrightarrow> strlen x < 2 ^ 62" "\<And>x. ln = Some x \<Longrightarrow> strlen x < 2 ^ 62"
    and r: "create_object_with_text_oid al get_nid oid sn ln g = (Some ob, g')"
  shows "created oid sn ln (if get_nid then sint (global_next_nid g) else NID_undef) ob"
proof -
  define nid where "nid = (if get_nid then sint (global_next_nid g) else NID_undef)"
  from r obtain buf n where t: "text_oid_der al oid = Some (buf, n)"
    and c: "ASN1_OBJECT_create al nid buf (to_int n) sn ln = Some ob"
    by (auto simp: create_object_with_text_oid_def obj_next_nid_def nid_def split: option.splits if_splits)
  from text_oid_der_ok [OF al t] obtain ns where ns: "oid_valid ns" "c_str oid = dotted ns"
    "take n buf = oid_der ns" "n \<le> length buf" by blast
  then have n: "n = length (oid_der ns)" by (metis length_take min_absorb2)
  moreover have "length (dotted ns) \<le> INT_MAX" using ns(2) oid by (metis length_c_str)
  ultimately have "n \<le> INT_MAX" using length_oid_der [OF ns(1)] by simp
  then have i: "to_int n = int n" by (rule to_int_id)
  have "0 \<le> int n" "int n \<le> int INT_MAX" "nat (int n) \<le> length buf" using \<open>n \<le> INT_MAX\<close> ns(4) by simp_all
  note o = ASN1_OBJECT_create_ok [OF al this names c [unfolded i]]
  have "n \<noteq> 0" using n oid_der_ne [OF ns(1)] by simp
  then have "created oid sn ln nid ob"
    unfolding created_def using o ns(1-3) n by auto
  then show "created oid sn ln (if get_nid then sint (global_next_nid g) else NID_undef) ob"
    by (simp add: nid_def)
qed

lemma OBJ_create_ok:
  assumes al: "alloc_bounded al" and oid: "strlen oid \<le> INT_MAX" and g: "obj_ok g"
    and names: "\<And>x. sn = Some x \<Longrightarrow> strlen x < 2 ^ 62" "\<And>x. ln = Some x \<Longrightarrow> strlen x < 2 ^ 62"
    and r: "OBJ_create al oid sn ln g = Some (nid, g')"
  shows "obj_ok g'"
    "nid \<noteq> NID_undef \<Longrightarrow> \<exists>ob. created oid sn ln nid ob \<and>
       (\<forall>k. added_retrieve (global_added_by_nid g') k =
          (if cmp_nid ob k = 0 then Some ob else added_retrieve (global_added_by_nid g) k)) \<and>
       (\<forall>k. added_retrieve (global_added_by_data g') k =
          (if cmp_data ob k = 0 then Some ob else added_retrieve (global_added_by_data g) k)) \<and>
       (\<forall>k. added_retrieve (global_added_by_short_name g') k =
          (if ob_sn ob \<noteq> None \<and> cmp_short_name ob k = 0 then Some ob
           else added_retrieve (global_added_by_short_name g) k)) \<and>
       (\<forall>k. added_retrieve (global_added_by_long_name g') k =
          (if ob_ln ob \<noteq> None \<and> cmp_long_name ob k = 0 then Some ob
           else added_retrieve (global_added_by_long_name g) k))"
proof -
  obtain op g1 where c: "create_object_with_text_oid al True oid sn ln g = (op, g1)"
    by (cases "create_object_with_text_oid al True oid sn ln g")
  from create_object_nid [OF c]  have ok1: "obj_ok g1" and same: "global_added_by_nid g1 = global_added_by_nid g"
    "global_added_by_data g1 = global_added_by_data g"
    "global_added_by_short_name g1 = global_added_by_short_name g"
    "global_added_by_long_name g1 = global_added_by_long_name g"
    using g by auto
  show "obj_ok g'"
  proof (cases op)
    case None
    then show ?thesis using r c ok1 by (simp add: OBJ_create_def)
  next
    case (Some ob)
    with r c obtain ok where "obj_add_object al ob g1 = Some (ok, g')"
      by (auto simp: OBJ_create_def split: option.splits)
    then show ?thesis by (rule obj_add_object_ok(1) [OF ok1])
  qed
  assume nid: "nid \<noteq> NID_undef"
  with r c obtain ob where op: "op = Some ob" and a: "obj_add_object al ob g1 = Some (True, g')"
    and n: "nid = ob_nid ob" by (auto simp: OBJ_create_def split: option.splits if_splits)
  have cr: "created oid sn ln nid ob"
    using create_object_ok [OF al oid names c [unfolded op]] n by (simp add: created_def)
  note l = obj_add_object_ok(2-5) [OF ok1 a TrueI]
  have "created oid sn ln nid (clear_flags ob)" using cr by (simp add: created_def)
  moreover have "ob_length ob \<noteq> 0" "ob_data ob \<noteq> None" using cr by (simp_all add: created_def)
  ultimately show "\<exists>ob. created oid sn ln nid ob \<and>
       (\<forall>k. added_retrieve (global_added_by_nid g') k =
          (if cmp_nid ob k = 0 then Some ob else added_retrieve (global_added_by_nid g) k)) \<and>
       (\<forall>k. added_retrieve (global_added_by_data g') k =
          (if cmp_data ob k = 0 then Some ob else added_retrieve (global_added_by_data g) k)) \<and>
       (\<forall>k. added_retrieve (global_added_by_short_name g') k =
          (if ob_sn ob \<noteq> None \<and> cmp_short_name ob k = 0 then Some ob
           else added_retrieve (global_added_by_short_name g) k)) \<and>
       (\<forall>k. added_retrieve (global_added_by_long_name g') k =
          (if ob_ln ob \<noteq> None \<and> cmp_long_name ob k = 0 then Some ob
           else added_retrieve (global_added_by_long_name g) k))"
    using l by (intro exI [of _ "clear_flags ob"]) (simp add: same)
qed

section \<open>Text to object to text\<close>

lemma txt2obj_created:
  assumes al: "alloc_bounded al" and s: "strlen s \<le> INT_MAX" and r: "OBJ_txt2obj bs al T g s True = Some ob"
  shows "created s None None NID_undef ob"
proof -
  obtain g' where "create_object_with_text_oid al False s None None g = (Some ob, g')"
    using r by (cases "create_object_with_text_oid al False s None None g") (simp add: OBJ_txt2obj_def)
  from create_object_ok [OF al s _ _ this] show ?thesis by simp
qed

lemma strlcpy_int_ok:
  assumes "0 < n" "n \<le> int (length out)" "strlen src \<le> INT_MAX"
  shows "strlcpy_int out src n = (int (strlen src), write_at out 0 (take (min (nat n - 1) (strlen src)) src @ [0]))"
  using assms by (simp add: strlcpy_int_def BUF_strlcpy_def BUF_strlcpy_at_eq)

lemma obj2txt_created:
  assumes al: "alloc_bounded al" "alloc_total al" and c: "created s None None nid ob" and s: "strlen s \<le> INT_MAX"
    and n: "0 < n" "n \<le> int (length out)"
  shows "OBJ_obj2txt bs al T g out n (Some ob) True =
    (int (strlen s), write_at out 0 (take (nat n - 1) (c_str s) @ [0]))"
proof -
  from c obtain ns where ns: "oid_valid ns" "c_str s = dotted ns" "obj_bytes ob = oid_der ns" "ob_length ob \<noteq> 0"
    by (auto simp: created_def)
  have len: "length (dotted ns) = strlen s" using ns(2) by (metis length_c_str)
  then have "length (dotted ns) < 2 ^ 59" using s by (simp add: INT_MAX_def)
  from CBS_asn1_oid_to_text_succeeds [OF al ns(1) this]
  have t: "CBS_asn1_oid_to_text al (obj_bytes ob) = Some (c_str s @ [0])" by (simp add: ns)
  have l: "strlen (c_str s @ [0]) = strlen s"
    using length_c_str [of "c_str s @ [0]"] by (simp add: c_str_nul strlen_def)
  have "OBJ_obj2txt bs al T g out n (Some ob) True = strlcpy_int out (c_str s @ [0]) n"
    using ns(4) t by (simp add: OBJ_obj2txt_def Let_def)
  also have "\<dots> = (int (strlen s), write_at out 0 (take (min (nat n - 1) (strlen s)) (c_str s @ [0]) @ [0]))"
    using strlcpy_int_ok [OF n, of "c_str s @ [0]"] s by (simp add: l)
  also have "take (min (nat n - 1) (strlen s)) (c_str s @ [0]) = take (nat n - 1) (c_str s)"
    by (simp add: min_def)
  finally show ?thesis .
qed

section \<open>The DER contents that \<open>c2i_ASN1_OBJECT\<close> takes\<close>

lemma high_bit: "b AND 0x80 = 0 \<longleftrightarrow> unat b < 128" for b :: u8
  by (rule and_80_iff)

text \<open>Whether a subidentifier starts at the next byte.\<close>

definition scan_start :: "u8 option \<Rightarrow> bool" where
  "scan_start prev \<longleftrightarrow> (case prev of None \<Rightarrow> True | Some q \<Rightarrow> q AND 0x80 = 0)"

lemma c2i_scan_Cons:
  "c2i_scan prev (b # bs) = (\<not> (b = 0x80 \<and> scan_start prev) \<and> c2i_scan (Some b) bs)"
  by (simp add: scan_start_def)

lemma scan_start_Some: "scan_start (Some b) \<longleftrightarrow> unat b < 128"
  by (simp add: scan_start_def high_bit)

declare c2i_scan.simps(2) [simp del]

lemma c2i_scan_hi:
  "scan_start prev \<Longrightarrow> c2i_scan prev (base128_hi w @ rest) =
     (if w = 0 then c2i_scan prev rest else c2i_scan (Some (word_of_nat (w mod 128 + 128))) rest)"
proof (induction w arbitrary: rest rule: less_induct)
  case (less w)
  show ?case
  proof (cases "w = 0")
    case False
    define b :: u8 where "b = word_of_nat (w mod 128 + 128)"
    have b: "unat b = w mod 128 + 128" by (simp only: b_def unat_byte_of_nat) simp
    define q :: u8 where "q = word_of_nat (w div 128 mod 128 + 128)"
    have q: "unat q = w div 128 mod 128 + 128" by (simp only: q_def unat_byte_of_nat) simp
    have e: "c2i_scan prev (base128_hi w @ rest) =
        (if w div 128 = 0 then c2i_scan prev (b # rest) else c2i_scan (Some q) (b # rest))"
      using less.IH [of "w div 128" "b # rest"] less.prems False
      by (simp add: base128_hi_step [of w] b_def q_def)
    have "b \<noteq> 0x80" if "w div 128 = 0"
    proof
      assume "b = 0x80"
      then have "w mod 128 = 0" using b by simp
      with that False show False by simp
    qed
    then show ?thesis using False q by (auto simp: e c2i_scan_Cons scan_start_Some b_def)
  qed simp
qed

lemma c2i_scan_base128: "scan_start prev \<Longrightarrow> c2i_scan prev (base128 n @ rest) = c2i_scan (Some (word_of_nat (n mod 128))) rest"
proof -
  assume p: "scan_start prev"
  define b :: u8 where "b = word_of_nat (n mod 128)"
  have b: "unat b = n mod 128" by (simp only: b_def unat_byte_of_nat) simp
  then have "b \<noteq> 0x80" by auto
  then show ?thesis
    using c2i_scan_hi [OF p, of "n div 128" "b # rest"]
    by (simp add: base128_def b_def [symmetric] c2i_scan_Cons split: if_splits)
qed

lemma c2i_scan_complete:
  "scan_start prev \<Longrightarrow> c2i_scan prev (concat (map base128 ns))"
proof (induction ns arbitrary: prev)
  case (Cons n ns)
  have "unat (word_of_nat (n mod 128) :: u8) = n mod 128" by (simp only: unat_byte_of_nat) simp
  then have "scan_start (Some (word_of_nat (n mod 128)))" by (simp add: scan_start_Some)
  with Cons show ?case by (simp add: c2i_scan_base128)
qed simp

lemma last_base128: "unat (last (base128 n)) < 128"
proof -
  have "unat (word_of_nat (n mod 128) :: u8) = n mod 128" by (simp only: unat_byte_of_nat) simp
  then show ?thesis by (simp add: base128_def)
qed

lemma last_base128s: "ns \<noteq> [] \<Longrightarrow> unat (last (concat (map base128 ns))) < 128"
proof (induction ns)
  case (Cons n ns)
  have "ns \<noteq> [] \<Longrightarrow> concat (map base128 ns) \<noteq> []" by (cases ns) (auto simp: base128_def)
  with Cons last_base128 [of n] show ?case by (cases "ns = []") auto
qed simp

lemma c2i_scan_sound:
  "c2i_scan prev bs \<Longrightarrow> bs \<noteq> [] \<Longrightarrow> unat (last bs) < 128 \<Longrightarrow> scan_start prev = (w = 0) \<Longrightarrow>
   \<exists>ns. ns \<noteq> [] \<and> base128_hi w @ bs = concat (map base128 ns)"
proof (induction bs arbitrary: prev w)
  case (Cons b bs)
  show ?case
  proof (cases "unat b < 128")
    case True
    have e: "base128_hi w @ [b] = base128 (w * 128 + unat b)"
      using True by (simp add: base128_def div_add1_eq mod_add_eq)
    show ?thesis
    proof (cases "bs = []")
      case True
      then show ?thesis using e by (intro exI [of _ "[w * 128 + unat b]"]) simp
    next
      case False
      have "\<exists>ns. ns \<noteq> [] \<and> base128_hi 0 @ bs = concat (map base128 ns)"
        using Cons.prems True False by (intro Cons.IH [of "Some b"]) (auto simp: c2i_scan_Cons scan_start_Some)
      then obtain ns where "ns \<noteq> []" "bs = concat (map base128 ns)" by auto
      then show ?thesis using e by (intro exI [of _ "(w * 128 + unat b) # ns"]) simp
    qed
  next
    case False
    define v where "v = w * 128 + (unat b - 128)"
    have b: "unat b < 256" by (rule unat_byte_less)
    have nz: "b \<noteq> 0x80 \<or> w \<noteq> 0" using Cons.prems(1,4) by (auto simp: c2i_scan_Cons)
    have "v \<noteq> 0"
    proof
      assume "v = 0"
      then have "w = 0" "unat b = 128" using False by (auto simp: v_def)
      moreover from this(2) have "b = 0x80" by (simp add: word_unat_eq_iff)
      ultimately show False using nz by simp
    qed
    have "v = w * 128 + r \<Longrightarrow> r < 128 \<Longrightarrow> v div 128 = w \<and> v mod 128 = r" for r by simp
    moreover have "unat b - 128 < 128" "unat b - 128 + 128 = unat b" using False b by linarith+
    ultimately have "v div 128 = w" "v mod 128 + 128 = unat b" using v_def by metis+
    with \<open>v \<noteq> 0\<close> have h: "base128_hi v = base128_hi w @ [b]" by (simp add: base128_hi_step)
    have "bs \<noteq> []" using Cons.prems(3) False by auto
    then have "\<exists>ns. ns \<noteq> [] \<and> base128_hi v @ bs = concat (map base128 ns)"
      using Cons.prems False \<open>v \<noteq> 0\<close> by (intro Cons.IH [of "Some b"]) (auto simp: c2i_scan_Cons scan_start_Some)
    then show ?thesis by (simp add: h)
  qed
qed simp

lemma c2i_valid_iff:
  assumes "length bs \<le> INT_MAX"
  shows "c2i_valid (Some bs) (int (length bs)) \<longleftrightarrow> (\<exists>ns. ns \<noteq> [] \<and> bs = concat (map base128 ns))"
proof (cases "bs = []")
  case True
  have "ns \<noteq> [] \<Longrightarrow> concat (map base128 ns) \<noteq> []" for ns by (cases ns) (auto simp: base128_def)
  then show ?thesis using True by (auto simp: c2i_valid_def)
next
  case False
  then have e: "c2i_valid (Some bs) (int (length bs)) \<longleftrightarrow> unat (last bs) < 128 \<and> c2i_scan None bs"
    using assms by (simp add: c2i_valid_def last_conv_nth high_bit)
  have "scan_start None" by (simp add: scan_start_def)
  with c2i_scan_sound [of None bs 0] c2i_scan_complete [of None] last_base128s False
  show ?thesis unfolding e by auto
qed

section \<open>Creating succeeds where memory does not run out\<close>

lemma malloc_total_small:
  assumes "alloc_total al"
  shows "OPENSSL_malloc al 24 \<noteq> None" "OPENSSL_malloc al 40 \<noteq> None" "OPENSSL_malloc al 48 \<noteq> None"
    "OPENSSL_malloc al (8 * kMinNumBuckets) \<noteq> None"
  using malloc_total [OF assms, of 24] malloc_total [OF assms, of 40] malloc_total [OF assms, of 48]
    malloc_total [OF assms, of "8 * kMinNumBuckets"] by (auto simp: kMinNumBuckets_def)

lemma dup_opt_total:
  assumes "alloc_total al" "\<And>x. s = Some x \<Longrightarrow> strlen x < 2 ^ 60"
  shows "\<exists>t. dup_opt al s = Some t"
proof (cases s)
  case None
  then show ?thesis by (simp add: dup_opt_def)
next
  case (Some x)
  then have "strlen x + 1 < 2 ^ 61" using assms(2) [of x] by simp
  from malloc_total [OF assms(1) this] show ?thesis
    using Some by (auto simp: dup_opt_def OPENSSL_strdup_def Let_def)
qed

lemma ASN1_OBJECT_create_total:
  assumes al: "alloc_total al" and len: "nat len < 2 ^ 61"
    and names: "\<And>x. sn = Some x \<Longrightarrow> strlen x < 2 ^ 60" "\<And>x. ln = Some x \<Longrightarrow> strlen x < 2 ^ 60"
  shows "\<exists>ob. ASN1_OBJECT_create al nid data len sn ln = Some ob \<and> ob_nid ob = nid"
proof -
  from malloc_total [OF al len] obtain d where "OPENSSL_malloc al (nat len) = Some d" by blast
  moreover obtain sn' where "dup_opt al sn = Some sn'" using dup_opt_total [OF al, of sn] names(1) by blast
  moreover obtain ln' where "dup_opt al ln = Some ln'" using dup_opt_total [OF al, of ln] names(2) by blast
  ultimately show ?thesis using malloc_total_small [OF al] FLAGS_ALL_dynamic
    by (simp add: ASN1_OBJECT_create_def OBJ_dup_def ASN1_OBJECT_new_def Let_def)
qed

lemma text_oid_der_total:
  assumes al: "alloc_bounded al" "alloc_total al" and ns: "oid_valid ns" "c_str oid = dotted ns"
    and len: "strlen oid < 2 ^ 60"
  shows "\<exists>buf n. text_oid_der al oid = Some (buf, n)"
proof -
  have c32: "(32 :: nat) < 2 ^ 62" "(32 :: nat) < 2 ^ 61" by simp_all
  from CBB_init_total [OF al(2) c32(2)] obtain s where i: "CBB_init al 32 = Some s" by auto
  note init = CBB_init_inv [OF al(1) c32(1) i]
  have "length (oid_der ns) < 2 ^ 60"
    using length_oid_der [OF ns(1)] len arg_cong [OF ns(2), of length] by simp
  then have h: "cbb_holds al s (length (oid_der ns))"
    using init(2) al(2) by (auto simp: cbb_holds_def can_hold_def)
  have "cbb_room al 0 s (length (oid_der ns))" by (rule cbb_room_holds [OF init(1)]) (use h in simp)
  moreover have t: "take (strlen oid) oid = dotted ns" using ns(2) by (simp add: take_strlen)
  ultimately obtain s1 where a: "CBB_add_asn1_oid_from_text al 0 oid (strlen oid) s = (Some (), s1)"
    using CBB_add_asn1_oid_from_text_succeeds [OF cbb_at_inv [OF init(1)] al(1) ns(1) t] by blast
  from CBB_add_asn1_oid_from_text_ok [OF cbb_at_inv [OF init(1)] al(1) a] obtain ms where
    ms: "oid_valid ms" "dotted ns = dotted ms" "cbb_appends 0 s s1 (oid_der ms)" using t by auto
  have "length (oid_der ms) < 2 ^ 60"
    using length_oid_der [OF ms(1)] len arg_cong [OF ns(2), of length] ms(2) by simp
  then have h2: "cbb_holds al s (length (oid_der ms))"
    using init(2) al(2) by (auto simp: cbb_holds_def can_hold_def)
  have v: "cbb_val 0 s1 = Some (oid_der ms)" and k: "cbb_keeps 0 s s1"
    using ms(3) cbb_at_val [OF init(1)] by (auto simp: cbb_appends_def dest!: cbb_at_val)
  from CBB_finish_succeeds [OF cbb_appends_inv [OF ms(3)] al(1) v cbb_keeps_holds [OF k h2]]
  obtain buf n s2 where "CBB_finish al 0 True True s1 = (Some (buf, n), s2)" by blast
  then show ?thesis using i a by (simp add: text_oid_der_def op_bind_Some)
qed

lemma lh_insert_total:
  assumes "alloc_total al"
  shows "\<exists>old lh'. lh_insert al lh d = (True, old, lh')"
  by (rule insert_with_memory [OF malloc_total_small(1) [OF assms]])

definition all_tables :: "obj_globals \<Rightarrow> bool" where
  "all_tables g \<longleftrightarrow> global_added_by_nid g = None \<or> global_added_by_data g \<noteq> None \<and>
     global_added_by_short_name g \<noteq> None \<and> global_added_by_long_name g \<noteq> None"

lemma obj_add_object_total:
  assumes al: "alloc_total al" and g: "all_tables g"
  shows "\<exists>g'. obj_add_object al ob g = Some (True, g')"
proof -
  have new: "lh_new al hash cmpf \<noteq> None" for hash :: "asn1_object \<Rightarrow> u32" and cmpf
    using malloc_total_small(3,4) [OF al] by (simp add: lh_new_def)
  have t: "global_added_by_nid (make_tables al g) \<noteq> None" "global_added_by_data (make_tables al g) \<noteq> None"
    "global_added_by_short_name (make_tables al g) \<noteq> None" "global_added_by_long_name (make_tables al g) \<noteq> None"
    using g new by (auto simp: make_tables_def all_tables_def)
  have ins: "\<exists>t'. added_insert al t d = Some (True, t')" if "t \<noteq> None" for t d
  proof -
    from that obtain lh where "t = Some lh" by auto
    moreover from lh_insert_total [OF al, of lh d] obtain old lh' where "lh_insert al lh d = (True, old, lh')" by blast
    ultimately show ?thesis by (simp add: added_insert_def)
  qed
  have ins_if: "\<exists>t'. insert_if al c True t d = Some (True, t')" if "t \<noteq> None" for c t d
    using ins [OF that, of d] by (auto simp: insert_if_def)
  let ?g = "make_tables al g" and ?d = "clear_flags ob"
  from ins [OF t(1), of ?d] obtain t1 where 1: "added_insert al (global_added_by_nid ?g) ?d = Some (True, t1)" by blast
  from ins_if [OF t(2), of "ob_length ?d \<noteq> 0 \<and> ob_data ?d \<noteq> None" ?d] obtain t2 where
    2: "insert_if al (ob_length ?d \<noteq> 0 \<and> ob_data ?d \<noteq> None) True (global_added_by_data ?g) ?d = Some (True, t2)" by blast
  from ins_if [OF t(3), of "ob_sn ?d \<noteq> None" ?d] obtain t3 where
    3: "insert_if al (ob_sn ?d \<noteq> None) True (global_added_by_short_name ?g) ?d = Some (True, t3)" by blast
  from ins_if [OF t(4), of "ob_ln ?d \<noteq> None" ?d] obtain t4 where
    4: "insert_if al (ob_ln ?d \<noteq> None) True (global_added_by_long_name ?g) ?d = Some (True, t4)" by blast
  show ?thesis unfolding obj_add_object_def Let_def using 1 2 3 4 by (simp del: clear_flags_simps)
qed

lemma OBJ_create_total:
  assumes al: "alloc_bounded al" "alloc_total al" and g: "all_tables g"
    and ns: "oid_valid ns" "c_str oid = dotted ns" and len: "strlen oid \<le> INT_MAX"
    and names: "\<And>x. sn = Some x \<Longrightarrow> strlen x < 2 ^ 60" "\<And>x. ln = Some x \<Longrightarrow> strlen x < 2 ^ 60"
  shows "\<exists>g'. OBJ_create al oid sn ln g = Some (sint (global_next_nid g), g')"
proof -
  have "strlen oid < 2 ^ 60" using len by (simp add: INT_MAX_def)
  from text_oid_der_total [OF al ns this] obtain buf n where t: "text_oid_der al oid = Some (buf, n)" by blast
  have "nat (to_int n) < 2 ^ 61"
    using sint_less [of "word_of_nat n :: u32"] by (simp add: to_int_def)
  from ASN1_OBJECT_create_total [OF al(2) this names] obtain ob where
    "ASN1_OBJECT_create al (sint (global_next_nid g)) buf (to_int n) sn ln = Some ob"
    "ob_nid ob = sint (global_next_nid g)" by metis
  moreover have "all_tables (g\<lparr>global_next_nid := global_next_nid g + 1\<rparr>)" using g by (simp add: all_tables_def)
  with obj_add_object_total [OF al(2)] obtain g' where
    "obj_add_object al ob (g\<lparr>global_next_nid := global_next_nid g + 1\<rparr>) = Some (True, g')" by blast
  ultimately show ?thesis
    using t by (simp add: OBJ_create_def create_object_with_text_oid_def obj_next_nid_def)
qed

section \<open>Writing an object\<close>

lemma OBJ_nid2cbb_ok:
  assumes inv: "cbb_inv d s" and al: "alloc_bounded al" and ob: "OBJ_nid2obj T g nid = Some ob"
    and len: "ob_length ob \<le> int INT_MAX" and r: "OBJ_nid2cbb al T g d nid s = (Some u, s')"
  shows "cbb_appends d s s' (der_element CBS_ASN1_OBJECT (obj_bytes ob))"
proof -
  have l: "length (obj_bytes ob) < 2 ^ 62" using len by (simp add: INT_MAX_def)
  show ?thesis
    by (rule asn1_value_ok(2) [OF inv al r [unfolded OBJ_nid2cbb_def ob option.case Suc_eq_plus1 [symmetric]]])
      (rule cbb_appends_extends, rule CBB_add_bytes_ok [OF _ al l])
qed

text \<open>The text of an identifier is not much longer than its contents.\<close>

lemma length_decimal: "n < 2 ^ 64 \<Longrightarrow> length (decimal n) \<le> 20"
proof -
  assume "n < 2 ^ 64"
  then have "unat (word_of_nat n :: u64) = n" by (simp add: unat_of_nat)
  with decimal_length_le [of "word_of_nat n"] show ?thesis by simp
qed

lemma length_dotteds:
  "list_all (\<lambda>n. n < 2 ^ 64) ns \<Longrightarrow> length (dotted ns) \<le> 21 * length (concat (map base128 ns))"
proof (induction ns)
  case (Cons n ns)
  have "length (decimal n) \<le> 20" using Cons.prems by (intro length_decimal) simp
  moreover have "1 \<le> length (base128 n)" by (simp add: base128_def)
  ultimately show ?case using Cons by (simp add: dot_tail_def)
qed simp

lemma length_dotted: "oid_valid ns \<Longrightarrow> length (dotted ns) \<le> 21 * (length (oid_der ns) + 1)"
proof (cases ns rule: oid_valid.cases)
  case (1 a b ms)
  assume v: "oid_valid ns"
  have "length (decimal a) \<le> 20" "length (decimal b) \<le> 20" using v 1 by (auto intro!: length_decimal)
  moreover have "length (dotted ms) \<le> 21 * length (concat (map base128 ms))" using v 1 by (intro length_dotteds) simp
  moreover have "1 \<le> length (base128 (40 * a + b))" by (simp add: base128_def)
  ultimately show ?thesis using 1 by (simp add: dot_tail_def)
qed simp_all

text \<open>The text determines the identifier.\<close>

lemma dotted_inj:
  "list_all (\<lambda>n. n < 2 ^ 64) ms \<Longrightarrow> list_all (\<lambda>n. n < 2 ^ 64) ns \<Longrightarrow> dotted ms = dotted ns \<Longrightarrow> ms = ns"
proof (induction ms arbitrary: ns)
  case Nil
  then show ?case by (metis dotted_eq_Nil)
next
  case (Cons m ms)
  from Cons.prems(3) obtain n ks where ns: "ns = n # ks" by (cases ns) auto
  have lt: "m < 2 ^ 64" "n < 2 ^ 64" using Cons.prems ns by auto
  have e: "decimal m @ dot_tail (dotted ms) = decimal n @ dot_tail (dotted ks)" using Cons.prems(3) ns by simp
  from parse_dotted_decimal_complete [OF lt(1), of "dotted ms"] parse_dotted_decimal_complete [OF lt(2), of "dotted ks"]
  have "(word_of_nat m :: u64) = word_of_nat n" and t: "dotted ms = dotted ks" unfolding e by auto
  then have "unat (word_of_nat m :: u64) = unat (word_of_nat n :: u64)" by simp
  then have "m = n" using lt by (simp add: unat_of_nat)
  then show ?case using Cons.IH [OF _ _ t] Cons.prems ns by simp
qed

lemma oid_valid_bounds: "oid_valid ns \<Longrightarrow> list_all (\<lambda>n. n < 2 ^ 64) ns"
  by (cases ns rule: oid_valid.cases) auto

end
