(* ===== verification/Lhash_Run.thy ===== *)
theory Lhash_Run
  imports Lhash Obj
begin

text \<open>
  Histories of a hash table (crypto/lhash/lhash.c): every table that \<open>lh_new\<close> and any calls of \<open>lh_insert\<close>,
  \<open>lh_delete\<close> and \<open>lh_doall\<close> lead to, with any failures of the allocator, and what the calls
  returned. A map that is computed from the history alone says what each call has to return.
\<close>

datatype 'a lh_event =
    Inserted 'a bool "'a option"
  | Deleted 'a "'a option"
  | Visited

text \<open>The newest event is the first one.\<close>

inductive lh_reach :: "('a \<Rightarrow> 'a \<Rightarrow> int) \<Rightarrow> ('a \<Rightarrow> u32) \<Rightarrow> 'a lh_event list \<Rightarrow> 'a lhash \<Rightarrow> bool"
  for cmpf hash where
  start: "lh_new al hash cmpf = Some lh \<Longrightarrow> lh_reach cmpf hash [] lh"
| insert: "lh_reach cmpf hash h lh \<Longrightarrow> lh_insert al lh d = (ok, old, lh') \<Longrightarrow>
    lh_reach cmpf hash (Inserted d ok old # h) lh'"
| delete: "lh_reach cmpf hash h lh \<Longrightarrow> lh_delete al lh d = (r, lh') \<Longrightarrow> lh_reach cmpf hash (Deleted d r # h) lh'"
| doall: "lh_reach cmpf hash h lh \<Longrightarrow> lh_doall al func lh (xs :: 'a list) = (lh', ys) \<Longrightarrow>
    lh_reach cmpf hash (Visited # h) lh'"

fun map_after :: "('a \<Rightarrow> 'a \<Rightarrow> int) \<Rightarrow> 'a lh_event list \<Rightarrow> 'a \<Rightarrow> 'a option" where
  "map_after cmpf [] k = None"
| "map_after cmpf (Inserted d ok old # h) k = (if ok \<and> cmpf d k = 0 then Some d else map_after cmpf h k)"
| "map_after cmpf (Deleted d r # h) k = (if cmpf d k = 0 then None else map_after cmpf h k)"
| "map_after cmpf (Visited # h) k = map_after cmpf h k"

fun answers_ok :: "('a \<Rightarrow> 'a \<Rightarrow> int) \<Rightarrow> 'a lh_event list \<Rightarrow> bool" where
  "answers_ok cmpf [] = True"
| "answers_ok cmpf (Inserted d ok old # h) \<longleftrightarrow> old = (if ok then map_after cmpf h d else None) \<and> answers_ok cmpf h"
| "answers_ok cmpf (Deleted d r # h) \<longleftrightarrow> r = map_after cmpf h d \<and> answers_ok cmpf h"
| "answers_ok cmpf (Visited # h) \<longleftrightarrow> answers_ok cmpf h"

lemma lh_doall_fns:
  "lh_comp (fst (lh_doall al func lh s)) = lh_comp lh" "lh_hash (fst (lh_doall al func lh s)) = lh_hash lh"
  by (simp_all add: lh_doall_def lh_doall_internal_def lh_maybe_resize_def lh_rebucket_def Let_def)

context lhash_fns
begin

lemma new_lookup: "lh_new al hash cmpf = Some lh \<Longrightarrow> table lh \<and> lh_retrieve lh k = None"
  using table_new [of al lh] retrieve_None [of lh k] by auto

lemma doall_lookup:
  assumes t: "table lh" and d: "lh_doall al func lh s = (lh', s')"
  shows "table lh' \<and> lh_retrieve lh' k = lh_retrieve lh k"
proof -
  have lh': "lh' = fst (lh_doall al func lh s)" using d by simp
  have "lh_ok lh'" "lh_elems lh' = lh_elems lh" using lh_doall_keeps [of lh al func s] t lh' by (simp_all add: table_def)
  moreover from this(1) have "table lh'" using t lh_doall_fns [of al func lh s] lh' by (simp add: table_def)
  ultimately show ?thesis using retrieve_cong [OF t, of lh' k] by simp
qed

lemma history:
  "lh_reach cmpf hash h lh \<Longrightarrow> table lh \<and> (\<forall>k. lh_retrieve lh k = map_after cmpf h k) \<and> answers_ok cmpf h"
proof (induction h lh rule: lh_reach.induct)
  case (start al lh)
  then show ?case using new_lookup by auto
next
  case (insert h lh al d ok old lh')
  show ?case
  proof (cases ok)
    case True
    then have i: "lh_insert al lh d = (True, old, lh')" using insert.hyps(2) by simp
    show ?thesis using insert_lookup [OF _ i] insert.IH True by simp
  next
    case False
    then show ?thesis using insert_fails [of al lh d old lh'] insert.IH insert.hyps(2) by simp
  qed
next
  case (delete h lh al d r lh')
  show ?case using delete_lookup [OF _ delete.hyps(2)] delete.IH by simp
next
  case (doall h lh al func xs lh' ys)
  show ?case using doall_lookup [OF _ doall.hyps(2)] doall.IH by auto
qed

end

text \<open>C7: Whatever calls a hash table has seen, and wherever memory ran out, it is well formed (every item in the
  bucket of its hash, the count exact, no two equal elements), it holds exactly what a map
  would hold after these calls, and each call has returned what the map would return.\<close>

theorem lh_history:
  assumes "lhash_fns cmpf hash" "lh_reach cmpf hash h lh"
  shows "lh_ok lh \<and> (\<forall>k. lh_retrieve lh k = map_after cmpf h k) \<and> answers_ok cmpf h"
  using lhash_fns.history [OF assms] by (simp add: lhash_fns.table_eq [OF assms(1)] lh_table_def)

text \<open>A failed insertion, one that adds, one that replaces an equal element, a visit and a deletion.\<close>

theorem lh_history_witness:
  "\<exists>a b lh. a \<noteq> b \<and> lh_reach cmp_nid hash_nid
     [Deleted a (Some b), Visited, Inserted b True (Some a), Inserted a True None, Inserted a False None] lh \<and>
     lh_retrieve lh a = None"
proof -
  define a where "a = obj_zero\<lparr>ob_nid := 5\<rparr>"
  define b where "b = a\<lparr>ob_sn := Some []\<rparr>"
  define always :: allocator where "always = (\<lambda>_. Some (\<lambda>_. 0))"
  have ab: "a \<noteq> b" "cmp_nid a a = 0" "cmp_nid b a = 0" "cmp_nid a b = 0" by (simp_all add: a_def b_def obj_zero_def cmp_nid_def)
  note hist = lh_history [OF by_nid.lhash_fns_axioms]
  obtain lh0 where r0: "lh_reach cmp_nid hash_nid [] lh0"
  proof -
    have "lh_new always hash_nid cmp_nid \<noteq> None" by (simp add: lh_new_def OPENSSL_malloc_def always_def)
    then show ?thesis using that lh_reach.start by blast
  qed
  have "lh_insert (\<lambda>_. None) lh0 a = (False, None, lh0)"
    using hist [OF r0] by (intro insert_without_memory) (simp_all add: OPENSSL_malloc_def)
  from lh_reach.insert [OF r0 this] have r1: "lh_reach cmp_nid hash_nid [Inserted a False None] lh0" .
  have m: "OPENSSL_malloc always 24 \<noteq> None" by (simp add: OPENSSL_malloc_def always_def)
  obtain old2 lh2 where "lh_insert always lh0 a = (True, old2, lh2)" using insert_with_memory [OF m, of lh0 a] by blast
  from lh_reach.insert [OF r1 this] have r2: "lh_reach cmp_nid hash_nid [Inserted a True old2, Inserted a False None] lh2" .
  obtain old3 lh3 where "lh_insert always lh2 b = (True, old3, lh3)" using insert_with_memory [OF m, of lh2 b] by blast
  from lh_reach.insert [OF r2 this]
  have r3: "lh_reach cmp_nid hash_nid [Inserted b True old3, Inserted a True old2, Inserted a False None] lh3" .
  obtain lh4 and ys :: "asn1_object list" where "lh_doall always (\<lambda>_ xs. xs) lh3 [] = (lh4, ys)" by (metis surj_pair)
  from lh_reach.doall [OF r3 this]
  have r4: "lh_reach cmp_nid hash_nid [Visited, Inserted b True old3, Inserted a True old2, Inserted a False None] lh4" .
  obtain r lh5 where "lh_delete always lh4 a = (r, lh5)" by (metis surj_pair)
  from lh_reach.delete [OF r4 this] have r5: "lh_reach cmp_nid hash_nid
    [Deleted a r, Visited, Inserted b True old3, Inserted a True old2, Inserted a False None] lh5" .
  from hist [OF r5] have "old2 = None" "old3 = Some a" "r = Some b" "lh_retrieve lh5 a = None" using ab by simp_all
  then show ?thesis using r5 ab(1) by blast
qed

end
