(* ===== verification/Byte_Mem.thy ===== *)
theory Byte_Mem
  imports Prelude
begin

text \<open>
  The flat byte memory the block cipher modes work on, because their contracts are about
  buffers that overlap: a memory gives the byte at each address, \<open>rd m a n\<close> is the n bytes at
  a, \<open>wr m a bs\<close> stores bs at a. Addresses are natural numbers, since a buffer lies inside the
  address space and \<open>p + i\<close> for an index inside it does not wrap. A \<open>for\<close> loop with a fixed
  stride is \<open>for_from\<close>; its invariant rule carries the proofs of the byte and of the word loops.
  The word accessors \<open>load_word_le\<close> and \<open>store_word_le\<close> are those of
  crypto/fipsmodule/modes/internal.h.
\<close>

named_theorems mem_simps

type_synonym memory = "nat \<Rightarrow> u8"

definition rd :: "memory \<Rightarrow> nat \<Rightarrow> nat \<Rightarrow> bytes" where
  "rd m a n = map (\<lambda>i. m (a + i)) [0..<n]"

definition wr :: "memory \<Rightarrow> nat \<Rightarrow> bytes \<Rightarrow> memory" where
  "wr m a bs = (\<lambda>x. if a \<le> x \<and> x < a + length bs then bs ! (x - a) else m x)"

definition apart :: "nat \<Rightarrow> nat \<Rightarrow> nat \<Rightarrow> nat \<Rightarrow> bool" where
  "apart a n b k \<longleftrightarrow> a + n \<le> b \<or> b + k \<le> a"

text \<open>
  An operation that walks upwards through both buffers may write at or behind the place it
  reads, or to a buffer that starts after the input.
\<close>

definition ahead :: "nat \<Rightarrow> nat \<Rightarrow> nat \<Rightarrow> bool" where
  "ahead inp out len \<longleftrightarrow> out \<le> inp \<or> inp + len \<le> out"

lemma length_rd [simp]: "length (rd m a n) = n"
  by (simp add: rd_def)

lemma nth_rd [simp]: "i < n \<Longrightarrow> rd m a n ! i = m (a + i)"
  by (simp add: rd_def)

lemma rd_0 [simp]: "rd m a 0 = []"
  by (simp add: rd_def)

lemma rd_eq_Nil [simp]: "rd m a n = [] \<longleftrightarrow> n = 0"
  by (simp add: rd_def)

lemma rd_Suc: "rd m a (Suc n) = m a # rd m (Suc a) n"
  by (rule nth_equalityI) (auto simp: nth_Cons split: nat.split)

lemma rd_snoc: "rd m a (Suc n) = rd m a n @ [m (a + n)]"
  by (simp add: rd_def)

lemma rd_add: "rd m a (n + k) = rd m a n @ rd m (a + n) k"
  by (rule nth_equalityI) (auto simp: nth_append add.assoc)

lemma take_rd [simp]: "take k (rd m a n) = rd m a (min k n)"
  by (rule nth_equalityI) auto

lemma drop_rd [simp]: "drop k (rd m a n) = rd m (a + k) (n - k)"
  by (rule nth_equalityI) (auto simp: add.assoc)

lemma rd_cong: "(\<And>i. i < n \<Longrightarrow> m (a + i) = m' (b + i)) \<Longrightarrow> rd m a n = rd m' b n"
  by (rule nth_equalityI) auto

lemma wr_Nil [simp]: "wr m a [] = m"
  by (auto simp: wr_def fun_eq_iff)

lemma wr_single [simp]: "wr m a [v] = m(a := v)"
  by (auto simp: wr_def fun_eq_iff)

lemma wr_in: "a \<le> x \<Longrightarrow> x < a + length bs \<Longrightarrow> wr m a bs x = bs ! (x - a)"
  by (simp add: wr_def)

lemma wr_out [mem_simps]: "x < a \<or> a + length bs \<le> x \<Longrightarrow> wr m a bs x = m x"
  by (auto simp: wr_def)

lemma wr_nth [simp]: "i < length bs \<Longrightarrow> wr m a bs (a + i) = bs ! i"
  by (simp add: wr_def)

lemma wr_append: "wr m a (xs @ ys) = wr (wr m a xs) (a + length xs) ys"
  by (auto simp: wr_def fun_eq_iff nth_append)

lemma wr_wr [simp]: "length ys = length xs \<Longrightarrow> wr (wr m a xs) a ys = wr m a ys"
  by (auto simp: wr_def fun_eq_iff)

lemma wr_commute: "apart a (length xs) b (length ys) \<Longrightarrow> wr (wr m a xs) b ys = wr (wr m b ys) a xs"
  by (auto simp: wr_def fun_eq_iff apart_def)

lemma rd_wr [simp]: "length bs = n \<Longrightarrow> rd (wr m a bs) a n = bs"
  by (rule nth_equalityI) auto

lemma rd_wr_apart [mem_simps]: "apart a n b (length bs) \<Longrightarrow> rd (wr m b bs) a n = rd m a n"
  by (rule rd_cong) (auto simp: apart_def wr_def)

lemma rd_upd_apart [mem_simps]: "x < a \<or> a + n \<le> x \<Longrightarrow> rd (m(x := v)) a n = rd m a n"
  by (rule rd_cong) auto

lemma wr_rd_self [simp]: "wr m a (rd m a n) = m"
  by (auto simp: wr_def fun_eq_iff)

lemma apart_sym: "apart a n b k = apart b k a n"
  by (auto simp: apart_def)

lemma apart_mono: "apart a n b k \<Longrightarrow> n' \<le> n \<Longrightarrow> k' \<le> k \<Longrightarrow> apart a n' b k'"
  by (auto simp: apart_def)

lemma apart_sub:
  "apart a n b k \<Longrightarrow> a \<le> a' \<Longrightarrow> a' + n' \<le> a + n \<Longrightarrow> b \<le> b' \<Longrightarrow> b' + k' \<le> b + k \<Longrightarrow> apart a' n' b' k'"
  by (auto simp: apart_def)

text \<open>Bytewise exclusive or of two blocks of the same length.\<close>

definition xor_bytes :: "bytes \<Rightarrow> bytes \<Rightarrow> bytes" where
  "xor_bytes xs ys = map2 (XOR) xs ys"

lemma length_xor_bytes [simp]: "length (xor_bytes xs ys) = min (length xs) (length ys)"
  by (simp add: xor_bytes_def)

lemma nth_xor_bytes [simp]:
  "i < length xs \<Longrightarrow> i < length ys \<Longrightarrow> xor_bytes xs ys ! i = xs ! i XOR ys ! i"
  by (simp add: xor_bytes_def)

lemma xor_bytes_Nil [simp]: "xor_bytes [] ys = []" "xor_bytes xs [] = []"
  by (simp_all add: xor_bytes_def)

lemma xor_bytes_cancel [simp]:
  "length xs \<le> length ks \<Longrightarrow> xor_bytes (xor_bytes xs ks) ks = xs"
  by (rule nth_equalityI) (auto simp: xor.assoc)

lemma xor_bytes_commute: "xor_bytes xs ys = xor_bytes ys xs"
  by (rule nth_equalityI) (auto simp: xor.commute)

lemma xor_bytes_rd_min: "k \<le> j \<Longrightarrow> length xs = k \<Longrightarrow> xor_bytes xs (rd m a j) = xor_bytes xs (rd m a k)"
  by (rule nth_equalityI) auto

lemma xor_bytes_append:
  "length xs = length ks \<Longrightarrow> xor_bytes (xs @ ys) (ks @ ls) = xor_bytes xs ks @ xor_bytes ys ls"
  by (simp add: xor_bytes_def)

lemma take_xor_bytes: "take k (xor_bytes xs ys) = xor_bytes (take k xs) (take k ys)"
  by (rule nth_equalityI) auto

section \<open>Counting loops\<close>

function for_from :: "nat \<Rightarrow> nat \<Rightarrow> nat \<Rightarrow> (nat \<Rightarrow> 's \<Rightarrow> 's) \<Rightarrow> 's \<Rightarrow> 's" where
  "for_from n lim stride body s =
     (if n < lim \<and> 0 < stride then for_from (n + stride) lim stride body (body n s) else s)"
  by pat_completeness auto
termination
  by (relation "measure (\<lambda>(n, lim, _). lim - n)") auto

declare for_from.simps [simp del]

lemma for_from_inv:
  assumes "P n s" and "0 < stride" and "lim = n + q * stride"
    and "\<And>i k t. i < q \<Longrightarrow> k = n + i * stride \<Longrightarrow> P k t \<Longrightarrow> P (k + stride) (body k t)"
  shows "P lim (for_from n lim stride body s)"
  using assms
proof (induction q arbitrary: n s)
  case 0
  then show ?case by (simp add: for_from.simps [of n])
next
  case (Suc q)
  have step: "P (n + stride) (body n s)" using Suc.prems(4) [of 0 n s] Suc.prems(1) by simp
  have "P lim (for_from (n + stride) lim stride body (body n s))"
  proof (rule Suc.IH [OF step Suc.prems(2)])
    show "lim = n + stride + q * stride" using Suc.prems(3) by simp
    fix i k t assume "i < q" "k = n + stride + i * stride" "P k t"
    then show "P (k + stride) (body k t)" using Suc.prems(4) [of "Suc i" k t] by (simp add: add.assoc)
  qed
  then show ?case using Suc.prems(2,3) by (simp add: for_from.simps [of n])
qed

text \<open>
  A loop that stores, in each round, the next \<open>stride\<close> bytes of a result behind the ones it
  has stored.
\<close>

lemma for_from_write:
  assumes lim: "0 < stride" "lim = n + q * stride"
    and body: "\<And>k t. n \<le> k \<Longrightarrow> k + stride \<le> lim \<Longrightarrow> t = wr m (out + n) (map v [n..<k])
        \<Longrightarrow> body k t = wr t (out + k) (map v [k..<k + stride])"
  shows "for_from n lim stride body m = wr m (out + n) (map v [n..<lim])"
proof (rule for_from_inv [where P = "\<lambda>k t. t = wr m (out + n) (map v [n..<k])", OF _ lim])
  fix i k t assume i: "i < q" and k: "k = n + i * stride" and t: "t = wr m (out + n) (map v [n..<k])"
  have le: "n \<le> k" using k by simp
  have "k + stride = n + Suc i * stride" using k by simp
  also have "\<dots> \<le> n + q * stride" using i by (intro add_left_mono mult_le_mono1) simp
  finally have b: "body k t = wr t (out + k) (map v [k..<k + stride])"
    using lim(2) by (intro body [OF le _ t]) simp
  have "[n..<k + stride] = [n..<k] @ [k..<k + stride]" using le by (rule upt_add_eq_append)
  then show "body k t = wr m (out + n) (map v [n..<k + stride])"
    using le unfolding b by (simp add: t wr_append add.assoc)
qed simp

section \<open>Words in memory (crypto/fipsmodule/modes/internal.h)\<close>

definition bytes_word :: "bytes \<Rightarrow> u64" where
  "bytes_word bs = foldr (\<lambda>b v. push_bit 8 v OR ucast b) bs 0"

definition word_bytes :: "u64 \<Rightarrow> bytes" where
  "word_bytes v = map (\<lambda>i. ucast (drop_bit (8 * i) v)) [0..<8]"

definition load_word_le :: "memory \<Rightarrow> nat \<Rightarrow> u64" where
  "load_word_le m a = bytes_word (rd m a 8)"

definition store_word_le :: "memory \<Rightarrow> nat \<Rightarrow> u64 \<Rightarrow> memory" where
  "store_word_le m a v = wr m a (word_bytes v)"

lemma length_word_bytes [simp]: "length (word_bytes v) = 8"
  by (simp add: word_bytes_def)

lemma bit_bytes_word:
  "bit (bytes_word bs) k \<longleftrightarrow> k < 64 \<and> k div 8 < length bs \<and> bit (bs ! (k div 8)) (k mod 8)"
proof (induction bs arbitrary: k)
  case Nil
  show ?case by (simp add: bytes_word_def)
next
  case (Cons b bs)
  have rec: "bytes_word (b # bs) = push_bit 8 (bytes_word bs) OR ucast b"
    by (simp add: bytes_word_def)
  show ?case
  proof (cases "k < 8")
    case True
    then show ?thesis by (simp add: rec bit_simps)
  next
    case False
    then obtain j where k: "k = j + 8" by (metis add.commute le_Suc_ex not_le)
    have nb: "\<not> bit b (j + 8)"
    proof
      assume "bit b (j + 8)"
      then have "j + 8 < LENGTH(8)" by (rule bit_imp_le_length)
      then show False by simp
    qed
    have "(j + 8) div 8 = Suc (j div 8)" "(j + 8) mod 8 = j mod 8" by simp_all
    then show ?thesis using nb by (auto simp: rec k bit_simps Cons.IH)
  qed
qed

lemma bytes_word_nth:
  assumes "i < 8" "i < length bs"
  shows "ucast (drop_bit (8 * i) (bytes_word bs)) = bs ! i"
proof -
  have "bit (ucast (drop_bit (8 * i) (bytes_word bs)) :: u8) j = bit (bs ! i) j" if "j < 8" for j
  proof -
    have "(8 * i + j) div 8 = i" "(8 * i + j) mod 8 = j" "8 * i + j < 64" using that assms by simp_all
    then show ?thesis using that assms by (simp add: bit_simps bit_bytes_word)
  qed
  then show ?thesis by (intro bit_word_eqI) simp
qed

lemma word_bytes_word: "length bs = n \<Longrightarrow> n \<le> 8 \<Longrightarrow> take n (word_bytes (bytes_word bs)) = bs"
  by (rule nth_equalityI) (auto simp: word_bytes_def bytes_word_nth)

lemma word_bytes_xor: "word_bytes (v XOR w) = xor_bytes (word_bytes v) (word_bytes w)"
  by (rule nth_equalityI) (auto simp: word_bytes_def intro!: bit_word_eqI simp: bit_simps)

lemma word_bytes_load [mem_simps]: "word_bytes (load_word_le m a) = rd m a 8"
  using word_bytes_word [of "rd m a 8" 8] by (simp add: load_word_le_def)

text \<open>Exclusive or by words is exclusive or by bytes.\<close>

lemma store_xor_words [mem_simps]:
  "store_word_le m a (load_word_le m b XOR load_word_le m' c) = wr m a (xor_bytes (rd m b 8) (rd m' c 8))"
  by (simp add: store_word_le_def word_bytes_xor word_bytes_load)

lemma store_load_word [mem_simps]: "store_word_le m a (load_word_le m' b) = wr m a (rd m' b 8)"
  by (simp add: store_word_le_def word_bytes_load)

lemma rd_map: "rd m (a + k) n = map (\<lambda>i. m (a + i)) [k..<k + n]"
  by (rule nth_equalityI) (auto simp: add.assoc)

lemma xor_rd_map:
  "xor_bytes (rd m (a + k) n) (rd m' (b + k) n) = map (\<lambda>i. m (a + i) XOR m' (b + i)) [k..<k + n]"
  by (rule nth_equalityI) (auto simp: add.assoc)

text \<open>
  A loop that combines \<open>lim\<close> bytes of input with as many at \<open>K\<close>, by bytes or by words. The
  output may lie on the input or behind it.
\<close>

lemma xor_loop:
  assumes lim: "0 < st" "lim = q * st" and ah: "ahead inp out lim" and ap: "apart K lim out lim"
    and body: "\<And>k t. body k t = wr t (out + k) (xor_bytes (rd t (inp + k) st) (rd t (K + k) st))"
  shows "for_from 0 lim st body m = wr m out (xor_bytes (rd m inp lim) (rd m K lim))"
proof -
  let ?v = "\<lambda>i. m (inp + i) XOR m (K + i)"
  have "for_from 0 lim st body m = wr m (out + 0) (map ?v [0..<lim])"
  proof (rule for_from_write [where q = q])
    fix k t assume k: "k + st \<le> lim" and t: "t = wr m (out + 0) (map ?v [0..<k])"
    have "rd t (inp + k) st = rd m (inp + k) st" "rd t (K + k) st = rd m (K + k) st"
      unfolding t using ah ap k by (auto intro!: rd_wr_apart simp: ahead_def apart_def)
    then show "body k t = wr t (out + k) (map ?v [k..<k + st])"
      by (simp add: body xor_rd_map)
  qed (use lim in auto)
  then show ?thesis using xor_rd_map [of m inp 0 lim m K] by simp
qed

lemma xor_byte_body:
  "t(out + k := t (inp + k) XOR t (K + k)) = wr t (out + k) (xor_bytes (rd t (inp + k) 1) (rd t (K + k) 1))"
  by (simp add: rd_Suc xor_bytes_def)

lemma xor_byte_loop:
  assumes "ahead inp out lim" "apart K lim out lim"
  shows "for_from 0 lim 1 (\<lambda>k t. t(out + k := t (inp + k) XOR t (K + k))) m =
    wr m out (xor_bytes (rd m inp lim) (rd m K lim))"
  by (rule xor_loop [where q = lim, OF _ _ assms xor_byte_body]) simp_all

lemma xor_word_loop:
  assumes "ahead inp out 16" "apart K 16 out 16"
  shows "for_from 0 16 8 (\<lambda>k t. store_word_le t (out + k) (load_word_le t (inp + k) XOR load_word_le t (K + k))) m =
    wr m out (xor_bytes (rd m inp 16) (rd m K 16))"
  using assms by (intro xor_loop [where q = 2]) (auto simp: store_xor_words)

end
