(* ===== verification/Modes.thy ===== *)
theory Modes
  imports Byte_Mem
begin

text \<open>
  What the byte-oriented block cipher modes share. A mode is a step on one byte of data, with a
  state and the position \<open>n\<close> in the current 16 byte block: at position 0 a new block is made
  (\<open>refill\<close>), the data byte is combined with byte \<open>n\<close> of it, and the state may absorb the byte.
  \<open>streamed\<close> is the reference: it runs the step over the input, byte by byte, and stores the
  output and the state. The code of crypto/fipsmodule/modes works by an unaligned prologue,
  by words and by a partial last block; the component theories show that it is \<open>streamed\<close>. The
  locale \<open>stream_state\<close> collects what \<open>streamed\<close> needs of the memory a mode keeps its state in, and
  gives that data may be processed in pieces; \<open>stream_code\<close> adds code that meets the reference,
  \<open>stream_pair\<close> code that undoes it.
\<close>

section \<open>Running a step over a list\<close>

fun run :: "('s \<Rightarrow> 'a \<Rightarrow> 's \<times> 'b) \<Rightarrow> 's \<Rightarrow> 'a list \<Rightarrow> 's \<times> 'b list" where
  "run f s [] = (s, [])"
| "run f s (x # xs) = (let (s1, y) = f s x; (s2, ys) = run f s1 xs in (s2, y # ys))"

lemma run_append:
  "run f s (xs @ ys) = (let (s1, us) = run f s xs; (s2, vs) = run f s1 ys in (s2, us @ vs))"
  by (induction xs arbitrary: s) (auto simp: Let_def split: prod.splits)

lemma length_run [simp]: "length (snd (run f s xs)) = length xs"
  by (induction xs arbitrary: s) (auto simp: Let_def split: prod.splits, metis snd_conv)

lemma run_invariant:
  assumes "\<And>s x. P s \<Longrightarrow> P (fst (f s x))"
  shows "P s \<Longrightarrow> P (fst (run f s xs))"
  using assms by (induction xs arbitrary: s) (auto simp: Let_def split: prod.splits, metis fst_conv)

locale data_cipher =
  fixes enc :: "'s \<Rightarrow> 'a \<Rightarrow> 's \<times> 'b" and dec :: "'s \<Rightarrow> 'b \<Rightarrow> 's \<times> 'a"
  assumes dec_enc: "enc s x = (s', y) \<Longrightarrow> dec s y = (s', x)"
begin

lemma run_dec_enc: "run enc s xs = (s', ys) \<Longrightarrow> run dec s ys = (s', xs)"
  by (induction xs arbitrary: s ys) (auto simp: Let_def dec_enc split: prod.splits)

end

section \<open>Modes on one byte\<close>

definition mode_step ::
  "('s \<Rightarrow> 's) \<Rightarrow> ('s \<Rightarrow> bytes) \<Rightarrow> ('s \<Rightarrow> nat \<Rightarrow> u8 \<Rightarrow> u8 \<Rightarrow> 's)
   \<Rightarrow> 's \<times> nat \<Rightarrow> u8 \<Rightarrow> ('s \<times> nat) \<times> u8" where
  "mode_step refill buf absorb = (\<lambda>(s, n) x.
     (let s1 = (if n = 0 then refill s else s);
          y = x XOR buf s1 ! n
      in ((absorb s1 n x y, (n + 1) mod 16), y)))"

fun absorb_all :: "('s \<Rightarrow> nat \<Rightarrow> u8 \<Rightarrow> u8 \<Rightarrow> 's) \<Rightarrow> 's \<Rightarrow> nat \<Rightarrow> bytes \<Rightarrow> bytes \<Rightarrow> 's" where
  "absorb_all absorb s n (x # xs) (y # ys) = absorb_all absorb (absorb s n x y) (Suc n) xs ys"
| "absorb_all absorb s n _ _ = s"

lemma absorb_all_id: "absorb_all (\<lambda>s n x y. s) s n xs ys = s"
  by (induction "\<lambda>s (n :: nat) (x :: u8) (y :: u8). s :: 'a" s n xs ys rule: absorb_all.induct) auto

text \<open>The bytes of the current block that are still ahead do not change while one is used.\<close>

definition keeps_ahead :: "('s \<Rightarrow> bytes) \<Rightarrow> ('s \<Rightarrow> nat \<Rightarrow> u8 \<Rightarrow> u8 \<Rightarrow> 's) \<Rightarrow> bool" where
  "keeps_ahead buf absorb \<longleftrightarrow>
     (\<forall>s n x y. drop (Suc n) (buf (absorb s n x y)) = drop (Suc n) (buf s))"

lemma run_within:
  assumes "keeps_ahead buf absorb"
  shows "0 < n \<Longrightarrow> n + length xs \<le> length (buf s) \<Longrightarrow> length (buf s) \<le> 16 \<Longrightarrow>
    run (mode_step refill buf absorb) (s, n) xs =
      ((absorb_all absorb s n xs (xor_bytes xs (drop n (buf s))), (if xs = [] then n else (n + length xs) mod 16)),
       xor_bytes xs (drop n (buf s)))"
proof (induction xs arbitrary: s n)
  case (Cons x xs)
  let ?y = "x XOR buf s ! n" and ?s = "absorb s n x (x XOR buf s ! n)"
  have d: "drop (Suc n) (buf ?s) = drop (Suc n) (buf s)"
    using assms by (simp add: keeps_ahead_def)
  have lt: "n < length (buf s)" using Cons.prems by simp
  have ys: "xor_bytes (x # xs) (drop n (buf s)) = ?y # xor_bytes xs (drop (Suc n) (buf s))"
    using lt by (simp add: xor_bytes_def Cons_nth_drop_Suc [symmetric])
  show ?case
  proof (cases xs)
    case Nil
    then show ?thesis using Cons.prems(1) ys by (simp add: mode_step_def Let_def)
  next
    case (Cons x' xs')
    then have n: "Suc n < 16" "Suc n mod 16 = Suc n" using Cons.prems by auto
    have "length (buf ?s) - Suc n = length (buf s) - Suc n" using arg_cong [OF d, of length] by simp
    then have len: "length (buf ?s) = length (buf s)" using Cons.prems Cons by simp
    have "run (mode_step refill buf absorb) (?s, Suc n) xs =
      ((absorb_all absorb ?s (Suc n) xs (xor_bytes xs (drop (Suc n) (buf s))), (Suc n + length xs) mod 16),
       xor_bytes xs (drop (Suc n) (buf s)))"
      using Cons.IH [of "Suc n" ?s] Cons.prems len Cons by (simp add: d)
    then show ?thesis using Cons.prems(1) n(2) by (simp add: mode_step_def ys Let_def)
  qed
qed simp

lemma run_block:
  assumes "keeps_ahead buf absorb" "0 < length xs" "length xs \<le> 16" "length (buf (refill s)) = 16"
  shows "run (mode_step refill buf absorb) (s, 0) xs =
      ((absorb_all absorb (refill s) 0 xs (xor_bytes xs (buf (refill s))), length xs mod 16),
       xor_bytes xs (buf (refill s)))"
proof -
  obtain x xs' where xs: "xs = x # xs'" using assms(2) by (cases xs) auto
  let ?b = "buf (refill s)" and ?s = "absorb (refill s) 0 x (x XOR buf (refill s) ! 0)"
  have d: "drop (Suc 0) (buf ?s) = drop (Suc 0) ?b"
    using assms(1) by (simp add: keeps_ahead_def)
  have len: "length (buf ?s) = 16 \<or> xs' = []" using arg_cong [OF d, of length] assms(4) by auto
  have ys: "xor_bytes xs ?b = (x XOR ?b ! 0) # xor_bytes xs' (drop (Suc 0) ?b)"
    using assms(4) by (cases ?b) (auto simp: xor_bytes_def xs)
  have "run (mode_step refill buf absorb) (?s, 1) xs' =
      ((absorb_all absorb ?s 1 xs' (xor_bytes xs' (drop 1 ?b)), if xs' = [] then 1 else (1 + length xs') mod 16),
       xor_bytes xs' (drop 1 ?b))"
  proof (cases "xs' = []")
    case False
    then show ?thesis using run_within [OF assms(1), of 1 xs' ?s refill] len assms(3) d by (simp add: xs)
  qed simp
  then show ?thesis unfolding ys by (simp add: xs mode_step_def Let_def)
qed

lemma mode_step_inverse:
  assumes "\<And>s n x y. absorb s n x y = absorb' s n y x" "mode_step refill buf absorb p x = (p', y)"
  shows "mode_step refill buf absorb' p y = (p', x)"
  using assms by (cases p) (auto simp: mode_step_def Let_def xor.assoc split: if_splits)

section \<open>The reference in memory\<close>

definition streamed ::
  "('s \<times> nat \<Rightarrow> u8 \<Rightarrow> ('s \<times> nat) \<times> u8) \<Rightarrow> (memory \<Rightarrow> 's) \<Rightarrow> ('s \<Rightarrow> memory \<Rightarrow> memory)
   \<Rightarrow> memory \<Rightarrow> nat \<Rightarrow> nat \<Rightarrow> nat \<Rightarrow> nat \<Rightarrow> memory \<times> nat" where
  "streamed step get put m inp out len n =
     (let ((s', n'), ys) = run step (get m, n) (rd m inp len) in (put s' (wr m out ys), n'))"

text \<open>The number of bytes up to the next block boundary.\<close>

definition prologue_len :: "nat \<Rightarrow> nat \<Rightarrow> nat" where
  "prologue_len n len = (if n = 0 then 0 else min len (16 - n))"

locale stream_state =
  fixes usable :: "'e \<Rightarrow> bool"
    and step :: "'e \<Rightarrow> 's \<times> nat \<Rightarrow> u8 \<Rightarrow> ('s \<times> nat) \<times> u8"
    and get :: "'e \<Rightarrow> memory \<Rightarrow> 's" and put :: "'e \<Rightarrow> 's \<Rightarrow> memory \<Rightarrow> memory"
    and wf :: "'s \<Rightarrow> bool" and clear :: "'e \<Rightarrow> nat \<Rightarrow> nat \<Rightarrow> bool"
  assumes wf_get: "wf (get e m)"
    and wf_step: "usable e \<Longrightarrow> wf s \<Longrightarrow> n < 16 \<Longrightarrow> step e (s, n) x = ((s', n'), y)
      \<Longrightarrow> wf s' \<and> n' = (n + 1) mod 16"
    and get_put: "usable e \<Longrightarrow> wf s \<Longrightarrow> get e (put e s m) = s"
    and put_put: "usable e \<Longrightarrow> wf s \<Longrightarrow> wf s' \<Longrightarrow> put e s' (put e s m) = put e s' m"
    and put_get: "usable e \<Longrightarrow> put e (get e m) m = m"
    and clear_sub: "clear e a k \<Longrightarrow> a \<le> a' \<Longrightarrow> a' + k' \<le> a + k \<Longrightarrow> clear e a' k'"
    and rd_put: "clear e a k \<Longrightarrow> wf s \<Longrightarrow> rd (put e s m) a k = rd m a k"
    and get_wr: "clear e a (length ys) \<Longrightarrow> get e (wr m a ys) = get e m"
    and put_wr: "clear e a (length ys) \<Longrightarrow> wf s \<Longrightarrow> put e s (wr m a ys) = wr (put e s m) a ys"
begin

lemma wf_run:
  assumes e: "usable e"
  shows "wf s \<Longrightarrow> n < 16 \<Longrightarrow> run (step e) (s, n) xs = ((s', n'), ys) \<Longrightarrow>
    wf s' \<and> n' = (n + length xs) mod 16 \<and> length ys = length xs"
proof (induction xs arbitrary: s n ys)
  case (Cons x xs)
  obtain s1 n1 y where st: "step e (s, n) x = ((s1, n1), y)" by (metis surj_pair)
  obtain zs where r: "run (step e) (s1, n1) xs = ((s', n'), zs)" "ys = y # zs"
    using Cons.prems(3) by (auto simp: st Let_def split: prod.splits)
  have w: "wf s1" "n1 = (n + 1) mod 16" using wf_step [OF e Cons.prems(1,2) st] by auto
  then show ?case using Cons.IH [OF w(1) _ r(1)] r(2) by (simp add: mod_simps)
qed auto

lemma streamed_pos:
  assumes "usable e" "n < 16" "streamed (step e) (get e) (put e) m inp out len n = (m1, n1)"
  shows "n1 = (n + len) mod 16"
proof -
  obtain s' n' ys where r: "run (step e) (get e m, n) (rd m inp len) = ((s', n'), ys)"
    by (metis surj_pair)
  show ?thesis using wf_run [OF assms(1) wf_get assms(2) r] assms(3) by (simp add: streamed_def r)
qed

lemma streamed_0: "usable e \<Longrightarrow> streamed (step e) (get e) (put e) m inp out 0 n = (m, n)"
  by (simp add: streamed_def put_get)

lemma streamed_add:
  assumes e: "usable e" and n: "n < 16" and ah: "ahead inp out (a + b)"
    and c: "clear e inp (a + b)" "clear e out (a + b)"
    and first: "streamed (step e) (get e) (put e) m inp out a n = (m1, n1)"
  shows "streamed (step e) (get e) (put e) m inp out (a + b) n =
         streamed (step e) (get e) (put e) m1 (inp + a) (out + a) b n1"
proof -
  obtain s1 k1 us where r1: "run (step e) (get e m, n) (rd m inp a) = ((s1, k1), us)"
    by (metis surj_pair)
  obtain s2 k2 vs where r2: "run (step e) (s1, k1) (rd m (inp + a) b) = ((s2, k2), vs)"
    by (metis surj_pair)
  note w1 = wf_run [OF e wf_get n r1]
  then have w2: "wf s2" "length vs = b" using wf_run [OF e _ _ r2] by auto
  have m1: "m1 = put e s1 (wr m out us)" "n1 = k1" using first by (auto simp: streamed_def r1)
  have lu: "length us = a" using w1 by simp
  have ca: "clear e out (length us)" "clear e (out + a) (length vs)" "clear e (inp + a) b"
    using c clear_sub lu w2 by auto
  have "rd m1 (inp + a) b = rd (wr m out us) (inp + a) b"
    using rd_put [OF ca(3)] w1 by (simp add: m1)
  also have "\<dots> = rd m (inp + a) b"
    using ah by (intro rd_wr_apart) (auto simp: ahead_def apart_def lu)
  finally have rd1: "rd m1 (inp + a) b = rd m (inp + a) b" .
  have get1: "get e m1 = s1" using get_put [OF e] w1 by (simp add: m1)
  have "put e s2 (wr m1 (out + a) vs) = wr (put e s2 (put e s1 (wr m out us))) (out + a) vs"
    using put_wr [OF ca(2) w2(1)] by (simp add: m1)
  also have "\<dots> = put e s2 (wr m out (us @ vs))"
    using put_put [OF e] put_wr [OF ca(2) w2(1)] w1 w2 by (simp add: wr_append lu)
  finally show ?thesis
    by (simp add: streamed_def rd_add run_append r1 r2 rd1 get1 m1(2))
qed

text \<open>
  The three phases of the code: up to the next block boundary, whole blocks, a partial block.
\<close>

lemma streamed_phases:
  assumes e: "usable e" and n: "n < 16" and ah: "ahead inp out len"
    and c: "clear e inp len" "clear e out len"
    and k: "k = prologue_len n len" and q: "q = 16 * ((len - k) div 16)" and r: "r = (len - k) mod 16"
    and p: "streamed (step e) (get e) (put e) m inp out k n = (m1, n1)"
    and b: "streamed (step e) (get e) (put e) m1 (inp + k) (out + k) q 0 = (m2, n2)"
    and t: "r \<noteq> 0 \<Longrightarrow> streamed (step e) (get e) (put e) m2 (inp + k + q) (out + k + q) r 0 = (m3, n3)"
  shows "streamed (step e) (get e) (put e) m inp out len n = (if r \<noteq> 0 then (m3, n3) else (m2, n1))"
proof (cases "len = k")
  case True
  then have "q = 0" "r = 0" using q r by auto
  then show ?thesis using p b streamed_0 [OF e] True by auto
next
  case False
  have kl: "k \<le> len" using k by (simp add: prologue_len_def)
  have n1: "n1 = 0"
    using streamed_pos [OF e n p] k False n by (auto simp: prologue_len_def split: if_splits)
  have len: "len = k + (q + r)" using kl q r by simp
  have n2: "n2 = 0" using streamed_pos [OF e _ b] q by simp
  have 1: "streamed (step e) (get e) (put e) m inp out len n =
      streamed (step e) (get e) (put e) m1 (inp + k) (out + k) (q + r) 0"
    using streamed_add [OF e n ah [unfolded len] c [unfolded len] p] len n1 by simp
  have ah': "ahead (inp + k) (out + k) (q + r)" using ah len by (auto simp: ahead_def)
  have c': "clear e (inp + k) (q + r)" "clear e (out + k) (q + r)" using c len by (auto intro: clear_sub)
  have 2: "streamed (step e) (get e) (put e) m1 (inp + k) (out + k) (q + r) 0 =
      streamed (step e) (get e) (put e) m2 (inp + k + q) (out + k + q) r 0"
    using streamed_add [OF e _ ah' c' b] n2 by simp
  show ?thesis
  proof (cases "r = 0")
    case True
    then show ?thesis using 1 2 streamed_0 [OF e] n1 by simp
  qed (use 1 2 t in simp)
qed

lemma streamed_blocks:
  assumes e: "usable e" and ah: "ahead inp out len" and c: "clear e inp len" "clear e out len"
    and base: "\<And>m inp out len. len < 16 \<Longrightarrow> blocks m inp out len = (m, inp, out, len, 0 :: nat)"
    and rec: "\<And>m inp out len. 16 \<le> len \<Longrightarrow> ahead inp out 16 \<Longrightarrow> clear e inp 16 \<Longrightarrow> clear e out 16 \<Longrightarrow>
      blocks m inp out len =
        blocks (fst (streamed (step e) (get e) (put e) m inp out 16 0)) (inp + 16) (out + 16) (len - 16)"
  shows "blocks m inp out len =
    (let q = 16 * (len div 16)
     in (fst (streamed (step e) (get e) (put e) m inp out q 0), inp + q, out + q, len mod 16, 0))"
  using ah c
proof (induction len arbitrary: m inp out rule: less_induct)
  case (less len)
  show ?case
  proof (cases "len < 16")
    case True
    then show ?thesis by (simp add: base streamed_0 [OF e])
  next
    case False
    obtain m1 n1 where s: "streamed (step e) (get e) (put e) m inp out 16 0 = (m1, n1)" by (metis surj_pair)
    define j where "j = (len - 16) div 16"
    have len: "len div 16 = Suc j" "len mod 16 = (len - 16) mod 16" "16 + 16 * j \<le> len"
      using False by (auto simp: j_def le_div_geq le_mod_geq)
    have n1: "n1 = 0" using streamed_pos [OF e _ s] by simp
    have c16: "clear e inp 16" "clear e out 16" "clear e inp (16 + 16 * j)" "clear e out (16 + 16 * j)"
      using less.prems(2,3) False len(3) by (auto intro: clear_sub)
    have a16: "ahead inp out 16" "ahead inp out (16 + 16 * j)"
      using less.prems(1) len(3) by (auto simp: ahead_def)
    have "blocks m inp out len = blocks m1 (inp + 16) (out + 16) (len - 16)"
      using rec [OF _ a16(1) c16(1,2)] False s by simp
    also have "\<dots> = (let q = 16 * ((len - 16) div 16)
       in (fst (streamed (step e) (get e) (put e) m1 (inp + 16) (out + 16) q 0),
           inp + 16 + q, out + 16 + q, (len - 16) mod 16, 0))"
    proof (rule less.IH)
      show "ahead (inp + 16) (out + 16) (len - 16)" using less.prems(1) False by (auto simp: ahead_def)
      show "clear e (inp + 16) (len - 16)" "clear e (out + 16) (len - 16)"
        using less.prems(2,3) False by (auto intro: clear_sub)
    qed (use False in auto)
    finally show ?thesis
      using streamed_add [OF e _ a16(2) c16(3,4) s] by (simp add: len n1 j_def [symmetric] Let_def)
  qed
qed

text \<open>Code that consists of the three phases, each of which meets the reference, meets it.\<close>

lemma phased_code:
  assumes e: "usable e" and n: "n < 16" and ah: "ahead inp out len"
    and c: "clear e inp len" "clear e out len"
    and pro: "pro = (let k = prologue_len n len
      in (fst (streamed (step e) (get e) (put e) m inp out k n), inp + k, out + k, len - k, (n + k) mod 16))"
    and none: "\<And>m inp out n. blocks m inp out 0 n = (m, inp, out, 0, n)"
    and blocks: "\<And>m inp out len. ahead inp out len \<Longrightarrow> clear e inp len \<Longrightarrow> clear e out len \<Longrightarrow>
      blocks m inp out len 0 =
        (let q = 16 * (len div 16)
         in (fst (streamed (step e) (get e) (put e) m inp out q 0), inp + q, out + q, len mod 16, 0))"
    and tail: "\<And>m inp out len. 0 < len \<Longrightarrow> len < 16 \<Longrightarrow> ahead inp out len \<Longrightarrow> clear e inp len \<Longrightarrow>
      clear e out len \<Longrightarrow> tail m inp out len 0 = streamed (step e) (get e) (put e) m inp out len 0"
  shows "(let (m, inp, out, len, n) = pro; (m, inp, out, len, n) = blocks m inp out len n
          in if len \<noteq> 0 then tail m inp out len n else (m, n)) =
    streamed (step e) (get e) (put e) m inp out len n"
proof -
  define k where "k = prologue_len n len"
  define q where "q = 16 * ((len - k) div 16)"
  define r where "r = (len - k) mod 16"
  let ?S = "streamed (step e) (get e) (put e)"
  have kl: "k \<le> len" by (simp add: k_def prologue_len_def)
  have len: "len - k = q + r" "r < 16" by (simp_all add: q_def r_def)
  obtain m1 n1 where p: "?S m inp out k n = (m1, n1)" by (metis surj_pair)
  obtain m2 n2 where b: "?S m1 (inp + k) (out + k) q 0 = (m2, n2)" by (metis surj_pair)
  obtain m3 n3 where t: "?S m2 (inp + k + q) (out + k + q) r 0 = (m3, n3)" by (metis surj_pair)
  have all: "?S m inp out len n = (if r \<noteq> 0 then (m3, n3) else (m2, n1))"
    by (rule streamed_phases [OF e n ah c k_def q_def r_def p b t])
  have pos: "n1 = (n + k) mod 16" by (rule streamed_pos [OF e n p])
  have c1: "pro = (m1, inp + k, out + k, len - k, n1)"
    using pro p pos by (simp add: k_def [symmetric] Let_def)
  have n1: "n1 = 0 \<or> len - k = 0"
    using pos n by (auto simp: k_def prologue_len_def split: if_splits)
  have c2: "blocks m1 (inp + k) (out + k) (len - k) n1 = (m2, inp + k + q, out + k + q, r, n1)"
  proof (cases "len - k = 0")
    case True
    then have "m2 = m1" "q = 0" "r = 0" using b streamed_0 [OF e] by (auto simp: q_def r_def)
    moreover have "blocks m1 (inp + k) (out + k) 0 n1 = (m1, inp + k, out + k, 0, n1)" by (rule none)
    ultimately show ?thesis using True by simp
  next
    case False
    have "ahead (inp + k) (out + k) (len - k)" "clear e (inp + k) (len - k)" "clear e (out + k) (len - k)"
      using ah c kl by (auto simp: ahead_def intro: clear_sub)
    from blocks [OF this] show ?thesis
      using n1 False b by (simp add: q_def [symmetric] r_def [symmetric] Let_def)
  qed
  show ?thesis
  proof (cases "r = 0")
    case True
    then show ?thesis using all by (simp add: c1 c2)
  next
    case False
    then have n0: "n1 = 0" using n1 len by auto
    have "ahead (inp + k + q) (out + k + q) r" "clear e (inp + k + q) r" "clear e (out + k + q) r"
      using ah c len kl by (auto simp: ahead_def intro: clear_sub)
    from tail [OF _ len(2) this] show ?thesis
      using False all t by (simp add: c1 [unfolded n0] c2 [unfolded n0])
  qed
qed

text \<open>What \<open>streamed\<close> leaves in the output buffer and in the state.\<close>

lemma streamed_result:
  assumes e: "usable e" and n: "n < 16" and c: "clear e out len"
    and r: "run (step e) (get e m, n) (rd m inp len) = ((s', n'), ys)"
    and s: "streamed (step e) (get e) (put e) m inp out len n = (m1, n1)"
  shows "rd m1 out len = ys \<and> get e m1 = s' \<and> n1 = n' \<and> n' < 16"
proof -
  have w: "wf s'" "length ys = len" "n' < 16" using wf_run [OF e wf_get n r] by auto
  have "m1 = put e s' (wr m out ys)" "n1 = n'" using s by (auto simp: streamed_def r)
  then show ?thesis using w rd_put [OF c w(1)] get_put [OF e w(1)] by simp
qed

end

section \<open>Code that meets the reference\<close>

locale stream_code = stream_state usable step get put wf clear
  for usable :: "'e \<Rightarrow> bool"
    and step :: "'e \<Rightarrow> 's \<times> nat \<Rightarrow> u8 \<Rightarrow> ('s \<times> nat) \<times> u8"
    and get :: "'e \<Rightarrow> memory \<Rightarrow> 's" and put :: "'e \<Rightarrow> 's \<Rightarrow> memory \<Rightarrow> memory"
    and wf :: "'s \<Rightarrow> bool" and clear :: "'e \<Rightarrow> nat \<Rightarrow> nat \<Rightarrow> bool" +
  fixes code :: "'e \<Rightarrow> memory \<Rightarrow> nat \<Rightarrow> nat \<Rightarrow> nat \<Rightarrow> nat \<Rightarrow> memory \<times> nat"
  assumes code_streamed: "usable e \<Longrightarrow> n < 16 \<Longrightarrow> ahead inp out len \<Longrightarrow> clear e inp len \<Longrightarrow> clear e out len
    \<Longrightarrow> code e m inp out len n = streamed (step e) (get e) (put e) m inp out len n"
begin

text \<open>Processing a buffer in two calls is processing it in one.\<close>

lemma code_add:
  assumes e: "usable e" and n: "n < 16" and ah: "ahead inp out (a + b)"
    and c: "clear e inp (a + b)" "clear e out (a + b)"
    and first: "code e m inp out a n = (m1, n1)"
  shows "code e m inp out (a + b) n = code e m1 (inp + a) (out + a) b n1"
proof -
  have ah': "ahead inp out a" "ahead (inp + a) (out + a) b" using ah by (auto simp: ahead_def)
  have c1: "clear e inp a" "clear e out a" and c2: "clear e (inp + a) b" "clear e (out + a) b"
    using c by (auto intro: clear_sub)
  have first': "streamed (step e) (get e) (put e) m inp out a n = (m1, n1)"
    using first code_streamed [OF e n ah'(1) c1] by simp
  obtain s' n' ys where r: "run (step e) (get e m, n) (rd m inp a) = ((s', n'), ys)"
    by (metis surj_pair)
  have "n1 < 16" using streamed_result [OF e n c1(2) r first'] by simp
  then show ?thesis
    using code_streamed [OF e n ah c] code_streamed [OF e _ ah'(2) c2] streamed_add [OF e n ah c first']
    by simp
qed

end

locale stream_pair =
    e1: stream_code usable step get put wf clear code +
    e2: stream_code usable step' get put wf clear code'
  for usable :: "'e \<Rightarrow> bool"
    and step :: "'e \<Rightarrow> 's \<times> nat \<Rightarrow> u8 \<Rightarrow> ('s \<times> nat) \<times> u8" and step'
    and get put wf clear code code' +
  assumes step_inverse: "step e p x = (p', y) \<Longrightarrow> step' e p y = (p', x)"

sublocale stream_pair \<subseteq> cipher: data_cipher "step e" "step' e" for e
  by unfold_locales (rule step_inverse)

context stream_pair
begin

text \<open>
  Decrypting the output, from the state that encryption started with, gives the input back
  and ends in the state that encryption ended in.
\<close>

lemma code_inverse:
  assumes e: "usable e" and n: "n < 16"
    and enc: "ahead inp out len" "clear e inp len" "clear e out len" "code e m inp out len n = (m1, n1)"
    and m': "get e m' = get e m" "rd m' inp' len = rd m1 out len"
    and dec: "ahead inp' out' len" "clear e inp' len" "clear e out' len"
      "code' e m' inp' out' len n = (m2, n2)"
  shows "rd m2 out' len = rd m inp len \<and> get e m2 = get e m1 \<and> n2 = n1"
proof -
  obtain s' n' ys where r: "run (step e) (get e m, n) (rd m inp len) = ((s', n'), ys)"
    by (metis surj_pair)
  have "streamed (step e) (get e) (put e) m inp out len n = (m1, n1)"
    using enc e1.code_streamed [OF e n enc(1-3)] by simp
  note f = e1.streamed_result [OF e n enc(3) r this]
  have r': "run (step' e) (get e m', n) (rd m' inp' len) = ((s', n'), rd m inp len)"
    using cipher.run_dec_enc [OF r] f m' by simp
  have "streamed (step' e) (get e) (put e) m' inp' out' len n = (m2, n2)"
    using dec(4) e2.code_streamed [OF e n dec(1-3)] by simp
  note e2.streamed_result [OF e n dec(3) r' this]
  then show ?thesis using f by metis
qed

end

end
