(* ===== verification/Feedback.thy ===== *)
theory Feedback
  imports Modes
begin

text \<open>
  Output feedback and cipher feedback: crypto/fipsmodule/modes/ofb.c and cfb.c. The block
  cipher with its key is the parameter \<open>E\<close>, from 16 bytes to 16 bytes; \<open>strict\<close> is the
  compile-time constant \<open>STRICT_ALIGNMENT\<close>; \<open>*num\<close> is an argument and a result.
\<close>

definition block_fn :: "(bytes \<Rightarrow> bytes) \<Rightarrow> bool" where
  "block_fn E \<longleftrightarrow> (\<forall>b. length b = 16 \<longrightarrow> length (E b) = 16)"

definition call_block :: "(bytes \<Rightarrow> bytes) \<Rightarrow> memory \<Rightarrow> nat \<Rightarrow> nat \<Rightarrow> memory" where
  "call_block E m src dst = wr m dst (E (rd m src 16))"

lemma length_block [simp]: "block_fn E \<Longrightarrow> length b = 16 \<Longrightarrow> length (E b) = 16"
  by (simp add: block_fn_def)

section \<open>Output feedback (ofb.c)\<close>

function xor_prologue :: "nat \<Rightarrow> memory \<Rightarrow> nat \<Rightarrow> nat \<Rightarrow> nat \<Rightarrow> nat \<Rightarrow> memory \<times> nat \<times> nat \<times> nat \<times> nat" where
  "xor_prologue K m inp out len n =
     (if n \<noteq> 0 \<and> len \<noteq> 0
      then xor_prologue K (m(out := m inp XOR m (K + n))) (inp + 1) (out + 1) (len - 1) ((n + 1) mod 16)
      else (m, inp, out, len, n))"
  by pat_completeness auto
termination
  by (relation "measure (\<lambda>(_, _, _, _, len, _). len)") auto

declare xor_prologue.simps [simp del]

function ofb_blocks :: "(bytes \<Rightarrow> bytes) \<Rightarrow> nat \<Rightarrow> memory \<Rightarrow> nat \<Rightarrow> nat \<Rightarrow> nat \<Rightarrow> nat
    \<Rightarrow> memory \<times> nat \<times> nat \<times> nat \<times> nat" where
  "ofb_blocks E ivec m inp out len n =
     (if 16 \<le> len
      then (let m1 = call_block E m ivec ivec;
                m2 = for_from n 16 8 (\<lambda>k t. store_word_le t (out + k)
                       (load_word_le t (inp + k) XOR load_word_le t (ivec + k))) m1
            in ofb_blocks E ivec m2 (inp + 16) (out + 16) (len - 16) 0)
      else (m, inp, out, len, n))"
  by pat_completeness auto
termination
  by (relation "measure (\<lambda>(_, _, _, _, _, len, _). len)") auto

declare ofb_blocks.simps [simp del]

definition CRYPTO_ofb128_encrypt ::
  "(bytes \<Rightarrow> bytes) \<Rightarrow> nat \<Rightarrow> memory \<Rightarrow> nat \<Rightarrow> nat \<Rightarrow> nat \<Rightarrow> nat \<Rightarrow> memory \<times> nat" where
  "CRYPTO_ofb128_encrypt E ivec m inp out len num =
     (let (m, inp, out, len, n) = xor_prologue ivec m inp out len num;
          (m, inp, out, len, n) = ofb_blocks E ivec m inp out len n
      in if len \<noteq> 0
         then (let m = call_block E m ivec ivec
               in (for_from n (n + len) 1 (\<lambda>k t. t(out + k := t (inp + k) XOR t (ivec + k))) m, n + len))
         else (m, n))"

text \<open>The reference: the last block is the state, and the next one its encryption.\<close>

definition ofb_step :: "(bytes \<Rightarrow> bytes) \<Rightarrow> bytes \<times> nat \<Rightarrow> u8 \<Rightarrow> (bytes \<times> nat) \<times> u8" where
  "ofb_step E = mode_step E (\<lambda>iv. iv) (\<lambda>iv n x y. iv)"

definition get_iv :: "nat \<Rightarrow> memory \<Rightarrow> bytes" where
  "get_iv ivec m = rd m ivec 16"

definition put_iv :: "nat \<Rightarrow> bytes \<Rightarrow> memory \<Rightarrow> memory" where
  "put_iv ivec iv m = wr m ivec iv"

text \<open>What every mode does with the prologue, for any keystream block at \<open>K\<close>.\<close>

lemma xor_prologue_eq:
  assumes "n < 16" "ahead inp out len" "apart K 16 out len"
  shows "xor_prologue K m inp out len n =
    (let k = prologue_len n len
     in (wr m out (xor_bytes (rd m inp k) (rd m (K + n) k)), inp + k, out + k, len - k, (n + k) mod 16))"
  using assms
proof (induction K m inp out len n rule: xor_prologue.induct)
  case (1 K m inp out len n)
  show ?case
  proof (cases "n \<noteq> 0 \<and> len \<noteq> 0")
    case False
    then show ?thesis using 1(2) by (auto simp: xor_prologue.simps [of K m inp out len n] prologue_len_def)
  next
    case True
    let ?v = "m inp XOR m (K + n)" and ?n = "(n + 1) mod 16"
    define j where "j = prologue_len ?n (len - 1)"
    have k: "prologue_len n len = Suc j"
      using True 1(2) unfolding j_def prologue_len_def by (cases "n = 15") auto
    then have jn: "n + Suc j \<le> 16" "Suc j \<le> len"
      using True 1(2) by (auto simp: prologue_len_def split: if_splits)
    have "xor_prologue K (m(out := ?v)) (inp + 1) (out + 1) (len - 1) ?n =
      (let k = prologue_len ?n (len - 1)
       in (wr (m(out := ?v)) (out + 1) (xor_bytes (rd (m(out := ?v)) (inp + 1) k) (rd (m(out := ?v)) (K + ?n) k)),
           inp + 1 + k, out + 1 + k, len - 1 - k, (?n + k) mod 16))"
      by (rule 1(1) [OF True]) (use 1(2-) True in \<open>auto simp: ahead_def apart_def\<close>)
    then have "xor_prologue K m inp out len n =
      (wr (m(out := ?v)) (out + 1) (xor_bytes (rd (m(out := ?v)) (inp + 1) j) (rd (m(out := ?v)) (K + ?n) j)),
       inp + 1 + j, out + 1 + j, len - 1 - j, (?n + j) mod 16)"
      unfolding xor_prologue.simps [of K m inp out len n] j_def Let_def if_P [OF True] .
    moreover have "rd (m(out := ?v)) (inp + 1) j = rd m (inp + 1) j"
      using 1(3) jn True by (intro rd_upd_apart) (auto simp: ahead_def)
    moreover have "rd (m(out := ?v)) (K + ?n) j = rd m (K + n + 1) j"
    proof (cases "j = 0")
      case False
      then have n: "?n = n + 1" using jn by simp
      then show ?thesis using 1(4) True jn unfolding n by (simp only: add.assoc [symmetric]) (intro rd_upd_apart, auto simp: apart_def)
    qed simp
    moreover have "wr (m(out := ?v)) (out + 1) (xor_bytes (rd m (inp + 1) j) (rd m (K + n + 1) j)) =
      wr m out (xor_bytes (rd m inp (Suc j)) (rd m (K + n) (Suc j)))"
      using wr_append [of m out "[?v]"] by (simp add: rd_Suc xor_bytes_def)
    moreover have "(?n + j) mod 16 = (n + Suc j) mod 16" by (simp add: mod_simps)
    ultimately show ?thesis using True by (simp add: k Let_def)
  qed
qed

lemma keystream_keeps: "keeps_ahead buf (\<lambda>s n x y. s)"
  by (simp add: keeps_ahead_def)

lemmas run_keystream_within = run_within [OF keystream_keeps, unfolded absorb_all_id]
lemmas run_keystream_block = run_block [OF keystream_keeps, unfolded absorb_all_id]

text \<open>The memory of a mode that keeps its state in the 16 bytes at \<open>ivec\<close>.\<close>

lemma iv_state:
  assumes "\<And>E s n x. block_fn E \<Longrightarrow> length s = 16 \<Longrightarrow> n < 16 \<Longrightarrow>
    length (fst (fst (step E (s, n) x))) = 16 \<and> snd (fst (step E (s, n) x)) = (n + 1) mod 16"
  shows "stream_state (\<lambda>(E, ivec). block_fn E) (\<lambda>(E, ivec). step E) (\<lambda>(E, ivec). get_iv ivec)
    (\<lambda>(E, ivec). put_iv ivec) (\<lambda>s. length s = 16) (\<lambda>(E, ivec). apart ivec 16)"
proof (unfold_locales, goal_cases)
  case (2 e s n x s' n' y)
  then show ?case using assms [of "fst e" s n x] by (auto simp: split_beta)
next
  case 6 then show ?case by (auto simp: apart_def split: prod.splits)
qed (auto simp: get_iv_def put_iv_def rd_wr_apart wr_commute apart_sym apart_def split: prod.splits)

lemma ofb_step_wf:
  "block_fn E \<Longrightarrow> length s = 16 \<Longrightarrow> n < 16 \<Longrightarrow>
    length (fst (fst (ofb_step E (s, n) x))) = 16 \<and> snd (fst (ofb_step E (s, n) x)) = (n + 1) mod 16"
  by (simp add: ofb_step_def mode_step_def Let_def)

interpretation ofbs: stream_state "\<lambda>(E, ivec). block_fn E" "\<lambda>(E, ivec). ofb_step E" "\<lambda>(E, ivec). get_iv ivec"
    "\<lambda>(E, ivec). put_iv ivec" "\<lambda>s. length s = 16" "\<lambda>(E, ivec). apart ivec 16"
  by (rule iv_state) (rule ofb_step_wf)

lemma ofb_within:
  assumes "n < 16" "k = prologue_len n len" "apart ivec 16 out len"
  shows "streamed (ofb_step E) (get_iv ivec) (put_iv ivec) m inp out k n =
    (wr m out (xor_bytes (rd m inp k) (rd m (ivec + n) k)), (n + k) mod 16)"
proof (cases "n = 0")
  case True
  then show ?thesis using assms(2) by (simp add: prologue_len_def streamed_def get_iv_def put_iv_def)
next
  case False
  then have k: "n + k \<le> 16" "k \<le> len" using assms(1,2) by (auto simp: prologue_len_def)
  let ?ys = "xor_bytes (rd m inp k) (rd m (ivec + n) k)"
  have "run (ofb_step E) (rd m ivec 16, n) (rd m inp k) = ((rd m ivec 16, (n + k) mod 16), ?ys)"
    using run_keystream_within [of n "rd m inp k" "\<lambda>iv. iv" "rd m ivec 16" E] False k assms(1)
      xor_bytes_rd_min [of k "16 - n" "rd m inp k"]
    by (auto simp: ofb_step_def)
  moreover have "wr (wr m out ?ys) ivec (rd m ivec 16) = wr m out ?ys"
    using wr_commute [of out ?ys ivec "rd m ivec 16" m] assms(3) k
    by (simp add: apart_mono apart_sym)
  ultimately show ?thesis by (simp add: streamed_def get_iv_def put_iv_def)
qed

lemma ofb_block_code:
  assumes "block_fn E" "0 < k" "k \<le> 16" "ahead inp out k" "apart ivec 16 inp k" "apart ivec 16 out k"
  shows "streamed (ofb_step E) (get_iv ivec) (put_iv ivec) m inp out k 0 =
    (wr (call_block E m ivec ivec) out
       (xor_bytes (rd (call_block E m ivec ivec) inp k) (rd (call_block E m ivec ivec) ivec k)), k mod 16)"
proof -
  let ?B = "E (rd m ivec 16)" and ?m = "call_block E m ivec ivec"
  have B: "length ?B = 16" using assms(1) by simp
  have i: "rd ?m inp k = rd m inp k" using assms(5) B
    unfolding call_block_def by (intro rd_wr_apart) (simp add: apart_sym)
  have iv: "rd ?m ivec 16 = ?B" using B by (simp add: call_block_def)
  have ys: "xor_bytes (rd m inp k) (rd ?m ivec k) = xor_bytes (rd m inp k) ?B"
    using xor_bytes_rd_min [of k 16 "rd m inp k" ?m ivec] assms(3) iv by simp
  have "run (ofb_step E) (rd m ivec 16, 0) (rd m inp k) = ((?B, k mod 16), xor_bytes (rd m inp k) ?B)"
    using run_keystream_block [of "rd m inp k" "\<lambda>iv. iv" E "rd m ivec 16"] assms B
    by (simp add: ofb_step_def)
  moreover have "wr (wr m out (xor_bytes (rd m inp k) ?B)) ivec ?B = wr ?m out (xor_bytes (rd m inp k) ?B)"
    using assms(3,6) B unfolding call_block_def
    by (intro wr_commute) (simp add: apart_sym min_absorb1)
  ultimately show ?thesis by (simp add: streamed_def get_iv_def put_iv_def i ys)
qed

lemma ofb_blocks_streamed:
  assumes "block_fn E" "ahead inp out len" "apart ivec 16 inp len" "apart ivec 16 out len"
  shows "ofb_blocks E ivec m inp out len 0 =
    (let q = 16 * (len div 16)
     in (fst (streamed (ofb_step E) (get_iv ivec) (put_iv ivec) m inp out q 0), inp + q, out + q, len mod 16, 0))"
proof (rule ofbs.streamed_blocks [of "(E, ivec)" inp out len "\<lambda>m inp out len. ofb_blocks E ivec m inp out len 0",
    unfolded prod.case])
  fix m :: memory and inp out len :: nat assume "len < 16"
  then show "ofb_blocks E ivec m inp out len 0 = (m, inp, out, len, 0)"
    by (simp add: ofb_blocks.simps [of E ivec m inp out len])
next
  fix m :: memory and inp out len :: nat
  assume a: "16 \<le> len" "ahead inp out 16" "apart ivec 16 inp 16" "apart ivec 16 out 16"
  show "ofb_blocks E ivec m inp out len 0 = ofb_blocks E ivec
      (fst (streamed (ofb_step E) (get_iv ivec) (put_iv ivec) m inp out 16 0)) (inp + 16) (out + 16) (len - 16) 0"
    using a(1) ofb_block_code [OF assms(1) _ _ a(2-4)] xor_word_loop [OF a(2,4)]
    by (subst ofb_blocks.simps) (simp add: Let_def)
qed (use assms in auto)

lemma ofb_code:
  assumes "block_fn E" "n < 16" "ahead inp out len" "apart ivec 16 inp len" "apart ivec 16 out len"
  shows "CRYPTO_ofb128_encrypt E ivec m inp out len n =
    streamed (ofb_step E) (get_iv ivec) (put_iv ivec) m inp out len n"
  unfolding CRYPTO_ofb128_encrypt_def
proof (rule ofbs.phased_code [of "(E, ivec)", unfolded prod.case, OF assms])
  show "xor_prologue ivec m inp out len n = (let k = prologue_len n len
    in (fst (streamed (ofb_step E) (get_iv ivec) (put_iv ivec) m inp out k n), inp + k, out + k, len - k, (n + k) mod 16))"
    using xor_prologue_eq [OF assms(2,3,5)] ofb_within [OF assms(2) refl assms(5)] by (simp add: Let_def)
  show "ofb_blocks E ivec m inp out 0 n = (m, inp, out, 0, n)" for m inp out n
    by (simp add: ofb_blocks.simps [of _ _ _ _ _ 0])
  fix m :: memory and inp out len :: nat
  assume cl: "ahead inp out len" "apart ivec 16 inp len" "apart ivec 16 out len"
  then show "ofb_blocks E ivec m inp out len 0 =
    (let q = 16 * (len div 16)
     in (fst (streamed (ofb_step E) (get_iv ivec) (put_iv ivec) m inp out q 0), inp + q, out + q, len mod 16, 0))"
    by (rule ofb_blocks_streamed [OF assms(1)])
  assume len: "0 < len" "len < 16"
  then have "apart ivec len out len" using cl(3) by (auto simp: apart_def)
  from xor_byte_loop [OF cl(1) this] ofb_block_code [OF assms(1) _ _ cl] len
  show "(let m = call_block E m ivec ivec
      in (for_from 0 (0 + len) 1 (\<lambda>k t. t(out + k := t (inp + k) XOR t (ivec + k))) m, 0 + len)) =
    streamed (ofb_step E) (get_iv ivec) (put_iv ivec) m inp out len 0"
    by (simp add: Let_def)
qed

interpretation ofb: stream_pair "\<lambda>(E, ivec). block_fn E"
    "\<lambda>(E, ivec). ofb_step E" "\<lambda>(E, ivec). ofb_step E" "\<lambda>(E, ivec). get_iv ivec" "\<lambda>(E, ivec). put_iv ivec"
    "\<lambda>s. length s = 16" "\<lambda>(E, ivec). apart ivec 16"
    "\<lambda>(E, ivec). CRYPTO_ofb128_encrypt E ivec" "\<lambda>(E, ivec). CRYPTO_ofb128_encrypt E ivec"
  by unfold_locales
    (auto simp: ofb_code ofb_step_def intro: mode_step_inverse [rotated] split: prod.splits)

end
