(* ===== verification/Cfb.thy ===== *)
theory Cfb
  imports Feedback
begin

text \<open>
  Cipher feedback, crypto/fipsmodule/modes/cfb.c: the full-block mode, and the modes that feed
  back one bit or one byte at a time. The two branches of \<open>CRYPTO_cfb128_encrypt\<close> have the same
  loops and differ in the assignments; \<open>cfb_byte\<close> and \<open>cfb_word\<close> are these.
\<close>

section \<open>Full blocks\<close>

text \<open>
  \<open>out = ivec[n] ^= in\<close> for encryption, \<open>out = ivec[n] ^ (c = in); ivec[n] = c\<close> for decryption.
\<close>

definition cfb_byte :: "bool \<Rightarrow> memory \<Rightarrow> nat \<Rightarrow> nat \<Rightarrow> nat \<Rightarrow> memory" where
  "cfb_byte enc m inp out iv =
     (if enc
      then (let m = m(iv := m iv XOR m inp) in m(out := m iv))
      else (let c = m inp; m = m(out := m iv XOR c) in m(iv := c)))"

definition cfb_word :: "bool \<Rightarrow> memory \<Rightarrow> nat \<Rightarrow> nat \<Rightarrow> nat \<Rightarrow> memory" where
  "cfb_word enc m inp out iv =
     (if enc
      then (let tmp = load_word_le m iv XOR load_word_le m inp; m = store_word_le m iv tmp
            in store_word_le m out tmp)
      else (let t = load_word_le m inp; m = store_word_le m out (load_word_le m iv XOR t)
            in store_word_le m iv t))"

function cfb_prologue :: "bool \<Rightarrow> nat \<Rightarrow> memory \<Rightarrow> nat \<Rightarrow> nat \<Rightarrow> nat \<Rightarrow> nat
    \<Rightarrow> memory \<times> nat \<times> nat \<times> nat \<times> nat" where
  "cfb_prologue enc ivec m inp out len n =
     (if n \<noteq> 0 \<and> len \<noteq> 0
      then cfb_prologue enc ivec (cfb_byte enc m inp out (ivec + n)) (inp + 1) (out + 1) (len - 1) ((n + 1) mod 16)
      else (m, inp, out, len, n))"
  by pat_completeness auto
termination
  by (relation "measure (\<lambda>(_, _, _, _, _, len, _). len)") auto

function cfb_strict_loop :: "bool \<Rightarrow> (bytes \<Rightarrow> bytes) \<Rightarrow> nat \<Rightarrow> memory \<Rightarrow> nat \<Rightarrow> nat \<Rightarrow> nat \<Rightarrow> nat \<Rightarrow> nat
    \<Rightarrow> memory \<times> nat" where
  "cfb_strict_loop enc E ivec m inp out len l n =
     (if l < len
      then (let m = (if n = 0 then call_block E m ivec ivec else m)
            in cfb_strict_loop enc E ivec (cfb_byte enc m (inp + l) (out + l) (ivec + n)) inp out len (l + 1)
                 ((n + 1) mod 16))
      else (m, n))"
  by pat_completeness auto
termination
  by (relation "measure (\<lambda>(_, _, _, _, _, _, len, l, _). len - l)") auto

function cfb_blocks :: "bool \<Rightarrow> (bytes \<Rightarrow> bytes) \<Rightarrow> nat \<Rightarrow> memory \<Rightarrow> nat \<Rightarrow> nat \<Rightarrow> nat \<Rightarrow> nat
    \<Rightarrow> memory \<times> nat \<times> nat \<times> nat \<times> nat" where
  "cfb_blocks enc E ivec m inp out len n =
     (if 16 \<le> len
      then (let m = call_block E m ivec ivec;
                m = for_from n 16 8 (\<lambda>k t. cfb_word enc t (inp + k) (out + k) (ivec + k)) m
            in cfb_blocks enc E ivec m (inp + 16) (out + 16) (len - 16) 0)
      else (m, inp, out, len, n))"
  by pat_completeness auto
termination
  by (relation "measure (\<lambda>(_, _, _, _, _, _, len, _). len)") auto

declare cfb_prologue.simps [simp del] cfb_strict_loop.simps [simp del] cfb_blocks.simps [simp del]

definition CRYPTO_cfb128_encrypt ::
  "bool \<Rightarrow> (bytes \<Rightarrow> bytes) \<Rightarrow> nat \<Rightarrow> bool \<Rightarrow> memory \<Rightarrow> nat \<Rightarrow> nat \<Rightarrow> nat \<Rightarrow> nat \<Rightarrow> memory \<times> nat" where
  "CRYPTO_cfb128_encrypt strict E ivec enc m inp out len num =
     (let (m, inp, out, len, n) = cfb_prologue enc ivec m inp out len num
      in if strict \<and> (inp OR out OR ivec) mod 8 \<noteq> 0
         then cfb_strict_loop enc E ivec m inp out len 0 n
         else (let (m, inp, out, len, n) = cfb_blocks enc E ivec m inp out len n
               in if len \<noteq> 0
                  then (let m = call_block E m ivec ivec
                        in (for_from n (n + len) 1 (\<lambda>k t. cfb_byte enc t (inp + k) (out + k) (ivec + k)) m, n + len))
                  else (m, n)))"

text \<open>The reference: the block absorbs the ciphertext.\<close>

definition cfb_step :: "bool \<Rightarrow> (bytes \<Rightarrow> bytes) \<Rightarrow> bytes \<times> nat \<Rightarrow> u8 \<Rightarrow> (bytes \<times> nat) \<times> u8" where
  "cfb_step enc E = mode_step E (\<lambda>iv. iv) (\<lambda>iv n x y. iv[n := if enc then y else x])"

lemma cfb_step_wf:
  "block_fn E \<Longrightarrow> length s = 16 \<Longrightarrow> n < 16 \<Longrightarrow>
    length (fst (fst (cfb_step enc E (s, n) x))) = 16 \<and> snd (fst (cfb_step enc E (s, n) x)) = (n + 1) mod 16"
  by (simp add: cfb_step_def mode_step_def Let_def)

interpretation cfbs: stream_state "\<lambda>(E, ivec). block_fn E" "\<lambda>(E, ivec). cfb_step enc E" "\<lambda>(E, ivec). get_iv ivec"
    "\<lambda>(E, ivec). put_iv ivec" "\<lambda>s. length s = 16" "\<lambda>(E, ivec). apart ivec 16" for enc
  by (rule iv_state) (rule cfb_step_wf)

lemma cfb_keeps: "keeps_ahead (\<lambda>iv. iv) (\<lambda>iv n x y. iv[n := f x y])"
  by (simp add: keeps_ahead_def)

lemma cfb_absorb_all:
  "n + length xs \<le> length iv \<Longrightarrow> length ys = length xs \<Longrightarrow>
   absorb_all (\<lambda>iv n x y. iv[n := if enc then y else x]) iv n xs ys = write_at iv n (if enc then ys else xs)"
proof (induction "\<lambda>iv n (x :: u8) y. iv[n := if enc then y else x]" iv n xs ys rule: absorb_all.induct)
  case (1 iv n x xs y ys)
  let ?v = "if enc then y else x"
  have "write_at (iv[n := ?v]) (Suc n) (if enc then ys else xs) = write_at iv n (if enc then y # ys else x # xs)"
    using 1(2,3) by (simp add: write_at_def upd_conv_take_nth_drop min_absorb1 add.commute)
  then show ?case using 1 by simp
qed auto

text \<open>The assignments, by bytes and by words.\<close>

definition cfb_store :: "bool \<Rightarrow> memory \<Rightarrow> nat \<Rightarrow> nat \<Rightarrow> nat \<Rightarrow> nat \<Rightarrow> memory" where
  "cfb_store enc m inp out iv n =
     (let xs = rd m inp n; ys = xor_bytes xs (rd m iv n)
      in wr (wr m out ys) iv (if enc then ys else xs))"

lemma cfb_byte_store: "iv \<noteq> out \<Longrightarrow> cfb_byte enc m inp out iv = cfb_store enc m inp out iv 1"
  by (auto simp: cfb_byte_def cfb_store_def rd_Suc xor_bytes_def xor.commute Let_def)

lemma cfb_word_store: "apart iv 8 out 8 \<Longrightarrow> cfb_word enc m inp out iv = cfb_store enc m inp out iv 8"
  by (auto simp: cfb_word_def cfb_store_def store_word_le_def word_bytes_xor word_bytes_load Let_def
      xor_bytes_commute [of "rd m iv 8"] intro!: wr_commute)

lemma cfb_store_add:
  assumes "apart iv n out (k + n)" "apart iv (k + n) out (k + n)" "ahead inp out (k + n)" "apart iv (k + n) inp (k + n)"
  shows "cfb_store enc (cfb_store enc m inp out iv k) (inp + k) (out + k) (iv + k) n = cfb_store enc m inp out iv (k + n)"
proof -
  let ?xs = "rd m inp k" and ?xs' = "rd m (inp + k) n"
  let ?ys = "xor_bytes ?xs (rd m iv k)" and ?ys' = "xor_bytes ?xs' (rd m (iv + k) n)"
  define m1 where "m1 = cfb_store enc m inp out iv k"
  let ?v = "if enc then ?ys else ?xs" and ?v' = "if enc then ?ys' else ?xs'"
  have m1: "m1 = wr (wr m out ?ys) iv ?v" by (simp add: m1_def cfb_store_def Let_def)
  have lv: "length ?v = k" "length ?v' = n" by simp_all
  have "rd m1 (inp + k) n = rd (wr m out ?ys) (inp + k) n"
    unfolding m1 using assms(4) lv by (intro rd_wr_apart) (auto simp: apart_def)
  also have "\<dots> = ?xs'"
    using assms(3) by (intro rd_wr_apart) (auto simp: apart_def ahead_def)
  finally have i: "rd m1 (inp + k) n = ?xs'" .
  have "rd m1 (iv + k) n = rd (wr m out ?ys) (iv + k) n"
    unfolding m1 using lv by (intro rd_wr_apart) (simp add: apart_def)
  also have "\<dots> = rd m (iv + k) n"
    using assms(2) by (intro rd_wr_apart) (auto simp: apart_def)
  finally have v: "rd m1 (iv + k) n = rd m (iv + k) n" .
  have "wr (wr (wr (wr m out ?ys) iv ?v) (out + k) ?ys') (iv + k) ?v' =
      wr (wr (wr (wr m out ?ys) (out + k) ?ys') iv ?v) (iv + k) ?v'"
    using assms(2) lv by (subst wr_commute [of iv ?v "out + k" ?ys']) (auto simp: apart_def)
  also have "\<dots> = wr (wr m out (?ys @ ?ys')) iv (?v @ ?v')"
    using lv by (simp add: wr_append)
  also have "?ys @ ?ys' = xor_bytes (rd m inp (k + n)) (rd m iv (k + n))"
    by (simp add: rd_add xor_bytes_def)
  finally have "wr (wr m1 (out + k) ?ys') (iv + k) ?v' = cfb_store enc m inp out iv (k + n)"
    unfolding m1 by (cases enc) (simp_all add: cfb_store_def rd_add xor_bytes_def Let_def)
  moreover have "cfb_store enc m1 (inp + k) (out + k) (iv + k) n = wr (wr m1 (out + k) ?ys') (iv + k) ?v'"
    by (simp only: cfb_store_def Let_def i v)
  ultimately show ?thesis unfolding m1_def by simp
qed

lemma cfb_loop:
  assumes lim: "0 < st" "lim = q * st" and cl: "apart iv lim inp lim" "apart iv lim out lim" "ahead inp out lim"
    and body: "\<And>k t. k + st \<le> lim \<Longrightarrow> body k t = cfb_store enc t (inp + k) (out + k) (iv + k) st"
  shows "for_from 0 lim st body m = cfb_store enc m inp out iv lim"
proof (rule for_from_inv [where P = "\<lambda>k t. t = cfb_store enc m inp out iv k" and q = q])
  show "m = cfb_store enc m inp out iv 0" by (simp add: cfb_store_def)
  fix i k t assume i: "i < q" "k = 0 + i * st" and t: "t = cfb_store enc m inp out iv k"
  have "k + st = Suc i * st" using i(2) by simp
  also have "\<dots> \<le> lim" unfolding lim(2) using i(1) by (intro mult_le_mono1) simp
  finally have le: "k + st \<le> lim" .
  show "body k t = cfb_store enc m inp out iv (k + st)"
    unfolding body [OF le] t using cl le
    by (intro cfb_store_add) (auto simp: apart_def ahead_def)
qed (use lim in auto)

section \<open>Meeting the reference\<close>

lemma wr_write_at: "length vs \<le> length B \<Longrightarrow> wr (wr m a B) a vs = wr m a (write_at B 0 vs)"
  by (auto simp: wr_def fun_eq_iff write_at_def nth_append)

lemma wr_rd_write_at:
  "n + length vs \<le> k \<Longrightarrow> wr m a (write_at (rd m a k) n vs) = wr m (a + n) vs"
  by (auto simp: wr_def fun_eq_iff write_at_def nth_append)

lemma cfb_byte_streamed:
  assumes "n < 16" "n \<noteq> 0" "apart ivec 16 inp 1" "apart ivec 16 out 1"
  shows "streamed (cfb_step enc E) (get_iv ivec) (put_iv ivec) m inp out 1 n =
    (cfb_byte enc m inp out (ivec + n), (n + 1) mod 16)"
proof -
  let ?y = "m inp XOR m (ivec + n)"
  let ?v = "if enc then ?y else m inp"
  have r: "run (cfb_step enc E) (rd m ivec 16, n) (rd m inp 1) = (((rd m ivec 16)[n := ?v], (n + 1) mod 16), [?y])"
    using assms(1,2) by (simp add: cfb_step_def mode_step_def rd_Suc Let_def)
  have ne: "ivec + n \<noteq> out" using assms(1,4) by (auto simp: apart_def)
  have rd': "rd (m(out := ?y)) ivec 16 = rd m ivec 16"
    using assms(4) by (intro rd_upd_apart) (auto simp: apart_def)
  have "wr (m(out := ?y)) ivec ((rd m ivec 16)[n := ?v]) = (m(out := ?y))(ivec + n := ?v)"
    using wr_rd_write_at [of n "[?v]" 16 "m(out := ?y)" ivec] assms(1)
    by (simp add: rd' write_at_single)
  then show ?thesis
    using cfb_byte_store [OF ne, of enc m inp] r
    by (simp add: streamed_def get_iv_def put_iv_def cfb_store_def rd_Suc xor_bytes_def Let_def)
qed

lemma cfb_prologue_streamed:
  assumes "block_fn E"
  shows "n < 16 \<Longrightarrow> ahead inp out len \<Longrightarrow> apart ivec 16 inp len \<Longrightarrow> apart ivec 16 out len \<Longrightarrow>
    cfb_prologue enc ivec m inp out len n =
      (let k = prologue_len n len
       in (fst (streamed (cfb_step enc E) (get_iv ivec) (put_iv ivec) m inp out k n), inp + k, out + k, len - k, (n + k) mod 16))"
proof (induction len arbitrary: m inp out n)
  case 0
  then show ?case
    using cfbs.streamed_0 [of "(E, ivec)", unfolded prod.case, OF assms]
    by (simp add: cfb_prologue.simps [of _ _ _ _ _ 0] prologue_len_def)
next
  case (Suc len)
  show ?case
  proof (cases "n = 0")
    case True
    then show ?thesis
      using cfbs.streamed_0 [of "(E, ivec)", unfolded prod.case, OF assms]
      by (simp add: cfb_prologue.simps [of _ _ _ _ _ _ 0] prologue_len_def)
  next
    case False
    let ?S = "streamed (cfb_step enc E) (get_iv ivec) (put_iv ivec)"
    define j where "j = prologue_len ((n + 1) mod 16) len"
    have k: "prologue_len n (Suc len) = 1 + j"
      using False Suc.prems(1) by (cases "n = 15") (auto simp: j_def prologue_len_def)
    have jl: "1 + j \<le> Suc len" by (simp add: j_def prologue_len_def)
    have cl: "ahead inp out (1 + j)" "apart ivec 16 inp (1 + j)" "apart ivec 16 out (1 + j)" "apart ivec 16 inp 1" "apart ivec 16 out 1"
      using Suc.prems jl by (auto simp: ahead_def apart_def)
    let ?m = "cfb_byte enc m inp out (ivec + n)"
    note b = cfb_byte_streamed [OF Suc.prems(1) False cl(4,5), of enc E m]
    have add: "?S m inp out (1 + j) n = ?S ?m (inp + 1) (out + 1) j ((n + 1) mod 16)"
      by (rule cfbs.streamed_add [of "(E, ivec)", unfolded prod.case, OF assms Suc.prems(1) cl(1-3) b])
    have "cfb_prologue enc ivec ?m (inp + 1) (out + 1) len ((n + 1) mod 16) =
      (let k = prologue_len ((n + 1) mod 16) len
       in (fst (?S ?m (inp + 1) (out + 1) k ((n + 1) mod 16)), inp + 1 + k, out + 1 + k, len - k, ((n + 1) mod 16 + k) mod 16))"
      by (rule Suc.IH) (use Suc.prems in \<open>auto simp: ahead_def apart_def\<close>)
    then have "cfb_prologue enc ivec ?m (inp + 1) (out + 1) len ((n + 1) mod 16) =
      (fst (?S m inp out (1 + j) n), inp + (1 + j), out + (1 + j), Suc len - (1 + j), (n + (1 + j)) mod 16)"
      unfolding add by (simp add: j_def mod_simps Let_def)
    then show ?thesis
      using False by (subst cfb_prologue.simps) (simp add: k Let_def)
  qed
qed

lemma cfb_block_code:
  assumes "block_fn E" "0 < k" "k \<le> 16" "ahead inp out k" "apart ivec 16 inp k" "apart ivec 16 out k"
  shows "streamed (cfb_step enc E) (get_iv ivec) (put_iv ivec) m inp out k 0 =
    (cfb_store enc (call_block E m ivec ivec) inp out ivec k, k mod 16)"
proof -
  let ?B = "E (rd m ivec 16)" and ?m = "call_block E m ivec ivec" and ?xs = "rd m inp k"
  let ?ys = "xor_bytes ?xs ?B"
  let ?vs = "if enc then ?ys else ?xs"
  have B: "length ?B = 16" using assms(1) by simp
  have i: "rd ?m inp k = ?xs" using assms(5) B
    unfolding call_block_def by (intro rd_wr_apart) (simp add: apart_sym)
  have iv: "rd ?m ivec 16 = ?B" using B by (simp add: call_block_def)
  have ys: "xor_bytes ?xs (rd ?m ivec k) = ?ys"
    using xor_bytes_rd_min [of k 16 ?xs ?m ivec] assms(3) iv by simp
  have "run (cfb_step enc E) (rd m ivec 16, 0) ?xs = ((write_at ?B 0 ?vs, k mod 16), ?ys)"
    using run_block [OF cfb_keeps, of ?xs E "rd m ivec 16"] cfb_absorb_all [of 0 ?xs ?B ?ys enc] assms(2,3) B
    by (simp add: cfb_step_def min_absorb1)
  moreover have "wr (wr m out ?ys) ivec (write_at ?B 0 ?vs) = wr (wr ?m out ?ys) ivec ?vs"
  proof -
    have "length ?vs \<le> length ?B" using assms(3) B by simp
    from wr_write_at [OF this] have "wr (wr m out ?ys) ivec (write_at ?B 0 ?vs) = wr (wr (wr m out ?ys) ivec ?B) ivec ?vs" ..
    also have "wr (wr m out ?ys) ivec ?B = wr ?m out ?ys"
      using assms(3,6) B unfolding call_block_def by (intro wr_commute) (simp add: apart_sym min_absorb1)
    finally show ?thesis .
  qed
  ultimately show ?thesis by (simp add: streamed_def get_iv_def put_iv_def cfb_store_def i ys Let_def)
qed

lemma cfb_word_loop:
  assumes "apart ivec 16 inp 16" "apart ivec 16 out 16" "ahead inp out 16"
  shows "for_from 0 16 8 (\<lambda>k t. cfb_word enc t (inp + k) (out + k) (ivec + k)) m = cfb_store enc m inp out ivec 16"
  using assms(2) by (intro cfb_loop [OF _ _ assms, where q = 2]) (auto simp: apart_def intro!: cfb_word_store)

lemma cfb_byte_loop:
  assumes "apart ivec len inp len" "apart ivec len out len" "ahead inp out len"
  shows "for_from 0 len 1 (\<lambda>k t. cfb_byte enc t (inp + k) (out + k) (ivec + k)) m = cfb_store enc m inp out ivec len"
  using assms(2) by (intro cfb_loop [OF _ _ assms, where q = len] cfb_byte_store) (auto simp: apart_def)

lemma cfb_blocks_streamed:
  assumes "block_fn E" "ahead inp out len" "apart ivec 16 inp len" "apart ivec 16 out len"
  shows "cfb_blocks enc E ivec m inp out len 0 =
    (let q = 16 * (len div 16)
     in (fst (streamed (cfb_step enc E) (get_iv ivec) (put_iv ivec) m inp out q 0), inp + q, out + q, len mod 16, 0))"
proof (rule cfbs.streamed_blocks [of "(E, ivec)" inp out len "\<lambda>m inp out len. cfb_blocks enc E ivec m inp out len 0" enc,
    unfolded prod.case])
  fix m :: memory and inp out len :: nat assume "len < 16"
  then show "cfb_blocks enc E ivec m inp out len 0 = (m, inp, out, len, 0)"
    by (simp add: cfb_blocks.simps [of _ _ _ m])
next
  fix m :: memory and inp out len :: nat
  assume a: "16 \<le> len" "ahead inp out 16" "apart ivec 16 inp 16" "apart ivec 16 out 16"
  show "cfb_blocks enc E ivec m inp out len 0 = cfb_blocks enc E ivec
      (fst (streamed (cfb_step enc E) (get_iv ivec) (put_iv ivec) m inp out 16 0)) (inp + 16) (out + 16) (len - 16) 0"
    using a(1) cfb_block_code [OF assms(1) _ _ a(2-4)] cfb_word_loop [OF a(3,4,2)]
    by (subst cfb_blocks.simps) (simp add: Let_def)
qed (use assms in auto)

lemma cfb_strict_streamed:
  assumes e: "block_fn E"
  shows "l \<le> len \<Longrightarrow> n < 16 \<Longrightarrow> ahead inp out len \<Longrightarrow> apart ivec 16 inp len \<Longrightarrow> apart ivec 16 out len \<Longrightarrow>
    cfb_strict_loop enc E ivec m inp out len l n =
    streamed (cfb_step enc E) (get_iv ivec) (put_iv ivec) m (inp + l) (out + l) (len - l) n"
proof (induction "len - l" arbitrary: m l n)
  case 0
  then show ?case
    using cfbs.streamed_0 [of "(E, ivec)", unfolded prod.case, OF e] by (simp add: cfb_strict_loop.simps)
next
  case (Suc j)
  let ?S = "streamed (cfb_step enc E) (get_iv ivec) (put_iv ivec)"
  have l: "l < len" "len - l = 1 + (len - (l + 1))" using Suc.hyps(2) by auto
  have c: "ahead (inp + l) (out + l) (1 + (len - (l + 1)))" "apart ivec 16 (inp + l) (1 + (len - (l + 1)))"
    "apart ivec 16 (out + l) (1 + (len - (l + 1)))"
    and c1: "ahead (inp + l) (out + l) 1" "apart ivec 16 (inp + l) 1" "apart ivec 16 (out + l) 1"
    using Suc.prems l by (auto simp: ahead_def apart_def)
  let ?m = "if n = 0 then call_block E m ivec ivec else m"
  let ?m1 = "cfb_byte enc ?m (inp + l) (out + l) (ivec + n)"
  have s: "?S m (inp + l) (out + l) 1 n = (?m1, (n + 1) mod 16)"
  proof (cases "n = 0")
    case True
    have "ivec \<noteq> out + l" using c1(3) by (auto simp: apart_def)
    then show ?thesis using cfb_block_code [OF e _ _ c1] True by (simp add: cfb_byte_store)
  next
    case False
    then show ?thesis using cfb_byte_streamed [OF Suc.prems(2) False c1(2,3)] by simp
  qed
  have "?S m (inp + l) (out + l) (1 + (len - (l + 1))) n = ?S ?m1 (inp + l + 1) (out + l + 1) (len - (l + 1)) ((n + 1) mod 16)"
    by (rule cfbs.streamed_add [of "(E, ivec)", unfolded prod.case, OF e Suc.prems(2) c s])
  moreover have "cfb_strict_loop enc E ivec ?m1 inp out len (l + 1) ((n + 1) mod 16) =
      ?S ?m1 (inp + (l + 1)) (out + (l + 1)) (len - (l + 1)) ((n + 1) mod 16)"
    by (rule Suc.hyps(1)) (use Suc.hyps(2) Suc.prems in auto)
  ultimately show ?case
    using l by (subst cfb_strict_loop.simps) (simp add: Let_def)
qed

theorem cfb_code:
  assumes e: "block_fn E" and n: "n < 16" and ah: "ahead inp out len"
    and c: "apart ivec 16 inp len" "apart ivec 16 out len"
  shows "CRYPTO_cfb128_encrypt strict E ivec enc m inp out len n =
    streamed (cfb_step enc E) (get_iv ivec) (put_iv ivec) m inp out len n"
proof -
  let ?S = "streamed (cfb_step enc E) (get_iv ivec) (put_iv ivec)"
  define k where "k = prologue_len n len"
  have kl: "k \<le> len" by (simp add: k_def prologue_len_def)
  obtain m1 n1 where p: "?S m inp out k n = (m1, n1)" by (metis surj_pair)
  have n1: "n1 = (n + k) mod 16"
    by (rule cfbs.streamed_pos [of "(E, ivec)", unfolded prod.case, OF e n p])
  have pro: "cfb_prologue enc ivec m inp out len n = (m1, inp + k, out + k, len - k, n1)"
    using cfb_prologue_streamed [OF e n ah c, of enc m] p n1 by (simp add: k_def [symmetric] Let_def)
  show ?thesis
  proof (cases "strict \<and> ((inp + k) OR (out + k) OR ivec) mod 8 \<noteq> 0")
    case True
    have "ahead (inp + k) (out + k) (len - k)" "apart ivec 16 (inp + k) (len - k)" "apart ivec 16 (out + k) (len - k)"
      using ah c kl by (auto simp: ahead_def apart_def)
    then have "cfb_strict_loop enc E ivec m1 (inp + k) (out + k) (len - k) 0 n1 = ?S m1 (inp + k) (out + k) (len - k) n1"
      using cfb_strict_streamed [OF e, of 0 "len - k" n1] n1 by simp
    moreover have "?S m inp out len n = ?S m1 (inp + k) (out + k) (len - k) n1"
      using cfbs.streamed_add [of "(E, ivec)" n inp out k "len - k" enc m m1 n1] e n ah c p kl by simp
    ultimately show ?thesis using True by (simp add: CRYPTO_cfb128_encrypt_def pro)
  next
    case False
    have "CRYPTO_cfb128_encrypt strict E ivec enc m inp out len n =
      (let (m, inp, out, len, n) = (m1, inp + k, out + k, len - k, n1);
           (m, inp, out, len, n) = cfb_blocks enc E ivec m inp out len n
       in if len \<noteq> 0
          then (let m = call_block E m ivec ivec
                in (for_from n (n + len) 1 (\<lambda>k t. cfb_byte enc t (inp + k) (out + k) (ivec + k)) m, n + len))
          else (m, n))"
      using False by (auto simp: CRYPTO_cfb128_encrypt_def pro)
    also have "\<dots> = ?S m inp out len n"
    proof (rule cfbs.phased_code [of "(E, ivec)", unfolded prod.case, OF e n ah c])
      show "(m1, inp + k, out + k, len - k, n1) = (let k = prologue_len n len
        in (fst (?S m inp out k n), inp + k, out + k, len - k, (n + k) mod 16))"
        using p n1 by (simp add: k_def Let_def)
      show "cfb_blocks enc E ivec m inp out 0 n = (m, inp, out, 0, n)" for m inp out n
        by (simp add: cfb_blocks.simps)
      fix m :: memory and inp out len :: nat
      assume cl: "ahead inp out len" "apart ivec 16 inp len" "apart ivec 16 out len"
      then show "cfb_blocks enc E ivec m inp out len 0 =
        (let q = 16 * (len div 16) in (fst (?S m inp out q 0), inp + q, out + q, len mod 16, 0))"
        by (rule cfb_blocks_streamed [OF e])
      assume len: "0 < len" "len < 16"
      then have ap: "apart ivec len inp len" "apart ivec len out len" using cl by (auto simp: apart_def)
      from cfb_byte_loop [OF ap cl(1)] cfb_block_code [OF e _ _ cl] len
      show "(let m = call_block E m ivec ivec
          in (for_from 0 (0 + len) 1 (\<lambda>k t. cfb_byte enc t (inp + k) (out + k) (ivec + k)) m, 0 + len)) = ?S m inp out len 0"
        by (simp add: Let_def)
    qed
    finally show ?thesis .
  qed
qed

interpretation cfb: stream_pair "\<lambda>(E, ivec). block_fn E"
    "\<lambda>(E, ivec). cfb_step True E" "\<lambda>(E, ivec). cfb_step False E" "\<lambda>(E, ivec). get_iv ivec" "\<lambda>(E, ivec). put_iv ivec"
    "\<lambda>s. length s = 16" "\<lambda>(E, ivec). apart ivec 16"
    "\<lambda>(E, ivec). CRYPTO_cfb128_encrypt strict E ivec True" "\<lambda>(E, ivec). CRYPTO_cfb128_encrypt strict' E ivec False"
    for strict strict'
  by unfold_locales
    (auto simp: cfb_code cfb_step_def intro: mode_step_inverse [rotated] split: prod.splits)

section \<open>One byte and one bit at a time\<close>

text \<open>
  \<open>cfbr_encrypt_block\<close> works on the values of its arrays: the input bytes \<open>xs\<close>, the vector \<open>iv\<close>;
  the result is the output bytes and the new vector. \<open>ovec\<close> is the part of the local array that
  has been written.
\<close>

definition cfbr_encrypt_block :: "(bytes \<Rightarrow> bytes) \<Rightarrow> bytes \<Rightarrow> nat \<Rightarrow> bytes \<Rightarrow> bool \<Rightarrow> bytes \<times> bytes" where
  "cfbr_encrypt_block E xs nbits iv enc =
     (if nbits = 0 \<or> 128 < nbits then ([], iv)
      else
        (let ovec = iv;
             iv = E iv;
             num = (nbits + 7) div 8;
             out = map (\<lambda>n. xs ! n XOR iv ! n) [0..<num];
             ovec = ovec @ (if enc then out else take num xs);
             rem = nbits mod 8;
             num = nbits div 8
         in (out,
             if rem = 0 then take 16 (drop num ovec)
             else map (\<lambda>n. push_bit rem (ovec ! (n + num)) OR drop_bit (8 - rem) (ovec ! (n + num + 1))) [0..<16])))"

definition CRYPTO_cfb128_8_encrypt ::
  "(bytes \<Rightarrow> bytes) \<Rightarrow> nat \<Rightarrow> bool \<Rightarrow> memory \<Rightarrow> nat \<Rightarrow> nat \<Rightarrow> nat \<Rightarrow> memory" where
  "CRYPTO_cfb128_8_encrypt E ivec enc m inp out len =
     for_from 0 len 1 (\<lambda>n m.
       (let (y, iv) = cfbr_encrypt_block E (rd m (inp + n) 1) 8 (rd m ivec 16) enc
        in wr (wr m (out + n) y) ivec iv)) m"

definition cfb1_bit :: "(bytes \<Rightarrow> bytes) \<Rightarrow> nat \<Rightarrow> bool \<Rightarrow> nat \<Rightarrow> nat \<Rightarrow> nat \<Rightarrow> memory \<Rightarrow> memory" where
  "cfb1_bit E ivec enc inp out n m =
     (let c = (if m (inp + n div 8) AND push_bit (7 - n mod 8) 1 \<noteq> 0 then 0x80 else 0);
          (d, iv) = cfbr_encrypt_block E [c] 1 (rd m ivec 16) enc;
          m = wr m ivec iv;
          o' = (m (out + n div 8) AND NOT (push_bit (7 - n mod 8) 1)) OR drop_bit (n mod 8) (d ! 0 AND 0x80)
      in m(out + n div 8 := o'))"

definition CRYPTO_cfb128_1_encrypt ::
  "(bytes \<Rightarrow> bytes) \<Rightarrow> nat \<Rightarrow> bool \<Rightarrow> memory \<Rightarrow> nat \<Rightarrow> nat \<Rightarrow> nat \<Rightarrow> memory" where
  "CRYPTO_cfb128_1_encrypt E ivec enc m inp out bits = for_from 0 bits 1 (cfb1_bit E ivec enc inp out) m"

text \<open>The references: a byte, or a bit, shifts the vector.\<close>

definition cfb8_step :: "bool \<Rightarrow> (bytes \<Rightarrow> bytes) \<Rightarrow> bytes \<Rightarrow> u8 \<Rightarrow> bytes \<times> u8" where
  "cfb8_step enc E iv x = (let y = x XOR E iv ! 0 in (drop 1 iv @ [if enc then y else x], y))"

definition shift_in :: "bytes \<Rightarrow> bool \<Rightarrow> bytes" where
  "shift_in iv b = map (\<lambda>n. push_bit 1 (iv ! n) OR (if n = 15 then of_bool b else drop_bit 7 (iv ! (n + 1)))) [0..<16]"

definition cfb1_step :: "bool \<Rightarrow> (bytes \<Rightarrow> bytes) \<Rightarrow> bytes \<Rightarrow> bool \<Rightarrow> bytes \<times> bool" where
  "cfb1_step enc E iv b = (let y = (b \<noteq> bit (E iv ! 0) 7) in (shift_in iv (if enc then y else b), y))"

interpretation cfb8: data_cipher "cfb8_step True E" "cfb8_step False E" for E
  by unfold_locales (auto simp: cfb8_step_def xor.assoc Let_def)

interpretation cfb1: data_cipher "cfb1_step True E" "cfb1_step False E" for E
  by unfold_locales (auto simp: cfb1_step_def Let_def)

lemma cfbr_byte:
  assumes "length iv = 16"
  shows "cfbr_encrypt_block E [x] 8 iv enc = ([snd (cfb8_step enc E iv x)], fst (cfb8_step enc E iv x))"
  using assms by (auto simp: cfbr_encrypt_block_def cfb8_step_def Let_def)

lemma length_cfb8: "length iv = 16 \<Longrightarrow> length (fst (cfb8_step enc E iv x)) = 16"
  by (simp add: cfb8_step_def Let_def)

lemma run_snoc:
  "run f s (xs @ [x]) = (let (s1, ys) = run f s xs; (s2, y) = f s1 x in (s2, ys @ [y]))"
  by (simp add: run_append split: prod.split)

theorem cfb8_code:
  assumes ah: "ahead inp out len" and c: "apart ivec 16 inp len" "apart ivec 16 out len"
    and r: "run (cfb8_step enc E) (rd m ivec 16) (rd m inp len) = (iv', ys)"
  shows "CRYPTO_cfb128_8_encrypt E ivec enc m inp out len = wr (wr m out ys) ivec iv'"
proof -
  let ?f = "cfb8_step enc E" and ?iv = "rd m ivec 16"
  let ?R = "\<lambda>k. run ?f ?iv (rd m inp k)"
  have len: "length (fst (?R k)) = 16" "length (snd (?R k)) = k" for k
    using run_invariant [where P = "\<lambda>iv. length iv = 16" and f = ?f] by (simp_all add: length_cfb8)
  have "CRYPTO_cfb128_8_encrypt E ivec enc m inp out len = wr (wr m out (snd (?R len))) ivec (fst (?R len))"
    unfolding CRYPTO_cfb128_8_encrypt_def
  proof (rule for_from_inv [where q = len and P = "\<lambda>k t. k \<le> len \<longrightarrow> t = wr (wr m out (snd (?R k))) ivec (fst (?R k))",
        THEN mp])
    fix i k t assume i: "i < len" "k = 0 + i * 1"
      and t: "k \<le> len \<longrightarrow> t = wr (wr m out (snd (?R k))) ivec (fst (?R k))"
    then have k: "k < len" and t: "t = wr (wr m out (snd (?R k))) ivec (fst (?R k))" by auto
    have iv: "rd t ivec 16 = fst (?R k)" by (simp add: t len)
    have "rd t (inp + k) 1 = rd (wr m out (snd (?R k))) (inp + k) 1"
      unfolding t using c(1) k len by (intro rd_wr_apart) (auto simp: apart_def)
    also have "\<dots> = rd m (inp + k) 1"
      using ah k len by (intro rd_wr_apart) (auto simp: ahead_def apart_def)
    finally have x: "rd t (inp + k) 1 = [m (inp + k)]" by (simp add: rd_Suc)
    obtain iv1 us where R: "?R k = (iv1, us)" by (metis surj_pair)
    obtain iv2 y where s: "?f iv1 (m (inp + k)) = (iv2, y)" by (metis surj_pair)
    have l1: "length iv1 = 16" "length us = k" using len [of k] by (simp_all add: R)
    have l2: "length iv2 = 16" using length_cfb8 [OF l1(1), of enc E "m (inp + k)"] by (simp add: s)
    have R': "?R (k + 1) = (iv2, us @ [y])" 
      by (simp only: Suc_eq_plus1 [symmetric] rd_snoc run_snoc R s Let_def prod.case)
    have "wr (wr (wr (wr m out us) ivec iv1) (out + k) [y]) ivec iv2 =
        wr (wr (wr (wr m out us) (out + k) [y]) ivec iv1) ivec iv2"
      using c(2) k l1 by (subst wr_commute [of ivec iv1]) (auto simp: apart_def)
    also have "\<dots> = wr (wr m out (us @ [y])) ivec iv2" using l1 l2 by (simp add: wr_append del: wr_single)
    finally show "k + 1 \<le> len \<longrightarrow> (let (y, iv) = cfbr_encrypt_block E (rd t (inp + k) 1) 8 (rd t ivec 16) enc
        in wr (wr t (out + k) y) ivec iv) = wr (wr m out (snd (?R (k + 1)))) ivec (fst (?R (k + 1)))"
      unfolding x iv R' by (simp add: R cfbr_byte l1 s t del: wr_single)
  qed auto
  then show ?thesis by (simp add: r)
qed

text \<open>Bit \<open>i\<close> of a buffer, most significant bit of each byte first.\<close>

definition bit_at :: "memory \<Rightarrow> nat \<Rightarrow> nat \<Rightarrow> bool" where
  "bit_at m a i \<longleftrightarrow> bit (m (a + i div 8)) (7 - i mod 8)"

definition rd_bits :: "memory \<Rightarrow> nat \<Rightarrow> nat \<Rightarrow> bool list" where
  "rd_bits m a n = map (bit_at m a) [0..<n]"

lemma length_rd_bits [simp]: "length (rd_bits m a n) = n"
  by (simp add: rd_bits_def)

lemma rd_bits_Suc: "rd_bits m a (Suc n) = rd_bits m a n @ [bit_at m a n]"
  by (simp add: rd_bits_def)

lemma byte_test_bit: "v AND push_bit k 1 \<noteq> 0 \<longleftrightarrow> bit v k" for v :: u8
proof
  assume "v AND push_bit k 1 \<noteq> 0"
  then obtain j where "bit (v AND push_bit k 1) j" by (metis bit_0_eq bot_apply bot_bool_def bit_word_eqI)
  then show "bit v k" by (auto simp: bit_simps)
next
  assume b: "bit v k"
  then have "k < LENGTH(8)" by (rule bit_imp_le_length)
  then have "bit (v AND push_bit k 1) k" using b by (simp add: bit_simps)
  then show "v AND push_bit k 1 \<noteq> 0" by auto
qed

lemma drop_high: "drop_bit 7 v = of_bool (bit v 7)" for v :: u8
proof (rule bit_word_eqI)
  fix k assume "k < LENGTH(8)"
  have "\<not> bit v (7 + k)" if "k \<noteq> 0"
  proof
    assume "bit v (7 + k)"
    then have "7 + k < LENGTH(8)" by (rule bit_imp_le_length)
    then show False using that by simp
  qed
  then show "bit (drop_bit 7 v) k = bit (of_bool (bit v 7) :: u8) k"
    by (cases "k = 0") (auto simp: bit_simps)
qed

lemma cfbr_one: "cfbr_encrypt_block E [c] 1 iv enc =
    ([c XOR E iv ! 0], map (\<lambda>n. push_bit 1 ((iv @ [if enc then c XOR E iv ! 0 else c]) ! n)
       OR drop_bit 7 ((iv @ [if enc then c XOR E iv ! 0 else c]) ! (n + 1))) [0..<16])"
  by (cases enc) (simp_all add: cfbr_encrypt_block_def Let_def del: upt_rec_numeral)

lemma cfbr_bit:
  assumes "length iv = 16"
  shows "snd (cfbr_encrypt_block E [if b then 0x80 else 0] 1 iv enc) = fst (cfb1_step enc E iv b)"
    and "bit (fst (cfbr_encrypt_block E [if b then 0x80 else 0] 1 iv enc) ! 0) 7 = snd (cfb1_step enc E iv b)"
proof -
  let ?c = "if b then 0x80 else (0 :: u8)"
  let ?y = "?c XOR E iv ! 0"
  have c: "bit ?c 7 = b" by simp
  then have y: "bit ?y 7 = (b \<noteq> bit (E iv ! 0) 7)" by (simp add: bit_xor_iff)
  show "bit (fst (cfbr_encrypt_block E [?c] 1 iv enc) ! 0) 7 = snd (cfb1_step enc E iv b)"
    by (simp only: cfbr_one cfb1_step_def y Let_def fst_conv snd_conv nth_Cons_0)
  have "drop_bit 7 (if enc then ?y else ?c) = of_bool (if enc then b \<noteq> bit (E iv ! 0) 7 else b)"
    unfolding drop_high using c y by simp
  then have "drop_bit 7 ((iv @ [if enc then ?y else ?c]) ! (n + 1)) =
      (if n = 15 then of_bool (if enc then b \<noteq> bit (E iv ! 0) 7 else b) else drop_bit 7 (iv ! (n + 1)))"
    if "n < 16" for n
    using that assms by (cases "n = 15") (simp_all only: nth_append, simp_all)
  moreover have "(iv @ [if enc then ?y else ?c]) ! n = iv ! n" if "n < 16" for n
    using that assms by (simp only: nth_append) simp
  ultimately show "snd (cfbr_encrypt_block E [?c] 1 iv enc) = fst (cfb1_step enc E iv b)"
    unfolding cfbr_one cfb1_step_def shift_in_def Let_def fst_conv snd_conv
    by (intro map_cong refl) (simp only: atLeastLessThan_iff set_upt)
qed

lemma replace_bit:
  fixes v d :: u8
  assumes "r < 8" "j < 8"
  shows "bit ((v AND NOT (push_bit (7 - r) 1)) OR drop_bit r (d AND 0x80)) j = (if j = 7 - r then bit d 7 else bit v j)"
proof -
  have m: "bit (0x80 :: u8) i \<longleftrightarrow> i = 7" for i
    using bit_push_bit_iff [of 7 "1 :: u8" i] by (auto simp: bit_1_iff)
  have "bit (drop_bit r (d AND 0x80)) j \<longleftrightarrow> j = 7 - r \<and> bit d 7"
    unfolding bit_drop_bit_eq comp_apply bit_and_iff m using assms by auto
  moreover have "bit (v AND NOT (push_bit (7 - r) 1)) j \<longleftrightarrow> bit v j \<and> j \<noteq> 7 - r"
    using assms by (auto simp: bit_simps)
  ultimately show ?thesis by (auto simp: bit_or_iff)
qed

text \<open>
  After \<open>k\<close> bits the vector is that of the reference, the first \<open>k\<close> bits of the output are its
  bits, and nothing else has changed.
\<close>

definition cfb1_after :: "memory \<Rightarrow> nat \<Rightarrow> nat \<Rightarrow> nat \<Rightarrow> bytes \<Rightarrow> bool list \<Rightarrow> memory \<Rightarrow> bool" where
  "cfb1_after m ivec out k iv ys t \<longleftrightarrow> rd t ivec 16 = iv \<and>
     (\<forall>x j. apart ivec 16 x 1 \<longrightarrow> j < 8 \<longrightarrow>
        bit (t x) j = (if out \<le> x \<and> 8 * (x - out) + (7 - j) < k then ys ! (8 * (x - out) + (7 - j)) else bit (m x) j))"

lemma cfb1_afterD:
  "cfb1_after m ivec out k iv ys t \<Longrightarrow> apart ivec 16 x 1 \<Longrightarrow> j < 8 \<Longrightarrow>
   bit (t x) j = (if out \<le> x \<and> 8 * (x - out) + (7 - j) < k then ys ! (8 * (x - out) + (7 - j)) else bit (m x) j)"
  unfolding cfb1_after_def by blast

lemma cfb1_position:
  fixes x out k j :: nat
  assumes "out \<le> x" "j < 8"
  shows "8 * (x - out) + (7 - j) = k \<longleftrightarrow> x = out + k div 8 \<and> j = 7 - k mod 8"
proof
  assume e: "8 * (x - out) + (7 - j) = k"
  then have k: "k = (7 - j) + (x - out) * 8" by simp
  have "k div 8 = x - out" "k mod 8 = 7 - j" unfolding k using assms(2) by (simp_all only: div_mult_self1 mod_mult_self1, simp_all)
  then show "x = out + k div 8 \<and> j = 7 - k mod 8" using assms by auto
next
  assume "x = out + k div 8 \<and> j = 7 - k mod 8"
  then show "8 * (x - out) + (7 - j) = k" by simp
qed

lemma cfb1_bit_after:
  assumes inv: "cfb1_after m ivec out k iv ys t" and l: "length iv = 16" "length ys = k"
    and k: "k < bits" and ah: "ahead inp out ((bits + 7) div 8)"
    and c: "apart ivec 16 inp ((bits + 7) div 8)" "apart ivec 16 out ((bits + 7) div 8)"
    and s: "cfb1_step enc E iv (bit_at m inp k) = (iv', y)" and l': "length iv' = 16"
  shows "cfb1_after m ivec out (k + 1) iv' (ys @ [y]) (cfb1_bit E ivec enc inp out k t)"
proof -
  define i where "i = k div 8"
  define r where "r = k mod 8"
  have r: "r < 8" and i: "i < (bits + 7) div 8" and kir: "k = 8 * i + r" using k by (auto simp: i_def r_def)
  have iv: "rd t ivec 16 = iv" using inv by (simp add: cfb1_after_def)
  have ap: "apart ivec 16 (inp + i) 1" "apart ivec 16 (out + i) 1" using c i by (auto simp: apart_def)
  have "\<not> (out \<le> inp + i \<and> 8 * (inp + i - out) + r < k)"
    using ah i kir by (auto simp: ahead_def)
  then have inbit: "bit (t (inp + i)) (7 - r) = bit_at m inp k"
    using cfb1_afterD [OF inv ap(1), of "7 - r"] r by (auto simp: bit_at_def i_def [symmetric] r_def [symmetric])
  let ?c = "if bit_at m inp k then 0x80 else (0 :: u8)"
  obtain d iv2 where cf: "cfbr_encrypt_block E [?c] 1 iv enc = (d, iv2)" by (metis surj_pair)
  have d: "iv2 = iv'" "bit (d ! 0) 7 = y"
    using cfbr_bit [OF l(1), of E "bit_at m inp k" enc] unfolding cf s by simp_all
  define t1 where "t1 = wr t ivec iv'"
  have t1: "t1 x = t x" if "apart ivec 16 x 1" for x
    unfolding t1_def using that l' by (intro wr_out) (auto simp: apart_def)
  let ?o = "(t1 (out + i) AND NOT (push_bit (7 - r) 1)) OR drop_bit r (d ! 0 AND 0x80)"
  have res: "cfb1_bit E ivec enc inp out k t = t1(out + i := ?o)"
    by (simp only: cfb1_bit_def i_def [symmetric] r_def [symmetric] byte_test_bit inbit iv cf d(1) t1_def Let_def prod.case)
  have "rd (t1(out + i := ?o)) ivec 16 = rd t1 ivec 16" using ap(2) by (intro rd_upd_apart) (auto simp: apart_def)
  then have new: "rd (t1(out + i := ?o)) ivec 16 = iv'" using l' by (simp add: t1_def)
  have bits: "bit ((t1(out + i := ?o)) x) j =
      (if out \<le> x \<and> 8 * (x - out) + (7 - j) < k + 1 then (ys @ [y]) ! (8 * (x - out) + (7 - j)) else bit (m x) j)"
    if a: "apart ivec 16 x 1" and j: "j < 8" for x j
  proof -
    let ?p = "8 * (x - out) + (7 - j)"
    have old: "bit (t1 x) j = (if out \<le> x \<and> ?p < k then ys ! ?p else bit (m x) j)"
      using cfb1_afterD [OF inv a j] by (simp only: t1 [OF a])
    show ?thesis
    proof (cases "out \<le> x \<and> ?p = k")
      case True
      then have "x = out + i" "j = 7 - r" using cfb1_position [OF _ j, of out x k] by (auto simp: i_def r_def)
      then show ?thesis using True replace_bit [OF r j, of "t1 x" "d ! 0"] d(2) l by (simp add: nth_append)
    next
      case False
      have "bit ((t1(out + i := ?o)) x) j = bit (t1 x) j"
      proof (cases "x = out + i")
        case True
        then have "j \<noteq> 7 - r" using False cfb1_position [OF _ j, of out x k] by (auto simp: i_def r_def)
        then show ?thesis using replace_bit [OF r j] True by simp
      qed simp
      moreover have "?p < k + 1 \<longleftrightarrow> ?p < k" if "out \<le> x" using False that by auto
      ultimately show ?thesis using old l by (auto simp: nth_append)
    qed
  qed
  show ?thesis unfolding cfb1_after_def res using new bits by blast
qed

theorem cfb1_code:
  assumes ah: "ahead inp out ((bits + 7) div 8)"
    and c: "apart ivec 16 inp ((bits + 7) div 8)" "apart ivec 16 out ((bits + 7) div 8)"
    and r: "run (cfb1_step enc E) (rd m ivec 16) (rd_bits m inp bits) = (iv', ys)"
  shows "cfb1_after m ivec out bits iv' ys (CRYPTO_cfb128_1_encrypt E ivec enc m inp out bits)"
proof -
  let ?f = "cfb1_step enc E" and ?iv = "rd m ivec 16"
  let ?R = "\<lambda>k. run ?f ?iv (rd_bits m inp k)"
  have len: "length (fst (?R k)) = 16" "length (snd (?R k)) = k" for k
    using run_invariant [where P = "\<lambda>iv. length iv = 16" and f = ?f]
    by (simp_all add: cfb1_step_def shift_in_def rd_bits_def Let_def)
  have "cfb1_after m ivec out bits (fst (?R bits)) (snd (?R bits)) (CRYPTO_cfb128_1_encrypt E ivec enc m inp out bits)"
    unfolding CRYPTO_cfb128_1_encrypt_def
  proof (rule for_from_inv [where q = bits and P = "\<lambda>k t. cfb1_after m ivec out k (fst (?R k)) (snd (?R k)) t"])
    show "cfb1_after m ivec out 0 (fst (?R 0)) (snd (?R 0)) m" by (simp add: cfb1_after_def rd_bits_def)
    fix i k t assume i: "i < bits" "k = 0 + i * 1" and inv: "cfb1_after m ivec out k (fst (?R k)) (snd (?R k)) t"
    obtain iv1 us where R: "?R k = (iv1, us)" by (metis surj_pair)
    obtain iv2 y where s: "?f iv1 (bit_at m inp k) = (iv2, y)" by (metis surj_pair)
    have R': "?R (k + 1) = (iv2, us @ [y])"
      by (simp only: Suc_eq_plus1 [symmetric] rd_bits_Suc run_snoc R s Let_def prod.case)
    have l: "length iv1 = 16" "length us = k" "length iv2 = 16"
      using len [of k] len [of "k + 1"] R' by (simp_all add: R)
    show "cfb1_after m ivec out (k + 1) (fst (?R (k + 1))) (snd (?R (k + 1))) (cfb1_bit E ivec enc inp out k t)"
      unfolding R' fst_conv snd_conv
      by (rule cfb1_bit_after [OF inv [unfolded R fst_conv snd_conv] l(1,2) _ ah c s l(3)]) (use i in simp)
  qed auto
  then show ?thesis by (simp add: r)
qed

text \<open>In terms of the bits of the output buffer.\<close>

lemma cfb1_after_bit_at:
  assumes "cfb1_after m ivec out k iv ys t" "apart ivec 16 out ((bits + 7) div 8)" "i < 8 * ((bits + 7) div 8)"
  shows "bit_at t out i = (if i < k then ys ! i else bit_at m out i)"
proof -
  have "i div 8 < (bits + 7) div 8" using assms(3) by (simp add: less_mult_imp_div_less mult.commute)
  then have "apart ivec 16 (out + i div 8) 1" using assms(2) by (auto simp: apart_def)
  from cfb1_afterD [OF assms(1) this, of "7 - i mod 8"] show ?thesis by (simp add: bit_at_def)
qed

lemma cfb1_after_bits:
  assumes "cfb1_after m ivec out bits iv ys t" "length ys = bits" "apart ivec 16 out ((bits + 7) div 8)"
  shows "rd_bits t out bits = ys"
proof (rule nth_equalityI)
  fix i assume "i < length (rd_bits t out bits)"
  then have i: "i < bits" by (simp add: rd_bits_def)
  then have "i < 8 * ((bits + 7) div 8)" by simp
  from cfb1_after_bit_at [OF assms(1,3) this] show "rd_bits t out bits ! i = ys ! i"
    using i by (simp add: rd_bits_def)
qed (simp add: assms(2) rd_bits_def)

lemma cfb1_after_rest:
  assumes "cfb1_after m ivec out bits iv ys t" "apart ivec 16 out ((bits + 7) div 8)"
  shows "drop bits (rd_bits t out (8 * ((bits + 7) div 8))) = drop bits (rd_bits m out (8 * ((bits + 7) div 8)))"
  by (rule nth_equalityI) (simp_all add: rd_bits_def cfb1_after_bit_at [OF assms])

end
