(* ===== verification/Ctr.thy ===== *)
theory Ctr
  imports Feedback
begin

text \<open>
  Counter mode, crypto/fipsmodule/modes/ctr.c: the counter increments, the encryption over a
  block cipher \<open>E\<close>, and the encryption over a \<open>ctr128_f\<close>, a function \<open>F\<close> from the input, the
  number of blocks and the counter block to the output that handles the low 32 bits of the
  counter only. \<open>ivec\<close> and \<open>ec\<close> are the addresses of the counter and of \<open>ecount_buf\<close>.
\<close>

section \<open>Counters\<close>

text \<open>The loop counts \<open>n\<close> down; the carry \<open>c\<close> is a \<open>uint32_t\<close>.\<close>

fun ctr_inc_loop :: "nat \<Rightarrow> u32 \<Rightarrow> memory \<Rightarrow> nat \<Rightarrow> memory" where
  "ctr_inc_loop 0 c m counter = m"
| "ctr_inc_loop (Suc n) c m counter =
     (let c1 = c + ucast (m (counter + n));
          m1 = m(counter + n := ucast c1)
      in ctr_inc_loop n (drop_bit 8 c1) m1 counter)"

definition ctr128_inc :: "memory \<Rightarrow> nat \<Rightarrow> memory" where
  "ctr128_inc m counter = ctr_inc_loop 16 1 m counter"

definition ctr96_inc :: "memory \<Rightarrow> nat \<Rightarrow> memory" where
  "ctr96_inc m counter = ctr_inc_loop 12 1 m counter"

lemma ctr_inc_loop_eq:
  "unat c \<le> 256 \<Longrightarrow> ctr_inc_loop n c m a = wr m a (be_bytes n (be_nat (rd m a n) + unat c))"
proof (induction n arbitrary: c m)
  case (Suc n)
  let ?b = "m (a + n)"
  define c1 :: u32 where "c1 = c + ucast ?b"
  have b: "unat ?b < 256" by simp
  have ub: "unat (ucast ?b :: u32) = unat ?b" by (simp add: unat_ucast_up)
  have u: "unat c1 = unat c + unat ?b"
  proof -
    have "unat c + unat ?b < 512" using Suc.prems b by linarith
    then have "unat c + unat ?b < 2 ^ 32" by simp
    then show ?thesis by (simp add: c1_def unat_word_ariths ub)
  qed
  have d: "unat (drop_bit 8 c1) = unat c1 div 256" by (simp add: unat_drop)
  have byte: "(ucast c1 :: u8) = word_of_nat (unat c1)" by simp
  have rest: "rd (m(a + n := ucast c1)) a n = rd m a n" by (simp add: rd_upd_apart)
  have sum: "be_nat (rd m a (Suc n)) + unat c = 256 * be_nat (rd m a n) + unat c1"
    by (simp add: rd_snoc u)
  have "ctr_inc_loop (Suc n) c m a = wr (m(a + n := ucast c1)) a (be_bytes n (be_nat (rd m a n) + unat c1 div 256))"
  proof -
    have "unat c1 < 512" using u Suc.prems b by linarith
    then have "unat (drop_bit 8 c1) \<le> 256" by (simp add: d)
    then have "ctr_inc_loop n (drop_bit 8 c1) (m(a + n := ucast c1)) a =
      wr (m(a + n := ucast c1)) a (be_bytes n (be_nat (rd (m(a + n := ucast c1)) a n) + unat (drop_bit 8 c1)))"
      by (rule Suc.IH)
    then show ?thesis by (simp only: ctr_inc_loop.simps Let_def c1_def [symmetric] d rest)
  qed
  also have "\<dots> = wr m a (be_bytes n (be_nat (rd m a n) + unat c1 div 256) @ [ucast c1])"
    using wr_append [of m a "be_bytes n (be_nat (rd m a n) + unat c1 div 256)" "[ucast c1]"]
      wr_commute [of "a + n" "[ucast c1]" a "be_bytes n (be_nat (rd m a n) + unat c1 div 256)" m]
    by (simp add: apart_def)
  also have "be_bytes n (be_nat (rd m a n) + unat c1 div 256) @ [ucast c1] =
      be_bytes (Suc n) (be_nat (rd m a (Suc n)) + unat c)"
  proof -
    have "(256 * be_nat (rd m a n) + unat c1) div 256 = be_nat (rd m a n) + unat c1 div 256" by simp
    moreover have "(word_of_nat (256 * be_nat (rd m a n) + unat c1) :: u8) = word_of_nat (unat c1)"
      by (simp only: word_of_nat_eq_iff take_bit_eq_mod) (simp add: mod_simps)
    ultimately show ?thesis by (simp only: sum byte be_bytes.simps)
  qed
  finally show ?case .
qed simp

definition ctr_add :: "nat \<Rightarrow> bytes \<Rightarrow> bytes" where
  "ctr_add i iv = be_bytes 16 (be_nat iv + i)"

lemma ctr128_inc_eq: "ctr128_inc m a = wr m a (ctr_add 1 (rd m a 16))"
  unfolding ctr128_inc_def ctr_add_def by (subst ctr_inc_loop_eq, simp, simp only: unat_1)

lemma ctr96_inc_eq: "ctr96_inc m a = wr m a (be_bytes 12 (be_nat (rd m a 12) + 1))"
  unfolding ctr96_inc_def by (subst ctr_inc_loop_eq, simp, simp only: unat_1)

lemma length_ctr_add [simp]: "length (ctr_add i iv) = 16"
  by (simp add: ctr_add_def)

section \<open>Encryption with a block cipher\<close>

function ctr_strict_loop :: "(bytes \<Rightarrow> bytes) \<Rightarrow> nat \<Rightarrow> nat \<Rightarrow> memory \<Rightarrow> nat \<Rightarrow> nat \<Rightarrow> nat \<Rightarrow> nat \<Rightarrow> nat
    \<Rightarrow> memory \<times> nat" where
  "ctr_strict_loop E ivec ec m inp out len l n =
     (if l < len
      then (let m1 = (if n = 0 then ctr128_inc (call_block E m ivec ec) ivec else m);
                m2 = m1(out + l := m1 (inp + l) XOR m1 (ec + n))
            in ctr_strict_loop E ivec ec m2 inp out len (l + 1) ((n + 1) mod 16))
      else (m, n))"
  by pat_completeness auto
termination
  by (relation "measure (\<lambda>(_, _, _, _, _, _, len, l, _). len - l)") auto

function ctr_blocks :: "(bytes \<Rightarrow> bytes) \<Rightarrow> nat \<Rightarrow> nat \<Rightarrow> memory \<Rightarrow> nat \<Rightarrow> nat \<Rightarrow> nat \<Rightarrow> nat
    \<Rightarrow> memory \<times> nat \<times> nat \<times> nat \<times> nat" where
  "ctr_blocks E ivec ec m inp out len n =
     (if 16 \<le> len
      then (let m1 = ctr128_inc (call_block E m ivec ec) ivec;
                m2 = for_from 0 16 8 (\<lambda>k t. store_word_le t (out + k)
                       (load_word_le t (inp + k) XOR load_word_le t (ec + k))) m1
            in ctr_blocks E ivec ec m2 (inp + 16) (out + 16) (len - 16) 0)
      else (m, inp, out, len, n))"
  by pat_completeness auto
termination
  by (relation "measure (\<lambda>(_, _, _, _, _, _, len, _). len)") auto

declare ctr_strict_loop.simps [simp del] ctr_blocks.simps [simp del]

definition CRYPTO_ctr128_encrypt ::
  "bool \<Rightarrow> (bytes \<Rightarrow> bytes) \<Rightarrow> nat \<Rightarrow> nat \<Rightarrow> memory \<Rightarrow> nat \<Rightarrow> nat \<Rightarrow> nat \<Rightarrow> nat \<Rightarrow> memory \<times> nat" where
  "CRYPTO_ctr128_encrypt strict E ivec ec m inp out len num =
     (let (m, inp, out, len, n) = xor_prologue ec m inp out len num
      in if strict \<and> (inp OR out OR ec) mod 8 \<noteq> 0
         then ctr_strict_loop E ivec ec m inp out len 0 n
         else (let (m, inp, out, len, n) = ctr_blocks E ivec ec m inp out len n
               in if len \<noteq> 0
                  then (let m = ctr128_inc (call_block E m ivec ec) ivec
                        in (for_from n (n + len) 1 (\<lambda>k t. t(out + k := t (inp + k) XOR t (ec + k))) m, n + len))
                  else (m, n)))"

text \<open>The reference: the state is the counter and the current keystream block.\<close>

definition ctr_refill :: "(bytes \<Rightarrow> bytes) \<Rightarrow> bytes \<times> bytes \<Rightarrow> bytes \<times> bytes" where
  "ctr_refill E = (\<lambda>(iv, ks). (ctr_add 1 iv, E iv))"

definition ctr_step :: "(bytes \<Rightarrow> bytes) \<Rightarrow> (bytes \<times> bytes) \<times> nat \<Rightarrow> u8 \<Rightarrow> ((bytes \<times> bytes) \<times> nat) \<times> u8" where
  "ctr_step E = mode_step (ctr_refill E) snd (\<lambda>s n x y. s)"

definition get_ctr :: "nat \<Rightarrow> nat \<Rightarrow> memory \<Rightarrow> bytes \<times> bytes" where
  "get_ctr ivec ec m = (rd m ivec 16, rd m ec 16)"

definition put_ctr :: "nat \<Rightarrow> nat \<Rightarrow> bytes \<times> bytes \<Rightarrow> memory \<Rightarrow> memory" where
  "put_ctr ivec ec s m = wr (wr m ivec (fst s)) ec (snd s)"

definition ctr_clear :: "nat \<Rightarrow> nat \<Rightarrow> nat \<Rightarrow> nat \<Rightarrow> bool" where
  "ctr_clear ivec ec a k \<longleftrightarrow> apart ivec 16 a k \<and> apart ec 16 a k"

definition ctr_wf :: "bytes \<times> bytes \<Rightarrow> bool" where
  "ctr_wf s \<longleftrightarrow> length (fst s) = 16 \<and> length (snd s) = 16"

lemma put_ctr_commute:
  assumes "ctr_clear ivec ec a (length ys)" "ctr_wf s"
  shows "put_ctr ivec ec s (wr m a ys) = wr (put_ctr ivec ec s m) a ys"
proof -
  have "wr (wr m a ys) ivec (fst s) = wr (wr m ivec (fst s)) a ys"
    using assms by (intro wr_commute) (simp add: ctr_clear_def ctr_wf_def apart_sym)
  moreover have "wr (wr (wr m ivec (fst s)) a ys) ec (snd s) = wr (wr (wr m ivec (fst s)) ec (snd s)) a ys"
    using assms by (intro wr_commute) (simp add: ctr_clear_def ctr_wf_def apart_sym)
  ultimately show ?thesis by (simp add: put_ctr_def)
qed

lemma put_put_ctr:
  assumes "apart ivec 16 ec 16" "ctr_wf s" "ctr_wf s'"
  shows "put_ctr ivec ec s' (put_ctr ivec ec s m) = put_ctr ivec ec s' m"
proof -
  have "wr (wr (wr m ivec (fst s)) ec (snd s)) ivec (fst s') = wr (wr m ivec (fst s')) ec (snd s)"
    using assms by (subst wr_commute) (auto simp: ctr_wf_def apart_sym)
  then show ?thesis using assms by (simp add: put_ctr_def ctr_wf_def)
qed

interpretation ctrs: stream_state "\<lambda>(E, ivec, ec). block_fn E \<and> apart ivec 16 ec 16" "\<lambda>(E, ivec, ec). ctr_step E"
    "\<lambda>(E, ivec, ec). get_ctr ivec ec" "\<lambda>(E, ivec, ec). put_ctr ivec ec" ctr_wf "\<lambda>(E, ivec, ec). ctr_clear ivec ec"
proof (unfold_locales, goal_cases)
  case (2 e s n x s' n' y)
  then show ?case
    by (auto simp: ctr_wf_def ctr_step_def mode_step_def ctr_refill_def Let_def split: prod.splits if_splits)
next
  case (3 e s m)
  then show ?case by (auto simp: get_ctr_def put_ctr_def ctr_wf_def rd_wr_apart split: prod.splits)
next
  case (4 e s s' m)
  then show ?case by (auto simp: put_put_ctr split: prod.splits)
next
  case (6 e a k a' k')
  then show ?case by (auto simp: ctr_clear_def apart_def split: prod.splits)
next
  case (7 e a k s m)
  then show ?case
    by (auto simp: put_ctr_def ctr_clear_def ctr_wf_def rd_wr_apart apart_sym split: prod.splits)
next
  case (8 e a ys m)
  then show ?case by (auto simp: get_ctr_def ctr_clear_def rd_wr_apart split: prod.splits)
next
  case (9 e a ys s m)
  then show ?case by (auto simp: put_ctr_commute split: prod.splits)
qed (auto simp: get_ctr_def put_ctr_def ctr_wf_def rd_wr_apart split: prod.splits)

lemma ctr_within:
  assumes "n < 16" "k = prologue_len n len" "block_fn E" "apart ivec 16 ec 16" "ctr_clear ivec ec out len"
  shows "streamed (ctr_step E) (get_ctr ivec ec) (put_ctr ivec ec) m inp out k n =
    (wr m out (xor_bytes (rd m inp k) (rd m (ec + n) k)), (n + k) mod 16)"
proof -
  let ?ys = "xor_bytes (rd m inp k) (rd m (ec + n) k)" and ?s = "get_ctr ivec ec m"
  have wf: "ctr_wf ?s" by (simp add: ctr_wf_def get_ctr_def)
  have "run (ctr_step E) (?s, n) (rd m inp k) = ((?s, (n + k) mod 16), ?ys)"
  proof (cases "k = 0")
    case False
    then have k: "0 < n" "n + k \<le> 16" using assms(1,2) by (auto simp: prologue_len_def split: if_splits)
    then show ?thesis
      using run_keystream_within [of n "rd m inp k" snd ?s "ctr_refill E"] False
        xor_bytes_rd_min [of k "16 - n" "rd m inp k"]
      by (auto simp: ctr_step_def get_ctr_def)
  qed (use assms(1) in simp)
  moreover have "put_ctr ivec ec ?s (wr m out ?ys) = wr m out ?ys"
  proof -
    have "ctr_clear ivec ec out (length ?ys)"
      using assms(2,5) by (auto simp: ctr_clear_def prologue_len_def intro: apart_mono split: if_splits)
    from put_ctr_commute [OF this wf] show ?thesis
      using ctrs.put_get [of "(E, ivec, ec)" m] assms(3,4) by simp
  qed
  ultimately show ?thesis by (simp add: streamed_def)
qed

text \<open>The next block: the counter is encrypted into \<open>ecount_buf\<close>, then incremented.\<close>

definition ctr_next :: "(bytes \<Rightarrow> bytes) \<Rightarrow> nat \<Rightarrow> nat \<Rightarrow> memory \<Rightarrow> memory" where
  "ctr_next E ivec ec m = ctr128_inc (call_block E m ivec ec) ivec"

lemma ctr_next_eq:
  assumes "block_fn E" "apart ivec 16 ec 16"
  shows "ctr_next E ivec ec m = put_ctr ivec ec (ctr_refill E (get_ctr ivec ec m)) m"
proof -
  have "rd (wr m ec (E (rd m ivec 16))) ivec 16 = rd m ivec 16"
    using assms by (simp add: rd_wr_apart)
  moreover have "wr (wr m ec (E (rd m ivec 16))) ivec (ctr_add 1 (rd m ivec 16)) =
      wr (wr m ivec (ctr_add 1 (rd m ivec 16))) ec (E (rd m ivec 16))"
    using assms by (intro wr_commute) (simp add: apart_sym)
  ultimately show ?thesis
    by (simp add: ctr_next_def ctr128_inc_eq call_block_def put_ctr_def ctr_refill_def get_ctr_def)
qed

lemma ctr_block_code:
  assumes "block_fn E" "apart ivec 16 ec 16" "0 < k" "k \<le> 16" "ahead inp out k"
    "ctr_clear ivec ec inp k" "ctr_clear ivec ec out k"
  shows "streamed (ctr_step E) (get_ctr ivec ec) (put_ctr ivec ec) m inp out k 0 =
    (wr (ctr_next E ivec ec m) out
       (xor_bytes (rd (ctr_next E ivec ec m) inp k) (rd (ctr_next E ivec ec m) ec k)), k mod 16)"
proof -
  let ?s = "get_ctr ivec ec m"
  let ?t = "ctr_refill E ?s" and ?m = "ctr_next E ivec ec m"
  have wf: "ctr_wf ?t" using assms(1) by (simp add: ctr_wf_def ctr_refill_def get_ctr_def)
  have m: "?m = put_ctr ivec ec ?t m" by (rule ctr_next_eq [OF assms(1,2)])
  have e: "case (E, ivec, ec) of (E, ivec, ec) \<Rightarrow> block_fn E \<and> apart ivec 16 ec 16"
    using assms(1,2) by simp
  have i: "rd ?m inp k = rd m inp k"
    using ctrs.rd_put [of "(E, ivec, ec)" inp k ?t m] assms(6) wf by (simp add: m)
  have "get_ctr ivec ec ?m = ?t"
    using ctrs.get_put [OF e wf, of m] by (simp add: m)
  then have ks: "rd ?m ec 16 = snd ?t" by (metis get_ctr_def snd_conv)
  have ys: "xor_bytes (rd m inp k) (rd ?m ec k) = xor_bytes (rd m inp k) (snd ?t)"
    using xor_bytes_rd_min [of k 16 "rd m inp k" ?m ec] assms(4) ks by simp
  have "run (ctr_step E) (?s, 0) (rd m inp k) = ((?t, k mod 16), xor_bytes (rd m inp k) (snd ?t))"
    using run_keystream_block [of "rd m inp k" snd "ctr_refill E" ?s] assms(3,4) wf
    by (simp add: ctr_step_def ctr_wf_def)
  moreover have "put_ctr ivec ec ?t (wr m out (xor_bytes (rd m inp k) (snd ?t))) =
      wr ?m out (xor_bytes (rd m inp k) (snd ?t))"
    using put_ctr_commute [of ivec ec out "xor_bytes (rd m inp k) (snd ?t)" ?t m] assms(4,7) wf
    by (simp add: m ctr_wf_def min_absorb1)
  ultimately show ?thesis by (simp add: streamed_def i ys)
qed

lemma ctr_blocks_streamed:
  assumes "block_fn E" "apart ivec 16 ec 16" "ahead inp out len" "ctr_clear ivec ec inp len" "ctr_clear ivec ec out len"
  shows "ctr_blocks E ivec ec m inp out len 0 =
    (let q = 16 * (len div 16)
     in (fst (streamed (ctr_step E) (get_ctr ivec ec) (put_ctr ivec ec) m inp out q 0), inp + q, out + q, len mod 16, 0))"
proof (rule ctrs.streamed_blocks [of "(E, ivec, ec)" inp out len "\<lambda>m inp out len. ctr_blocks E ivec ec m inp out len 0",
    unfolded prod.case])
  fix m :: memory and inp out len :: nat assume "len < 16"
  then show "ctr_blocks E ivec ec m inp out len 0 = (m, inp, out, len, 0)"
    by (simp add: ctr_blocks.simps [of _ _ _ m])
next
  fix m :: memory and inp out len :: nat
  assume a: "16 \<le> len" "ahead inp out 16" "ctr_clear ivec ec inp 16" "ctr_clear ivec ec out 16"
  then have ap: "apart ec 16 out 16" by (simp add: ctr_clear_def)
  show "ctr_blocks E ivec ec m inp out len 0 = ctr_blocks E ivec ec
      (fst (streamed (ctr_step E) (get_ctr ivec ec) (put_ctr ivec ec) m inp out 16 0)) (inp + 16) (out + 16) (len - 16) 0"
    using a(1) ctr_block_code [OF assms(1,2) _ _ a(2-4)] xor_word_loop [OF a(2) ap]
    by (subst ctr_blocks.simps) (simp add: Let_def ctr_next_def)
qed (use assms in auto)

lemma ctr_strict_streamed:
  assumes e: "block_fn E" "apart ivec 16 ec 16"
  shows "l \<le> len \<Longrightarrow> n < 16 \<Longrightarrow> ahead inp out len \<Longrightarrow> ctr_clear ivec ec inp len \<Longrightarrow> ctr_clear ivec ec out len \<Longrightarrow>
    ctr_strict_loop E ivec ec m inp out len l n =
    streamed (ctr_step E) (get_ctr ivec ec) (put_ctr ivec ec) m (inp + l) (out + l) (len - l) n"
proof (induction "len - l" arbitrary: m l n)
  case 0
  then show ?case using ctrs.streamed_0 [of "(E, ivec, ec)"] e by (simp add: ctr_strict_loop.simps)
next
  case (Suc j)
  let ?S = "streamed (ctr_step E) (get_ctr ivec ec) (put_ctr ivec ec)"
  have l: "l < len" "len - l = 1 + (len - (l + 1))" using Suc.hyps(2) by auto
  obtain m1 n1 where s: "?S m (inp + l) (out + l) 1 n = (m1, n1)" by (metis surj_pair)
  have n1: "n1 = (n + 1) mod 16"
    using ctrs.streamed_pos [of "(E, ivec, ec)" n] e Suc.prems(2) s by fastforce
  have c: "ahead (inp + l) (out + l) (len - l)" "ctr_clear ivec ec (inp + l) (len - l)" "ctr_clear ivec ec (out + l) (len - l)"
    using Suc.prems by (auto simp: ahead_def ctr_clear_def apart_def)
  have c1: "ahead (inp + l) (out + l) 1" "ctr_clear ivec ec (inp + l) 1" "ctr_clear ivec ec (out + l) 1"
    using Suc.prems l by (auto simp: ahead_def ctr_clear_def apart_def)
  have add: "?S m (inp + l) (out + l) (len - l) n = ?S m1 (inp + l + 1) (out + l + 1) (len - (l + 1)) n1"
    using ctrs.streamed_add [of "(E, ivec, ec)" n "inp + l" "out + l" 1 "len - (l + 1)" m m1 n1]
      e Suc.prems(2) c l s by simp
  let ?m = "if n = 0 then ctr128_inc (call_block E m ivec ec) ivec else m"
  have m1: "m1 = ?m(out + l := ?m (inp + l) XOR ?m (ec + n))"
  proof (cases "n = 0")
    case True
    then show ?thesis using ctr_block_code [OF e _ _ c1, of m] s
      by (simp add: ctr_next_def rd_Suc xor_bytes_def)
  next
    case False
    have "prologue_len n 1 = 1" using False Suc.prems(2) by (simp add: prologue_len_def)
    then show ?thesis
      using ctr_within [OF Suc.prems(2) refl e c1(3), of m "inp + l"] s False
      by (simp add: rd_Suc xor_bytes_def)
  qed
  have "ctr_strict_loop E ivec ec m1 inp out len (l + 1) n1 = ?S m1 (inp + (l + 1)) (out + (l + 1)) (len - (l + 1)) n1"
    by (rule Suc.hyps(1)) (use Suc.hyps(2) Suc.prems n1 in auto)
  then show ?case
    using l(1) add by (subst ctr_strict_loop.simps) (simp add: Let_def m1 n1)
qed

lemma ctr_code:
  assumes e: "block_fn E" "apart ivec 16 ec 16"
    and n: "n < 16" and ah: "ahead inp out len" and c: "ctr_clear ivec ec inp len" "ctr_clear ivec ec out len"
  shows "CRYPTO_ctr128_encrypt strict E ivec ec m inp out len n =
    streamed (ctr_step E) (get_ctr ivec ec) (put_ctr ivec ec) m inp out len n"
proof -
  let ?S = "streamed (ctr_step E) (get_ctr ivec ec) (put_ctr ivec ec)"
  define k where "k = prologue_len n len"
  have kl: "k \<le> len" by (simp add: k_def prologue_len_def)
  have u: "case (E, ivec, ec) of (E, ivec, ec) \<Rightarrow> block_fn E \<and> apart ivec 16 ec 16" using e by simp
  obtain m1 n1 where p: "?S m inp out k n = (m1, n1)" by (metis surj_pair)
  have "apart ec 16 out len" using c(2) by (simp add: ctr_clear_def)
  then have pro: "xor_prologue ec m inp out len n = (m1, inp + k, out + k, len - k, n1)"
    using xor_prologue_eq [OF n ah] ctr_within [OF n k_def e c(2), of m inp] p
    by (simp add: k_def [symmetric] Let_def)
  have n1: "n1 = (n + k) mod 16" using ctr_within [OF n k_def e c(2), of m inp] p by simp
  show ?thesis
  proof (cases "strict \<and> ((inp + k) OR (out + k) OR ec) mod 8 \<noteq> 0")
    case True
    have "ahead (inp + k) (out + k) (len - k)" "ctr_clear ivec ec (inp + k) (len - k)" "ctr_clear ivec ec (out + k) (len - k)"
      using ah c kl by (auto simp: ahead_def ctr_clear_def apart_def)
    then have "ctr_strict_loop E ivec ec m1 (inp + k) (out + k) (len - k) 0 n1 = ?S m1 (inp + k) (out + k) (len - k) n1"
      using ctr_strict_streamed [OF e, of 0 "len - k" n1] n1 by simp
    moreover have "?S m inp out len n = ?S m1 (inp + k) (out + k) (len - k) n1"
      using ctrs.streamed_add [OF u n, of inp out k "len - k" m m1 n1] ah c p kl by simp
    ultimately show ?thesis using True by (simp add: CRYPTO_ctr128_encrypt_def pro)
  next
    case False
    have "CRYPTO_ctr128_encrypt strict E ivec ec m inp out len n =
      (let (m, inp, out, len, n) = (m1, inp + k, out + k, len - k, n1);
           (m, inp, out, len, n) = ctr_blocks E ivec ec m inp out len n
       in if len \<noteq> 0
          then (let m = ctr128_inc (call_block E m ivec ec) ivec
                in (for_from n (n + len) 1 (\<lambda>k t. t(out + k := t (inp + k) XOR t (ec + k))) m, n + len))
          else (m, n))"
      using False by (auto simp: CRYPTO_ctr128_encrypt_def pro)
    also have "\<dots> = ?S m inp out len n"
    proof (rule ctrs.phased_code [of "(E, ivec, ec)", unfolded prod.case, OF _ n ah c])
      show "(m1, inp + k, out + k, len - k, n1) = (let k = prologue_len n len
        in (fst (?S m inp out k n), inp + k, out + k, len - k, (n + k) mod 16))"
        using p n1 by (simp add: k_def Let_def)
      show "ctr_blocks E ivec ec m inp out 0 n = (m, inp, out, 0, n)" for m inp out n
        by (simp add: ctr_blocks.simps)
      fix m :: memory and inp out len :: nat
      assume cl: "ahead inp out len" "ctr_clear ivec ec inp len" "ctr_clear ivec ec out len"
      then show "ctr_blocks E ivec ec m inp out len 0 =
        (let q = 16 * (len div 16) in (fst (?S m inp out q 0), inp + q, out + q, len mod 16, 0))"
        by (rule ctr_blocks_streamed [OF e])
      assume len: "0 < len" "len < 16"
      then have "apart ec len out len" using cl(3) by (auto simp: ctr_clear_def apart_def)
      from xor_byte_loop [OF cl(1) this] ctr_block_code [OF e _ _ cl] len
      show "(let m = ctr128_inc (call_block E m ivec ec) ivec
          in (for_from 0 (0 + len) 1 (\<lambda>k t. t(out + k := t (inp + k) XOR t (ec + k))) m, 0 + len)) = ?S m inp out len 0"
        by (simp add: Let_def ctr_next_def)
    qed (use e in simp)
    finally show ?thesis .
  qed
qed

interpretation ctr: stream_pair "\<lambda>(E, ivec, ec). block_fn E \<and> apart ivec 16 ec 16"
    "\<lambda>(E, ivec, ec). ctr_step E" "\<lambda>(E, ivec, ec). ctr_step E"
    "\<lambda>(E, ivec, ec). get_ctr ivec ec" "\<lambda>(E, ivec, ec). put_ctr ivec ec" ctr_wf "\<lambda>(E, ivec, ec). ctr_clear ivec ec"
    "\<lambda>(E, ivec, ec). CRYPTO_ctr128_encrypt strict E ivec ec" "\<lambda>(E, ivec, ec). CRYPTO_ctr128_encrypt strict' E ivec ec"
    for strict strict'
  by unfold_locales
    (auto simp: ctr_code ctr_step_def intro: mode_step_inverse [rotated] split: prod.splits)

end
