(* ===== verification/Ctr32.thy ===== *)
theory Ctr32
  imports Ctr
begin

text \<open>
  Counter mode over a \<open>ctr128_f\<close>: \<open>CRYPTO_ctr128_encrypt_ctr32\<close> of
  crypto/fipsmodule/modes/ctr.c with the 32 bit counter accessors of internal.h. The function
  \<open>F\<close> is a parameter; what is relied on is its documentation: it encrypts in counter mode and
  handles the low 32 bits of the counter only (\<open>ctr32_fn\<close>).
\<close>

section \<open>The code\<close>

text \<open>The byte swap of crypto/internal.h for compilers without a builtin.\<close>

definition CRYPTO_bswap4 :: "u32 \<Rightarrow> u32" where
  "CRYPTO_bswap4 x =
     (let y = drop_bit 16 x OR push_bit 16 x
      in drop_bit 8 (y AND 0xff00ff00) OR push_bit 8 (y AND 0x00ff00ff))"

definition GETU32 :: "memory \<Rightarrow> nat \<Rightarrow> u32" where
  "GETU32 m a = CRYPTO_bswap4 (ucast (bytes_word (rd m a 4)))"

definition PUTU32 :: "memory \<Rightarrow> nat \<Rightarrow> u32 \<Rightarrow> memory" where
  "PUTU32 m a v = wr m a (take 4 (word_bytes (ucast (CRYPTO_bswap4 v))))"

type_synonym ctr128_f = "bytes \<Rightarrow> nat \<Rightarrow> bytes \<Rightarrow> bytes"

definition call_ctr :: "ctr128_f \<Rightarrow> memory \<Rightarrow> nat \<Rightarrow> nat \<Rightarrow> nat \<Rightarrow> nat \<Rightarrow> memory" where
  "call_ctr F m inp out blocks ivec = wr m out (F (rd m inp (16 * blocks)) blocks (rd m ivec 16))"

text \<open>The number of blocks for one call, and the counter after it.\<close>

definition ctr32_chunk :: "nat \<Rightarrow> u32 \<Rightarrow> nat \<times> u32" where
  "ctr32_chunk len ctr32 =
     (let blocks = len div 16;
          blocks = (if blocks > 2 ^ 28 then 2 ^ 28 else blocks);
          ctr32 = ctr32 + word_of_nat blocks
      in if unat ctr32 < blocks then (blocks - unat ctr32, 0) else (blocks, ctr32))"

lemma ctr32_chunk_pos: "16 \<le> len \<Longrightarrow> 0 < fst (ctr32_chunk len c) \<and> fst (ctr32_chunk len c) \<le> len div 16"
  by (auto simp: ctr32_chunk_def Let_def)

definition ctr32_put :: "memory \<Rightarrow> nat \<Rightarrow> u32 \<Rightarrow> memory" where
  "ctr32_put m ivec ctr32 =
     (let m = PUTU32 m (ivec + 12) ctr32 in if ctr32 = 0 then ctr96_inc m ivec else m)"

function ctr32_loop :: "ctr128_f \<Rightarrow> nat \<Rightarrow> memory \<Rightarrow> nat \<Rightarrow> nat \<Rightarrow> nat \<Rightarrow> u32
    \<Rightarrow> memory \<times> nat \<times> nat \<times> nat \<times> u32" where
  "ctr32_loop F ivec m inp out len ctr32 =
     (if 16 \<le> len
      then (let (blocks, c) = ctr32_chunk len ctr32;
                m = ctr32_put (call_ctr F m inp out blocks ivec) ivec c
            in ctr32_loop F ivec m (inp + 16 * blocks) (out + 16 * blocks) (len - 16 * blocks) c)
      else (m, inp, out, len, ctr32))"
  by pat_completeness auto
termination
proof (relation "measure (\<lambda>(_, _, _, _, _, len, _). len)", goal_cases)
  case (2 F ivec m inp out len ctr32 p b c m')
  then have "b = fst (ctr32_chunk len ctr32)" by (metis fst_conv)
  then have "0 < b" using ctr32_chunk_pos [of len ctr32] 2(1) by simp
  then show ?case using 2(1) by simp
qed simp

declare ctr32_loop.simps [simp del]

definition CRYPTO_ctr128_encrypt_ctr32 ::
  "ctr128_f \<Rightarrow> nat \<Rightarrow> nat \<Rightarrow> memory \<Rightarrow> nat \<Rightarrow> nat \<Rightarrow> nat \<Rightarrow> nat \<Rightarrow> memory \<times> nat" where
  "CRYPTO_ctr128_encrypt_ctr32 F ivec ec m inp out len num =
     (let (m, inp, out, len, n) = xor_prologue ec m inp out len num;
          (m, inp, out, len, ctr32) = ctr32_loop F ivec m inp out len (GETU32 m (ivec + 12))
      in if len \<noteq> 0
         then (let m = wr m ec (replicate 16 0);
                   m = call_ctr F m ec ec 1 ivec;
                   m = ctr32_put m ivec (ctr32 + 1)
               in (for_from n (n + len) 1 (\<lambda>k t. t(out + k := t (inp + k) XOR t (ec + k))) m, n + len))
         else (m, n))"

section \<open>What is relied on of the function\<close>

definition ctr32_add :: "nat \<Rightarrow> bytes \<Rightarrow> bytes" where
  "ctr32_add i iv = take 12 iv @ be_bytes 4 (be_nat (drop 12 iv) + i)"

definition ctr32_fn :: "(bytes \<Rightarrow> bytes) \<Rightarrow> ctr128_f \<Rightarrow> bool" where
  "ctr32_fn E F \<longleftrightarrow> (\<forall>xs b iv. length iv = 16 \<longrightarrow> length xs = 16 * b \<longrightarrow>
     F xs b iv = xor_bytes xs (concat (map (\<lambda>i. E (ctr32_add i iv)) [0..<b])))"

section \<open>Big-endian words\<close>

lemma ctr_add_add: "ctr_add i (ctr_add j iv) = ctr_add (j + i) iv"
proof -
  have "((be_nat iv + j) mod 256 ^ 16 + i) mod 256 ^ 16 = (be_nat iv + (j + i)) mod 256 ^ 16"
    by (simp only: mod_add_left_eq add.assoc)
  then show ?thesis unfolding ctr_add_def be_nat_be_bytes_mod by (rule be_bytes_cong)
qed

lemma ctr_add_0: "length iv = 16 \<Longrightarrow> ctr_add 0 iv = iv"
  using be_bytes_be_nat [of iv] by (simp add: ctr_add_def del: be_bytes.simps)

text \<open>The counter as a 96 bit and a 32 bit part.\<close>

lemma ctr_add_split:
  assumes "length iv = 16"
  shows "ctr_add i iv = be_bytes 12 (be_nat (take 12 iv) + (be_nat (drop 12 iv) + i) div 2 ^ 32)
      @ be_bytes 4 (be_nat (drop 12 iv) + i)"
proof -
  have n: "be_nat iv = be_nat (take 12 iv) * 2 ^ 32 + be_nat (drop 12 iv)"
    using be_nat_append [of "take 12 iv" "drop 12 iv"] assms by simp
  have "(be_nat iv + i) div 256 ^ 4 = be_nat (take 12 iv) + (be_nat (drop 12 iv) + i) div 2 ^ 32"
    unfolding n by simp
  moreover have "be_bytes 4 (be_nat iv + i) = be_bytes 4 (be_nat (drop 12 iv) + i)"
    unfolding n by (rule be_bytes_cong) (simp add: add.assoc)
  ultimately show ?thesis
    using be_bytes_append [of 12 4 "be_nat iv + i"] by (simp add: ctr_add_def del: be_bytes.simps)
qed

lemma ctr32_add_eq:
  assumes "length iv = 16" "be_nat (drop 12 iv) + i < 2 ^ 32"
  shows "ctr32_add i iv = ctr_add i iv"
proof -
  have "be_bytes 12 (be_nat (take 12 iv)) = take 12 iv"
    using be_bytes_be_nat [of "take 12 iv"] assms(1) by simp
  moreover have "(be_nat (drop 12 iv) + i) div 2 ^ 32 = 0" using assms(2) by simp
  ultimately show ?thesis
    using ctr_add_split [OF assms(1), of i] by (simp add: ctr32_add_def del: be_bytes.simps)
qed

section \<open>The 32 bit counter\<close>

lemma bswap_masks:
  "(0xff00ff00 :: u32) = push_bit 8 (mask 8) OR push_bit 24 (mask 8)"
  "(0x00ff00ff :: u32) = mask 8 OR push_bit 16 (mask 8)"
  by (simp_all add: mask_eq_exp_minus_1)

lemma no_bit: "LENGTH('a) \<le> k \<Longrightarrow> \<not> bit x k" for x :: "'a::len word"
  using bit_imp_le_length [of x k] by auto

lemma bit_bswap4:
  assumes "q < 4" "r < 8"
  shows "bit (CRYPTO_bswap4 x) (8 * q + r) = bit x (24 - 8 * q + r)"
proof -
  have nb: "\<not> bit x (40 + r)" "\<not> bit x (32 + r)" by (intro no_bit, simp)+
  consider "q = 0" | "q = 1" | "q = 2" | "q = 3" using assms(1) by linarith
  then show ?thesis
    unfolding CRYPTO_bswap4_def Let_def bswap_masks
    using assms(2) nb by cases (auto simp: bit_simps)
qed

lemma u32_eqI:
  fixes v w :: u32
  assumes "\<And>q r. q < 4 \<Longrightarrow> r < 8 \<Longrightarrow> bit v (8 * q + r) = bit w (8 * q + r)"
  shows "v = w"
proof (rule bit_word_eqI)
  fix k assume "k < LENGTH(32)"
  then show "bit v k = bit w k" using assms [of "k div 8" "k mod 8"] by simp
qed

lemma bit_be_word:
  assumes "length bs = 4" "q < 4" "r < 8"
  shows "bit (word_of_nat (be_nat bs) :: u32) (8 * q + r) = bit (bs ! (3 - q)) r"
proof -
  obtain a b c d where bs: "bs = [a, b, c, d]"
    using assms(1) by (auto simp: numeral_eq_Suc length_Suc_conv)
  have nb: "\<not> bit y (8 + r)" "\<not> bit y (16 + r)" "\<not> bit y (24 + r)" for y :: u8
    by (intro no_bit, simp)+
  consider "q = 0" | "q = 1" | "q = 2" | "q = 3" using assms(2) by linarith
  then show ?thesis
    unfolding foldl_shift_or_byte [symmetric] bs
    using assms(3) nb by cases (auto simp: bit_simps)
qed

lemma GETU32_eq: "GETU32 m a = word_of_nat (be_nat (rd m a 4))"
proof (rule u32_eqI)
  fix q r :: nat assume q: "q < 4" "r < 8"
  have "(24 - 8 * q + r) div 8 = 3 - q \<and> (24 - 8 * q + r) mod 8 = r"
  proof -
    have "24 - 8 * q + r = r + (3 - q) * 8" using q(1) by (simp add: diff_mult_distrib)
    then show ?thesis using q(2) by (simp only: div_mult_self1 mod_mult_self1) simp
  qed
  then show "bit (GETU32 m a) (8 * q + r) = bit (word_of_nat (be_nat (rd m a 4)) :: u32) (8 * q + r)"
    using q by (auto simp: GETU32_def bit_bswap4 bit_be_word bit_ucast_iff bit_bytes_word)
qed

lemma bswap4_bytes: "take 4 (word_bytes (ucast (CRYPTO_bswap4 v))) = be_bytes 4 (unat v)"
proof -
  let ?bs = "be_bytes 4 (unat v)"
  have v: "word_of_nat (be_nat ?bs) = v"
    using unsigned_less [of v] by (subst be_nat_be_bytes) simp_all
  show ?thesis
  proof (rule nth_equalityI)
    fix i assume "i < length (take 4 (word_bytes (ucast (CRYPTO_bswap4 v))))"
    then have i: "i < 4" by simp
    show "take 4 (word_bytes (ucast (CRYPTO_bswap4 v))) ! i = ?bs ! i"
    proof (rule bit_word_eqI)
      fix r assume "r < LENGTH(8)"
      then have r: "r < 8" by simp
      have "bit (take 4 (word_bytes (ucast (CRYPTO_bswap4 v))) ! i) r = bit (CRYPTO_bswap4 v) (8 * i + r)"
        using i r by (simp add: word_bytes_def bit_simps)
      also have "\<dots> = bit (word_of_nat (be_nat ?bs) :: u32) (8 * (3 - i) + r)"
        using i r by (simp add: bit_bswap4 v diff_mult_distrib2)
      also have "\<dots> = bit (?bs ! i) r"
        using bit_be_word [of ?bs "3 - i" r] i r by (simp del: be_bytes.simps)
      finally show "bit (take 4 (word_bytes (ucast (CRYPTO_bswap4 v))) ! i) r = bit (?bs ! i) r" .
    qed
  qed simp
qed

lemma PUTU32_eq: "PUTU32 m a v = wr m a (be_bytes 4 (unat v))"
  by (simp add: PUTU32_def bswap4_bytes)

section \<open>Meeting the reference\<close>

text \<open>The keystream of \<open>b\<close> blocks from a counter block.\<close>

definition keystream :: "(bytes \<Rightarrow> bytes) \<Rightarrow> bytes \<Rightarrow> nat \<Rightarrow> bytes" where
  "keystream E iv b = concat (map (\<lambda>i. E (ctr_add i iv)) [0..<b])"

lemma length_keystream: "block_fn E \<Longrightarrow> length (keystream E iv b) = 16 * b"
  by (induction b) (simp_all add: keystream_def)

lemma keystream_Suc: "keystream E iv (Suc b) = keystream E iv b @ E (ctr_add b iv)"
  by (simp add: keystream_def)

lemma keystream_add: "keystream E iv (a + b) = keystream E iv a @ keystream E (ctr_add a iv) b"
  by (induction b) (simp_all add: keystream_Suc ctr_add_add keystream_def)

lemma run_ctr_blocks:
  assumes "block_fn E" "length iv = 16"
  shows "0 < b \<Longrightarrow> length xs = 16 * b \<Longrightarrow> run (ctr_step E) ((iv, ks), 0) xs =
    (((ctr_add b iv, E (ctr_add (b - 1) iv)), 0), xor_bytes xs (keystream E iv b))"
proof (induction b arbitrary: xs rule: nat_induct_non_zero)
  case 1
  then show ?case
    using run_keystream_block [of xs snd "ctr_refill E" "(iv, ks)"] assms
    by (simp add: ctr_step_def ctr_refill_def keystream_def ctr_add_0)
next
  case (Suc b)
  obtain us vs where xs: "xs = us @ vs" and l: "length us = 16 * b" "length vs = 16"
    using Suc.prems by (metis append_take_drop_id length_take length_drop add_diff_cancel_left'
        min.absorb2 mult_Suc_right le_add2 add.commute)
  have "run (ctr_step E) ((ctr_add b iv, E (ctr_add (b - 1) iv)), 0) vs =
      (((ctr_add 1 (ctr_add b iv), E (ctr_add b iv)), 0), xor_bytes vs (E (ctr_add b iv)))"
    using run_keystream_block [of vs snd "ctr_refill E" "(ctr_add b iv, E (ctr_add (b - 1) iv))"] assms l
    by (simp add: ctr_step_def ctr_refill_def)
  then show ?case
    using Suc.IH [OF l(1)] l length_keystream [OF assms(1)]
    by (simp add: xs run_append ctr_add_add keystream_Suc xor_bytes_append)
qed

text \<open>One call of the function: no wrap of the 32 bit counter inside the chunk.\<close>

lemma ctr32_chunk_eq:
  assumes "16 \<le> len" "ctr32_chunk len c = (b, c')"
  shows "unat c + b \<le> 2 ^ 32 \<and> c' = c + word_of_nat b"
proof -
  define k where "k = min (len div 16) (2 ^ 28)"
  have k: "0 < k" "k \<le> 2 ^ 28" using assms(1) by (auto simp: k_def)
  have uk: "unat (word_of_nat k :: u32) = k"
    using k(2) by (simp add: unat_of_nat take_bit_nat_eq_self)
  have r: "(b, c') = (if unat (c + word_of_nat k) < k then (k - unat (c + word_of_nat k), 0) else (k, c + word_of_nat k))"
    using assms(2) by (auto simp: ctr32_chunk_def k_def Let_def min_def split: if_splits)
  have uc: "unat c < 2 ^ 32" using unsigned_less [of c] by simp
  have s: "unat (c + word_of_nat k) = (unat c + k) mod 2 ^ 32"
    using uk by (simp add: unat_word_ariths)
  show ?thesis
  proof (cases "unat c + k < 2 ^ 32")
    case True
    then show ?thesis using r s by simp
  next
    case False
    then have m: "(unat c + k) mod 2 ^ 32 = unat c + k - 2 ^ 32"
      using uc k by (simp add: mod_if)
    then have lt: "unat (c + word_of_nat k) < k" using s uc False by simp
    then have "b = k - (unat c + k - 2 ^ 32)" and c': "c' = 0" using r s m by auto
    then have b: "b = 2 ^ 32 - unat c" using False uc by simp
    have "c + word_of_nat b = word_of_nat (unat c + b)" by simp
    also have "\<dots> = word_of_nat (2 ^ 32)" using b uc by simp
    finally show ?thesis using b c' uc by simp
  qed
qed

lemma ctr32_put_eq:
  assumes iv: "iv = rd m ivec 16" and c: "c = GETU32 m (ivec + 12)" and b: "unat c + b \<le> 2 ^ 32" "0 < b"
  shows "ctr32_put m ivec (c + word_of_nat b) = wr m ivec (ctr_add b iv)"
proof -
  have l: "length iv = 16" by (simp add: iv)
  have d: "drop 12 iv = rd m (ivec + 12) 4" "take 12 iv = rd m ivec 12" by (simp_all add: iv)
  have low: "be_nat (drop 12 iv) < 2 ^ 32" using be_nat_less [of "drop 12 iv"] l by simp
  then have uc: "unat c = be_nat (drop 12 iv)"
    by (simp add: c GETU32_eq d unat_of_nat take_bit_nat_eq_self)
  have parts: "ctr_add b iv = be_bytes 12 (be_nat (take 12 iv) + (unat c + b) div 2 ^ 32) @ be_bytes 4 (unat c + b)"
    using ctr_add_split [OF l, of b] by (simp add: uc)
  have low4: "be_bytes 4 (unat (c + word_of_nat b)) = be_bytes 4 (unat c + b)"
    by (rule be_bytes_cong) (simp add: unat_word_ariths unat_of_nat take_bit_eq_mod mod_simps)
  have p: "PUTU32 m (ivec + 12) (c + word_of_nat b) = wr m (ivec + 12) (be_bytes 4 (unat c + b))"
    by (simp only: PUTU32_eq low4)
  show ?thesis
  proof (cases "unat c + b = 2 ^ 32")
    case True
    have "c + word_of_nat b = word_of_nat (unat c + b)" by simp
    then have z: "c + word_of_nat b = 0" by (simp add: True)
    have "ctr96_inc (wr m (ivec + 12) (be_bytes 4 (unat c + b))) ivec =
        wr (wr m (ivec + 12) (be_bytes 4 (unat c + b))) ivec (be_bytes 12 (be_nat (take 12 iv) + 1))"
      by (simp only: ctr96_inc_eq) (simp add: rd_wr_apart apart_def d del: be_bytes.simps)
    also have "\<dots> = wr m ivec (be_bytes 12 (be_nat (take 12 iv) + 1) @ be_bytes 4 (unat c + b))"
      by (simp add: wr_append apart_def wr_commute del: be_bytes.simps)
    finally show ?thesis using z p True by (simp add: ctr32_put_def parts del: be_bytes.simps)
  next
    case False
    then have lt: "unat c + b < 2 ^ 32" using b by simp
    have ub: "unat (c + word_of_nat b) = unat c + b"
      using lt by (simp add: unat_word_ariths unat_of_nat take_bit_nat_eq_self)
    then have nz: "c + word_of_nat b \<noteq> 0" using b(2) by (metis add_is_0 unat_0 less_numeral_extra(3))
    have "be_bytes 12 (be_nat (take 12 iv)) = rd m ivec 12"
      using be_bytes_be_nat [of "rd m ivec 12"] by (simp add: d)
    then have "wr m ivec (ctr_add b iv) = wr m (ivec + 12) (be_bytes 4 (unat c + b))"
      using lt by (simp add: parts wr_append del: be_bytes.simps)
    then show ?thesis using nz p by (simp add: ctr32_put_def)
  qed
qed

lemma GETU32_ctr_add:
  assumes "iv = rd m ivec 16" "c = GETU32 m (ivec + 12)"
  shows "GETU32 (wr m' ivec (ctr_add b iv)) (ivec + 12) = c + word_of_nat b"
proof -
  have l: "length iv = 16" by (simp add: assms(1))
  have "rd (wr m' ivec (ctr_add b iv)) (ivec + 12) 4 = drop 12 (rd (wr m' ivec (ctr_add b iv)) ivec 16)"
    by (simp only: drop_rd) simp
  also have "\<dots> = drop 12 (ctr_add b iv)" by (simp only: rd_wr length_ctr_add)
  also have "\<dots> = be_bytes 4 (be_nat (drop 12 iv) + b)"
    using ctr_add_split [OF l, of b] by (simp del: be_bytes.simps)
  finally have r: "rd (wr m' ivec (ctr_add b iv)) (ivec + 12) 4 = be_bytes 4 (be_nat (drop 12 iv) + b)" .
  have w: "(word_of_nat ((be_nat (drop 12 iv) + b) mod 256 ^ 4) :: u32) = word_of_nat (be_nat (drop 12 iv) + b)"
    by (simp only: word_of_nat_eq_iff take_bit_eq_mod) simp
  have "c = word_of_nat (be_nat (drop 12 iv))" by (simp add: assms GETU32_eq)
  then show ?thesis unfolding GETU32_eq r be_nat_be_bytes_mod w by simp
qed

lemma call_ctr_eq:
  assumes F: "ctr32_fn E F" and c: "c = GETU32 m (ivec + 12)" and b: "unat c + b \<le> 2 ^ 32"
  shows "call_ctr F m inp out b ivec = wr m out (xor_bytes (rd m inp (16 * b)) (keystream E (rd m ivec 16) b))"
proof -
  let ?iv = "rd m ivec 16"
  have low: "be_nat (drop 12 ?iv) < 2 ^ 32" using be_nat_less [of "drop 12 ?iv"] by simp
  then have uc: "unat c = be_nat (drop 12 ?iv)"
    by (simp add: c GETU32_eq unat_of_nat take_bit_nat_eq_self)
  have k: "map (\<lambda>i. E (ctr32_add i ?iv)) [0..<b] = map (\<lambda>i. E (ctr_add i ?iv)) [0..<b]"
    using ctr32_add_eq [of ?iv] b uc by (intro map_cong) auto
  have "F (rd m inp (16 * b)) b ?iv = xor_bytes (rd m inp (16 * b)) (concat (map (\<lambda>i. E (ctr32_add i ?iv)) [0..<b]))"
    using F by (simp add: ctr32_fn_def)
  then show ?thesis by (simp only: call_ctr_def keystream_def k)
qed

text \<open>One round of the loop, and the loop.\<close>

definition ctr_stream :: "(bytes \<Rightarrow> bytes) \<Rightarrow> nat \<Rightarrow> memory \<Rightarrow> nat \<Rightarrow> nat \<Rightarrow> nat \<Rightarrow> memory" where
  "ctr_stream E ivec m inp out b =
     (let iv = rd m ivec 16
      in wr (wr m out (xor_bytes (rd m inp (16 * b)) (keystream E iv b))) ivec (ctr_add b iv))"

lemma ctr_stream_add:
  assumes "block_fn E" "ahead inp out (16 * (a + b))" "apart ivec 16 inp (16 * (a + b))" "apart ivec 16 out (16 * (a + b))"
  shows "ctr_stream E ivec (ctr_stream E ivec m inp out a) (inp + 16 * a) (out + 16 * a) b =
    ctr_stream E ivec m inp out (a + b)"
proof -
  let ?iv = "rd m ivec 16"
  let ?us = "xor_bytes (rd m inp (16 * a)) (keystream E ?iv a)"
    and ?vs = "xor_bytes (rd m (inp + 16 * a) (16 * b)) (keystream E (ctr_add a ?iv) b)"
  define m1 where "m1 = ctr_stream E ivec m inp out a"
  have lu: "length ?us = 16 * a" and lv: "length ?vs = 16 * b"
    by (simp_all add: length_keystream [OF assms(1)])
  have m1: "m1 = wr (wr m out ?us) ivec (ctr_add a ?iv)" by (simp add: m1_def ctr_stream_def Let_def)
  have iv1: "rd m1 ivec 16 = ctr_add a ?iv" by (simp add: m1)
  have "rd m1 (inp + 16 * a) (16 * b) = rd (wr m out ?us) (inp + 16 * a) (16 * b)"
    unfolding m1 using assms(3) by (intro rd_wr_apart) (auto simp: apart_def)
  also have "\<dots> = rd m (inp + 16 * a) (16 * b)"
    using assms(2) lu by (intro rd_wr_apart) (auto simp: ahead_def apart_def)
  finally have i1: "rd m1 (inp + 16 * a) (16 * b) = rd m (inp + 16 * a) (16 * b)" .
  have "wr m1 (out + 16 * a) ?vs = wr (wr (wr m out ?us) (out + 16 * a) ?vs) ivec (ctr_add a ?iv)"
    unfolding m1 using assms(4) lv by (intro wr_commute) (auto simp: apart_def)
  also have "wr (wr m out ?us) (out + 16 * a) ?vs = wr m out (?us @ ?vs)"
    using lu by (simp add: wr_append)
  also have "?us @ ?vs = xor_bytes (rd m inp (16 * (a + b))) (keystream E ?iv (a + b))"
    by (simp add: distrib_left rd_add keystream_add xor_bytes_append length_keystream [OF assms(1)])
  finally have "wr (wr m1 (out + 16 * a) ?vs) ivec (ctr_add b (ctr_add a ?iv)) =
      wr (wr m out (xor_bytes (rd m inp (16 * (a + b))) (keystream E ?iv (a + b)))) ivec (ctr_add (a + b) ?iv)"
    by (simp add: ctr_add_add)
  then show ?thesis
    unfolding m1_def [symmetric] by (simp add: ctr_stream_def iv1 i1 Let_def)
qed

lemma ctr_stream_0: "ctr_stream E ivec m inp out 0 = m"
  by (simp add: ctr_stream_def ctr_add_0)

lemma ctr32_round:
  assumes "block_fn E" "ctr32_fn E F" "c = GETU32 m (ivec + 12)" "unat c + b \<le> 2 ^ 32" "0 < b"
    "apart ivec 16 out (16 * b)"
  shows "ctr32_put (call_ctr F m inp out b ivec) ivec (c + word_of_nat b) = ctr_stream E ivec m inp out b"
    and "GETU32 (ctr_stream E ivec m inp out b) (ivec + 12) = c + word_of_nat b"
proof -
  let ?m = "call_ctr F m inp out b ivec"
  have m: "?m = wr m out (xor_bytes (rd m inp (16 * b)) (keystream E (rd m ivec 16) b))"
    by (rule call_ctr_eq [OF assms(2-4)])
  have iv: "rd ?m ivec 16 = rd m ivec 16"
    unfolding m using assms(6) by (intro rd_wr_apart) (simp add: length_keystream [OF assms(1)])
  have "rd ?m (ivec + 12) 4 = drop 12 (rd ?m ivec 16)" by simp
  also have "\<dots> = rd m (ivec + 12) 4" by (simp add: iv del: drop_rd) simp
  finally have "c = GETU32 ?m (ivec + 12)" by (simp add: assms(3) GETU32_eq)
  from ctr32_put_eq [OF refl this assms(4,5)]
  show "ctr32_put ?m ivec (c + word_of_nat b) = ctr_stream E ivec m inp out b"
    by (simp add: ctr_stream_def iv m [symmetric])
  show "GETU32 (ctr_stream E ivec m inp out b) (ivec + 12) = c + word_of_nat b"
    unfolding ctr_stream_def Let_def by (rule GETU32_ctr_add [OF refl assms(3)])
qed

lemma ctr32_loop_eq:
  assumes "block_fn E" "ctr32_fn E F"
  shows "ahead inp out len \<Longrightarrow> apart ivec 16 inp len \<Longrightarrow> apart ivec 16 out len \<Longrightarrow> c = GETU32 m (ivec + 12) \<Longrightarrow>
    ctr32_loop F ivec m inp out len c =
      (let q = len div 16; m' = ctr_stream E ivec m inp out q
       in (m', inp + 16 * q, out + 16 * q, len mod 16, GETU32 m' (ivec + 12)))"
proof (induction len arbitrary: m inp out c rule: less_induct)
  case (less len)
  show ?case
  proof (cases "16 \<le> len")
    case False
    then show ?thesis using less.prems(4) by (simp add: ctr32_loop.simps [of _ _ _ _ _ len] ctr_stream_0 Let_def)
  next
    case True
    obtain b c' where ch: "ctr32_chunk len c = (b, c')" by (metis surj_pair)
    have b: "0 < b" "b \<le> len div 16" using ctr32_chunk_pos [OF True, of c] by (simp_all add: ch)
    have c: "unat c + b \<le> 2 ^ 32" "c' = c + word_of_nat b" using ctr32_chunk_eq [OF True ch] by auto
    define q where "q = (len - 16 * b) div 16"
    have q: "len div 16 = b + q" "len mod 16 = (len - 16 * b) mod 16" "16 * (b + q) \<le> len"
    proof -
      have "16 * b \<le> len" using b(2) by simp
      then obtain r where r: "len = 16 * b + r" by (metis le_add_diff_inverse)
      show "len div 16 = b + q" "len mod 16 = (len - 16 * b) mod 16" "16 * (b + q) \<le> len"
        by (simp_all add: r q_def)
    qed
    have ap: "ahead inp out (16 * (b + q))" "apart ivec 16 inp (16 * (b + q))" "apart ivec 16 out (16 * (b + q))"
      "apart ivec 16 out (16 * b)"
      using less.prems(1-3) q(3) by (auto simp: ahead_def apart_def)
    define m1 where "m1 = ctr_stream E ivec m inp out b"
    note r = ctr32_round [OF assms less.prems(4) c(1) b(1) ap(4), of inp, folded m1_def c(2)]
    have "ctr32_loop F ivec m inp out len c = ctr32_loop F ivec m1 (inp + 16 * b) (out + 16 * b) (len - 16 * b) c'"
      using True by (subst ctr32_loop.simps) (simp add: ch r(1) Let_def)
    also have "\<dots> = (let q = (len - 16 * b) div 16; m' = ctr_stream E ivec m1 (inp + 16 * b) (out + 16 * b) q
       in (m', inp + 16 * b + 16 * q, out + 16 * b + 16 * q, (len - 16 * b) mod 16, GETU32 m' (ivec + 12)))"
    proof (rule less.IH)
      show "len - 16 * b < len" using True b by simp
      show "ahead (inp + 16 * b) (out + 16 * b) (len - 16 * b)" "apart ivec 16 (inp + 16 * b) (len - 16 * b)"
        "apart ivec 16 (out + 16 * b) (len - 16 * b)"
        using less.prems(1-3) q(3) by (auto simp: ahead_def apart_def)
    qed (simp add: r(2))
    finally show ?thesis
      using ctr_stream_add [OF assms(1) ap(1-3), of m]
      by (simp add: q q_def [symmetric] m1_def Let_def distrib_left add.assoc)
  qed
qed

text \<open>
  The function leaves \<open>ecount_buf\<close> alone, so after whole blocks the memory differs from the
  reference in those 16 bytes, which no later call reads.
\<close>

lemma ctr_stream_streamed:
  assumes "block_fn E" "apart ivec 16 ec 16" "ctr_clear ivec ec out (16 * q)"
  shows "ctr_stream E ivec m inp out q =
    wr (fst (streamed (ctr_step E) (get_ctr ivec ec) (put_ctr ivec ec) m inp out (16 * q) 0)) ec (rd m ec 16)"
proof (cases "q = 0")
  case True
  then show ?thesis
    using ctrs.streamed_0 [of "(E, ivec, ec)"] assms(1,2) by (simp add: ctr_stream_0)
next
  case False
  let ?iv = "rd m ivec 16"
  let ?ys = "xor_bytes (rd m inp (16 * q)) (keystream E ?iv q)" and ?ks = "E (ctr_add (q - 1) ?iv)"
  let ?m = "wr (wr m out ?ys) ivec (ctr_add q ?iv)"
  have "run (ctr_step E) (get_ctr ivec ec m, 0) (rd m inp (16 * q)) = (((ctr_add q ?iv, ?ks), 0), ?ys)"
    using run_ctr_blocks [OF assms(1), of ?iv q "rd m inp (16 * q)"] False by (simp add: get_ctr_def)
  then have s: "fst (streamed (ctr_step E) (get_ctr ivec ec) (put_ctr ivec ec) m inp out (16 * q) 0) = wr ?m ec ?ks"
    by (simp add: streamed_def put_ctr_def)
  have "rd ?m ec 16 = rd m ec 16"
    using assms(2,3) by (simp add: rd_wr_apart ctr_clear_def apart_sym length_keystream [OF assms(1)])
  then have "wr (wr ?m ec ?ks) ec (rd m ec 16) = ?m"
    using wr_rd_self [of ?m ec 16] assms(1) by simp
  then show ?thesis unfolding s by (simp add: ctr_stream_def Let_def)
qed

text \<open>A partial block: zeros are encrypted into \<open>ecount_buf\<close>, which makes the next keystream block.\<close>

lemma ctr32_next:
  assumes "block_fn E" "ctr32_fn E F" "apart ivec 16 ec 16" "c = GETU32 m (ivec + 12)"
  shows "ctr32_put (call_ctr F (wr m ec (replicate 16 0)) ec ec 1 ivec) ivec (c + 1) = ctr_next E ivec ec m"
proof -
  let ?m = "wr m ec (replicate 16 0)" and ?iv = "rd m ivec 16"
  have z: "xor_bytes (replicate 16 0) bs = bs" if "length bs = 16" for bs
    using that by (intro nth_equalityI) auto
  have iv: "rd ?m ivec 16 = ?iv" using assms(3) by (simp add: rd_wr_apart)
  have iv4: "rd ?m (ivec + 12) 4 = rd m (ivec + 12) 4"
    using assms(3) by (intro rd_wr_apart) (auto simp: apart_def)
  have c: "c = GETU32 ?m (ivec + 12)" by (simp add: GETU32_eq assms(4) iv4)
  have "unat c < 2 ^ 32" using unsigned_less [of c, where 'a = nat] by simp
  then have b: "unat c + 1 \<le> 2 ^ 32" by simp
  have "apart ivec 16 ec (16 * 1)" using assms(3) by simp
  note r = ctr32_round(1) [OF assms(1,2) c b _ this, of ec, simplified]
  have "ctr_stream E ivec ?m ec ec 1 = wr (wr ?m ec (E ?iv)) ivec (ctr_add 1 ?iv)"
    using assms(1) by (simp add: ctr_stream_def iv keystream_def ctr_add_0 z Let_def)
  also have "\<dots> = wr (wr m ec (E ?iv)) ivec (ctr_add 1 ?iv)" using assms(1) by simp
  also have "\<dots> = wr (wr m ec (E ?iv)) ivec (ctr_add 1 (rd (wr m ec (E ?iv)) ivec 16))"
    using assms(1,3) by (simp add: rd_wr_apart)
  also have "\<dots> = ctr_next E ivec ec m"
    by (simp add: ctr_next_def ctr128_inc_eq call_block_def)
  finally show ?thesis using r by simp
qed

lemma ctr_next_ecount:
  assumes "block_fn E" "apart ivec 16 ec 16" "length ks = 16"
  shows "ctr_next E ivec ec (wr m ec ks) = ctr_next E ivec ec m"
  using assms by (simp add: ctr_next_def ctr128_inc_eq call_block_def rd_wr_apart)

theorem ctr32_code:
  assumes e: "block_fn E" "apart ivec 16 ec 16" and F: "ctr32_fn E F"
    and n: "n < 16" and ah: "ahead inp out len" and c: "ctr_clear ivec ec inp len" "ctr_clear ivec ec out len"
  shows "CRYPTO_ctr128_encrypt_ctr32 F ivec ec m inp out len n =
    (let (m', n') = streamed (ctr_step E) (get_ctr ivec ec) (put_ctr ivec ec) m inp out len n
     in (if n' = 0 then wr m' ec (rd m ec 16) else m', n'))"
proof -
  let ?S = "streamed (ctr_step E) (get_ctr ivec ec) (put_ctr ivec ec)"
  define k where "k = prologue_len n len"
  define q where "q = (len - k) div 16"
  define r where "r = (len - k) mod 16"
  have kl: "k \<le> len" by (simp add: k_def prologue_len_def)
  have len: "len - k = 16 * q + r" "r < 16" by (simp_all add: q_def r_def)
  have u: "case (E, ivec, ec) of (E, ivec, ec) \<Rightarrow> block_fn E \<and> apart ivec 16 ec 16" using e by simp
  obtain m1 n1 where p: "?S m inp out k n = (m1, n1)" by (metis surj_pair)
  obtain m2 n2 where b: "?S m1 (inp + k) (out + k) (16 * q) 0 = (m2, n2)" by (metis surj_pair)
  obtain m3 n3 where t: "?S m2 (inp + k + 16 * q) (out + k + 16 * q) r 0 = (m3, n3)" by (metis surj_pair)
  have all: "?S m inp out len n = (if r \<noteq> 0 then (m3, n3) else (m2, n1))"
    by (rule ctrs.streamed_phases [of "(E, ivec, ec)", unfolded prod.case, OF conjI [OF e] n ah c k_def _ r_def p b t])
      (simp add: q_def)
  have pos: "n1 = (n + k) mod 16" using ctr_within [OF n k_def e c(2), of m inp] p by simp
  then have n1: "n1 = 0 \<or> len - k = 0"
    using n by (auto simp: k_def prologue_len_def split: if_splits)
  have m1: "m1 = wr m out (xor_bytes (rd m inp k) (rd m (ec + n) k))"
    using ctr_within [OF n k_def e c(2), of m inp] p by simp
  have ec1: "rd m1 ec 16 = rd m ec 16"
    unfolding m1 using c(2) kl by (intro rd_wr_apart) (auto simp: ctr_clear_def apart_def)
  have pro: "xor_prologue ec m inp out len n = (m1, inp + k, out + k, len - k, n1)"
    using xor_prologue_eq [OF n ah] c(2) by (simp add: ctr_clear_def k_def [symmetric] m1 pos Let_def)
  let ?m2 = "wr m2 ec (rd m ec 16)"
  have cl: "ahead (inp + k) (out + k) (len - k)" "apart ivec 16 (inp + k) (len - k)" "apart ivec 16 (out + k) (len - k)"
    "ctr_clear ivec ec (out + k) (16 * q)"
    using ah c kl len by (auto simp: ahead_def ctr_clear_def apart_def)
  have s2: "ctr_stream E ivec m1 (inp + k) (out + k) q = ?m2"
    using ctr_stream_streamed [OF e cl(4), of m1 "inp + k"] b ec1 by simp
  have loop: "ctr32_loop F ivec m1 (inp + k) (out + k) (len - k) (GETU32 m1 (ivec + 12)) =
      (?m2, inp + k + 16 * q, out + k + 16 * q, r, GETU32 ?m2 (ivec + 12))"
    using ctr32_loop_eq [OF e(1) F cl(1-3) refl, of m1] by (simp add: q_def [symmetric] r_def [symmetric] s2 Let_def)
  show ?thesis
  proof (cases "r = 0")
    case True
    have "?m2 = m2" if "n1 \<noteq> 0"
    proof -
      have "q = 0" using n1 that len by simp
      then have "m2 = m1" using b ctrs.streamed_0 [OF u] by simp
      then show ?thesis using wr_rd_self [of m1 ec 16] ec1 by simp
    qed
    then show ?thesis using True all by (simp add: CRYPTO_ctr128_encrypt_ctr32_def pro loop)
  next
    case False
    then have n0: "n1 = 0" using n1 len by auto
    let ?m = "ctr_next E ivec ec m2" and ?i = "inp + k + 16 * q" and ?o = "out + k + 16 * q"
    have cr: "ahead ?i ?o r" "ctr_clear ivec ec ?i r" "ctr_clear ivec ec ?o r" "apart ec r ?o r"
      using ah c kl len by (auto simp: ahead_def ctr_clear_def apart_def)
    have t': "m3 = wr ?m ?o (xor_bytes (rd ?m ?i r) (rd ?m ec r))" "n3 = r"
      using t ctr_block_code [OF e _ _ cr(1-3), of m2] False len(2) by auto
    have next': "ctr32_put (call_ctr F (wr ?m2 ec (replicate 16 0)) ec ec 1 ivec) ivec (GETU32 ?m2 (ivec + 12) + 1) = ?m"
      using ctr32_next [OF e(1) F e(2) refl, of ?m2] ctr_next_ecount [OF e, of "rd m ec 16" m2] by simp
    have fl: "for_from 0 r 1 (\<lambda>i t. t(?o + i := t (?i + i) XOR t (ec + i))) ?m = m3"
      using xor_byte_loop [OF cr(1,4), of ?m] by (simp only: t'(1))
    have "CRYPTO_ctr128_encrypt_ctr32 F ivec ec m inp out len n = (m3, r)"
      using False by (simp only: CRYPTO_ctr128_encrypt_ctr32_def pro n0 loop [unfolded n0] prod.case Let_def
          if_True not_False_eq_True next' add_0 fl)
    then show ?thesis using False all t'(2) by simp
  qed
qed

end
