(* ===== verification/Cbc.thy ===== *)
theory Cbc
  imports Feedback
begin

text \<open>
  Cipher block chaining, crypto/fipsmodule/modes/cbc.c. \<open>iv\<close> is a pointer that starts at \<open>ivec\<close>
  and then points to the previous ciphertext block, in the output when encrypting and in the
  input when decrypting; so the address matters, and the decryption chooses its loop by the
  distance of the two buffers. The conditions of the \<open>assert\<close>s are hypotheses.
\<close>

section \<open>The code\<close>

definition cbc_misaligned :: "bool \<Rightarrow> nat \<Rightarrow> nat \<Rightarrow> nat \<Rightarrow> bool" where
  "cbc_misaligned strict inp out ivec \<longleftrightarrow> strict \<and> (inp OR out OR ivec) mod 8 \<noteq> 0"

definition cbc_xor_bytes :: "nat \<Rightarrow> nat \<Rightarrow> nat \<Rightarrow> memory \<Rightarrow> memory" where
  "cbc_xor_bytes inp out iv m = for_from 0 16 1 (\<lambda>n t. t(out + n := t (inp + n) XOR t (iv + n))) m"

definition cbc_xor_words :: "nat \<Rightarrow> nat \<Rightarrow> nat \<Rightarrow> memory \<Rightarrow> memory" where
  "cbc_xor_words inp out iv m =
     for_from 0 16 8 (\<lambda>n t. store_word_le t (out + n) (load_word_le t (inp + n) XOR load_word_le t (iv + n))) m"

text \<open>Encryption: the loop over whole blocks, whose inner loop is \<open>mix\<close>, and the rest.\<close>

function cbc_encrypt_blocks :: "(nat \<Rightarrow> nat \<Rightarrow> nat \<Rightarrow> memory \<Rightarrow> memory) \<Rightarrow> (bytes \<Rightarrow> bytes) \<Rightarrow> memory
    \<Rightarrow> nat \<Rightarrow> nat \<Rightarrow> nat \<Rightarrow> nat \<Rightarrow> memory \<times> nat \<times> nat \<times> nat \<times> nat" where
  "cbc_encrypt_blocks mix E m inp out iv len =
     (if 16 \<le> len
      then (let m = mix inp out iv m; m = call_block E m out out
            in cbc_encrypt_blocks mix E m (inp + 16) (out + 16) out (len - 16))
      else (m, inp, out, iv, len))"
  by pat_completeness auto
termination
  by (relation "measure (\<lambda>(_, _, _, _, _, _, len). len)") auto

function cbc_encrypt_rest :: "(bytes \<Rightarrow> bytes) \<Rightarrow> memory \<Rightarrow> nat \<Rightarrow> nat \<Rightarrow> nat \<Rightarrow> nat \<Rightarrow> memory \<times> nat" where
  "cbc_encrypt_rest E m inp out iv len =
     (if len \<noteq> 0
      then (let k = min 16 len;
                m = for_from 0 k 1 (\<lambda>n t. t(out + n := t (inp + n) XOR t (iv + n))) m;
                m = for_from k 16 1 (\<lambda>n t. t(out + n := t (iv + n))) m;
                m = call_block E m out out
            in if len \<le> 16 then (m, out) else cbc_encrypt_rest E m (inp + 16) (out + 16) out (len - 16))
      else (m, iv))"
  by pat_completeness auto
termination
  by (relation "measure (\<lambda>(_, _, _, _, _, len). len)") auto

definition CRYPTO_cbc128_encrypt :: "bool \<Rightarrow> (bytes \<Rightarrow> bytes) \<Rightarrow> memory \<Rightarrow> nat \<Rightarrow> nat \<Rightarrow> nat \<Rightarrow> nat \<Rightarrow> memory" where
  "CRYPTO_cbc128_encrypt strict E m inp out len ivec =
     (let mix = (if cbc_misaligned strict inp out ivec then cbc_xor_bytes else cbc_xor_words);
          (m, inp, out, iv, len) = cbc_encrypt_blocks mix E m inp out ivec len;
          (m, iv) = cbc_encrypt_rest E m inp out iv len
      in wr m ivec (rd m iv 16))"

text \<open>
  Decryption. Far apart: the block is decrypted into the output, then combined with the previous
  one in place.
\<close>

function cbc_decrypt_far :: "(nat \<Rightarrow> nat \<Rightarrow> nat \<Rightarrow> memory \<Rightarrow> memory) \<Rightarrow> (bytes \<Rightarrow> bytes) \<Rightarrow> memory
    \<Rightarrow> nat \<Rightarrow> nat \<Rightarrow> nat \<Rightarrow> nat \<Rightarrow> memory \<times> nat \<times> nat \<times> nat \<times> nat" where
  "cbc_decrypt_far mix D m inp out iv len =
     (if 16 \<le> len
      then (let m = call_block D m inp out; m = mix out out iv m
            in cbc_decrypt_far mix D m (inp + 16) (out + 16) inp (len - 16))
      else (m, inp, out, iv, len))"
  by pat_completeness auto
termination
  by (relation "measure (\<lambda>(_, _, _, _, _, _, len). len)") auto

text \<open>
  Close together: a temporary block \<open>tmp\<close>, and the ciphertext goes to \<open>ivec\<close> before the output
  overwrites it. One step by bytes and by words.
\<close>

definition cbc_byte :: "bytes \<Rightarrow> nat \<Rightarrow> nat \<Rightarrow> nat \<Rightarrow> nat \<Rightarrow> memory \<Rightarrow> memory" where
  "cbc_byte tmp inp out ivec n m =
     (let c = m (inp + n);
          m = m(out + n := tmp ! n XOR m (ivec + n))
      in m(ivec + n := c))"

definition cbc_word :: "bytes \<Rightarrow> nat \<Rightarrow> nat \<Rightarrow> nat \<Rightarrow> nat \<Rightarrow> memory \<Rightarrow> memory" where
  "cbc_word tmp inp out ivec n m =
     (let c = load_word_le m (inp + n);
          m = store_word_le m (out + n) (bytes_word (take 8 (drop n tmp)) XOR load_word_le m (ivec + n))
      in store_word_le m (ivec + n) c)"

function cbc_decrypt_near :: "nat \<Rightarrow> (bytes \<Rightarrow> nat \<Rightarrow> nat \<Rightarrow> nat \<Rightarrow> nat \<Rightarrow> memory \<Rightarrow> memory) \<Rightarrow> (bytes \<Rightarrow> bytes) \<Rightarrow> nat
    \<Rightarrow> memory \<Rightarrow> nat \<Rightarrow> nat \<Rightarrow> nat \<Rightarrow> memory \<times> nat \<times> nat \<times> nat" where
  "cbc_decrypt_near stride step D ivec m inp out len =
     (if 16 \<le> len
      then (let tmp = D (rd m inp 16);
                m = for_from 0 16 stride (step tmp inp out ivec) m
            in cbc_decrypt_near stride step D ivec m (inp + 16) (out + 16) (len - 16))
      else (m, inp, out, len))"
  by pat_completeness auto
termination
  by (relation "measure (\<lambda>(_, _, _, _, _, _, _, len). len)") auto

function cbc_decrypt_rest :: "(bytes \<Rightarrow> bytes) \<Rightarrow> nat \<Rightarrow> memory \<Rightarrow> nat \<Rightarrow> nat \<Rightarrow> nat \<Rightarrow> memory" where
  "cbc_decrypt_rest D ivec m inp out len =
     (if len \<noteq> 0
      then (let tmp = D (rd m inp 16);
                k = min 16 len;
                m = for_from 0 k 1 (cbc_byte tmp inp out ivec) m
            in if len \<le> 16
               then for_from k 16 1 (\<lambda>n t. t(ivec + n := t (inp + n))) m
               else cbc_decrypt_rest D ivec m (inp + 16) (out + 16) (len - 16))
      else m)"
  by pat_completeness auto
termination
  by (relation "measure (\<lambda>(_, _, _, _, _, len). len)") auto

declare cbc_encrypt_blocks.simps [simp del] cbc_encrypt_rest.simps [simp del]
  cbc_decrypt_far.simps [simp del] cbc_decrypt_near.simps [simp del] cbc_decrypt_rest.simps [simp del]

definition CRYPTO_cbc128_decrypt :: "bool \<Rightarrow> (bytes \<Rightarrow> bytes) \<Rightarrow> memory \<Rightarrow> nat \<Rightarrow> nat \<Rightarrow> nat \<Rightarrow> nat \<Rightarrow> memory" where
  "CRYPTO_cbc128_decrypt strict D m inp out len ivec =
     (let (m, inp, out, len) =
        (if (32 \<le> inp \<and> out \<le> inp - 32) \<or> inp < out
         then (let mix = (if cbc_misaligned strict inp out ivec then cbc_xor_bytes else cbc_xor_words);
                   (m, inp, out, iv, len) = cbc_decrypt_far mix D m inp out ivec len
               in (wr m ivec (rd m iv 16), inp, out, len))
         else if cbc_misaligned strict inp out ivec then cbc_decrypt_near 1 cbc_byte D ivec m inp out len
         else cbc_decrypt_near 8 cbc_word D ivec m inp out len)
      in cbc_decrypt_rest D ivec m inp out len)"

section \<open>The mode\<close>

text \<open>
  The specification works on bytes: the data is cut into blocks of 16, the last one filled up
  with zeros.
\<close>

function cbc_enc :: "(bytes \<Rightarrow> bytes) \<Rightarrow> bytes \<Rightarrow> bytes \<Rightarrow> bytes" where
  "cbc_enc E iv xs =
     (if xs = [] then []
      else (let c = E (xor_bytes (take 16 (xs @ replicate 16 0)) iv) in c @ cbc_enc E c (drop 16 xs)))"
  by pat_completeness auto
termination
  by (relation "measure (\<lambda>(_, _, xs). length xs)") auto

function cbc_dec :: "(bytes \<Rightarrow> bytes) \<Rightarrow> bytes \<Rightarrow> bytes \<Rightarrow> bytes" where
  "cbc_dec D iv ys =
     (if ys = [] then [] else xor_bytes (D (take 16 ys)) iv @ cbc_dec D (take 16 ys) (drop 16 ys))"
  by pat_completeness auto
termination
  by (relation "measure (\<lambda>(_, _, ys). length ys)") auto

declare cbc_enc.simps [simp del] cbc_dec.simps [simp del]

text \<open>The vector for the next call is the last ciphertext block.\<close>

definition last_block :: "bytes \<Rightarrow> bytes \<Rightarrow> bytes" where
  "last_block iv ys = drop (length ys) (iv @ ys)"

definition round16 :: "nat \<Rightarrow> nat" where
  "round16 len = 16 * ((len + 15) div 16)"

definition inverse_block :: "(bytes \<Rightarrow> bytes) \<Rightarrow> (bytes \<Rightarrow> bytes) \<Rightarrow> bool" where
  "inverse_block D E \<longleftrightarrow> (\<forall>b. length b = 16 \<longrightarrow> D (E b) = b)"

lemma cbc_enc_Nil [simp]: "cbc_enc E iv [] = []"
  by (simp add: cbc_enc.simps)

lemma cbc_dec_Nil [simp]: "cbc_dec D iv [] = []"
  by (simp add: cbc_dec.simps)

lemma round16_step: "16 < len \<Longrightarrow> round16 len = 16 + round16 (len - 16)"
  and round16_small: "0 < len \<Longrightarrow> len \<le> 16 \<Longrightarrow> round16 len = 16"
  and round16_0 [simp]: "round16 0 = 0"
  by (auto simp: round16_def le_div_geq)

lemma round16_bounds: "len \<le> round16 len" "round16 len < len + 16"
  by (auto simp: round16_def)

lemma pad_block: "length (take 16 (xs @ replicate 16 (0 :: u8))) = 16"
  by simp

text \<open>Decryption undoes encryption, up to the zeros that fill the last block.\<close>

lemma cbc_dec_enc:
  assumes "block_fn E" "inverse_block D E"
  shows "length iv = 16 \<Longrightarrow>
    length (cbc_enc E iv xs) = round16 (length xs) \<and>
    take (length xs) (cbc_dec D iv (cbc_enc E iv xs)) = xs"
proof (induction xs arbitrary: iv rule: length_induct)
  case (1 xs)
  show ?case
  proof (cases "xs = []")
    case False
    let ?b = "take 16 (xs @ replicate 16 0)"
    let ?c = "E (xor_bytes ?b iv)"
    have c: "length ?c = 16" using assms(1) 1(2) by simp
    have e: "cbc_enc E iv xs = ?c @ cbc_enc E ?c (drop 16 xs)"
      using False by (subst cbc_enc.simps) (simp add: Let_def)
    have "length (drop 16 xs) < length xs" using False by simp
    then have IH: "length (cbc_enc E ?c (drop 16 xs)) = round16 (length (drop 16 xs))"
      "take (length (drop 16 xs)) (cbc_dec D ?c (cbc_enc E ?c (drop 16 xs))) = drop 16 xs"
      using 1(1) c by blast+
    have d: "cbc_dec D iv (?c @ cbc_enc E ?c (drop 16 xs)) = ?b @ cbc_dec D ?c (cbc_enc E ?c (drop 16 xs))"
    proof -
      have "xor_bytes (D ?c) iv = ?b"
        using assms(2) 1(2) by (simp add: inverse_block_def)
      then show ?thesis using c by (subst cbc_dec.simps) auto
    qed
    have "round16 (length xs) = 16 + round16 (length xs - 16)"
      using False round16_step [of "length xs"] round16_small [of "length xs"] by (cases "16 < length xs") auto
    moreover have "take (length xs) (?b @ cbc_dec D ?c (cbc_enc E ?c (drop 16 xs))) = xs"
    proof (cases "16 < length xs")
      case True
      then show ?thesis using IH(2) append_take_drop_id [of 16 xs] by simp
    qed simp
    ultimately show ?thesis using IH(1) c unfolding e d by simp
  qed simp
qed

section \<open>Encryption in memory\<close>

lemma last_block_Nil [simp]: "last_block iv [] = iv"
  by (simp add: last_block_def)

lemma last_block_append: "length iv = length c \<Longrightarrow> last_block iv (c @ ys) = last_block c ys"
  by (simp add: last_block_def)

lemma last_block_last_block: "last_block (last_block iv xs) ys = last_block iv (xs @ ys)"
proof -
  have "drop (length xs) (iv @ xs) @ ys = drop (length xs) (iv @ xs @ ys)"
    using drop_append [of "length xs" "iv @ xs" ys] by simp
  then show ?thesis by (simp only: last_block_def length_append drop_drop add.commute)
qed

lemma length_last_block [simp]: "length (last_block iv ys) = length iv"
  by (simp add: last_block_def)

lemma cbc_xor:
  assumes "mix = cbc_xor_bytes \<or> mix = cbc_xor_words" "ahead inp out 16" "apart iv 16 out 16"
  shows "mix inp out iv m = wr m out (xor_bytes (rd m inp 16) (rd m iv 16))"
  using assms(1) xor_byte_loop [OF assms(2,3), of m] xor_word_loop [OF assms(2,3), of m]
  by (auto simp: cbc_xor_bytes_def cbc_xor_words_def)

lemma cbc_enc_Cons:
  assumes "16 \<le> len"
  shows "cbc_enc E iv (rd m inp len) =
    (let c = E (xor_bytes (rd m inp 16) iv) in c @ cbc_enc E c (rd m (inp + 16) (len - 16)))"
proof -
  have "rd m inp len \<noteq> []" using assms by simp
  moreover have "take 16 (rd m inp len @ replicate 16 0) = rd m inp 16" using assms by (simp add: min_absorb1)
  ultimately show ?thesis by (subst cbc_enc.simps) (simp add: Let_def)
qed

lemma cbc_partial_block:
  assumes "len < 16" "ahead inp out len" "apart iv 16 out 16"
  shows "for_from len 16 1 (\<lambda>n t. t(out + n := t (iv + n)))
      (for_from 0 len 1 (\<lambda>n t. t(out + n := t (inp + n) XOR t (iv + n))) m) =
    wr m out (xor_bytes (take 16 (rd m inp len @ replicate 16 0)) (rd m iv 16))"
proof -
  let ?xs = "xor_bytes (rd m inp len) (rd m iv len)"
  have ap: "apart iv len out len" using assms(1,3) by (auto simp: apart_def)
  have 1: "for_from 0 len 1 (\<lambda>n t. t(out + n := t (inp + n) XOR t (iv + n))) m = wr m out ?xs"
    by (rule xor_byte_loop [OF assms(2) ap])
  have 2: "for_from len 16 1 (\<lambda>n t. t(out + n := t (iv + n))) (wr m out ?xs) =
      wr (wr m out ?xs) (out + len) (map (\<lambda>i. m (iv + i)) [len..<16])"
  proof (rule for_from_write [where q = "16 - len"])
    fix k t assume k: "len \<le> k" "k + 1 \<le> 16" and t: "t = wr (wr m out ?xs) (out + len) (map (\<lambda>i. m (iv + i)) [len..<k])"
    have "t (iv + k) = m (iv + k)"
      unfolding t using assms k by (subst wr_out, simp add: apart_def, arith?)+ simp
    then show "t(out + k := t (iv + k)) = wr t (out + k) (map (\<lambda>i. m (iv + i)) [k..<k + 1])" by simp
  qed (use assms in auto)
  have "?xs @ map (\<lambda>i. m (iv + i)) [len..<16] = xor_bytes (take 16 (rd m inp len @ replicate 16 0)) (rd m iv 16)"
    using assms(1) by (intro nth_equalityI) (auto simp: nth_append)
  then show ?thesis unfolding 1 2 using wr_append [of m out ?xs "map (\<lambda>i. m (iv + i)) [len..<16]"] by simp
qed

lemma cbc_encrypt_rest_eq:
  assumes E: "block_fn E" and len: "len < 16" and ah: "ahead inp out len" and iv: "apart iv 16 out (round16 len)"
    and r: "cbc_encrypt_rest E m inp out iv len = (m2, iv2)"
  shows "m2 = wr m out (cbc_enc E (rd m iv 16) (rd m inp len)) \<and>
    rd m2 iv2 16 = last_block (rd m iv 16) (cbc_enc E (rd m iv 16) (rd m inp len))"
proof (cases "len = 0")
  case True
  then show ?thesis using r by (simp add: cbc_encrypt_rest.simps)
next
  case False
  let ?b = "take 16 (rd m inp len @ replicate 16 0)"
  let ?c = "E (xor_bytes ?b (rd m iv 16))"
  have c: "length ?c = 16" using E by simp
  have iv16: "apart iv 16 out 16" using iv round16_small [of len] False len by simp
  have e: "cbc_enc E (rd m iv 16) (rd m inp len) = ?c"
    using False len by (subst cbc_enc.simps) (simp add: Let_def)
  have "min 16 len = len" using len by simp
  then have "cbc_encrypt_rest E m inp out iv len =
      (call_block E (for_from len 16 1 (\<lambda>n t. t(out + n := t (iv + n)))
        (for_from 0 len 1 (\<lambda>n t. t(out + n := t (inp + n) XOR t (iv + n))) m)) out out, out)"
    using False len by (subst cbc_encrypt_rest.simps) (simp only: Let_def if_True less_imp_le_nat not_False_eq_True)
  also have "\<dots> = (wr m out ?c, out)"
    unfolding cbc_partial_block [OF len ah iv16] using c by (simp add: call_block_def)
  finally have "m2 = wr m out ?c" "iv2 = out" using r by auto
  then show ?thesis unfolding e using c by (simp add: last_block_def)
qed

lemma cbc_encrypt_blocks_eq:
  assumes E: "block_fn E" and mix: "mix = cbc_xor_bytes \<or> mix = cbc_xor_words"
  shows "ahead inp out len \<Longrightarrow> apart iv 16 out (round16 len) \<Longrightarrow>
    cbc_encrypt_blocks mix E m inp out iv len = (m1, inp1, out1, iv1, len1) \<Longrightarrow>
    cbc_encrypt_rest E m1 inp1 out1 iv1 len1 = (m2, iv2) \<Longrightarrow>
    m2 = wr m out (cbc_enc E (rd m iv 16) (rd m inp len)) \<and>
    rd m2 iv2 16 = last_block (rd m iv 16) (cbc_enc E (rd m iv 16) (rd m inp len))"
proof (induction len arbitrary: m inp out iv rule: less_induct)
  case (less len)
  show ?case
  proof (cases "16 \<le> len")
    case False
    then show ?thesis
      using cbc_encrypt_rest_eq [OF E _ less.prems(1,2)] less.prems(3,4) by (subst (asm) cbc_encrypt_blocks.simps) simp
  next
    case True
    let ?c = "E (xor_bytes (rd m inp 16) (rd m iv 16))"
    let ?m = "wr m out ?c"
    have c: "length ?c = 16" using E by simp
    have r16: "round16 len = 16 + round16 (len - 16)"
      using True round16_step [of len] round16_small [of len] by (cases "len = 16") auto
    have a: "ahead inp out 16" "apart iv 16 out 16" using less.prems(1,2) True r16 by (auto simp: ahead_def apart_def)
    have m: "call_block E (mix inp out iv m) out out = ?m"
      using c by (simp add: cbc_xor [OF mix a] call_block_def)
    have i: "rd ?m (inp + 16) (len - 16) = rd m (inp + 16) (len - 16)"
      using less.prems(1) True c by (intro rd_wr_apart) (auto simp: ahead_def apart_def)
    have o: "rd ?m out 16 = ?c" using c by simp
    have "cbc_encrypt_blocks mix E ?m (inp + 16) (out + 16) out (len - 16) = (m1, inp1, out1, iv1, len1)"
      using less.prems(3) True m by (subst (asm) cbc_encrypt_blocks.simps) (simp add: Let_def)
    then have IH: "m2 = wr ?m (out + 16) (cbc_enc E (rd ?m out 16) (rd ?m (inp + 16) (len - 16))) \<and>
        rd m2 iv2 16 = last_block (rd ?m out 16) (cbc_enc E (rd ?m out 16) (rd ?m (inp + 16) (len - 16)))"
      by (intro less.IH less.prems(4)) (use True less.prems(1) in \<open>auto simp: ahead_def apart_def\<close>)
    show ?thesis
      unfolding cbc_enc_Cons [OF True] Let_def
      using IH [unfolded i o] c by (metis wr_append last_block_append length_rd)
  qed
qed

theorem cbc_encrypt_code:
  assumes E: "block_fn E" and ah: "ahead inp out len" and iv: "apart ivec 16 out (round16 len)"
  shows "CRYPTO_cbc128_encrypt strict E m inp out len ivec =
    (let ys = cbc_enc E (rd m ivec 16) (rd m inp len)
     in wr (wr m out ys) ivec (last_block (rd m ivec 16) ys))"
proof -
  define mix where "mix = (if cbc_misaligned strict inp out ivec then cbc_xor_bytes else cbc_xor_words)"
  obtain m1 inp1 out1 iv1 len1 where b: "cbc_encrypt_blocks mix E m inp out ivec len = (m1, inp1, out1, iv1, len1)"
    by (metis surj_pair)
  obtain m2 iv2 where r: "cbc_encrypt_rest E m1 inp1 out1 iv1 len1 = (m2, iv2)" by (metis surj_pair)
  have "mix = cbc_xor_bytes \<or> mix = cbc_xor_words" by (simp add: mix_def)
  note res = cbc_encrypt_blocks_eq [OF E this ah iv b r]
  have "CRYPTO_cbc128_encrypt strict E m inp out len ivec = wr m2 ivec (rd m2 iv2 16)"
    unfolding CRYPTO_cbc128_encrypt_def mix_def [symmetric] by (simp add: b r)
  then show ?thesis
    unfolding conjunct2 [OF res] by (simp only: conjunct1 [OF res] Let_def)
qed

section \<open>Decryption in memory\<close>

lemma cbc_dec_append:
  "16 dvd length xs \<Longrightarrow> length iv = 16 \<Longrightarrow>
   cbc_dec D iv (xs @ ys) = cbc_dec D iv xs @ cbc_dec D (last_block iv xs) ys"
proof (induction xs arbitrary: iv rule: length_induct)
  case (1 xs)
  show ?case
  proof (cases "xs = []")
    case False
    then have l: "16 \<le> length xs" using 1(2) by (simp add: dvd_imp_le)
    let ?c = "take 16 xs"
    have c: "length ?c = 16" using l by simp
    have "length (drop 16 xs) < length xs" "16 dvd length (drop 16 xs)" using 1(2) l False by auto
    then have "cbc_dec D ?c (drop 16 xs @ ys) = cbc_dec D ?c (drop 16 xs) @ cbc_dec D (last_block ?c (drop 16 xs)) ys"
      using 1(1) c by blast
    moreover have "last_block iv xs = last_block ?c (drop 16 xs)"
      using last_block_append [of iv ?c "drop 16 xs"] 1(3) c by simp
    ultimately show ?thesis
      using False l by (subst (1 2) cbc_dec.simps) simp
  qed simp
qed

lemma cbc_dec_block:
  assumes "length c = 16"
  shows "cbc_dec D iv (c @ ys) = xor_bytes (D c) iv @ cbc_dec D c ys"
proof -
  have "c \<noteq> []" using assms by auto
  then show ?thesis using assms by (simp add: cbc_dec.simps [of D iv "c @ ys"])
qed

lemma cbc_dec_rd:
  "cbc_dec D iv (rd m inp (16 + n)) = xor_bytes (D (rd m inp 16)) iv @ cbc_dec D (rd m inp 16) (rd m (inp + 16) n)"
  by (simp add: rd_add cbc_dec_block)

lemma length_cbc_dec: "block_fn D \<Longrightarrow> length iv = 16 \<Longrightarrow> length (cbc_dec D iv (rd m inp (16 * q))) = 16 * q"
proof (induction q arbitrary: iv inp)
  case (Suc q)
  then show ?case using cbc_dec_rd [of D iv m inp "16 * q"] by simp
qed simp

text \<open>Far apart: the output is two blocks behind the input, or after it.\<close>

definition cbc_far :: "nat \<Rightarrow> nat \<Rightarrow> nat \<Rightarrow> bool" where
  "cbc_far inp out len \<longleftrightarrow> out + 32 \<le> inp \<or> inp + len \<le> out"

lemma cbc_decrypt_far_eq:
  assumes D: "block_fn D" and mix: "mix = cbc_xor_bytes \<or> mix = cbc_xor_words"
  shows "cbc_far inp out len \<Longrightarrow> apart iv 16 out (if out + 32 \<le> inp then min 16 len else len) \<Longrightarrow>
    cbc_decrypt_far mix D m inp out iv len = (m1, inp1, out1, iv1, len1) \<Longrightarrow>
    (let q = len div 16; xs = rd m inp (16 * q)
     in m1 = wr m out (cbc_dec D (rd m iv 16) xs) \<and> rd m1 iv1 16 = last_block (rd m iv 16) xs \<and>
        inp1 = inp + 16 * q \<and> out1 = out + 16 * q \<and> len1 = len mod 16)"
proof (induction len arbitrary: m inp out iv rule: less_induct)
  case (less len)
  show ?case
  proof (cases "16 \<le> len")
    case False
    then show ?thesis using less.prems(3) by (subst (asm) cbc_decrypt_far.simps) (simp add: Let_def)
  next
    case True
    define q where "q = (len - 16) div 16"
    have q: "len div 16 = Suc q" "len mod 16 = (len - 16) mod 16" "16 * Suc q \<le> len"
      using True by (auto simp: q_def le_div_geq le_mod_geq)
    let ?c = "rd m inp 16"
    let ?m = "wr m out (xor_bytes (D ?c) (rd m iv 16))"
    have l: "length (D ?c) = 16" using D by simp
    have a: "ahead out out 16" "apart iv 16 out 16" "apart inp 16 out 16"
      using less.prems(1,2) True by (auto simp: ahead_def apart_def cbc_far_def split: if_splits)
    have m: "mix out out iv (call_block D m inp out) = ?m"
      using l a(2) by (simp add: cbc_xor [OF mix a(1,2)] call_block_def rd_wr_apart)
    have c: "rd ?m inp 16 = ?c" using a(3) l by (intro rd_wr_apart) simp
    have rest: "rd ?m (inp + 16) (16 * q) = rd m (inp + 16) (16 * q)"
      using less.prems(1) q(3) l by (intro rd_wr_apart) (auto simp: cbc_far_def apart_def)
    have "cbc_decrypt_far mix D ?m (inp + 16) (out + 16) inp (len - 16) = (m1, inp1, out1, iv1, len1)"
      using less.prems(3) True m by (subst (asm) cbc_decrypt_far.simps) (simp add: Let_def)
    then have IH: "let q = (len - 16) div 16; xs = rd ?m (inp + 16) (16 * q)
      in m1 = wr ?m (out + 16) (cbc_dec D (rd ?m inp 16) xs) \<and> rd m1 iv1 16 = last_block (rd ?m inp 16) xs \<and>
        inp1 = inp + 16 + 16 * q \<and> out1 = out + 16 + 16 * q \<and> len1 = (len - 16) mod 16"
      by (intro less.IH) (use True less.prems(1) in \<open>auto simp: cbc_far_def apart_def\<close>)
    have x: "rd m inp (16 * Suc q) = ?c @ rd m (inp + 16) (16 * q)" by (simp add: rd_add)
    have e1: "wr ?m (out + 16) (cbc_dec D ?c (rd m (inp + 16) (16 * q))) =
        wr m out (cbc_dec D (rd m iv 16) (rd m inp (16 * Suc q)))"
      unfolding x cbc_dec_block [OF length_rd] using l by (simp add: wr_append)
    have e2: "last_block ?c (rd m (inp + 16) (16 * q)) = last_block (rd m iv 16) (rd m inp (16 * Suc q))"
      unfolding x by (simp add: last_block_append)
    note IH' = IH [unfolded q_def [symmetric] c Let_def rest e1 e2 q(2) [symmetric]]
    show ?thesis
      unfolding Let_def q(1)
      using IH' by (metis add.assoc mult_Suc_right)
  qed
qed

text \<open>Close together.\<close>

lemma cbc_byte_eq:
  assumes "n < length tmp" "ivec + n \<noteq> out + n"
  shows "cbc_byte tmp inp out ivec n m =
    wr (wr m (out + n) (xor_bytes (take 1 (drop n tmp)) (rd m (ivec + n) 1))) (ivec + n) (rd m (inp + n) 1)"
  using assms by (simp add: cbc_byte_def rd_Suc xor_bytes_def take_Suc_conv_app_nth Let_def)

lemma cbc_word_eq:
  assumes "n + 8 \<le> length tmp"
  shows "cbc_word tmp inp out ivec n m =
    wr (wr m (out + n) (xor_bytes (take 8 (drop n tmp)) (rd m (ivec + n) 8))) (ivec + n) (rd m (inp + n) 8)"
  using assms word_bytes_word [of "take 8 (drop n tmp)" 8]
  by (simp add: cbc_word_def store_word_le_def word_bytes_xor word_bytes_load Let_def)

lemma cbc_near_loop:
  assumes lim: "0 < st" "lim = q * st" "lim \<le> length tmp"
    and cl: "out \<le> inp \<or> inp + lim \<le> out" "apart ivec lim inp lim" "apart ivec lim out lim"
    and step: "\<And>n t. n + st \<le> lim \<Longrightarrow> step n t =
      wr (wr t (out + n) (xor_bytes (take st (drop n tmp)) (rd t (ivec + n) st))) (ivec + n) (rd t (inp + n) st)"
  shows "for_from 0 lim st step m = wr (wr m out (xor_bytes (take lim tmp) (rd m ivec lim))) ivec (rd m inp lim)"
proof (rule for_from_inv [where q = q and
      P = "\<lambda>k t. k \<le> lim \<longrightarrow> t = wr (wr m out (xor_bytes (take k tmp) (rd m ivec k))) ivec (rd m inp k)", THEN mp])
  fix i k t assume i: "i < q" "k = 0 + i * st"
    and t: "k \<le> lim \<longrightarrow> t = wr (wr m out (xor_bytes (take k tmp) (rd m ivec k))) ivec (rd m inp k)"
  have "k + st = Suc i * st" using i(2) by simp
  also have "\<dots> \<le> lim" unfolding lim(2) using i(1) by (intro mult_le_mono1) simp
  finally have le: "k + st \<le> lim" .
  let ?u = "xor_bytes (take k tmp) (rd m ivec k)" and ?v = "xor_bytes (take st (drop k tmp)) (rd m (ivec + k) st)"
  have lu: "length ?u = k" "length ?v = st" using le lim(3) by (simp_all add: min_absorb1)
  have t: "t = wr (wr m out ?u) ivec (rd m inp k)" using t le by simp
  have "rd t (ivec + k) st = rd (wr m out ?u) (ivec + k) st"
    unfolding t by (intro rd_wr_apart) (simp add: apart_def)
  also have "\<dots> = rd m (ivec + k) st" using cl(3) le lu by (intro rd_wr_apart) (auto simp: apart_def)
  finally have iv: "rd t (ivec + k) st = rd m (ivec + k) st" .
  have "rd t (inp + k) st = rd (wr m out ?u) (inp + k) st"
    unfolding t using cl(2) le by (intro rd_wr_apart) (auto simp: apart_def)
  also have "\<dots> = rd m (inp + k) st" using cl(1) le lu by (intro rd_wr_apart) (auto simp: apart_def)
  finally have inq: "rd t (inp + k) st = rd m (inp + k) st" .
  have "step k t = wr (wr t (out + k) ?v) (ivec + k) (rd m (inp + k) st)"
    unfolding step [OF le] iv inq ..
  also have "wr t (out + k) ?v = wr (wr (wr m out ?u) (out + k) ?v) ivec (rd m inp k)"
    unfolding t using cl(3) le lu by (intro wr_commute) (auto simp: apart_def)
  also have "wr (wr m out ?u) (out + k) ?v = wr m out (?u @ ?v)" using lu by (simp add: wr_append)
  also have "?u @ ?v = xor_bytes (take (k + st) tmp) (rd m ivec (k + st))"
    using le lim(3) by (simp add: take_add rd_add xor_bytes_append)
  also have "wr (wr (wr m out (xor_bytes (take (k + st) tmp) (rd m ivec (k + st)))) ivec (rd m inp k)) (ivec + k) (rd m (inp + k) st) =
      wr (wr m out (xor_bytes (take (k + st) tmp) (rd m ivec (k + st)))) ivec (rd m inp (k + st))"
    by (simp add: rd_add wr_append)
  finally show "k + st \<le> lim \<longrightarrow> step k t =
      wr (wr m out (xor_bytes (take (k + st) tmp) (rd m ivec (k + st)))) ivec (rd m inp (k + st))" by simp
qed (use lim in auto)

lemma cbc_near_block:
  assumes st: "st = 1 \<and> step = cbc_byte \<or> st = 8 \<and> step = cbc_word" and tmp: "length tmp = 16"
    and cl: "out \<le> inp" "apart ivec 16 inp 16" "apart ivec 16 out 16"
  shows "for_from 0 16 st (step tmp inp out ivec) m = wr (wr m out (xor_bytes tmp (rd m ivec 16))) ivec (rd m inp 16)"
proof -
  have "for_from 0 16 st (step tmp inp out ivec) m =
      wr (wr m out (xor_bytes (take 16 tmp) (rd m ivec 16))) ivec (rd m inp 16)"
  proof (rule cbc_near_loop [where q = "16 div st"])
    fix n t assume "n + st \<le> 16"
    then show "step tmp inp out ivec n t =
      wr (wr t (out + n) (xor_bytes (take st (drop n tmp)) (rd t (ivec + n) st))) (ivec + n) (rd t (inp + n) st)"
      using st tmp cl(3) cbc_byte_eq [of n tmp ivec out inp t] cbc_word_eq [of n tmp inp out ivec t]
      by (auto simp: apart_def)
  qed (use st tmp cl in auto)
  then show ?thesis using tmp by simp
qed

lemma cbc_decrypt_near_eq:
  assumes D: "block_fn D" and st: "st = 1 \<and> step = cbc_byte \<or> st = 8 \<and> step = cbc_word"
  shows "out \<le> inp \<Longrightarrow> apart ivec 16 inp len \<Longrightarrow> apart ivec 16 out len \<Longrightarrow>
    cbc_decrypt_near st step D ivec m inp out len =
    (let q = len div 16; xs = rd m inp (16 * q)
     in (wr (wr m out (cbc_dec D (rd m ivec 16) xs)) ivec (last_block (rd m ivec 16) xs),
         inp + 16 * q, out + 16 * q, len mod 16))"
proof (induction len arbitrary: m inp out rule: less_induct)
  case (less len)
  show ?case
  proof (cases "16 \<le> len")
    case False
    then show ?thesis by (subst cbc_decrypt_near.simps) (simp add: Let_def)
  next
    case True
    define q where "q = (len - 16) div 16"
    have q: "len div 16 = Suc q" "len mod 16 = (len - 16) mod 16" "16 * Suc q \<le> len"
      using True by (auto simp: q_def le_div_geq le_mod_geq)
    let ?c = "rd m inp 16" and ?iv = "rd m ivec 16"
    let ?y = "xor_bytes (D ?c) ?iv" and ?rest = "rd m (inp + 16) (16 * q)"
    let ?m = "wr (wr m out ?y) ivec ?c"
    have l: "length (D ?c) = 16" using D by simp
    have cl: "apart ivec 16 inp 16" "apart ivec 16 out 16" using less.prems True by (auto simp: apart_def)
    have m: "for_from 0 16 st (step (D ?c) inp out ivec) m = ?m"
      by (rule cbc_near_block [OF st l less.prems(1) cl])
    have iv: "rd ?m ivec 16 = ?c" by simp
    have "rd ?m (inp + 16) (16 * q) = rd (wr m out ?y) (inp + 16) (16 * q)"
      using less.prems(2) q(3) by (intro rd_wr_apart) (auto simp: apart_def)
    also have "\<dots> = ?rest" using less.prems(1) l by (intro rd_wr_apart) (auto simp: apart_def)
    finally have rest: "rd ?m (inp + 16) (16 * q) = ?rest" .
    have ld: "length (cbc_dec D ?c ?rest) = 16 * q" by (rule length_cbc_dec [OF D]) simp
    have "wr ?m (out + 16) (cbc_dec D ?c ?rest) = wr (wr (wr m out ?y) (out + 16) (cbc_dec D ?c ?rest)) ivec ?c"
      using less.prems(3) q(3) ld by (intro wr_commute) (auto simp: apart_def)
    also have "wr (wr m out ?y) (out + 16) (cbc_dec D ?c ?rest) = wr m out (cbc_dec D ?iv (rd m inp (16 + 16 * q)))"
      using l by (simp add: cbc_dec_rd wr_append)
    finally have e1: "wr ?m (out + 16) (cbc_dec D ?c ?rest) = wr (wr m out (cbc_dec D ?iv (rd m inp (16 + 16 * q)))) ivec ?c" .
    have e2: "last_block ?c ?rest = last_block ?iv (rd m inp (16 + 16 * q))"
      by (simp add: rd_add last_block_append)
    have "cbc_decrypt_near st step D ivec m inp out len = cbc_decrypt_near st step D ivec ?m (inp + 16) (out + 16) (len - 16)"
      using True by (subst cbc_decrypt_near.simps) (simp add: m Let_def)
    also have "\<dots> = (let q = (len - 16) div 16; xs = rd ?m (inp + 16) (16 * q)
     in (wr (wr ?m (out + 16) (cbc_dec D (rd ?m ivec 16) xs)) ivec (last_block (rd ?m ivec 16) xs),
         inp + 16 + 16 * q, out + 16 + 16 * q, (len - 16) mod 16))"
      by (rule less.IH) (use less.prems True in \<open>auto simp: apart_def\<close>)
    also have "\<dots> = (wr (wr m out (cbc_dec D ?iv (rd m inp (16 + 16 * q)))) ivec (last_block ?iv (rd m inp (16 + 16 * q))),
         inp + 16 + 16 * q, out + 16 + 16 * q, len mod 16)"
      unfolding q_def [symmetric] iv Let_def rest e1 e2 q(2) by simp
    finally show ?thesis by (simp add: q(1) add.assoc Let_def)
  qed
qed

lemma cbc_decrypt_rest_eq:
  assumes D: "block_fn D" and len: "len < 16"
    and cl: "out \<le> inp \<or> inp + round16 len \<le> out" "apart ivec 16 inp (round16 len)" "apart ivec 16 out len"
  shows "cbc_decrypt_rest D ivec m inp out len =
    (let xs = rd m inp (round16 len)
     in wr (wr m out (take len (cbc_dec D (rd m ivec 16) xs))) ivec (last_block (rd m ivec 16) xs))"
proof (cases "len = 0")
  case True
  then show ?thesis by (simp add: cbc_decrypt_rest.simps)
next
  case False
  let ?c = "rd m inp 16"
  let ?y = "xor_bytes (take len (D ?c)) (rd m ivec len)"
  have r: "round16 len = 16" using False len by (simp add: round16_small)
  have l: "length (D ?c) = 16" using D by simp
  have ly: "length ?y = len" using l len by simp
  have a: "out \<le> inp \<or> inp + len \<le> out" "apart ivec len inp len" "apart ivec len out len"
    using cl r len by (auto simp: apart_def)
  have 1: "for_from 0 len 1 (cbc_byte (D ?c) inp out ivec) m = wr (wr m out ?y) ivec (rd m inp len)"
  proof (rule cbc_near_loop [OF _ _ _ a, where q = len])
    fix n t assume "n + 1 \<le> len"
    then show "cbc_byte (D ?c) inp out ivec n t =
      wr (wr t (out + n) (xor_bytes (take 1 (drop n (D ?c))) (rd t (ivec + n) 1))) (ivec + n) (rd t (inp + n) 1)"
      using l len cl(3) by (intro cbc_byte_eq) (auto simp: apart_def)
  qed (use l len in auto)
  let ?t = "wr (wr m out ?y) ivec (rd m inp len)" and ?rest = "map (\<lambda>i. m (inp + i)) [len..<16]"
  have 2: "for_from len 16 1 (\<lambda>n t. t(ivec + n := t (inp + n))) ?t = wr ?t (ivec + len) ?rest"
  proof (rule for_from_write [where q = "16 - len"])
    fix k t assume k: "len \<le> k" "k + 1 \<le> 16" and t: "t = wr ?t (ivec + len) (map (\<lambda>i. m (inp + i)) [len..<k])"
    have "t (inp + k) = ?t (inp + k)"
      unfolding t using cl(2) k r by (intro wr_out) (auto simp: apart_def)
    also have "\<dots> = wr m out ?y (inp + k)" using cl(2) k r by (intro wr_out) (auto simp: apart_def)
    also have "\<dots> = m (inp + k)" using cl(1) k r ly by (intro wr_out) auto
    finally show "t(ivec + k := t (inp + k)) = wr t (ivec + k) (map (\<lambda>i. m (inp + i)) [k..<k + 1])" by simp
  qed (use len in auto)
  have "rd m inp len @ ?rest = ?c"
    using len by (intro nth_equalityI) (auto simp: nth_append)
  then have 3: "wr ?t (ivec + len) ?rest = wr (wr m out ?y) ivec ?c"
    using wr_append [of "wr m out ?y" ivec "rd m inp len" ?rest] by simp
  have "min 16 len = len" using len by simp
  then have "cbc_decrypt_rest D ivec m inp out len =
      for_from len 16 1 (\<lambda>n t. t(ivec + n := t (inp + n))) (for_from 0 len 1 (cbc_byte (D ?c) inp out ivec) m)"
    using False len by (subst cbc_decrypt_rest.simps) (simp only: Let_def if_True less_imp_le_nat not_False_eq_True)
  also have "\<dots> = wr (wr m out ?y) ivec ?c" unfolding 1 2 3 ..
  also have "?y = take len (cbc_dec D (rd m ivec 16) ?c)"
    using cbc_dec_rd [of D "rd m ivec 16" m inp 0] len by (simp add: take_xor_bytes min_absorb1)
  finally show ?thesis by (simp add: r Let_def last_block_def)
qed

theorem cbc_decrypt_code:
  assumes D: "block_fn D" and ord: "out \<le> inp \<or> inp + round16 len \<le> out"
    and cl: "apart ivec 16 inp (round16 len)" "apart ivec 16 out len"
  shows "CRYPTO_cbc128_decrypt strict D m inp out len ivec =
    (let xs = rd m inp (round16 len)
     in wr (wr m out (take len (cbc_dec D (rd m ivec 16) xs))) ivec (last_block (rd m ivec 16) xs))"
proof -
  let ?iv = "rd m ivec 16"
  define q where "q = len div 16"
  define r where "r = len mod 16"
  have len: "len = 16 * q + r" "r < 16" by (simp_all add: q_def r_def)
  have r16: "round16 len = 16 * q + round16 r"
  proof -
    have "(len + 15) div 16 = q + (r + 15) div 16" using div_mult_self1 [of 16 "r + 15" q] by (simp add: len(1) ac_simps)
    then show ?thesis by (simp add: round16_def distrib_left)
  qed
  let ?xs = "rd m inp (16 * q)" and ?zs = "rd m (inp + 16 * q) (round16 r)"
  let ?ys = "cbc_dec D ?iv ?xs" and ?l = "last_block ?iv ?xs"
  define m1 where "m1 = wr (wr m out ?ys) ivec ?l"
  have ly: "length ?ys = 16 * q" by (rule length_cbc_dec [OF D]) simp
  have bounds: "len \<le> round16 len" "r \<le> round16 r" by (rule round16_bounds)+
  have first: "(if (32 \<le> inp \<and> out \<le> inp - 32) \<or> inp < out
         then (let mix = (if cbc_misaligned strict inp out ivec then cbc_xor_bytes else cbc_xor_words);
                   (m, inp, out, iv, len) = cbc_decrypt_far mix D m inp out ivec len
               in (wr m ivec (rd m iv 16), inp, out, len))
         else if cbc_misaligned strict inp out ivec then cbc_decrypt_near 1 cbc_byte D ivec m inp out len
         else cbc_decrypt_near 8 cbc_word D ivec m inp out len) = (m1, inp + 16 * q, out + 16 * q, r)"
  proof (cases "(32 \<le> inp \<and> out \<le> inp - 32) \<or> inp < out")
    case True
    define mix where "mix = (if cbc_misaligned strict inp out ivec then cbc_xor_bytes else cbc_xor_words)"
    obtain m2 inp1 out1 iv1 len1 where b: "cbc_decrypt_far mix D m inp out ivec len = (m2, inp1, out1, iv1, len1)"
      by (metis surj_pair)
    have mx: "mix = cbc_xor_bytes \<or> mix = cbc_xor_words" by (simp add: mix_def)
    have far: "cbc_far inp out len" using True ord bounds(1) by (auto simp: cbc_far_def)
    have ap: "apart ivec 16 out (if out + 32 \<le> inp then min 16 len else len)" using cl(2) by (auto simp: apart_def)
    from cbc_decrypt_far_eq [OF D mx far ap b] have res: "m2 = wr m out ?ys" "rd m2 iv1 16 = ?l"
      "inp1 = inp + 16 * q" "out1 = out + 16 * q" "len1 = r"
      unfolding q_def r_def Let_def by blast+
    have "wr m2 ivec (rd m2 iv1 16) = m1" unfolding res(2) by (simp add: res(1) m1_def)
    then show ?thesis unfolding mix_def [symmetric] using True res(3-5) by (simp add: b Let_def)
  next
    case False
    then have oi: "out \<le> inp" by simp
    have ap: "apart ivec 16 inp len" using cl(1) bounds(1) by (auto simp: apart_def)
    from cbc_decrypt_near_eq [OF D _ oi ap cl(2), of 1 cbc_byte m] cbc_decrypt_near_eq [OF D _ oi ap cl(2), of 8 cbc_word m]
    show ?thesis unfolding if_not_P [OF False] by (simp add: m1_def q_def r_def Let_def)
  qed
  have iv1: "rd m1 ivec 16 = ?l" by (simp add: m1_def)
  have "rd m1 (inp + 16 * q) (round16 r) = rd (wr m out ?ys) (inp + 16 * q) (round16 r)"
    unfolding m1_def using cl(1) r16 by (intro rd_wr_apart) (auto simp: apart_def)
  also have "\<dots> = ?zs" using ord ly r16 by (intro rd_wr_apart) (auto simp: apart_def)
  finally have z1: "rd m1 (inp + 16 * q) (round16 r) = ?zs" .
  have "cbc_decrypt_rest D ivec m1 (inp + 16 * q) (out + 16 * q) r =
    (let xs = rd m1 (inp + 16 * q) (round16 r)
     in wr (wr m1 (out + 16 * q) (take r (cbc_dec D (rd m1 ivec 16) xs))) ivec (last_block (rd m1 ivec 16) xs))"
    using ord cl r16 len(1) by (intro cbc_decrypt_rest_eq [OF D len(2)]) (auto simp: apart_def)
  also have "\<dots> = wr (wr m1 (out + 16 * q) (take r (cbc_dec D ?l ?zs))) ivec (last_block ?l ?zs)"
    by (simp add: iv1 z1 Let_def)
  also have "wr m1 (out + 16 * q) (take r (cbc_dec D ?l ?zs)) =
      wr (wr (wr m out ?ys) (out + 16 * q) (take r (cbc_dec D ?l ?zs))) ivec ?l"
    unfolding m1_def using cl(2) len(1) by (intro wr_commute) (auto simp: apart_def)
  also have "wr (wr m out ?ys) (out + 16 * q) (take r (cbc_dec D ?l ?zs)) =
      wr m out (take len (cbc_dec D ?iv (rd m inp (round16 len))))"
  proof -
    have "take len (?ys @ cbc_dec D ?l ?zs) = ?ys @ take r (cbc_dec D ?l ?zs)"
      using ly len(1) by simp
    then have "take len (cbc_dec D ?iv (rd m inp (round16 len))) = ?ys @ take r (cbc_dec D ?l ?zs)"
      by (simp add: r16 rd_add cbc_dec_append)
    then show ?thesis using ly by (simp add: wr_append)
  qed
  also have "last_block ?l ?zs = last_block ?iv (rd m inp (round16 len))"
    by (simp add: r16 rd_add last_block_last_block)
  finally have "cbc_decrypt_rest D ivec m1 (inp + 16 * q) (out + 16 * q) r =
    wr (wr (wr m out (take len (cbc_dec D ?iv (rd m inp (round16 len))))) ivec ?l) ivec
      (last_block ?iv (rd m inp (round16 len)))" .
  then show ?thesis
    unfolding CRYPTO_cbc128_decrypt_def first by (simp add: Let_def)
qed

end
