(* ===== verification/Ccm.thy ===== *)
theory Ccm
  imports Ctr32 Cbc
begin

text \<open>
  Counter with CBC-MAC, crypto/fipsmodule/modes/ccm.c: the tag is a CBC-MAC of the formatted
  header, the associated data and the plaintext, and the data is encrypted in counter mode by the
  functions of ctr.c. The local struct \<open>ccm128_state\<close> is a pair of 16 byte blocks; its counter
  block has the address \<open>st\<close> and the local \<open>partial_buf\<close> the address \<open>pb\<close> where the counter mode
  works on them. \<open>size_t\<close> has 64 bits.
\<close>

section \<open>The code\<close>

record ccm128_context =
  ccm_block :: "bytes \<Rightarrow> bytes"
  ccm_ctr :: "ctr128_f option"
  ccm_M :: nat
  ccm_L :: nat

definition CRYPTO_ccm128_init :: "(bytes \<Rightarrow> bytes) \<Rightarrow> ctr128_f option \<Rightarrow> nat \<Rightarrow> nat \<Rightarrow> ccm128_context option" where
  "CRYPTO_ccm128_init block ctr M L =
     (if M < 4 \<or> 16 < M \<or> odd M \<or> L < 2 \<or> 8 < L then None
      else Some \<lparr>ccm_block = block, ccm_ctr = ctr, ccm_M = M, ccm_L = L\<rparr>)"

definition CRYPTO_ccm128_max_input :: "ccm128_context \<Rightarrow> nat" where
  "CRYPTO_ccm128_max_input ctx = (if 8 \<le> ccm_L ctx then 2 ^ 64 - 1 else 2 ^ (ccm_L ctx * 8) - 1)"

record ccm128_state =
  st_nonce :: bytes
  st_cmac :: bytes

text \<open>\<open>for (i = 0; i < L; i++) c[15 - i] = f(i)\<close>.\<close>

definition set_low :: "nat \<Rightarrow> (nat \<Rightarrow> u8) \<Rightarrow> bytes \<Rightarrow> bytes" where
  "set_low L f c = fold (\<lambda>i c. c[15 - i := f i]) [0..<L] c"

fun ccm_absorb :: "bytes \<Rightarrow> nat \<Rightarrow> bytes \<Rightarrow> bytes \<times> bytes" where
  "ccm_absorb cmac i [] = (cmac, [])"
| "ccm_absorb cmac i (a # aad) =
     (if i < 16 then ccm_absorb (cmac[i := cmac ! i XOR a]) (i + 1) aad else (cmac, a # aad))"

lemma length_ccm_absorb: "length (snd (ccm_absorb cmac i aad)) \<le> length aad"
  by (induction cmac i aad rule: ccm_absorb.induct) auto

lemma ccm_absorb_less: "i < 16 \<Longrightarrow> aad \<noteq> [] \<Longrightarrow> length (snd (ccm_absorb cmac i aad)) < length aad"
  using length_ccm_absorb by (cases aad) (auto simp: less_Suc_eq_le)

text \<open>The \<open>do\<close> loop over the associated data; \<open>i\<close> is 0 in all rounds but the first.\<close>

function ccm_aad_loop :: "(bytes \<Rightarrow> bytes) \<Rightarrow> bytes \<Rightarrow> bytes \<Rightarrow> nat \<Rightarrow> bytes \<times> nat" where
  "ccm_aad_loop E cmac aad blocks =
     (if aad = [] then (cmac, blocks)
      else (let (cmac, aad) = ccm_absorb cmac 0 aad in ccm_aad_loop E (E cmac) aad (blocks + 1)))"
  by pat_completeness auto
termination
proof (relation "measure (\<lambda>(_, _, aad, _). length aad)", goal_cases)
  case (2 E cmac aad blocks p c a)
  then have "a = snd (ccm_absorb cmac 0 aad)" by (metis snd_conv)
  then show ?case using ccm_absorb_less [of 0 aad cmac] 2(1) by simp
qed simp

declare ccm_aad_loop.simps [simp del]

text \<open>The length prefix of the associated data.\<close>

definition ccm_aad_prefix :: "nat \<Rightarrow> bytes" where
  "ccm_aad_prefix aad_len =
     (if aad_len < 0x10000 - 0x100 then map (\<lambda>s. word_of_nat (aad_len div 2 ^ s)) [8, 0]
      else if aad_len \<le> 0xffffffff then [0xff, 0xfe] @ map (\<lambda>s. word_of_nat (aad_len div 2 ^ s)) [24, 16, 8, 0]
      else [0xff, 0xff] @ map (\<lambda>s. word_of_nat (aad_len div 2 ^ s)) [56, 48, 40, 32, 24, 16, 8, 0])"

definition ccm_first_block :: "ccm128_context \<Rightarrow> bytes \<Rightarrow> nat \<Rightarrow> nat \<Rightarrow> bytes" where
  "ccm_first_block ctx nonce aad_len plaintext_len =
     (let c = replicate 16 0;
          c = c[0 := word_of_nat (ccm_L ctx - 1) OR push_bit 3 (word_of_nat ((ccm_M ctx - 2) div 2))];
          c = (if aad_len \<noteq> 0 then c[0 := c ! 0 OR 0x40] else c);
          c = write_at c 1 nonce
      in set_low (ccm_L ctx) (\<lambda>i. word_of_nat (plaintext_len div 2 ^ (8 * i))) c)"

text \<open>The part of \<open>ccm128_init_state\<close> that authenticates the associated data; with the number of blocks.\<close>

definition ccm_aad_mac :: "(bytes \<Rightarrow> bytes) \<Rightarrow> bytes \<Rightarrow> bytes \<Rightarrow> bytes \<times> nat" where
  "ccm_aad_mac E cmac aad =
     (if aad = [] then (cmac, 1)
      else (let pre = ccm_aad_prefix (length aad);
                (cmac, _) = ccm_absorb cmac 0 pre;
                (cmac, aad) = ccm_absorb cmac (length pre) aad
            in ccm_aad_loop E (E cmac) aad 2))"

definition ccm128_init_state :: "ccm128_context \<Rightarrow> bytes \<Rightarrow> bytes \<Rightarrow> nat \<Rightarrow> ccm128_state option" where
  "ccm128_init_state ctx nonce aad plaintext_len =
     (if plaintext_len > CRYPTO_ccm128_max_input ctx \<or> length nonce \<noteq> 15 - ccm_L ctx then None
      else
        (let E = ccm_block ctx;
             b0 = ccm_first_block ctx nonce (length aad) plaintext_len;
             cmac = E b0;
             (cmac, blocks) = ccm_aad_mac E cmac aad;
             remaining = sz (2 * (sz (plaintext_len + 15) div 16) + 1)
         in if sz (plaintext_len + 15) < plaintext_len \<or> sz (remaining + blocks) < blocks \<or>
               sz (remaining + blocks) > 2 ^ 61
            then None
            else Some \<lparr>st_nonce = b0[0 := b0 ! 0 AND 7], st_cmac = cmac\<rparr>))"

definition ccm128_encrypt :: "bool \<Rightarrow> ccm128_context \<Rightarrow> nat \<Rightarrow> nat \<Rightarrow> ccm128_state \<Rightarrow> memory \<Rightarrow> nat \<Rightarrow> nat \<Rightarrow> nat
    \<Rightarrow> ccm128_state \<times> memory" where
  "ccm128_encrypt strict ctx st pb state m out inp len =
     (let nonce = set_low (ccm_L ctx) (\<lambda>i. 0) (st_nonce state);
          nonce = nonce[15 := 1];
          m = wr m st nonce;
          (m, num) =
            (case ccm_ctr ctx of
               Some F \<Rightarrow> CRYPTO_ctr128_encrypt_ctr32 F st pb m inp out len 0
             | None \<Rightarrow> CRYPTO_ctr128_encrypt strict (ccm_block ctx) st pb m inp out len 0)
      in (state\<lparr>st_nonce := rd m st 16\<rparr>, m))"

function ccm_mac_loop :: "(bytes \<Rightarrow> bytes) \<Rightarrow> bytes \<Rightarrow> bytes \<Rightarrow> bytes \<times> bytes" where
  "ccm_mac_loop E cmac data =
     (if 16 \<le> length data then ccm_mac_loop E (E (xor_bytes cmac (take 16 data))) (drop 16 data)
      else (cmac, data))"
  by pat_completeness auto
termination
  by (relation "measure (\<lambda>(_, _, data). length data)") auto

declare ccm_mac_loop.simps [simp del]

definition ccm128_compute_mac :: "ccm128_context \<Rightarrow> ccm128_state \<Rightarrow> nat \<Rightarrow> bytes \<Rightarrow> bytes option" where
  "ccm128_compute_mac ctx state tag_len data =
     (if tag_len \<noteq> ccm_M ctx then None
      else
        (let E = ccm_block ctx;
             (cmac, data) = ccm_mac_loop E (st_cmac state) data;
             cmac = (if length data > 0 then E (fst (ccm_absorb cmac 0 data)) else cmac);
             tmp = E (set_low (ccm_L ctx) (\<lambda>i. 0) (st_nonce state))
         in Some (take tag_len (xor_bytes cmac tmp))))"

text \<open>The result is the memory and, on success, the tag.\<close>

definition CRYPTO_ccm128_encrypt :: "bool \<Rightarrow> ccm128_context \<Rightarrow> nat \<Rightarrow> nat \<Rightarrow> memory \<Rightarrow> nat \<Rightarrow> nat \<Rightarrow> bytes \<Rightarrow> nat \<Rightarrow> nat \<Rightarrow> bytes
    \<Rightarrow> memory \<times> bytes option" where
  "CRYPTO_ccm128_encrypt strict ctx st pb m out tag_len nonce inp len aad =
     (case ccm128_init_state ctx nonce aad len of
        None \<Rightarrow> (m, None)
      | Some state \<Rightarrow>
          (case ccm128_compute_mac ctx state tag_len (rd m inp len) of
             None \<Rightarrow> (m, None)
           | Some tag \<Rightarrow> (let (_, m) = ccm128_encrypt strict ctx st pb state m out inp len in (m, Some tag))))"

definition CRYPTO_ccm128_decrypt :: "bool \<Rightarrow> ccm128_context \<Rightarrow> nat \<Rightarrow> nat \<Rightarrow> memory \<Rightarrow> nat \<Rightarrow> nat \<Rightarrow> bytes \<Rightarrow> nat \<Rightarrow> nat \<Rightarrow> bytes
    \<Rightarrow> memory \<times> bytes option" where
  "CRYPTO_ccm128_decrypt strict ctx st pb m out tag_len nonce inp len aad =
     (case ccm128_init_state ctx nonce aad len of
        None \<Rightarrow> (m, None)
      | Some state \<Rightarrow>
          (let (state, m) = ccm128_encrypt strict ctx st pb state m out inp len
           in (m, ccm128_compute_mac ctx state tag_len (rd m out len))))"

section \<open>Counter blocks\<close>

lemma set_low_eq:
  assumes "length c = 16"
  shows "L \<le> 16 \<Longrightarrow> set_low L f c = take (16 - L) c @ map (\<lambda>j. f (L - 1 - j)) [0..<L]"
proof (induction L)
  case (Suc L)
  let ?t = "map (\<lambda>j. f (L - 1 - j)) [0..<L]"
  have s: "set_low (Suc L) f c = (take (16 - L) c @ ?t)[15 - L := f L]"
    using Suc by (simp add: set_low_def)
  have t: "take (16 - L) c = take (15 - L) c @ [c ! (15 - L)]"
  proof -
    have "16 - L = Suc (15 - L)" using Suc.prems by simp
    then show ?thesis using take_Suc_conv_app_nth [of "15 - L" c] assms by simp
  qed
  have "(take (16 - L) c @ ?t)[15 - L := f L] = take (15 - L) c @ f L # ?t"
    unfolding t using assms by (simp add: list_update_append min_absorb1)
  moreover have "map (\<lambda>j. f (L - j)) [0..<Suc L] = f L # ?t"
    by (rule nth_equalityI) (auto simp: nth_Cons' simp del: upt_Suc)
  ultimately show ?case unfolding s by simp
qed (simp add: set_low_def assms)

lemma length_set_low [simp]: "length (set_low L f c) = length c"
proof -
  have "length (fold (\<lambda>i c. c[15 - i := f i]) is c) = length c" for "is"
    by (induction "is" arbitrary: c) auto
  then show ?thesis by (simp add: set_low_def)
qed

lemma be_bytes_0: "be_bytes n 0 = replicate n 0"
  by (induction n) (simp_all add: replicate_append_same)

lemma be_bytes_small:
  assumes "0 < L" shows "be_bytes L 1 = (replicate L 0)[L - 1 := 1]"
proof -
  obtain k where L: "L = Suc k" using assms by (cases L) auto
  have "be_bytes L 1 = replicate k 0 @ [1]" by (simp add: L be_bytes_0)
  also have "\<dots> = (replicate k 0 @ [0])[k := 1]" by (simp add: list_update_append)
  finally show ?thesis by (simp add: L replicate_append_same)
qed

text \<open>The counter blocks of the mode: the prefix of the nonce block, then the counter.\<close>

definition ccm_counter :: "nat \<Rightarrow> bytes \<Rightarrow> nat \<Rightarrow> bytes" where
  "ccm_counter L nonce i = take (16 - L) nonce @ be_bytes L i"

lemma set_low_0:
  assumes "length c = 16" "L \<le> 16"
  shows "set_low L (\<lambda>i. 0) c = ccm_counter L c 0"
  using set_low_eq [OF assms] by (simp add: ccm_counter_def be_bytes_0 map_replicate_const)

lemma set_low_1:
  assumes "length c = 16" "0 < L" "L \<le> 16"
  shows "(set_low L (\<lambda>i. 0) c)[15 := 1] = ccm_counter L c 1"
proof -
  have "\<not> 15 < 16 - L" "15 - (16 - L) = L - 1" using assms(2,3) by arith+
  then show ?thesis
    using assms be_bytes_small [OF assms(2)]
    by (simp add: set_low_0 ccm_counter_def be_bytes_0 list_update_append min_absorb1)
qed

lemma length_ccm_counter [simp]: "length c = 16 \<Longrightarrow> L \<le> 16 \<Longrightarrow> length (ccm_counter L c i) = 16"
  by (simp add: ccm_counter_def)

lemma ctr_add_ccm:
  assumes "length c = 16" "L \<le> 16" "i + n < 256 ^ L"
  shows "ctr_add n (ccm_counter L c i) = ccm_counter L c (i + n)"
proof -
  let ?p = "take (16 - L) c"
  have i: "be_nat (be_bytes L i) = i" using assms(3) by (intro be_nat_be_bytes) simp
  have "be_nat (ccm_counter L c i) + n = be_nat ?p * 256 ^ L + (i + n)"
    by (simp add: ccm_counter_def be_nat_append i)
  moreover have "be_bytes 16 (be_nat ?p * 256 ^ L + (i + n)) =
      be_bytes (16 - L) ((be_nat ?p * 256 ^ L + (i + n)) div 256 ^ L) @ be_bytes L (be_nat ?p * 256 ^ L + (i + n))"
    using be_bytes_append [of "16 - L" L "be_nat ?p * 256 ^ L + (i + n)"] assms(2) by simp
  moreover have "(be_nat ?p * 256 ^ L + (i + n)) div 256 ^ L = be_nat ?p" using assms(3) by simp
  moreover have "be_bytes L (be_nat ?p * 256 ^ L + (i + n)) = be_bytes L (i + n)"
    by (rule be_bytes_cong) simp
  moreover have "be_bytes (16 - L) (be_nat ?p) = ?p" using be_bytes_be_nat [of ?p] assms(1) by simp
  ultimately show ?thesis by (simp add: ctr_add_def ccm_counter_def add.assoc)
qed

lemma ccm_counter_counter:
  "length c = 16 \<Longrightarrow> L \<le> 16 \<Longrightarrow> ccm_counter L (ccm_counter L c i) j = ccm_counter L c j"
  by (simp add: ccm_counter_def)

section \<open>Encryption\<close>

definition blocks16 :: "nat \<Rightarrow> nat" where
  "blocks16 len = (len + 15) div 16"

lemma run_ctr_any:
  assumes E: "block_fn E" and l: "length iv = 16"
  shows "\<exists>ks'. run (ctr_step E) ((iv, ks), 0) xs =
    (((ctr_add (blocks16 (length xs)) iv, ks'), length xs mod 16), xor_bytes xs (keystream E iv (blocks16 (length xs))))"
proof -
  define q where "q = length xs div 16"
  define us where "us = take (16 * q) xs"
  define vs where "vs = drop (16 * q) xs"
  have xs: "xs = us @ vs" by (simp add: us_def vs_def)
  have lu: "length us = 16 * q" and lx: "length xs = 16 * q + length vs" and lv: "length vs < 16"
    by (auto simp: us_def vs_def q_def minus_mult_div_eq_mod)
  have "\<exists>k1. run (ctr_step E) ((iv, ks), 0) us = (((ctr_add q iv, k1), 0), xor_bytes us (keystream E iv q))"
  proof (cases "q = 0")
    case True
    then show ?thesis using lu l by (simp add: ctr_add_0)
  next
    case False
    then show ?thesis using run_ctr_blocks [OF E l, of q us ks] lu by simp
  qed
  then obtain k1 where r1: "run (ctr_step E) ((iv, ks), 0) us = (((ctr_add q iv, k1), 0), xor_bytes us (keystream E iv q))"
    by blast
  show ?thesis
  proof (cases "vs = []")
    case True
    then have "blocks16 (length xs) = q" "length xs mod 16 = 0" using lx by (simp_all add: blocks16_def)
    then show ?thesis using r1 xs True by auto
  next
    case False
    then obtain v where v: "length vs = Suc v" by (cases vs) auto
    have "length xs + 15 = v + Suc q * 16" using lx v by simp
    then have b: "blocks16 (length xs) = Suc q" "length xs mod 16 = length vs"
      unfolding blocks16_def using lv lx v by (simp_all only: div_mult_self1 mod_mult_self1) simp_all
    have "run (ctr_step E) ((ctr_add q iv, k1), 0) vs =
        (((ctr_add 1 (ctr_add q iv), E (ctr_add q iv)), length vs mod 16), xor_bytes vs (E (ctr_add q iv)))"
      using run_keystream_block [of vs snd "ctr_refill E" "(ctr_add q iv, k1)"] False lv E
      by (simp add: ctr_step_def ctr_refill_def)
    then have "run (ctr_step E) ((iv, ks), 0) (us @ vs) =
        (((ctr_add (Suc q) iv, E (ctr_add q iv)), length vs), xor_bytes (us @ vs) (keystream E iv (Suc q)))"
      using r1 lu lv length_keystream [OF E, of iv q]
      by (simp add: run_append ctr_add_add keystream_Suc xor_bytes_append)
    then show ?thesis unfolding b xs [symmetric] by blast
  qed
qed

text \<open>What the two counter mode functions leave in the memory.\<close>

definition ctr_effect :: "(bytes \<Rightarrow> bytes) \<Rightarrow> nat \<Rightarrow> nat \<Rightarrow> memory \<Rightarrow> nat \<Rightarrow> nat \<Rightarrow> nat \<Rightarrow> memory \<Rightarrow> bool" where
  "ctr_effect E st pb m inp out len m' \<longleftrightarrow>
     rd m' out len = xor_bytes (rd m inp len) (keystream E (rd m st 16) (blocks16 len)) \<and>
     rd m' st 16 = ctr_add (blocks16 len) (rd m st 16) \<and>
     (\<forall>x. apart st 16 x 1 \<longrightarrow> apart pb 16 x 1 \<longrightarrow> apart out len x 1 \<longrightarrow> m' x = m x)"

lemma ctr_effect_put:
  assumes E: "block_fn E" and ap: "apart st 16 pb 16" and c: "ctr_clear st pb out len" and ks: "length ks = 16"
  shows "ctr_effect E st pb m inp out len
    (put_ctr st pb (ctr_add (blocks16 len) (rd m st 16), ks)
      (wr m out (xor_bytes (rd m inp len) (keystream E (rd m st 16) (blocks16 len)))))"
proof -
  let ?s = "(ctr_add (blocks16 len) (rd m st 16), ks)"
  let ?ys = "xor_bytes (rd m inp len) (keystream E (rd m st 16) (blocks16 len))"
  have "len \<le> 16 * blocks16 len" by (simp add: blocks16_def)
  then have ly: "length ?ys = len" by (simp add: length_keystream [OF E])
  have wf: "ctr_wf ?s" using ks by (simp add: ctr_wf_def)
  have u: "case (E, st, pb) of (E, ivec, ec) \<Rightarrow> block_fn E \<and> apart ivec 16 ec 16" using E ap by simp
  let ?m = "put_ctr st pb ?s (wr m out ?ys)"
  have "rd ?m out len = ?ys" using ctrs.rd_put [of "(E, st, pb)" out len ?s] c wf ly by simp
  moreover have "get_ctr st pb ?m = ?s" using ctrs.get_put [OF u wf] by simp
  then have "rd ?m st 16 = ctr_add (blocks16 len) (rd m st 16)" by (simp add: get_ctr_def)
  moreover have "?m x = m x" if "apart st 16 x 1" "apart pb 16 x 1" "apart out len x 1" for x
    using that ly ks by (auto simp: put_ctr_def wr_def apart_def)
  ultimately show ?thesis by (simp add: ctr_effect_def)
qed

lemma ctr_effect_ctr:
  assumes e: "block_fn E" "apart st 16 pb 16" and ah: "ahead inp out len"
    and c: "ctr_clear st pb inp len" "ctr_clear st pb out len"
  shows "ctr_effect E st pb m inp out len (fst (CRYPTO_ctr128_encrypt strict E st pb m inp out len 0))"
    and "ctr32_fn E F \<Longrightarrow>
      ctr_effect E st pb m inp out len (fst (CRYPTO_ctr128_encrypt_ctr32 F st pb m inp out len 0))"
proof -
  let ?iv = "rd m st 16" and ?ks = "rd m pb 16"
  obtain ks where r: "run (ctr_step E) ((?iv, ?ks), 0) (rd m inp len) =
      (((ctr_add (blocks16 len) ?iv, ks), len mod 16), xor_bytes (rd m inp len) (keystream E ?iv (blocks16 len)))"
    using run_ctr_any [OF e(1), of ?iv ?ks "rd m inp len"] by auto
  have u: "case (E, st, pb) of (E, ivec, ec) \<Rightarrow> block_fn E \<and> apart ivec 16 ec 16" using e by simp
  have "ctr_wf (ctr_add (blocks16 len) ?iv, ks)"
    using ctrs.wf_run [of "(E, st, pb)", unfolded prod.case, OF conjI [OF e] _ _ r] by (simp add: ctr_wf_def)
  then have lk: "length ks = 16" by (simp add: ctr_wf_def)
  let ?ys = "xor_bytes (rd m inp len) (keystream E ?iv (blocks16 len))"
  have s: "streamed (ctr_step E) (get_ctr st pb) (put_ctr st pb) m inp out len 0 =
      (put_ctr st pb (ctr_add (blocks16 len) ?iv, ks) (wr m out ?ys), len mod 16)"
    by (simp add: streamed_def get_ctr_def r)
  show "ctr_effect E st pb m inp out len (fst (CRYPTO_ctr128_encrypt strict E st pb m inp out len 0))"
    using ctr_code [OF e _ ah c, of 0] ctr_effect_put [OF e c(2) lk, of m inp] by (simp add: s)
  assume F: "ctr32_fn E F"
  have "wr (put_ctr st pb (ctr_add (blocks16 len) ?iv, ks) (wr m out ?ys)) pb ?ks =
      put_ctr st pb (ctr_add (blocks16 len) ?iv, ?ks) (wr m out ?ys)"
    using lk by (simp add: put_ctr_def)
  then show "ctr_effect E st pb m inp out len (fst (CRYPTO_ctr128_encrypt_ctr32 F st pb m inp out len 0))"
    using ctr32_code [OF e F _ ah c, of 0 m] ctr_effect_put [OF e c(2) lk, of m inp]
      ctr_effect_put [OF e c(2), of ?ks m inp] by (simp add: s)
qed

section \<open>The authentication tag\<close>

text \<open>The CBC-MAC of data from a chaining value: the last ciphertext block.\<close>

definition cbc_mac :: "(bytes \<Rightarrow> bytes) \<Rightarrow> bytes \<Rightarrow> bytes \<Rightarrow> bytes" where
  "cbc_mac E c xs = last_block c (cbc_enc E c xs)"

definition pad_block16 :: "bytes \<Rightarrow> bytes" where
  "pad_block16 xs = take 16 (xs @ replicate 16 0)"

lemma length_pad_block16 [simp]: "length (pad_block16 xs) = 16"
  by (simp add: pad_block16_def)

lemma pad_block16_full: "16 \<le> length xs \<Longrightarrow> pad_block16 xs = take 16 xs"
  by (simp add: pad_block16_def)

lemma cbc_mac_Nil [simp]: "cbc_mac E c [] = c"
  by (simp add: cbc_mac_def)

lemma length_cbc_mac [simp]: "length (cbc_mac E c xs) = length c"
  by (simp add: cbc_mac_def)

lemma cbc_mac_step:
  assumes "block_fn E" "length c = 16" "xs \<noteq> []"
  shows "cbc_mac E c xs = cbc_mac E (E (xor_bytes (pad_block16 xs) c)) (drop 16 xs)"
proof -
  let ?c = "E (xor_bytes (pad_block16 xs) c)"
  have "length ?c = 16" using assms(1,2) by simp
  moreover have "cbc_enc E c xs = ?c @ cbc_enc E ?c (drop 16 xs)"
    using assms(3) by (subst cbc_enc.simps) (simp add: pad_block16_def Let_def)
  ultimately show ?thesis using assms(2) by (simp add: cbc_mac_def last_block_append)
qed

lemma ccm_absorb_eq:
  "length c = 16 \<Longrightarrow> i \<le> 16 \<Longrightarrow>
   ccm_absorb c i xs = (take i c @ xor_bytes (take (16 - i) (xs @ replicate 16 0)) (drop i c), drop (16 - i) xs)"
proof (induction c i xs rule: ccm_absorb.induct)
  case (1 c i)
  have "xor_bytes (replicate (16 - i) 0) (drop i c) = drop i c"
    using 1 by (intro nth_equalityI) auto
  then show ?case using 1 by (simp add: min_def)
next
  case (2 c i a xs)
  show ?case
  proof (cases "i < 16")
    case True
    let ?v = "c ! i XOR a"
    have d: "drop i c = c ! i # drop (i + 1) c" using True 2(2) Cons_nth_drop_Suc [of i c] by simp
    have t: "take (i + 1) (c[i := ?v]) = take i c @ [?v]"
      using True 2(2) by (simp add: take_Suc_conv_app_nth)
    have n: "16 - i = Suc (16 - (i + 1))" using True by simp
    have "xor_bytes (take (16 - i) ((a # xs) @ replicate 16 0)) (drop i c) =
        ?v # xor_bytes (take (16 - (i + 1)) (xs @ replicate 16 0)) (drop (i + 1) c)"
      unfolding n d by (simp add: xor_bytes_def xor.commute)
    moreover have "ccm_absorb (c[i := ?v]) (i + 1) xs =
        (take (i + 1) (c[i := ?v]) @ xor_bytes (take (16 - (i + 1)) (xs @ replicate 16 0)) (drop (i + 1) (c[i := ?v])),
         drop (16 - (i + 1)) xs)"
      using 2(1) [OF True] 2(2) True by simp
    moreover have "drop (16 - i) (a # xs) = drop (16 - (i + 1)) xs" unfolding n by simp
    ultimately show ?thesis using True t by (simp del: drop_Suc_Cons)
  next
    case False
    then show ?thesis using 2(2,3) by simp
  qed
qed

lemma ccm_absorb_0: "length c = 16 \<Longrightarrow> ccm_absorb c 0 xs = (xor_bytes (pad_block16 xs) c, drop 16 xs)"
  by (simp add: ccm_absorb_eq pad_block16_def)

lemma ccm_absorb_append:
  "i + length xs \<le> 16 \<Longrightarrow> ccm_absorb c i (xs @ ys) = ccm_absorb (fst (ccm_absorb c i xs)) (i + length xs) ys"
  by (induction xs arbitrary: c i) auto

lemma blocks16_step: "xs \<noteq> [] \<Longrightarrow> blocks16 (length xs) = Suc (blocks16 (length (drop 16 xs)))"
proof -
  assume "xs \<noteq> []"
  then obtain v where v: "length xs = Suc v" by (cases xs) auto
  show ?thesis
  proof (cases "16 \<le> length xs")
    case True
    then have "length xs + 15 = (length xs - 16 + 15) + 16" by simp
    then show ?thesis by (simp add: blocks16_def)
  next
    case False
    then show ?thesis using v by (simp add: blocks16_def)
  qed
qed

lemma ccm_aad_loop_eq:
  assumes E: "block_fn E"
  shows "length c = 16 \<Longrightarrow> ccm_aad_loop E c aad b = (cbc_mac E c aad, b + blocks16 (length aad))"
proof (induction aad arbitrary: c b rule: length_induct)
  case (1 aad)
  show ?case
  proof (cases "aad = []")
    case True
    then show ?thesis by (simp add: ccm_aad_loop.simps blocks16_def)
  next
    case False
    let ?c = "E (xor_bytes (pad_block16 aad) c)"
    have l: "length ?c = 16" using E 1(2) by simp
    have "length (drop 16 aad) < length aad" using False by simp
    then have "ccm_aad_loop E ?c (drop 16 aad) (b + 1) = (cbc_mac E ?c (drop 16 aad), b + 1 + blocks16 (length (drop 16 aad)))"
      using 1(1) l by blast
    then show ?thesis
      using False cbc_mac_step [OF E 1(2) False] blocks16_step [OF False]
      by (subst ccm_aad_loop.simps) (simp add: ccm_absorb_0 [OF 1(2)])
  qed
qed

lemma length_ccm_aad_prefix: "length (ccm_aad_prefix n) \<le> 10" "0 < length (ccm_aad_prefix n)"
  by (simp_all add: ccm_aad_prefix_def)

text \<open>The chaining value after the first block and the associated data.\<close>

lemma ccm_aad_eq:
  fixes aad :: bytes
  assumes E: "block_fn E" and c: "length c = 16"
  defines "pre \<equiv> ccm_aad_prefix (length aad)"
  shows "ccm_aad_mac E c aad = (cbc_mac E c (if aad = [] then [] else pre @ aad),
    1 + (if aad = [] then 0 else blocks16 (length pre + length aad)))"
proof (cases "aad = []")
  case True
  then show ?thesis by (simp add: ccm_aad_mac_def)
next
  case a: False
  have pl: "length pre \<le> 16" and ne: "pre @ aad \<noteq> []"
    using length_ccm_aad_prefix [of "length aad"] a by (auto simp: pre_def)
  have ab: "ccm_absorb (fst (ccm_absorb c 0 pre)) (length pre) aad = ccm_absorb c 0 (pre @ aad)"
    using ccm_absorb_append [of 0 pre c aad] pl by simp
  have "ccm_aad_loop E c (pre @ aad) 1 = (let (c, aad) = ccm_absorb c 0 (pre @ aad) in ccm_aad_loop E (E c) aad 2)"
    by (subst ccm_aad_loop.simps) (simp only: ne if_False one_add_one)
  then show ?thesis
    using ccm_aad_loop_eq [OF E c, of "pre @ aad" 1] a
    by (simp add: ccm_aad_mac_def pre_def [symmetric] split_beta ab Let_def)
qed

lemma ccm_mac_loop_eq:
  assumes E: "block_fn E"
  shows "length c = 16 \<Longrightarrow> ccm_mac_loop E c data = (c', d) \<Longrightarrow>
    (if length d > 0 then E (fst (ccm_absorb c' 0 d)) else c') = cbc_mac E c data"
proof (induction data arbitrary: c rule: length_induct)
  case (1 data)
  show ?case
  proof (cases "16 \<le> length data")
    case True
    let ?c = "E (xor_bytes (pad_block16 data) c)"
    have ne: "data \<noteq> []" using True by auto
    have l: "length ?c = 16" using E 1(2) by simp
    have "xor_bytes c (take 16 data) = xor_bytes (pad_block16 data) c"
      using pad_block16_full [OF True] by (simp add: xor_bytes_commute)
    then have "ccm_mac_loop E ?c (drop 16 data) = (c', d)"
      using 1(3) True by (subst (asm) ccm_mac_loop.simps) simp
    moreover have "length (drop 16 data) < length data" using True by simp
    ultimately have "(if length d > 0 then E (fst (ccm_absorb c' 0 d)) else c') = cbc_mac E ?c (drop 16 data)"
      using 1(1) l by blast
    then show ?thesis using cbc_mac_step [OF E 1(2) ne] by simp
  next
    case False
    then have d: "c' = c" "d = data" using 1(3) by (simp_all add: ccm_mac_loop.simps)
    show ?thesis
    proof (cases "data = []")
      case False
      then show ?thesis
        using cbc_mac_step [OF E 1(2) False] \<open>\<not> 16 \<le> length data\<close> d by (simp add: ccm_absorb_0 [OF 1(2)])
    qed (simp add: d)
  qed
qed

section \<open>The mode\<close>

text \<open>
  What the mode is: the tag is the CBC-MAC of the first block, the associated data with its
  prefix, and the plaintext, combined with the encrypted counter block 0; the data is combined
  with the keystream that starts at counter block 1.
\<close>

definition ccm_tag :: "ccm128_context \<Rightarrow> bytes \<Rightarrow> bytes \<Rightarrow> bytes \<Rightarrow> bytes" where
  "ccm_tag ctx nonce aad xs =
     (let E = ccm_block ctx;
          b0 = ccm_first_block ctx nonce (length aad) (length xs);
          c = cbc_mac E (E b0) (if aad = [] then [] else ccm_aad_prefix (length aad) @ aad);
          c = cbc_mac E c xs
      in take (ccm_M ctx) (xor_bytes c (E (ccm_counter (ccm_L ctx) (b0[0 := b0 ! 0 AND 7]) 0))))"

definition ccm_data :: "ccm128_context \<Rightarrow> bytes \<Rightarrow> bytes \<Rightarrow> bytes \<Rightarrow> bytes" where
  "ccm_data ctx nonce aad xs =
     (let b0 = ccm_first_block ctx nonce (length aad) (length xs)
      in xor_bytes xs (keystream (ccm_block ctx) (ccm_counter (ccm_L ctx) (b0[0 := b0 ! 0 AND 7]) 1) (blocks16 (length xs))))"

text \<open>The inputs the mode accepts: the limits on the lengths and on the block operations.\<close>

definition ccm_accepts :: "ccm128_context \<Rightarrow> bytes \<Rightarrow> bytes \<Rightarrow> nat \<Rightarrow> bool" where
  "ccm_accepts ctx nonce aad len \<longleftrightarrow>
     len \<le> CRYPTO_ccm128_max_input ctx \<and> length nonce = 15 - ccm_L ctx \<and> len + 15 < 2 ^ 64 \<and>
     2 * blocks16 len + 1 + (1 + (if aad = [] then 0 else blocks16 (length (ccm_aad_prefix (length aad)) + length aad))) \<le> 2 ^ 61"

definition ccm_context_ok :: "ccm128_context \<Rightarrow> bool" where
  "ccm_context_ok ctx \<longleftrightarrow>
     block_fn (ccm_block ctx) \<and> 2 \<le> ccm_L ctx \<and> ccm_L ctx \<le> 8 \<and> 4 \<le> ccm_M ctx \<and> ccm_M ctx \<le> 16 \<and>
     (\<forall>F. ccm_ctr ctx = Some F \<longrightarrow> ctr32_fn (ccm_block ctx) F)"

lemma length_first_block: "length nonce = 15 - ccm_L ctx \<Longrightarrow> length (ccm_first_block ctx nonce a n) = 16"
  by (simp add: ccm_first_block_def Let_def)

lemma ccm_init_state_eq:
  assumes ctx: "ccm_context_ok ctx" and len: "len < 2 ^ 64" and aad: "length aad < 2 ^ 64"
  shows "ccm128_init_state ctx nonce aad len =
    (if ccm_accepts ctx nonce aad len
     then (let b0 = ccm_first_block ctx nonce (length aad) len; E = ccm_block ctx
           in Some \<lparr>st_nonce = b0[0 := b0 ! 0 AND 7],
                     st_cmac = cbc_mac E (E b0) (if aad = [] then [] else ccm_aad_prefix (length aad) @ aad)\<rparr>)
     else None)"
proof (cases "len \<le> CRYPTO_ccm128_max_input ctx \<and> length nonce = 15 - ccm_L ctx")
  case False
  then show ?thesis by (auto simp: ccm128_init_state_def ccm_accepts_def)
next
  case True
  let ?b0 = "ccm_first_block ctx nonce (length aad) len" and ?E = "ccm_block ctx"
  let ?pre = "ccm_aad_prefix (length aad)"
  let ?blocks = "1 + (if aad = [] then 0 else blocks16 (length ?pre + length aad))"
  let ?mac = "cbc_mac ?E (?E ?b0) (if aad = [] then [] else ?pre @ aad)"
  have E: "block_fn ?E" using ctx by (simp add: ccm_context_ok_def)
  have l0: "length (?E ?b0) = 16" using E True by (simp add: length_first_block)
  have mac: "ccm_aad_mac ?E (?E ?b0) aad = (?mac, ?blocks)" by (rule ccm_aad_eq [OF E l0])
  have pl: "length ?pre \<le> 10" by (rule length_ccm_aad_prefix)
  have "length ?pre + length aad + 15 \<le> 2 ^ 64 + 25" using aad pl by simp
  from div_le_mono [OF this, of 16] have b1: "?blocks \<le> 2 ^ 60 + 2" by (simp add: blocks16_def)
  let ?rem = "sz (2 * (sz (len + 15) div 16) + 1)"
  have cond: "(sz (len + 15) < len \<or> sz (?rem + ?blocks) < ?blocks \<or> sz (?rem + ?blocks) > 2 ^ 61) \<longleftrightarrow>
      \<not> (len + 15 < 2 ^ 64 \<and> 2 * blocks16 len + 1 + ?blocks \<le> 2 ^ 61)"
  proof (cases "len + 15 < 2 ^ 64")
    case True
    then have s: "sz (len + 15) = len + 15" by (intro sz_id) simp
    have "2 * blocks16 len + 1 \<le> 2 ^ 61 + 3" using True by (simp add: blocks16_def)
    moreover from this have "?rem = 2 * blocks16 len + 1" unfolding s blocks16_def by (intro sz_id) simp
    moreover from calculation b1 have "sz (?rem + ?blocks) = ?rem + ?blocks" by (intro sz_id) simp
    ultimately show ?thesis using True s by auto
  next
    case False
    have "sz (len + 15) < len" using False len sz_add_overflow [of len 15] by (simp add: sz_def)
    then show ?thesis using False by simp
  qed
  have "ccm128_init_state ctx nonce aad len =
      (if sz (len + 15) < len \<or> sz (?rem + ?blocks) < ?blocks \<or> sz (?rem + ?blocks) > 2 ^ 61 then None
       else Some \<lparr>st_nonce = ?b0[0 := ?b0 ! 0 AND 7], st_cmac = ?mac\<rparr>)"
  proof -
    have "\<not> (CRYPTO_ccm128_max_input ctx < len \<or> length nonce \<noteq> 15 - ccm_L ctx)" using True by auto
    then show ?thesis unfolding ccm128_init_state_def by (simp only: if_False Let_def mac prod.case)
  qed
  then show ?thesis
    unfolding cond using True by (auto simp: ccm_accepts_def Let_def)
qed

text \<open>The buffers of a call: the locals are apart from each other and from the data.\<close>

definition ccm_buffers :: "nat \<Rightarrow> nat \<Rightarrow> nat \<Rightarrow> nat \<Rightarrow> nat \<Rightarrow> bool" where
  "ccm_buffers st pb inp out len \<longleftrightarrow>
     apart st 16 pb 16 \<and> ahead inp out len \<and> ctr_clear st pb inp len \<and> ctr_clear st pb out len"

definition ccm_frame :: "nat \<Rightarrow> nat \<Rightarrow> nat \<Rightarrow> nat \<Rightarrow> memory \<Rightarrow> memory \<Rightarrow> bool" where
  "ccm_frame st pb out len m m' \<longleftrightarrow>
     (\<forall>x. apart st 16 x 1 \<longrightarrow> apart pb 16 x 1 \<longrightarrow> apart out len x 1 \<longrightarrow> m' x = m x)"

lemma ccm128_encrypt_eq:
  assumes ctx: "ccm_context_ok ctx" and n: "length (st_nonce state) = 16" and b: "ccm_buffers st pb inp out len"
    and r: "ccm128_encrypt strict ctx st pb state m out inp len = (state', m')"
  shows "rd m' out len = xor_bytes (rd m inp len)
      (keystream (ccm_block ctx) (ccm_counter (ccm_L ctx) (st_nonce state) 1) (blocks16 len)) \<and>
    state' = state\<lparr>st_nonce := ctr_add (blocks16 len) (ccm_counter (ccm_L ctx) (st_nonce state) 1)\<rparr> \<and>
    ccm_frame st pb out len m m'"
proof -
  let ?E = "ccm_block ctx" and ?c = "ccm_counter (ccm_L ctx) (st_nonce state) 1"
  let ?m = "wr m st ?c"
  have L: "0 < ccm_L ctx" "ccm_L ctx \<le> 16" and E: "block_fn ?E" using ctx by (auto simp: ccm_context_ok_def)
  have c: "(set_low (ccm_L ctx) (\<lambda>i. 0) (st_nonce state))[15 := 1] = ?c" by (rule set_low_1 [OF n L])
  have lc: "length ?c = 16" using n L by simp
  have ap: "apart st 16 pb 16" "ahead inp out len" "ctr_clear st pb inp len" "ctr_clear st pb out len"
    using b by (simp_all add: ccm_buffers_def)
  define m2 where "m2 = fst (case ccm_ctr ctx of
      Some F \<Rightarrow> CRYPTO_ctr128_encrypt_ctr32 F st pb ?m inp out len 0
    | None \<Rightarrow> CRYPTO_ctr128_encrypt strict ?E st pb ?m inp out len 0)"
  have eff: "ctr_effect ?E st pb ?m inp out len m2"
    using ctr_effect_ctr [OF E ap, where m = ?m] ctx by (auto simp: m2_def ccm_context_ok_def split: option.splits)
  have i: "rd ?m inp len = rd m inp len"
    using ap(3) lc by (intro rd_wr_apart) (simp add: ctr_clear_def apart_sym)
  have s: "rd ?m st 16 = ?c" using lc by simp
  have res: "m' = m2" "state' = state\<lparr>st_nonce := rd m2 st 16\<rparr>"
    using r unfolding ccm128_encrypt_def c Let_def m2_def by (auto split: prod.splits)
  have "m2 x = m x" if "apart st 16 x 1" "apart pb 16 x 1" "apart out len x 1" for x
  proof -
    have "m2 x = ?m x" using eff that by (simp add: ctr_effect_def)
    also have "\<dots> = m x" using that(1) lc by (intro wr_out) (auto simp: apart_def)
    finally show ?thesis .
  qed
  then have "ccm_frame st pb out len m m2" unfolding ccm_frame_def by blast
  then show ?thesis using eff [unfolded ctr_effect_def i s] unfolding res by simp
qed

text \<open>The nonce block is the same after the counter mode, because the counter stays in its bytes.\<close>

lemma ccm_counter_room:
  assumes "ccm_context_ok ctx" "ccm_accepts ctx nonce aad len"
  shows "1 + blocks16 len < 256 ^ ccm_L ctx"
proof -
  let ?L = "ccm_L ctx"
  have L: "2 \<le> ?L" "?L \<le> 8" using assms(1) by (auto simp: ccm_context_ok_def)
  have p: "(256 :: nat) ^ ?L = 2 ^ (?L * 8)" by (simp add: power_mult mult.commute [of _ 8])
  have "len < 256 ^ ?L"
  proof (cases "8 \<le> ?L")
    case True
    then have "?L = 8" using L(2) by simp
    then show ?thesis using assms(2) by (simp add: ccm_accepts_def CRYPTO_ccm128_max_input_def)
  next
    case False
    have "0 < (256 :: nat) ^ ?L" by simp
    moreover have "len \<le> 256 ^ ?L - 1"
      using assms(2) False unfolding p by (simp add: ccm_accepts_def CRYPTO_ccm128_max_input_def)
    ultimately show ?thesis by linarith
  qed
  moreover have "(256 :: nat) ^ 2 \<le> 256 ^ ?L" using L(1) by (intro power_increasing) auto
  ultimately show ?thesis by (simp add: blocks16_def)
qed

lemma ccm_state_length:
  assumes "length nonce = 15 - ccm_L ctx"
  shows "length ((ccm_first_block ctx nonce a n)[0 := v]) = 16"
  by (simp add: length_first_block [OF assms])

text \<open>The tag does not depend on where the counter of the state stands.\<close>

lemma ccm_compute_mac_eq:
  assumes ctx: "ccm_context_ok ctx" and l: "length (st_nonce state) = 16" "length (st_cmac state) = 16"
  shows "ccm128_compute_mac ctx state tag_len data =
    (if tag_len = ccm_M ctx
     then Some (take tag_len (xor_bytes (cbc_mac (ccm_block ctx) (st_cmac state) data)
        (ccm_block ctx (ccm_counter (ccm_L ctx) (st_nonce state) 0))))
     else None)"
proof -
  have E: "block_fn (ccm_block ctx)" and L: "ccm_L ctx \<le> 16" using ctx by (auto simp: ccm_context_ok_def)
  obtain c' d where r: "ccm_mac_loop (ccm_block ctx) (st_cmac state) data = (c', d)" by (metis surj_pair)
  show ?thesis
    using ccm_mac_loop_eq [OF E l(2) r] set_low_0 [OF l(1) L]
    by (simp add: ccm128_compute_mac_def r Let_def)
qed

theorem ccm_encrypt_code:
  assumes ctx: "ccm_context_ok ctx" and len: "len < 2 ^ 64" "length aad < 2 ^ 64"
    and b: "ccm_buffers st pb inp out len"
    and r: "CRYPTO_ccm128_encrypt strict ctx st pb m out tag_len nonce inp len aad = (m', res)"
  shows "if ccm_accepts ctx nonce aad len \<and> tag_len = ccm_M ctx
    then res = Some (ccm_tag ctx nonce aad (rd m inp len)) \<and>
      rd m' out len = ccm_data ctx nonce aad (rd m inp len) \<and> ccm_frame st pb out len m m'
    else res = None \<and> m' = m"
proof (cases "ccm_accepts ctx nonce aad len")
  case False
  then show ?thesis using r by (simp add: CRYPTO_ccm128_encrypt_def ccm_init_state_eq [OF ctx len])
next
  case True
  have E: "block_fn (ccm_block ctx)" using ctx by (simp add: ccm_context_ok_def)
  have ln: "length nonce = 15 - ccm_L ctx" using True by (simp add: ccm_accepts_def)
  let ?b0 = "ccm_first_block ctx nonce (length aad) len"
  define state where "state = \<lparr>st_nonce = ?b0[0 := ?b0 ! 0 AND 7],
    st_cmac = cbc_mac (ccm_block ctx) (ccm_block ctx ?b0) (if aad = [] then [] else ccm_aad_prefix (length aad) @ aad)\<rparr>"
  have i: "ccm128_init_state ctx nonce aad len = Some state"
    using True by (simp add: ccm_init_state_eq [OF ctx len] state_def Let_def)
  have l: "length (st_nonce state) = 16" "length (st_cmac state) = 16"
    using E by (simp_all add: state_def length_first_block [OF ln])
  note mac = ccm_compute_mac_eq [OF ctx l, where data = "rd m inp len"]
  obtain s2 m2 where e: "ccm128_encrypt strict ctx st pb state m out inp len = (s2, m2)" by (metis surj_pair)
  have "(m', res) = (if tag_len = ccm_M ctx
      then (m2, Some (take tag_len (xor_bytes (cbc_mac (ccm_block ctx) (st_cmac state) (rd m inp len))
        (ccm_block ctx (ccm_counter (ccm_L ctx) (st_nonce state) 0)))))
      else (m, None))"
    using r by (cases "tag_len = ccm_M ctx") (auto simp: CRYPTO_ccm128_encrypt_def i mac e)
  then show ?thesis
    using True ccm128_encrypt_eq [OF ctx l(1) b e]
    by (cases "tag_len = ccm_M ctx") (simp_all add: ccm_tag_def ccm_data_def state_def Let_def)
qed

theorem ccm_decrypt_code:
  assumes ctx: "ccm_context_ok ctx" and len: "len < 2 ^ 64" "length aad < 2 ^ 64"
    and b: "ccm_buffers st pb inp out len"
    and r: "CRYPTO_ccm128_decrypt strict ctx st pb m out tag_len nonce inp len aad = (m', res)"
  shows "if ccm_accepts ctx nonce aad len
    then rd m' out len = ccm_data ctx nonce aad (rd m inp len) \<and> ccm_frame st pb out len m m' \<and>
      res = (if tag_len = ccm_M ctx then Some (ccm_tag ctx nonce aad (rd m' out len)) else None)
    else res = None \<and> m' = m"
proof (cases "ccm_accepts ctx nonce aad len")
  case False
  then show ?thesis using r by (simp add: CRYPTO_ccm128_decrypt_def ccm_init_state_eq [OF ctx len])
next
  case True
  have E: "block_fn (ccm_block ctx)" and L: "ccm_L ctx \<le> 16" using ctx by (auto simp: ccm_context_ok_def)
  have ln: "length nonce = 15 - ccm_L ctx" using True by (simp add: ccm_accepts_def)
  let ?b0 = "ccm_first_block ctx nonce (length aad) len"
  define state where "state = \<lparr>st_nonce = ?b0[0 := ?b0 ! 0 AND 7],
    st_cmac = cbc_mac (ccm_block ctx) (ccm_block ctx ?b0) (if aad = [] then [] else ccm_aad_prefix (length aad) @ aad)\<rparr>"
  have i: "ccm128_init_state ctx nonce aad len = Some state"
    using True by (simp add: ccm_init_state_eq [OF ctx len] state_def Let_def)
  have l: "length (st_nonce state) = 16" "length (st_cmac state) = 16"
    using E by (simp_all add: state_def length_first_block [OF ln])
  obtain s2 m2 where e: "ccm128_encrypt strict ctx st pb state m out inp len = (s2, m2)" by (metis surj_pair)
  note enc = ccm128_encrypt_eq [OF ctx l(1) b e]
  have s2: "s2 = state\<lparr>st_nonce := ccm_counter (ccm_L ctx) (st_nonce state) (1 + blocks16 len)\<rparr>"
    using enc ctr_add_ccm [OF l(1) L ccm_counter_room [OF ctx True]] by simp
  have l2: "length (st_nonce s2) = 16" "length (st_cmac s2) = 16" using l L by (simp_all add: s2)
  have c0: "ccm_counter (ccm_L ctx) (st_nonce s2) 0 = ccm_counter (ccm_L ctx) (st_nonce state) 0"
    using ccm_counter_counter [OF l(1) L] by (simp add: s2)
  have cm: "st_cmac s2 = st_cmac state" by (simp add: s2)
  have res: "m' = m2" "res = ccm128_compute_mac ctx s2 tag_len (rd m2 out len)"
    using r by (auto simp: CRYPTO_ccm128_decrypt_def i e)
  have tag: "take (ccm_M ctx) (xor_bytes (cbc_mac (ccm_block ctx) (st_cmac state) (rd m2 out len))
      (ccm_block ctx (ccm_counter (ccm_L ctx) (st_nonce state) 0))) = ccm_tag ctx nonce aad (rd m2 out len)"
    by (simp add: ccm_tag_def state_def Let_def)
  have data: "xor_bytes (rd m inp len) (keystream (ccm_block ctx) (ccm_counter (ccm_L ctx) (st_nonce state) 1) (blocks16 len)) =
      ccm_data ctx nonce aad (rd m inp len)"
    by (simp add: ccm_data_def state_def Let_def)
  have "ccm128_compute_mac ctx s2 tag_len (rd m2 out len) =
      (if tag_len = ccm_M ctx then Some (ccm_tag ctx nonce aad (rd m2 out len)) else None)"
    unfolding ccm_compute_mac_eq [OF ctx l2] c0 cm tag [symmetric] by (cases "tag_len = ccm_M ctx") simp_all
  then show ?thesis
    using True enc unfolding res data by simp
qed

lemma ccm_data_inverse:
  assumes "ccm_context_ok ctx"
  shows "ccm_data ctx nonce aad (ccm_data ctx nonce aad xs) = xs"
    and "length (ccm_data ctx nonce aad xs) = length xs"
proof -
  have E: "block_fn (ccm_block ctx)" using assms by (simp add: ccm_context_ok_def)
  have "length xs \<le> 16 * blocks16 (length xs)" by (simp add: blocks16_def)
  then have l: "length (xor_bytes xs (keystream (ccm_block ctx) iv (blocks16 (length xs)))) = length xs" for iv
    by (simp add: length_keystream [OF E])
  show "length (ccm_data ctx nonce aad xs) = length xs" by (simp only: ccm_data_def Let_def l)
  show "ccm_data ctx nonce aad (ccm_data ctx nonce aad xs) = xs"
    unfolding ccm_data_def Let_def l
    by (rule xor_bytes_cancel) (simp add: length_keystream [OF E] blocks16_def)
qed

end
