(* ===== verification/Mode_Props.thy ===== *)
theory Mode_Props
  imports Cfb Ccm
begin

text \<open>
  The properties of the block cipher modes, stated over the functions of
  crypto/fipsmodule/modes. The buffers are addresses in one memory: input and output may overlap
  as far as the code allows, and what a caller stores in between is any memory that agrees on the
  bytes that are read. The instances use a cipher that reverses the block.
\<close>

lemma rev_block [simp]: "block_fn rev" "inverse_block rev rev"
  by (simp_all add: block_fn_def inverse_block_def)

text \<open>C35: Decrypting in CBC mode what was encrypted in CBC mode gives the plaintext, and both leave
  the same vector: for every length, where the encryption may work in place or write behind its
  input, the ciphertext may have been moved, and the decryption may work in place, write any
  distance behind its input, or far from it, which decides the loop it takes.\<close>

theorem cbc_roundtrip:
  assumes "block_fn E" "block_fn D" "inverse_block D E"
    and "ahead inp out len" "apart ivec 16 out (round16 len)"
    and "m1 = CRYPTO_cbc128_encrypt strict E m inp out len ivec"
    and "rd m' c (round16 len) = rd m1 out (round16 len)" "rd m' ivec' 16 = rd m ivec 16"
    and "out' \<le> c \<or> c + round16 len \<le> out'" "apart ivec' 16 c (round16 len)" "apart ivec' 16 out' len"
    and "m2 = CRYPTO_cbc128_decrypt strict' D m' c out' len ivec'"
  shows "rd m2 out' len = rd m inp len \<and> rd m2 ivec' 16 = rd m1 ivec 16"
proof -
  let ?iv = "rd m ivec 16"
  let ?ys = "cbc_enc E ?iv (rd m inp len)"
  have e: "length ?ys = round16 len" "take len (cbc_dec D ?iv ?ys) = rd m inp len"
    using cbc_dec_enc [OF assms(1,3), of ?iv "rd m inp len"] by simp_all
  have m1: "m1 = wr (wr m out ?ys) ivec (last_block ?iv ?ys)"
    using cbc_encrypt_code [OF assms(1,4,5), of strict m] assms(6) by (simp add: Let_def)
  have "rd m1 out (round16 len) = rd (wr m out ?ys) out (round16 len)"
    unfolding m1 using assms(5) by (intro rd_wr_apart) (simp add: apart_sym)
  then have c: "rd m' c (round16 len) = ?ys" using assms(7) e(1) by simp
  have m2: "m2 = wr (wr m' out' (rd m inp len)) ivec' (last_block ?iv ?ys)"
    using cbc_decrypt_code [OF assms(2,9-11), of strict' m'] assms(8,12) e(2) c by (simp add: Let_def)
  have "rd m2 out' len = rd m inp len"
    unfolding m2 using assms(11) by (subst rd_wr_apart) (simp_all add: apart_sym)
  moreover have "rd m2 ivec' 16 = last_block ?iv ?ys" by (simp add: m2)
  moreover have "rd m1 ivec 16 = last_block ?iv ?ys" by (simp add: m1)
  ultimately show ?thesis by simp
qed

text \<open>Twenty bytes, encrypted in place; decrypted in place with a copy of the vector.\<close>

theorem cbc_roundtrip_witness:
  "let m = (\<lambda>x. word_of_nat x);
       m1 = CRYPTO_cbc128_encrypt True rev m 100 100 20 3;
       m' = wr m1 40 (rd m 3 16);
       m2 = CRYPTO_cbc128_decrypt False rev m' 100 100 20 40
   in rd m2 100 20 = rd m 100 20"
proof -
  let ?m = "\<lambda>x. word_of_nat x :: u8"
  let ?m1 = "CRYPTO_cbc128_encrypt True rev ?m 100 100 20 3"
  let ?m' = "wr ?m1 40 (rd ?m 3 16)"
  have r: "round16 20 = 32" by (simp add: round16_def)
  have "rd ?m' 100 (round16 20) = rd ?m1 100 (round16 20)"
    by (intro rd_wr_apart) (simp add: apart_def r)
  moreover have "rd ?m' 40 16 = rd ?m 3 16" by simp
  ultimately show ?thesis
    using cbc_roundtrip [of rev rev 100 100 20 3 ?m1 True ?m ?m' 100 40 100 _ False]
    by (simp add: ahead_def apart_def r)
qed

text \<open>C36: The counter mode function that leaves the low 32 bits of the counter to an optimised routine
  does what the plain one does, in either alignment variant: the same output, the same counter (carried
  through 128 bits although the routine wraps at 32), the same position, and the same
  \<open>ecount_buf\<close> wherever a later call can read it.\<close>

theorem ctr32_is_ctr:
  assumes "block_fn E" "ctr32_fn E F" "apart ivec 16 ec 16" "n < 16" "ahead inp out len"
    and "ctr_clear ivec ec inp len" "ctr_clear ivec ec out len"
    and "CRYPTO_ctr128_encrypt_ctr32 F ivec ec m inp out len n = (m1, n1)"
    and "CRYPTO_ctr128_encrypt strict E ivec ec m inp out len n = (m2, n2)"
  shows "n1 = n2 \<and> (if n1 = 0 then m1 = wr m2 ec (rd m ec 16) else m1 = m2)"
proof -
  obtain m' n' where s: "streamed (ctr_step E) (get_ctr ivec ec) (put_ctr ivec ec) m inp out len n = (m', n')"
    by (metis surj_pair)
  have "(m2, n2) = (m', n')" using ctr_code [OF assms(1,3-7), of strict m] assms(9) s by simp
  moreover have "(m1, n1) = (if n' = 0 then wr m' ec (rd m ec 16) else m', n')"
    using ctr32_code [OF assms(1,3,2,4-7), of m] assms(8) s by simp
  ultimately show ?thesis by simp
qed

text \<open>A routine for the block cipher of the instances, on a counter about to wrap.\<close>

definition rev_ctr :: ctr128_f where
  "rev_ctr xs b iv = xor_bytes xs (concat (map (\<lambda>i. rev (ctr32_add i iv)) [0..<b]))"

lemma rev_ctr [simp]: "ctr32_fn rev rev_ctr"
  by (simp add: ctr32_fn_def rev_ctr_def)

theorem ctr32_is_ctr_witness:
  "snd (CRYPTO_ctr128_encrypt_ctr32 rev_ctr 0 16 (\<lambda>x. 255) 100 90 40 5) =
   snd (CRYPTO_ctr128_encrypt True rev 0 16 (\<lambda>x. 255) 100 90 40 5)"
proof -
  obtain m1 n1 where 1: "CRYPTO_ctr128_encrypt_ctr32 rev_ctr 0 16 (\<lambda>x. 255) 100 90 40 5 = (m1, n1)"
    by (metis surj_pair)
  obtain m2 n2 where 2: "CRYPTO_ctr128_encrypt True rev 0 16 (\<lambda>x. 255) 100 90 40 5 = (m2, n2)"
    by (metis surj_pair)
  show ?thesis
    using ctr32_is_ctr [OF _ _ _ _ _ _ _ 1 2] by (simp add: 1 2 apart_def ahead_def ctr_clear_def)
qed

text \<open>C37: Counter mode may be applied in pieces of any lengths: two calls that pass on the counter,
  \<open>ecount_buf\<close> and the position leave the same memory and position as one call on the whole, whether
  or not the pieces are aligned and whichever loops they take.\<close>

theorem ctr_in_pieces:
  assumes "block_fn E" "apart ivec 16 ec 16" "n < 16" "ahead inp out (a + b)"
    and "ctr_clear ivec ec inp (a + b)" "ctr_clear ivec ec out (a + b)"
    and "CRYPTO_ctr128_encrypt strict E ivec ec m inp out a n = (m1, n1)"
  shows "CRYPTO_ctr128_encrypt strict E ivec ec m1 (inp + a) (out + a) b n1 =
    CRYPTO_ctr128_encrypt strict E ivec ec m inp out (a + b) n"
  using ctr.e1.code_add [of "(E, ivec, ec)" n inp out a b strict m m1 n1] assms by simp

theorem ctr_in_pieces_witness:
  "let (m1, n1) = CRYPTO_ctr128_encrypt True rev 0 16 (\<lambda>x. word_of_nat x) 100 100 21 0
   in CRYPTO_ctr128_encrypt True rev 0 16 m1 121 121 30 n1 =
      CRYPTO_ctr128_encrypt True rev 0 16 (\<lambda>x. word_of_nat x) 100 100 51 0"
proof -
  obtain m1 n1 where 1: "CRYPTO_ctr128_encrypt True rev 0 16 (\<lambda>x. word_of_nat x) 100 100 21 0 = (m1, n1)"
    by (metis surj_pair)
  show ?thesis
    using ctr_in_pieces [OF _ _ _ _ _ _ 1, of 30] by (simp add: 1 apart_def ahead_def ctr_clear_def)
qed



text \<open>C39: In the one-bit CFB mode the bits of the plaintext come back, most significant bit first, for
  every number of bits, also where input and output are the same buffer; the bits of the last byte beyond
  that number keep the values they had.\<close>

theorem cfb_bits_roundtrip:
  assumes "ahead inp out ((bits + 7) div 8)" "apart ivec 16 inp ((bits + 7) div 8)" "apart ivec 16 out ((bits + 7) div 8)"
    and "m1 = CRYPTO_cfb128_1_encrypt E ivec True m inp out bits"
    and "rd m' ivec 16 = rd m ivec 16" "rd_bits m' c bits = rd_bits m1 out bits"
    and "ahead c out' ((bits + 7) div 8)" "apart ivec 16 c ((bits + 7) div 8)" "apart ivec 16 out' ((bits + 7) div 8)"
    and "m2 = CRYPTO_cfb128_1_encrypt E ivec False m' c out' bits"
  shows "rd_bits m2 out' bits = rd_bits m inp bits \<and> rd m2 ivec 16 = rd m1 ivec 16 \<and>
    drop bits (rd_bits m2 out' (8 * ((bits + 7) div 8))) = drop bits (rd_bits m' out' (8 * ((bits + 7) div 8)))"
proof -
  obtain iv' ys where r: "run (cfb1_step True E) (rd m ivec 16) (rd_bits m inp bits) = (iv', ys)"
    by (metis surj_pair)
  have 1: "cfb1_after m ivec out bits iv' ys m1"
    using cfb1_code [OF assms(1-3) r] assms(4) by simp
  have l: "length ys = bits" using length_run [of "cfb1_step True E" "rd m ivec 16" "rd_bits m inp bits"]
    unfolding r by simp
  have "run (cfb1_step False E) (rd m' ivec 16) (rd_bits m' c bits) = (iv', rd_bits m inp bits)"
    using cfb1.run_dec_enc [OF r] cfb1_after_bits [OF 1 l assms(3)] assms(5,6) by simp
  then have 2: "cfb1_after m' ivec out' bits iv' (rd_bits m inp bits) m2"
    using cfb1_code [OF assms(7-9)] assms(10) by simp
  show ?thesis
    using cfb1_after_bits [OF 2 length_rd_bits assms(9)] cfb1_after_rest [OF 2 assms(9)] 1 2
    by (simp add: cfb1_after_def)
qed

theorem cfb_bits_roundtrip_witness:
  "let m1 = CRYPTO_cfb128_1_encrypt rev 0 True (\<lambda>x. word_of_nat x) 20 20 13;
       m2 = CRYPTO_cfb128_1_encrypt rev 0 False (wr m1 0 (rd (\<lambda>x. word_of_nat x) 0 16)) 20 20 13
   in rd_bits m2 20 13 = rd_bits (\<lambda>x. word_of_nat x) 20 13"
proof -
  define m1 where "m1 = CRYPTO_cfb128_1_encrypt rev 0 True (\<lambda>x. word_of_nat x) 20 20 13"
  define m' where "m' = wr m1 0 (rd (\<lambda>x. word_of_nat x) 0 16)"
  have "m' x = m1 x" if "16 \<le> x" for x using that by (simp add: m'_def wr_def)
  then have "rd_bits m' 20 13 = rd_bits m1 20 13"
    unfolding rd_bits_def bit_at_def by (intro map_cong refl) simp
  moreover have "rd m' 0 16 = rd (\<lambda>x. word_of_nat x) 0 16" by (simp add: m'_def)
  ultimately have "rd_bits (CRYPTO_cfb128_1_encrypt rev 0 False m' 20 20 13) 20 13 = rd_bits (\<lambda>x. word_of_nat x) 20 13"
    using cfb_bits_roundtrip [of 20 20 13 0 m1 rev "\<lambda>x. word_of_nat x" m' 20 20, OF _ _ _ m1_def]
    by (simp only: ahead_def apart_def) auto
  then show ?thesis unfolding Let_def m1_def [symmetric] m'_def [symmetric] .
qed

text \<open>C40: CCM decryption of what CCM encryption wrote, with the same nonce and associated data, gives
  the plaintext and computes the same tag, whether each side uses the plain or the optimised counter mode,
  in place or not; where the encryption reports an error it has changed nothing.\<close>

theorem ccm_roundtrip:
  assumes "ccm_context_ok ctx" "len < 2 ^ 64" "length aad < 2 ^ 64" "ccm_buffers st pb inp out len"
    and "CRYPTO_ccm128_encrypt strict ctx st pb m out tag_len nonce inp len aad = (m1, res)"
    and "rd m' c len = rd m1 out len" "ccm_buffers st' pb' c out' len"
    and "ccm_context_ok ctx'" "ccm_block ctx' = ccm_block ctx" "ccm_M ctx' = ccm_M ctx" "ccm_L ctx' = ccm_L ctx"
    and "CRYPTO_ccm128_decrypt strict' ctx' st' pb' m' out' tag_len nonce c len aad = (m2, res')"
  shows "if res = None then m1 = m else res' = res \<and> rd m2 out' len = rd m inp len"
proof -
  have acc: "ccm_accepts ctx' nonce aad len = ccm_accepts ctx nonce aad len"
    and tag: "ccm_tag ctx' = ccm_tag ctx" and data: "ccm_data ctx' = ccm_data ctx"
    by (auto simp: ccm_accepts_def CRYPTO_ccm128_max_input_def ccm_tag_def ccm_data_def ccm_first_block_def
        fun_eq_iff assms(9-11))
  note enc = ccm_encrypt_code [OF assms(1-5)]
  note dec = ccm_decrypt_code [OF assms(8,2,3,7,12)]
  show ?thesis
  proof (cases "ccm_accepts ctx nonce aad len \<and> tag_len = ccm_M ctx")
    case True
    then have e: "res = Some (ccm_tag ctx nonce aad (rd m inp len))" "rd m1 out len = ccm_data ctx nonce aad (rd m inp len)"
      using enc by simp_all
    have "rd m2 out' len = ccm_data ctx nonce aad (ccm_data ctx nonce aad (rd m inp len))"
      using dec True by (simp add: acc data assms(6) e(2))
    then have pt: "rd m2 out' len = rd m inp len" by (simp add: ccm_data_inverse(1) [OF assms(1)])
    then show ?thesis using dec True e(1) by (simp add: acc tag assms(10))
  next
    case False
    then show ?thesis using enc by auto
  qed
qed

text \<open>Forty bytes, encrypted in place with the optimised counter mode and decrypted with the plain one.\<close>

theorem ccm_roundtrip_witness:
  "let ctx = \<lparr>ccm_block = rev, ccm_ctr = Some rev_ctr, ccm_M = 8, ccm_L = 2\<rparr>;
       (m1, tag) = CRYPTO_ccm128_encrypt True ctx 0 16 (\<lambda>x. word_of_nat x) 100 8 (replicate 13 7) 100 40 [1, 2, 3];
       (m2, tag') = CRYPTO_ccm128_decrypt True (ctx\<lparr>ccm_ctr := None\<rparr>) 0 16 m1 100 8 (replicate 13 7) 100 40 [1, 2, 3]
   in tag \<noteq> None \<and> tag' = tag \<and> rd m2 100 40 = rd (\<lambda>x. word_of_nat x) 100 40"
proof -
  let ?ctx = "\<lparr>ccm_block = rev, ccm_ctr = Some rev_ctr, ccm_M = 8, ccm_L = 2\<rparr>"
  have ok: "ccm_context_ok ?ctx" "ccm_context_ok (?ctx\<lparr>ccm_ctr := None\<rparr>)" "ccm_buffers 0 16 100 100 40"
    by (simp_all add: ccm_context_ok_def ccm_buffers_def apart_def ahead_def ctr_clear_def)
  have acc: "ccm_accepts ?ctx (replicate 13 7) [1, 2, 3] 40"
    by (simp add: ccm_accepts_def CRYPTO_ccm128_max_input_def blocks16_def ccm_aad_prefix_def)
  obtain m1 t where 1: "CRYPTO_ccm128_encrypt True ?ctx 0 16 (\<lambda>x. word_of_nat x) 100 8 (replicate 13 7) 100 40 [1, 2, 3] = (m1, t)"
    by (metis surj_pair)
  obtain m2 t' where 2: "CRYPTO_ccm128_decrypt True (?ctx\<lparr>ccm_ctr := None\<rparr>) 0 16 m1 100 8 (replicate 13 7) 100 40 [1, 2, 3] = (m2, t')"
    by (metis surj_pair)
  have "t \<noteq> None" using ccm_encrypt_code [OF ok(1) _ _ ok(3) 1] acc by simp
  then show ?thesis
    using ccm_roundtrip [OF ok(1) _ _ ok(3) 1 _ ok(3,2) _ _ _ 2] unfolding Let_def 1 2 prod.case by simp
qed

end
