(* ===== verification/Pb_Stream.thy ===== *)
theory Pb_Stream
  imports Byte_Mem
begin

text \<open>
  The streams of nanopb (pb.h, pb_encode.c, pb_decode.c), in the configuration of the pod:
  64 bit pointers, \<open>PB_FIELD_32BIT\<close>, \<open>PB_ENABLE_MALLOC\<close>, error messages on.
  The callback of an output stream is a function of the state it keeps, which returns whether it
  succeeded and the new state; a stream with a NULL callback only counts. The callback of an input
  stream is \<open>buf_read\<close>, whose state is a pointer into the memory, or one of the user's,
  which hands over the bytes it stores. C functions that return a \<open>bool\<close> are operations of the
  prelude on the stream, where \<open>false\<close> is None.
\<close>

named_theorems pb_simps \<open>unfolding of stream operations\<close>

section \<open>Output streams\<close>

type_synonym 's out_callback = "'s \<Rightarrow> bytes \<Rightarrow> bool \<times> 's"

record 's pb_ostream =
  os_sink :: "('s out_callback \<times> 's) option"
  os_max_size :: nat
  os_written :: nat
  os_errmsg :: "string option"

definition set_errmsg :: "string \<Rightarrow> string option \<Rightarrow> string option" where
  "set_errmsg msg e = (case e of None \<Rightarrow> Some msg | Some _ \<Rightarrow> e)"

text \<open>\<open>PB_RETURN_ERROR\<close>.\<close>

definition os_error :: "string \<Rightarrow> ('s pb_ostream, 'a) op" where
  "os_error msg s = (None, s\<lparr>os_errmsg := set_errmsg msg (os_errmsg s)\<rparr>)"

definition PB_OSTREAM_SIZING :: "'s pb_ostream" where
  "PB_OSTREAM_SIZING = \<lparr>os_sink = None, os_max_size = 0, os_written = 0, os_errmsg = None\<rparr>"

text \<open>The state of a buffer stream: the memory and the pointer into it.\<close>

definition buf_write :: "(memory \<times> nat) out_callback" where
  "buf_write st buf = (case st of (m, dest) \<Rightarrow> (True, (wr m dest buf, dest + length buf)))"

definition pb_ostream_from_buffer :: "memory \<Rightarrow> nat \<Rightarrow> nat \<Rightarrow> (memory \<times> nat) pb_ostream" where
  "pb_ostream_from_buffer m buf bufsize =
     \<lparr>os_sink = Some (buf_write, (m, buf)), os_max_size = bufsize, os_written = 0, os_errmsg = None\<rparr>"

text \<open>\<open>buf\<close> is what the pointer points to; with a sizing stream it is not looked at.\<close>

definition pb_write :: "bytes \<Rightarrow> nat \<Rightarrow> ('s pb_ostream, unit) op" where
  "pb_write buf count s =
     (case os_sink s of
        None \<Rightarrow> (Some (), s\<lparr>os_written := sz (os_written s + count)\<rparr>)
      | Some (callback, st) \<Rightarrow>
          if sz (os_written s + count) > os_max_size s then os_error ''stream full'' s
          else (case callback st (take count buf) of
                  (False, st) \<Rightarrow> os_error ''io error'' (s\<lparr>os_sink := Some (callback, st)\<rparr>)
                | (True, st) \<Rightarrow>
                    (Some (), s\<lparr>os_sink := Some (callback, st), os_written := sz (os_written s + count)\<rparr>)))"

section \<open>What an output stream promises\<close>

text \<open>
  A sink takes the bytes it is given: what a sequence of calls puts there depends on the
  concatenation of the buffers only.
\<close>

locale sink =
  fixes callback :: "'s out_callback" and put :: "'s \<Rightarrow> bytes \<Rightarrow> 's"
  assumes callback: "callback st bs = (True, put st bs)"
    and put_Nil: "put st [] = st"
    and put_append: "put st (xs @ ys) = put (put st xs) ys"

text \<open>
  The streams considered have reported no error yet. \<open>emits callback put f bs\<close>: the operation writes \<open>bs\<close> to every stream with this sink that has
  room for it, counts it on a sizing stream, and fails where there is no room. The bound keeps the sum
  \<open>bytes_written + count\<close> of \<open>pb_write\<close> in \<open>size_t\<close>.
\<close>

definition out_ok :: "'s out_callback \<Rightarrow> 's pb_ostream \<Rightarrow> bool" where
  "out_ok callback s \<longleftrightarrow> os_errmsg s = None \<and>
     (case os_sink s of None \<Rightarrow> True | Some (cb, st) \<Rightarrow> cb = callback \<and> os_written s \<le> os_max_size s)"

definition fits :: "nat \<Rightarrow> 's pb_ostream \<Rightarrow> bool" where
  "fits n s \<longleftrightarrow> os_sink s = None \<or> os_written s + n \<le> os_max_size s"

definition put_out :: "('s \<Rightarrow> bytes \<Rightarrow> 's) \<Rightarrow> bytes \<Rightarrow> 's pb_ostream \<Rightarrow> 's pb_ostream" where
  "put_out put bs s =
     s\<lparr>os_sink := map_option (\<lambda>(cb, st). (cb, put st bs)) (os_sink s), os_written := os_written s + length bs\<rparr>"

text \<open>After a failure the sink has got some bytes, and no more than there was room for.\<close>

definition stopped :: "('s \<Rightarrow> bytes \<Rightarrow> 's) \<Rightarrow> 's pb_ostream \<Rightarrow> 's pb_ostream \<Rightarrow> bool" where
  "stopped put s s' \<longleftrightarrow>
     (\<exists>xs. os_sink s' = map_option (\<lambda>(cb, st). (cb, put st xs)) (os_sink s) \<and> fits (length xs) s)"

definition emits :: "'s out_callback \<Rightarrow> ('s \<Rightarrow> bytes \<Rightarrow> 's) \<Rightarrow> ('s pb_ostream, unit) op \<Rightarrow> bytes \<Rightarrow> bool" where
  "emits callback put f bs \<longleftrightarrow>
     (\<forall>s. out_ok callback s \<longrightarrow> os_written s + length bs < SIZE_LIMIT \<longrightarrow>
       (if fits (length bs) s then f s = (Some (), put_out put bs s) else \<exists>s'. f s = (None, s') \<and> stopped put s s'))"

lemma emitsI:
  assumes "\<And>s. \<lbrakk>out_ok callback s; os_written s + length bs < SIZE_LIMIT; fits (length bs) s\<rbrakk> \<Longrightarrow> f s = (Some (), put_out put bs s)"
    and "\<And>s. \<lbrakk>out_ok callback s; os_written s + length bs < SIZE_LIMIT; \<not> fits (length bs) s\<rbrakk> \<Longrightarrow>
      \<exists>s'. f s = (None, s') \<and> stopped put s s'"
  shows "emits callback put f bs"
  using assms by (auto simp: emits_def)

lemma emits_fits:
  "\<lbrakk>emits callback put f bs; out_ok callback s; os_written s + length bs < SIZE_LIMIT; fits (length bs) s\<rbrakk>
    \<Longrightarrow> f s = (Some (), put_out put bs s)"
  by (simp add: emits_def)

lemma emits_full:
  "\<lbrakk>emits callback put f bs; out_ok callback s; os_written s + length bs < SIZE_LIMIT; \<not> fits (length bs) s\<rbrakk>
    \<Longrightarrow> \<exists>s'. f s = (None, s') \<and> stopped put s s'"
  by (simp add: emits_def)

lemma put_out_sels [simp]:
  "os_sink (put_out put bs s) = map_option (\<lambda>(cb, st). (cb, put st bs)) (os_sink s)"
  "os_written (put_out put bs s) = os_written s + length bs"
  "os_max_size (put_out put bs s) = os_max_size s" "os_errmsg (put_out put bs s) = os_errmsg s"
  by (simp_all add: put_out_def)

lemma fits_put_out: "fits n (put_out put bs s) \<longleftrightarrow> fits (length bs + n) s"
  by (auto simp: fits_def add.assoc)

lemma out_ok_put_out: "out_ok callback s \<Longrightarrow> fits (length bs) s \<Longrightarrow> out_ok callback (put_out put bs s)"
  by (auto simp: out_ok_def fits_def split: option.splits)

lemma fits_less: "fits n s \<Longrightarrow> k \<le> n \<Longrightarrow> fits k s"
  by (auto simp: fits_def)

context sink
begin

lemma put_out_append: "put_out put (xs @ ys) s = put_out put ys (put_out put xs s)"
  by (simp add: put_out_def put_append option.map_comp comp_def split_def add.assoc)

lemma put_out_Nil [simp]: "put_out put [] s = s"
proof -
  have "map_option (\<lambda>(cb, st). (cb, put st [])) (os_sink s) = os_sink s"
    by (cases "os_sink s") (auto simp: put_Nil)
  then show ?thesis by (simp add: put_out_def)
qed

lemma stopped_same: "out_ok callback s \<Longrightarrow> os_sink s' = os_sink s \<Longrightarrow> stopped put s s'"
  unfolding stopped_def by (rule exI [of _ "[]"]) (auto simp: out_ok_def fits_def put_Nil split: option.splits)

lemma stopped_put_out:
  assumes "fits (length xs) s" "stopped put (put_out put xs s) s'"
  shows "stopped put s s'"
proof -
  obtain ys where ys: "os_sink s' = map_option (\<lambda>(cb, st). (cb, put st ys)) (os_sink (put_out put xs s))"
    "fits (length ys) (put_out put xs s)"
    using assms(2) by (auto simp: stopped_def)
  then have "os_sink s' = map_option (\<lambda>(cb, st). (cb, put st (xs @ ys))) (os_sink s)"
    by (simp add: put_append option.map_comp comp_def split_def)
  then show ?thesis using ys(2) unfolding stopped_def fits_put_out by (metis length_append)
qed

lemma emits_write: "length bs = n \<Longrightarrow> emits callback put (pb_write bs n) bs"
  by (rule emitsI)
    (auto simp: pb_write_def put_out_def fits_def sz_id callback os_error_def out_ok_def
      intro!: stopped_same split: option.splits)

lemma emits_sizing: "length bs = n \<Longrightarrow> os_sink s = None \<Longrightarrow> os_written s + n < SIZE_LIMIT \<Longrightarrow>
    pb_write any n s = (Some (), put_out put bs s)"
  by (simp add: pb_write_def put_out_def sz_id)

lemma emits_return: "emits callback put (op_return ()) []"
  by (rule emitsI) (auto simp: op_return_def fits_def out_ok_def split: option.splits)

lemma emits_bind:
  assumes f: "emits callback put f xs" and g: "emits callback put (g ()) ys"
  shows "emits callback put (op_bind f g) (xs @ ys)"
proof (rule emitsI)
  fix s :: "'s pb_ostream"
  assume s: "out_ok callback s" "os_written s + length (xs @ ys) < SIZE_LIMIT" "fits (length (xs @ ys)) s"
  then have fx: "fits (length xs) s" by (auto intro: fits_less)
  then have "f s = (Some (), put_out put xs s)" using emits_fits [OF f s(1)] s(2) by simp
  moreover have "g () (put_out put xs s) = (Some (), put_out put ys (put_out put xs s))"
    using s by (intro emits_fits [OF g] out_ok_put_out fx) (auto simp: fits_put_out)
  ultimately show "op_bind f g s = (Some (), put_out put (xs @ ys) s)" by (simp add: op_bind_def put_out_append)
next
  fix s :: "'s pb_ostream"
  assume s: "out_ok callback s" "os_written s + length (xs @ ys) < SIZE_LIMIT" "\<not> fits (length (xs @ ys)) s"
  show "\<exists>s'. op_bind f g s = (None, s') \<and> stopped put s s'"
  proof (cases "fits (length xs) s")
    case True
    then have "f s = (Some (), put_out put xs s)" using emits_fits [OF f s(1)] s(2) by simp
    moreover have "\<exists>s'. g () (put_out put xs s) = (None, s') \<and> stopped put (put_out put xs s) s'"
      using s by (intro emits_full [OF g] out_ok_put_out True) (auto simp: fits_put_out)
    ultimately show ?thesis using stopped_put_out [OF True] by (auto simp: op_bind_def)
  next
    case False
    then have "\<exists>s'. f s = (None, s') \<and> stopped put s s'" using emits_full [OF f s(1)] s(2) by simp
    then show ?thesis by (auto simp: op_bind_def)
  qed
qed

end

text \<open>Buffer streams are sinks.\<close>

definition buf_put :: "memory \<times> nat \<Rightarrow> bytes \<Rightarrow> memory \<times> nat" where
  "buf_put st bs = (case st of (m, p) \<Rightarrow> (wr m p bs, p + length bs))"

interpretation buf: sink buf_write buf_put
  by unfold_locales (auto simp: buf_write_def buf_put_def wr_append)

section \<open>Input streams\<close>

text \<open>
  A stream over a buffer of the memory, over a local array of which the bytes from the pointer on are
  given, or over a user's callback, which hands over the bytes it stores, or fails and stores nothing.
\<close>

datatype 's in_source = Buf_read nat | Buf_local bytes | In_callback "'s \<Rightarrow> nat \<Rightarrow> bytes option \<times> 's" 's

record 's pb_istream =
  is_source :: "'s in_source"
  is_left :: nat
  is_errmsg :: "string option"

definition is_error :: "string \<Rightarrow> ('s pb_istream, 'a) op" where
  "is_error msg s = (None, s\<lparr>is_errmsg := set_errmsg msg (is_errmsg s)\<rparr>)"

definition pb_istream_from_buffer :: "nat \<Rightarrow> nat \<Rightarrow> 's pb_istream" where
  "pb_istream_from_buffer buf bufsize = \<lparr>is_source = Buf_read buf, is_left = bufsize, is_errmsg = None\<rparr>"

definition buf_read :: "memory \<Rightarrow> nat \<Rightarrow> nat \<Rightarrow> bytes \<times> nat" where
  "buf_read m p count = (rd m p count, p + count)"

text \<open>\<open>stream->callback(stream, buf, count)\<close>.\<close>

definition is_callback :: "memory \<Rightarrow> nat \<Rightarrow> ('s pb_istream, bytes) op" where
  "is_callback m count s =
     (case is_source s of
        Buf_read p \<Rightarrow> (let (bs, p) = buf_read m p count in (Some bs, s\<lparr>is_source := Buf_read p\<rparr>))
      | Buf_local b \<Rightarrow> (Some (take count b), s\<lparr>is_source := Buf_local (drop count b)\<rparr>)
      | In_callback cb st \<Rightarrow> (let (r, st) = cb st count in (r, s\<lparr>is_source := In_callback cb st\<rparr>)))"

text \<open>Reading into a buffer.\<close>

definition pb_read :: "memory \<Rightarrow> nat \<Rightarrow> ('s pb_istream, bytes) op" where
  "pb_read m count s =
     (if is_left s < count then is_error ''end-of-stream'' s
      else (case is_callback m count s of
              (None, s) \<Rightarrow> is_error ''io error'' s
            | (Some bs, s) \<Rightarrow> (Some bs, s\<lparr>is_left := is_left s - count\<rparr>)))"

text \<open>\<open>pb_read(stream, NULL, count)\<close>: a user's callback gets a buffer of 16 bytes.\<close>

function pb_read_tmp :: "memory \<Rightarrow> nat \<Rightarrow> ('s pb_istream, unit) op" where
  "pb_read_tmp m count s =
     (if count > 16
      then (case pb_read m 16 s of
              (None, s) \<Rightarrow> (None, s)
            | (Some _, s) \<Rightarrow> pb_read_tmp m (count - 16) s)
      else op_bind (pb_read m count) (\<lambda>_. op_return ()) s)"
  by pat_completeness auto
termination
  by (relation "measure (\<lambda>(_, count, _). count)") auto

declare pb_read_tmp.simps [simp del]

definition pb_read_null :: "memory \<Rightarrow> nat \<Rightarrow> ('s pb_istream, unit) op" where
  "pb_read_null m count s =
     (case is_source s of
        In_callback _ _ \<Rightarrow> pb_read_tmp m count s
      | _ \<Rightarrow> op_bind (pb_read m count) (\<lambda>_. op_return ()) s)"

definition pb_readbyte :: "memory \<Rightarrow> ('s pb_istream, u8) op" where
  "pb_readbyte m s =
     (if is_left s = 0 then is_error ''end-of-stream'' s
      else (case is_callback m 1 s of
              (None, s) \<Rightarrow> is_error ''io error'' s
            | (Some bs, s) \<Rightarrow> (Some (hd bs), s\<lparr>is_left := is_left s - 1\<rparr>)))"

section \<open>What an input stream delivers\<close>

text \<open>
  A user's callback hands over the next bytes of what it has, \<open>rest\<close> of its state.
  A view of the sources is this function, and addresses a buffer stays clear of.
  \<open>delivers vw m s xs zs\<close>: the bytes left in the stream are \<open>xs\<close>, and behind them its source has \<open>zs\<close>,
  which a stream around a substream gets to see.
\<close>

type_synonym 's view = "('s \<Rightarrow> bytes) \<times> nat set"

definition source_law :: "('s \<Rightarrow> nat \<Rightarrow> bytes option \<times> 's) \<Rightarrow> ('s \<Rightarrow> bytes) \<Rightarrow> bool" where
  "source_law cb rest \<longleftrightarrow>
     (\<forall>st n. n \<le> length (rest st) \<longrightarrow> (\<exists>st'. cb st n = (Some (take n (rest st)), st') \<and> rest st' = drop n (rest st)))"

definition feeds :: "'s view \<Rightarrow> memory \<Rightarrow> 's in_source \<Rightarrow> bytes \<Rightarrow> bool" where
  "feeds vw m src xs \<longleftrightarrow>
     (case src of
        Buf_read p \<Rightarrow> rd m p (length xs) = xs \<and> {p..<p + length xs} \<inter> snd vw = {}
      | Buf_local b \<Rightarrow> (\<exists>ys. b = xs @ ys)
      | In_callback cb st \<Rightarrow> source_law cb (fst vw) \<and> (\<exists>ys. fst vw st = xs @ ys))"

definition delivers :: "'s view \<Rightarrow> memory \<Rightarrow> 's pb_istream \<Rightarrow> bytes \<Rightarrow> bytes \<Rightarrow> bool" where
  "delivers vw m s xs zs \<longleftrightarrow> is_left s = length xs \<and> feeds vw m (is_source s) (xs @ zs)"

lemma delivers_left: "delivers vw m s xs zs \<Longrightarrow> is_left s = length xs"
  by (simp add: delivers_def)

lemma delivers_buffer:
  "delivers vw m (pb_istream_from_buffer p (length xs)) xs [] \<longleftrightarrow> rd m p (length xs) = xs \<and> {p..<p + length xs} \<inter> snd vw = {}"
  by (simp add: delivers_def feeds_def pb_istream_from_buffer_def)

text \<open>What a buffer delivers does not change with the bytes it stays clear of.\<close>

lemma delivers_mem:
  assumes "delivers vw m s xs zs" "\<And>a. a \<notin> snd vw \<Longrightarrow> m' a = m a"
  shows "delivers vw m' s xs zs"
proof (cases "is_source s")
  case (Buf_read p)
  then have "{p..<p + length (xs @ zs)} \<inter> snd vw = {}" "rd m p (length (xs @ zs)) = xs @ zs"
    using assms(1) by (simp_all add: delivers_def feeds_def)
  moreover have "rd m' p (length (xs @ zs)) = rd m p (length (xs @ zs))"
    using calculation(1) by (intro rd_cong assms(2)) (auto simp: disjoint_iff)
  ultimately show ?thesis using assms(1) Buf_read by (simp add: delivers_def feeds_def)
qed (use assms(1) in \<open>simp_all add: delivers_def feeds_def\<close>)

lemma callback_feeds:
  assumes "feeds vw m (is_source s) (xs @ ys)" "length xs = n"
  shows "\<exists>src. is_callback m n s = (Some xs, s\<lparr>is_source := src\<rparr>) \<and> feeds vw m src ys"
proof (cases "is_source s")
  case (Buf_read p)
  have r: "rd m p (length xs + length ys) = xs @ ys" using assms(1) Buf_read by (simp add: feeds_def)
  then have "rd m p n = xs \<and> rd m (p + n) (length ys) = ys"
    unfolding rd_add assms(2) [symmetric] by simp
  moreover have "{p + n..<p + n + length ys} \<inter> snd vw = {}"
    using assms Buf_read by (auto simp: feeds_def disjoint_iff)
  ultimately show ?thesis
    using Buf_read by (intro exI [of _ "Buf_read (p + n)"]) (simp add: is_callback_def buf_read_def feeds_def)
next
  case (Buf_local b)
  then obtain zs where "b = xs @ ys @ zs" using assms(1) by (auto simp: feeds_def)
  then show ?thesis
    using Buf_local assms(2) by (intro exI [of _ "Buf_local (ys @ zs)"]) (simp add: is_callback_def feeds_def)
next
  case (In_callback cb st)
  then obtain zs where r: "fst vw st = xs @ ys @ zs" and law: "source_law cb (fst vw)"
    using assms(1) by (auto simp: feeds_def)
  then obtain st' where st': "cb st n = (Some (take n (fst vw st)), st')" "fst vw st' = drop n (fst vw st)"
    using assms(2) unfolding source_law_def by (metis le_add1 length_append)
  then have "cb st n = (Some xs, st')" "fst vw st' = ys @ zs" using r assms(2) by simp_all
  then show ?thesis
    using In_callback law by (intro exI [of _ "In_callback cb st'"]) (simp add: is_callback_def feeds_def)
qed

lemma read_delivers:
  assumes "delivers vw m s (xs @ ys) zs" "length xs = n"
  shows "\<exists>s'. pb_read m n s = (Some xs, s') \<and> delivers vw m s' ys zs"
proof -
  obtain src where "is_callback m n s = (Some xs, s\<lparr>is_source := src\<rparr>)" "feeds vw m src (ys @ zs)"
    using callback_feeds [of vw m s xs "ys @ zs" n] assms by (auto simp: delivers_def)
  then show ?thesis using assms by (auto simp: pb_read_def delivers_def)
qed

lemma readbyte_delivers:
  assumes "delivers vw m s (x # ys) zs"
  shows "\<exists>s'. pb_readbyte m s = (Some x, s') \<and> delivers vw m s' ys zs"
proof -
  obtain src where "is_callback m 1 s = (Some [x], s\<lparr>is_source := src\<rparr>)" "feeds vw m src (ys @ zs)"
    using callback_feeds [of vw m s "[x]" "ys @ zs" 1] assms by (auto simp: delivers_def)
  then show ?thesis using assms by (auto simp: pb_readbyte_def delivers_def)
qed

lemma read_tmp_delivers:
  "delivers vw m s (xs @ ys) zs \<Longrightarrow> length xs = n \<Longrightarrow>
   \<exists>s'. pb_read_tmp m n s = (Some (), s') \<and> delivers vw m s' ys zs"
proof (induction n arbitrary: s xs rule: less_induct)
  case (less n)
  show ?case
  proof (cases "16 < n")
    case True
    have "take 16 xs @ drop 16 xs @ ys = xs @ ys" by (simp only: append_assoc [symmetric] append_take_drop_id)
    then have "delivers vw m s (take 16 xs @ drop 16 xs @ ys) zs" using less.prems(1) by (simp only:)
    then obtain s1 where s1: "pb_read m 16 s = (Some (take 16 xs), s1)" "delivers vw m s1 (drop 16 xs @ ys) zs"
      using read_delivers [of vw m s "take 16 xs"] True less.prems(2) by fastforce
    have "n - 16 < n" using True by simp
    from less.IH [OF this s1(2)] obtain s2
      where "pb_read_tmp m (n - 16) s1 = (Some (), s2)" "delivers vw m s2 ys zs"
      using less.prems(2) by auto
    then show ?thesis using True s1(1) by (subst pb_read_tmp.simps) simp
  next
    case False
    obtain s1 where "pb_read m n s = (Some xs, s1)" "delivers vw m s1 ys zs"
      using read_delivers [OF less.prems] by blast
    then show ?thesis using False by (subst pb_read_tmp.simps) (simp add: op_bind_def op_return_def)
  qed
qed

lemma read_null_delivers:
  assumes "delivers vw m s (xs @ ys) zs" "length xs = n"
  shows "\<exists>s'. pb_read_null m n s = (Some (), s') \<and> delivers vw m s' ys zs"
  using read_delivers [OF assms] read_tmp_delivers [OF assms]
  by (auto simp: pb_read_null_def op_bind_def op_return_def split: in_source.split)

text \<open>Reading takes the bytes it returns from what is left, and a failure takes none.\<close>

lemma read_left:
  "pb_read m n s = (r, s') \<Longrightarrow> is_left s' = (if r = None then is_left s else is_left s - n) \<and> (r \<noteq> None \<longrightarrow> n \<le> is_left s)"
  by (auto simp: pb_read_def is_error_def is_callback_def split: if_splits prod.splits option.splits in_source.splits)

lemma readbyte_left:
  "pb_readbyte m s = (Some b, s') \<Longrightarrow> is_left s' < is_left s"
  by (auto simp: pb_readbyte_def is_error_def is_callback_def split: if_splits prod.splits option.splits in_source.splits)

section \<open>Calls that may not return\<close>

text \<open>
  The encoder and the decoder call themselves for submessages, as deep as the message is, and
  call through pointers. A call has the outcome None where it does not come back: the depth allowed is used
  up, or it goes through a NULL pointer.
\<close>

type_synonym ('s, 'a) call = "'s \<Rightarrow> ('a option \<times> 's) option"

definition call_op :: "('s, 'a) op \<Rightarrow> ('s, 'a) call" where
  "call_op f s = Some (f s)"

definition call_crash :: "('s, 'a) call" where
  "call_crash s = None"

definition call_bind :: "('s, 'a) call \<Rightarrow> ('a \<Rightarrow> ('s, 'b) call) \<Rightarrow> ('s, 'b) call" where
  "call_bind f g s =
     (case f s of None \<Rightarrow> None | Some (None, s) \<Rightarrow> Some (None, s) | Some (Some x, s) \<Rightarrow> g x s)"

end
