(* ===== verification/Pb_Wire.thy ===== *)
theory Pb_Wire
  imports Pb_Stream
begin

text \<open>
  The wire format of nanopb: the helper functions of pb_encode.c (\<open>pb_encode_varint\<close> to
  \<open>pb_encode_string\<close>) and of pb_decode.c (\<open>pb_decode_varint32_eof\<close> to
  \<open>pb_close_string_substream\<close>, \<open>pb_decode_svarint\<close>, \<open>pb_decode_fixed32\<close>,
  \<open>pb_decode_fixed64\<close>). An integer behind a pointer is a little endian load or store.
  \<open>uint_fast8_t\<close> has 8 bits, as on the platforms of the pod.
\<close>

section \<open>Encoding\<close>

function varint_bytes :: "u64 \<Rightarrow> bytes" where
  "varint_bytes v = (if v = 0 then [] else (ucast (v AND 0x7f) OR 0x80) # varint_bytes (drop_bit 7 v))"
  by pat_completeness auto
termination
proof (relation "measure unat", goal_cases)
  case (2 v)
  then have "0 < unat v" by (simp add: unat_gt_0)
  then show ?case by (simp add: drop_bit_eq_div unat_div)
qed simp

declare varint_bytes.simps [simp del]

definition pb_encode_varint :: "u64 \<Rightarrow> ('s pb_ostream, unit) op" where
  "pb_encode_varint v =
     (if v \<le> 0x7f then pb_write [ucast v] 1
      else (let buffer = varint_bytes v;
                i = length buffer;
                buffer = buffer[i - 1 := buffer ! (i - 1) AND 0x7f]
            in pb_write buffer i))"

definition pb_encode_svarint :: "u64 \<Rightarrow> ('s pb_ostream, unit) op" where
  "pb_encode_svarint v = pb_encode_varint (if v <s 0 then NOT (push_bit 1 v) else push_bit 1 v)"

definition load_le :: "memory \<Rightarrow> nat \<Rightarrow> nat \<Rightarrow> u64" where
  "load_le m a n = bytes_word (rd m a n)"

definition store_le :: "memory \<Rightarrow> nat \<Rightarrow> nat \<Rightarrow> u64 \<Rightarrow> memory" where
  "store_le m a n v = wr m a (take n (word_bytes v))"

definition pb_encode_fixed32 :: "memory \<Rightarrow> nat \<Rightarrow> ('s pb_ostream, unit) op" where
  "pb_encode_fixed32 m a =
     (let val = ucast (load_le m a 4) :: u32
      in pb_write (map (\<lambda>i. ucast (drop_bit i val AND 0xff)) [0, 8, 16, 24]) 4)"

definition pb_encode_fixed64 :: "memory \<Rightarrow> nat \<Rightarrow> ('s pb_ostream, unit) op" where
  "pb_encode_fixed64 m a =
     (let val = load_le m a 8
      in pb_write (map (\<lambda>i. ucast (drop_bit i val AND 0xff)) [0, 8, 16, 24, 32, 40, 48, 56]) 8)"

definition PB_WT_VARINT :: nat where "PB_WT_VARINT = 0"

definition PB_WT_64BIT :: nat where "PB_WT_64BIT = 1"

definition PB_WT_STRING :: nat where "PB_WT_STRING = 2"

definition PB_WT_32BIT :: nat where "PB_WT_32BIT = 5"

definition pb_encode_tag :: "nat \<Rightarrow> u32 \<Rightarrow> ('s pb_ostream, unit) op" where
  "pb_encode_tag wiretype field_number = pb_encode_varint (push_bit 3 (ucast field_number) OR word_of_nat wiretype)"

text \<open>\<open>buffer\<close> is what the pointer points to, or an empty list for NULL.\<close>

definition pb_encode_string :: "bytes \<Rightarrow> nat \<Rightarrow> ('s pb_ostream, unit) op" where
  "pb_encode_string buffer n = op_bind (pb_encode_varint (word_of_nat n)) (\<lambda>_. pb_write buffer n)"

section \<open>Decoding\<close>

function varint32_loop :: "memory \<Rightarrow> u8 \<Rightarrow> u32 \<Rightarrow> ('s pb_istream, u32) op" where
  "varint32_loop m bitpos result s =
     (case pb_readbyte m s of
        (None, s) \<Rightarrow> (None, s)
      | (Some byte, s) \<Rightarrow>
          if bitpos \<ge> 32 \<and> byte AND 0x7f \<noteq> 0 \<and>
             (drop_bit 31 result = 0 \<or> byte \<noteq> (if bitpos < 63 then 0xff else 0x01))
          then is_error ''varint overflow'' s
          else
            (let result = (if bitpos \<ge> 32 then result else result OR push_bit (unat bitpos) (ucast (byte AND 0x7f)));
                 bitpos = bitpos + 7
             in if byte AND 0x80 \<noteq> 0 then varint32_loop m bitpos result s
                else if bitpos = 35 \<and> byte AND 0x70 \<noteq> 0 then is_error ''varint overflow'' s
                else (Some result, s)))"
  by pat_completeness auto
termination
  by (relation "measure (\<lambda>(m, b, r, s). is_left s)") (simp, metis in_measure readbyte_left split_conv)

text \<open>The result, whether \<open>*eof\<close> is set to true, and the stream.\<close>

definition pb_decode_varint32_eof :: "memory \<Rightarrow> 's pb_istream \<Rightarrow> u32 option \<times> bool \<times> 's pb_istream" where
  "pb_decode_varint32_eof m s =
     (case pb_readbyte m s of
        (None, s) \<Rightarrow> (None, is_left s = 0, s)
      | (Some byte, s) \<Rightarrow>
          if byte AND 0x80 = 0 then (Some (ucast byte), False, s)
          else (let (r, s) = varint32_loop m 7 (ucast (byte AND 0x7f)) s in (r, False, s)))"

definition pb_decode_varint32 :: "memory \<Rightarrow> ('s pb_istream, u32) op" where
  "pb_decode_varint32 m s = (let (r, _, s) = pb_decode_varint32_eof m s in (r, s))"

function varint_loop :: "memory \<Rightarrow> u8 \<Rightarrow> u64 \<Rightarrow> ('s pb_istream, u64) op" where
  "varint_loop m bitpos result s =
     (if bitpos \<ge> 64 then is_error ''varint overflow'' s
      else (case pb_readbyte m s of
              (None, s) \<Rightarrow> (None, s)
            | (Some byte, s) \<Rightarrow>
                (let result = result OR push_bit (unat bitpos) (ucast (byte AND 0x7f));
                     bitpos = bitpos + 7
                 in if byte AND 0x80 \<noteq> 0 then varint_loop m bitpos result s else (Some result, s))))"
  by pat_completeness auto
termination
  by (relation "measure (\<lambda>(m, b, r, s). is_left s)") (simp, metis in_measure readbyte_left split_conv)

declare varint32_loop.simps [simp del] varint_loop.simps [simp del]

definition pb_decode_varint :: "memory \<Rightarrow> ('s pb_istream, u64) op" where
  "pb_decode_varint m = varint_loop m 0 0"

lemma read1_left: "pb_read m 1 s = (Some bs, s') \<Longrightarrow> is_left s' < is_left s"
  using read_left [of m 1 s "Some bs" s'] by auto

function pb_skip_varint :: "memory \<Rightarrow> ('s pb_istream, unit) op" where
  "pb_skip_varint m s =
     (case pb_read m 1 s of
        (None, s) \<Rightarrow> (None, s)
      | (Some bs, s) \<Rightarrow> if hd bs AND 0x80 \<noteq> 0 then pb_skip_varint m s else (Some (), s))"
  by pat_completeness auto
termination
  by (relation "measure (\<lambda>(m, s). is_left s)") (simp, metis in_measure read1_left split_conv)

declare pb_skip_varint.simps [simp del]

definition pb_skip_string :: "memory \<Rightarrow> ('s pb_istream, unit) op" where
  "pb_skip_string m = op_bind (pb_decode_varint32 m) (\<lambda>n. pb_read_null m (unat n))"

text \<open>The wire type and the tag, and \<open>*eof\<close>.\<close>

definition pb_decode_tag :: "memory \<Rightarrow> 's pb_istream \<Rightarrow> (nat \<times> u32) option \<times> bool \<times> 's pb_istream" where
  "pb_decode_tag m s =
     (case pb_decode_varint32_eof m s of
        (None, eof, s) \<Rightarrow> (None, eof, s)
      | (Some temp, eof, s) \<Rightarrow>
          if temp = 0 then (None, True, s)
          else (Some (unat (temp AND 7), drop_bit 3 temp), eof, s))"

definition pb_skip_field :: "memory \<Rightarrow> nat \<Rightarrow> ('s pb_istream, unit) op" where
  "pb_skip_field m wire_type =
     (if wire_type = PB_WT_VARINT then pb_skip_varint m
      else if wire_type = PB_WT_64BIT then pb_read_null m 8
      else if wire_type = PB_WT_STRING then pb_skip_string m
      else if wire_type = PB_WT_32BIT then pb_read_null m 4
      else is_error ''invalid wire_type'')"

text \<open>The bytes stored into the buffer; \<open>n\<close> counts those before.\<close>

function raw_varint :: "memory \<Rightarrow> nat \<Rightarrow> nat \<Rightarrow> ('s pb_istream, bytes) op" where
  "raw_varint m max_size n s =
     (if n + 1 > max_size then (None, s)
      else (case pb_read m 1 s of
              (None, s) \<Rightarrow> (None, s)
            | (Some bs, s) \<Rightarrow>
                if hd bs AND 0x80 \<noteq> 0
                then op_bind (raw_varint m max_size (n + 1)) (\<lambda>r. op_return (hd bs # r)) s
                else (Some [hd bs], s)))"
  by pat_completeness auto
termination
  by (relation "measure (\<lambda>(m, max_size, n, s). max_size - n)") auto

declare raw_varint.simps [simp del]

definition read_raw_value :: "memory \<Rightarrow> nat \<Rightarrow> nat \<Rightarrow> ('s pb_istream, bytes) op" where
  "read_raw_value m wire_type max_size =
     (if wire_type = PB_WT_VARINT then raw_varint m max_size 0
      else if wire_type = PB_WT_64BIT then pb_read m 8
      else if wire_type = PB_WT_32BIT then pb_read m 4
      else is_error ''invalid wire_type'')"

definition pb_make_string_substream :: "memory \<Rightarrow> ('s pb_istream, 's pb_istream) op" where
  "pb_make_string_substream m = op_bind (pb_decode_varint32 m) (\<lambda>n s.
     if is_left s < unat n then is_error ''parent stream too short'' s
     else (Some (s\<lparr>is_left := unat n\<rparr>), s\<lparr>is_left := is_left s - unat n\<rparr>))"

definition pb_close_string_substream :: "memory \<Rightarrow> 's pb_istream \<Rightarrow> ('s pb_istream, unit) op" where
  "pb_close_string_substream m substream s =
     (case (if is_left substream \<noteq> 0 then pb_read_null m (is_left substream) substream else (Some (), substream)) of
        (None, _) \<Rightarrow> (None, s)
      | (Some _, substream) \<Rightarrow> (Some (), s\<lparr>is_source := is_source substream, is_errmsg := is_errmsg substream\<rparr>))"

definition pb_decode_svarint :: "memory \<Rightarrow> ('s pb_istream, u64) op" where
  "pb_decode_svarint m = op_bind (pb_decode_varint m) (\<lambda>v.
     op_return (if v AND 1 \<noteq> 0 then NOT (drop_bit 1 v) else drop_bit 1 v))"

definition pb_decode_fixed32 :: "memory \<Rightarrow> ('s pb_istream, u32) op" where
  "pb_decode_fixed32 m = op_bind (pb_read m 4) (\<lambda>bytes.
     op_return (push_bit 0 (ucast (bytes ! 0)) OR push_bit 8 (ucast (bytes ! 1)) OR
       push_bit 16 (ucast (bytes ! 2)) OR push_bit 24 (ucast (bytes ! 3))))"

definition pb_decode_fixed64 :: "memory \<Rightarrow> ('s pb_istream, u64) op" where
  "pb_decode_fixed64 m = op_bind (pb_read m 8) (\<lambda>bytes.
     op_return (push_bit 0 (ucast (bytes ! 0)) OR push_bit 8 (ucast (bytes ! 1)) OR
       push_bit 16 (ucast (bytes ! 2)) OR push_bit 24 (ucast (bytes ! 3)) OR
       push_bit 32 (ucast (bytes ! 4)) OR push_bit 40 (ucast (bytes ! 5)) OR
       push_bit 48 (ucast (bytes ! 6)) OR push_bit 56 (ucast (bytes ! 7))))"

end
