(* ===== verification/Pb_Fields.thy ===== *)
theory Pb_Fields
  imports Pb_Wire
begin

text \<open>
  Field descriptors (\<open>pb_field_t\<close>, pb.h) and the iterator over a message (pb_common.c). A message is
  a struct at an address of the memory; a descriptor array is a list of fields that ends with
  \<open>PB_LAST_FIELD\<close>, named by the address that \<open>ptr\<close> of a submessage field holds. \<open>pb_size_t\<close> has 32 bits
  (\<open>PB_FIELD_32BIT\<close>), pointers have 8 bytes.
\<close>

datatype pb_ptr = Ptr_null | Ptr_fields nat | Ptr_default bytes

record pb_field =
  pf_tag :: u32
  pf_type :: u8
  pf_data_offset :: nat
  pf_size_offset :: int
  pf_data_size :: nat
  pf_array_size :: nat
  pf_ptr :: pb_ptr

definition PB_LAST_FIELD :: pb_field where
  "PB_LAST_FIELD = \<lparr>pf_tag = 0, pf_type = 0, pf_data_offset = 0, pf_size_offset = 0, pf_data_size = 0,
     pf_array_size = 0, pf_ptr = Ptr_null\<rparr>"

section \<open>Types of fields (pb.h)\<close>

definition PB_LTYPE :: "u8 \<Rightarrow> u8" where "PB_LTYPE x = x AND 0x0f"

definition PB_HTYPE :: "u8 \<Rightarrow> u8" where "PB_HTYPE x = x AND 0x30"

definition PB_ATYPE :: "u8 \<Rightarrow> u8" where "PB_ATYPE x = x AND 0xc0"

abbreviation (input) "PB_LTYPE_VARINT \<equiv> 0x00 :: u8"
abbreviation (input) "PB_LTYPE_UVARINT \<equiv> 0x01 :: u8"
abbreviation (input) "PB_LTYPE_SVARINT \<equiv> 0x02 :: u8"
abbreviation (input) "PB_LTYPE_FIXED32 \<equiv> 0x03 :: u8"
abbreviation (input) "PB_LTYPE_FIXED64 \<equiv> 0x04 :: u8"
abbreviation (input) "PB_LTYPE_LAST_PACKABLE \<equiv> 0x04 :: u8"
abbreviation (input) "PB_LTYPE_BYTES \<equiv> 0x05 :: u8"
abbreviation (input) "PB_LTYPE_STRING \<equiv> 0x06 :: u8"
abbreviation (input) "PB_LTYPE_SUBMESSAGE \<equiv> 0x07 :: u8"
abbreviation (input) "PB_LTYPE_EXTENSION \<equiv> 0x08 :: u8"
abbreviation (input) "PB_LTYPE_FIXED_LENGTH_BYTES \<equiv> 0x09 :: u8"

abbreviation (input) "PB_HTYPE_REQUIRED \<equiv> 0x00 :: u8"
abbreviation (input) "PB_HTYPE_OPTIONAL \<equiv> 0x10 :: u8"
abbreviation (input) "PB_HTYPE_REPEATED \<equiv> 0x20 :: u8"
abbreviation (input) "PB_HTYPE_ONEOF \<equiv> 0x30 :: u8"

abbreviation (input) "PB_ATYPE_STATIC \<equiv> 0x00 :: u8"
abbreviation (input) "PB_ATYPE_POINTER \<equiv> 0x80 :: u8"
abbreviation (input) "PB_ATYPE_CALLBACK \<equiv> 0x40 :: u8"

abbreviation PB_SIZE_MAX :: nat where "PB_SIZE_MAX \<equiv> 2 ^ 32 - 1"

abbreviation pf_ltype :: "pb_field \<Rightarrow> u8" where "pf_ltype f \<equiv> PB_LTYPE (pf_type f)"

abbreviation pf_htype :: "pb_field \<Rightarrow> u8" where "pf_htype f \<equiv> PB_HTYPE (pf_type f)"

abbreviation pf_atype :: "pb_field \<Rightarrow> u8" where "pf_atype f \<equiv> PB_ATYPE (pf_type f)"

text \<open>The repetition rule is one of four.\<close>

lemma byte_and_30:
  "list_all (\<lambda>n. (word_of_nat n :: u8) AND 0x30 \<in> {0, 0x10, 0x20, 0x30}) [0..<256]"
  by code_simp

lemma htype_cases: "pf_htype f = 0 \<or> pf_htype f = 0x10 \<or> pf_htype f = 0x20 \<or> pf_htype f = 0x30"
proof -
  have "unat (pf_type f) \<in> set [0..<256]" by simp
  then have "(word_of_nat (unat (pf_type f)) :: u8) AND 0x30 \<in> {0, 0x10, 0x20, 0x30}"
    using byte_and_30 unfolding list_all_iff by blast
  then show ?thesis by (simp add: PB_HTYPE_def)
qed

section \<open>Values in a message\<close>

definition load_ptr :: "memory \<Rightarrow> nat \<Rightarrow> nat" where
  "load_ptr m a = unat (load_le m a 8)"

definition load_size :: "memory \<Rightarrow> nat \<Rightarrow> nat" where
  "load_size m a = unat (load_le m a 4)"

definition load_signed :: "memory \<Rightarrow> nat \<Rightarrow> nat \<Rightarrow> u64" where
  "load_signed m a n = signed_take_bit (8 * n - 1) (load_le m a n)"

section \<open>The iterator (pb_common.c)\<close>

record pb_field_iter =
  it_start :: "pb_field list"
  it_pos :: nat
  it_req :: nat
  it_dest :: nat
  it_pData :: nat
  it_pSize :: nat

definition field_at :: "pb_field list \<Rightarrow> nat \<Rightarrow> pb_field" where
  "field_at fs i = (if i < length fs then fs ! i else PB_LAST_FIELD)"

definition it_field :: "pb_field_iter \<Rightarrow> pb_field" where
  "it_field it = field_at (it_start it) (it_pos it)"

definition size_addr :: "nat \<Rightarrow> pb_field \<Rightarrow> nat" where
  "size_addr pData f = nat (int pData + pf_size_offset f)"

definition pb_field_iter_begin :: "pb_field list \<Rightarrow> nat \<Rightarrow> bool \<times> pb_field_iter" where
  "pb_field_iter_begin flds dest_struct =
     (let f = field_at flds 0; pData = dest_struct + pf_data_offset f
      in (pf_tag f \<noteq> 0,
          \<lparr>it_start = flds, it_pos = 0, it_req = 0, it_dest = dest_struct, it_pData = pData,
           it_pSize = size_addr pData f\<rparr>))"

text \<open>The size of a field in the struct.\<close>

definition prev_size :: "pb_field \<Rightarrow> nat" where
  "prev_size f =
     (if pf_atype f = PB_ATYPE_STATIC \<and> pf_htype f = PB_HTYPE_REPEATED then pf_data_size f * pf_array_size f
      else if pf_atype f = PB_ATYPE_POINTER then 8
      else pf_data_size f)"

definition pb_field_iter_next :: "pb_field_iter \<Rightarrow> bool \<times> pb_field_iter" where
  "pb_field_iter_next it =
     (let prev = it_field it in
      if pf_tag prev = 0 then (False, it)
      else
        (let it = it\<lparr>it_pos := it_pos it + 1\<rparr>; f = it_field it in
         if pf_tag f = 0 then (False, snd (pb_field_iter_begin (it_start it) (it_dest it)))
         else if pf_htype prev = PB_HTYPE_ONEOF \<and> pf_htype f = PB_HTYPE_ONEOF \<and> pf_data_offset f = PB_SIZE_MAX
         then (True, it)
         else
           (let req = (if pf_htype prev = PB_HTYPE_REQUIRED then it_req it + 1 else it_req it);
                pData = it_pData it + prev_size prev + pf_data_offset f
            in (True, it\<lparr>it_req := req, it_pData := pData, it_pSize := size_addr pData f\<rparr>))))"

text \<open>
  The search goes round until it is back where it began, at \<open>start\<close>; the fuel is the number of
  positions there are.
\<close>

fun iter_find_loop :: "nat \<Rightarrow> nat \<Rightarrow> u32 \<Rightarrow> pb_field_iter \<Rightarrow> bool \<times> pb_field_iter" where
  "iter_find_loop 0 start tag it = (False, it)"
| "iter_find_loop (Suc n) start tag it =
     (if pf_tag (it_field it) = tag \<and> pf_ltype (it_field it) \<noteq> PB_LTYPE_EXTENSION then (True, it)
      else (let it = snd (pb_field_iter_next it)
            in if it_pos it \<noteq> start then iter_find_loop n start tag it else (False, it)))"

definition pb_field_iter_find :: "pb_field_iter \<Rightarrow> u32 \<Rightarrow> bool \<times> pb_field_iter" where
  "pb_field_iter_find it tag = iter_find_loop (length (it_start it) + 1) (it_pos it) tag it"

lemma iter_next_less:
  assumes "pb_field_iter_next it = (True, it')"
  shows "it_start it' = it_start it" "it_pos it' = Suc (it_pos it)" "it_pos it' < length (it_start it')"
    "it_dest it' = it_dest it"
  using assms
  by (auto simp: pb_field_iter_next_def Let_def it_field_def field_at_def PB_LAST_FIELD_def split: if_splits)

lemma iter_next_measure:
  "pb_field_iter_next it = (True, it') \<Longrightarrow>
    length (it_start it') - it_pos it' < length (it_start it) - it_pos it"
  using iter_next_less [of it it'] by auto

section \<open>The positions of a message\<close>

text \<open>
  A well-formed descriptor array: the last entry, and no other, is the terminator. The fields
  of a message with the addresses of their data and of their count or presence flag, in order;
  inside a union the iterator stays where it is.
\<close>

definition wf_fields :: "pb_field list \<Rightarrow> bool" where
  "wf_fields fs \<longleftrightarrow> fs \<noteq> [] \<and> last fs = PB_LAST_FIELD \<and> list_all (\<lambda>f. pf_tag f \<noteq> 0) (butlast fs)"

fun walk :: "pb_field \<Rightarrow> nat \<Rightarrow> nat \<Rightarrow> pb_field list \<Rightarrow> (pb_field \<times> nat \<times> nat) list" where
  "walk prev d z [] = []"
| "walk prev d z (f # fs) =
     (if pf_htype prev = PB_HTYPE_ONEOF \<and> pf_htype f = PB_HTYPE_ONEOF \<and> pf_data_offset f = PB_SIZE_MAX
      then (f, d, z) # walk f d z fs
      else (let d = d + prev_size prev + pf_data_offset f; z = size_addr d f in (f, d, z) # walk f d z fs))"

definition layout :: "pb_field list \<Rightarrow> nat \<Rightarrow> (pb_field \<times> nat \<times> nat) list" where
  "layout fs a =
     (case butlast fs of
        [] \<Rightarrow> []
      | f # gs \<Rightarrow> (let d = a + pf_data_offset f; z = size_addr d f in (f, d, z) # walk f d z gs))"

lemma length_walk [simp]: "length (walk prev d z fs) = length fs"
  by (induction prev d z fs rule: walk.induct) (auto simp: Let_def)

lemma fst_walk: "map fst (walk prev d z fs) = fs"
  by (induction prev d z fs rule: walk.induct) (auto simp: Let_def)

lemma length_layout [simp]: "length (layout fs a) = length fs - 1"
proof -
  have "length (butlast fs) = length fs - 1" by simp
  then show ?thesis by (cases "butlast fs") (simp_all add: layout_def Let_def del: length_butlast)
qed

lemma fst_layout: "map fst (layout fs a) = butlast fs"
  by (simp add: layout_def fst_walk Let_def split: list.split)

lemma wf_field_at:
  assumes "wf_fields fs"
  shows "pf_tag (field_at fs i) = 0 \<longleftrightarrow> length fs \<le> Suc i" "i < length fs - 1 \<Longrightarrow> field_at fs i = butlast fs ! i"
proof -
  have l: "fs \<noteq> []" "pf_tag (last fs) = 0" "list_all (\<lambda>f. pf_tag f \<noteq> 0) (butlast fs)"
    using assms by (simp_all add: wf_fields_def PB_LAST_FIELD_def)
  show n: "field_at fs i = butlast fs ! i" if "i < length fs - 1" for i
    using that by (simp add: field_at_def nth_butlast)
  show "pf_tag (field_at fs i) = 0 \<longleftrightarrow> length fs \<le> Suc i"
  proof (cases "i < length fs - 1")
    case True
    then show ?thesis using n [OF True] l(3) by (auto simp: list_all_length)
  next
    case False
    then have "i = length fs - 1 \<or> length fs \<le> i" by auto
    then show ?thesis using l by (auto simp: field_at_def last_conv_nth PB_LAST_FIELD_def)
  qed
qed

text \<open>The iterator at position \<open>i\<close> of a message.\<close>

definition it_at :: "pb_field list \<Rightarrow> nat \<Rightarrow> nat \<Rightarrow> pb_field_iter \<Rightarrow> bool" where
  "it_at fs a i it \<longleftrightarrow> it_start it = fs \<and> it_pos it = i \<and> it_dest it = a \<and> i < length fs - 1 \<and>
     (it_field it, it_pData it, it_pSize it) = layout fs a ! i"

lemma iter_begin_at:
  assumes "wf_fields fs"
  shows "pb_field_iter_begin fs a = (b, it) \<Longrightarrow> b \<longleftrightarrow> 1 < length fs"
    and "pb_field_iter_begin fs a = (b, it) \<Longrightarrow> 1 < length fs \<Longrightarrow> it_at fs a 0 it \<and> it_req it = 0"
proof -
  assume b: "pb_field_iter_begin fs a = (b, it)"
  show "b \<longleftrightarrow> 1 < length fs" using b wf_field_at(1) [OF assms, of 0] by (auto simp: pb_field_iter_begin_def Let_def)
  assume l: "1 < length fs"
  then obtain f gs where f: "butlast fs = f # gs" using length_butlast [of fs] by (cases "butlast fs") auto
  have "field_at fs 0 = f" using wf_field_at(2) [OF assms, of 0] l f by simp
  then show "it_at fs a 0 it \<and> it_req it = 0"
    using b l by (auto simp: pb_field_iter_begin_def it_at_def it_field_def layout_def f Let_def)
qed

lemma walk_nth:
  "walk prev d z fs ! i = (f, d', z') \<Longrightarrow> Suc i < length fs \<Longrightarrow>
   walk prev d z fs ! Suc i = hd (walk f d' z' [fs ! Suc i])"
proof (induction prev d z fs arbitrary: i rule: walk.induct)
  case (2 prev d z g gs)
  then obtain g' gs' where gs: "gs = g' # gs'" by (cases gs) auto
  show ?case
  proof (cases i)
    case 0
    then show ?thesis using 2(3) by (auto simp: gs Let_def split: if_splits)
  next
    case (Suc j)
    then show ?thesis using 2 by (auto simp: Let_def split: if_splits)
  qed
qed simp

lemma layout_nth:
  assumes "layout fs a ! i = (f, d, z)" "Suc i < length fs - 1"
  shows "layout fs a ! Suc i = hd (walk f d z [butlast fs ! Suc i])"
proof -
  have "length (butlast fs) = length fs - 1" by simp
  then obtain g gs where g: "butlast fs = g # gs" using assms(2) by (cases "butlast fs") auto
  then have l: "Suc i < length (g # gs)" using assms(2) by (metis length_butlast)
  show ?thesis
  proof (cases i)
    case 0
    then show ?thesis using assms(1) l g by (cases gs) (auto simp: layout_def Let_def)
  next
    case (Suc j)
    then show ?thesis
      using assms(1) l walk_nth [of g "a + pf_data_offset g" "size_addr (a + pf_data_offset g) g" gs j f d z]
      by (simp add: layout_def g Let_def)
  qed
qed

lemma it_field_at: "wf_fields fs \<Longrightarrow> it_at fs a i it \<Longrightarrow> it_field it = butlast fs ! i"
  by (auto simp: it_at_def it_field_def wf_field_at)

lemma iter_next_at:
  assumes wf: "wf_fields fs" and it: "it_at fs a i it" and n: "pb_field_iter_next it = (b, it')"
  shows "if Suc i < length fs - 1 then b \<and> it_at fs a (Suc i) it' else \<not> b \<and> it_at fs a 0 it'"
proof -
  have st: "it_start it = fs" "it_pos it = i" "it_dest it = a" "i < length fs - 1"
    and l: "layout fs a ! i = (it_field it, it_pData it, it_pSize it)"
    using it by (simp_all add: it_at_def)
  have t: "pf_tag (it_field it) \<noteq> 0" using wf_field_at(1) [OF wf, of i] st by (simp add: it_field_def)
  show ?thesis
  proof (cases "Suc i < length fs - 1")
    case True
    have f: "it_field (it\<lparr>it_pos := Suc i\<rparr>) = butlast fs ! Suc i"
      using wf_field_at(2) [OF wf True] st by (simp add: it_field_def)
    have t2: "pf_tag (butlast fs ! Suc i) \<noteq> 0" using wf_field_at [OF wf, of "Suc i"] True by auto
    show ?thesis
      using n True t t2 f st layout_nth [OF l True]
      by (auto simp: pb_field_iter_next_def Let_def it_at_def it_field_def split: if_splits)
  next
    case False
    have "pf_tag (it_field (it\<lparr>it_pos := Suc i\<rparr>)) = 0"
      using wf_field_at(1) [OF wf, of "Suc i"] False st by (simp add: it_field_def)
    then have "\<not> b \<and> it' = snd (pb_field_iter_begin fs a)"
      using n t st by (auto simp: pb_field_iter_next_def Let_def)
    moreover have "it_at fs a 0 (snd (pb_field_iter_begin fs a))"
      using iter_begin_at(2) [OF wf, of a] st(4) by (metis One_nat_def less_diff_conv less_nat_zero_code nat_neq_iff plus_1_eq_Suc prod.exhaust_sel not_less_eq add.commute)
    ultimately show ?thesis using False by simp
  qed
qed

end
