(* ===== verification/Pb_Encode.thy ===== *)
theory Pb_Encode
  imports Pb_Fields
begin

text \<open>
  The message encoder of nanopb, pb_encode.c from \<open>encode_array\<close> to \<open>pb_get_encoded_size\<close> with the
  field encoders. The message is read from the memory \<open>m\<close>, which the stream does not change. Functions
  that go through a function pointer or a descriptor look it up by its address in the environment.
  \<open>pb_encode\<close> and \<open>pb_check_proto3_default_value\<close> take the depth to which submessages are followed, and
  hand themselves with one less to the functions between, as \<open>rec\<close>; an extension list is followed
  for as many entries.
\<close>

record 's pb_env =
  env_fields :: "nat \<Rightarrow> pb_field list"
  env_encode :: "nat \<Rightarrow> memory \<Rightarrow> pb_field \<Rightarrow> nat \<Rightarrow> ('s pb_ostream, unit) op"
  env_ext_encode :: "nat \<Rightarrow> memory \<Rightarrow> nat \<Rightarrow> ('s pb_ostream, unit) op"

type_synonym 's encoder = "nat \<Rightarrow> ('s pb_ostream, unit) call"

section \<open>Tags of fields\<close>

definition pb_encode_tag_for_field :: "pb_field \<Rightarrow> ('s pb_ostream, unit) op" where
  "pb_encode_tag_for_field f =
     (if pf_ltype f = PB_LTYPE_VARINT \<or> pf_ltype f = PB_LTYPE_UVARINT \<or> pf_ltype f = PB_LTYPE_SVARINT
      then pb_encode_tag PB_WT_VARINT (pf_tag f)
      else if pf_ltype f = PB_LTYPE_FIXED32 then pb_encode_tag PB_WT_32BIT (pf_tag f)
      else if pf_ltype f = PB_LTYPE_FIXED64 then pb_encode_tag PB_WT_64BIT (pf_tag f)
      else if pf_ltype f = PB_LTYPE_BYTES \<or> pf_ltype f = PB_LTYPE_STRING \<or> pf_ltype f = PB_LTYPE_SUBMESSAGE \<or>
              pf_ltype f = PB_LTYPE_FIXED_LENGTH_BYTES
      then pb_encode_tag PB_WT_STRING (pf_tag f)
      else os_error ''invalid field type'')"

section \<open>Field encoders\<close>

definition int_size :: "nat \<Rightarrow> bool" where
  "int_size n \<longleftrightarrow> n = 1 \<or> n = 2 \<or> n = 4 \<or> n = 8"

definition pb_enc_varint :: "memory \<Rightarrow> pb_field \<Rightarrow> nat \<Rightarrow> ('s pb_ostream, unit) op" where
  "pb_enc_varint m f src =
     (if int_size (pf_data_size f) then pb_encode_varint (load_signed m src (pf_data_size f))
      else os_error ''invalid data_size'')"

definition pb_enc_uvarint :: "memory \<Rightarrow> pb_field \<Rightarrow> nat \<Rightarrow> ('s pb_ostream, unit) op" where
  "pb_enc_uvarint m f src =
     (if int_size (pf_data_size f) then pb_encode_varint (load_le m src (pf_data_size f))
      else os_error ''invalid data_size'')"

definition pb_enc_svarint :: "memory \<Rightarrow> pb_field \<Rightarrow> nat \<Rightarrow> ('s pb_ostream, unit) op" where
  "pb_enc_svarint m f src =
     (if int_size (pf_data_size f) then pb_encode_svarint (load_signed m src (pf_data_size f))
      else os_error ''invalid data_size'')"

definition pb_enc_fixed32 :: "memory \<Rightarrow> nat \<Rightarrow> ('s pb_ostream, unit) op" where
  "pb_enc_fixed32 m src = pb_encode_fixed32 m src"

definition pb_enc_fixed64 :: "memory \<Rightarrow> nat \<Rightarrow> ('s pb_ostream, unit) op" where
  "pb_enc_fixed64 m src = pb_encode_fixed64 m src"

text \<open>A \<open>pb_bytes_array_t\<close> has its bytes behind a size of 4 bytes.\<close>

definition PB_BYTES_ARRAY_T_ALLOCSIZE :: "nat \<Rightarrow> nat" where
  "PB_BYTES_ARRAY_T_ALLOCSIZE n = sz (n + 4)"

definition pb_enc_bytes :: "memory \<Rightarrow> pb_field \<Rightarrow> nat \<Rightarrow> ('s pb_ostream, unit) op" where
  "pb_enc_bytes m f src =
     (if src = 0 then pb_encode_string [] 0
      else if pf_atype f = PB_ATYPE_STATIC \<and> PB_BYTES_ARRAY_T_ALLOCSIZE (load_size m src) > pf_data_size f
      then os_error ''bytes size exceeded''
      else pb_encode_string (rd m (src + 4) (load_size m src)) (load_size m src))"

function strnlen_loop :: "memory \<Rightarrow> nat \<Rightarrow> nat \<Rightarrow> nat \<Rightarrow> nat" where
  "strnlen_loop m p max_size n =
     (if n < max_size \<and> m p \<noteq> 0 then strnlen_loop m (p + 1) max_size (n + 1) else n)"
  by pat_completeness auto
termination
  by (relation "measure (\<lambda>(m, p, max_size, n). max_size - n)") auto

declare strnlen_loop.simps [simp del]

definition pb_enc_string :: "memory \<Rightarrow> pb_field \<Rightarrow> nat \<Rightarrow> ('s pb_ostream, unit) op" where
  "pb_enc_string m f src =
     (let max_size = (if pf_atype f = PB_ATYPE_POINTER then 2 ^ 64 - 1 else pf_data_size f);
          n = (if src = 0 then 0 else strnlen_loop m src max_size 0)
      in pb_encode_string (rd m src n) n)"

definition pb_enc_fixed_length_bytes :: "memory \<Rightarrow> pb_field \<Rightarrow> nat \<Rightarrow> ('s pb_ostream, unit) op" where
  "pb_enc_fixed_length_bytes m f src = pb_encode_string (rd m src (pf_data_size f)) (pf_data_size f)"

definition pb_encode_submessage :: "(nat \<Rightarrow> 's encoder) \<Rightarrow> nat \<Rightarrow> 's encoder" where
  "pb_encode_submessage rec flds src s =
     (case rec flds src PB_OSTREAM_SIZING of
        None \<Rightarrow> None
      | Some (None, substream) \<Rightarrow> Some (None, s\<lparr>os_errmsg := os_errmsg substream\<rparr>)
      | Some (Some _, substream) \<Rightarrow>
          (let n = os_written substream in
           call_bind (call_op (pb_encode_varint (word_of_nat n))) (\<lambda>_ s.
             if os_sink s = None then Some (pb_write [] n s)
             else if sz (os_written s + n) > os_max_size s then Some (os_error ''stream full'' s)
             else
               (case rec flds src \<lparr>os_sink = os_sink s, os_max_size = n, os_written = 0, os_errmsg = None\<rparr> of
                  None \<Rightarrow> None
                | Some (status, substream) \<Rightarrow>
                    (let s = s\<lparr>os_written := sz (os_written s + os_written substream), os_sink := os_sink substream,
                                os_errmsg := os_errmsg substream\<rparr>
                     in if os_written substream \<noteq> n then Some (os_error ''submsg size changed'' s)
                        else Some (status, s)))) s))"

definition pb_enc_submessage :: "(nat \<Rightarrow> 's encoder) \<Rightarrow> pb_field \<Rightarrow> 's encoder" where
  "pb_enc_submessage rec f src =
     (case pf_ptr f of
        Ptr_null \<Rightarrow> call_op (os_error ''invalid field descriptor'')
      | Ptr_fields flds \<Rightarrow> pb_encode_submessage rec flds src
      | Ptr_default _ \<Rightarrow> call_crash)"

text \<open>\<open>PB_ENCODERS[PB_LTYPE(field->type)](stream, field, src)\<close>.\<close>

definition PB_ENCODERS :: "(nat \<Rightarrow> 's encoder) \<Rightarrow> memory \<Rightarrow> pb_field \<Rightarrow> 's encoder" where
  "PB_ENCODERS rec m f src =
     (let t = pf_ltype f in
      if t = PB_LTYPE_VARINT then call_op (pb_enc_varint m f src)
      else if t = PB_LTYPE_UVARINT then call_op (pb_enc_uvarint m f src)
      else if t = PB_LTYPE_SVARINT then call_op (pb_enc_svarint m f src)
      else if t = PB_LTYPE_FIXED32 then call_op (pb_enc_fixed32 m src)
      else if t = PB_LTYPE_FIXED64 then call_op (pb_enc_fixed64 m src)
      else if t = PB_LTYPE_BYTES then call_op (pb_enc_bytes m f src)
      else if t = PB_LTYPE_STRING then call_op (pb_enc_string m f src)
      else if t = PB_LTYPE_SUBMESSAGE then pb_enc_submessage rec f src
      else if t = PB_LTYPE_FIXED_LENGTH_BYTES then call_op (pb_enc_fixed_length_bytes m f src)
      else call_crash)"

section \<open>Arrays\<close>

fun encode_array_items :: "'s encoder \<Rightarrow> nat \<Rightarrow> nat \<Rightarrow> nat \<Rightarrow> ('s pb_ostream, unit) call" where
  "encode_array_items func step 0 p = call_op (op_return ())"
| "encode_array_items func step (Suc n) p = call_bind (func p) (\<lambda>_. encode_array_items func step n (p + step))"

text \<open>The total size of a packed array; None inside where an entry fails on the sizing stream.\<close>

definition packed_size :: "'s encoder \<Rightarrow> pb_field \<Rightarrow> nat \<Rightarrow> nat \<Rightarrow> nat option option" where
  "packed_size func f pData count =
     (if pf_ltype f = PB_LTYPE_FIXED32 then Some (Some (4 * count))
      else if pf_ltype f = PB_LTYPE_FIXED64 then Some (Some (8 * count))
      else (case encode_array_items func (pf_data_size f) count pData PB_OSTREAM_SIZING of
              None \<Rightarrow> None
            | Some (None, _) \<Rightarrow> Some None
            | Some (Some _, sizestream) \<Rightarrow> Some (Some (os_written sizestream))))"

definition encode_array :: "memory \<Rightarrow> pb_field \<Rightarrow> nat \<Rightarrow> nat \<Rightarrow> 's encoder \<Rightarrow> ('s pb_ostream, unit) call" where
  "encode_array m f pData count func =
     (if count = 0 then call_op (op_return ())
      else if pf_atype f \<noteq> PB_ATYPE_POINTER \<and> count > pf_array_size f
      then call_op (os_error ''array max size exceeded'')
      else if pf_ltype f \<le> PB_LTYPE_LAST_PACKABLE then
        call_bind (call_op (pb_encode_tag PB_WT_STRING (pf_tag f))) (\<lambda>_ s.
          case packed_size func f pData count of
            None \<Rightarrow> None
          | Some None \<Rightarrow> Some (None, s)
          | Some (Some n) \<Rightarrow>
              call_bind (call_op (pb_encode_varint (word_of_nat n))) (\<lambda>_ s.
                if os_sink s = None then Some (pb_write [] n s)
                else encode_array_items func (pf_data_size f) count pData s) s)
      else
        encode_array_items (\<lambda>p. call_bind (call_op (pb_encode_tag_for_field f)) (\<lambda>_.
          if pf_atype f = PB_ATYPE_POINTER \<and> (pf_ltype f = PB_LTYPE_STRING \<or> pf_ltype f = PB_LTYPE_BYTES)
          then func (load_ptr m p) else func p)) (pf_data_size f) count pData)"

section \<open>Default values\<close>

text \<open>The \<open>do\<close> loop over the fields of a submessage.\<close>

function check_fields :: "(pb_field \<Rightarrow> nat \<Rightarrow> bool option) \<Rightarrow> pb_field_iter \<Rightarrow> bool option" where
  "check_fields rec it =
     (case rec (it_field it) (it_pData it) of
        None \<Rightarrow> None
      | Some False \<Rightarrow> Some False
      | Some True \<Rightarrow>
          (case pb_field_iter_next it of
             (True, it) \<Rightarrow> check_fields rec it
           | (False, _) \<Rightarrow> Some True))"
  by pat_completeness auto
termination
  by (relation "measure (\<lambda>(rec, it). length (it_start it) - it_pos it)") (auto dest: iter_next_measure [OF sym])

declare check_fields.simps [simp del]

fun pb_check_proto3_default_value :: "(nat \<Rightarrow> pb_field list) \<Rightarrow> nat \<Rightarrow> memory \<Rightarrow> pb_field \<Rightarrow> nat \<Rightarrow> bool option" where
  "pb_check_proto3_default_value descs 0 m f pData = None"
| "pb_check_proto3_default_value descs (Suc n) m f pData =
     (let pSize = size_addr pData f; all_zero = Some (list_all (\<lambda>b. b = 0) (rd m pData (pf_data_size f))) in
      if pf_htype f = PB_HTYPE_REQUIRED then Some False
      else if pf_htype f = PB_HTYPE_REPEATED then Some (load_size m pSize = 0)
      else if pf_htype f = PB_HTYPE_ONEOF then Some (load_size m pSize = 0)
      else if pf_htype f = PB_HTYPE_OPTIONAL \<and> pf_size_offset f \<noteq> 0 then Some (m pSize = 0)
      else if pf_atype f = PB_ATYPE_STATIC then
        (if pf_ltype f = PB_LTYPE_BYTES then Some (load_size m pData = 0)
         else if pf_ltype f = PB_LTYPE_STRING then Some (m pData = 0)
         else if pf_ltype f = PB_LTYPE_FIXED_LENGTH_BYTES then Some (pf_data_size f = 0)
         else if pf_ltype f = PB_LTYPE_SUBMESSAGE then
           (case pf_ptr f of
              Ptr_fields i \<Rightarrow>
                (case pb_field_iter_begin (descs i) pData of
                   (True, it) \<Rightarrow> check_fields (pb_check_proto3_default_value descs n m) it
                 | (False, _) \<Rightarrow> Some True)
            | _ \<Rightarrow> None)
         else all_zero)
      else all_zero)"

section \<open>Fields\<close>

definition encode_basic_field ::
  "(pb_field \<Rightarrow> nat \<Rightarrow> bool option) \<Rightarrow> (nat \<Rightarrow> 's encoder) \<Rightarrow> memory \<Rightarrow> pb_field \<Rightarrow> 's encoder" where
  "encode_basic_field check rec m f pData s =
     (let func = PB_ENCODERS rec m f;
          pSize = size_addr pData f;
          implicit_has = (if pf_size_offset f \<noteq> 0 then Some True
                          else if pf_htype f = PB_HTYPE_OPTIONAL then map_option Not (check f pData)
                          else Some True)
      in case implicit_has of
           None \<Rightarrow> None
         | Some has \<Rightarrow>
             (let is_ptr = (pf_atype f = PB_ATYPE_POINTER);
                  pData = (if is_ptr then load_ptr m pData else pData);
                  has = (if is_ptr then pData \<noteq> 0 else has);
                  tag_and_data = call_bind (call_op (pb_encode_tag_for_field f)) (\<lambda>_. func pData)
              in
              if pf_htype f = PB_HTYPE_REQUIRED then
                (if pData = 0 then call_op (os_error ''missing required field'') s else tag_and_data s)
              else if pf_htype f = PB_HTYPE_OPTIONAL then
                (if (if pf_size_offset f \<noteq> 0 then m pSize \<noteq> 0 else has) then tag_and_data s
                 else call_op (op_return ()) s)
              else if pf_htype f = PB_HTYPE_REPEATED then
                encode_array m f pData (if pf_size_offset f \<noteq> 0 then load_size m pSize else pf_array_size f) func s
              else if pf_htype f = PB_HTYPE_ONEOF then
                (if pf_size_offset f = 0 then call_crash s
                 else if load_size m pSize = unat (pf_tag f) then tag_and_data s
                 else call_op (op_return ()) s)
              else call_op (os_error ''invalid field type'') s))"

definition encode_callback_field :: "'s pb_env \<Rightarrow> memory \<Rightarrow> pb_field \<Rightarrow> nat \<Rightarrow> ('s pb_ostream, unit) op" where
  "encode_callback_field env m f pData s =
     (if load_ptr m pData \<noteq> 0
      then (case env_encode env (load_ptr m pData) m f (pData + 8) s of
              (None, s) \<Rightarrow> os_error ''callback error'' s
            | (Some u, s) \<Rightarrow> (Some u, s))
      else (Some (), s))"

definition encode_field ::
  "'s pb_env \<Rightarrow> (pb_field \<Rightarrow> nat \<Rightarrow> bool option) \<Rightarrow> (nat \<Rightarrow> 's encoder) \<Rightarrow> memory \<Rightarrow> pb_field \<Rightarrow> 's encoder" where
  "encode_field env check rec m f pData =
     (if pf_atype f = PB_ATYPE_STATIC \<or> pf_atype f = PB_ATYPE_POINTER then encode_basic_field check rec m f pData
      else if pf_atype f = PB_ATYPE_CALLBACK then call_op (encode_callback_field env m f pData)
      else call_op (os_error ''invalid field type''))"

text \<open>
  A \<open>pb_extension_t\<close> holds the pointers \<open>type\<close>, \<open>dest\<close> and \<open>next\<close> and the flag \<open>found\<close>; a
  \<open>pb_extension_type_t\<close> the functions \<open>decode\<close> and \<open>encode\<close> and \<open>arg\<close>.
\<close>

definition default_extension_encoder :: "'s pb_env \<Rightarrow> (pb_field \<Rightarrow> 's encoder) \<Rightarrow> memory \<Rightarrow> 's encoder" where
  "default_extension_encoder env enc m ext =
     (let f = field_at (env_fields env (load_ptr m (load_ptr m ext + 16))) 0
      in if pf_atype f = PB_ATYPE_POINTER then enc f (ext + 8) else enc f (load_ptr m (ext + 8)))"

fun encode_extensions :: "'s pb_env \<Rightarrow> (pb_field \<Rightarrow> 's encoder) \<Rightarrow> memory \<Rightarrow> nat \<Rightarrow> 's encoder" where
  "encode_extensions env enc m 0 ext = (if ext = 0 then call_op (op_return ()) else call_crash)"
| "encode_extensions env enc m (Suc n) ext =
     (if ext = 0 then call_op (op_return ())
      else call_bind
        (if load_ptr m (load_ptr m ext + 8) \<noteq> 0
         then call_op (env_ext_encode env (load_ptr m (load_ptr m ext + 8)) m ext)
         else default_extension_encoder env enc m ext)
        (\<lambda>_. encode_extensions env enc m n (load_ptr m (ext + 16))))"

definition encode_extension_field :: "'s pb_env \<Rightarrow> (pb_field \<Rightarrow> 's encoder) \<Rightarrow> memory \<Rightarrow> nat \<Rightarrow> 's encoder" where
  "encode_extension_field env enc m n pData = encode_extensions env enc m n (load_ptr m pData)"

section \<open>Messages\<close>

function encode_fields :: "(pb_field \<Rightarrow> 's encoder) \<Rightarrow> pb_field_iter \<Rightarrow> ('s pb_ostream, unit) call" where
  "encode_fields enc it =
     call_bind (enc (it_field it) (it_pData it)) (\<lambda>_.
       case pb_field_iter_next it of
         (True, it) \<Rightarrow> encode_fields enc it
       | (False, _) \<Rightarrow> call_op (op_return ()))"
  by pat_completeness auto
termination
  by (relation "measure (\<lambda>(enc, it). length (it_start it) - it_pos it)") (auto dest: iter_next_measure [OF sym])

declare encode_fields.simps [simp del]

fun pb_encode :: "'s pb_env \<Rightarrow> nat \<Rightarrow> memory \<Rightarrow> nat \<Rightarrow> 's encoder" where
  "pb_encode env 0 m flds src = call_crash"
| "pb_encode env (Suc n) m flds src =
     (let enc = encode_field env (pb_check_proto3_default_value (env_fields env) n m) (pb_encode env n m) m
      in case pb_field_iter_begin (env_fields env flds) src of
           (False, _) \<Rightarrow> call_op (op_return ())
         | (True, it) \<Rightarrow>
             encode_fields (\<lambda>f pData.
               if pf_ltype f = PB_LTYPE_EXTENSION then encode_extension_field env enc m n pData
               else enc f pData) it)"

definition pb_encode_delimited :: "'s pb_env \<Rightarrow> nat \<Rightarrow> memory \<Rightarrow> nat \<Rightarrow> 's encoder" where
  "pb_encode_delimited env n m flds src = pb_encode_submessage (pb_encode env n m) flds src"

definition pb_encode_nullterminated :: "'s pb_env \<Rightarrow> nat \<Rightarrow> memory \<Rightarrow> nat \<Rightarrow> 's encoder" where
  "pb_encode_nullterminated env n m flds src = call_bind (pb_encode env n m flds src) (\<lambda>_. call_op (pb_write [0] 1))"

text \<open>None inside for \<open>false\<close>.\<close>

definition pb_get_encoded_size :: "'s pb_env \<Rightarrow> nat \<Rightarrow> memory \<Rightarrow> nat \<Rightarrow> nat \<Rightarrow> nat option option" where
  "pb_get_encoded_size env n m flds src =
     (case pb_encode env n m flds src PB_OSTREAM_SIZING of
        None \<Rightarrow> None
      | Some (None, _) \<Rightarrow> Some None
      | Some (Some _, stream) \<Rightarrow> Some (Some (os_written stream)))"

end
