(* ===== verification/Pb_Varint.thy ===== *)
theory Pb_Varint
  imports Pb_Wire
begin

text \<open>
  What the integers of the wire format are: a varint is a sequence of bytes of which all but
  the last have their high bit set, and stands for the number of its 7 bit groups, the lowest first.
  \<open>enc_varint\<close> is the shortest one. The routines of pb_encode.c and pb_decode.c are proved against this.
\<close>

fun is_varint :: "bytes \<Rightarrow> bool" where
  "is_varint [] \<longleftrightarrow> False"
| "is_varint [b] \<longleftrightarrow> unat b < 128"
| "is_varint (b # bs) \<longleftrightarrow> 128 \<le> unat b \<and> is_varint bs"

fun varint_val :: "bytes \<Rightarrow> nat" where
  "varint_val [] = 0"
| "varint_val (b # bs) = unat b mod 128 + 128 * varint_val bs"

fun enc_varint :: "nat \<Rightarrow> bytes" where
  "enc_varint n = (if n < 128 then [word_of_nat n] else word_of_nat (n mod 128 + 128) # enc_varint (n div 128))"

declare enc_varint.simps [simp del]

lemma is_varint_Cons: "is_varint (b # bs) \<longleftrightarrow> (if bs = [] then unat b < 128 else 128 \<le> unat b \<and> is_varint bs)"
  by (cases bs) auto

lemma enc_varint_ne [simp]: "enc_varint n \<noteq> []"
  by (subst enc_varint.simps) simp

lemma unat_more_byte [simp]: "unat (word_of_nat (n mod 128) + 128 :: u8) = n mod 128 + 128"
proof -
  have "unat (word_of_nat (n mod 128 + 128) :: u8) = n mod 128 + 128" by (simp only: unat_byte_of_nat) simp
  then show ?thesis by simp
qed

lemma is_varint_enc: "is_varint (enc_varint n)"
proof (induction n rule: enc_varint.induct)
  case (1 n)
  then show ?case by (subst enc_varint.simps) (simp add: is_varint_Cons)
qed

lemma varint_val_enc: "varint_val (enc_varint n) = n"
proof (induction n rule: enc_varint.induct)
  case (1 n)
  then show ?case by (subst enc_varint.simps) simp
qed

lemma length_enc_varint: "n < 128 ^ Suc k \<Longrightarrow> length (enc_varint n) \<le> Suc k"
proof (induction k arbitrary: n)
  case 0
  then show ?case by (subst enc_varint.simps) simp
next
  case (Suc k)
  have "n div 128 < 128 ^ Suc k" using Suc.prems by (simp add: less_mult_imp_div_less)
  then show ?case using Suc.IH by (subst enc_varint.simps) simp
qed

lemma length_enc_varint_64: "n < 2 ^ 64 \<Longrightarrow> length (enc_varint n) \<le> 10"
  using length_enc_varint [of n 9] by simp

section \<open>Encoding\<close>

lemma varint_byte: "(ucast (v AND 0x7f) OR 0x80 :: u8) = word_of_nat (unat v mod 128 + 128)" for v :: u64
proof -
  have "(ucast (v AND 0x7f) :: u8) = word_of_nat (unat v mod 128)"
    using digit_byte [of 0 v] by (intro word_eq_of_nat) simp
  then show ?thesis using byte_or_80 [of "ucast (v AND 0x7f)"] by (simp del: unsigned_ucast_eq)
qed

lemma varint_last: "n < 128 \<Longrightarrow> (word_of_nat (n + 128) :: u8) AND 0x7f = word_of_nat n"
  by (rule byte_eq_of_nat) (simp only: unat_and_7f unat_byte_of_nat, simp)

lemma varint_bytes_eq:
  "v \<noteq> 0 \<Longrightarrow> varint_bytes v \<noteq> [] \<and>
    (let b = varint_bytes v; i = length b in b[i - 1 := b ! (i - 1) AND 0x7f]) = enc_varint (unat v)"
proof (induction v rule: varint_bytes.induct)
  case (1 v)
  have s: "varint_bytes v = word_of_nat (unat v mod 128 + 128) # varint_bytes (drop_bit 7 v)"
    using "1.prems" by (subst varint_bytes.simps) (simp only: varint_byte if_False)
  show ?case
  proof (cases "drop_bit 7 v = 0")
    case True
    then have "unat v < 128" by (simp add: drop_zero_iff)
    then show ?thesis
      using True varint_last [of "unat v"] unfolding s
      by (simp add: varint_bytes.simps enc_varint.simps Let_def)
  next
    case False
    then obtain b bs where b: "varint_bytes (drop_bit 7 v) = b # bs" using "1.IH" "1.prems" by (cases "varint_bytes (drop_bit 7 v)") auto
    have "\<not> unat v < 128" using False by (simp add: drop_zero_iff)
    then show ?thesis
      using "1.IH" "1.prems" False unfolding s b by (subst enc_varint.simps) (simp add: Let_def unat_drop)
  qed
qed

context sink
begin

lemma emits_varint: "emits callback put (pb_encode_varint v) (enc_varint (unat v))"
proof (cases "v \<le> 0x7f")
  case True
  then have "unat v < 128" by (simp add: word_le_nat_alt)
  then have "enc_varint (unat v) = [ucast v]" by (subst enc_varint.simps) simp
  then show ?thesis using True emits_write [of "[ucast v]" 1] by (simp add: pb_encode_varint_def)
next
  case False
  then have "v \<noteq> 0" by auto
  then show ?thesis
    using False varint_bytes_eq [of v] emits_write [of "enc_varint (unat v)" "length (varint_bytes v)"]
    by (simp add: pb_encode_varint_def Let_def) (metis length_list_update)
qed

end

section \<open>Decoding\<close>

lemma ucast_and_7f: "(ucast (b AND 0x7f) :: 'a::len word) = word_of_nat (unat b mod 128)" for b :: u8
proof -
  have "(ucast (b AND 0x7f) :: 'a word) = word_of_nat (unat (b AND 0x7f))" by simp
  then show ?thesis by (simp only: unat_and_7f)
qed

lemma or_group:
  assumes "R < 2 ^ k" "k < LENGTH('a)"
  shows "word_of_nat R OR push_bit k (word_of_nat g) = (word_of_nat (R + 2 ^ k * g) :: 'a::len word)"
proof -
  have "(word_of_nat R :: 'a word) = word_of_nat (take_bit k R)" using assms(1) by (simp add: take_bit_nat_eq_self)
  then have "(word_of_nat R :: 'a word) = take_bit k (word_of_nat R)" by (simp add: take_bit_of_nat)
  moreover have "take_bit k (w :: 'a word) AND push_bit k v = 0" for w v
    by (rule bit_word_eqI) (auto simp: bit_simps)
  ultimately have "(word_of_nat R :: 'a word) AND push_bit k (word_of_nat g) = 0" by metis
  then have "word_of_nat R OR push_bit k (word_of_nat g) = (word_of_nat R + push_bit k (word_of_nat g) :: 'a word)"
    by (rule disjunctive_add_eq_or [symmetric])
  then show ?thesis by (simp add: push_bit_eq_mult mult.commute)
qed

lemma varint_loop_delivers:
  "is_varint xs \<Longrightarrow> k + length xs \<le> 10 \<Longrightarrow> R < 2 ^ (7 * k) \<Longrightarrow> delivers vw m s (xs @ ys) zs \<Longrightarrow>
   \<exists>s'. varint_loop m (word_of_nat (7 * k)) (word_of_nat R) s =
     (Some (word_of_nat (R + 2 ^ (7 * k) * varint_val xs)), s') \<and> delivers vw m s' ys zs"
proof (induction xs arbitrary: k R s)
  case (Cons b bs)
  obtain s1 where s1: "pb_readbyte m s = (Some b, s1)" "delivers vw m s1 (bs @ ys) zs"
    using readbyte_delivers Cons.prems(4) by fastforce
  have k: "7 * k < 64" "(7 * k) mod 256 = 7 * k" using Cons.prems(2) by simp_all
  then have bp: "unat (word_of_nat (7 * k) :: u8) = 7 * k" by (simp only: unat_byte_of_nat)
  then have lt: "\<not> (64 :: u8) \<le> word_of_nat (7 * k)" using k by (simp only: word_le_nat_alt) simp
  let ?R = "R + 2 ^ (7 * k) * (unat b mod 128)"
  have r: "word_of_nat R OR push_bit (7 * k) (ucast (b AND 0x7f)) = (word_of_nat ?R :: u64)"
    unfolding ucast_and_7f using k by (intro or_group Cons.prems) simp
  have n: "word_of_nat (7 * k) + 7 = (word_of_nat (7 * Suc k) :: u8)" by simp
  have e: "(2 :: nat) ^ (7 * Suc k) = 2 ^ (7 * k) * 128" by (simp add: power_add)
  show ?case
  proof (cases "bs = []")
    case True
    then have "b AND 0x80 = 0" using Cons.prems(1) by (simp add: and_80_iff)
    then show ?thesis
      using s1 True lt r k(2)
      by (subst varint_loop.simps) (simp del: of_nat_mult of_nat_add)
  next
    case False
    then have b: "b AND 0x80 \<noteq> 0" "is_varint bs" using Cons.prems(1) by (auto simp: and_80_iff is_varint_Cons)
    have "?R < 2 ^ (7 * k) + 2 ^ (7 * k) * 127"
      using Cons.prems(3) mod_less_divisor [of 128 "unat b"] by (intro add_less_le_mono mult_le_mono2) auto
    then have "?R < 2 ^ (7 * Suc k)" unfolding e by simp
    from Cons.IH [OF b(2) _ this s1(2)] obtain s2 where
      s2: "varint_loop m (word_of_nat (7 * Suc k)) (word_of_nat ?R) s1 =
        (Some (word_of_nat (?R + 2 ^ (7 * Suc k) * varint_val bs)), s2)" "delivers vw m s2 ys zs"
      using Cons.prems(2) by auto
    have "?R + 2 ^ (7 * Suc k) * varint_val bs = R + 2 ^ (7 * k) * varint_val (b # bs)"
      unfolding e by (simp add: algebra_simps)
    then have "varint_loop m (word_of_nat (7 * k)) (word_of_nat R) s =
        (Some (word_of_nat (R + 2 ^ (7 * k) * varint_val (b # bs))), s2)"
      using s2(1) b(1) lt s1(1) by (subst varint_loop.simps) (simp only: bp r n prod.case option.case Let_def if_True if_False not_False_eq_True)
    then show ?thesis using s2(2) by blast
  qed
qed simp

text \<open>
  \<open>pb_decode_varint\<close> reads every varint of at most 10 bytes, minimal or not, as its value
  modulo \<open>2 ^ 64\<close>.
\<close>

lemma decode_varint_delivers:
  assumes "is_varint xs" "length xs \<le> 10" "delivers vw m s (xs @ ys) zs"
  shows "\<exists>s'. pb_decode_varint m s = (Some (word_of_nat (varint_val xs)), s') \<and> delivers vw m s' ys zs"
  using varint_loop_delivers [of xs 0 0 vw m s ys zs] assms by (simp add: pb_decode_varint_def)

lemma decode_varint_enc:
  assumes "n < 2 ^ 64" "delivers vw m s (enc_varint n @ ys) zs"
  shows "\<exists>s'. pb_decode_varint m s = (Some (word_of_nat n), s') \<and> delivers vw m s' ys zs"
  using decode_varint_delivers [OF is_varint_enc length_enc_varint_64 [OF assms(1)] assms(2)]
  by (simp add: varint_val_enc)

text \<open>Longer ones are refused.\<close>

lemma varint_loop_long:
  "k \<le> 10 \<Longrightarrow> length xs + k = 10 \<Longrightarrow> list_all (\<lambda>b. 128 \<le> unat b) xs \<Longrightarrow> delivers vw m s (xs @ ys) zs \<Longrightarrow>
   fst (varint_loop m (word_of_nat (7 * k)) r s) = None"
proof (induction xs arbitrary: k r s)
  case Nil
  then show ?case by (subst varint_loop.simps) (simp add: is_error_def)
next
  case (Cons b bs)
  obtain s1 where s1: "pb_readbyte m s = (Some b, s1)" "delivers vw m s1 (bs @ ys) zs"
    using readbyte_delivers Cons.prems(4) by fastforce
  have k: "7 * k < 64" "(7 * k) mod 256 = 7 * k" using Cons.prems(2) by simp_all
  then have "unat (word_of_nat (7 * k) :: u8) = 7 * k" by (simp only: unat_byte_of_nat)
  then have lt: "\<not> (64 :: u8) \<le> word_of_nat (7 * k)" using k by (simp only: word_le_nat_alt) simp
  have b: "b AND 0x80 \<noteq> 0" using Cons.prems(3) by (auto simp: and_80_iff)
  have n: "word_of_nat (7 * k) + 7 = (word_of_nat (7 * Suc k) :: u8)" by simp
  have IH: "fst (varint_loop m (word_of_nat (7 * Suc k)) r' s1) = None" for r'
    using Cons.IH [of "Suc k" s1 r'] Cons.prems s1(2) by simp
  show ?case
    using IH b lt s1(1) by (subst varint_loop.simps) (simp only: n prod.case option.case Let_def if_True if_False not_False_eq_True)
qed

lemma skip_varint_delivers:
  "is_varint xs \<Longrightarrow> delivers vw m s (xs @ ys) zs \<Longrightarrow>
   \<exists>s'. pb_skip_varint m s = (Some (), s') \<and> delivers vw m s' ys zs"
proof (induction xs arbitrary: s)
  case (Cons b bs)
  obtain s1 where s1: "pb_read m 1 s = (Some [b], s1)" "delivers vw m s1 (bs @ ys) zs"
    using read_delivers [of vw m s "[b]" "bs @ ys" zs 1] Cons.prems(2) by auto
  show ?case
  proof (cases "bs = []")
    case True
    then have "b AND 0x80 = 0" using Cons.prems(1) by (simp add: and_80_iff)
    then show ?thesis using s1 True by (subst pb_skip_varint.simps) simp
  next
    case False
    then have b: "b AND 0x80 \<noteq> 0" "is_varint bs" using Cons.prems(1) by (auto simp: and_80_iff is_varint_Cons)
    then obtain s2 where "pb_skip_varint m s1 = (Some (), s2)" "delivers vw m s2 ys zs"
      using Cons.IH s1(2) by blast
    then show ?thesis using b(1) s1(1) by (subst pb_skip_varint.simps) simp
  qed
qed simp

text \<open>
  \<open>pb_decode_varint32\<close> reads the varints of at most 5 bytes whose value fits 32 bits, and refuses
  those whose value does not.
\<close>

lemma and_not_mask_zero: "x AND NOT (mask k) = 0 \<longleftrightarrow> drop_bit k x = 0" for x :: "'a::len word"
proof -
  have "bit (x AND NOT (mask k)) n \<longleftrightarrow> k \<le> n \<and> bit (drop_bit k x) (n - k)" for n
    using bit_imp_le_length [of x n] by (auto simp: bit_simps)
  moreover have "bit (drop_bit k x) n \<longleftrightarrow> bit (x AND NOT (mask k)) (n + k)" for n
    using bit_imp_le_length [of x "k + n"] by (auto simp: bit_simps add.commute)
  ultimately show ?thesis by (metis bit_0_eq bit_eq_iff bot_apply bot_bool_def)
qed

lemma and_70_iff: "b AND 0x70 = 0 \<longleftrightarrow> unat b mod 128 < 16" for b :: u8
proof -
  have "(0x7f AND NOT (mask 4) :: u8) = 0x70" by (simp add: mask_eq_exp_minus_1)
  then have "b AND 0x70 = (b AND 0x7f) AND NOT (mask 4)" by (simp only: and.assoc)
  then have "b AND 0x70 = 0 \<longleftrightarrow> drop_bit 4 (b AND 0x7f) = 0" by (simp only: and_not_mask_zero)
  then show ?thesis by (simp only: drop_zero_iff unat_and_7f) simp
qed

text \<open>Within the first five bytes.\<close>

lemma varint32_loop_delivers:
  "is_varint xs \<Longrightarrow> 0 < k \<Longrightarrow> k + length xs \<le> 5 \<Longrightarrow> R < 2 ^ (7 * k) \<Longrightarrow> delivers vw m s (xs @ ys) zs \<Longrightarrow>
   R + 2 ^ (7 * k) * varint_val xs < 2 ^ 32 \<Longrightarrow>
   \<exists>s'. varint32_loop m (word_of_nat (7 * k)) (word_of_nat R) s =
     (Some (word_of_nat (R + 2 ^ (7 * k) * varint_val xs)), s') \<and> delivers vw m s' ys zs"
proof (induction xs arbitrary: k R s)
  case (Cons b bs)
  obtain s1 where s1: "pb_readbyte m s = (Some b, s1)" "delivers vw m s1 (bs @ ys) zs"
    using readbyte_delivers Cons.prems(5) by fastforce
  have k: "7 * k < 32" "(7 * k) mod 256 = 7 * k" using Cons.prems(3) by simp_all
  then have bp: "unat (word_of_nat (7 * k) :: u8) = 7 * k" by (simp only: unat_byte_of_nat)
  then have lt: "\<not> (32 :: u8) \<le> word_of_nat (7 * k)" using k by (simp only: word_le_nat_alt) simp
  let ?R = "R + 2 ^ (7 * k) * (unat b mod 128)"
  have r: "word_of_nat R OR push_bit (7 * k) (ucast (b AND 0x7f)) = (word_of_nat ?R :: u32)"
    unfolding ucast_and_7f using k by (intro or_group Cons.prems) simp
  have n: "word_of_nat (7 * k) + 7 = (word_of_nat (7 * Suc k) :: u8)" by simp
  have e: "(2 :: nat) ^ (7 * Suc k) = 2 ^ (7 * k) * 128" by (simp add: power_add)
  have v: "R + 2 ^ (7 * k) * varint_val (b # bs) = ?R + 2 ^ (7 * Suc k) * varint_val bs"
    unfolding e by (simp add: algebra_simps)
  show ?case
  proof (cases "bs = []")
    case True
    have b: "b AND 0x80 = 0" using Cons.prems(1) True by (simp add: and_80_iff)
    have "\<not> ((word_of_nat (7 * Suc k) :: u8) = 35 \<and> b AND 0x70 \<noteq> 0)"
    proof
      assume a: "(word_of_nat (7 * Suc k) :: u8) = 35 \<and> b AND 0x70 \<noteq> 0"
      then have "unat (word_of_nat (7 * Suc k) :: u8) = 35" by simp
      then have "7 * Suc k = 35" using Cons.prems(3) by (simp only: unat_byte_of_nat) simp
      then have "k = 4" by simp
      then have "2 ^ 28 * (unat b mod 128) < 2 ^ 32" using Cons.prems(6) True by simp
      then have "unat b mod 128 < 16" by simp
      then show False using a by (simp add: and_70_iff)
    qed
    then have "varint32_loop m (word_of_nat (7 * k)) (word_of_nat R) s = (Some (word_of_nat ?R), s1)"
      using s1(1) b lt by (subst varint32_loop.simps)
        (simp only: bp r n prod.case option.case Let_def if_True if_False not_False_eq_True simp_thms)
    then show ?thesis using s1(2) True unfolding v by auto
  next
    case False
    then have b: "b AND 0x80 \<noteq> 0" "is_varint bs" using Cons.prems(1) by (auto simp: and_80_iff is_varint_Cons)
    have "?R < 2 ^ (7 * k) + 2 ^ (7 * k) * 127"
      using Cons.prems(4) mod_less_divisor [of 128 "unat b"] by (intro add_less_le_mono mult_le_mono2) auto
    then have "?R < 2 ^ (7 * Suc k)" unfolding e by simp
    from Cons.IH [OF b(2) _ _ this s1(2)] obtain s2 where
      s2: "varint32_loop m (word_of_nat (7 * Suc k)) (word_of_nat ?R) s1 =
        (Some (word_of_nat (R + 2 ^ (7 * k) * varint_val (b # bs))), s2)" "delivers vw m s2 ys zs"
      using Cons.prems(3,6) unfolding v by auto
    have "varint32_loop m (word_of_nat (7 * k)) (word_of_nat R) s =
        (Some (word_of_nat (R + 2 ^ (7 * k) * varint_val (b # bs))), s2)"
      using s2(1) b(1) lt s1(1) by (subst varint32_loop.simps)
        (simp only: bp r n prod.case option.case Let_def if_True if_False not_False_eq_True simp_thms)
    then show ?thesis using s2(2) by blast
  qed
qed simp

lemma decode_varint32_eof_delivers:
  assumes x: "is_varint xs" "length xs \<le> 5" "varint_val xs < 2 ^ 32" and s: "delivers vw m s (xs @ ys) zs"
  shows "\<exists>s'. pb_decode_varint32_eof m s = (Some (word_of_nat (varint_val xs)), False, s') \<and> delivers vw m s' ys zs"
proof -
  obtain b bs where xs: "xs = b # bs" using x(1) by (cases xs) auto
  obtain s1 where s1: "pb_readbyte m s = (Some b, s1)" "delivers vw m s1 (bs @ ys) zs"
    using readbyte_delivers s xs by fastforce
  show ?thesis
  proof (cases "bs = []")
    case True
    then have "b AND 0x80 = 0" "unat b < 128" using x(1) by (simp_all add: xs and_80_iff)
    then show ?thesis using s1 True by (simp add: pb_decode_varint32_eof_def xs)
  next
    case False
    then have b: "b AND 0x80 \<noteq> 0" "is_varint bs" using x(1) by (auto simp: xs and_80_iff is_varint_Cons)
    then obtain s2 where "varint32_loop m (word_of_nat (7 * 1)) (word_of_nat (unat b mod 128)) s1 =
        (Some (word_of_nat (unat b mod 128 + 2 ^ (7 * 1) * varint_val bs)), s2)" "delivers vw m s2 ys zs"
      using varint32_loop_delivers [of bs 1 "unat b mod 128" vw m s1 ys zs] x s1(2) by (auto simp: xs)
    then show ?thesis
      using b(1) s1(1) ucast_and_7f [of b, where 'a = 32] by (auto simp: pb_decode_varint32_eof_def xs Let_def)
  qed
qed

lemma length_enc_varint_32: "n < 2 ^ 32 \<Longrightarrow> length (enc_varint n) \<le> 5"
  using length_enc_varint [of n 4] by simp

lemma decode_varint32_enc:
  assumes "n < 2 ^ 32" "delivers vw m s (enc_varint n @ ys) zs"
  shows "\<exists>s'. pb_decode_varint32 m s = (Some (word_of_nat n), s') \<and> delivers vw m s' ys zs"
  using decode_varint32_eof_delivers [OF is_varint_enc length_enc_varint_32 [OF assms(1)] _ assms(2)] assms(1)
  by (auto simp: pb_decode_varint32_def varint_val_enc)

section \<open>Tags, strings and numbers of fixed width\<close>

definition enc_tag :: "nat \<Rightarrow> u32 \<Rightarrow> bytes" where
  "enc_tag wt tag = enc_varint (8 * unat tag + wt)"

definition enc_string :: "bytes \<Rightarrow> bytes" where
  "enc_string bs = enc_varint (length bs) @ bs"

lemma tag_word: "wt < 8 \<Longrightarrow> unat (push_bit 3 (ucast tag) OR word_of_nat wt :: u64) = 8 * unat tag + wt"
  for tag :: u32
proof -
  assume wt: "wt < 8"
  have t: "unat tag < 2 ^ 32" using unsigned_less [of tag, where 'a = nat] by simp
  have "(word_of_nat wt OR push_bit 3 (word_of_nat (unat tag)) :: u64) = word_of_nat (wt + 2 ^ 3 * unat tag)"
    using wt by (intro or_group) simp_all
  then have "(push_bit 3 (ucast tag) OR word_of_nat wt :: u64) = word_of_nat (wt + 2 ^ 3 * unat tag)"
    by (simp add: or.commute)
  moreover have "unat (word_of_nat (wt + 2 ^ 3 * unat tag) :: u64) = (wt + 2 ^ 3 * unat tag) mod 2 ^ 64"
    by (simp only: unat_of_nat) simp
  moreover have "wt + 2 ^ 3 * unat tag < 2 ^ 64" using wt t by simp
  ultimately show ?thesis by (simp only: mod_less) simp
qed

context sink
begin

lemma emits_tag: "wt < 8 \<Longrightarrow> emits callback put (pb_encode_tag wt tag) (enc_tag wt tag)"
  using emits_varint [of "push_bit 3 (ucast tag) OR word_of_nat wt"]
  by (simp only: pb_encode_tag_def enc_tag_def tag_word)

lemma emits_string: "length bs = n \<Longrightarrow> n < SIZE_LIMIT \<Longrightarrow> emits callback put (pb_encode_string bs n) (enc_string bs)"
  unfolding pb_encode_string_def enc_string_def
  using emits_varint [of "word_of_nat n"] by (intro emits_bind emits_write) (simp_all add: unat_of_nat)

end

lemma decode_tag_delivers:
  assumes wt: "wt < 8" and t: "unat tag < 2 ^ 29" "tag \<noteq> 0" and s: "delivers vw m s (enc_tag wt tag @ ys) zs"
  shows "\<exists>s'. pb_decode_tag m s = (Some (wt, tag), False, s') \<and> delivers vw m s' ys zs"
proof -
  let ?n = "8 * unat tag + wt"
  have n: "?n < 2 ^ 32" using wt t(1) by simp
  obtain s' where s': "pb_decode_varint32_eof m s = (Some (word_of_nat ?n), False, s')" "delivers vw m s' ys zs"
    using decode_varint32_eof_delivers [OF is_varint_enc length_enc_varint_32 [OF n] _ s [unfolded enc_tag_def]] n
    by (auto simp: varint_val_enc)
  have u: "unat (word_of_nat ?n :: u32) = ?n" using n by (simp only: unat_of_nat) simp
  have "0 < unat tag" using t(2) by (simp add: unat_gt_0)
  then have nz: "(word_of_nat ?n :: u32) \<noteq> 0" using u by (metis unat_0 add_is_0 mult_is_0 not_gr_zero zero_neq_numeral)
  have "unat (drop_bit 3 (word_of_nat ?n) :: u32) = unat tag" using wt by (simp only: unat_drop u) simp
  then have d: "drop_bit 3 (word_of_nat ?n) = tag" by (simp only: word_unat_eq_iff)
  have "(7 :: u32) = mask 3" by (simp add: mask_eq_exp_minus_1)
  then have "unat (word_of_nat ?n AND 7 :: u32) = unat (take_bit 3 (word_of_nat ?n :: u32))" by (simp only: take_bit_eq_mask)
  also have "\<dots> = wt" using wt by (simp only: unat_take_bit u) simp
  finally show ?thesis using s' nz d by (simp add: pb_decode_tag_def del: of_nat_add of_nat_mult)
qed

lemma decode_length_delivers:
  assumes "length bs < 2 ^ 32" "delivers vw m s (enc_string bs @ ys) zs"
  shows "\<exists>s1. pb_decode_varint32 m s = (Some (word_of_nat (length bs)), s1) \<and> delivers vw m s1 (bs @ ys) zs"
  using decode_varint32_enc [OF assms(1), of vw m s "bs @ ys" zs] assms(2) by (simp add: enc_string_def)

lemma skip_string_delivers:
  assumes "length bs < 2 ^ 32" "delivers vw m s (enc_string bs @ ys) zs"
  shows "\<exists>s'. pb_skip_string m s = (Some (), s') \<and> delivers vw m s' ys zs"
proof -
  obtain s1 where s1: "pb_decode_varint32 m s = (Some (word_of_nat (length bs)), s1)" "delivers vw m s1 (bs @ ys) zs"
    using decode_length_delivers [OF assms] by blast
  then show ?thesis
    using read_null_delivers [OF s1(2) refl] assms(1)
    by (auto simp: pb_skip_string_def op_bind_def unat_of_nat)
qed

text \<open>A string opens a substream of its bytes, and closing it leads behind them whatever was read of it.\<close>

lemma make_substream_delivers:
  assumes "length bs < 2 ^ 32" "delivers vw m s (enc_string bs @ ys) zs"
  shows "\<exists>sub s'. pb_make_string_substream m s = (Some sub, s') \<and> delivers vw m sub bs (ys @ zs) \<and> is_left s' = length ys"
proof -
  obtain s1 where s1: "pb_decode_varint32 m s = (Some (word_of_nat (length bs)), s1)" "delivers vw m s1 (bs @ ys) zs"
    using decode_length_delivers [OF assms] by blast
  have "unat (word_of_nat (length bs) :: u32) = length bs" using assms(1) by (simp only: unat_of_nat) simp
  then show ?thesis
    using s1 by (simp add: pb_make_string_substream_def op_bind_def delivers_def)
qed

lemma close_substream_delivers:
  assumes "delivers vw m sub bs (ys @ zs)" "is_left s = length ys"
  shows "\<exists>s'. pb_close_string_substream m sub s = (Some (), s') \<and> delivers vw m s' ys zs"
proof (cases "bs = []")
  case True
  then show ?thesis using assms by (simp add: pb_close_string_substream_def delivers_def)
next
  case False
  obtain s1 where "pb_read_null m (length bs) sub = (Some (), s1)" "delivers vw m s1 [] (ys @ zs)"
    using read_null_delivers [of vw m sub bs "[]" "ys @ zs"] assms(1) by auto
  then show ?thesis using assms False by (simp add: pb_close_string_substream_def delivers_def)
qed

text \<open>What may follow a tag with each wire type.\<close>

fun field_body :: "nat \<Rightarrow> bytes \<Rightarrow> bool" where
  "field_body wt bs \<longleftrightarrow>
     (if wt = 0 then is_varint bs
      else if wt = 1 then length bs = 8
      else if wt = 2 then \<exists>xs. bs = enc_string xs \<and> length xs < 2 ^ 32
      else wt = 5 \<and> length bs = 4)"

lemma skip_field_delivers:
  assumes "field_body wt bs" "delivers vw m s (bs @ ys) zs"
  shows "\<exists>s'. pb_skip_field m wt s = (Some (), s') \<and> delivers vw m s' ys zs"
  using assms skip_varint_delivers [OF _ assms(2)] read_null_delivers [OF assms(2)] skip_string_delivers [where vw = vw and ys = ys]
  by (auto simp: pb_skip_field_def PB_WT_VARINT_def PB_WT_64BIT_def PB_WT_STRING_def PB_WT_32BIT_def split: if_splits)

end
