(* ===== verification/Pb_Num.thy ===== *)
theory Pb_Num
  imports Pb_Varint
begin

text \<open>
  The numbers of fixed width and the zigzag form of signed numbers on the wire, and where
  \<open>pb_decode_varint32\<close> accepts a varint whose value does not fit.
\<close>

section \<open>Fixed width\<close>

lemma ucast_and_ff: "ucast (v AND 0xff) = (ucast v :: u8)" for v :: "'a::len word"
proof -
  have "(ucast (v AND mask 8) :: u8) = ucast v" by (rule bit_word_eqI) (auto simp: bit_simps dest: bit_imp_le_length)
  then show ?thesis by (simp add: mask_eq_exp_minus_1)
qed

lemma ucast_drop_ucast: "i + 8 \<le> 32 \<Longrightarrow> ucast (drop_bit i (ucast w :: u32)) = (ucast (drop_bit i w) :: u8)" for w :: u64
  by (rule bit_word_eqI) (auto simp: bit_simps)

lemma ucast_ucast_32: "ucast (ucast w :: u32) = (ucast w :: u8)" for w :: u64
  using ucast_drop_ucast [of 0 w] by simp

lemma list_4: "length bs = 4 \<Longrightarrow> bs = [bs ! 0, bs ! 1, bs ! 2, bs ! 3]"
  by (auto simp: list_eq_iff_nth_eq less_Suc_eq numeral_eq_Suc)

lemma list_8: "length bs = 8 \<Longrightarrow> bs = [bs ! 0, bs ! 1, bs ! 2, bs ! 3, bs ! 4, bs ! 5, bs ! 6, bs ! 7]"
  by (auto simp: list_eq_iff_nth_eq less_Suc_eq numeral_eq_Suc)

lemma fixed_bytes:
  "length bs = 4 \<Longrightarrow> map (\<lambda>i. ucast (drop_bit i (ucast (bytes_word bs) :: u32) AND 0xff)) [0, 8, 16, 24] = bs"
  "length bs = 8 \<Longrightarrow> map (\<lambda>i. ucast (drop_bit i (bytes_word bs) AND 0xff)) [0, 8, 16, 24, 32, 40, 48, 56] = bs"
proof -
  assume l: "length bs = 4"
  have "map (\<lambda>i. ucast (drop_bit i (ucast (bytes_word bs) :: u32) AND 0xff)) [0, 8, 16, 24] =
      [bs ! 0, bs ! 1, bs ! 2, bs ! 3]"
    using l bytes_word_nth [of 0 bs] bytes_word_nth [of 1 bs] bytes_word_nth [of 2 bs] bytes_word_nth [of 3 bs]
    by (simp add: ucast_and_ff ucast_drop_ucast ucast_ucast_32)
  also have "\<dots> = bs" using list_4 [OF l] by simp
  finally show "map (\<lambda>i. ucast (drop_bit i (ucast (bytes_word bs) :: u32) AND 0xff)) [0, 8, 16, 24] = bs" .
next
  assume l: "length bs = 8"
  have "map (\<lambda>i. ucast (drop_bit i (bytes_word bs) AND 0xff)) [0, 8, 16, 24, 32, 40, 48, 56] =
      map (\<lambda>i. ucast (drop_bit (8 * i) (bytes_word bs)) :: u8) [0..<8]"
    by (simp add: ucast_and_ff upt_rec)
  then show "map (\<lambda>i. ucast (drop_bit i (bytes_word bs) AND 0xff)) [0, 8, 16, 24, 32, 40, 48, 56] = bs"
    using word_bytes_word [OF l] l by (simp add: word_bytes_def)
qed

context sink
begin

lemma emits_fixed32: "emits callback put (pb_encode_fixed32 m a) (rd m a 4)"
  unfolding pb_encode_fixed32_def Let_def load_le_def fixed_bytes(1) [OF length_rd]
  by (intro emits_write length_rd)

lemma emits_fixed64: "emits callback put (pb_encode_fixed64 m a) (rd m a 8)"
  unfolding pb_encode_fixed64_def Let_def load_le_def fixed_bytes(2) [OF length_rd]
  by (intro emits_write length_rd)

end

lemma bytes_word_or:
  "bytes_word [] = 0" "bytes_word (b # bs) = ucast b OR push_bit 8 (bytes_word bs)"
  by (simp_all add: bytes_word_def or.commute)

lemma decode_fixed32_delivers:
  assumes "delivers vw m s (bs @ ys) zs" "length bs = 4"
  shows "\<exists>s'. pb_decode_fixed32 m s = (Some (ucast (bytes_word bs)), s') \<and> delivers vw m s' ys zs"
proof -
  have "(push_bit 0 (ucast (bs ! 0)) OR push_bit 8 (ucast (bs ! 1)) OR
       push_bit 16 (ucast (bs ! 2)) OR push_bit 24 (ucast (bs ! 3)) :: u32) =
      ucast (bytes_word [bs ! 0, bs ! 1, bs ! 2, bs ! 3])"
    by (rule bit_word_eqI) (auto simp: bytes_word_or bit_simps)
  then show ?thesis
    using read_delivers [OF assms] unfolding list_4 [OF assms(2), symmetric]
    by (auto simp: pb_decode_fixed32_def op_bind_def op_return_def)
qed

lemma decode_fixed64_delivers:
  assumes "delivers vw m s (bs @ ys) zs" "length bs = 8"
  shows "\<exists>s'. pb_decode_fixed64 m s = (Some (bytes_word bs), s') \<and> delivers vw m s' ys zs"
proof -
  have "(push_bit 0 (ucast (bs ! 0)) OR push_bit 8 (ucast (bs ! 1)) OR
       push_bit 16 (ucast (bs ! 2)) OR push_bit 24 (ucast (bs ! 3)) OR
       push_bit 32 (ucast (bs ! 4)) OR push_bit 40 (ucast (bs ! 5)) OR
       push_bit 48 (ucast (bs ! 6)) OR push_bit 56 (ucast (bs ! 7)) :: u64) =
      bytes_word [bs ! 0, bs ! 1, bs ! 2, bs ! 3, bs ! 4, bs ! 5, bs ! 6, bs ! 7]"
    by (rule bit_word_eqI) (auto simp: bytes_word_or bit_simps)
  then show ?thesis
    using read_delivers [OF assms] unfolding list_8 [OF assms(2), symmetric]
    by (auto simp: pb_decode_fixed64_def op_bind_def op_return_def)
qed

section \<open>Zigzag\<close>

definition zigzag :: "u64 \<Rightarrow> u64" where
  "zigzag v = (if v <s 0 then NOT (push_bit 1 v) else push_bit 1 v)"

definition unzigzag :: "u64 \<Rightarrow> u64" where
  "unzigzag v = (if v AND 1 \<noteq> 0 then NOT (drop_bit 1 v) else drop_bit 1 v)"

lemma unzigzag_zigzag [simp]: "unzigzag (zigzag v) = v"
proof -
  have neg: "v <s 0 \<longleftrightarrow> bit v 63" by (simp add: word_sless_alt sint_uint signed_take_bit_negative_iff bit_uint_iff)
  have odd: "NOT (push_bit 1 v) AND 1 \<noteq> 0" "push_bit 1 v AND 1 = 0"
    by (simp_all add: and_one_eq even_iff_mod_2_eq_zero [symmetric] mod2_eq_if)
  have b: "bit (push_bit 1 v) (Suc n) \<longleftrightarrow> n < 63 \<and> bit v n" for n
    by (simp only: bit_push_bit_iff possible_bit_word) auto
  have 1: "drop_bit 1 (push_bit 1 v) = v" if "\<not> bit v 63"
  proof (rule bit_word_eqI)
    fix n assume "n < LENGTH(64)"
    then have "n < 63 \<or> n = 63" by force
    then show "bit (drop_bit 1 (push_bit 1 v)) n = bit v n"
      using b [of n] that by (simp only: bit_drop_bit_eq comp_def) auto
  qed
  have 2: "NOT (drop_bit 1 (NOT (push_bit 1 v))) = v" if "bit v 63"
  proof (rule bit_word_eqI)
    fix n assume n: "n < LENGTH(64)"
    then have "n < 63 \<or> n = 63" by force
    then show "bit (NOT (drop_bit 1 (NOT (push_bit 1 v)))) n = bit v n"
      using b [of n] that n by (simp only: bit_not_iff bit_drop_bit_eq comp_def possible_bit_word) auto
  qed
  show ?thesis using odd 1 2 by (simp add: zigzag_def unzigzag_def neg)
qed

context sink
begin

lemma emits_svarint: "emits callback put (pb_encode_svarint v) (enc_varint (unat (zigzag v)))"
  unfolding pb_encode_svarint_def zigzag_def [symmetric] by (rule emits_varint)

end

lemma decode_svarint_delivers:
  assumes "is_varint xs" "length xs \<le> 10" "delivers vw m s (xs @ ys) zs"
  shows "\<exists>s'. pb_decode_svarint m s = (Some (unzigzag (word_of_nat (varint_val xs))), s') \<and> delivers vw m s' ys zs"
  using decode_varint_delivers [OF assms]
  by (auto simp: pb_decode_svarint_def op_bind_def op_return_def unzigzag_def)

section \<open>Varints that overflow 32 bits\<close>

text \<open>
  The check of \<open>pb_decode_varint32_eof\<close> for bits beyond the 32nd in the fifth byte is made only where that
  is the last byte; with a sixth byte that is zero they are dropped. And after 37 bytes the
  counter of bits has wrapped, so that later bytes are combined with the result again.
\<close>

lemma varint32_drops_bits:
  "fst (pb_decode_varint32 (nth [0x81, 0x80, 0x80, 0x80, 0xf0, 0x00]) (pb_istream_from_buffer 0 6)) = Some 1"
  "fst (pb_decode_varint (nth [0x81, 0x80, 0x80, 0x80, 0xf0, 0x00]) (pb_istream_from_buffer 0 6)) = Some 0x700000001"
  by code_simp+

lemma varint32_wraps:
  "fst (pb_decode_varint32 (nth (0x81 # replicate 36 0x80 @ [0x02])) (pb_istream_from_buffer 0 38)) = Some 17"
  by code_simp

end
