(* ===== verification/Pb_Enc_Spec.thy ===== *)
theory Pb_Enc_Spec
  imports Pb_Encode Pb_Num
begin

text \<open>
  What the message encoder of nanopb promises. The reference encoding of a message is the
  concatenation of the encodings of its fields, without streams, size passes and substreams; the encoder
  writes exactly these bytes to every stream that has room for them, counts them on a sizing stream, and
  reports an error otherwise.
\<close>

section \<open>Outcomes\<close>

text \<open>
  The outcome of encoding: None where the encoder does not come back, or whether it succeeds and the
  bytes produced until then.
\<close>

type_synonym outcome = "(bool \<times> bytes) option"

definition produce :: "bytes \<Rightarrow> outcome" where "produce bs = Some (True, bs)"

definition refuse :: outcome where "refuse = Some (False, [])"

definition seq :: "outcome \<Rightarrow> outcome \<Rightarrow> outcome" where
  "seq a b =
     (case a of
        None \<Rightarrow> None
      | Some (False, xs) \<Rightarrow> Some (False, xs)
      | Some (True, xs) \<Rightarrow> map_option (\<lambda>(ok, ys). (ok, xs @ ys)) b)"

definition nested :: "outcome \<Rightarrow> outcome" where
  "nested a = map_option (\<lambda>(ok, xs). (ok, if ok then enc_string xs else xs)) a"

definition does :: "'s out_callback \<Rightarrow> ('s \<Rightarrow> bytes \<Rightarrow> 's) \<Rightarrow> ('s pb_ostream, unit) call \<Rightarrow> outcome \<Rightarrow> bool" where
  "does callback put f r \<longleftrightarrow>
     (case r of
        None \<Rightarrow> True
      | Some (ok, bs) \<Rightarrow>
          (\<forall>s. out_ok callback s \<longrightarrow> os_written s + length bs < SIZE_LIMIT \<longrightarrow>
            (if ok \<and> fits (length bs) s then f s = Some (Some (), put_out put bs s)
             else \<exists>s'. f s = Some (None, s') \<and> stopped put s s')))"

lemma does_crash [simp]: "does callback put f None"
  by (simp add: does_def)

lemma does_fits:
  "\<lbrakk>does callback put f (Some (True, bs)); out_ok callback s; os_written s + length bs < SIZE_LIMIT; fits (length bs) s\<rbrakk>
    \<Longrightarrow> f s = Some (Some (), put_out put bs s)"
  by (simp add: does_def)

lemma does_full:
  "\<lbrakk>does callback put f (Some (ok, bs)); out_ok callback s; os_written s + length bs < SIZE_LIMIT;
     \<not> (ok \<and> fits (length bs) s)\<rbrakk> \<Longrightarrow> \<exists>s'. f s = Some (None, s') \<and> stopped put s s'"
  by (auto simp: does_def split: if_splits)

lemma doesI:
  assumes "\<And>ok bs s. \<lbrakk>r = Some (ok, bs); out_ok callback s; os_written s + length bs < SIZE_LIMIT; ok; fits (length bs) s\<rbrakk>
      \<Longrightarrow> f s = Some (Some (), put_out put bs s)"
    and "\<And>ok bs s. \<lbrakk>r = Some (ok, bs); out_ok callback s; os_written s + length bs < SIZE_LIMIT; \<not> (ok \<and> fits (length bs) s)\<rbrakk>
      \<Longrightarrow> \<exists>s'. f s = Some (None, s') \<and> stopped put s s'"
  shows "does callback put f r"
  using assms by (auto simp: does_def split: option.split)

context sink
begin

lemma does_op: "emits callback put f bs \<Longrightarrow> does callback put (call_op f) (produce bs)"
proof (rule doesI, goal_cases)
  case (1 ok bs' s)
  then show ?case by (simp add: call_op_def produce_def emits_def)
next
  case (2 ok bs' s)
  then have "\<exists>s'. f s = (None, s') \<and> stopped put s s'" by (auto simp: produce_def emits_def)
  then show ?case by (auto simp: call_op_def)
qed

lemma does_error: "does callback put (call_op (os_error msg)) refuse"
  by (rule doesI) (auto simp: call_op_def refuse_def os_error_def intro!: stopped_same)

lemma does_return: "does callback put (call_op (op_return ())) (produce [])"
  by (intro does_op emits_return)

lemma does_bind:
  assumes f: "does callback put f a" and g: "\<And>xs. a = Some (True, xs) \<Longrightarrow> does callback put (g ()) b"
  shows "does callback put (call_bind f g) (seq a b)"
proof (cases a)
  case (Some p)
  obtain ok xs where p: "p = (ok, xs)" by (cases p)
  show ?thesis
  proof (cases ok)
    case True
    have g: "does callback put (g ()) b" using g Some p True by simp
    have f1: "f s = Some (Some (), put_out put xs s)"
      if "out_ok callback s" "os_written s + length xs < SIZE_LIMIT" "fits (length xs) s" for s
      using that f Some p True by (intro does_fits) simp_all
    have f2: "\<exists>s'. f s = Some (None, s') \<and> stopped put s s'"
      if "out_ok callback s" "os_written s + length xs < SIZE_LIMIT" "\<not> fits (length xs) s" for s
      using that f Some p by (intro does_full [of callback put f ok xs]) simp_all
    show ?thesis
    proof (rule doesI, goal_cases)
      case (1 ok' bs s)
      then obtain ys where ys: "b = Some (True, ys)" "bs = xs @ ys"
        using Some p True by (auto simp: seq_def split: option.splits)
      have fx: "fits (length xs) s" using 1(5) ys by (auto intro: fits_less)
      have "g () (put_out put xs s) = Some (Some (), put_out put ys (put_out put xs s))"
        using 1 ys g fx by (intro does_fits out_ok_put_out) (simp_all add: fits_put_out)
      then show ?case using f1 [of s] 1 ys fx by (simp add: call_bind_def put_out_append)
    next
      case (2 ok' bs s)
      then obtain ys where ys: "b = Some (ok', ys)" "bs = xs @ ys"
        using Some p True by (auto simp: seq_def split: option.splits)
      show ?case
      proof (cases "fits (length xs) s")
        case fx: True
        have "\<exists>s'. g () (put_out put xs s) = Some (None, s') \<and> stopped put (put_out put xs s) s'"
          using 2 ys g fx by (intro does_full [of callback put "g ()" ok' ys] out_ok_put_out) (simp_all add: fits_put_out)
        then show ?thesis using f1 [of s] 2 ys fx stopped_put_out [OF fx] by (auto simp: call_bind_def)
      next
        case False
        then show ?thesis using f2 [of s] 2 ys by (auto simp: call_bind_def)
      qed
    qed
  next
    case False
    then have "seq a b = Some (False, xs)" using Some p by (simp add: seq_def)
    moreover have "does callback put (call_bind f g) (Some (False, xs))"
      using f Some p False by (auto simp: does_def call_bind_def)
    ultimately show ?thesis by simp
  qed
qed (simp add: seq_def)

text \<open>On a sizing stream the write of \<open>n\<close> bytes may stand for \<open>n\<close> bytes produced.\<close>

lemma does_sized:
  assumes "does callback put g (Some (True, bs))" "length bs = n"
  shows "does callback put (\<lambda>s. if os_sink s = None then Some (pb_write [] n s) else g s) (Some (True, bs))"
  using assms emits_sizing [OF assms(2)] by (auto simp: does_def fits_def)

lemma sizing_ok: "out_ok callback PB_OSTREAM_SIZING" "fits n PB_OSTREAM_SIZING" "os_written PB_OSTREAM_SIZING = 0"
  by (simp_all add: out_ok_def fits_def PB_OSTREAM_SIZING_def)

lemma does_sizing:
  "does callback put f (Some (ok, bs)) \<Longrightarrow> length bs < SIZE_LIMIT \<Longrightarrow>
    \<exists>s'. f PB_OSTREAM_SIZING = Some (if ok then Some () else None, s') \<and> (ok \<longrightarrow> os_written s' = length bs)"
  using does_fits [of callback put f bs PB_OSTREAM_SIZING] does_full [of callback put f ok bs PB_OSTREAM_SIZING]
  by (cases ok) (auto simp: sizing_ok)

text \<open>
  A submessage: the size pass, the length, and the pass that writes to a substream limited to
  that size.
\<close>

lemma does_substream:
  assumes f: "does callback put f (Some (True, bs))"
    and s: "out_ok callback s" "os_written s + length bs < SIZE_LIMIT" "os_sink s \<noteq> None"
  shows "f \<lparr>os_sink = os_sink s, os_max_size = length bs, os_written = 0, os_errmsg = None\<rparr> =
    Some (Some (), put_out put bs \<lparr>os_sink = os_sink s, os_max_size = length bs, os_written = 0, os_errmsg = None\<rparr>)"
  using s by (intro does_fits [OF f]) (auto simp: out_ok_def fits_def split: option.splits)

lemma does_submessage:
  assumes rec: "does callback put (rec flds src) r"
  shows "does callback put (pb_encode_submessage rec flds src) (nested r)"
proof (cases r)
  case (Some p)
  obtain ok bs where p: "p = (ok, bs)" by (cases p)
  have r: "does callback put (rec flds src) (Some (ok, bs))" using rec Some p by simp
  show ?thesis
  proof (cases ok)
    case True
    have rT: "does callback put (rec flds src) (Some (True, bs))" using r True by simp
    have w: "sz (os_written s + n) = os_written s + n" if "os_written s + n < SIZE_LIMIT" for s :: "'s pb_ostream" and n
      using that by (intro sz_id)
    define rest where "rest = (\<lambda>(_ :: unit) s. if os_sink s = None then Some (pb_write [] (length bs) s)
      else if sz (os_written s + length bs) > os_max_size s then Some (os_error ''stream full'' s)
      else (case rec flds src \<lparr>os_sink = os_sink s, os_max_size = length bs, os_written = 0, os_errmsg = None\<rparr> of
                  None \<Rightarrow> None
                | Some (status, substream) \<Rightarrow>
                    (let s = s\<lparr>os_written := sz (os_written s + os_written substream), os_sink := os_sink substream,
                                os_errmsg := os_errmsg substream\<rparr>
                     in if os_written substream \<noteq> length bs then Some (os_error ''submsg size changed'' s)
                        else Some (status, s))))"
    have rest: "does callback put (rest ()) (Some (True, bs))"
    proof (rule doesI, goal_cases)
      case (1 ok' bs' s)
      then have b: "os_written s + length bs < SIZE_LIMIT" "fits (length bs) s" "bs' = bs" by simp_all
      show ?case
      proof (cases "os_sink s = None")
        case True
        then show ?thesis using b emits_sizing [of bs "length bs" s "[]"] by (simp add: rest_def)
      next
        case False
        then have "\<not> sz (os_written s + length bs) > os_max_size s" using b w [OF b(1)] by (auto simp: fits_def)
        moreover have "os_errmsg s = None" using 1(2) by (simp add: out_ok_def)
        ultimately show ?thesis
          using does_substream [OF rT 1(2) b(1) False] False b w [OF b(1)]
          by (auto simp: rest_def put_out_def)
      qed
    next
      case (2 ok' bs' s)
      then have b: "os_written s + length bs < SIZE_LIMIT" "\<not> fits (length bs) s" by simp_all
      then show ?case using w [OF b(1)] stopped_same [OF 2(2)] by (auto simp: rest_def fits_def os_error_def)
    qed
    have "does callback put (call_bind (call_op (pb_encode_varint (word_of_nat (length bs)))) rest)
        (seq (produce (enc_varint (unat (word_of_nat (length bs) :: u64)))) (Some (True, bs)))"
      by (intro does_bind does_op emits_varint) (simp add: rest)
    then have "does callback put (call_bind (call_op (pb_encode_varint (word_of_nat (length bs)))) rest) (Some (True, enc_string bs))"
      if "length bs < SIZE_LIMIT"
      using that by (simp add: seq_def produce_def enc_string_def unat_of_nat)
    moreover have "pb_encode_submessage rec flds src s =
        call_bind (call_op (pb_encode_varint (word_of_nat (length bs)))) rest s" if "length bs < SIZE_LIMIT" for s
      using does_sizing [OF r that] True by (auto simp: pb_encode_submessage_def rest_def) (simp only: Let_def)
    ultimately have "does callback put (pb_encode_submessage rec flds src) (Some (True, enc_string bs))"
      by (auto simp: does_def enc_string_def)
    then show ?thesis using Some p True by (simp add: nested_def)
  next
    case False
    then have "\<exists>s'. rec flds src PB_OSTREAM_SIZING = Some (None, s')" if "length bs < SIZE_LIMIT"
      using does_sizing [OF r that] by simp
    then show ?thesis
      using Some p False by (auto simp: does_def nested_def pb_encode_submessage_def intro!: stopped_same)
  qed
qed (simp add: nested_def)

end

end
