(* ===== verification/Pb_Enc_Ref.thy ===== *)
theory Pb_Enc_Ref
  imports Pb_Enc_Spec
begin

text \<open>
  The reference encoding of a message, over the list of its fields with their addresses, and the
  proof that the encoder produces it.
\<close>

section \<open>The reference\<close>

definition field_wire :: "pb_field \<Rightarrow> nat option" where
  "field_wire f =
     (let t = pf_ltype f in
      if t \<le> 2 then Some PB_WT_VARINT else if t = 3 then Some PB_WT_32BIT else if t = 4 then Some PB_WT_64BIT
      else if t \<le> 7 \<or> t = 9 then Some PB_WT_STRING else None)"

definition ref_tag :: "pb_field \<Rightarrow> outcome" where
  "ref_tag f = (case field_wire f of None \<Rightarrow> refuse | Some wt \<Rightarrow> produce (enc_tag wt (pf_tag f)))"

definition ref_int :: "pb_field \<Rightarrow> u64 \<Rightarrow> outcome" where
  "ref_int f v = (if int_size (pf_data_size f) then produce (enc_varint (unat v)) else refuse)"

definition c_string :: "memory \<Rightarrow> nat \<Rightarrow> nat \<Rightarrow> bytes" where
  "c_string m p n = takeWhile (\<lambda>b. b \<noteq> 0) (rd m p n)"

definition ref_value :: "(nat \<Rightarrow> nat \<Rightarrow> outcome) \<Rightarrow> memory \<Rightarrow> pb_field \<Rightarrow> nat \<Rightarrow> outcome" where
  "ref_value rec m f p =
     (let t = pf_ltype f in
      if t = PB_LTYPE_VARINT then ref_int f (load_signed m p (pf_data_size f))
      else if t = PB_LTYPE_UVARINT then ref_int f (load_le m p (pf_data_size f))
      else if t = PB_LTYPE_SVARINT then ref_int f (zigzag (load_signed m p (pf_data_size f)))
      else if t = PB_LTYPE_FIXED32 then produce (rd m p 4)
      else if t = PB_LTYPE_FIXED64 then produce (rd m p 8)
      else if t = PB_LTYPE_BYTES then
        (if p = 0 then produce (enc_string [])
         else if pf_atype f = PB_ATYPE_STATIC \<and> load_size m p + 4 > pf_data_size f then refuse
         else produce (enc_string (rd m (p + 4) (load_size m p))))
      else if t = PB_LTYPE_STRING then
        produce (enc_string (if p = 0 then []
          else c_string m p (if pf_atype f = PB_ATYPE_POINTER then 2 ^ 64 - 1 else pf_data_size f)))
      else if t = PB_LTYPE_SUBMESSAGE then
        (case pf_ptr f of Ptr_null \<Rightarrow> refuse | Ptr_fields i \<Rightarrow> nested (rec i p) | Ptr_default _ \<Rightarrow> None)
      else if t = PB_LTYPE_FIXED_LENGTH_BYTES then produce (enc_string (rd m p (pf_data_size f)))
      else None)"

fun ref_items :: "(nat \<Rightarrow> outcome) \<Rightarrow> nat \<Rightarrow> nat \<Rightarrow> nat \<Rightarrow> outcome" where
  "ref_items g step 0 p = produce []"
| "ref_items g step (Suc n) p = seq (g p) (ref_items g step n (p + step))"

text \<open>A packed array is one string, other arrays repeat the tag.\<close>

definition ref_array :: "memory \<Rightarrow> pb_field \<Rightarrow> nat \<Rightarrow> nat \<Rightarrow> (nat \<Rightarrow> outcome) \<Rightarrow> outcome" where
  "ref_array m f p count g =
     (if count = 0 then produce []
      else if pf_atype f \<noteq> PB_ATYPE_POINTER \<and> count > pf_array_size f then refuse
      else if pf_ltype f \<le> PB_LTYPE_LAST_PACKABLE
      then seq (produce (enc_tag PB_WT_STRING (pf_tag f))) (nested (ref_items g (pf_data_size f) count p))
      else ref_items (\<lambda>p. seq (ref_tag f)
        (if pf_atype f = PB_ATYPE_POINTER \<and> (pf_ltype f = PB_LTYPE_STRING \<or> pf_ltype f = PB_LTYPE_BYTES)
         then g (load_ptr m p) else g p)) (pf_data_size f) count p)"

fun ref_default :: "(nat \<Rightarrow> pb_field list) \<Rightarrow> nat \<Rightarrow> memory \<Rightarrow> pb_field \<Rightarrow> nat \<Rightarrow> bool option" where
  "ref_default descs 0 m f d = None"
| "ref_default descs (Suc n) m f d =
     (let z = size_addr d f in
      if pf_htype f = PB_HTYPE_REQUIRED then Some False
      else if pf_htype f = PB_HTYPE_REPEATED \<or> pf_htype f = PB_HTYPE_ONEOF then Some (load_size m z = 0)
      else if pf_size_offset f \<noteq> 0 then Some (m z = 0)
      else if pf_atype f = PB_ATYPE_STATIC \<and> pf_ltype f = PB_LTYPE_BYTES then Some (load_size m d = 0)
      else if pf_atype f = PB_ATYPE_STATIC \<and> pf_ltype f = PB_LTYPE_STRING then Some (m d = 0)
      else if pf_atype f = PB_ATYPE_STATIC \<and> pf_ltype f = PB_LTYPE_FIXED_LENGTH_BYTES then Some (pf_data_size f = 0)
      else if pf_atype f = PB_ATYPE_STATIC \<and> pf_ltype f = PB_LTYPE_SUBMESSAGE then
        (case pf_ptr f of
           Ptr_fields i \<Rightarrow>
             foldr (\<lambda>(f, d, z) r. case ref_default descs n m f d of
                None \<Rightarrow> None | Some False \<Rightarrow> Some False | Some True \<Rightarrow> r) (layout (descs i) d) (Some True)
         | _ \<Rightarrow> None)
      else Some (rd m d (pf_data_size f) = replicate (pf_data_size f) 0))"

definition ref_basic :: "(pb_field \<Rightarrow> nat \<Rightarrow> bool option) \<Rightarrow> (nat \<Rightarrow> nat \<Rightarrow> outcome) \<Rightarrow> memory \<Rightarrow> pb_field \<Rightarrow> nat \<Rightarrow> outcome" where
  "ref_basic dflt rec m f d =
     (let z = size_addr d f;
          p = (if pf_atype f = PB_ATYPE_POINTER then load_ptr m d else d);
          one = seq (ref_tag f) (ref_value rec m f p)
      in
      if pf_htype f = PB_HTYPE_REQUIRED then if p = 0 then refuse else one
      else if pf_htype f = PB_HTYPE_OPTIONAL then
        (if pf_size_offset f \<noteq> 0 then if m z \<noteq> 0 then one else produce []
         else (case dflt f d of
                 None \<Rightarrow> None
               | Some zero \<Rightarrow> if (if pf_atype f = PB_ATYPE_POINTER then p \<noteq> 0 else \<not> zero) then one else produce []))
      else if pf_htype f = PB_HTYPE_REPEATED then
        ref_array m f p (if pf_size_offset f \<noteq> 0 then load_size m z else pf_array_size f) (ref_value rec m f)
      else if pf_size_offset f = 0 then None
      else if load_size m z = unat (pf_tag f) then one else produce [])"

text \<open>What the functions of the user produce.\<close>

record pb_refs =
  refs_callback :: "nat \<Rightarrow> memory \<Rightarrow> pb_field \<Rightarrow> nat \<Rightarrow> outcome"
  refs_extension :: "nat \<Rightarrow> memory \<Rightarrow> nat \<Rightarrow> outcome"

definition ref_field ::
  "pb_refs \<Rightarrow> (pb_field \<Rightarrow> nat \<Rightarrow> bool option) \<Rightarrow> (nat \<Rightarrow> nat \<Rightarrow> outcome) \<Rightarrow> memory \<Rightarrow> pb_field \<Rightarrow> nat \<Rightarrow> outcome" where
  "ref_field refs dflt rec m f d =
     (if pf_atype f = PB_ATYPE_STATIC \<or> pf_atype f = PB_ATYPE_POINTER then ref_basic dflt rec m f d
      else if pf_atype f = PB_ATYPE_CALLBACK
      then (if load_ptr m d \<noteq> 0 then refs_callback refs (load_ptr m d) m f (d + 8) else produce [])
      else refuse)"

fun ref_extensions :: "(nat \<Rightarrow> pb_field list) \<Rightarrow> pb_refs \<Rightarrow> (pb_field \<Rightarrow> nat \<Rightarrow> outcome) \<Rightarrow> memory \<Rightarrow> nat \<Rightarrow> nat \<Rightarrow> outcome" where
  "ref_extensions descs refs enc m 0 ext = (if ext = 0 then produce [] else None)"
| "ref_extensions descs refs enc m (Suc n) ext =
     (if ext = 0 then produce []
      else seq
        (let encode = load_ptr m (load_ptr m ext + 8); f = field_at (descs (load_ptr m (load_ptr m ext + 16))) 0
         in if encode \<noteq> 0 then refs_extension refs encode m ext
            else enc f (if pf_atype f = PB_ATYPE_POINTER then ext + 8 else load_ptr m (ext + 8)))
        (ref_extensions descs refs enc m n (load_ptr m (ext + 16))))"

definition ref_fields :: "(pb_field \<Rightarrow> nat \<Rightarrow> outcome) \<Rightarrow> (pb_field \<times> nat \<times> nat) list \<Rightarrow> outcome" where
  "ref_fields enc ls = foldr (\<lambda>(f, d, z) r. seq (enc f d) r) ls (produce [])"

fun ref_message :: "(nat \<Rightarrow> pb_field list) \<Rightarrow> pb_refs \<Rightarrow> nat \<Rightarrow> memory \<Rightarrow> nat \<Rightarrow> nat \<Rightarrow> outcome" where
  "ref_message descs refs 0 m flds src = None"
| "ref_message descs refs (Suc n) m flds src =
     (let enc = ref_field refs (ref_default descs n m) (ref_message descs refs n m) m
      in ref_fields (\<lambda>f d. if pf_ltype f = PB_LTYPE_EXTENSION
           then ref_extensions descs refs enc m n (load_ptr m d) else enc f d) (layout (descs flds) src))"

text \<open>Descriptors are well formed, and their sizes are \<open>pb_size_t\<close>.\<close>

definition descs_ok :: "(nat \<Rightarrow> pb_field list) \<Rightarrow> bool" where
  "descs_ok descs \<longleftrightarrow>
     (\<forall>i. wf_fields (descs i) \<and> list_all (\<lambda>f. pf_data_size f < 2 ^ 32 \<and> pf_array_size f < 2 ^ 32) (descs i))"

definition env_law :: "'s out_callback \<Rightarrow> ('s \<Rightarrow> bytes \<Rightarrow> 's) \<Rightarrow> 's pb_env \<Rightarrow> pb_refs \<Rightarrow> bool" where
  "env_law callback put env refs \<longleftrightarrow>
     (\<forall>p m f a. does callback put (call_op (env_encode env p m f a)) (refs_callback refs p m f a)) \<and>
     (\<forall>p m a. does callback put (call_op (env_ext_encode env p m a)) (refs_extension refs p m a))"

section \<open>Values\<close>

lemma load_size_less: "load_size m a < 2 ^ 32"
proof -
  have "load_le m a 4 = take_bit 32 (load_le m a 4)"
    by (rule bit_word_eqI) (auto simp: load_le_def bit_simps bit_bytes_word)
  then have "unat (load_le m a 4) = unat (take_bit 32 (load_le m a 4))" by simp
  then show ?thesis by (simp add: load_size_def unat_take_bit)
qed

lemma strnlen_eq: "n \<le> k \<Longrightarrow> strnlen_loop m p k n = n + length (c_string m p (k - n))"
proof (induction m p k n rule: strnlen_loop.induct)
  case (1 m p k n)
  show ?case
  proof (cases "n < k \<and> m p \<noteq> 0")
    case True
    then have "k - n = Suc (k - (n + 1))" by (simp add: Suc_diff_Suc)
    then have "c_string m p (k - n) = m p # c_string m (p + 1) (k - (n + 1))"
      using True by (simp only: c_string_def rd_Suc) simp
    then show ?thesis using 1 True by (subst strnlen_loop.simps) simp
  next
    case False
    then have "c_string m p (k - n) = []" using 1(2) by (cases "k - n") (auto simp: c_string_def rd_Suc)
    then show ?thesis using False by (subst strnlen_loop.simps) auto
  qed
qed

lemma c_string_rd: "rd m p (length (c_string m p n)) = c_string m p n"
proof -
  have "take (length (c_string m p n)) (rd m p n) = c_string m p n"
    unfolding c_string_def by (rule takeWhile_eq_take [symmetric])
  moreover have "length (c_string m p n) \<le> n"
    using length_takeWhile_le [of "\<lambda>b. b \<noteq> 0" "rd m p n"] by (simp add: c_string_def)
  ultimately show ?thesis by (simp add: min_absorb1)
qed

lemma length_c_string: "length (c_string m p n) \<le> n"
  using length_takeWhile_le [of "\<lambda>b. b \<noteq> 0" "rd m p n"] by (simp add: c_string_def)

section \<open>The encoder produces the reference\<close>

context sink
begin

lemma does_if:
  "(c \<Longrightarrow> does callback put f a) \<Longrightarrow> (\<not> c \<Longrightarrow> does callback put g b) \<Longrightarrow>
    does callback put (if c then f else g) (if c then a else b)"
  by simp

lemma does_tag: "does callback put (call_op (pb_encode_tag_for_field f)) (ref_tag f)"
proof -
  have le2: "t \<le> 2 \<longleftrightarrow> t = 0 \<or> t = 1 \<or> t = 2" for t :: u8
    by (auto simp: word_le_nat_alt word_unat_eq_iff)
  have le7: "t \<le> 7 \<longleftrightarrow> t \<le> 2 \<or> t = 3 \<or> t = 4 \<or> t = 5 \<or> t = 6 \<or> t = 7" for t :: u8
    by (auto simp: word_le_nat_alt word_unat_eq_iff)
  have "does callback put (call_op (pb_encode_tag wt (pf_tag f))) (produce (enc_tag wt (pf_tag f)))" if "wt < 8" for wt
    using that by (intro does_op emits_tag)
  then show ?thesis
    using does_error by (auto simp: pb_encode_tag_for_field_def ref_tag_def field_wire_def Let_def le7 le2
        PB_WT_VARINT_def PB_WT_64BIT_def PB_WT_STRING_def PB_WT_32BIT_def)
qed

lemma does_string: "length bs = n \<Longrightarrow> n < SIZE_LIMIT \<Longrightarrow> does callback put (call_op (pb_encode_string bs n)) (produce (enc_string bs))"
  by (intro does_op emits_string)

lemma does_c_string:
  assumes "k < SIZE_LIMIT"
  shows "does callback put (call_op (let n = strnlen_loop m p k 0 in pb_encode_string (rd m p n) n))
    (produce (enc_string (c_string m p k)))"
  using strnlen_eq [of 0 k m p] c_string_rd [of m p k] length_c_string [of m p k] assms
  by (simp add: Let_def does_string)

lemma does_value:
  assumes size: "pf_data_size f < 2 ^ 32" and rec: "\<And>i p. does callback put (rec i p) (rrec i p)"
  shows "does callback put (PB_ENCODERS rec m f p) (ref_value rrec m f p)"
proof -
  have l: "load_size m p + 4 < SIZE_LIMIT" using load_size_less [of m p] by simp
  have varint: "does callback put (call_op (pb_enc_varint m f p)) (ref_int f (load_signed m p (pf_data_size f)))"
    using does_error does_op [OF emits_varint] by (simp add: pb_enc_varint_def ref_int_def)
  have uvarint: "does callback put (call_op (pb_enc_uvarint m f p)) (ref_int f (load_le m p (pf_data_size f)))"
    using does_error does_op [OF emits_varint] by (simp add: pb_enc_uvarint_def ref_int_def)
  have svarint: "does callback put (call_op (pb_enc_svarint m f p)) (ref_int f (zigzag (load_signed m p (pf_data_size f))))"
    using does_error does_op [OF emits_svarint] by (simp add: pb_enc_svarint_def ref_int_def)
  have fixed: "does callback put (call_op (pb_enc_fixed32 m p)) (produce (rd m p 4))"
    "does callback put (call_op (pb_enc_fixed64 m p)) (produce (rd m p 8))"
    using does_op [OF emits_fixed32] does_op [OF emits_fixed64] by (simp_all add: pb_enc_fixed32_def pb_enc_fixed64_def)
  have bytes: "does callback put (call_op (pb_enc_bytes m f p))
     (if p = 0 then produce (enc_string [])
      else if pf_atype f = PB_ATYPE_STATIC \<and> load_size m p + 4 > pf_data_size f then refuse
      else produce (enc_string (rd m (p + 4) (load_size m p))))"
    using does_error does_string [of "rd m (p + 4) (load_size m p)"] does_string [of "[]"] l
    by (simp add: pb_enc_bytes_def PB_BYTES_ARRAY_T_ALLOCSIZE_def sz_id)
  have string: "does callback put (call_op (pb_enc_string m f p)) (produce (enc_string (if p = 0 then []
          else c_string m p (if pf_atype f = PB_ATYPE_POINTER then 2 ^ 64 - 1 else pf_data_size f))))"
    using does_string [of "[]"] size
      does_c_string [of "if pf_atype f = PB_ATYPE_POINTER then 2 ^ 64 - 1 else pf_data_size f" m p]
    by (simp add: pb_enc_string_def Let_def)
  have fixed_length: "does callback put (call_op (pb_enc_fixed_length_bytes m f p)) (produce (enc_string (rd m p (pf_data_size f))))"
    using size does_string [of "rd m p (pf_data_size f)"] by (simp add: pb_enc_fixed_length_bytes_def)
  have submessage: "does callback put (pb_enc_submessage rec f p)
     (case pf_ptr f of Ptr_null \<Rightarrow> refuse | Ptr_fields i \<Rightarrow> nested (rrec i p) | Ptr_default _ \<Rightarrow> None)"
  proof -
    have "does callback put (pb_encode_submessage rec i p) (nested (rrec i p))" for i
      by (rule does_submessage) (rule rec)
    then show ?thesis using does_error by (simp add: pb_enc_submessage_def split: pb_ptr.split)
  qed
  show ?thesis
    unfolding PB_ENCODERS_def ref_value_def Let_def
    by (intro does_if varint uvarint svarint fixed bytes string fixed_length submessage does_crash)
qed

lemma does_items:
  "(\<And>p. does callback put (func p) (g p)) \<Longrightarrow> does callback put (encode_array_items func step n p) (ref_items g step n p)"
  by (induction n arbitrary: p) (simp_all add: does_return does_bind)

end

text \<open>The size of a packed array of numbers of fixed width.\<close>

lemma ref_items_length:
  "(\<And>p. \<exists>bs. g p = Some (True, bs) \<and> length bs = k) \<Longrightarrow>
    \<exists>bs. ref_items g step n p = Some (True, bs) \<and> length bs = k * n"
proof (induction n arbitrary: p)
  case (Suc n)
  obtain xs where xs: "g p = Some (True, xs)" "length xs = k" using Suc.prems by blast
  obtain ys where "ref_items g step n (p + step) = Some (True, ys)" "length ys = k * n" using Suc by blast
  then show ?case using xs by (simp add: seq_def)
qed (simp add: produce_def)

context sink
begin

lemma does_packed:
  assumes func: "\<And>p. does callback put (func p) (g p)" and count: "count < 2 ^ 32"
    and fixed: "pf_ltype f = PB_LTYPE_FIXED32 \<Longrightarrow> (\<And>p. \<exists>bs. g p = Some (True, bs) \<and> length bs = 4)"
      "pf_ltype f = PB_LTYPE_FIXED64 \<Longrightarrow> (\<And>p. \<exists>bs. g p = Some (True, bs) \<and> length bs = 8)"
  shows "does callback put
    (\<lambda>s. case packed_size func f p count of
            None \<Rightarrow> None
          | Some None \<Rightarrow> Some (None, s)
          | Some (Some n) \<Rightarrow>
              call_bind (call_op (pb_encode_varint (word_of_nat n))) (\<lambda>_ s.
                if os_sink s = None then Some (pb_write [] n s)
                else encode_array_items func (pf_data_size f) count p s) s)
    (nested (ref_items g (pf_data_size f) count p))"
proof (cases "ref_items g (pf_data_size f) count p")
  case (Some q)
  obtain ok bs where q: "q = (ok, bs)" by (cases q)
  have items: "does callback put (encode_array_items func (pf_data_size f) count p) (Some (ok, bs))"
    using does_items [of func g "pf_data_size f" count p, OF func] Some q by simp
  have n: "packed_size func f p count = Some (if ok then Some (length bs) else None)" if "length bs < SIZE_LIMIT"
    using does_sizing [OF items that] fixed
      ref_items_length [of g 4 "pf_data_size f" count p] ref_items_length [of g 8 "pf_data_size f" count p] Some q
    by (auto simp: packed_size_def)
  show ?thesis
  proof (cases ok)
    case True
    have iT: "does callback put (encode_array_items func (pf_data_size f) count p) (Some (True, bs))" using items True by simp
    have "does callback put (call_bind (call_op (pb_encode_varint (word_of_nat (length bs))))
        (\<lambda>_ s. if os_sink s = None then Some (pb_write [] (length bs) s)
                else encode_array_items func (pf_data_size f) count p s))
        (seq (produce (enc_varint (unat (word_of_nat (length bs) :: u64)))) (Some (True, bs)))"
      by (intro does_bind does_op emits_varint does_sized iT refl)
    then show ?thesis
      using Some q True n by (auto simp: does_def nested_def seq_def produce_def enc_string_def unat_of_nat)
  next
    case False
    then show ?thesis using Some q n by (auto simp: does_def nested_def intro!: stopped_same)
  qed
qed (simp add: nested_def)

lemma does_array:
  assumes func: "\<And>p. does callback put (func p) (g p)" and count: "count < 2 ^ 32"
    and fixed: "pf_ltype f = PB_LTYPE_FIXED32 \<Longrightarrow> (\<And>p. \<exists>bs. g p = Some (True, bs) \<and> length bs = 4)"
      "pf_ltype f = PB_LTYPE_FIXED64 \<Longrightarrow> (\<And>p. \<exists>bs. g p = Some (True, bs) \<and> length bs = 8)"
  shows "does callback put (encode_array m f p count func) (ref_array m f p count g)"
proof -
  have tag: "does callback put (call_op (pb_encode_tag PB_WT_STRING (pf_tag f))) (produce (enc_tag PB_WT_STRING (pf_tag f)))"
    by (intro does_op emits_tag) (simp add: PB_WT_STRING_def)
  note packed = does_bind [OF tag does_packed [OF func count fixed]]
  have "does callback put (encode_array_items (\<lambda>p. call_bind (call_op (pb_encode_tag_for_field f)) (\<lambda>_.
          if pf_atype f = PB_ATYPE_POINTER \<and> (pf_ltype f = PB_LTYPE_STRING \<or> pf_ltype f = PB_LTYPE_BYTES)
          then func (load_ptr m p) else func p)) (pf_data_size f) count p)
      (ref_items (\<lambda>p. seq (ref_tag f)
        (if pf_atype f = PB_ATYPE_POINTER \<and> (pf_ltype f = PB_LTYPE_STRING \<or> pf_ltype f = PB_LTYPE_BYTES)
         then g (load_ptr m p) else g p)) (pf_data_size f) count p)"
    by (intro does_items does_bind does_tag does_if func)
  then show ?thesis
    unfolding encode_array_def ref_array_def by (intro does_if does_return does_error packed)
qed

lemma does_basic:
  assumes size: "pf_data_size f < 2 ^ 32" "pf_array_size f < 2 ^ 32"
    and rec: "\<And>i p. does callback put (rec i p) (rrec i p)"
  shows "does callback put (encode_basic_field check rec m f d) (ref_basic check rrec m f d)"
proof -
  define z p where "z = size_addr d f" and "p = (if pf_atype f = PB_ATYPE_POINTER then load_ptr m d else d)"
  have one: "does callback put (call_bind (call_op (pb_encode_tag_for_field f)) (\<lambda>_. PB_ENCODERS rec m f p))
      (seq (ref_tag f) (ref_value rrec m f p))"
    by (intro does_bind does_tag does_value size rec)
  have count: "(if pf_size_offset f \<noteq> 0 then load_size m z else pf_array_size f) < 2 ^ 32"
    using load_size_less size(2) by simp
  have array: "does callback put
      (encode_array m f p (if pf_size_offset f \<noteq> 0 then load_size m z else pf_array_size f) (PB_ENCODERS rec m f))
      (ref_array m f p (if pf_size_offset f \<noteq> 0 then load_size m z else pf_array_size f) (ref_value rrec m f))"
    by (intro does_array does_value size rec count) (simp_all add: ref_value_def produce_def Let_def)
  define has where "has = (if pf_size_offset f \<noteq> 0 then Some True
      else if pf_htype f = PB_HTYPE_OPTIONAL then map_option Not (check f d) else Some True)"
  define body where "body = (\<lambda>has. let has = (if pf_atype f = PB_ATYPE_POINTER then p \<noteq> 0 else has);
      tag_and_data = call_bind (call_op (pb_encode_tag_for_field f)) (\<lambda>_. PB_ENCODERS rec m f p) in
      if pf_htype f = PB_HTYPE_REQUIRED then (if p = 0 then call_op (os_error ''missing required field'') else tag_and_data)
      else if pf_htype f = PB_HTYPE_OPTIONAL then
        (if (if pf_size_offset f \<noteq> 0 then m z \<noteq> 0 else has) then tag_and_data else call_op (op_return ()))
      else if pf_htype f = PB_HTYPE_REPEATED then
        encode_array m f p (if pf_size_offset f \<noteq> 0 then load_size m z else pf_array_size f) (PB_ENCODERS rec m f)
      else if pf_htype f = PB_HTYPE_ONEOF then
        (if pf_size_offset f = 0 then call_crash
         else if load_size m z = unat (pf_tag f) then tag_and_data else call_op (op_return ()))
      else call_op (os_error ''invalid field type''))"
  have code: "encode_basic_field check rec m f d s = (case has of None \<Rightarrow> None | Some h \<Rightarrow> body h s)" for s
    unfolding encode_basic_field_def has_def body_def z_def p_def Let_def by (simp split: option.split if_split)
  show ?thesis
  proof (cases has)
    case None
    then have "ref_basic check rrec m f d = None"
      by (auto simp: has_def ref_basic_def Let_def split: if_splits)
    then show ?thesis by simp
  next
    case (Some h)
    have "does callback put (body h) (ref_basic check rrec m f d)"
      using htype_cases [of f]
    proof (elim disjE)
      assume "pf_htype f = 0"
      then show ?thesis
        using one does_error by (simp add: body_def ref_basic_def Let_def z_def [symmetric] p_def [symmetric])
    next
      assume t: "pf_htype f = 0x10"
      show ?thesis
      proof (cases "pf_size_offset f = 0")
        case True
        then have c: "check f d = Some (\<not> h)" using Some t by (auto simp: has_def)
        then show ?thesis
          using one does_return t True
          by (simp add: body_def ref_basic_def Let_def z_def [symmetric] p_def [symmetric])
      next
        case False
        then show ?thesis
          using one does_return t
          by (simp add: body_def ref_basic_def Let_def z_def [symmetric] p_def [symmetric])
      qed
    next
      assume "pf_htype f = 0x20"
      then show ?thesis
        using array by (simp add: body_def ref_basic_def Let_def z_def [symmetric] p_def [symmetric])
    next
      assume "pf_htype f = 0x30"
      then show ?thesis
        using one does_return by (simp add: body_def ref_basic_def Let_def z_def [symmetric] p_def [symmetric])
    qed
    moreover have "encode_basic_field check rec m f d = body h" using code Some by auto
    ultimately show ?thesis by simp
  qed
qed

lemma does_field:
  assumes "pf_data_size f < 2 ^ 32" "pf_array_size f < 2 ^ 32" "env_law callback put env refs"
    and "\<And>i p. does callback put (rec i p) (rrec i p)"
  shows "does callback put (encode_field env check rec m f d) (ref_field refs check rrec m f d)"
proof -
  let ?p = "load_ptr m d"
  have cb: "does callback put (call_op (encode_callback_field env m f d))
      (if ?p \<noteq> 0 then refs_callback refs ?p m f (d + 8) else produce [])"
  proof (cases "?p = 0")
    case True
    then have "call_op (encode_callback_field env m f d) = (call_op (op_return ()) :: ('s pb_ostream, unit) call)"
      by (auto simp: call_op_def encode_callback_field_def op_return_def)
    then show ?thesis using True does_return by simp
  next
    case False
    have "does callback put (call_op (env_encode env ?p m f (d + 8))) (refs_callback refs ?p m f (d + 8))"
      using assms(3) by (simp add: env_law_def)
    then show ?thesis
      using False by (auto simp: does_def call_op_def encode_callback_field_def os_error_def stopped_def split: option.splits prod.splits)
  qed
  show ?thesis
    unfolding encode_field_def ref_field_def by (intro does_if does_basic assms cb does_error)
qed

lemma does_extensions:
  assumes enc: "\<And>f d. pf_data_size f < 2 ^ 32 \<Longrightarrow> pf_array_size f < 2 ^ 32 \<Longrightarrow> does callback put (enc f d) (renc f d)"
    and env: "env_law callback put env refs" "descs_ok (env_fields env)"
  shows "does callback put (encode_extensions env enc m n ext) (ref_extensions (env_fields env) refs renc m n ext)"
proof (induction n arbitrary: ext)
  case 0
  show ?case using does_return by simp
next
  case (Suc n)
  let ?e = "load_ptr m (load_ptr m ext + 8)" and ?f = "field_at (env_fields env (load_ptr m (load_ptr m ext + 16))) 0"
  have f: "pf_data_size ?f < 2 ^ 32" "pf_array_size ?f < 2 ^ 32"
    using env(2) by (simp_all add: descs_ok_def field_at_def PB_LAST_FIELD_def list_all_length)
  have e: "does callback put (call_op (env_ext_encode env ?e m ext)) (refs_extension refs ?e m ext)"
    using env(1) by (simp add: env_law_def)
  have d: "does callback put (default_extension_encoder env enc m ext)
      (renc ?f (if pf_atype ?f = PB_ATYPE_POINTER then ext + 8 else load_ptr m (ext + 8)))"
    using enc [OF f] by (simp add: default_extension_encoder_def Let_def)
  show ?case
    unfolding encode_extensions.simps ref_extensions.simps Let_def
    by (intro does_if does_return does_bind e d Suc.IH)
qed

lemma does_fields:
  assumes wf: "wf_fields fs" and enc: "\<And>f d z. (f, d, z) \<in> set (layout fs a) \<Longrightarrow> does callback put (enc f d) (renc f d)"
  shows "it_at fs a i it \<Longrightarrow> does callback put (encode_fields enc it) (ref_fields renc (drop i (layout fs a)))"
proof (induction "length fs - i" arbitrary: i it rule: less_induct)
  case less
  have i: "i < length (layout fs a)" and at: "layout fs a ! i = (it_field it, it_pData it, it_pSize it)"
    using less.prems by (simp_all add: it_at_def)
  have d: "drop i (layout fs a) = (it_field it, it_pData it, it_pSize it) # drop (Suc i) (layout fs a)"
    using Cons_nth_drop_Suc [OF i] at by simp
  have "(it_field it, it_pData it, it_pSize it) \<in> set (layout fs a)" using i at by (metis nth_mem)
  then have e: "does callback put (enc (it_field it) (it_pData it)) (renc (it_field it) (it_pData it))" by (rule enc)
  obtain b it' where n: "pb_field_iter_next it = (b, it')" by (cases "pb_field_iter_next it")
  note next_at = iter_next_at [OF wf less.prems n]
  have "does callback put (case pb_field_iter_next it of (True, it) \<Rightarrow> encode_fields enc it | (False, _) \<Rightarrow> call_op (op_return ()))
      (ref_fields renc (drop (Suc i) (layout fs a)))"
  proof (cases "Suc i < length fs - 1")
    case True
    then have "length fs - Suc i < length fs - i" by simp
    from less.hyps [OF this] show ?thesis using next_at True n by simp
  next
    case False
    then have "drop (Suc i) (layout fs a) = []" by simp
    then show ?thesis using next_at False n does_return by (simp add: ref_fields_def)
  qed
  then have "does callback put (call_bind (enc (it_field it) (it_pData it))
      (\<lambda>_. case pb_field_iter_next it of (True, it) \<Rightarrow> encode_fields enc it | (False, _) \<Rightarrow> call_op (op_return ())))
      (seq (renc (it_field it) (it_pData it)) (ref_fields renc (drop (Suc i) (layout fs a))))"
    by (intro does_bind e)
  then show ?case unfolding d by (subst encode_fields.simps) (simp add: ref_fields_def)
qed

lemma does_message:
  assumes env: "env_law callback put env refs" "descs_ok (env_fields env)"
    and check: "\<And>n f d. pb_check_proto3_default_value (env_fields env) n m f d = ref_default (env_fields env) n m f d"
  shows "does callback put (pb_encode env n m flds src) (ref_message (env_fields env) refs n m flds src)"
proof (induction n arbitrary: flds src)
  case (Suc n)
  let ?fs = "env_fields env flds"
  define enc where "enc = encode_field env (ref_default (env_fields env) n m) (pb_encode env n m) m"
  define renc where "renc = ref_field refs (ref_default (env_fields env) n m) (ref_message (env_fields env) refs n m) m"
  have enc: "does callback put (enc f d) (renc f d)" if "pf_data_size f < 2 ^ 32" "pf_array_size f < 2 ^ 32" for f d
    unfolding enc_def renc_def by (intro does_field that env Suc.IH)
  define one where "one = (\<lambda>f d. if pf_ltype f = PB_LTYPE_EXTENSION then encode_extension_field env enc m n d else enc f d)"
  define rone where "rone = (\<lambda>f d. if pf_ltype f = PB_LTYPE_EXTENSION
    then ref_extensions (env_fields env) refs renc m n (load_ptr m d) else renc f d)"
  have wf: "wf_fields ?fs" using env(2) by (simp add: descs_ok_def)
  have one: "does callback put (one f d) (rone f d)" if "(f, d, z) \<in> set (layout ?fs src)" for f d z
  proof -
    have "f \<in> set (butlast ?fs)" using that fst_layout [of ?fs src] by (metis fst_conv image_eqI list.set_map)
    then have "f \<in> set ?fs" by (rule in_set_butlastD)
    then have "pf_data_size f < 2 ^ 32" "pf_array_size f < 2 ^ 32"
      using env(2) by (auto simp: descs_ok_def list_all_iff)
    then show ?thesis
      using enc does_extensions [of enc renc env refs m n, OF enc env] by (simp add: one_def rone_def encode_extension_field_def)
  qed
  obtain b it where b: "pb_field_iter_begin ?fs src = (b, it)" by (cases "pb_field_iter_begin ?fs src")
  have "does callback put (case pb_field_iter_begin ?fs src of (False, _) \<Rightarrow> call_op (op_return ()) | (True, it) \<Rightarrow> encode_fields one it)
      (ref_fields rone (layout ?fs src))"
  proof (cases b)
    case True
    then have "it_at ?fs src 0 it" using iter_begin_at [OF wf b] by simp
    from does_fields [OF wf one this] show ?thesis using True b by simp
  next
    case False
    then have "length ?fs \<le> 1" using iter_begin_at(1) [OF wf b] by simp
    then have "layout ?fs src = []" by (metis length_0_conv length_layout diff_is_0_eq)
    then show ?thesis using b False does_return by (simp add: ref_fields_def)
  qed
  moreover have "pb_check_proto3_default_value (env_fields env) n m = ref_default (env_fields env) n m"
    using check by (simp add: fun_eq_iff)
  ultimately show ?case
    by (simp only: pb_encode.simps ref_message.simps Let_def one_def rone_def enc_def renc_def)
qed simp

end

section \<open>Default values\<close>

lemma check_fields_eq:
  assumes wf: "wf_fields fs"
  shows "it_at fs a i it \<Longrightarrow> check_fields rec it =
    foldr (\<lambda>(f, d, z) r. case rec f d of None \<Rightarrow> None | Some False \<Rightarrow> Some False | Some True \<Rightarrow> r)
      (drop i (layout fs a)) (Some True)"
proof (induction "length fs - i" arbitrary: i it rule: less_induct)
  case less
  have i: "i < length (layout fs a)" and at: "layout fs a ! i = (it_field it, it_pData it, it_pSize it)"
    using less.prems by (simp_all add: it_at_def)
  have d: "drop i (layout fs a) = (it_field it, it_pData it, it_pSize it) # drop (Suc i) (layout fs a)"
    using Cons_nth_drop_Suc [OF i] at by simp
  obtain b it' where n: "pb_field_iter_next it = (b, it')" by (cases "pb_field_iter_next it")
  note next_at = iter_next_at [OF wf less.prems n]
  show ?case
  proof (cases "Suc i < length fs - 1")
    case True
    then have "length fs - Suc i < length fs - i" by simp
    from less.hyps [OF this] show ?thesis
      using next_at True n unfolding d by (subst check_fields.simps) (simp split: option.split bool.split)
  next
    case False
    then have "drop (Suc i) (layout fs a) = []" by simp
    then show ?thesis
      using next_at False n unfolding d by (subst check_fields.simps) (simp split: option.split bool.split)
  qed
qed

lemma check_default_eq:
  assumes "descs_ok descs"
  shows "pb_check_proto3_default_value descs n m f d = ref_default descs n m f d"
proof (induction n arbitrary: f d)
  case (Suc n)
  have IH: "pb_check_proto3_default_value descs n m = ref_default descs n m"
    using Suc by (simp add: fun_eq_iff)
  have sub: "(case pb_field_iter_begin (descs i) d of
        (True, it) \<Rightarrow> check_fields (ref_default descs n m) it | (False, _) \<Rightarrow> Some True) =
      foldr (\<lambda>(f, d, z) r. case ref_default descs n m f d of
                None \<Rightarrow> None | Some False \<Rightarrow> Some False | Some True \<Rightarrow> r) (layout (descs i) d) (Some True)" for i
  proof -
    have wf: "wf_fields (descs i)" using assms by (simp add: descs_ok_def)
    obtain b it where b: "pb_field_iter_begin (descs i) d = (b, it)" by (cases "pb_field_iter_begin (descs i) d")
    show ?thesis
    proof (cases b)
      case True
      then have "it_at (descs i) d 0 it" using iter_begin_at [OF wf b] by simp
      then show ?thesis using True b check_fields_eq [OF wf] by simp
    next
      case False
      then have "length (descs i) \<le> 1" using iter_begin_at(1) [OF wf b] by simp
      then have "layout (descs i) d = []" by (metis length_0_conv length_layout diff_is_0_eq)
      then show ?thesis using b False by simp
    qed
  qed
  have zero: "list_all (\<lambda>b. b = 0) (rd m d k) \<longleftrightarrow> rd m d k = replicate k 0" for k
    by (simp add: list_all_length list_eq_iff_nth_eq)
  show ?case
    unfolding pb_check_proto3_default_value.simps ref_default.simps IH sub zero Let_def
    using htype_cases [of f] by (elim disjE) simp_all
qed simp

context sink
begin

theorem encode_does:
  assumes "env_law callback put env refs" "descs_ok (env_fields env)"
  shows "does callback put (pb_encode env n m flds src) (ref_message (env_fields env) refs n m flds src)"
  by (intro does_message assms check_default_eq)

end

end
