(* ===== verification/Pb_Message.thy ===== *)
theory Pb_Message
  imports Pb_Fields
begin

text \<open>
  What the decoder of nanopb (pb_decode.c) does to a message besides reading it from a stream: the
  defaults, the memory of pointer fields and its release. The state of a decoder call is the
  memory with the message, the allocator's own state, the input stream, and the local variable
  \<open>fixed_count_size\<close> of the current \<open>pb_decode_noinit\<close>, because \<open>iter.pSize\<close> can point to it.
  \<open>pb_realloc\<close> and \<open>pb_free\<close> are parameters, as are the user's functions. The functions that follow
  submessages take the depth to which they do.
\<close>

record ('s, 'h) pb_dec =
  pd_mem :: memory
  pd_heap :: 'h
  pd_in :: "'s pb_istream"
  pd_fixed :: nat

record ('s, 'h) pb_denv =
  de_fields :: "nat \<Rightarrow> pb_field list"
  de_decode :: "nat \<Rightarrow> pb_field \<Rightarrow> nat \<Rightarrow> (('s, 'h) pb_dec, unit) op"
  de_ext_decode :: "nat \<Rightarrow> nat \<Rightarrow> u32 \<Rightarrow> nat \<Rightarrow> (('s, 'h) pb_dec, unit) op"
  de_realloc :: "'h \<Rightarrow> memory \<Rightarrow> nat \<Rightarrow> nat \<Rightarrow> nat \<times> memory \<times> 'h"
  de_free :: "'h \<Rightarrow> memory \<Rightarrow> nat \<Rightarrow> memory \<times> 'h"

text \<open>A function on the stream alone, and an error of the stream.\<close>

definition on_stream :: "(memory \<Rightarrow> ('s pb_istream, 'a) op) \<Rightarrow> (('s, 'h) pb_dec, 'a) op" where
  "on_stream f d = (let (r, s) = f (pd_mem d) (pd_in d) in (r, d\<lparr>pd_in := s\<rparr>))"

definition pd_error :: "string \<Rightarrow> (('s, 'h) pb_dec, 'a) op" where
  "pd_error msg = on_stream (\<lambda>_. is_error msg)"

definition store_ptr :: "memory \<Rightarrow> nat \<Rightarrow> nat \<Rightarrow> memory" where
  "store_ptr m a p = store_le m a 8 (word_of_nat p)"

definition store_size :: "memory \<Rightarrow> nat \<Rightarrow> nat \<Rightarrow> memory" where
  "store_size m a n = store_le m a 4 (word_of_nat n)"

definition mem_zero :: "memory \<Rightarrow> nat \<Rightarrow> nat \<Rightarrow> memory" where
  "mem_zero m a n = wr m a (replicate n 0)"

section \<open>Extensions\<close>

text \<open>The field of an extension with the addresses of its data and of \<open>found\<close>, as an iterator that cannot advance.\<close>

definition iter_from_extension :: "(nat \<Rightarrow> pb_field list) \<Rightarrow> memory \<Rightarrow> nat \<Rightarrow> pb_field_iter" where
  "iter_from_extension descs m ext =
     (let fs = descs (load_ptr m (load_ptr m ext + 16));
          it = snd (pb_field_iter_begin fs (load_ptr m (ext + 8)));
          it = it\<lparr>it_pData := load_ptr m (ext + 8), it_pSize := ext + 24\<rparr>
      in if pf_atype (it_field it) = PB_ATYPE_POINTER then it\<lparr>it_pData := ext + 8\<rparr> else it)"

section \<open>Defaults\<close>

text \<open>One field: its address, the address of its count or flag. \<open>defaults\<close> is the function for submessages.\<close>

definition set_to_default ::
  "(nat \<Rightarrow> nat \<Rightarrow> memory \<Rightarrow> memory option) \<Rightarrow> pb_field \<Rightarrow> nat \<Rightarrow> nat \<Rightarrow> memory \<Rightarrow> memory option" where
  "set_to_default defaults f pData pSize m =
     (if pf_atype f = PB_ATYPE_STATIC then
        (let init_data = (pf_htype f \<noteq> PB_HTYPE_REPEATED \<and> pf_htype f \<noteq> PB_HTYPE_ONEOF);
             m = (if pf_htype f = PB_HTYPE_OPTIONAL \<and> pSize \<noteq> pData then m(pSize := 0)
                  else if \<not> init_data then store_size m pSize 0
                  else m)
         in if \<not> init_data then Some m
            else if pf_ltype f = PB_LTYPE_SUBMESSAGE then
              (case pf_ptr f of Ptr_fields i \<Rightarrow> defaults i pData m | _ \<Rightarrow> None)
            else
              (case pf_ptr f of
                 Ptr_null \<Rightarrow> Some (mem_zero m pData (pf_data_size f))
               | Ptr_default bs \<Rightarrow> Some (wr m pData (take (pf_data_size f) bs))
               | Ptr_fields _ \<Rightarrow> None))
      else if pf_atype f = PB_ATYPE_POINTER then
        (let m = store_ptr m pData 0
         in if pf_htype f = PB_HTYPE_REPEATED \<or> pf_htype f = PB_HTYPE_ONEOF then Some (store_size m pSize 0) else Some m)
      else Some m)"

text \<open>The loop over the fields of a message.\<close>

function default_fields :: "(pb_field_iter \<Rightarrow> memory \<Rightarrow> memory option) \<Rightarrow> pb_field_iter \<Rightarrow> memory \<Rightarrow> memory option" where
  "default_fields reset it m =
     (case reset it m of
        None \<Rightarrow> None
      | Some m \<Rightarrow>
          (case pb_field_iter_next it of
             (True, it) \<Rightarrow> default_fields reset it m
           | (False, _) \<Rightarrow> Some m))"
  by pat_completeness auto
termination
  by (relation "measure (\<lambda>(reset, it, m). length (it_start it) - it_pos it)") (auto dest: iter_next_measure [OF sym])

declare default_fields.simps [simp del]

text \<open>The extensions of a message; each field may again be a list of extensions.\<close>

fun default_extensions ::
  "(nat \<Rightarrow> pb_field list) \<Rightarrow> (pb_field_iter \<Rightarrow> memory \<Rightarrow> memory option) \<Rightarrow> nat \<Rightarrow> nat \<Rightarrow> memory \<Rightarrow> memory option" where
  "default_extensions descs reset 0 ext m = (if ext = 0 then Some m else None)"
| "default_extensions descs reset (Suc n) ext m =
     (if ext = 0 then Some m
      else (let m = m(ext + 24 := 0) in
            case reset (iter_from_extension descs m ext) m of
              None \<Rightarrow> None
            | Some m \<Rightarrow> default_extensions descs reset n (load_ptr m (ext + 16)) m))"

fun pb_field_set_to_default :: "(nat \<Rightarrow> pb_field list) \<Rightarrow> nat \<Rightarrow> pb_field_iter \<Rightarrow> memory \<Rightarrow> memory option" where
  "pb_field_set_to_default descs 0 it m = None"
| "pb_field_set_to_default descs (Suc n) it m =
     (if pf_ltype (it_field it) = PB_LTYPE_EXTENSION
      then default_extensions descs (pb_field_set_to_default descs n) n (load_ptr m (it_pData it)) m
      else set_to_default
        (\<lambda>i dest m. case pb_field_iter_begin (descs i) dest of
           (False, _) \<Rightarrow> Some m
         | (True, it) \<Rightarrow> default_fields (pb_field_set_to_default descs n) it m)
        (it_field it) (it_pData it) (it_pSize it) m)"

definition pb_message_set_to_defaults :: "(nat \<Rightarrow> pb_field list) \<Rightarrow> nat \<Rightarrow> nat \<Rightarrow> nat \<Rightarrow> memory \<Rightarrow> memory option" where
  "pb_message_set_to_defaults descs n flds dest m =
     (case pb_field_iter_begin (descs flds) dest of
        (False, _) \<Rightarrow> Some m
      | (True, it) \<Rightarrow> default_fields (pb_field_set_to_default descs n) it m)"

definition call_defaults :: "('s, 'h) pb_denv \<Rightarrow> nat \<Rightarrow> nat \<Rightarrow> nat \<Rightarrow> (('s, 'h) pb_dec, unit) call" where
  "call_defaults env n flds dest d =
     (case pb_message_set_to_defaults (de_fields env) n flds dest (pd_mem d) of
        None \<Rightarrow> None
      | Some m \<Rightarrow> Some (Some (), d\<lparr>pd_mem := m\<rparr>))"

section \<open>Memory of pointer fields\<close>

definition allocate_field :: "('s, 'h) pb_denv \<Rightarrow> nat \<Rightarrow> nat \<Rightarrow> nat \<Rightarrow> (('s, 'h) pb_dec, unit) op" where
  "allocate_field env pData data_size array_size d =
     (let ptr = load_ptr (pd_mem d) pData; check_limit = 2 ^ 32; size_max = 2 ^ 64 - 1 in
      if data_size = 0 \<or> array_size = 0 then pd_error ''invalid size'' d
      else if (data_size \<ge> check_limit \<or> array_size \<ge> check_limit) \<and> size_max div array_size < data_size
      then pd_error ''size too large'' d
      else
        (let (ptr, m, h) = de_realloc env (pd_heap d) (pd_mem d) ptr (sz (array_size * data_size));
             d = d\<lparr>pd_mem := m, pd_heap := h\<rparr>
         in if ptr = 0 then pd_error ''realloc failed'' d
            else (Some (), d\<lparr>pd_mem := store_ptr m pData ptr\<rparr>)))"

definition initialize_pointer_field :: "('s, 'h) pb_denv \<Rightarrow> nat \<Rightarrow> pb_field \<Rightarrow> nat \<Rightarrow> (('s, 'h) pb_dec, unit) call" where
  "initialize_pointer_field env n f pItem d =
     (if pf_ltype f = PB_LTYPE_STRING \<or> pf_ltype f = PB_LTYPE_BYTES
      then Some (Some (), d\<lparr>pd_mem := store_ptr (pd_mem d) pItem 0\<rparr>)
      else if pf_ltype f = PB_LTYPE_SUBMESSAGE then
        (case pf_ptr f of
           Ptr_fields i \<Rightarrow> call_defaults env n i pItem (d\<lparr>pd_mem := mem_zero (pd_mem d) pItem (pf_data_size f)\<rparr>)
         | _ \<Rightarrow> None)
      else Some (Some (), d))"

section \<open>Release\<close>

text \<open>The memory and the allocator's state.\<close>

type_synonym 'h heap = "memory \<times> 'h"

fun release_array :: "(nat \<Rightarrow> 'h heap \<Rightarrow> 'h heap option) \<Rightarrow> nat \<Rightarrow> nat \<Rightarrow> nat \<Rightarrow> 'h heap \<Rightarrow> 'h heap option" where
  "release_array release step 0 pItem mh = Some mh"
| "release_array release step (Suc count) pItem mh =
     (case release pItem mh of None \<Rightarrow> None | Some mh \<Rightarrow> release_array release step count (pItem + step) mh)"

text \<open>The entries of an array of strings or bytes.\<close>

fun release_entries :: "('s, 'h) pb_denv \<Rightarrow> nat \<Rightarrow> nat \<Rightarrow> 'h heap \<Rightarrow> 'h heap" where
  "release_entries env 0 pItem (m, h) = (m, h)"
| "release_entries env (Suc count) pItem (m, h) =
     (let (m, h) = de_free env h m (load_ptr m pItem)
      in release_entries env count (pItem + 8) (store_ptr m pItem 0, h))"

definition release_pointer :: "('s, 'h) pb_denv \<Rightarrow> pb_field_iter \<Rightarrow> 'h heap \<Rightarrow> 'h heap" where
  "release_pointer env it mh =
     (let f = it_field it;
          mh = (if pf_htype f = PB_HTYPE_REPEATED \<and> (pf_ltype f = PB_LTYPE_STRING \<or> pf_ltype f = PB_LTYPE_BYTES)
                then release_entries env (load_size (fst mh) (it_pSize it)) (load_ptr (fst mh) (it_pData it)) mh
                else mh);
          (m, h) = mh;
          m = (if pf_htype f = PB_HTYPE_REPEATED then store_size m (it_pSize it) 0 else m);
          (m, h) = de_free env h m (load_ptr m (it_pData it))
      in (store_ptr m (it_pData it) 0, h))"

text \<open>The number of submessages behind a field.\<close>

definition release_count :: "pb_field_iter \<Rightarrow> memory \<Rightarrow> nat" where
  "release_count it m =
     (let f = it_field it in
      if pf_htype f = PB_HTYPE_REPEATED then
        (let count = (if pf_atype f = PB_ATYPE_STATIC \<and> it_pSize it = it_pData it then pf_array_size f
                      else load_size m (it_pSize it))
         in if pf_atype f = PB_ATYPE_STATIC \<and> count > pf_array_size f then pf_array_size f else count)
      else 1)"

fun release_extensions ::
  "(nat \<Rightarrow> pb_field list) \<Rightarrow> (pb_field_iter \<Rightarrow> 'h heap \<Rightarrow> 'h heap option) \<Rightarrow> nat \<Rightarrow> nat \<Rightarrow> 'h heap \<Rightarrow> 'h heap option" where
  "release_extensions descs release 0 ext mh = (if ext = 0 then Some mh else None)"
| "release_extensions descs release (Suc n) ext mh =
     (if ext = 0 then Some mh
      else (case release (iter_from_extension descs (fst mh) ext) mh of
              None \<Rightarrow> None
            | Some mh \<Rightarrow> release_extensions descs release n (load_ptr (fst mh) (ext + 16)) mh))"

text \<open>The loop over the fields of a message.\<close>

function release_fields :: "(pb_field_iter \<Rightarrow> 'h heap \<Rightarrow> 'h heap option) \<Rightarrow> pb_field_iter \<Rightarrow> 'h heap \<Rightarrow> 'h heap option" where
  "release_fields release it mh =
     (case release it mh of
        None \<Rightarrow> None
      | Some mh \<Rightarrow>
          (case pb_field_iter_next it of
             (True, it) \<Rightarrow> release_fields release it mh
           | (False, _) \<Rightarrow> Some mh))"
  by pat_completeness auto
termination
  by (relation "measure (\<lambda>(release, it, mh). length (it_start it) - it_pos it)") (auto dest: iter_next_measure [OF sym])

declare release_fields.simps [simp del]

definition release_message ::
  "('s, 'h) pb_denv \<Rightarrow> (pb_field_iter \<Rightarrow> 'h heap \<Rightarrow> 'h heap option) \<Rightarrow> nat \<Rightarrow> nat \<Rightarrow> 'h heap \<Rightarrow> 'h heap option" where
  "release_message env release flds dest mh =
     (if dest = 0 then Some mh
      else (case pb_field_iter_begin (de_fields env flds) dest of
              (False, _) \<Rightarrow> Some mh
            | (True, it) \<Rightarrow> release_fields release it mh))"

fun pb_release_single_field :: "('s, 'h) pb_denv \<Rightarrow> nat \<Rightarrow> pb_field_iter \<Rightarrow> 'h heap \<Rightarrow> 'h heap option" where
  "pb_release_single_field env 0 it mh = None"
| "pb_release_single_field env (Suc n) it mh =
     (let f = it_field it in
      if pf_htype f = PB_HTYPE_ONEOF \<and> load_size (fst mh) (it_pSize it) \<noteq> unat (pf_tag f) then Some mh
      else
        (case
           (if pf_ltype f = PB_LTYPE_EXTENSION then
              release_extensions (de_fields env) (pb_release_single_field env n) n (load_ptr (fst mh) (it_pData it)) mh
            else if pf_ltype f = PB_LTYPE_SUBMESSAGE then
              (let pItem = (if pf_atype f = PB_ATYPE_POINTER then load_ptr (fst mh) (it_pData it) else it_pData it) in
               if pItem = 0 then Some mh
               else (case pf_ptr f of
                       Ptr_fields i \<Rightarrow>
                         release_array (release_message env (pb_release_single_field env n) i) (pf_data_size f)
                           (release_count it (fst mh)) pItem mh
                     | _ \<Rightarrow> None))
            else Some mh) of
           None \<Rightarrow> None
         | Some mh \<Rightarrow>
             if pf_atype f = PB_ATYPE_POINTER then Some (release_pointer env it mh) else Some mh))"

definition pb_release :: "('s, 'h) pb_denv \<Rightarrow> nat \<Rightarrow> nat \<Rightarrow> nat \<Rightarrow> 'h heap \<Rightarrow> 'h heap option" where
  "pb_release env n flds dest mh = release_message env (pb_release_single_field env n) flds dest mh"

text \<open>On the state of the decoder.\<close>

definition on_heap :: "('h heap \<Rightarrow> 'h heap option) \<Rightarrow> ('s, 'h) pb_dec \<Rightarrow> ('s, 'h) pb_dec option" where
  "on_heap f d = map_option (\<lambda>(m, h). d\<lparr>pd_mem := m, pd_heap := h\<rparr>) (f (pd_mem d, pd_heap d))"

end
