(* ===== verification/Pb_Decode.thy ===== *)
theory Pb_Decode
  imports Pb_Message
begin

text \<open>
  The message decoder of nanopb, pb_decode.c from \<open>decode_static_field\<close> to \<open>pb_decode_nullterminated\<close>
  with the field decoders. \<open>pb_decode_noinit\<close> takes the depth to which submessages are followed;
  loops over the input take fuel, one more than there are bytes, since every round takes at least one. A
  callback field is called again as long as its substream has bytes; where it has been
  called more often than there were bytes the outcome is None.
\<close>

type_synonym ('s, 'h, 'a) dec = "(('s, 'h) pb_dec, 'a) call"

text \<open>Reading from the stream to an address of the message.\<close>

definition read_to :: "nat \<Rightarrow> nat \<Rightarrow> (('s, 'h) pb_dec, unit) op" where
  "read_to dest count d =
     (case on_stream (\<lambda>m. pb_read m count) d of
        (None, d) \<Rightarrow> (None, d)
      | (Some bs, d) \<Rightarrow> (Some (), d\<lparr>pd_mem := wr (pd_mem d) dest bs\<rparr>))"

definition update_mem :: "(memory \<Rightarrow> memory) \<Rightarrow> (('s, 'h) pb_dec, unit) op" where
  "update_mem f d = (Some (), d\<lparr>pd_mem := f (pd_mem d)\<rparr>)"

section \<open>Field decoders\<close>

text \<open>The number is stored first, then compared with what was read.\<close>

definition store_checked :: "nat \<Rightarrow> nat \<Rightarrow> (nat \<Rightarrow> u64 \<Rightarrow> u64) \<Rightarrow> u64 \<Rightarrow> (('s, 'h) pb_dec, unit) op" where
  "store_checked n dest clamp v =
     (if \<not> (n = 1 \<or> n = 2 \<or> n = 4 \<or> n = 8) then pd_error ''invalid data_size''
      else op_bind (update_mem (\<lambda>m. store_le m dest n v)) (\<lambda>_.
        if clamp n v \<noteq> v then pd_error ''integer too large'' else op_return ()))"

definition clamp_signed :: "nat \<Rightarrow> u64 \<Rightarrow> u64" where
  "clamp_signed n v = signed_take_bit (8 * n - 1) v"

definition clamp_unsigned :: "nat \<Rightarrow> u64 \<Rightarrow> u64" where
  "clamp_unsigned n v = take_bit (8 * n) v"

definition pb_dec_varint :: "pb_field \<Rightarrow> nat \<Rightarrow> (('s, 'h) pb_dec, unit) op" where
  "pb_dec_varint f dest = op_bind (on_stream pb_decode_varint) (\<lambda>v.
     store_checked (pf_data_size f) dest clamp_signed (if pf_data_size f = 8 then v else clamp_signed 4 v))"

definition pb_dec_uvarint :: "pb_field \<Rightarrow> nat \<Rightarrow> (('s, 'h) pb_dec, unit) op" where
  "pb_dec_uvarint f dest = op_bind (on_stream pb_decode_varint) (\<lambda>v. store_checked (pf_data_size f) dest clamp_unsigned v)"

definition pb_dec_svarint :: "pb_field \<Rightarrow> nat \<Rightarrow> (('s, 'h) pb_dec, unit) op" where
  "pb_dec_svarint f dest = op_bind (on_stream pb_decode_svarint) (\<lambda>v. store_checked (pf_data_size f) dest clamp_signed v)"

definition pb_dec_fixed32 :: "nat \<Rightarrow> (('s, 'h) pb_dec, unit) op" where
  "pb_dec_fixed32 dest = op_bind (on_stream pb_decode_fixed32) (\<lambda>v. update_mem (\<lambda>m. store_le m dest 4 (ucast v)))"

definition pb_dec_fixed64 :: "nat \<Rightarrow> (('s, 'h) pb_dec, unit) op" where
  "pb_dec_fixed64 dest = op_bind (on_stream pb_decode_fixed64) (\<lambda>v. update_mem (\<lambda>m. store_le m dest 8 v))"

definition pb_dec_bytes :: "('s, 'h) pb_denv \<Rightarrow> pb_field \<Rightarrow> nat \<Rightarrow> (('s, 'h) pb_dec, unit) op" where
  "pb_dec_bytes env f dest = op_bind (on_stream pb_decode_varint32) (\<lambda>v.
     let n = unat v; alloc_size = sz (n + 4) in
     if n > PB_SIZE_MAX then pd_error ''bytes overflow''
     else if n > alloc_size then pd_error ''size too large''
     else op_bind
       (if pf_atype f = PB_ATYPE_POINTER
        then op_bind (allocate_field env dest alloc_size 1) (\<lambda>_ d. (Some (load_ptr (pd_mem d) dest), d))
        else if alloc_size > pf_data_size f then pd_error ''bytes overflow''
        else op_return dest)
       (\<lambda>bdest. op_bind (update_mem (\<lambda>m. store_size m bdest n)) (\<lambda>_. read_to (bdest + 4) n)))"

text \<open>\<open>size + 1\<close> is computed in 32 bits. The terminator is written whether or not the bytes could be read.\<close>

definition pb_dec_string :: "('s, 'h) pb_denv \<Rightarrow> pb_field \<Rightarrow> nat \<Rightarrow> (('s, 'h) pb_dec, unit) op" where
  "pb_dec_string env f dest = op_bind (on_stream pb_decode_varint32) (\<lambda>v.
     let n = unat v; alloc_size = unat (v + 1) in
     if alloc_size < n then pd_error ''size too large''
     else op_bind
       (if pf_atype f = PB_ATYPE_POINTER
        then op_bind (allocate_field env dest alloc_size 1) (\<lambda>_ d. (Some (load_ptr (pd_mem d) dest), d))
        else if alloc_size > pf_data_size f then pd_error ''string overflow''
        else op_return dest)
       (\<lambda>dest d. let (status, d) = read_to dest n d in (status, d\<lparr>pd_mem := (pd_mem d)(dest + n := 0)\<rparr>)))"

text \<open>
  A function on a substream: the stream of the state is the substream while it runs, and the
  parent has it again afterwards.
\<close>

definition on_substream :: "'s pb_istream \<Rightarrow> ('s, 'h, 'a) dec \<Rightarrow> ('s, 'h, 'a option \<times> 's pb_istream) dec" where
  "on_substream sub f d =
     (case f (d\<lparr>pd_in := sub\<rparr>) of
        None \<Rightarrow> None
      | Some (r, d') \<Rightarrow> Some (Some (r, pd_in d'), d'\<lparr>pd_in := pd_in d\<rparr>))"

definition call_status :: "'a option \<Rightarrow> ('s, 'h, 'a) dec" where
  "call_status r d = Some (r, d)"

text \<open>Run on a string substream; close it whatever the status, and return the status.\<close>

definition with_substream :: "('s, 'h, unit) dec \<Rightarrow> ('s, 'h, unit) dec" where
  "with_substream f =
     call_bind (call_op (on_stream pb_make_string_substream)) (\<lambda>sub.
     call_bind (on_substream sub f) (\<lambda>(status, sub).
     call_bind (call_op (on_stream (\<lambda>m. pb_close_string_substream m sub))) (\<lambda>_. call_status status)))"

definition pb_dec_submessage ::
  "(nat \<Rightarrow> nat \<Rightarrow> ('s, 'h, unit) dec) \<Rightarrow> (nat \<Rightarrow> nat \<Rightarrow> ('s, 'h, unit) dec) \<Rightarrow> pb_field \<Rightarrow> nat \<Rightarrow> ('s, 'h, unit) dec" where
  "pb_dec_submessage decode noinit f dest =
     (case pf_ptr f of
        Ptr_null \<Rightarrow> call_bind (call_op (on_stream pb_make_string_substream)) (\<lambda>_. call_op (pd_error ''invalid field descriptor''))
      | Ptr_fields i \<Rightarrow> with_substream (if pf_htype f = PB_HTYPE_REPEATED then decode i dest else noinit i dest)
      | Ptr_default _ \<Rightarrow> call_bind (call_op (on_stream pb_make_string_substream)) (\<lambda>_. call_crash))"

definition pb_dec_fixed_length_bytes :: "pb_field \<Rightarrow> nat \<Rightarrow> (('s, 'h) pb_dec, unit) op" where
  "pb_dec_fixed_length_bytes f dest = op_bind (on_stream pb_decode_varint32) (\<lambda>v.
     if unat v > PB_SIZE_MAX then pd_error ''bytes overflow''
     else if v = 0 then update_mem (\<lambda>m. mem_zero m dest (pf_data_size f))
     else if unat v \<noteq> pf_data_size f then pd_error ''incorrect fixed length bytes size''
     else read_to dest (pf_data_size f))"

definition PB_DECODERS ::
  "('s, 'h) pb_denv \<Rightarrow> (nat \<Rightarrow> nat \<Rightarrow> ('s, 'h, unit) dec) \<Rightarrow> (nat \<Rightarrow> nat \<Rightarrow> ('s, 'h, unit) dec) \<Rightarrow> pb_field \<Rightarrow> nat \<Rightarrow>
   ('s, 'h, unit) dec" where
  "PB_DECODERS env decode noinit f dest =
     (let t = pf_ltype f in
      if t = PB_LTYPE_VARINT then call_op (pb_dec_varint f dest)
      else if t = PB_LTYPE_UVARINT then call_op (pb_dec_uvarint f dest)
      else if t = PB_LTYPE_SVARINT then call_op (pb_dec_svarint f dest)
      else if t = PB_LTYPE_FIXED32 then call_op (pb_dec_fixed32 dest)
      else if t = PB_LTYPE_FIXED64 then call_op (pb_dec_fixed64 dest)
      else if t = PB_LTYPE_BYTES then call_op (pb_dec_bytes env f dest)
      else if t = PB_LTYPE_STRING then call_op (pb_dec_string env f dest)
      else if t = PB_LTYPE_SUBMESSAGE then pb_dec_submessage decode noinit f dest
      else if t = PB_LTYPE_FIXED_LENGTH_BYTES then call_op (pb_dec_fixed_length_bytes f dest)
      else call_crash)"

section \<open>Counts\<close>

text \<open>Where \<open>iter.pSize\<close> points: into the message, or to \<open>fixed_count_size\<close>.\<close>

datatype size_loc = Size_at nat | Size_fixed

definition get_count :: "size_loc \<Rightarrow> ('s, 'h) pb_dec \<Rightarrow> nat" where
  "get_count loc d = (case loc of Size_at a \<Rightarrow> load_size (pd_mem d) a | Size_fixed \<Rightarrow> pd_fixed d)"

definition put_count :: "size_loc \<Rightarrow> nat \<Rightarrow> ('s, 'h) pb_dec \<Rightarrow> ('s, 'h) pb_dec" where
  "put_count loc n d =
     (case loc of
        Size_at a \<Rightarrow> d\<lparr>pd_mem := store_size (pd_mem d) a n\<rparr>
      | Size_fixed \<Rightarrow> d\<lparr>pd_fixed := n mod 2 ^ 32\<rparr>)"

text \<open>The loop over a packed array: the status, on the substream.\<close>

fun packed_loop ::
  "(nat \<Rightarrow> ('s, 'h, unit) dec) \<Rightarrow> pb_field \<Rightarrow> size_loc \<Rightarrow> nat \<Rightarrow> nat \<Rightarrow> ('s, 'h, unit) dec" where
  "packed_loop func f loc pData 0 d = None"
| "packed_loop func f loc pData (Suc k) d =
     (if is_left (pd_in d) > 0 \<and> get_count loc d < pf_array_size f
      then (case func (pData + pf_data_size f * get_count loc d) d of
              None \<Rightarrow> None
            | Some (None, d) \<Rightarrow> Some (None, d)
            | Some (Some _, d) \<Rightarrow> packed_loop func f loc pData k (put_count loc (get_count loc d + 1) d))
      else Some (Some (), d))"

definition decode_packed :: "(nat \<Rightarrow> ('s, 'h, unit) dec) \<Rightarrow> pb_field \<Rightarrow> size_loc \<Rightarrow> nat \<Rightarrow> ('s, 'h, unit) dec" where
  "decode_packed func f loc pData =
     call_bind (call_op (on_stream pb_make_string_substream)) (\<lambda>sub.
     call_bind (on_substream sub (packed_loop func f loc pData (is_left sub + 1))) (\<lambda>(status, sub).
       if is_left sub \<noteq> 0 then call_op (pd_error ''array overflow'')
       else call_bind (call_op (on_stream (\<lambda>m. pb_close_string_substream m sub))) (\<lambda>_. call_status status)))"

definition is_packed :: "nat \<Rightarrow> pb_field \<Rightarrow> bool" where
  "is_packed wire_type f \<longleftrightarrow> wire_type = PB_WT_STRING \<and> pf_ltype f \<le> PB_LTYPE_LAST_PACKABLE"

definition decode_static_field ::
  "('s, 'h) pb_denv \<Rightarrow> nat \<Rightarrow> (nat \<Rightarrow> ('s, 'h, unit) dec) \<Rightarrow> nat \<Rightarrow> pb_field \<Rightarrow> nat \<Rightarrow> size_loc \<Rightarrow> ('s, 'h, unit) dec" where
  "decode_static_field env n func wire_type f pData loc d =
     (if pf_htype f = PB_HTYPE_REQUIRED then func pData d
      else if pf_htype f = PB_HTYPE_OPTIONAL then
        func pData (case loc of
           Size_at a \<Rightarrow> if a \<noteq> pData then d\<lparr>pd_mem := (pd_mem d)(a := 1)\<rparr> else d
         | Size_fixed \<Rightarrow> d)
      else if pf_htype f = PB_HTYPE_REPEATED then
        (if is_packed wire_type f then decode_packed func f loc pData d
         else
           (let count = get_count loc d; pItem = pData + pf_data_size f * count; d = put_count loc (count + 1) d
            in if count \<ge> pf_array_size f then call_op (pd_error ''array overflow'') d
               else func pItem d))
      else if pf_htype f = PB_HTYPE_ONEOF then
        (let d = put_count loc (unat (pf_tag f)) d in
         if pf_ltype f = PB_LTYPE_SUBMESSAGE then
           (case pf_ptr f of
              Ptr_fields i \<Rightarrow>
                call_bind (call_defaults env n i pData) (\<lambda>_. func pData)
                  (d\<lparr>pd_mem := mem_zero (pd_mem d) pData (pf_data_size f)\<rparr>)
            | _ \<Rightarrow> None)
         else func pData d)
      else call_op (pd_error ''invalid field type'') d)"

section \<open>Pointer fields\<close>

text \<open>A packed array behind a pointer; \<open>allocated\<close> entries are there.\<close>

fun packed_alloc_loop ::
  "('s, 'h) pb_denv \<Rightarrow> nat \<Rightarrow> (nat \<Rightarrow> ('s, 'h, unit) dec) \<Rightarrow> pb_field \<Rightarrow> size_loc \<Rightarrow> nat \<Rightarrow> nat \<Rightarrow> nat \<Rightarrow> ('s, 'h, unit) dec" where
  "packed_alloc_loop env n func f loc pData 0 allocated d = None"
| "packed_alloc_loop env n func f loc pData (Suc k) allocated d =
     (if is_left (pd_in d) = 0 then Some (Some (), d)
      else
        (let grow = get_count loc d + 1 > allocated;
             allocated = (if grow then sz (allocated + (is_left (pd_in d) - 1) div pf_data_size f + 1) else allocated)
         in if grow \<and> pf_data_size f = 0 then None
            else case (if grow then allocate_field env pData (pf_data_size f) allocated d else (Some (), d)) of
              (None, d) \<Rightarrow> Some (None, d)
            | (Some _, d) \<Rightarrow>
                (let pItem = load_ptr (pd_mem d) pData + pf_data_size f * get_count loc d in
                 case call_bind (initialize_pointer_field env n f pItem) (\<lambda>_. func pItem) d of
                   None \<Rightarrow> None
                 | Some (None, d) \<Rightarrow> Some (None, d)
                 | Some (Some _, d) \<Rightarrow>
                     if get_count loc d = PB_SIZE_MAX then Some (None, d)
                     else packed_alloc_loop env n func f loc pData k allocated (put_count loc (get_count loc d + 1) d))))"

definition decode_pointer_packed ::
  "('s, 'h) pb_denv \<Rightarrow> nat \<Rightarrow> (nat \<Rightarrow> ('s, 'h, unit) dec) \<Rightarrow> pb_field \<Rightarrow> size_loc \<Rightarrow> nat \<Rightarrow> ('s, 'h, unit) dec" where
  "decode_pointer_packed env n func f loc pData d =
     (let allocated_size = get_count loc d in
      with_substream (\<lambda>d. packed_alloc_loop env n func f loc pData (is_left (pd_in d) + 1) allocated_size d) d)"

definition decode_pointer_field ::
  "('s, 'h) pb_denv \<Rightarrow> nat \<Rightarrow> (nat \<Rightarrow> ('s, 'h, unit) dec) \<Rightarrow> nat \<Rightarrow> pb_field_iter \<Rightarrow> size_loc \<Rightarrow> ('s, 'h, unit) dec" where
  "decode_pointer_field env n func wire_type it loc d =
     (let f = it_field it; pData = it_pData it in
      if pf_htype f = PB_HTYPE_REQUIRED \<or> pf_htype f = PB_HTYPE_OPTIONAL \<or> pf_htype f = PB_HTYPE_ONEOF then
        (case (if pf_ltype f = PB_LTYPE_SUBMESSAGE \<and> load_ptr (pd_mem d) pData \<noteq> 0
               then on_heap (pb_release_single_field env n it) d else Some d) of
           None \<Rightarrow> None
         | Some d \<Rightarrow>
             (let d = (if pf_htype f = PB_HTYPE_ONEOF then put_count loc (unat (pf_tag f)) d else d) in
              if pf_ltype f = PB_LTYPE_STRING \<or> pf_ltype f = PB_LTYPE_BYTES then func pData d
              else call_bind (call_op (allocate_field env pData (pf_data_size f) 1)) (\<lambda>_ d.
                call_bind (initialize_pointer_field env n f (load_ptr (pd_mem d) pData)) (\<lambda>_ d.
                  func (load_ptr (pd_mem d) pData) d) d) d))
      else if pf_htype f = PB_HTYPE_REPEATED then
        (if is_packed wire_type f then decode_pointer_packed env n func f loc pData d
         else if get_count loc d = PB_SIZE_MAX then call_op (pd_error ''too many array entries'') d
         else
           (let d = put_count loc (get_count loc d + 1) d in
            call_bind (call_op (allocate_field env pData (pf_data_size f) (get_count loc d))) (\<lambda>_ d.
              let pItem = load_ptr (pd_mem d) pData + pf_data_size f * (get_count loc d - 1)
              in call_bind (initialize_pointer_field env n f pItem) (\<lambda>_. func pItem) d) d))
      else call_op (pd_error ''invalid field type'') d)"

section \<open>Callback fields\<close>

fun callback_loop :: "(('s, 'h) pb_dec, unit) op \<Rightarrow> nat \<Rightarrow> ('s, 'h, unit) dec" where
  "callback_loop decode 0 d = None"
| "callback_loop decode (Suc k) d =
     (case decode d of
        (None, d) \<Rightarrow> Some (None, d)
      | (Some _, d) \<Rightarrow> if is_left (pd_in d) \<noteq> 0 then callback_loop decode k d else Some (Some (), d))"

definition decode_callback_field :: "('s, 'h) pb_denv \<Rightarrow> nat \<Rightarrow> pb_field \<Rightarrow> nat \<Rightarrow> ('s, 'h, unit) dec" where
  "decode_callback_field env wire_type f pData d =
     (let fn = load_ptr (pd_mem d) pData; decode = de_decode env fn f (pData + 8) in
      if pData = 0 \<or> fn = 0 then call_op (on_stream (\<lambda>m. pb_skip_field m wire_type)) d
      else if wire_type = PB_WT_STRING then
        call_bind (call_op (on_stream pb_make_string_substream)) (\<lambda>sub.
        call_bind (on_substream sub (callback_loop decode (is_left sub + 1))) (\<lambda>(status, sub).
          if status = None then call_op (pd_error ''callback failed'')
          else call_op (on_stream (\<lambda>m. pb_close_string_substream m sub)))) d
      else
        call_bind (call_op (on_stream (\<lambda>m. read_raw_value m wire_type 10))) (\<lambda>buffer.
        call_bind (on_substream \<lparr>is_source = Buf_local buffer, is_left = length buffer, is_errmsg = None\<rparr> (call_op decode))
          (\<lambda>(status, _). call_status status)) d)"

section \<open>Any field\<close>

text \<open>The result is the iterator after the call; where a union was released it has been set again, with \<open>pSize\<close>.\<close>

definition pb_release_union_field ::
  "('s, 'h) pb_denv \<Rightarrow> nat \<Rightarrow> pb_field_iter \<Rightarrow> ('s, 'h, pb_field_iter) dec" where
  "pb_release_union_field env n it d =
     (let old_tag = load_size (pd_mem d) (it_pSize it); new_tag = pf_tag (it_field it) in
      if old_tag = 0 \<or> old_tag = unat new_tag then Some (Some it, d)
      else (case pb_field_iter_find it (word_of_nat old_tag) of
              (False, _) \<Rightarrow> call_op (pd_error ''invalid union tag'') d
            | (True, it) \<Rightarrow>
                (case on_heap (pb_release_single_field env n it) d of
                   None \<Rightarrow> None
                 | Some d \<Rightarrow>
                     (case pb_field_iter_find it new_tag of
                        (False, _) \<Rightarrow> call_op (pd_error ''iterator error'') d
                      | (True, it) \<Rightarrow> Some (Some it, d)))))"

definition decode_field ::
  "('s, 'h) pb_denv \<Rightarrow> nat \<Rightarrow> (pb_field \<Rightarrow> nat \<Rightarrow> ('s, 'h, unit) dec) \<Rightarrow> nat \<Rightarrow> pb_field_iter \<Rightarrow> size_loc \<Rightarrow>
   ('s, 'h, pb_field_iter) dec" where
  "decode_field env n decoders wire_type it loc =
     call_bind (if pf_htype (it_field it) = PB_HTYPE_ONEOF then pb_release_union_field env n it else call_status (Some it))
       (\<lambda>it'. let f = it_field it'; func = decoders f;
            loc = (if pf_htype (it_field it) = PB_HTYPE_ONEOF then Size_at (it_pSize it') else loc) in
         call_bind
           (if pf_atype f = PB_ATYPE_STATIC then decode_static_field env n func wire_type f (it_pData it') loc
            else if pf_atype f = PB_ATYPE_POINTER then decode_pointer_field env n func wire_type it' loc
            else if pf_atype f = PB_ATYPE_CALLBACK then decode_callback_field env wire_type f (it_pData it')
            else call_op (pd_error ''invalid field type''))
           (\<lambda>_. call_status (Some it')))"

section \<open>Extensions\<close>

definition default_extension_decoder ::
  "('s, 'h) pb_denv \<Rightarrow> nat \<Rightarrow> (pb_field \<Rightarrow> nat \<Rightarrow> ('s, 'h, unit) dec) \<Rightarrow> nat \<Rightarrow> u32 \<Rightarrow> nat \<Rightarrow> ('s, 'h, unit) dec" where
  "default_extension_decoder env n decoders ext tag wire_type d =
     (let f = field_at (de_fields env (load_ptr (pd_mem d) (load_ptr (pd_mem d) ext + 16))) 0 in
      if pf_tag f \<noteq> tag then Some (Some (), d)
      else
        (let it = iter_from_extension (de_fields env) (pd_mem d) ext;
             d = d\<lparr>pd_mem := (pd_mem d)(ext + 24 := 1)\<rparr>
         in call_bind (decode_field env n decoders wire_type it (Size_at (it_pSize it))) (\<lambda>_. call_op (op_return ())) d))"

fun extension_loop ::
  "('s, 'h) pb_denv \<Rightarrow> nat \<Rightarrow> (pb_field \<Rightarrow> nat \<Rightarrow> ('s, 'h, unit) dec) \<Rightarrow> u32 \<Rightarrow> nat \<Rightarrow> nat \<Rightarrow> nat \<Rightarrow> nat \<Rightarrow> ('s, 'h, unit) dec" where
  "extension_loop env n decoders tag wire_type pos 0 ext d = None"
| "extension_loop env n decoders tag wire_type pos (Suc k) ext d =
     (if ext \<noteq> 0 \<and> pos = is_left (pd_in d)
      then call_bind
        (let decode = load_ptr (pd_mem d) (load_ptr (pd_mem d) ext) in
         if decode \<noteq> 0 then call_op (de_ext_decode env decode ext tag wire_type)
         else default_extension_decoder env n decoders ext tag wire_type)
        (\<lambda>_ d. extension_loop env n decoders tag wire_type pos k (load_ptr (pd_mem d) (ext + 16)) d) d
      else Some (Some (), d))"

definition decode_extension ::
  "('s, 'h) pb_denv \<Rightarrow> nat \<Rightarrow> (pb_field \<Rightarrow> nat \<Rightarrow> ('s, 'h, unit) dec) \<Rightarrow> u32 \<Rightarrow> nat \<Rightarrow> pb_field_iter \<Rightarrow> ('s, 'h, unit) dec" where
  "decode_extension env n decoders tag wire_type it d =
     extension_loop env n decoders tag wire_type (is_left (pd_in d)) (n + 1) (load_ptr (pd_mem d) (it_pData it)) d"

fun find_extension_loop :: "nat \<Rightarrow> nat \<Rightarrow> pb_field_iter \<Rightarrow> bool \<times> pb_field_iter" where
  "find_extension_loop 0 start it = (False, it)"
| "find_extension_loop (Suc k) start it =
     (if pf_ltype (it_field it) = PB_LTYPE_EXTENSION then (True, it)
      else (let it = snd (pb_field_iter_next it)
            in if it_pos it \<noteq> start then find_extension_loop k start it else (False, it)))"

definition find_extension_field :: "pb_field_iter \<Rightarrow> bool \<times> pb_field_iter" where
  "find_extension_field it = find_extension_loop (length (it_start it) + 1) (it_pos it) it"

section \<open>Messages\<close>

text \<open>The local variables of \<open>pb_decode_noinit\<close>; \<open>fixed_count_size\<close> is in the state.\<close>

record pb_frame =
  fr_iter :: pb_field_iter
  fr_seen :: "u32 list"
  fr_ext_start :: u32
  fr_fixed :: "nat option"

text \<open>One field of the input with a tag the message does not have.\<close>

definition decode_unknown ::
  "('s, 'h) pb_denv \<Rightarrow> nat \<Rightarrow> (pb_field \<Rightarrow> nat \<Rightarrow> ('s, 'h, unit) dec) \<Rightarrow> u32 \<Rightarrow> nat \<Rightarrow> pb_frame \<Rightarrow> ('s, 'h, pb_frame) dec" where
  "decode_unknown env n decoders tag wire_type fr =
     (let skip = (\<lambda>fr. call_bind (call_op (on_stream (\<lambda>m. pb_skip_field m wire_type))) (\<lambda>_. call_status (Some fr))) in
      if tag \<ge> fr_ext_start fr then
        (let (found, it) = find_extension_field (fr_iter fr);
             fr = fr\<lparr>fr_iter := it, fr_ext_start := (if found then pf_tag (it_field it) else -1)\<rparr>
         in if tag \<ge> fr_ext_start fr
            then (\<lambda>d. call_bind (decode_extension env n decoders tag wire_type it)
                   (\<lambda>_ d'. if is_left (pd_in d) \<noteq> is_left (pd_in d') then Some (Some fr, d') else skip fr d') d)
            else skip fr)
      else skip fr)"

text \<open>One field of the message.\<close>

definition decode_known ::
  "('s, 'h) pb_denv \<Rightarrow> nat \<Rightarrow> (pb_field \<Rightarrow> nat \<Rightarrow> ('s, 'h, unit) dec) \<Rightarrow> nat \<Rightarrow> pb_frame \<Rightarrow> ('s, 'h, pb_frame) dec" where
  "decode_known env n decoders wire_type fr d =
     (let it = fr_iter fr; f = it_field it;
          fixed = (pf_htype f = PB_HTYPE_REPEATED \<and> it_pSize it = it_pData it);
          other = (fixed \<and> fr_fixed fr \<noteq> Some (it_pos it))
      in if other \<and> (case fr_fixed fr of None \<Rightarrow> False
                     | Some p \<Rightarrow> pd_fixed d \<noteq> pf_array_size (field_at (it_start it) p))
         then call_op (pd_error ''wrong size for fixed count field'') d
         else
           (let d = (if other then d\<lparr>pd_fixed := 0\<rparr> else d);
                fr = (if other then fr\<lparr>fr_fixed := Some (it_pos it)\<rparr> else fr);
                loc = (if fixed then Size_fixed else Size_at (it_pSize it));
                fr = (if pf_htype f = PB_HTYPE_REQUIRED \<and> it_req it < 64
                      then fr\<lparr>fr_seen := (fr_seen fr)[it_req it div 32 :=
                             fr_seen fr ! (it_req it div 32) OR push_bit (it_req it mod 32) 1]\<rparr>
                      else fr)
            in call_bind (decode_field env n decoders wire_type it loc) (\<lambda>it. call_status (Some (fr\<lparr>fr_iter := it\<rparr>))) d))"

fun decode_loop ::
  "('s, 'h) pb_denv \<Rightarrow> nat \<Rightarrow> (pb_field \<Rightarrow> nat \<Rightarrow> ('s, 'h, unit) dec) \<Rightarrow> nat \<Rightarrow> pb_frame \<Rightarrow> ('s, 'h, pb_frame) dec" where
  "decode_loop env n decoders 0 fr d = None"
| "decode_loop env n decoders (Suc k) fr d =
     (if is_left (pd_in d) = 0 then Some (Some fr, d)
      else (case pb_decode_tag (pd_mem d) (pd_in d) of
              (None, eof, s) \<Rightarrow> Some (if eof then Some fr else None, d\<lparr>pd_in := s\<rparr>)
            | (Some (wire_type, tag), _, s) \<Rightarrow>
                (let d = d\<lparr>pd_in := s\<rparr>; (found, it) = pb_field_iter_find (fr_iter fr) tag; fr = fr\<lparr>fr_iter := it\<rparr>
                 in call_bind
                      (if found then decode_known env n decoders wire_type fr else decode_unknown env n decoders tag wire_type fr)
                      (decode_loop env n decoders k) d)))"

text \<open>The count of required fields: the iterator goes to the end.\<close>

function count_required :: "pb_field_iter \<Rightarrow> nat" where
  "count_required it =
     (case pb_field_iter_next it of
        (True, it') \<Rightarrow> count_required it'
      | (False, it') \<Rightarrow>
          if pf_htype (it_field it) = PB_HTYPE_REQUIRED \<and> pf_tag (it_field it') \<noteq> 0 then it_req it + 1 else it_req it)"
  by pat_completeness auto
termination
  by (relation "measure (\<lambda>it. length (it_start it) - it_pos it)") (auto dest: iter_next_measure [OF sym])

declare count_required.simps [simp del]

definition all_required :: "u32 list \<Rightarrow> nat \<Rightarrow> bool" where
  "all_required fields_seen count \<longleftrightarrow>
     (let count = min count 64 in
      list_all (\<lambda>i. fields_seen ! i = -1) [0..<count div 32] \<and>
      (count mod 32 \<noteq> 0 \<longrightarrow> fields_seen ! (count div 32) = drop_bit (32 - count mod 32) (-1)))"

definition decode_finish :: "pb_frame \<Rightarrow> (('s, 'h) pb_dec, unit) op" where
  "decode_finish fr d =
     (if (case fr_fixed fr of None \<Rightarrow> False
          | Some p \<Rightarrow> pd_fixed d \<noteq> pf_array_size (field_at (it_start (fr_iter fr)) p))
      then pd_error ''wrong size for fixed count field'' d
      else if \<not> all_required (fr_seen fr) (count_required (fr_iter fr)) then pd_error ''missing required field'' d
      else (Some (), d))"

text \<open>\<open>pb_decode\<close> over the function for the rest.\<close>

definition decode_with_defaults ::
  "('s, 'h) pb_denv \<Rightarrow> nat \<Rightarrow> (nat \<Rightarrow> nat \<Rightarrow> ('s, 'h, unit) dec) \<Rightarrow> nat \<Rightarrow> nat \<Rightarrow> ('s, 'h, unit) dec" where
  "decode_with_defaults env n noinit flds dest d =
     (case call_defaults env n flds dest d of
        None \<Rightarrow> None
      | Some (_, d) \<Rightarrow>
          (case noinit flds dest d of
             Some (None, d) \<Rightarrow> map_option (\<lambda>d. (None, d)) (on_heap (pb_release env n flds dest) d)
           | r \<Rightarrow> r))"

fun pb_decode_noinit :: "('s, 'h) pb_denv \<Rightarrow> nat \<Rightarrow> nat \<Rightarrow> nat \<Rightarrow> ('s, 'h, unit) dec" where
  "pb_decode_noinit env 0 flds dest d = None"
| "pb_decode_noinit env (Suc n) flds dest d =
     (let it = snd (pb_field_iter_begin (de_fields env flds) dest);
          decoders = PB_DECODERS env (decode_with_defaults env n (pb_decode_noinit env n)) (pb_decode_noinit env n);
          fr = \<lparr>fr_iter = it, fr_seen = [0, 0], fr_ext_start = 0, fr_fixed = None\<rparr>
      in case call_bind (decode_loop env n decoders (is_left (pd_in d) + 1) fr) (\<lambda>fr. call_op (decode_finish fr)) (d\<lparr>pd_fixed := 0\<rparr>) of
           None \<Rightarrow> None
         | Some (r, d') \<Rightarrow> Some (r, d'\<lparr>pd_fixed := pd_fixed d\<rparr>))"

definition pb_decode :: "('s, 'h) pb_denv \<Rightarrow> nat \<Rightarrow> nat \<Rightarrow> nat \<Rightarrow> ('s, 'h, unit) dec" where
  "pb_decode env n = decode_with_defaults env n (pb_decode_noinit env n)"

definition pb_decode_delimited_noinit :: "('s, 'h) pb_denv \<Rightarrow> nat \<Rightarrow> nat \<Rightarrow> nat \<Rightarrow> ('s, 'h, unit) dec" where
  "pb_decode_delimited_noinit env n flds dest = with_substream (pb_decode_noinit env n flds dest)"

definition pb_decode_delimited :: "('s, 'h) pb_denv \<Rightarrow> nat \<Rightarrow> nat \<Rightarrow> nat \<Rightarrow> ('s, 'h, unit) dec" where
  "pb_decode_delimited env n flds dest = with_substream (pb_decode env n flds dest)"

definition pb_decode_nullterminated :: "('s, 'h) pb_denv \<Rightarrow> nat \<Rightarrow> nat \<Rightarrow> nat \<Rightarrow> ('s, 'h, unit) dec" where
  "pb_decode_nullterminated env n = pb_decode env n"

end
