(* ===== verification/Pb_Dec_Safe.thy ===== *)
theory Pb_Dec_Safe
  imports Pb_Decode
begin

text \<open>
  What the decoder does to the memory, for messages whose fields are all static: whatever the input, it
  returns, changes only bytes of the message struct, and does not use the allocator. The rules of
  a small calculus for total correctness carry the proof: \<open>runs R Q f\<close> says that the call returns, changes only
  addresses in \<open>R\<close>, never gives bytes back to the stream, and that a value it returns satisfies \<open>Q\<close>.
\<close>

named_theorems run_rules \<open>rules of the calculus\<close>

section \<open>Streams\<close>

text \<open>A user's callback stores no more bytes than it is asked for.\<close>

definition src_ok :: "'s in_source \<Rightarrow> bool" where
  "src_ok src =
     (case src of In_callback cb st \<Rightarrow> \<forall>st n bs st'. cb st n = (Some bs, st') \<longrightarrow> length bs \<le> n | _ \<Rightarrow> True)"

definition in_ok :: "'s pb_istream \<Rightarrow> bool" where
  "in_ok s \<longleftrightarrow> src_ok (is_source s)"

definition tame :: "(memory \<Rightarrow> ('s pb_istream, 'a) op) \<Rightarrow> bool" where
  "tame g \<longleftrightarrow> (\<forall>m s r s'. in_ok s \<longrightarrow> g m s = (r, s') \<longrightarrow> in_ok s' \<and> is_left s' \<le> is_left s)"

definition greedy :: "(memory \<Rightarrow> ('s pb_istream, 'a) op) \<Rightarrow> bool" where
  "greedy g \<longleftrightarrow> (\<forall>m s x s'. in_ok s \<longrightarrow> g m s = (Some x, s') \<longrightarrow> is_left s' < is_left s)"

lemma tameD: "tame g \<Longrightarrow> g m s = (r, s') \<Longrightarrow> in_ok s \<Longrightarrow> in_ok s' \<and> is_left s' \<le> is_left s"
  by (auto simp: tame_def)

lemma in_ok_simps [simp]:
  "in_ok (s\<lparr>is_left := n\<rparr>) = in_ok s" "in_ok (s\<lparr>is_errmsg := e\<rparr>) = in_ok s" "in_ok (s\<lparr>is_source := src\<rparr>) = src_ok src"
  by (simp_all add: in_ok_def)

lemma callback_ok: "is_callback m n s = (r, s') \<Longrightarrow> in_ok s \<Longrightarrow> in_ok s' \<and> is_left s' = is_left s \<and> (\<forall>bs. r = Some bs \<longrightarrow> length bs \<le> n)"
proof (cases "is_source s")
  case (In_callback cb st)
  assume "is_callback m n s = (r, s')" "in_ok s"
  then obtain st' where "cb st n = (r, st')" "s' = s\<lparr>is_source := In_callback cb st'\<rparr>"
      "\<forall>st n bs st'. cb st n = (Some bs, st') \<longrightarrow> length bs \<le> n"
    using In_callback by (auto simp: is_callback_def in_ok_def src_ok_def split: prod.splits)
  then show ?thesis by (auto simp: src_ok_def)
qed (auto simp: is_callback_def buf_read_def src_ok_def)

lemma tame_error [run_rules]: "tame (\<lambda>_. is_error msg)"
  by (auto simp: tame_def is_error_def)

lemma tame_return [run_rules]: "tame (\<lambda>_. op_return x)"
  by (auto simp: tame_def op_return_def)

lemma tame_bind [run_rules]:
  assumes "tame f" "\<And>x. tame (g x)"
  shows "tame (\<lambda>m. op_bind (f m) (\<lambda>x. g x m))"
  unfolding tame_def
proof (intro allI impI, goal_cases)
  case (1 m s r s')
  obtain q s1 where q: "f m s = (q, s1)" by (metis surj_pair)
  then have s1: "in_ok s1" "is_left s1 \<le> is_left s" using tameD [OF assms(1)] 1(1) by blast+
  show ?case
  proof (cases q)
    case (Some x)
    then have "g x m s1 = (r, s')" using 1(2) q by (simp add: op_bind_def)
    then show ?thesis using tameD [OF assms(2) _ s1(1)] s1(2) by fastforce
  next
    case None
    then show ?thesis using 1(2) q s1 by (simp add: op_bind_def)
  qed
qed

lemma tame_if [run_rules]: "(c \<Longrightarrow> tame f) \<Longrightarrow> (\<not> c \<Longrightarrow> tame g) \<Longrightarrow> tame (\<lambda>m. if c then f m else g m)"
  by (cases c) simp_all

lemma read_ok:
  "pb_read m n s = (r, s') \<Longrightarrow> in_ok s \<Longrightarrow> in_ok s' \<and> is_left s' \<le> is_left s \<and> (\<forall>bs. r = Some bs \<longrightarrow> length bs \<le> n)"
  using callback_ok [of m n s] by (auto simp: pb_read_def is_error_def split: if_splits prod.splits option.splits)

lemma tame_read [run_rules]: "tame (\<lambda>m. pb_read m n)"
  using read_ok by (fastforce simp: tame_def)

lemma readbyte_ok: "pb_readbyte m s = (r, s') \<Longrightarrow> in_ok s \<Longrightarrow> in_ok s' \<and> is_left s' \<le> is_left s"
  using callback_ok [of m 1 s] by (auto simp: pb_readbyte_def is_error_def split: if_splits prod.splits option.splits)

lemma read_tmp_ok: "pb_read_tmp m n s = (r, s') \<Longrightarrow> in_ok s \<Longrightarrow> in_ok s' \<and> is_left s' \<le> is_left s"
proof (induction m n s rule: pb_read_tmp.induct)
  case (1 m n s)
  show ?case
  proof (cases "n > 16")
    case True
    obtain r1 s1 where r: "pb_read m 16 s = (r1, s1)" by (metis surj_pair)
    then have s1: "in_ok s1" "is_left s1 \<le> is_left s" using read_ok 1(3) by blast+
    show ?thesis
    proof (cases r1)
      case None
      then show ?thesis using 1(2) True r s1 by (subst (asm) pb_read_tmp.simps) simp
    next
      case (Some bs)
      then have "pb_read_tmp m (n - 16) s1 = (r, s')" using 1(2) True r by (subst (asm) pb_read_tmp.simps) simp
      then show ?thesis using 1(1) [OF True r [symmetric] Some _ s1(1)] s1(2) by simp
    qed
  next
    case False
    then show ?thesis
      using 1(2,3) read_ok [of m n s] by (subst (asm) pb_read_tmp.simps)
        (auto simp: op_bind_def op_return_def split: prod.splits option.splits)
  qed
qed

lemma tame_read_null [run_rules]: "tame (\<lambda>m. pb_read_null m n)"
  unfolding tame_def
proof (intro allI impI)
  fix m and s s' :: "'s pb_istream" and r
  assume s: "in_ok s" "pb_read_null m n s = (r, s')"
  have "tame (\<lambda>m. op_bind (pb_read m n) (\<lambda>_. op_return ()) :: ('s pb_istream, unit) op)" by (intro run_rules)
  then show "in_ok s' \<and> is_left s' \<le> is_left s"
    using s tameD read_tmp_ok by (cases "is_source s") (simp_all add: pb_read_null_def, blast+)
qed

lemma varint32_loop_ok: "varint32_loop m b v s = (r, s') \<Longrightarrow> in_ok s \<Longrightarrow> in_ok s' \<and> is_left s' \<le> is_left s"
proof (induction m b v s rule: varint32_loop.induct)
  case (1 m b v s)
  obtain q s1 where q: "pb_readbyte m s = (q, s1)" by (metis surj_pair)
  then have s1: "in_ok s1" "is_left s1 \<le> is_left s" using readbyte_ok 1(3) by blast+
  show ?case
    using 1(2) 1(1) [OF q [symmetric] _ _ refl refl _ _ s1(1)] s1 q
    by (subst (asm) varint32_loop.simps)
      (auto simp: is_error_def Let_def split: option.splits if_splits)
qed

lemma varint_loop_ok: "varint_loop m b v s = (r, s') \<Longrightarrow> in_ok s \<Longrightarrow> in_ok s' \<and> is_left s' \<le> is_left s"
proof (induction m b v s rule: varint_loop.induct)
  case (1 m b v s)
  obtain q s1 where q: "pb_readbyte m s = (q, s1)" by (metis surj_pair)
  then have s1: "in_ok s1" "is_left s1 \<le> is_left s" using readbyte_ok 1(3) by blast+
  show ?case
    using 1(2) 1(1) [OF _ q [symmetric] _ refl refl _ _ s1(1)] s1 q 1(3)
    by (subst (asm) varint_loop.simps)
      (auto simp: is_error_def Let_def split: option.splits if_splits)
qed

lemma skip_varint_ok: "pb_skip_varint m s = (r, s') \<Longrightarrow> in_ok s \<Longrightarrow> in_ok s' \<and> is_left s' \<le> is_left s"
proof (induction m s rule: pb_skip_varint.induct)
  case (1 m s)
  obtain q s1 where q: "pb_read m 1 s = (q, s1)" by (metis surj_pair)
  then have s1: "in_ok s1" "is_left s1 \<le> is_left s" using read_ok 1(3) by blast+
  show ?case
    using 1(2) 1(1) [OF q [symmetric] _ _ _ s1(1)] s1 q
    by (subst (asm) pb_skip_varint.simps) (auto split: option.splits if_splits)
qed

lemma decode_varint32_eof_ok:
  "pb_decode_varint32_eof m s = (r, eof, s') \<Longrightarrow> in_ok s \<Longrightarrow> in_ok s' \<and> is_left s' \<le> is_left s \<and> (r \<noteq> None \<longrightarrow> is_left s' < is_left s)"
  using readbyte_ok [of m s] readbyte_left [of m s] varint32_loop_ok [of m 7]
  by (fastforce simp: pb_decode_varint32_eof_def Let_def split: prod.splits option.splits if_splits)

lemma tame_varint32 [run_rules]: "tame pb_decode_varint32"
  unfolding tame_def pb_decode_varint32_def Let_def
  by (auto split: prod.splits dest: decode_varint32_eof_ok)

lemma tame_varint [run_rules]: "tame pb_decode_varint"
  by (auto simp: tame_def pb_decode_varint_def dest: varint_loop_ok)

lemma tame_skip_varint [run_rules]: "tame pb_skip_varint"
  by (auto simp: tame_def dest: skip_varint_ok)

lemma tame_skip_string [run_rules]: "tame pb_skip_string"
  unfolding pb_skip_string_def by (intro run_rules)

lemma tame_skip_field [run_rules]: "tame (\<lambda>m. pb_skip_field m wt)"
  unfolding pb_skip_field_def by (intro run_rules)

lemma tame_svarint [run_rules]: "tame pb_decode_svarint"
  unfolding pb_decode_svarint_def by (intro run_rules)

lemma tame_fixed32 [run_rules]: "tame pb_decode_fixed32"
  unfolding pb_decode_fixed32_def by (intro run_rules)

lemma tame_fixed64 [run_rules]: "tame pb_decode_fixed64"
  unfolding pb_decode_fixed64_def by (intro run_rules)

lemma decode_tag_ok:
  "pb_decode_tag m s = (r, eof, s') \<Longrightarrow> in_ok s \<Longrightarrow> in_ok s' \<and> is_left s' \<le> is_left s \<and> (r \<noteq> None \<longrightarrow> is_left s' < is_left s)"
  using decode_varint32_eof_ok [of m s] by (fastforce simp: pb_decode_tag_def split: prod.splits option.splits if_splits)

lemma make_substream_ok:
  "pb_make_string_substream m s = (r, s') \<Longrightarrow> in_ok s \<Longrightarrow>
    in_ok s' \<and> is_left s' \<le> is_left s \<and> (\<forall>sub. r = Some sub \<longrightarrow> in_ok sub)"
proof -
  assume r: "pb_make_string_substream m s = (r, s')" "in_ok s"
  obtain q s1 where q: "pb_decode_varint32 m s = (q, s1)" by (metis surj_pair)
  then have "in_ok s1" "is_left s1 \<le> is_left s" using tameD [OF tame_varint32 _ r(2)] by blast+
  then show ?thesis
    using r q by (auto simp: pb_make_string_substream_def op_bind_def is_error_def split: option.splits if_splits)
qed

lemma close_substream_ok:
  "pb_close_string_substream m sub s = (r, s') \<Longrightarrow> in_ok sub \<Longrightarrow> in_ok s \<Longrightarrow> in_ok s' \<and> is_left s' \<le> is_left s"
  using tameD [OF tame_read_null, of m "is_left sub" sub]
  by (auto simp: pb_close_string_substream_def in_ok_def split: prod.splits option.splits if_splits)

section \<open>Calls\<close>

definition runs_at :: "nat set \<Rightarrow> ('a \<Rightarrow> bool) \<Rightarrow> ('s, 'h, 'a) dec \<Rightarrow> ('s, 'h) pb_dec \<Rightarrow> bool" where
  "runs_at R Q f d \<longleftrightarrow>
     (\<exists>r d'. f d = Some (r, d') \<and> (\<forall>x. x \<notin> R \<longrightarrow> pd_mem d' x = pd_mem d x) \<and> pd_heap d' = pd_heap d \<and>
       in_ok (pd_in d') \<and> is_left (pd_in d') \<le> is_left (pd_in d) \<and> (\<forall>x. r = Some x \<longrightarrow> Q x))"

definition runs :: "nat set \<Rightarrow> ('a \<Rightarrow> bool) \<Rightarrow> ('s, 'h, 'a) dec \<Rightarrow> bool" where
  "runs R Q f \<longleftrightarrow> (\<forall>d. in_ok (pd_in d) \<longrightarrow> runs_at R Q f d)"

definition eats :: "('s, 'h, 'a) dec \<Rightarrow> bool" where
  "eats f \<longleftrightarrow> (\<forall>d x d'. in_ok (pd_in d) \<longrightarrow> f d = Some (Some x, d') \<longrightarrow> is_left (pd_in d') < is_left (pd_in d))"

abbreviation any :: "'a \<Rightarrow> bool" where "any \<equiv> \<lambda>_. True"

lemma runsI:
  assumes "\<And>d. in_ok (pd_in d) \<Longrightarrow> \<exists>r d'. f d = Some (r, d') \<and> (\<forall>x. x \<notin> R \<longrightarrow> pd_mem d' x = pd_mem d x) \<and>
      pd_heap d' = pd_heap d \<and> in_ok (pd_in d') \<and> is_left (pd_in d') \<le> is_left (pd_in d) \<and> (\<forall>x. r = Some x \<longrightarrow> Q x)"
  shows "runs R Q f"
  using assms by (simp add: runs_def runs_at_def)

lemma runsE:
  assumes "runs R Q f" "in_ok (pd_in d)"
  obtains r d' where "f d = Some (r, d')" "\<And>x. x \<notin> R \<Longrightarrow> pd_mem d' x = pd_mem d x" "pd_heap d' = pd_heap d"
    "in_ok (pd_in d')" "is_left (pd_in d') \<le> is_left (pd_in d)" "\<And>x. r = Some x \<Longrightarrow> Q x"
  using assms by (auto simp: runs_def runs_at_def)

lemma runs_mono: "runs R Q f \<Longrightarrow> R \<subseteq> R' \<Longrightarrow> (\<And>x. Q x \<Longrightarrow> Q' x) \<Longrightarrow> runs R' Q' f"
  unfolding runs_def runs_at_def by (meson subsetD)

lemma runs_at_state: "(\<And>d0. runs R Q (f d0)) \<Longrightarrow> runs R Q (\<lambda>d. f d d)"
  by (simp add: runs_def runs_at_def)

lemma runs_at_bind:
  assumes f: "runs_at R P f d"
    and g: "\<And>x d'. P x \<Longrightarrow> in_ok (pd_in d') \<Longrightarrow> is_left (pd_in d') \<le> is_left (pd_in d) \<Longrightarrow> f d = Some (Some x, d') \<Longrightarrow>
      runs_at R Q (g x) d'"
  shows "runs_at R Q (call_bind f g) d"
proof -
  obtain r d' where f: "f d = Some (r, d')" "\<And>x. x \<notin> R \<Longrightarrow> pd_mem d' x = pd_mem d x" "pd_heap d' = pd_heap d"
    "in_ok (pd_in d')" "is_left (pd_in d') \<le> is_left (pd_in d)" "\<And>x. r = Some x \<Longrightarrow> P x"
    using f by (auto simp: runs_at_def)
  show ?thesis
  proof (cases r)
    case None
    then show ?thesis using f by (auto simp: runs_at_def call_bind_def)
  next
    case (Some x)
    then have "runs_at R Q (g x) d'" using g f by blast
    then show ?thesis using f(1-3,5) Some by (auto simp: runs_at_def call_bind_def intro: le_trans)
  qed
qed

lemma runs_bind: "runs R P f \<Longrightarrow> (\<And>x. P x \<Longrightarrow> runs R Q (g x)) \<Longrightarrow> runs R Q (call_bind f g)"
  unfolding runs_def by (intro allI impI runs_at_bind [where P = P]) auto

lemma runs_seq [run_rules]: "runs R any f \<Longrightarrow> (\<And>x. runs R Q (g x)) \<Longrightarrow> runs R Q (call_bind f g)"
  by (rule runs_bind)

lemma runs_if [run_rules]: "(c \<Longrightarrow> runs R Q f) \<Longrightarrow> (\<not> c \<Longrightarrow> runs R Q g) \<Longrightarrow> runs R Q (if c then f else g)"
  by simp

lemma runs_if_state [run_rules]:
  "runs R Q f \<Longrightarrow> runs R Q g \<Longrightarrow> runs R Q (\<lambda>d. if c d then f d else g d)"
  by (simp add: runs_def runs_at_def)

lemma runs_status [run_rules]: "(\<And>x. r = Some x \<Longrightarrow> Q x) \<Longrightarrow> runs R Q (call_status r)"
  by (rule runsI) (auto simp: call_status_def)

lemma runs_return [run_rules]: "Q x \<Longrightarrow> runs R Q (call_op (op_return x))"
  by (rule runsI) (auto simp: call_op_def op_return_def)

lemma runs_stream [run_rules]:
  fixes g :: "memory \<Rightarrow> ('s pb_istream, 'a) op"
  assumes "tame g"
  shows "runs R any (call_op (on_stream g) :: ('s, 'h, 'a) dec)"
proof (rule runsI)
  fix d :: "('s, 'h) pb_dec"
  assume d: "in_ok (pd_in d)"
  obtain r s where g: "g (pd_mem d) (pd_in d) = (r, s)" by (metis surj_pair)
  then have "in_ok s \<and> is_left s \<le> is_left (pd_in d)" using tameD [OF assms] d by blast
  then show "\<exists>r d'. call_op (on_stream g) d = Some (r, d') \<and> (\<forall>x. x \<notin> R \<longrightarrow> pd_mem d' x = pd_mem d x) \<and>
      pd_heap d' = pd_heap d \<and> in_ok (pd_in d') \<and> is_left (pd_in d') \<le> is_left (pd_in d) \<and> (\<forall>x. r = Some x \<longrightarrow> True)"
    using g by (auto simp: call_op_def on_stream_def)
qed

lemma runs_error [run_rules]: "runs R Q (call_op (pd_error msg))"
  by (rule runsI) (auto simp: call_op_def pd_error_def on_stream_def is_error_def)

lemma call_op_bind: "call_op (op_bind f g) = call_bind (call_op f) (\<lambda>x. call_op (g x))"
  by (auto simp: call_op_def op_bind_def call_bind_def fun_eq_iff split: prod.split option.split)

lemma call_op_if: "call_op (if c then f else g) = (if c then call_op f else call_op g)"
  by simp

lemma runs_update:
  "(\<And>m x. x \<notin> R \<Longrightarrow> f m x = m x) \<Longrightarrow> runs R any (call_op (update_mem f))"
  by (rule runsI) (auto simp: call_op_def update_mem_def)

lemma runs_read_to [run_rules]:
  assumes "{dest..<dest + n} \<subseteq> R"
  shows "runs R any (call_op (read_to dest n) :: ('s, 'h, unit) dec)"
proof (rule runsI)
  fix d :: "('s, 'h) pb_dec"
  assume d: "in_ok (pd_in d)"
  obtain r s where g: "pb_read (pd_mem d) n (pd_in d) = (r, s)" by (metis surj_pair)
  then have ok: "in_ok s" "is_left s \<le> is_left (pd_in d)" "\<And>bs. r = Some bs \<Longrightarrow> length bs \<le> n"
    using read_ok [OF g d] by blast+
  have "wr (pd_mem d) dest bs x = pd_mem d x" if "r = Some bs" "x \<notin> R" for bs x
    using ok(3) [OF that(1)] that(2) subsetD [OF assms, of x] by (intro wr_out) (rule ccontr, auto)
  then show "\<exists>r d'. call_op (read_to dest n) d = Some (r, d') \<and> (\<forall>x. x \<notin> R \<longrightarrow> pd_mem d' x = pd_mem d x) \<and>
      pd_heap d' = pd_heap d \<and> in_ok (pd_in d') \<and> is_left (pd_in d') \<le> is_left (pd_in d) \<and> (\<forall>x. r = Some x \<longrightarrow> True)"
    using g ok(1,2) by (auto simp: call_op_def read_to_def on_stream_def split: option.split)
qed

text \<open>The function on the substream gets a stream that is in order and leaves one behind.\<close>

lemma runs_on_substream [run_rules]:
  fixes f :: "('s, 'h, 'a) dec"
  assumes "in_ok sub" "runs R any f"
  shows "runs R (\<lambda>(_, sub). in_ok sub) (on_substream sub f)"
proof (rule runsI)
  fix d :: "('s, 'h) pb_dec"
  assume d: "in_ok (pd_in d)"
  have "in_ok (pd_in (d\<lparr>pd_in := sub\<rparr>))" using assms(1) by simp
  then obtain r d' where "f (d\<lparr>pd_in := sub\<rparr>) = Some (r, d')"
    "\<And>x. x \<notin> R \<Longrightarrow> pd_mem d' x = pd_mem (d\<lparr>pd_in := sub\<rparr>) x" "pd_heap d' = pd_heap (d\<lparr>pd_in := sub\<rparr>)" "in_ok (pd_in d')"
    using runsE [OF assms(2)] by metis
  then show "\<exists>r d'. on_substream sub f d = Some (r, d') \<and> (\<forall>x. x \<notin> R \<longrightarrow> pd_mem d' x = pd_mem d x) \<and>
      pd_heap d' = pd_heap d \<and> in_ok (pd_in d') \<and> is_left (pd_in d') \<le> is_left (pd_in d) \<and>
      (\<forall>x. r = Some x \<longrightarrow> (case x of (_, sub) \<Rightarrow> in_ok sub))"
    using d by (auto simp: on_substream_def)
qed

lemma runs_make_substream [run_rules]: "runs R in_ok (call_op (on_stream pb_make_string_substream))"
  by (rule runsI)
    (auto simp: call_op_def on_stream_def split_beta dest: make_substream_ok [OF surjective_pairing])

lemma runs_close_substream [run_rules]:
  "in_ok sub \<Longrightarrow> runs R any (call_op (on_stream (\<lambda>m. pb_close_string_substream m sub)))"
  by (rule runsI)
    (auto simp: call_op_def on_stream_def split_beta dest: close_substream_ok [OF surjective_pairing])

lemma runs_with_substream [run_rules]: "runs R any f \<Longrightarrow> runs R any (with_substream f)"
  unfolding with_substream_def
  by (rule runs_bind [OF runs_make_substream], rule runs_bind [OF runs_on_substream])
    (auto intro!: run_rules)

end
