(* ===== verification/Pb_Dec_Field.thy ===== *)
theory Pb_Dec_Field
  imports Pb_Dec_Safe
begin

text \<open>
  The field decoders of nanopb stay inside their field: rules of the calculus for the decoders of
  pb_decode.c from \<open>pb_dec_varint\<close> to \<open>decode_static_field\<close>, for fields that are stored in the
  message itself.
\<close>

section \<open>Steps\<close>

definition steps :: "nat set \<Rightarrow> ('s, 'h) pb_dec \<Rightarrow> ('s, 'h) pb_dec \<Rightarrow> bool" where
  "steps R d d' \<longleftrightarrow>
     (\<forall>x. x \<notin> R \<longrightarrow> pd_mem d' x = pd_mem d x) \<and> pd_heap d' = pd_heap d \<and> in_ok (pd_in d') \<and>
     is_left (pd_in d') \<le> is_left (pd_in d)"

lemma steps_ok: "steps R d d' \<Longrightarrow> in_ok (pd_in d')" "steps R d d' \<Longrightarrow> is_left (pd_in d') \<le> is_left (pd_in d)"
  by (simp_all add: steps_def)

lemma steps_trans: "steps R d d1 \<Longrightarrow> steps R d1 d2 \<Longrightarrow> steps R d d2"
  by (auto simp: steps_def intro: le_trans)

lemma runs_at_iff: "runs_at R Q f d \<longleftrightarrow> (\<exists>r d'. f d = Some (r, d') \<and> steps R d d' \<and> (\<forall>x. r = Some x \<longrightarrow> Q x))"
  by (auto simp: runs_at_def steps_def)

lemma runs_at_pre: "steps R d d1 \<Longrightarrow> runs_at R Q f d1 \<Longrightarrow> f0 d = f d1 \<Longrightarrow> runs_at R Q f0 d"
  unfolding runs_at_iff by (metis steps_trans)

lemma runsD: "runs R Q f \<Longrightarrow> in_ok (pd_in d) \<Longrightarrow> runs_at R Q f d"
  by (simp add: runs_def)

lemma runs_pre: "(\<And>d. in_ok (pd_in d) \<Longrightarrow> steps R d (u d)) \<Longrightarrow> runs R Q f \<Longrightarrow> runs R Q (\<lambda>d. f (u d))"
  unfolding runs_def by (blast intro: runs_at_pre steps_ok)

lemma steps_mem:
  "in_ok (pd_in d) \<Longrightarrow> (\<And>x. x \<notin> R \<Longrightarrow> m x = pd_mem d x) \<Longrightarrow> steps R d (d\<lparr>pd_mem := m\<rparr>)"
  by (simp add: steps_def)

section \<open>Consumption\<close>

lemma eats_stream: "greedy g \<Longrightarrow> eats (call_op (on_stream g))"
  unfolding greedy_def eats_def by (fastforce simp: call_op_def on_stream_def split: prod.splits)

lemma eats_bind:
  assumes "eats f" "runs UNIV any f" "\<And>x. runs UNIV any (g x)"
  shows "eats (call_bind f g)"
  unfolding eats_def
proof (intro allI impI)
  fix d x d'
  assume d: "in_ok (pd_in d)" "call_bind f g d = Some (Some x, d')"
  then obtain y d1 where f: "f d = Some (Some y, d1)" and g: "g y d1 = Some (Some x, d')"
    by (auto simp: call_bind_def split: option.splits)
  have "is_left (pd_in d1) < is_left (pd_in d)" using assms(1) d(1) f by (auto simp: eats_def)
  moreover have "in_ok (pd_in d1)" using runsE [OF assms(2) d(1)] f by (metis option.inject prod.inject)
  then have "is_left (pd_in d') \<le> is_left (pd_in d1)" using runsE [OF assms(3)] g by (metis option.inject prod.inject)
  ultimately show "is_left (pd_in d') < is_left (pd_in d)" by simp
qed

lemma greedy_read: "0 < n \<Longrightarrow> greedy (\<lambda>m. pb_read m n)"
  unfolding greedy_def
proof (intro allI impI, goal_cases)
  case (1 m s x s')
  obtain q s1 where q: "is_callback m n s = (q, s1)" by (metis surj_pair)
  then have "is_left s1 = is_left s" using callback_ok 1(2) by blast
  then show ?case using 1 q by (auto simp: pb_read_def is_error_def split: if_splits option.splits)
qed

lemma greedy_bind:
  assumes "greedy f" "tame f" "\<And>x. tame (g x)"
  shows "greedy (\<lambda>m. op_bind (f m) (\<lambda>x. g x m))"
  unfolding greedy_def
proof (intro allI impI)
  fix m s x s'
  assume s: "in_ok s" "op_bind (f m) (\<lambda>x. g x m) s = (Some x, s')"
  then obtain y s1 where f: "f m s = (Some y, s1)" and g: "g y m s1 = (Some x, s')"
    by (auto simp: op_bind_def split: prod.splits option.splits)
  have "is_left s1 < is_left s" using assms(1) s(1) f by (auto simp: greedy_def)
  moreover have "is_left s' \<le> is_left s1" using tameD [OF assms(3) g] tameD [OF assms(2) f s(1)] by blast
  ultimately show "is_left s' < is_left s" by simp
qed

lemma greedy_varint: "greedy pb_decode_varint"
  unfolding greedy_def
proof (intro allI impI, goal_cases)
  case (1 m s x s')
  have l: "varint_loop m 0 0 s = (Some x, s')" using 1(2) by (simp add: pb_decode_varint_def)
  obtain q s1 where q: "pb_readbyte m s = (q, s1)" by (metis surj_pair)
  then obtain b where b: "q = Some b" using l by (subst (asm) varint_loop.simps) (auto split: option.splits)
  have s1: "in_ok s1" "is_left s1 < is_left s" using readbyte_ok [OF q 1(1)] readbyte_left [of m s] q b by auto
  show ?case
    using l q b s1 varint_loop_ok [of m _ _ s1 "Some x" s']
    by (subst (asm) varint_loop.simps) (fastforce simp: Let_def split: if_splits)
qed

lemma greedy_svarint: "greedy pb_decode_svarint"
  unfolding pb_decode_svarint_def by (intro greedy_bind greedy_varint tame_varint run_rules)

lemma greedy_fixed32: "greedy pb_decode_fixed32"
  unfolding pb_decode_fixed32_def by (intro greedy_bind greedy_read run_rules) simp

lemma greedy_fixed64: "greedy pb_decode_fixed64"
  unfolding pb_decode_fixed64_def by (intro greedy_bind greedy_read run_rules) simp

section \<open>Field decoders\<close>

lemma store_le_out: "x \<notin> {a..<a + n} \<Longrightarrow> store_le m a n v x = m x"
  unfolding store_le_def by (intro wr_out) auto

lemma mem_zero_out: "x \<notin> {a..<a + n} \<Longrightarrow> mem_zero m a n x = m x"
  unfolding mem_zero_def by (intro wr_out) auto

lemma runs_store [run_rules]:
  "{a..<a + n} \<subseteq> R \<Longrightarrow> runs R any (call_op (update_mem (\<lambda>m. store_le m a n v)))"
  by (intro runs_update store_le_out) auto

lemma runs_mem_zero [run_rules]:
  "{a..<a + n} \<subseteq> R \<Longrightarrow> runs R any (call_op (update_mem (\<lambda>m. mem_zero m a n)))"
  by (intro runs_update mem_zero_out) auto

lemma runs_store_checked [run_rules]:
  "{dest..<dest + n} \<subseteq> R \<Longrightarrow> runs R any (call_op (store_checked n dest clamp v))"
  unfolding store_checked_def call_op_if call_op_bind by (intro run_rules runs_store TrueI)

lemma runs_int:
  assumes "{dest..<dest + pf_data_size f} \<subseteq> R"
  shows "runs R any (call_op (pb_dec_varint f dest))" "runs R any (call_op (pb_dec_uvarint f dest))"
    "runs R any (call_op (pb_dec_svarint f dest))"
  unfolding pb_dec_varint_def pb_dec_uvarint_def pb_dec_svarint_def call_op_bind
  by (intro run_rules assms)+

lemma runs_fixed:
  "{dest..<dest + 4} \<subseteq> R \<Longrightarrow> runs R any (call_op (pb_dec_fixed32 dest))"
  "{dest..<dest + 8} \<subseteq> R \<Longrightarrow> runs R any (call_op (pb_dec_fixed64 dest))"
  unfolding pb_dec_fixed32_def pb_dec_fixed64_def call_op_bind by (intro run_rules; assumption)+

lemma eats_number:
  "eats (call_op (pb_dec_varint f dest))" "eats (call_op (pb_dec_uvarint f dest))" "eats (call_op (pb_dec_svarint f dest))"
  "eats (call_op (pb_dec_fixed32 dest))" "eats (call_op (pb_dec_fixed64 dest))"
  unfolding pb_dec_varint_def pb_dec_uvarint_def pb_dec_svarint_def pb_dec_fixed32_def pb_dec_fixed64_def call_op_bind
  by (intro eats_bind eats_stream greedy_varint greedy_svarint greedy_fixed32 greedy_fixed64 run_rules runs_store subset_UNIV)+

lemma op_bind_if: "op_bind (if c then f else g) k = (if c then op_bind f k else op_bind g k)"
  by simp

lemma op_bind_return: "op_bind (op_return x) k = k x"
  by (simp add: op_bind_def op_return_def fun_eq_iff)

lemma op_bind_error: "op_bind (pd_error msg) k = pd_error msg"
  by (auto simp: op_bind_def pd_error_def on_stream_def is_error_def fun_eq_iff)

lemma runs_bytes:
  assumes "pf_atype f = PB_ATYPE_STATIC" "{dest..<dest + pf_data_size f} \<subseteq> R"
  shows "runs R any (call_op (pb_dec_bytes env f dest))"
proof -
  have sz: "sz (unat v + 4) = unat v + 4" for v :: u32
    using unsigned_less [of v, where 'a = nat] by (simp add: sz_id)
  have w: "{dest..<dest + 4} \<subseteq> R" "{dest + 4..<dest + 4 + unat v} \<subseteq> R"
    if "\<not> pf_data_size f < unat v + 4" for v :: u32
    using that assms(2) by force+
  have s: "runs R any (call_op (update_mem (\<lambda>m. store_size m dest (unat v))))"
    "runs R any (call_op (read_to (dest + 4) (unat v)))"
    if "\<not> pf_data_size f < unat v + 4" for v :: u32
    using w [OF that] unfolding store_size_def by - (intro run_rules; assumption)+
  show ?thesis
    unfolding pb_dec_bytes_def call_op_bind sz Let_def
    by (simp add: assms(1) op_bind_if op_bind_return call_op_if call_op_bind op_bind_error cong: if_cong)
      (intro run_rules s; simp)
qed

text \<open>The terminator stands in the field too, because the addition that could wrap is checked.\<close>

lemma string_size:
  fixes v :: u32
  assumes "\<not> unat (v + 1) < unat v"
  shows "unat (v + 1) = unat v + 1"
proof -
  have "unat (v + 1) = (unat v + 1) mod 2 ^ 32" by (simp add: unat_word_ariths)
  moreover have "unat v < 2 ^ 32" using unsigned_less [of v, where 'a = nat] by simp
  ultimately show ?thesis using assms by (cases "unat v + 1 = 2 ^ 32") auto
qed

lemma runs_terminated:
  assumes "{dest..<dest + (n + 1)} \<subseteq> R"
  shows "runs R any (call_op (\<lambda>d. let (status, d) = read_to dest n d in (status, d\<lparr>pd_mem := (pd_mem d)(dest + n := 0)\<rparr>))
    :: ('s, 'h, unit) dec)"
proof (rule runsI)
  fix d :: "('s, 'h) pb_dec"
  assume d: "in_ok (pd_in d)"
  have r: "{dest..<dest + n} \<subseteq> R" "dest + n \<in> R" using assms by auto
  obtain q d1 where q: "read_to dest n d = (q, d1)" by (metis surj_pair)
  then have "steps R d d1"
    using runsD [OF runs_read_to [OF r(1)] d] by (auto simp: runs_at_iff call_op_def)
  then show "\<exists>r d'. call_op (\<lambda>d. let (status, d) = read_to dest n d in (status, d\<lparr>pd_mem := (pd_mem d)(dest + n := 0)\<rparr>)) d =
        Some (r, d') \<and> (\<forall>x. x \<notin> R \<longrightarrow> pd_mem d' x = pd_mem d x) \<and>
      pd_heap d' = pd_heap d \<and> in_ok (pd_in d') \<and> is_left (pd_in d') \<le> is_left (pd_in d) \<and> (\<forall>x. r = Some x \<longrightarrow> True)"
    using q r(2) by (auto simp: call_op_def steps_def)
qed

lemma runs_string:
  assumes "pf_atype f = PB_ATYPE_STATIC" "{dest..<dest + pf_data_size f} \<subseteq> R"
  shows "runs R any (call_op (pb_dec_string env f dest))"
proof -
  have "{dest..<dest + (unat v + 1)} \<subseteq> R" if "\<not> unat (v + 1) < unat v" "\<not> pf_data_size f < unat (v + 1)" for v :: u32
    using that(2) assms(2) unfolding string_size [OF that(1)] by force
  note r = runs_terminated [OF this]
  show ?thesis
    unfolding pb_dec_string_def call_op_bind Let_def
    by (simp add: assms(1) op_bind_if op_bind_return call_op_if call_op_bind op_bind_error cong: if_cong)
      (intro run_rules r [unfolded Let_def]; assumption)
qed

lemma runs_fixed_length:
  "{dest..<dest + pf_data_size f} \<subseteq> R \<Longrightarrow> runs R any (call_op (pb_dec_fixed_length_bytes f dest))"
  unfolding pb_dec_fixed_length_bytes_def call_op_bind call_op_if by (intro run_rules)

end
