(* ===== verification/Pb_Dec_Static.thy ===== *)
theory Pb_Dec_Static
  imports Pb_Dec_Field
begin

text \<open>
  Messages without pointers, callbacks and extensions: the static fields of nanopb. What their
  descriptors have to say, and that decoding one field of such a message stays inside the message.
\<close>

section \<open>Static messages\<close>

definition within :: "nat \<Rightarrow> nat \<Rightarrow> nat \<Rightarrow> nat \<Rightarrow> bool" where
  "within a s d n \<longleftrightarrow> a \<le> d \<and> d + n \<le> a + s"

text \<open>
  A field at \<open>d\<close> with its count or flag at \<open>z\<close>, in a struct of \<open>s\<close> bytes at \<open>a\<close>. A submessage has a
  smaller rank than the message it stands in, so that descriptors are not recursive.
\<close>

definition field_ok :: "(nat \<Rightarrow> nat) \<Rightarrow> (nat \<Rightarrow> nat) \<Rightarrow> nat \<Rightarrow> nat \<Rightarrow> nat \<Rightarrow> pb_field \<times> nat \<times> nat \<Rightarrow> bool" where
  "field_ok msize rank r a s =
     (\<lambda>(f, d, z).
        pf_atype f = PB_ATYPE_STATIC \<and> pf_ltype f \<noteq> PB_LTYPE_EXTENSION \<and> pf_ltype f \<le> PB_LTYPE_FIXED_LENGTH_BYTES \<and>
        (pf_ltype f = PB_LTYPE_FIXED32 \<longrightarrow> pf_data_size f = 4) \<and>
        (pf_ltype f = PB_LTYPE_FIXED64 \<longrightarrow> pf_data_size f = 8) \<and>
        (case pf_ptr f of
           Ptr_fields j \<Rightarrow> pf_ltype f = PB_LTYPE_SUBMESSAGE \<and> msize j \<le> pf_data_size f \<and> rank j < r
         | _ \<Rightarrow> pf_ltype f \<noteq> PB_LTYPE_SUBMESSAGE) \<and>
        within a s d (prev_size f) \<and>
        (pf_htype f = PB_HTYPE_OPTIONAL \<and> z \<noteq> d \<longrightarrow> within a s z 1) \<and>
        (pf_htype f = PB_HTYPE_REPEATED \<or> pf_htype f = PB_HTYPE_ONEOF \<longrightarrow> within a s z 4))"

definition static_messages :: "(nat \<Rightarrow> pb_field list) \<Rightarrow> (nat \<Rightarrow> nat) \<Rightarrow> (nat \<Rightarrow> nat) \<Rightarrow> bool" where
  "static_messages descs msize rank \<longleftrightarrow>
     (\<forall>i. wf_fields (descs i) \<and> (\<forall>a. list_all (field_ok msize rank (rank i) a (msize i)) (layout (descs i) a)))"

lemma within_subset: "within a s d n \<Longrightarrow> {a..<a + s} \<subseteq> R \<Longrightarrow> {d..<d + n} \<subseteq> R"
  by (force simp: within_def)

lemma field_ok_static:
  assumes "field_ok msize rank r a s (f, d, z)" "{a..<a + s} \<subseteq> R"
  shows "pf_atype f = PB_ATYPE_STATIC" "pf_ltype f \<noteq> PB_LTYPE_EXTENSION" "pf_ltype f \<le> PB_LTYPE_FIXED_LENGTH_BYTES"
    "{d..<d + prev_size f} \<subseteq> R" "pf_htype f \<noteq> PB_HTYPE_REPEATED \<Longrightarrow> {d..<d + pf_data_size f} \<subseteq> R"
    "pf_htype f = PB_HTYPE_REPEATED \<Longrightarrow> {d..<d + pf_data_size f * pf_array_size f} \<subseteq> R"
    "pf_htype f = PB_HTYPE_OPTIONAL \<Longrightarrow> z \<noteq> d \<Longrightarrow> z \<in> R"
    "pf_htype f = PB_HTYPE_REPEATED \<or> pf_htype f = PB_HTYPE_ONEOF \<Longrightarrow> {z..<z + 4} \<subseteq> R"
proof -
  note sub = within_subset [OF _ assms(2)]
  show static: "pf_atype f = PB_ATYPE_STATIC" "pf_ltype f \<noteq> PB_LTYPE_EXTENSION" "pf_ltype f \<le> PB_LTYPE_FIXED_LENGTH_BYTES"
    using assms(1) by (simp_all add: field_ok_def)
  have "within a s d (prev_size f)" using assms(1) by (simp add: field_ok_def)
  then show d: "{d..<d + prev_size f} \<subseteq> R" by (rule sub)
  show "pf_htype f \<noteq> PB_HTYPE_REPEATED \<Longrightarrow> {d..<d + pf_data_size f} \<subseteq> R"
    "pf_htype f = PB_HTYPE_REPEATED \<Longrightarrow> {d..<d + pf_data_size f * pf_array_size f} \<subseteq> R"
    using d static(1) by (simp_all add: prev_size_def)
  have z: "pf_htype f = PB_HTYPE_OPTIONAL \<Longrightarrow> z \<noteq> d \<Longrightarrow> within a s z 1"
    "pf_htype f = PB_HTYPE_REPEATED \<or> pf_htype f = PB_HTYPE_ONEOF \<Longrightarrow> within a s z 4"
    using assms(1) by (auto simp: field_ok_def)
  show "pf_htype f = PB_HTYPE_OPTIONAL \<Longrightarrow> z \<noteq> d \<Longrightarrow> z \<in> R" using sub [OF z(1)] by auto
  show "pf_htype f = PB_HTYPE_REPEATED \<or> pf_htype f = PB_HTYPE_ONEOF \<Longrightarrow> {z..<z + 4} \<subseteq> R" by (rule sub [OF z(2)])
qed

lemma field_ok_submessage:
  assumes "field_ok msize rank r a s (f, d, z)" "pf_ltype f = PB_LTYPE_SUBMESSAGE"
  obtains j where "pf_ptr f = Ptr_fields j" "msize j \<le> pf_data_size f" "rank j < r"
  using assms by (auto simp: field_ok_def split: pb_ptr.splits)

lemma field_ok_other: "field_ok msize rank r a s (f, d, z) \<Longrightarrow> pf_ltype f \<noteq> PB_LTYPE_SUBMESSAGE \<Longrightarrow> pf_ptr f \<noteq> Ptr_fields j"
  by (auto simp: field_ok_def)

text \<open>The iterator stands in the message; of an empty one it stays at the terminator.\<close>

definition it_in :: "pb_field list \<Rightarrow> nat \<Rightarrow> pb_field_iter \<Rightarrow> bool" where
  "it_in fs a it \<longleftrightarrow> (\<exists>i. it_at fs a i it) \<or> (length fs = 1 \<and> it = snd (pb_field_iter_begin fs a))"

abbreviation it_entry :: "pb_field_iter \<Rightarrow> pb_field \<times> nat \<times> nat" where
  "it_entry it \<equiv> (it_field it, it_pData it, it_pSize it)"

lemma it_in_begin:
  assumes "wf_fields fs"
  shows "it_in fs a (snd (pb_field_iter_begin fs a))"
proof (cases "1 < length fs")
  case True
  obtain b it where "pb_field_iter_begin fs a = (b, it)" by (metis surj_pair)
  with iter_begin_at(2) [OF assms this True] show ?thesis by (auto simp: it_in_def)
next
  case False
  then have "length fs = 1" using assms by (cases fs) (simp_all add: wf_fields_def)
  then show ?thesis by (simp add: it_in_def)
qed

lemma wf_one: "wf_fields fs \<Longrightarrow> length fs = 1 \<Longrightarrow> fs = [PB_LAST_FIELD]"
  by (cases fs) (auto simp: wf_fields_def)

lemma it_in_next: "wf_fields fs \<Longrightarrow> it_in fs a it \<Longrightarrow> it_in fs a (snd (pb_field_iter_next it))"
  unfolding it_in_def
proof (elim disjE exE conjE, goal_cases)
  case (1 i)
  then show ?case using iter_next_at [OF 1, of _ "snd (pb_field_iter_next it)"] by (metis prod.collapse)
next
  case 2
  then show ?case using wf_one [OF 2(1,2)]
    by (simp add: pb_field_iter_next_def pb_field_iter_begin_def it_field_def field_at_def PB_LAST_FIELD_def Let_def)
qed

lemma it_in_find: "wf_fields fs \<Longrightarrow> it_in fs a it \<Longrightarrow> it_in fs a (snd (pb_field_iter_find it tag))"
proof -
  assume wf: "wf_fields fs"
  have "it_in fs a it \<Longrightarrow> it_in fs a (snd (iter_find_loop n start tag it))" for n start
    by (induction n start tag it rule: iter_find_loop.induct) (auto simp: Let_def intro: it_in_next [OF wf])
  then show "it_in fs a it \<Longrightarrow> ?thesis" by (simp only: pb_field_iter_find_def)
qed

text \<open>The terminator is an integer of no bytes.\<close>

lemma it_in_ok:
  assumes "static_messages descs msize rank" "it_in (descs i) a it"
  shows "field_ok msize rank (rank i) a (msize i) (it_entry it)"
  using assms(2) unfolding it_in_def
proof (elim disjE exE conjE, goal_cases)
  case (1 k)
  then have "it_entry it = layout (descs i) a ! k" "k < length (layout (descs i) a)" by (simp_all add: it_at_def)
  then have "it_entry it \<in> set (layout (descs i) a)" by (metis nth_mem)
  then show ?case using assms(1) by (auto simp: static_messages_def list_all_iff)
next
  case 2
  then show ?case using assms(1) wf_one [of "descs i"]
    by (simp add: static_messages_def it_field_def field_at_def pb_field_iter_begin_def Let_def field_ok_def PB_LAST_FIELD_def
      PB_ATYPE_def PB_LTYPE_def PB_HTYPE_def within_def prev_size_def)
qed

lemma it_in_not_extension:
  assumes "static_messages descs msize rank" "it_in (descs i) a it"
  shows "find_extension_field it = (False, snd (find_extension_field it))" "it_in (descs i) a (snd (find_extension_field it))"
proof -
  have wf: "wf_fields (descs i)" using assms(1) by (simp add: static_messages_def)
  have "it_in (descs i) a it \<Longrightarrow> \<not> fst (find_extension_loop n start it) \<and> it_in (descs i) a (snd (find_extension_loop n start it))"
    for n start
  proof (induction n start it rule: find_extension_loop.induct)
    case (2 k start it)
    have "pf_ltype (it_field it) \<noteq> PB_LTYPE_EXTENSION"
      using it_in_ok [OF assms(1) 2(2)] by (simp add: field_ok_def)
    then show ?case using 2 it_in_next [OF wf 2(2)] by (simp add: Let_def)
  qed simp
  then show "find_extension_field it = (False, snd (find_extension_field it))" "it_in (descs i) a (snd (find_extension_field it))"
    using assms(2) by (simp_all only: find_extension_field_def prod_eq_iff fst_conv snd_conv simp_thms)
qed

section \<open>Values\<close>

lemma runs_case_ptr [run_rules]:
  "(ptr = Ptr_null \<Longrightarrow> runs R Q f) \<Longrightarrow> (\<And>i. ptr = Ptr_fields i \<Longrightarrow> runs R Q (g i)) \<Longrightarrow>
   (\<And>bs. ptr = Ptr_default bs \<Longrightarrow> runs R Q (h bs)) \<Longrightarrow>
    runs R Q (case ptr of Ptr_null \<Rightarrow> f | Ptr_fields i \<Rightarrow> g i | Ptr_default bs \<Rightarrow> h bs)"
  by (cases ptr) auto

lemma ltype_cases: "t \<le> 9 \<Longrightarrow> t \<noteq> 8 \<Longrightarrow> t = 0 \<or> t = 1 \<or> t = 2 \<or> t = 3 \<or> t = 4 \<or> t = 5 \<or> t = 6 \<or> t = 7 \<or> t = 9" for t :: u8
  by (auto simp: word_le_nat_alt word_unat_eq_iff)

lemma runs_decoders:
  assumes f: "field_ok msize rank r a s (f, d, z)" and p: "{p..<p + pf_data_size f} \<subseteq> R"
    and sub: "\<And>j. rank j < r \<Longrightarrow> {p..<p + msize j} \<subseteq> R \<Longrightarrow> runs R any (decode j p)"
      "\<And>j. rank j < r \<Longrightarrow> {p..<p + msize j} \<subseteq> R \<Longrightarrow> runs R any (noinit j p)"
  shows "runs R any (PB_DECODERS env decode noinit f p)"
proof -
  note st = field_ok_static [OF f subset_UNIV]
  have fixed: "pf_ltype f = 3 \<Longrightarrow> {p..<p + 4} \<subseteq> R" "pf_ltype f = 4 \<Longrightarrow> {p..<p + 8} \<subseteq> R"
    using f p by (auto simp: field_ok_def)
  have sub: "runs R any (pb_dec_submessage decode noinit f p)" if "pf_ltype f = 7"
  proof -
    obtain j where j: "pf_ptr f = Ptr_fields j" "msize j \<le> pf_data_size f" "rank j < r"
      using field_ok_submessage [OF f] \<open>pf_ltype f = 7\<close> by auto
    have "{p..<p + msize j} \<subseteq> R" using p j(2) by force
    then show ?thesis
      unfolding pb_dec_submessage_def j(1) pb_ptr.case by (intro run_rules sub j(3))
  qed
  show ?thesis
    using ltype_cases [OF st(3,2)]
    by (elim disjE) (simp_all add: PB_DECODERS_def Let_def runs_int p runs_fixed fixed runs_bytes runs_string st(1) runs_fixed_length sub)
qed

lemma eats_decoders: "pf_ltype f \<le> PB_LTYPE_LAST_PACKABLE \<Longrightarrow> eats (PB_DECODERS env decode noinit f p)"
proof -
  assume "pf_ltype f \<le> PB_LTYPE_LAST_PACKABLE"
  then have "pf_ltype f = 0 \<or> pf_ltype f = 1 \<or> pf_ltype f = 2 \<or> pf_ltype f = 3 \<or> pf_ltype f = 4"
    by (auto simp: word_le_nat_alt word_unat_eq_iff)
  then show ?thesis by (elim disjE) (simp_all add: PB_DECODERS_def Let_def eats_number)
qed

section \<open>Arrays\<close>

definition loc_in :: "nat set \<Rightarrow> size_loc \<Rightarrow> bool" where
  "loc_in R loc = (case loc of Size_at z \<Rightarrow> {z..<z + 4} \<subseteq> R | Size_fixed \<Rightarrow> True)"

lemma steps_count: "loc_in R loc \<Longrightarrow> in_ok (pd_in d) \<Longrightarrow> steps R d (put_count loc n d)"
  by (auto simp: steps_def loc_in_def put_count_def store_size_def intro!: store_le_out split: size_loc.splits)

lemma pd_in_put_count [simp]: "pd_in (put_count loc n d) = pd_in d"
  by (simp add: put_count_def split: size_loc.split)

lemma item_subset:
  fixes d k n i :: nat
  assumes "{d..<d + k * n} \<subseteq> R" "i < n"
  shows "{d + k * i..<d + k * i + k} \<subseteq> R"
proof -
  have "k * i + k \<le> k * n" using mult_le_mono2 [of "Suc i" n k] assms(2) by simp
  then show ?thesis using assms(1) by force
qed

lemma runs_packed_loop:
  assumes func: "\<And>p. {p..<p + pf_data_size f} \<subseteq> R \<Longrightarrow> runs R any (func p)" and eats: "\<And>p. eats (func p)"
    and array: "{pData..<pData + pf_data_size f * pf_array_size f} \<subseteq> R" and loc: "loc_in R loc"
  shows "in_ok (pd_in d) \<Longrightarrow> is_left (pd_in d) < k \<Longrightarrow> runs_at R any (packed_loop func f loc pData k) d"
proof (induction k arbitrary: d)
  case (Suc k)
  let ?p = "pData + pf_data_size f * get_count loc d"
  have stay: "steps R d d" using Suc.prems(1) by (simp add: steps_def)
  show ?case
  proof (cases "is_left (pd_in d) > 0 \<and> get_count loc d < pf_array_size f")
    case True
    then have "{?p..<?p + pf_data_size f} \<subseteq> R" using item_subset [OF array] by blast
    from runsD [OF func [OF this] Suc.prems(1)]
    obtain r d1 where r: "func ?p d = Some (r, d1)" and d1: "steps R d d1" by (auto simp: runs_at_iff)
    show ?thesis
    proof (cases r)
      case None
      then show ?thesis using True r d1 by (simp add: runs_at_iff)
    next
      case (Some x)
      let ?d = "put_count loc (get_count loc d1 + 1) d1"
      have "is_left (pd_in d1) < is_left (pd_in d)" using eats Suc.prems(1) r Some by (auto simp: eats_def)
      then have "runs_at R any (packed_loop func f loc pData k) ?d"
        using Suc.prems steps_ok [OF d1] by (intro Suc.IH) simp_all
      moreover have "steps R d ?d" using d1 steps_count [OF loc steps_ok(1) [OF d1]] by (rule steps_trans)
      ultimately show ?thesis using True r Some by (elim runs_at_pre [rotated]) simp_all
    qed
  next
    case False
    then have "packed_loop func f loc pData (Suc k) d = Some (Some (), d)" by (simp only: packed_loop.simps if_False)
    then show ?thesis using stay by (simp add: runs_at_iff)
  qed
qed simp

lemma runs_packed:
  fixes func :: "nat \<Rightarrow> ('s, 'h, unit) dec"
  assumes func: "\<And>p. {p..<p + pf_data_size f} \<subseteq> R \<Longrightarrow> runs R any (func p)" and eats: "\<And>p. eats (func p)"
    and array: "{pData..<pData + pf_data_size f * pf_array_size f} \<subseteq> R" and loc: "loc_in R loc"
  shows "runs R any (decode_packed func f loc pData)"
proof -
  have loop: "runs R any (\<lambda>d. packed_loop func f loc pData (is_left (pd_in d) + 1) d)"
    unfolding runs_def
  proof (intro allI impI)
    fix d :: "('s, 'h) pb_dec"
    assume "in_ok (pd_in d)"
    then have "runs_at R any (packed_loop func f loc pData (is_left (pd_in d) + 1)) d"
      by (intro runs_packed_loop func eats array loc) simp_all
    then show "runs_at R any (\<lambda>d. packed_loop func f loc pData (is_left (pd_in d) + 1) d) d"
      by (simp only: runs_at_def)
  qed
  have eq: "on_substream sub (packed_loop func f loc pData (is_left sub + 1)) =
      on_substream sub (\<lambda>d. packed_loop func f loc pData (is_left (pd_in d) + 1) d)" for sub
    by (rule ext) (simp add: on_substream_def del: packed_loop.simps)
  have sub: "runs R (\<lambda>(_, sub). in_ok sub) (on_substream sub (packed_loop func f loc pData (is_left sub + 1)))"
    if "in_ok sub" for sub
    by (subst eq) (rule runs_on_substream [OF that loop])
  show ?thesis
    unfolding decode_packed_def
    by (rule runs_bind [OF runs_make_substream], rule runs_bind [OF sub], assumption) (auto intro!: run_rules)
qed

section \<open>Defaults\<close>

text \<open>A change of the memory that comes back and stays in \<open>R\<close>.\<close>

definition keeps :: "nat set \<Rightarrow> (memory \<Rightarrow> memory option) \<Rightarrow> bool" where
  "keeps R f \<longleftrightarrow> (\<forall>m. \<exists>m'. f m = Some m' \<and> (\<forall>x. x \<notin> R \<longrightarrow> m' x = m x))"

lemma keepsI: "(\<And>m. \<exists>m'. f m = Some m' \<and> (\<forall>x. x \<notin> R \<longrightarrow> m' x = m x)) \<Longrightarrow> keeps R f"
  by (simp add: keeps_def)

lemma keeps_after: "keeps R f \<Longrightarrow> (\<And>x. x \<notin> R \<Longrightarrow> m1 x = m x) \<Longrightarrow> \<exists>m'. f m1 = Some m' \<and> (\<forall>x. x \<notin> R \<longrightarrow> m' x = m x)"
  unfolding keeps_def by metis

lemma keeps_set_to_default:
  assumes f: "field_ok msize rank r a s (f, d, z)" "{a..<a + s} \<subseteq> R"
    and sub: "\<And>j. rank j < r \<Longrightarrow> {d..<d + msize j} \<subseteq> R \<Longrightarrow> keeps R (defaults j d)"
  shows "keeps R (set_to_default defaults f d z)"
proof (rule keepsI)
  fix m
  note st = field_ok_static [OF f]
  define m1 where "m1 = (if pf_htype f = PB_HTYPE_OPTIONAL \<and> z \<noteq> d then m(z := 0)
    else if pf_htype f = PB_HTYPE_REPEATED \<or> pf_htype f = PB_HTYPE_ONEOF then store_size m z 0 else m)"
  have m1: "m1 x = m x" if "x \<notin> R" for x
    using st(7,8) that by (auto simp: m1_def store_size_def intro!: store_le_out)
  show "\<exists>m'. set_to_default defaults f d z m = Some m' \<and> (\<forall>x. x \<notin> R \<longrightarrow> m' x = m x)"
  proof (cases "pf_htype f = PB_HTYPE_REPEATED \<or> pf_htype f = PB_HTYPE_ONEOF")
    case True
    then show ?thesis using m1 st(1) by (auto simp: set_to_default_def Let_def m1_def)
  next
    case False
    then have d: "{d..<d + pf_data_size f} \<subseteq> R" using st(5) by blast
    show ?thesis
    proof (cases "pf_ltype f = PB_LTYPE_SUBMESSAGE")
      case sm: True
      then obtain j where j: "pf_ptr f = Ptr_fields j" "msize j \<le> pf_data_size f" "rank j < r"
        using field_ok_submessage [OF f(1)] by blast
      have "{d..<d + msize j} \<subseteq> R" using d j(2) by force
      then have "keeps R (defaults j d)" by (intro sub j(3))
      moreover have "set_to_default defaults f d z m = defaults j d m1"
        using False sm st(1) j(1) by (simp add: set_to_default_def Let_def m1_def)
      ultimately show ?thesis using keeps_after m1 by metis
    next
      case ns: False
      then have np: "pf_ptr f \<noteq> Ptr_fields j" for j using field_ok_other [OF f(1)] by blast
      have w: "wr m1 d bs x = m x" if "length bs \<le> pf_data_size f" "x \<notin> R" for bs x
      proof -
        have "x < d \<or> d + length bs \<le> x" using subsetD [OF d, of x] that by force
        then show ?thesis using m1 [OF that(2)] by (simp add: wr_out)
      qed
      have e: "set_to_default defaults f d z m = (case pf_ptr f of
          Ptr_null \<Rightarrow> Some (mem_zero m1 d (pf_data_size f))
        | Ptr_default bs \<Rightarrow> Some (wr m1 d (take (pf_data_size f) bs)) | Ptr_fields _ \<Rightarrow> None)"
        using False ns st(1) by (cases "pf_ptr f") (simp_all add: set_to_default_def Let_def m1_def)
      show ?thesis unfolding e using np w by (auto simp: mem_zero_def split: pb_ptr.split)
    qed
  qed
qed

lemma keeps_default_fields:
  assumes st: "static_messages descs msize rank"
    and reset: "\<And>it. it_in (descs i) a it \<Longrightarrow> keeps R (reset it)"
  shows "it_in (descs i) a it \<Longrightarrow> keeps R (default_fields reset it)"
proof (induction "length (it_start it) - it_pos it" arbitrary: it rule: less_induct)
  case less
  have wf: "wf_fields (descs i)" using st by (simp add: static_messages_def)
  obtain b it' where n: "pb_field_iter_next it = (b, it')" by (metis surj_pair)
  have it': "it_in (descs i) a it'" using it_in_next [OF wf less.prems] n by simp
  have IH: "keeps R (default_fields reset it')" if b
    using less.hyps [OF _ it'] iter_next_measure [of it it'] n that by simp
  show ?case
  proof (rule keepsI)
    fix m
    obtain m1 where m1: "reset it m = Some m1" "\<forall>x. x \<notin> R \<longrightarrow> m1 x = m x"
      using reset [OF less.prems] by (auto simp: keeps_def)
    show "\<exists>m'. default_fields reset it m = Some m' \<and> (\<forall>x. x \<notin> R \<longrightarrow> m' x = m x)"
    proof (cases b)
      case True
      then have "default_fields reset it m = default_fields reset it' m1"
        using n m1(1) by (subst default_fields.simps) simp
      then show ?thesis using keeps_after [OF IH [OF True]] m1(2) by metis
    next
      case False
      then have "default_fields reset it m = Some m1"
        using n m1(1) by (subst default_fields.simps) simp
      then show ?thesis using m1(2) by blast
    qed
  qed
qed

lemma keeps_field_default:
  assumes st: "static_messages descs msize rank"
  shows "rank i < n \<Longrightarrow> it_in (descs i) a it \<Longrightarrow> {a..<a + msize i} \<subseteq> R \<Longrightarrow> keeps R (pb_field_set_to_default descs n it)"
proof (induction n arbitrary: i a it)
  case (Suc n)
  have f: "field_ok msize rank (rank i) a (msize i) (it_entry it)" by (rule it_in_ok [OF st Suc.prems(2)])
  have wf: "wf_fields (descs j)" for j using st by (simp add: static_messages_def)
  let ?defaults = "\<lambda>i dest m. case pb_field_iter_begin (descs i) dest of
      (False, _) \<Rightarrow> Some m | (True, it) \<Rightarrow> default_fields (pb_field_set_to_default descs n) it m"
  have "keeps R (?defaults j d)" if j: "rank j < rank i" "{d..<d + msize j} \<subseteq> R" for j d
  proof -
    obtain b it where b: "pb_field_iter_begin (descs j) d = (b, it)" by (metis surj_pair)
    have it: "it_in (descs j) d it" using it_in_begin [OF wf] b by (metis snd_conv)
    have "keeps R (default_fields (pb_field_set_to_default descs n) it)"
      using j Suc.prems(1) by (intro keeps_default_fields [OF st Suc.IH it]) simp_all
    then show ?thesis using b by (cases b) (auto simp: keeps_def)
  qed
  then have "keeps R (set_to_default ?defaults (it_field it) (it_pData it) (it_pSize it))"
    by (intro keeps_set_to_default [OF f Suc.prems(3)]) blast
  moreover have "pb_field_set_to_default descs (Suc n) it =
      set_to_default ?defaults (it_field it) (it_pData it) (it_pSize it)"
    using field_ok_static(2) [OF f subset_UNIV] by (simp add: fun_eq_iff)
  ultimately show ?case by simp
qed simp

lemma keeps_defaults:
  assumes st: "static_messages descs msize rank" and "rank i < n" "{a..<a + msize i} \<subseteq> R"
  shows "keeps R (pb_message_set_to_defaults descs n i a)"
proof -
  have wf: "wf_fields (descs i)" using st by (simp add: static_messages_def)
  obtain b it where b: "pb_field_iter_begin (descs i) a = (b, it)" by (metis surj_pair)
  have it: "it_in (descs i) a it" using it_in_begin [OF wf] b by (metis snd_conv)
  have "keeps R (default_fields (pb_field_set_to_default descs n) it)"
    by (intro keeps_default_fields [OF st _ it] keeps_field_default [OF st]) (use assms in simp_all)
  then show ?thesis using b by (cases b) (simp_all add: pb_message_set_to_defaults_def keeps_def)
qed

lemma runs_defaults:
  assumes "static_messages (de_fields env) msize rank" "rank i < n" "{a..<a + msize i} \<subseteq> R"
  shows "runs R any (call_defaults env n i a)"
proof (rule runsI)
  fix d :: "('a, 'b) pb_dec"
  assume d: "in_ok (pd_in d)"
  obtain m where "pb_message_set_to_defaults (de_fields env) n i a (pd_mem d) = Some m" "\<forall>x. x \<notin> R \<longrightarrow> m x = pd_mem d x"
    using keeps_defaults [OF assms] by (auto simp: keeps_def)
  then show "\<exists>r d'. call_defaults env n i a d = Some (r, d') \<and> (\<forall>x. x \<notin> R \<longrightarrow> pd_mem d' x = pd_mem d x) \<and>
      pd_heap d' = pd_heap d \<and> in_ok (pd_in d') \<and> is_left (pd_in d') \<le> is_left (pd_in d) \<and> (\<forall>x. r = Some x \<longrightarrow> True)"
    using d by (simp add: call_defaults_def)
qed

end
