(* ===== verification/Pb_Enc_Total.thy ===== *)
theory Pb_Enc_Total
  imports Pb_Dec_Static Pb_Encode
begin

text \<open>
  The encoder comes back: for static messages, whatever the memory holds and whatever the output
  stream does. The depth has to exceed the rank of the message by two, as for the decoder.
\<close>

named_theorems return_rules \<open>calls that return\<close>

definition returns :: "('s, 'a) call \<Rightarrow> bool" where
  "returns f \<longleftrightarrow> (\<forall>s. f s \<noteq> None)"

lemma returns_op [return_rules]: "returns (call_op f)"
  by (simp add: returns_def call_op_def)

lemma returns_bind [return_rules]: "returns f \<Longrightarrow> (\<And>x. returns (g x)) \<Longrightarrow> returns (call_bind f g)"
  by (simp add: returns_def call_bind_def split: option.split)

lemma returns_if [return_rules]: "(c \<Longrightarrow> returns f) \<Longrightarrow> (\<not> c \<Longrightarrow> returns g) \<Longrightarrow> returns (if c then f else g)"
  by simp

lemma returns_items [return_rules]: "(\<And>p. returns (func p)) \<Longrightarrow> returns (encode_array_items func k n p)"
  by (induction n arbitrary: p) (auto intro: return_rules)

lemma returns_submessage [return_rules]: "returns (rec j p) \<Longrightarrow> returns (pb_encode_submessage rec j p)"
proof -
  assume "returns (rec j p)"
  then have r: "rec j p s \<noteq> None" for s by (simp add: returns_def)
  show ?thesis
    unfolding returns_def pb_encode_submessage_def call_bind_def call_op_def Let_def
    by (auto simp: r split: option.split prod.split)
qed

lemma returns_array [return_rules]:
  assumes "\<And>p. returns (func p)"
  shows "returns (encode_array m f p count func)"
proof -
  have items: "encode_array_items func k n q s \<noteq> None" for k n q s
    using returns_items [of func k n q, OF assms] by (simp add: returns_def)
  obtain r s where "encode_array_items func (pf_data_size f) count p PB_OSTREAM_SIZING = Some (r, s)"
    using items [of "pf_data_size f" count p PB_OSTREAM_SIZING] by auto
  then have "packed_size func f p count \<noteq> None"
    by (cases r) (simp_all add: packed_size_def)
  with items have "returns (\<lambda>s. case packed_size func f p count of None \<Rightarrow> None | Some None \<Rightarrow> Some (None, s)
      | Some (Some n) \<Rightarrow> call_bind (call_op (pb_encode_varint (word_of_nat n))) (\<lambda>_ s.
                if os_sink s = None then Some (pb_write [] n s)
                else encode_array_items func (pf_data_size f) count p s) s)"
    by (auto simp: returns_def call_bind_def call_op_def split: option.split prod.split)
  then show ?thesis
    unfolding encode_array_def by (auto intro!: return_rules assms)
qed

section \<open>Static messages\<close>

text \<open>A member of a union has its selector somewhere else.\<close>

definition oneofs_ok :: "(nat \<Rightarrow> pb_field list) \<Rightarrow> bool" where
  "oneofs_ok descs \<longleftrightarrow> (\<forall>i. list_all (\<lambda>f. pf_htype f = PB_HTYPE_ONEOF \<longrightarrow> pf_size_offset f \<noteq> 0) (descs i))"

lemma check_fields_returns:
  assumes st: "static_messages descs msize rank"
    and rec: "\<And>it. it_in (descs i) a it \<Longrightarrow> rec (it_field it) (it_pData it) \<noteq> None"
  shows "it_in (descs i) a it \<Longrightarrow> check_fields rec it \<noteq> None"
proof (induction "length (it_start it) - it_pos it" arbitrary: it rule: less_induct)
  case less
  have wf: "wf_fields (descs i)" using st by (simp add: static_messages_def)
  obtain b it' where n: "pb_field_iter_next it = (b, it')" by (metis surj_pair)
  have it': "it_in (descs i) a it'" using it_in_next [OF wf less.prems] n by simp
  have IH: "check_fields rec it' \<noteq> None" if b
    using less.hyps [OF _ it'] iter_next_measure [of it it'] n that by simp
  show ?case
    using n rec [OF less.prems] IH by (subst check_fields.simps) (auto split: option.split bool.split)
qed

lemma check_default_returns:
  assumes st: "static_messages descs msize rank"
  shows "rank i < n \<Longrightarrow> it_in (descs i) a it \<Longrightarrow>
    pb_check_proto3_default_value descs n m (it_field it) (it_pData it) \<noteq> None"
proof (induction n arbitrary: i a it)
  case (Suc n)
  note f = it_in_ok [OF st Suc.prems(2)]
  have wf: "wf_fields (descs j)" for j using st by (simp add: static_messages_def)
  show ?case
  proof (cases "pf_ltype (it_field it) = PB_LTYPE_SUBMESSAGE")
    case True
    then obtain j where j: "pf_ptr (it_field it) = Ptr_fields j" "rank j < rank i"
      using field_ok_submessage [OF f] by blast
    have sub: "check_fields (pb_check_proto3_default_value descs n m) it' \<noteq> None" if "it_in (descs j) d it'" for it' d
      using that j(2) Suc.prems(1) by (intro check_fields_returns [OF st] Suc.IH) simp_all
    obtain b it' where b: "pb_field_iter_begin (descs j) (it_pData it) = (b, it')" by (metis surj_pair)
    then have "it_in (descs j) (it_pData it) it'" using it_in_begin [OF wf, of j "it_pData it"] by simp
    from sub [OF this] show ?thesis using True j(1) b by (cases b) (auto simp: Let_def)
  next
    case False
    then show ?thesis by (auto simp: Let_def)
  qed
qed simp

lemma returns_encoders:
  assumes f: "field_ok msize rank r a s (f, d, z)" and rec: "\<And>j. rank j < r \<Longrightarrow> returns (rec j p)"
  shows "returns (PB_ENCODERS rec m f p)"
proof -
  note st = field_ok_static [OF f subset_UNIV]
  have sub: "returns (pb_enc_submessage rec f p)" if "pf_ltype f = PB_LTYPE_SUBMESSAGE"
  proof -
    from field_ok_submessage [OF f that] obtain j where "pf_ptr f = Ptr_fields j" "rank j < r" by metis
    then show ?thesis by (simp add: pb_enc_submessage_def returns_submessage rec)
  qed
  show ?thesis
    using ltype_cases [OF st(3,2)] by (elim disjE) (simp_all add: PB_ENCODERS_def Let_def returns_op sub)
qed

lemma returns_basic:
  fixes rec :: "nat \<Rightarrow> 's encoder"
  assumes f: "field_ok msize rank r a s (f, d, z)" and rec: "\<And>j p. rank j < r \<Longrightarrow> returns (rec j p)"
    and check: "check f d \<noteq> None" and oneof: "pf_htype f = PB_HTYPE_ONEOF \<Longrightarrow> pf_size_offset f \<noteq> 0"
  shows "returns (encode_basic_field check rec m f d)"
proof -
  have func: "returns (PB_ENCODERS rec m f p)" for p by (intro returns_encoders [OF f] rec)
  have op: "call_op g s \<noteq> None" for s and g :: "('s pb_ostream, unit) op" by (simp add: call_op_def)
  have one: "call_bind (call_op (pb_encode_tag_for_field f)) (\<lambda>_. PB_ENCODERS rec m f p) s \<noteq> None" for p s
    using returns_bind [OF returns_op [of "pb_encode_tag_for_field f"], of "\<lambda>_. PB_ENCODERS rec m f p", OF func] by (simp add: returns_def)
  have array: "encode_array m f p count (PB_ENCODERS rec m f) s \<noteq> None" for p count s
    using returns_array [of "PB_ENCODERS rec m f", OF func] by (simp add: returns_def)
  obtain y where "check f d = Some y" using check by blast
  then show ?thesis
    unfolding returns_def encode_basic_field_def Let_def
    using oneof by (auto simp: one op array simp del: not_None_eq split: option.split)
qed

lemma returns_fields:
  assumes st: "static_messages descs msize rank"
    and enc: "\<And>it. it_in (descs i) a it \<Longrightarrow> returns (enc (it_field it) (it_pData it))"
  shows "it_in (descs i) a it \<Longrightarrow> returns (encode_fields enc it)"
proof (induction "length (it_start it) - it_pos it" arbitrary: it rule: less_induct)
  case less
  have wf: "wf_fields (descs i)" using st by (simp add: static_messages_def)
  obtain b it' where n: "pb_field_iter_next it = (b, it')" by (metis surj_pair)
  have it': "it_in (descs i) a it'" using it_in_next [OF wf less.prems] n by simp
  have IH: "returns (encode_fields enc it')" if b
    using less.hyps [OF _ it'] iter_next_measure [of it it'] n that by simp
  show ?case
    using n IH by (subst encode_fields.simps) (cases b; auto intro!: return_rules enc less.prems)
qed

lemma it_in_field:
  assumes "wf_fields fs" "it_in fs a it"
  shows "it_field it \<in> set fs"
  using assms(2) unfolding it_in_def
proof (elim disjE exE conjE, goal_cases)
  case (1 i)
  then have "it_field it = butlast fs ! i" "i < length (butlast fs)" using it_field_at [OF assms(1)] by (auto simp: it_at_def)
  then show ?case by (metis in_set_butlastD nth_mem)
next
  case 2
  then show ?case using wf_one [OF assms(1)] by (simp add: it_field_def field_at_def pb_field_iter_begin_def Let_def)
qed

theorem returns_encode:
  assumes st: "static_messages (env_fields env) msize rank" and one: "oneofs_ok (env_fields env)"
  shows "rank i + 1 < n \<Longrightarrow> returns (pb_encode env n m i a)"
proof (induction n arbitrary: i a)
  case (Suc n)
  have wf: "wf_fields (env_fields env i)" using st by (simp add: static_messages_def)
  let ?check = "pb_check_proto3_default_value (env_fields env) n m"
  have enc: "returns (encode_field env ?check (pb_encode env n m) m (it_field it) (it_pData it))"
    and ne: "pf_ltype (it_field it) \<noteq> PB_LTYPE_EXTENSION" if it: "it_in (env_fields env i) a it" for it
  proof -
    note f = it_in_ok [OF st it]
    have "returns (encode_basic_field ?check (pb_encode env n m) m (it_field it) (it_pData it))"
    proof (rule returns_basic [OF f])
      show "returns (pb_encode env n m j p)" if "rank j < rank i" for j p
        using that Suc.prems by (intro Suc.IH) simp
      show "?check (it_field it) (it_pData it) \<noteq> None"
        using Suc.prems by (intro check_default_returns [OF st _ it]) simp
      show "pf_htype (it_field it) = PB_HTYPE_ONEOF \<Longrightarrow> pf_size_offset (it_field it) \<noteq> 0"
        using one it_in_field [OF wf it] by (auto simp: oneofs_ok_def list_all_iff)
    qed
    then show "returns (encode_field env ?check (pb_encode env n m) m (it_field it) (it_pData it))"
      using field_ok_static(1) [OF f subset_UNIV] by (simp add: encode_field_def)
    show "pf_ltype (it_field it) \<noteq> PB_LTYPE_EXTENSION" by (rule field_ok_static(2) [OF f subset_UNIV])
  qed
  obtain b it where b: "pb_field_iter_begin (env_fields env i) a = (b, it)" by (metis surj_pair)
  then have it: "it_in (env_fields env i) a it" using it_in_begin [OF wf, of a] by simp
  have "returns (encode_fields (\<lambda>f pData. if pf_ltype f = PB_LTYPE_EXTENSION
      then encode_extension_field env (encode_field env ?check (pb_encode env n m) m) m n pData
      else encode_field env ?check (pb_encode env n m) m f pData) it)"
    using enc ne by (intro returns_fields [OF st _ it]) simp
  then show ?case using b by (cases b) (simp_all add: returns_op Let_def)
qed simp

end
