(* ===== verification/Pb_Dec_Total.thy ===== *)
theory Pb_Dec_Total
  imports Pb_Dec_Static
begin

text \<open>
  Decoding a static message: it comes back, for every input, and changes nothing outside the message. The depth has
  to exceed the rank of the message by two, one for the decoder's own call and one for
  the release of a submessage within a field.
\<close>

section \<open>One field\<close>

lemma runs_static_field:
  assumes st: "static_messages (de_fields env) msize rank"
    and f: "field_ok msize rank r a s (f, d, z)" "{a..<a + s} \<subseteq> R" and n: "r \<le> n"
    and loc: "loc = Size_at z \<or> (loc = Size_fixed \<and> pf_htype f = PB_HTYPE_REPEATED)"
    and func: "\<And>p. {p..<p + pf_data_size f} \<subseteq> R \<Longrightarrow> runs R any (func p)"
    and eats: "\<And>p. pf_ltype f \<le> PB_LTYPE_LAST_PACKABLE \<Longrightarrow> eats (func p)"
  shows "runs R any (decode_static_field env n func wt f d loc)"
proof -
  note so = field_ok_static [OF f]
  have loc_in: "loc_in R loc" if "pf_htype f = PB_HTYPE_REPEATED \<or> pf_htype f = PB_HTYPE_ONEOF"
    using loc so(8) that by (auto simp: loc_in_def)
  consider (required) "pf_htype f = PB_HTYPE_REQUIRED" | (optional) "pf_htype f = PB_HTYPE_OPTIONAL"
    | (repeated) "pf_htype f = PB_HTYPE_REPEATED" | (oneof) "pf_htype f = PB_HTYPE_ONEOF"
    using htype_cases [of f] by blast
  then show ?thesis
  proof cases
    case required
    then have "decode_static_field env n func wt f d loc = func d" by (simp add: decode_static_field_def fun_eq_iff)
    then show ?thesis using func [OF so(5)] required by simp
  next
    case optional
    define u where "u = (\<lambda>s :: ('a, 'b) pb_dec. if z \<noteq> d then s\<lparr>pd_mem := (pd_mem s)(z := 1)\<rparr> else s)"
    have "loc = Size_at z" using loc optional by simp
    then have "decode_static_field env n func wt f d loc = (\<lambda>s. func d (u s))"
      unfolding u_def decode_static_field_def by (intro ext) (simp add: optional)
    moreover have "runs R any (\<lambda>s. func d (u s))"
      using so(7) optional by - (rule runs_pre [OF _ func [OF so(5)]], auto simp: u_def steps_def)
    ultimately show ?thesis by simp
  next
    case repeated
    show ?thesis
    proof (cases "is_packed wt f")
      case True
      then have "decode_static_field env n func wt f d loc = decode_packed func f loc d"
        using repeated by (simp add: decode_static_field_def fun_eq_iff)
      moreover have "pf_ltype f \<le> PB_LTYPE_LAST_PACKABLE" using True by (simp add: is_packed_def)
      ultimately show ?thesis using so(6) loc_in repeated by (simp add: runs_packed func eats)
    next
      case False
      show ?thesis
        unfolding runs_def
      proof (intro allI impI)
        fix s :: "('a, 'b) pb_dec"
        assume s: "in_ok (pd_in s)"
        let ?c = "get_count loc s" and ?s = "put_count loc (get_count loc s + 1) s"
        have step: "steps R s ?s" using loc_in repeated s by (intro steps_count) simp_all
        show "runs_at R any (decode_static_field env n func wt f d loc) s"
        proof (cases "?c < pf_array_size f")
          case True
          from step have "runs_at R any (func (d + pf_data_size f * ?c)) ?s"
            by (intro runsD func item_subset [OF so(6)] repeated True steps_ok(1))
          with step show ?thesis
            by (rule runs_at_pre) (use False True repeated in \<open>simp add: decode_static_field_def Let_def\<close>)
        next
          case c: False
          from step have "runs_at R any (call_op (pd_error ''array overflow'') :: ('a, 'b, unit) dec) ?s"
            by (intro runsD runs_error steps_ok(1))
          with step show ?thesis
            by (rule runs_at_pre) (use False c repeated in \<open>simp add: decode_static_field_def Let_def\<close>)
        qed
      qed
    qed
  next
    case oneof
    then have d: "{d..<d + pf_data_size f} \<subseteq> R" by (intro so(5)) simp
    have count: "steps R s (put_count loc (unat (pf_tag f)) s)" if "in_ok (pd_in s)" for s :: "('a, 'b) pb_dec"
      using loc_in oneof that by (intro steps_count) simp_all
    show ?thesis
    proof (cases "pf_ltype f = PB_LTYPE_SUBMESSAGE")
      case True
      then obtain j where j: "pf_ptr f = Ptr_fields j" "msize j \<le> pf_data_size f" "rank j < r"
        using field_ok_submessage [OF f(1)] by blast
      define u where "u = (\<lambda>s :: ('a, 'b) pb_dec. let s = put_count loc (unat (pf_tag f)) s
        in s\<lparr>pd_mem := mem_zero (pd_mem s) d (pf_data_size f)\<rparr>)"
      have "steps R s (u s)" if "in_ok (pd_in s)" for s
        unfolding u_def Let_def using d
        by (intro steps_trans [OF count [OF that]] steps_mem) (auto simp: that intro!: mem_zero_out)
      moreover have "{d..<d + msize j} \<subseteq> R" using d j(2) by force
      then have "runs R any (call_bind (call_defaults env n j d) (\<lambda>_. func d))"
        using j(3) n by (intro run_rules func d runs_defaults [OF st]) simp_all
      ultimately have "runs R any (\<lambda>s. call_bind (call_defaults env n j d) (\<lambda>_. func d) (u s))"
        by (rule runs_pre)
      moreover have "decode_static_field env n func wt f d loc = (\<lambda>s. call_bind (call_defaults env n j d) (\<lambda>_. func d) (u s))"
        using oneof True j(1) by (simp add: decode_static_field_def fun_eq_iff u_def Let_def)
      ultimately show ?thesis by simp
    next
      case False
      then have "decode_static_field env n func wt f d loc = (\<lambda>s. func d (put_count loc (unat (pf_tag f)) s))"
        using oneof by (simp add: decode_static_field_def fun_eq_iff)
      then show ?thesis using runs_pre [OF count func [OF d]] by simp
    qed
  qed
qed

section \<open>Release\<close>

text \<open>There is nothing to release in a static message.\<close>

lemma release_array_id:
  "(\<And>p. release p mh = Some mh) \<Longrightarrow> release_array release step count p mh = Some mh"
  by (induction count arbitrary: p) simp_all

lemma release_fields_id:
  assumes st: "static_messages descs msize rank"
    and release: "\<And>it. it_in (descs i) a it \<Longrightarrow> release it mh = Some mh"
  shows "it_in (descs i) a it \<Longrightarrow> release_fields release it mh = Some mh"
proof (induction "length (it_start it) - it_pos it" arbitrary: it rule: less_induct)
  case less
  have wf: "wf_fields (descs i)" using st by (simp add: static_messages_def)
  obtain b it' where n: "pb_field_iter_next it = (b, it')" by (metis surj_pair)
  have it': "it_in (descs i) a it'" using it_in_next [OF wf less.prems] n by simp
  have IH: "release_fields release it' mh = Some mh" if b
    using less.hyps [OF _ it'] iter_next_measure [of it it'] n that by simp
  show ?case
    using n release [OF less.prems] IH by (subst release_fields.simps) (cases b; simp)
qed

lemma release_message_id:
  assumes st: "static_messages (de_fields env) msize rank"
    and release: "\<And>it. it_in (de_fields env i) a it \<Longrightarrow> release it mh = Some mh"
  shows "release_message env release i a mh = Some mh"
proof -
  have wf: "wf_fields (de_fields env i)" using st by (simp add: static_messages_def)
  obtain b it where b: "pb_field_iter_begin (de_fields env i) a = (b, it)" by (metis surj_pair)
  have "it_in (de_fields env i) a it" using it_in_begin [OF wf] b by (metis snd_conv)
  from release_fields_id [of "de_fields env" msize rank i a release mh, OF st release this] show ?thesis using b by (cases b) (simp_all add: release_message_def)
qed

lemma release_single_id:
  assumes st: "static_messages (de_fields env) msize rank"
  shows "rank i < n \<Longrightarrow> it_in (de_fields env i) a it \<Longrightarrow> pb_release_single_field env n it mh = Some mh"
proof (induction n arbitrary: i a it)
  case (Suc n)
  note f = it_in_ok [OF st Suc.prems(2)]
  note so = field_ok_static [OF f subset_UNIV]
  show ?case
  proof (cases "pf_ltype (it_field it) = PB_LTYPE_SUBMESSAGE")
    case True
    then obtain j where j: "pf_ptr (it_field it) = Ptr_fields j" "rank j < rank i"
      using field_ok_submessage [OF f] by blast
    have "release_message env (pb_release_single_field env n) j p mh = Some mh" for p
      using j(2) Suc.prems(1) by (intro release_message_id [OF st] Suc.IH [of j]) simp_all
    then have "release_array (release_message env (pb_release_single_field env n) j) k c p mh = Some mh" for k c p
      by (rule release_array_id)
    then show ?thesis using so(1) True j(1) by (simp add: Let_def)
  next
    case False
    then show ?thesis using so(1,2) by (simp add: Let_def)
  qed
qed simp

lemma release_id:
  "static_messages (de_fields env) msize rank \<Longrightarrow> rank i < n \<Longrightarrow> pb_release env n i a mh = Some mh"
  unfolding pb_release_def by (rule release_message_id) (simp_all add: release_single_id)

lemma on_heap_id: "f (pd_mem d, pd_heap d) = Some (pd_mem d, pd_heap d) \<Longrightarrow> on_heap f d = Some d"
  by (simp add: on_heap_def)

section \<open>Any field of a message\<close>

lemma runs_union_field:
  assumes st: "static_messages (de_fields env) msize rank" and n: "rank i < n" and it: "it_in (de_fields env i) a it"
  shows "runs R (it_in (de_fields env i) a) (pb_release_union_field env n it)"
  unfolding runs_def
proof (intro allI impI)
  fix d :: "('a, 'b) pb_dec"
  assume d: "in_ok (pd_in d)"
  have wf: "wf_fields (de_fields env i)" using st by (simp add: static_messages_def)
  have stay: "steps R d d" using d by (simp add: steps_def)
  have err: "runs_at R (it_in (de_fields env i) a) (call_op (pd_error msg)) d" for msg
    using d by (intro runsD runs_error)
  define old where "old = load_size (pd_mem d) (it_pSize it)"
  show "runs_at R (it_in (de_fields env i) a) (pb_release_union_field env n it) d"
  proof (cases "old = 0 \<or> old = unat (pf_tag (it_field it))")
    case True
    then have "pb_release_union_field env n it d = Some (Some it, d)" by (auto simp: pb_release_union_field_def old_def)
    then show ?thesis using stay it by (simp add: runs_at_iff)
  next
    case False
    obtain b1 it1 where 1: "pb_field_iter_find it (word_of_nat old) = (b1, it1)" by (metis surj_pair)
    obtain b2 it2 where 2: "pb_field_iter_find it1 (pf_tag (it_field it)) = (b2, it2)" by (metis surj_pair)
    have it1: "it_in (de_fields env i) a it1" using it_in_find [OF wf it] 1 by (metis snd_conv)
    have it2: "it_in (de_fields env i) a it2" using it_in_find [OF wf it1] 2 by (metis snd_conv)
    have rel: "on_heap (pb_release_single_field env n it1) d = Some d"
      by (intro on_heap_id release_single_id [OF st n it1])
    have "pb_release_union_field env n it d =
        (if \<not> b1 then call_op (pd_error ''invalid union tag'') d
         else if \<not> b2 then call_op (pd_error ''iterator error'') d
         else Some (Some it2, d))"
      using False 1 2 rel by (cases b1; cases b2) (simp_all add: pb_release_union_field_def old_def)
    then show ?thesis using err it2 stay by (auto simp: runs_at_iff)
  qed
qed

definition loc_of :: "pb_field_iter \<Rightarrow> size_loc \<Rightarrow> bool" where
  "loc_of it loc \<longleftrightarrow> loc = Size_at (it_pSize it) \<or> (loc = Size_fixed \<and> pf_htype (it_field it) = PB_HTYPE_REPEATED)"

text \<open>What is known of the decoders when a message of a rank is decoded.\<close>

definition decoders_ok :: "(nat \<Rightarrow> nat) \<Rightarrow> (nat \<Rightarrow> nat) \<Rightarrow> nat \<Rightarrow> (pb_field \<Rightarrow> nat \<Rightarrow> ('s, 'h, unit) dec) \<Rightarrow> bool" where
  "decoders_ok msize rank r decoders \<longleftrightarrow>
     (\<forall>f a s d z p R. field_ok msize rank r a s (f, d, z) \<longrightarrow> {p..<p + pf_data_size f} \<subseteq> R \<longrightarrow> runs R any (decoders f p)) \<and>
     (\<forall>f p. pf_ltype f \<le> PB_LTYPE_LAST_PACKABLE \<longrightarrow> eats (decoders f p))"

lemma decoders_okD:
  assumes "decoders_ok msize rank r decoders"
  shows "field_ok msize rank r a s (f, d, z) \<Longrightarrow> {p..<p + pf_data_size f} \<subseteq> R \<Longrightarrow> runs R any (decoders f p)"
    "pf_ltype f \<le> PB_LTYPE_LAST_PACKABLE \<Longrightarrow> eats (decoders f p)"
  using assms unfolding decoders_ok_def by blast+

lemma runs_decode_field:
  assumes st: "static_messages (de_fields env) msize rank" and n: "rank i < n" and it: "it_in (de_fields env i) a it"
    and R: "{a..<a + msize i} \<subseteq> R" and dec: "decoders_ok msize rank (rank i) decoders" and loc: "loc_of it loc"
  shows "runs R (it_in (de_fields env i) a) (decode_field env n decoders wt it loc)"
  unfolding decode_field_def
proof (rule runs_bind)
  show "runs R (\<lambda>it'. it_in (de_fields env i) a it' \<and> (pf_htype (it_field it) \<noteq> PB_HTYPE_ONEOF \<longrightarrow> it' = it))
      (if pf_htype (it_field it) = PB_HTYPE_ONEOF then pb_release_union_field env n it else call_status (Some it))"
  proof (cases "pf_htype (it_field it) = PB_HTYPE_ONEOF")
    case True
    then show ?thesis using runs_mono [OF runs_union_field [OF st n it] subset_refl] by simp
  next
    case False
    then show ?thesis using it by (auto intro!: runs_status)
  qed
next
  fix it'
  assume it': "it_in (de_fields env i) a it' \<and> (pf_htype (it_field it) \<noteq> PB_HTYPE_ONEOF \<longrightarrow> it' = it)"
  let ?loc = "if pf_htype (it_field it) = PB_HTYPE_ONEOF then Size_at (it_pSize it') else loc"
  note f = it_in_ok [OF st conjunct1 [OF it']]
  have "?loc = Size_at (it_pSize it') \<or> (?loc = Size_fixed \<and> pf_htype (it_field it') = PB_HTYPE_REPEATED)"
    using loc it' by (auto simp: loc_of_def)
  then have "runs R any (decode_static_field env n (decoders (it_field it')) wt (it_field it') (it_pData it') ?loc)"
    using n by (intro runs_static_field [OF st f R] decoders_okD(1) [OF dec f] decoders_okD(2) [OF dec]) simp_all
  then show "runs R (it_in (de_fields env i) a) (let f = it_field it'; func = decoders f; loc = ?loc in
      call_bind
        (if pf_atype f = PB_ATYPE_STATIC then decode_static_field env n func wt f (it_pData it') loc
         else if pf_atype f = PB_ATYPE_POINTER then decode_pointer_field env n func wt it' loc
         else if pf_atype f = PB_ATYPE_CALLBACK then decode_callback_field env wt f (it_pData it')
         else call_op (pd_error ''invalid field type''))
        (\<lambda>_. call_status (Some it')))"
    using field_ok_static(1) [OF f subset_UNIV] it' unfolding Let_def
    by (simp only: if_True simp_thms) (auto intro!: run_rules)
qed

section \<open>The loop over the input\<close>

text \<open>A tag has at most 29 bits, so that it is never taken for an extension of a message without extensions.\<close>

lemma decode_tag_less: "pb_decode_tag m s = (Some (wt, tag), eof, s') \<Longrightarrow> tag < -1"
proof -
  assume "pb_decode_tag m s = (Some (wt, tag), eof, s')"
  then obtain temp :: u32 where "tag = drop_bit 3 temp"
    by (auto simp: pb_decode_tag_def split: prod.splits option.splits if_splits)
  then have "unat tag < 2 ^ 29"
    using unsigned_less [of temp, where 'a = nat] by (simp add: drop_bit_eq_div unat_div)
  then show ?thesis by (simp add: word_less_nat_alt unsigned_minus_1_eq_mask mask_eq_exp_minus_1)
qed

abbreviation frame_in :: "('s, 'h) pb_denv \<Rightarrow> nat \<Rightarrow> nat \<Rightarrow> pb_frame \<Rightarrow> bool" where
  "frame_in env i a fr \<equiv> it_in (de_fields env i) a (fr_iter fr)"

lemma runs_unknown:
  assumes st: "static_messages (de_fields env) msize rank" and fr: "frame_in env i a fr" and tag: "tag < -1"
  shows "runs R (frame_in env i a) (decode_unknown env n decoders tag wt fr)"
proof -
  obtain it where ext: "find_extension_field (fr_iter fr) = (False, it)" "it_in (de_fields env i) a it"
    using it_in_not_extension [OF st fr] by metis
  let ?fr = "if tag \<ge> fr_ext_start fr then fr\<lparr>fr_iter := it, fr_ext_start := -1\<rparr> else fr"
  have "\<not> tag \<ge> -1" using tag by (simp only: not_le)
  then have "decode_unknown env n decoders tag wt fr =
      call_bind (call_op (on_stream (\<lambda>m. pb_skip_field m wt))) (\<lambda>_. call_status (Some ?fr))"
    unfolding decode_unknown_def ext(1) Let_def by simp
  moreover have "frame_in env i a ?fr" using fr ext(2) by simp
  ultimately show ?thesis by (auto intro!: run_rules)
qed

lemma runs_known:
  assumes st: "static_messages (de_fields env) msize rank" and n: "rank i < n" and fr: "frame_in env i a fr"
    and R: "{a..<a + msize i} \<subseteq> R" and dec: "decoders_ok msize rank (rank i) decoders"
  shows "runs R (frame_in env i a) (decode_known env n decoders wt fr)"
  unfolding runs_def
proof (intro allI impI)
  fix d :: "('a, 'b) pb_dec"
  assume d: "in_ok (pd_in d)"
  let ?it = "fr_iter fr"
  let ?f = "it_field ?it"
  define fixed where "fixed \<longleftrightarrow> pf_htype ?f = PB_HTYPE_REPEATED \<and> it_pSize ?it = it_pData ?it"
  define other where "other \<longleftrightarrow> fixed \<and> fr_fixed fr \<noteq> Some (it_pos ?it)"
  define loc where "loc = (if fixed then Size_fixed else Size_at (it_pSize ?it))"
  have loc: "loc_of ?it loc" by (auto simp: loc_def loc_of_def fixed_def)
  define d1 where "d1 = (if other then d\<lparr>pd_fixed := 0\<rparr> else d)"
  have d1: "steps R d d1" using d by (simp add: d1_def steps_def)
  define fr1 where "fr1 = (if other then fr\<lparr>fr_fixed := Some (it_pos ?it)\<rparr> else fr)"
  define fr2 where "fr2 = (if pf_htype ?f = PB_HTYPE_REQUIRED \<and> it_req ?it < 64
    then fr1\<lparr>fr_seen := (fr_seen fr1)[it_req ?it div 32 := fr_seen fr1 ! (it_req ?it div 32) OR push_bit (it_req ?it mod 32) 1]\<rparr>
    else fr1)"
  have go: "runs_at R (frame_in env i a)
      (call_bind (decode_field env n decoders wt ?it loc) (\<lambda>it. call_status (Some (fr2\<lparr>fr_iter := it\<rparr>)))) d1"
    using steps_ok(1) [OF d1]
    by (intro runsD runs_bind [OF runs_decode_field [OF st n fr R dec loc]] runs_status) auto
  show "runs_at R (frame_in env i a) (decode_known env n decoders wt fr) d"
  proof (cases "other \<and> (case fr_fixed fr of None \<Rightarrow> False
                     | Some p \<Rightarrow> pd_fixed d \<noteq> pf_array_size (field_at (it_start ?it) p))")
    case True
    have "runs_at R (frame_in env i a) (call_op (pd_error ''wrong size for fixed count field'')) d"
      using d by (intro runsD runs_error)
    moreover have "decode_known env n decoders wt fr d = call_op (pd_error ''wrong size for fixed count field'') d"
      using True unfolding decode_known_def Let_def other_def fixed_def by (simp only: if_True simp_thms)
    ultimately show ?thesis by (simp add: runs_at_def)
  next
    case False
    have "decode_known env n decoders wt fr d =
        call_bind (decode_field env n decoders wt ?it loc) (\<lambda>it. call_status (Some (fr2\<lparr>fr_iter := it\<rparr>))) d1"
      using False unfolding decode_known_def Let_def d1_def fr2_def fr1_def loc_def other_def fixed_def
      by (simp only: if_False simp_thms)
    with d1 go show ?thesis by (rule runs_at_pre)
  qed
qed

lemma runs_decode_loop:
  assumes st: "static_messages (de_fields env) msize rank" and n: "rank i < n"
    and R: "{a..<a + msize i} \<subseteq> R" and dec: "decoders_ok msize rank (rank i) decoders"
  shows "frame_in env i a fr \<Longrightarrow> in_ok (pd_in d) \<Longrightarrow> is_left (pd_in d) < k \<Longrightarrow>
    runs_at R (frame_in env i a) (decode_loop env n decoders k fr) d"
proof (induction k arbitrary: fr d)
  case (Suc k)
  have wf: "wf_fields (de_fields env i)" using st by (simp add: static_messages_def)
  show ?case
  proof (cases "is_left (pd_in d) = 0")
    case True
    then have "decode_loop env n decoders (Suc k) fr d = Some (Some fr, d)" by simp
    then show ?thesis using Suc.prems by (simp add: runs_at_def)
  next
    case False
    obtain r eof s where t: "pb_decode_tag (pd_mem d) (pd_in d) = (r, eof, s)" by (metis prod_cases3)
    note s = decode_tag_ok [OF t Suc.prems(2)]
    show ?thesis
    proof (cases r)
      case None
      then have "decode_loop env n decoders (Suc k) fr d = Some (if eof then Some fr else None, d\<lparr>pd_in := s\<rparr>)"
        using False t by simp
      then show ?thesis using s Suc.prems(1) by (simp add: runs_at_def)
    next
      case (Some x)
      obtain wt tag where x: "x = (wt, tag)" by (metis surj_pair)
      then have tag: "tag < -1" using decode_tag_less t Some by blast
      let ?d = "d\<lparr>pd_in := s\<rparr>"
      have d: "steps R d ?d" using s by (simp add: steps_def)
      obtain found it where f: "pb_field_iter_find (fr_iter fr) tag = (found, it)" by (metis surj_pair)
      let ?fr = "fr\<lparr>fr_iter := it\<rparr>"
      have fr: "frame_in env i a ?fr" using it_in_find [OF wf Suc.prems(1), of tag] f by simp
      have one: "runs R (frame_in env i a) (if found then decode_known env n decoders wt ?fr else decode_unknown env n decoders tag wt ?fr)"
        by (intro runs_if runs_known [OF st n fr R dec] runs_unknown [OF st fr tag])
      have "is_left s < k" using s Some Suc.prems(3) by simp
      then have "runs_at R (frame_in env i a)
          (call_bind (if found then decode_known env n decoders wt ?fr else decode_unknown env n decoders tag wt ?fr)
            (decode_loop env n decoders k)) ?d"
        using s by (intro runs_at_bind [OF runsD [OF one]] Suc.IH) simp_all
      then show ?thesis
        by (rule runs_at_pre [OF d]) (use False t Some x f in simp)
    qed
  qed
qed simp

section \<open>Messages\<close>

lemma runs_with_defaults:
  assumes st: "static_messages (de_fields env) msize rank" and n: "rank i < n" and R: "{a..<a + msize i} \<subseteq> R"
    and noinit: "runs R any (noinit i a)"
  shows "runs R any (decode_with_defaults env n noinit i a)"
  unfolding runs_def
proof (intro allI impI)
  fix d :: "('a, 'b) pb_dec"
  assume d: "in_ok (pd_in d)"
  obtain m where m: "pb_message_set_to_defaults (de_fields env) n i a (pd_mem d) = Some m" "\<forall>x. x \<notin> R \<longrightarrow> m x = pd_mem d x"
    using keeps_defaults [OF st n R] by (auto simp: keeps_def)
  let ?d = "d\<lparr>pd_mem := m\<rparr>"
  have sd: "steps R d ?d" using d m(2) by (intro steps_mem) auto
  obtain r d' where r: "noinit i a ?d = Some (r, d')" "steps R ?d d'"
    using runsD [OF noinit steps_ok(1) [OF sd]] by (auto simp: runs_at_iff)
  have "steps R d d'" using sd r(2) by (rule steps_trans)
  moreover have "on_heap (pb_release env n i a) d' = Some d'"
    by (intro on_heap_id release_id [OF st n])
  then have "decode_with_defaults env n noinit i a d = Some (r, d')"
    using m(1) r(1) by (cases r) (simp_all add: decode_with_defaults_def call_defaults_def)
  ultimately show "runs_at R any (decode_with_defaults env n noinit i a) d" by (simp add: runs_at_iff)
qed

lemma runs_finish: "runs R any (call_op (decode_finish fr))"
  by (rule runsI) (auto simp: call_op_def decode_finish_def pd_error_def on_stream_def is_error_def)

lemma runs_noinit:
  assumes st: "static_messages (de_fields env) msize rank"
  shows "rank i + 1 < n \<Longrightarrow> {a..<a + msize i} \<subseteq> R \<Longrightarrow> runs R any (pb_decode_noinit env n i a)"
proof (induction n arbitrary: i a R)
  case (Suc n)
  have wf: "wf_fields (de_fields env i)" using st by (simp add: static_messages_def)
  define decoders where "decoders = PB_DECODERS env (decode_with_defaults env n (pb_decode_noinit env n)) (pb_decode_noinit env n)"
  define fr where "fr = \<lparr>fr_iter = snd (pb_field_iter_begin (de_fields env i) a), fr_seen = [0, 0], fr_ext_start = 0, fr_fixed = None\<rparr>"
  have n: "rank i < n" using Suc.prems(1) by simp
  have sub: "runs S any (pb_decode_noinit env n j p)" if "rank j < rank i" "{p..<p + msize j} \<subseteq> S" for j p S
    using that n by (intro Suc.IH) simp_all
  have "decoders_ok msize rank (rank i) decoders"
    unfolding decoders_ok_def decoders_def
  proof (intro conjI allI impI)
    fix f p S and b s d z :: nat
    assume f: "field_ok msize rank (rank i) b s (f, d, z)" "{p..<p + pf_data_size f} \<subseteq> S"
    show "runs S any (PB_DECODERS env (decode_with_defaults env n (pb_decode_noinit env n)) (pb_decode_noinit env n) f p)"
      using n by (intro runs_decoders [OF f] runs_with_defaults [OF st] sub) simp_all
  qed (rule eats_decoders)
  note loop = runs_decode_loop [OF st n Suc.prems(2) this]
  have fr: "frame_in env i a fr" using it_in_begin [OF wf] by (simp add: fr_def)
  show ?case
    unfolding runs_def
  proof (intro allI impI)
    fix d :: "('a, 'b) pb_dec"
    assume d: "in_ok (pd_in d)"
    let ?d = "d\<lparr>pd_fixed := 0\<rparr>"
    let ?loop = "decode_loop env n decoders (is_left (pd_in d) + 1) fr"
    have "runs_at R (frame_in env i a) ?loop ?d" using d by (intro loop fr) simp_all
    then have "runs_at R any (call_bind ?loop (\<lambda>fr. call_op (decode_finish fr))) ?d"
      by (rule runs_at_bind) (intro runsD runs_finish)
    then obtain r d' where r: "call_bind ?loop (\<lambda>fr. call_op (decode_finish fr)) ?d = Some (r, d')" "steps R ?d d'"
      by (auto simp: runs_at_iff)
    have "pb_decode_noinit env (Suc n) i a d = Some (r, d'\<lparr>pd_fixed := pd_fixed d\<rparr>)"
      using r(1) by (simp only: pb_decode_noinit.simps Let_def decoders_def [symmetric] fr_def [symmetric]) simp
    then show "runs_at R any (pb_decode_noinit env (Suc n) i a) d"
      using r(2) by (simp add: runs_at_iff steps_def)
  qed
qed simp

theorem runs_decode:
  assumes "static_messages (de_fields env) msize rank" "rank i + 1 < n" "{a..<a + msize i} \<subseteq> R"
  shows "runs R any (pb_decode env n i a)"
  unfolding pb_decode_def using assms(2) by (intro runs_with_defaults [OF assms(1)] runs_noinit [OF assms(1)] assms(3)) simp_all

end
