(* ===== verification/Pb_Same.thy ===== *)
theory Pb_Same
  imports Pb_Dec_Static Pb_Enc_Ref
begin

text \<open>
  When two structs hold the same message, for messages whose fields are all static. The fields are compared
  as they are read: a flag as true or false, a string up to its terminator, an array up to its count, a
  union by the field it holds. The functions that go into submessages take a depth, and what is beyond is not looked at.
\<close>

section \<open>The same message\<close>

definition same_value :: "(nat \<Rightarrow> nat \<Rightarrow> nat \<Rightarrow> bool) \<Rightarrow> memory \<Rightarrow> memory \<Rightarrow> pb_field \<Rightarrow> nat \<Rightarrow> nat \<Rightarrow> bool" where
  "same_value same m m' f p q =
     (let t = pf_ltype f; n = pf_data_size f in
      if t = PB_LTYPE_BYTES then
        load_size m' q = load_size m p \<and> load_size m p + 4 \<le> n \<and> rd m' (q + 4) (load_size m p) = rd m (p + 4) (load_size m p)
      else if t = PB_LTYPE_STRING then c_string m' q n = c_string m p n
      else if t = PB_LTYPE_SUBMESSAGE then (case pf_ptr f of Ptr_fields i \<Rightarrow> same i p q | _ \<Rightarrow> False)
      else rd m' q n = rd m p n)"

definition same_field ::
  "(nat \<Rightarrow> nat \<Rightarrow> nat \<Rightarrow> bool) \<Rightarrow> memory \<Rightarrow> memory \<Rightarrow> pb_field \<times> nat \<times> nat \<Rightarrow> pb_field \<times> nat \<times> nat \<Rightarrow> bool" where
  "same_field same m m' =
     (\<lambda>(f, d, z) (g, d', z'). g = f \<and>
       (if pf_htype f = PB_HTYPE_REQUIRED then same_value same m m' f d d'
        else if pf_htype f = PB_HTYPE_OPTIONAL then
          (pf_size_offset f \<noteq> 0 \<longrightarrow> (m' z' = 0 \<longleftrightarrow> m z = 0)) \<and>
          (pf_size_offset f \<noteq> 0 \<and> m z = 0 \<or> same_value same m m' f d d')
        else if pf_htype f = PB_HTYPE_REPEATED then
          load_size m' z' = load_size m z \<and> load_size m z \<le> pf_array_size f \<and>
          list_all (\<lambda>i. same_value same m m' f (d + pf_data_size f * i) (d' + pf_data_size f * i)) [0..<load_size m z]
        else load_size m' z' = load_size m z \<and> (load_size m z = unat (pf_tag f) \<longrightarrow> same_value same m m' f d d')))"

fun same_message :: "(nat \<Rightarrow> pb_field list) \<Rightarrow> nat \<Rightarrow> memory \<Rightarrow> memory \<Rightarrow> nat \<Rightarrow> nat \<Rightarrow> nat \<Rightarrow> bool" where
  "same_message descs 0 m m' i a b = True"
| "same_message descs (Suc n) m m' i a b =
     list_all2 (same_field (same_message descs n m m') m m') (layout (descs i) a) (layout (descs i) b)"

section \<open>Messages in order\<close>

text \<open>
  The encoder takes a string that fills its field without a terminator, which the decoder refuses; and a
  union whose tag names none of its fields, which is lost.
\<close>

definition proper_value :: "(nat \<Rightarrow> nat \<Rightarrow> bool) \<Rightarrow> memory \<Rightarrow> pb_field \<Rightarrow> nat \<Rightarrow> bool" where
  "proper_value proper m f p =
     (if pf_ltype f = PB_LTYPE_STRING then length (c_string m p (pf_data_size f)) < pf_data_size f
      else if pf_ltype f = PB_LTYPE_SUBMESSAGE then (case pf_ptr f of Ptr_fields i \<Rightarrow> proper i p | _ \<Rightarrow> False)
      else True)"

definition proper_field ::
  "(nat \<Rightarrow> nat \<Rightarrow> bool) \<Rightarrow> memory \<Rightarrow> (pb_field \<times> nat \<times> nat) list \<Rightarrow> pb_field \<times> nat \<times> nat \<Rightarrow> bool" where
  "proper_field proper m ls =
     (\<lambda>(f, d, z).
        if pf_htype f = PB_HTYPE_REQUIRED then proper_value proper m f d
        else if pf_htype f = PB_HTYPE_OPTIONAL then pf_size_offset f \<noteq> 0 \<and> m z = 0 \<or> proper_value proper m f d
        else if pf_htype f = PB_HTYPE_REPEATED then
          list_all (\<lambda>i. proper_value proper m f (d + pf_data_size f * i)) [0..<load_size m z]
        else if load_size m z = unat (pf_tag f) then proper_value proper m f d
        else load_size m z = 0 \<or>
          list_ex (\<lambda>(g, _, y). pf_htype g = PB_HTYPE_ONEOF \<and> y = z \<and> unat (pf_tag g) = load_size m z) ls)"

fun proper_message :: "(nat \<Rightarrow> pb_field list) \<Rightarrow> nat \<Rightarrow> memory \<Rightarrow> nat \<Rightarrow> nat \<Rightarrow> bool" where
  "proper_message descs 0 m i a = True"
| "proper_message descs (Suc n) m i a =
     list_all (proper_field (proper_message descs n m) m (layout (descs i) a)) (layout (descs i) a)"

text \<open>A struct with the default values, which the decoder starts from.\<close>

definition fresh_value :: "(nat \<Rightarrow> nat \<Rightarrow> bool) \<Rightarrow> memory \<Rightarrow> pb_field \<Rightarrow> nat \<Rightarrow> bool" where
  "fresh_value fresh m f d =
     (if pf_ltype f = PB_LTYPE_SUBMESSAGE then (case pf_ptr f of Ptr_fields i \<Rightarrow> fresh i d | _ \<Rightarrow> False)
      else pf_htype f = PB_HTYPE_OPTIONAL \<and> pf_size_offset f = 0 \<longrightarrow> rd m d (pf_data_size f) = replicate (pf_data_size f) 0)"

definition fresh_field :: "(nat \<Rightarrow> nat \<Rightarrow> bool) \<Rightarrow> memory \<Rightarrow> pb_field \<times> nat \<times> nat \<Rightarrow> bool" where
  "fresh_field fresh m =
     (\<lambda>(f, d, z).
        if pf_htype f = PB_HTYPE_REQUIRED then fresh_value fresh m f d
        else if pf_htype f = PB_HTYPE_OPTIONAL then (pf_size_offset f \<noteq> 0 \<longrightarrow> m z = 0) \<and> fresh_value fresh m f d
        else load_size m z = 0)"

fun fresh_message :: "(nat \<Rightarrow> pb_field list) \<Rightarrow> nat \<Rightarrow> memory \<Rightarrow> nat \<Rightarrow> nat \<Rightarrow> bool" where
  "fresh_message descs 0 m i a = True"
| "fresh_message descs (Suc n) m i a = list_all (fresh_field (fresh_message descs n m) m) (layout (descs i) a)"

section \<open>Structs in order\<close>

text \<open>
  What descriptors made by the generator of nanopb have: tags that fit the wire format, every count, flag and value at
  a place of its own, except for the fields of one union, and nothing but zeros for the default of a field without a flag.
  Arrays with a fixed count are left out.
\<close>

definition size_bytes :: "pb_field \<Rightarrow> nat" where
  "size_bytes f =
     (if pf_htype f = PB_HTYPE_REPEATED \<or> pf_htype f = PB_HTYPE_ONEOF then 4
      else if pf_htype f = PB_HTYPE_OPTIONAL \<and> pf_size_offset f \<noteq> 0 then 1 else 0)"

definition plain_field :: "pb_field \<times> nat \<times> nat \<Rightarrow> bool" where
  "plain_field =
     (\<lambda>(f, d, z).
        unat (pf_tag f) < 2 ^ 29 \<and> z = size_addr d f \<and> pf_array_size f < 2 ^ 32 \<and>
        (pf_ltype f = PB_LTYPE_BYTES \<longrightarrow> 4 \<le> pf_data_size f) \<and>
        (pf_ltype f = PB_LTYPE_STRING \<longrightarrow> 0 < pf_data_size f) \<and>
        (size_bytes f \<noteq> 0 \<longrightarrow> pf_size_offset f \<noteq> 0 \<and> z \<noteq> d \<and> apart d (prev_size f) z (size_bytes f)) \<and>
        (pf_htype f = PB_HTYPE_OPTIONAL \<and> pf_size_offset f = 0 \<and> pf_ltype f \<noteq> PB_LTYPE_SUBMESSAGE \<longrightarrow> pf_ptr f = Ptr_null))"

definition same_union :: "pb_field \<times> nat \<times> nat \<Rightarrow> pb_field \<times> nat \<times> nat \<Rightarrow> bool" where
  "same_union = (\<lambda>(f, d, z) (g, e, y). pf_htype f = PB_HTYPE_ONEOF \<and> pf_htype g = PB_HTYPE_ONEOF \<and> y = z)"

definition parted :: "pb_field \<times> nat \<times> nat \<Rightarrow> pb_field \<times> nat \<times> nat \<Rightarrow> bool" where
  "parted =
     (\<lambda>(f, d, z) (g, e, y).
        same_union (f, d, z) (g, e, y) \<or>
        (apart d (prev_size f) e (prev_size g) \<and> apart d (prev_size f) y (size_bytes g) \<and>
         apart z (size_bytes f) e (prev_size g) \<and> apart z (size_bytes f) y (size_bytes g)))"

definition plain_messages :: "(nat \<Rightarrow> pb_field list) \<Rightarrow> bool" where
  "plain_messages descs \<longleftrightarrow>
     (\<forall>i. distinct (map pf_tag (butlast (descs i))) \<and>
       (\<forall>a. list_all plain_field (layout (descs i) a) \<and> sorted_wrt parted (layout (descs i) a)))"

text \<open>The bytes of a field.\<close>

definition bytes_of :: "pb_field \<times> nat \<times> nat \<Rightarrow> nat set" where
  "bytes_of = (\<lambda>(f, d, z). {d..<d + prev_size f} \<union> {z..<z + size_bytes f})"

lemma apart_disjoint: "apart d n e k \<Longrightarrow> {d..<d + n} \<inter> {e..<e + k} = {}"
  by (auto simp: apart_def)

lemma parted_disjoint: "parted x y \<Longrightarrow> same_union x y \<or> bytes_of x \<inter> bytes_of y = {}"
proof -
  obtain f d z g e y' where xy: "x = (f, d, z)" "y = (g, e, y')" by (metis surj_pair)
  assume "parted x y"
  then show ?thesis
    unfolding xy parted_def bytes_of_def prod.case
    by (elim disjE conjE) (use apart_disjoint in \<open>simp_all only: Int_Un_distrib Int_Un_distrib2 simp_thms Un_empty\<close>)
qed

lemma bytes_of_within:
  assumes f: "field_ok msize rank r a s x" and p: "plain_field x"
  shows "bytes_of x \<subseteq> {a..<a + s}"
proof -
  obtain f d z where x: "x = (f, d, z)" by (metis surj_pair)
  have "pf_htype f = PB_HTYPE_OPTIONAL \<Longrightarrow> z \<noteq> d \<Longrightarrow> z \<in> {a..<a + s}"
    "pf_htype f = PB_HTYPE_REPEATED \<or> pf_htype f = PB_HTYPE_ONEOF \<Longrightarrow> {z..<z + 4} \<subseteq> {a..<a + s}"
    "{d..<d + prev_size f} \<subseteq> {a..<a + s}"
    using field_ok_static [OF f [unfolded x] subset_refl] by blast+
  moreover have "z \<noteq> d" if "size_bytes f \<noteq> 0" using p that by (simp add: x plain_field_def)
  moreover have "{z..<z + 1} = {z}" by auto
  ultimately show ?thesis by (auto simp: x bytes_of_def size_bytes_def split: if_splits)
qed

section \<open>Only the bytes of a message matter\<close>

lemma load_size_cong: "(\<And>x. x \<in> {a..<a + 4} \<Longrightarrow> m' x = m x) \<Longrightarrow> load_size m' a = load_size m a"
  unfolding load_size_def load_le_def by (simp cong: rd_cong)

lemma c_string_cong: "(\<And>x. x \<in> {a..<a + n} \<Longrightarrow> m' x = m x) \<Longrightarrow> c_string m' a n = c_string m a n"
  unfolding c_string_def by (simp cong: rd_cong)

lemma same_value_frame:
  assumes "same_value same m m1 f p q" "\<And>x. x \<in> {q..<q + pf_data_size f} \<Longrightarrow> m2 x = m1 x"
    and "pf_ltype f = PB_LTYPE_BYTES \<Longrightarrow> 4 \<le> pf_data_size f"
    and "\<And>i. pf_ltype f = PB_LTYPE_SUBMESSAGE \<Longrightarrow> pf_ptr f = Ptr_fields i \<Longrightarrow> same i p q \<Longrightarrow> same' i p q"
  shows "same_value same' m m2 f p q"
proof -
  have "load_size m2 q = load_size m1 q" if "pf_ltype f = PB_LTYPE_BYTES"
    using assms(2) assms(3) [OF that] by (intro load_size_cong) simp
  moreover have "rd m2 (q + 4) n = rd m1 (q + 4) n" if "n + 4 \<le> pf_data_size f" for n
    using assms(2) that by (intro rd_cong) simp
  moreover have "c_string m2 q (pf_data_size f) = c_string m1 q (pf_data_size f)" using assms(2) by (rule c_string_cong)
  moreover have "rd m2 q (pf_data_size f) = rd m1 q (pf_data_size f)" using assms(2) by (intro rd_cong) simp
  ultimately show ?thesis
    using assms(1,4) by (cases "pf_ptr f") (simp_all add: same_value_def Let_def split: if_splits)
qed

lemma fresh_value_frame:
  assumes "fresh_value fresh m1 f q" "\<And>x. x \<in> {q..<q + pf_data_size f} \<Longrightarrow> m2 x = m1 x"
    and "\<And>i. pf_ltype f = PB_LTYPE_SUBMESSAGE \<Longrightarrow> pf_ptr f = Ptr_fields i \<Longrightarrow> fresh i q \<Longrightarrow> fresh' i q"
  shows "fresh_value fresh' m2 f q"
proof -
  have "rd m2 q (pf_data_size f) = rd m1 q (pf_data_size f)" using assms(2) by (intro rd_cong) simp
  then show ?thesis using assms(1,3) by (cases "pf_ptr f") (simp_all add: fresh_value_def split: if_splits)
qed

text \<open>The parts of \<open>bytes_of\<close> that a field of each kind has.\<close>

lemma bytes_of_value:
  "{d..<d + prev_size f} \<subseteq> bytes_of (f, d, z)"
  "pf_htype f = PB_HTYPE_OPTIONAL \<Longrightarrow> pf_size_offset f \<noteq> 0 \<Longrightarrow> z \<in> bytes_of (f, d, z)"
  "pf_htype f = PB_HTYPE_REPEATED \<or> pf_htype f = PB_HTYPE_ONEOF \<Longrightarrow> {z..<z + 4} \<subseteq> bytes_of (f, d, z)"
  by (auto simp: bytes_of_def size_bytes_def)

lemma same_field_frame:
  assumes same: "same_field same m m1 x y" and m2: "\<And>a. a \<in> bytes_of y \<Longrightarrow> m2 a = m1 a"
    and p: "plain_field y" and f: "pf_atype (fst y) = PB_ATYPE_STATIC"
    and sub: "\<And>i p q. pf_ltype (fst y) = PB_LTYPE_SUBMESSAGE \<Longrightarrow> pf_ptr (fst y) = Ptr_fields i \<Longrightarrow>
      {q..<q + pf_data_size (fst y)} \<subseteq> bytes_of y \<Longrightarrow> same i p q \<Longrightarrow> same' i p q"
  shows "same_field same' m m2 x y"
proof -
  obtain f d z d' z' where xy: "x = (f, d, z)" "y = (f, d', z')" using same by (auto simp: same_field_def)
  have v: "same_value same' m m2 f p q" if "same_value same m m1 f p q" "{q..<q + pf_data_size f} \<subseteq> bytes_of y" for p q
    using that p by (intro same_value_frame [OF that(1)] m2 sub) (auto simp: xy plain_field_def)
  have one: "{d'..<d' + pf_data_size f} \<subseteq> bytes_of y" if "pf_htype f \<noteq> PB_HTYPE_REPEATED"
    using bytes_of_value(1) [of d' f z'] that f by (simp add: xy prev_size_def)
  have item: "{d' + pf_data_size f * i..<d' + pf_data_size f * i + pf_data_size f} \<subseteq> bytes_of y"
    if "pf_htype f = PB_HTYPE_REPEATED" "i < pf_array_size f" for i
    using bytes_of_value(1) [of d' f z'] that f by (intro item_subset [where n = "pf_array_size f"]) (simp_all add: xy prev_size_def)
  have flag: "m2 z' = m1 z'" if "pf_htype f = PB_HTYPE_OPTIONAL" "pf_size_offset f \<noteq> 0"
    using bytes_of_value(2) [OF that, of z' d'] by (intro m2) (simp add: xy)
  have count: "load_size m2 z' = load_size m1 z'" if "pf_htype f = PB_HTYPE_REPEATED \<or> pf_htype f = PB_HTYPE_ONEOF"
    using bytes_of_value(3) [OF that, of z' d'] by (intro load_size_cong m2) (auto simp: xy)
  show ?thesis
    using htype_cases [of f]
  proof (elim disjE)
    assume "pf_htype f = 0x20"
    then show ?thesis using same count v item by (auto simp: xy same_field_def list_all_iff)
  qed (use same v one flag count in \<open>auto simp: xy same_field_def\<close>)
qed

lemma fresh_field_frame:
  assumes fresh: "fresh_field fresh m1 y" and m2: "\<And>a. a \<in> bytes_of y \<Longrightarrow> m2 a = m1 a"
    and f: "pf_atype (fst y) = PB_ATYPE_STATIC"
    and sub: "\<And>i q. pf_ltype (fst y) = PB_LTYPE_SUBMESSAGE \<Longrightarrow> pf_ptr (fst y) = Ptr_fields i \<Longrightarrow>
      {q..<q + pf_data_size (fst y)} \<subseteq> bytes_of y \<Longrightarrow> fresh i q \<Longrightarrow> fresh' i q"
  shows "fresh_field fresh' m2 y"
proof -
  obtain f d z where y: "y = (f, d, z)" by (metis surj_pair)
  have v: "fresh_value fresh' m2 f d" if "fresh_value fresh m1 f d" "pf_htype f \<noteq> PB_HTYPE_REPEATED"
  proof -
    have "{d..<d + pf_data_size f} \<subseteq> bytes_of y"
      using bytes_of_value(1) [of d f z] that f by (simp add: y prev_size_def)
    then show ?thesis by (intro fresh_value_frame [OF that(1)] m2 sub) (auto simp: y)
  qed
  have flag: "m2 z = m1 z" if "pf_htype f = PB_HTYPE_OPTIONAL" "pf_size_offset f \<noteq> 0"
    using bytes_of_value(2) [OF that, of z d] by (intro m2) (simp add: y)
  have count: "load_size m2 z = load_size m1 z" if "pf_htype f = PB_HTYPE_REPEATED \<or> pf_htype f = PB_HTYPE_ONEOF"
    using bytes_of_value(3) [OF that, of z d] by (intro load_size_cong m2) (auto simp: y)
  show ?thesis
    using htype_cases [of f] by (elim disjE) (use fresh v flag count in \<open>auto simp: y fresh_field_def\<close>)
qed

text \<open>What is known of every field of a message.\<close>

lemma layout_fields:
  assumes "static_messages descs msize rank" "plain_messages descs" "x \<in> set (layout (descs i) a)"
  shows "field_ok msize rank (rank i) a (msize i) x" "plain_field x" "pf_atype (fst x) = PB_ATYPE_STATIC"
    "bytes_of x \<subseteq> {a..<a + msize i}"
proof -
  show f: "field_ok msize rank (rank i) a (msize i) x" and p: "plain_field x"
    using assms by (auto simp: static_messages_def plain_messages_def list_all_iff)
  obtain f d z where x: "x = (f, d, z)" by (metis surj_pair)
  show "pf_atype (fst x) = PB_ATYPE_STATIC" using field_ok_static(1) [OF f [unfolded x] subset_UNIV] by (simp add: x)
  show "bytes_of x \<subseteq> {a..<a + msize i}" by (rule bytes_of_within [OF f p])
qed

lemma layout_sub:
  assumes "static_messages descs msize rank" "plain_messages descs" "x \<in> set (layout (descs i) a)"
    "pf_ptr (fst x) = Ptr_fields j"
  shows "msize j \<le> pf_data_size (fst x)" "rank j < rank i" "pf_ltype (fst x) = PB_LTYPE_SUBMESSAGE"
proof -
  obtain f d z where x: "x = (f, d, z)" by (metis surj_pair)
  show "msize j \<le> pf_data_size (fst x)" "rank j < rank i" "pf_ltype (fst x) = PB_LTYPE_SUBMESSAGE"
    using layout_fields(1) [OF assms(1-3)] assms(4) by (simp_all add: x field_ok_def)
qed

lemma same_message_frame:
  assumes st: "static_messages descs msize rank" and pl: "plain_messages descs"
  shows "same_message descs k m m1 i a b \<Longrightarrow> (\<And>x. x \<in> {b..<b + msize i} \<Longrightarrow> m2 x = m1 x) \<Longrightarrow>
    same_message descs k m m2 i a b"
proof (induction k arbitrary: i a b)
  case (Suc k)
  have "list_all2 (same_field (same_message descs k m m1) m m1) (layout (descs i) a) (layout (descs i) b)"
    using Suc.prems(1) by simp
  then have "list_all2 (same_field (same_message descs k m m2) m m2) (layout (descs i) a) (layout (descs i) b)"
  proof (rule list.rel_mono_strong)
    fix x y
    assume x: "x \<in> set (layout (descs i) a)" and y: "y \<in> set (layout (descs i) b)"
      and same: "same_field (same_message descs k m m1) m m1 x y"
    note ly = layout_fields [OF st pl y]
    have m2: "m2 c = m1 c" if "c \<in> bytes_of y" for c using Suc.prems(2) ly(4) that by blast
    have sub: "same_message descs k m m2 j p q"
      if j: "pf_ptr (fst y) = Ptr_fields j" and q: "{q..<q + pf_data_size (fst y)} \<subseteq> bytes_of y"
        and s: "same_message descs k m m1 j p q" for j p q
    proof (rule Suc.IH [OF s m2])
      fix c assume "c \<in> {q..<q + msize j}"
      then show "c \<in> bytes_of y" using q layout_sub(1) [OF st pl y j] by (auto simp: subset_iff)
    qed
    show "same_field (same_message descs k m m2) m m2 x y"
      by (rule same_field_frame [OF same m2 ly(2,3)]) (assumption | rule sub)+
  qed
  then show ?case by simp
qed simp

lemma fresh_message_frame:
  assumes st: "static_messages descs msize rank" and pl: "plain_messages descs"
  shows "fresh_message descs k m1 i b \<Longrightarrow> (\<And>x. x \<in> {b..<b + msize i} \<Longrightarrow> m2 x = m1 x) \<Longrightarrow>
    fresh_message descs k m2 i b"
proof (induction k arbitrary: i b)
  case (Suc k)
  have "fresh_field (fresh_message descs k m2) m2 y" if y: "y \<in> set (layout (descs i) b)" for y
  proof -
    note ly = layout_fields [OF st pl y]
    have m2: "m2 c = m1 c" if "c \<in> bytes_of y" for c using Suc.prems(2) ly(4) that by blast
    have sub: "fresh_message descs k m2 j q"
      if j: "pf_ptr (fst y) = Ptr_fields j" and q: "{q..<q + pf_data_size (fst y)} \<subseteq> bytes_of y"
        and s: "fresh_message descs k m1 j q" for j q
    proof (rule Suc.IH [OF s m2])
      fix c assume "c \<in> {q..<q + msize j}"
      then show "c \<in> bytes_of y" using q layout_sub(1) [OF st pl y j] by (auto simp: subset_iff)
    qed
    have fresh: "fresh_field (fresh_message descs k m1) m1 y" using Suc.prems(1) y by (simp add: list_all_iff)
    show ?thesis by (rule fresh_field_frame [OF fresh m2 ly(3)]) (assumption | rule sub)+
  qed
  then show ?case by (simp add: list_all_iff)
qed simp

end
