(* ===== verification/Pb_Reads.thy ===== *)
theory Pb_Reads
  imports Pb_Same
begin

text \<open>
  What the decoder of nanopb does with an encoding, as a calculus: \<open>reads vw f bs m x m'\<close> says that the call,
  with the memory \<open>m\<close> and a stream whose next bytes are \<open>bs\<close>, returns \<open>x\<close>, takes these bytes and leaves the memory
  \<open>m'\<close>. The addresses written are among those the buffer of the stream stays clear of, by its view \<open>vw\<close>.
\<close>

section \<open>Calls that read\<close>

definition reads :: "'s view \<Rightarrow> ('s, 'h, 'a) dec \<Rightarrow> bytes \<Rightarrow> memory \<Rightarrow> 'a \<Rightarrow> memory \<Rightarrow> bool" where
  "reads vw f bs m x m' \<longleftrightarrow>
     (\<forall>d ys zs. pd_mem d = m \<longrightarrow> delivers vw m (pd_in d) (bs @ ys) zs \<longrightarrow>
        (\<exists>s. f d = Some (Some x, d\<lparr>pd_mem := m', pd_in := s\<rparr>) \<and> delivers vw m' s ys zs))"

lemma readsI:
  assumes "\<And>d ys zs. pd_mem d = m \<Longrightarrow> delivers vw m (pd_in d) (bs @ ys) zs \<Longrightarrow>
    \<exists>s. f d = Some (Some x, d\<lparr>pd_mem := m', pd_in := s\<rparr>) \<and> delivers vw m' s ys zs"
  shows "reads vw f bs m x m'"
  using assms by (simp add: reads_def)

lemma readsE:
  assumes "reads vw f bs m x m'" "pd_mem d = m" "delivers vw m (pd_in d) (bs @ ys) zs"
  obtains s where "f d = Some (Some x, d\<lparr>pd_mem := m', pd_in := s\<rparr>)" "delivers vw m' s ys zs"
  using assms unfolding reads_def by blast

lemma reads_bind:
  fixes f :: "('s, 'h, 'a) dec" and g :: "'a \<Rightarrow> ('s, 'h, 'b) dec"
  assumes f: "reads vw f bs m x m1" and g: "reads vw (g x) cs m1 y m2"
  shows "reads vw (call_bind f g) (bs @ cs) m y m2"
proof (rule readsI)
  fix d :: "('s, 'h) pb_dec" and ys zs
  assume d: "pd_mem d = m" "delivers vw m (pd_in d) ((bs @ cs) @ ys) zs"
  then have "delivers vw m (pd_in d) (bs @ (cs @ ys)) zs" by simp
  from readsE [OF f d(1) this] obtain s where
    1: "f d = Some (Some x, d\<lparr>pd_mem := m1, pd_in := s\<rparr>)" "delivers vw m1 s (cs @ ys) zs" by blast
  let ?d = "d\<lparr>pd_mem := m1, pd_in := s\<rparr>"
  have "pd_mem ?d = m1" "delivers vw m1 (pd_in ?d) (cs @ ys) zs" using 1(2) by simp_all
  from readsE [OF g this] obtain s' where
    "g x ?d = Some (Some y, ?d\<lparr>pd_mem := m2, pd_in := s'\<rparr>)" "delivers vw m2 s' ys zs" by blast
  then show "\<exists>s. call_bind f g d = Some (Some y, d\<lparr>pd_mem := m2, pd_in := s\<rparr>) \<and> delivers vw m2 s ys zs"
    using 1(1) by (intro exI [of _ s']) (simp add: call_bind_def)
qed

lemma reads_then: "reads vw f bs m x m1 \<Longrightarrow> reads vw (g x) [] m1 y m2 \<Longrightarrow> reads vw (call_bind f g) bs m y m2"
  using reads_bind [of vw f bs m x m1 g "[]" y m2] by simp

text \<open>A call that reads nothing.\<close>

lemma reads_pure:
  fixes f :: "('s, 'h, 'a) dec"
  assumes "\<And>d. pd_mem d = m \<Longrightarrow> f d = Some (Some x, d\<lparr>pd_mem := m'\<rparr>)" "\<And>a. a \<notin> snd vw \<Longrightarrow> m' a = m a"
  shows "reads vw f [] m x m'"
proof (rule readsI)
  fix d :: "('s, 'h) pb_dec" and ys zs
  assume d: "pd_mem d = m" "delivers vw m (pd_in d) ([] @ ys) zs"
  then have del: "delivers vw m' (pd_in d) ys zs" using assms(2) by (auto intro: delivers_mem [of vw m])
  have "d\<lparr>pd_mem := m', pd_in := pd_in d\<rparr> = d\<lparr>pd_mem := m'\<rparr>" by (cases d) simp
  then show "\<exists>s. f d = Some (Some x, d\<lparr>pd_mem := m', pd_in := s\<rparr>) \<and> delivers vw m' s ys zs"
    using assms(1) [OF d(1)] del by (intro exI [of _ "pd_in d"] conjI) simp_all
qed

lemma reads_return: "reads vw (call_op (op_return x)) [] m x m"
  by (rule reads_pure) (auto simp: call_op_def op_return_def)

lemma reads_status: "reads vw (call_status (Some x)) [] m x m"
  by (rule reads_pure) (auto simp: call_status_def)

lemma reads_stream:
  fixes g :: "memory \<Rightarrow> ('s pb_istream, 'a) op"
  assumes "\<And>s ys zs. delivers vw m s (bs @ ys) zs \<Longrightarrow> \<exists>s'. g m s = (Some x, s') \<and> delivers vw m s' ys zs"
  shows "reads vw (call_op (on_stream g) :: ('s, 'h, 'a) dec) bs m x m"
proof (rule readsI)
  fix d :: "('s, 'h) pb_dec" and ys zs
  assume d: "pd_mem d = m" "delivers vw m (pd_in d) (bs @ ys) zs"
  then obtain s' where "g m (pd_in d) = (Some x, s')" "delivers vw m s' ys zs" using assms by blast
  then show "\<exists>s. call_op (on_stream g) d = Some (Some x, d\<lparr>pd_mem := m, pd_in := s\<rparr>) \<and> delivers vw m s ys zs"
    using d(1) by (auto simp: call_op_def on_stream_def)
qed

lemma reads_update:
  "h m = m' \<Longrightarrow> (\<And>a. a \<notin> snd vw \<Longrightarrow> m' a = m a) \<Longrightarrow> reads vw (call_op (update_mem h)) [] m () m'"
  by (rule reads_pure) (auto simp: call_op_def update_mem_def)

lemma reads_pre:
  fixes f :: "('s, 'h, 'a) dec"
  assumes "reads vw f bs m1 x m2" "\<And>a. a \<notin> snd vw \<Longrightarrow> m1 a = m a"
    "\<And>d. pd_mem d = m \<Longrightarrow> f0 d = f (d\<lparr>pd_mem := m1\<rparr>)"
  shows "reads vw f0 bs m x m2"
proof (rule readsI)
  fix d :: "('s, 'h) pb_dec" and ys zs
  assume d: "pd_mem d = m" "delivers vw m (pd_in d) (bs @ ys) zs"
  then have "delivers vw m1 (pd_in d) (bs @ ys) zs" using delivers_mem [OF d(2)] assms(2) by blast
  then have "pd_mem (d\<lparr>pd_mem := m1\<rparr>) = m1" "delivers vw m1 (pd_in (d\<lparr>pd_mem := m1\<rparr>)) (bs @ ys) zs" by simp_all
  from readsE [OF assms(1) this] obtain s where
    "f (d\<lparr>pd_mem := m1\<rparr>) = Some (Some x, d\<lparr>pd_mem := m1\<rparr>\<lparr>pd_mem := m2, pd_in := s\<rparr>)" "delivers vw m2 s ys zs" by blast
  then show "\<exists>s. f0 d = Some (Some x, d\<lparr>pd_mem := m2, pd_in := s\<rparr>) \<and> delivers vw m2 s ys zs"
    using assms(3) [OF d(1)] by (intro exI [of _ s]) simp
qed

lemma wr_outside: "{a..<a + length bs} \<subseteq> R \<Longrightarrow> x \<notin> R \<Longrightarrow> wr m a bs x = m x"
  by (intro wr_out) (metis atLeastLessThan_iff not_le subsetD)

lemma reads_read_to:
  fixes vw :: "'s view"
  assumes "length bs = n" "{dest..<dest + n} \<subseteq> snd vw"
  shows "reads vw (call_op (read_to dest n) :: ('s, 'h, unit) dec) bs m () (wr m dest bs)"
proof (rule readsI)
  fix d :: "('s, 'h) pb_dec" and ys zs
  assume d: "pd_mem d = m" "delivers vw m (pd_in d) (bs @ ys) zs"
  obtain s where s: "pb_read m n (pd_in d) = (Some bs, s)" "delivers vw m s ys zs"
    using read_delivers [OF d(2) assms(1)] by blast
  have "delivers vw (wr m dest bs) s ys zs" using assms by (intro delivers_mem [OF s(2)] wr_outside) simp_all
  then show "\<exists>s. call_op (read_to dest n) d = Some (Some (), d\<lparr>pd_mem := wr m dest bs, pd_in := s\<rparr>) \<and>
      delivers vw (wr m dest bs) s ys zs"
    using s(1) d(1) by (intro exI [of _ s]) (simp add: call_op_def read_to_def on_stream_def)
qed

text \<open>A call that reads all of its stream.\<close>

definition reads_all :: "'s view \<Rightarrow> ('s, 'h, 'a) dec \<Rightarrow> bytes \<Rightarrow> memory \<Rightarrow> 'a \<Rightarrow> memory \<Rightarrow> bool" where
  "reads_all vw f bs m x m' \<longleftrightarrow>
     (\<forall>d zs. pd_mem d = m \<longrightarrow> delivers vw m (pd_in d) bs zs \<longrightarrow>
        (\<exists>s. f d = Some (Some x, d\<lparr>pd_mem := m', pd_in := s\<rparr>) \<and> delivers vw m' s [] zs))"

lemma reads_allI:
  assumes "\<And>d zs. pd_mem d = m \<Longrightarrow> delivers vw m (pd_in d) bs zs \<Longrightarrow>
    \<exists>s. f d = Some (Some x, d\<lparr>pd_mem := m', pd_in := s\<rparr>) \<and> delivers vw m' s [] zs"
  shows "reads_all vw f bs m x m'"
  using assms by (simp add: reads_all_def)

lemma reads_allE:
  assumes "reads_all vw f bs m x m'" "pd_mem d = m" "delivers vw m (pd_in d) bs zs"
  obtains s where "f d = Some (Some x, d\<lparr>pd_mem := m', pd_in := s\<rparr>)" "delivers vw m' s [] zs"
  using assms unfolding reads_all_def by blast

lemma reads_reads_all: "reads vw f bs m x m' \<Longrightarrow> reads_all vw f bs m x m'"
  unfolding reads_def reads_all_def by (metis append_Nil2)

lemma reads_all_bind:
  fixes f :: "('s, 'h, 'a) dec" and g :: "'a \<Rightarrow> ('s, 'h, 'b) dec"
  assumes f: "reads vw f bs m x m1" and g: "reads_all vw (g x) cs m1 y m2"
  shows "reads_all vw (call_bind f g) (bs @ cs) m y m2"
proof (rule reads_allI)
  fix d :: "('s, 'h) pb_dec" and zs
  assume d: "pd_mem d = m" "delivers vw m (pd_in d) (bs @ cs) zs"
  from readsE [OF f d] obtain s where
    1: "f d = Some (Some x, d\<lparr>pd_mem := m1, pd_in := s\<rparr>)" "delivers vw m1 s cs zs" by blast
  let ?d = "d\<lparr>pd_mem := m1, pd_in := s\<rparr>"
  have "pd_mem ?d = m1" "delivers vw m1 (pd_in ?d) cs zs" using 1(2) by simp_all
  from reads_allE [OF g this] obtain s' where
    "g x ?d = Some (Some y, ?d\<lparr>pd_mem := m2, pd_in := s'\<rparr>)" "delivers vw m2 s' [] zs" by blast
  then show "\<exists>s. call_bind f g d = Some (Some y, d\<lparr>pd_mem := m2, pd_in := s\<rparr>) \<and> delivers vw m2 s [] zs"
    using 1(1) by (intro exI [of _ s']) (simp add: call_bind_def)
qed

lemma reads_on_substream:
  fixes f :: "('s, 'h, 'a) dec"
  assumes f: "reads_all vw f bs m x m'" and d: "pd_mem d = m" "delivers vw m sub bs zs"
  obtains s where "on_substream sub f d = Some (Some (Some x, s), d\<lparr>pd_mem := m'\<rparr>)" "delivers vw m' s [] zs"
proof -
  have "pd_mem (d\<lparr>pd_in := sub\<rparr>) = m" "delivers vw m (pd_in (d\<lparr>pd_in := sub\<rparr>)) bs zs" using d by simp_all
  from reads_allE [OF f this] obtain s where s:
    "f (d\<lparr>pd_in := sub\<rparr>) = Some (Some x, d\<lparr>pd_in := sub\<rparr>\<lparr>pd_mem := m', pd_in := s\<rparr>)" "delivers vw m' s [] zs" by blast
  have "d\<lparr>pd_mem := m', pd_in := pd_in d\<rparr> = d\<lparr>pd_mem := m'\<rparr>" by (cases d) simp
  then show thesis using s that by (simp add: on_substream_def)
qed

lemma reads_with_substream:
  fixes f :: "('s, 'h, unit) dec"
  assumes f: "reads_all vw f bs m () m'" and l: "length bs < 2 ^ 32"
  shows "reads vw (with_substream f) (enc_string bs) m () m'"
proof (rule readsI)
  fix d :: "('s, 'h) pb_dec" and ys zs
  assume d: "pd_mem d = m" "delivers vw m (pd_in d) (enc_string bs @ ys) zs"
  obtain sub s1 where 1: "pb_make_string_substream m (pd_in d) = (Some sub, s1)" "delivers vw m sub bs (ys @ zs)"
    "is_left s1 = length ys"
    using make_substream_delivers [OF l d(2)] by blast
  obtain s2 where 2: "on_substream sub f (d\<lparr>pd_in := s1\<rparr>) = Some (Some (Some (), s2), d\<lparr>pd_in := s1\<rparr>\<lparr>pd_mem := m'\<rparr>)"
    "delivers vw m' s2 [] (ys @ zs)"
    using reads_on_substream [OF f _ 1(2), of "d\<lparr>pd_in := s1\<rparr>"] d(1) by auto
  obtain s3 where 3: "pb_close_string_substream m' s2 s1 = (Some (), s3)" "delivers vw m' s3 ys zs"
    using close_substream_delivers [OF 2(2) 1(3)] by blast
  show "\<exists>s. with_substream f d = Some (Some (), d\<lparr>pd_mem := m', pd_in := s\<rparr>) \<and> delivers vw m' s ys zs"
    using 1(1) 2(1) 3 d(1)
    by (intro exI [of _ s3]) (simp add: with_substream_def call_bind_def call_op_def on_stream_def call_status_def)
qed

section \<open>Numbers\<close>

lemma word_bytes_bits:
  assumes "length bs = n" "n \<le> 8" "\<And>k. k < 8 * n \<Longrightarrow> bit v k = bit (bytes_word bs) k"
  shows "take n (word_bytes v) = bs"
proof -
  have "take n (word_bytes v) = take n (word_bytes (bytes_word bs))"
  proof (rule nth_equalityI)
    fix i assume "i < length (take n (word_bytes v))"
    then have i: "i < n" "i < 8" using assms(2) by simp_all
    have "(ucast (drop_bit (8 * i) v) :: u8) = ucast (drop_bit (8 * i) (bytes_word bs))"
      using i assms(3) by (intro bit_word_eqI) (simp add: bit_simps)
    then show "take n (word_bytes v) ! i = take n (word_bytes (bytes_word bs)) ! i" using i by (simp add: word_bytes_def)
  qed simp
  then show ?thesis using word_bytes_word [OF assms(1,2)] by simp
qed

lemma int_size_le: "int_size n \<Longrightarrow> 0 < n \<and> n \<le> 8"
  by (auto simp: int_size_def)

lemma store_signed:
  assumes "int_size n"
  shows "store_le m q n (load_signed m' p n) = wr m q (rd m' p n)"
proof -
  have "take n (word_bytes (signed_take_bit (8 * n - 1) (bytes_word (rd m' p n)))) = rd m' p n"
  proof (rule word_bytes_bits)
    fix k assume "k < 8 * n"
    then have "k \<le> 8 * n - 1" "k < 64" using int_size_le [OF assms] by simp_all
    then show "bit (signed_take_bit (8 * n - 1) (bytes_word (rd m' p n))) k = bit (bytes_word (rd m' p n)) k"
      by (simp add: bit_signed_take_bit_iff min_absorb2 min_def)
  qed (use int_size_le [OF assms] in simp_all)
  then show ?thesis by (simp add: store_le_def load_signed_def load_le_def)
qed

lemma store_unsigned: "n \<le> 8 \<Longrightarrow> store_le m q n (load_le m' p n) = wr m q (rd m' p n)"
  by (simp add: store_le_def load_le_def word_bytes_word)

lemma clamp_load_signed:
  assumes "int_size n"
  shows "clamp_signed n (load_signed m p n) = load_signed m p n"
    "n \<noteq> 8 \<Longrightarrow> clamp_signed 4 (load_signed m p n) = load_signed m p n"
  using assms by (auto simp: clamp_signed_def load_signed_def int_size_def)

lemma clamp_load_unsigned: "n \<le> 8 \<Longrightarrow> clamp_unsigned n (load_le m p n) = load_le m p n"
  unfolding clamp_unsigned_def load_le_def
  by (rule bit_word_eqI) (auto simp: bit_simps bit_bytes_word)

lemma reads_varint: "reads vw (call_op (on_stream pb_decode_varint)) (enc_varint (unat v)) m v m"
proof (rule reads_stream)
  have "unat v < 2 ^ 64" using unsigned_less [of v, where 'a = nat] by simp
  then show "delivers vw m s (enc_varint (unat v) @ ys) zs \<Longrightarrow> \<exists>s'. pb_decode_varint m s = (Some v, s') \<and> delivers vw m s' ys zs" for s ys zs
    using decode_varint_enc by fastforce
qed

text \<open>A number is stored where it fits.\<close>

lemma store_outside: "{a..<a + n} \<subseteq> R \<Longrightarrow> x \<notin> R \<Longrightarrow> store_le m a n v x = m x"
  by (intro store_le_out) blast

lemma reads_store_checked:
  assumes "int_size n" "{q..<q + n} \<subseteq> snd vw" "clamp n v = v"
  shows "reads vw (call_op (store_checked n q clamp v)) [] m () (store_le m q n v)"
proof -
  have "reads vw (call_bind (call_op (update_mem (\<lambda>m. store_le m q n v))) (\<lambda>_. call_op (op_return ()))) [] m () (store_le m q n v)"
    using store_outside [OF assms(2)] by (intro reads_then [OF reads_update [OF refl]] reads_return) blast
  then show ?thesis
    using assms(1,3) unfolding store_checked_def int_size_def call_op_bind [symmetric] by simp
qed

lemma reads_stream_then:
  fixes k :: "'a \<Rightarrow> (('s, 'h) pb_dec, 'b) op"
  assumes "reads vw (call_op (on_stream g) :: ('s, 'h, 'a) dec) bs m v m" "reads vw (call_op (k v)) [] m x m'"
  shows "reads vw (call_op (op_bind (on_stream g) k)) bs m x m'"
  using reads_bind [of vw "call_op (on_stream g)" bs m v m "\<lambda>x. call_op (k x)" "[]" x m'] assms
  by (simp add: call_op_bind)

lemma reads_svarint: "reads vw (call_op (on_stream pb_decode_svarint)) (enc_varint (unat (zigzag v))) m v m"
proof (rule reads_stream)
  have "unat (zigzag v) < 2 ^ 64" using unsigned_less [of "zigzag v", where 'a = nat] by simp
  then show "delivers vw m s (enc_varint (unat (zigzag v)) @ ys) zs \<Longrightarrow>
      \<exists>s'. pb_decode_svarint m s = (Some v, s') \<and> delivers vw m s' ys zs" for s ys zs
    using decode_svarint_delivers [OF is_varint_enc length_enc_varint_64] by (fastforce simp: varint_val_enc)
qed

lemma reads_dec_varint:
  assumes "int_size (pf_data_size f)" "{q..<q + pf_data_size f} \<subseteq> snd vw"
  shows "reads vw (call_op (pb_dec_varint f q)) (enc_varint (unat (load_signed m' p (pf_data_size f)))) m ()
    (wr m q (rd m' p (pf_data_size f)))"
proof -
  let ?n = "pf_data_size f" and ?v = "load_signed m' p (pf_data_size f)"
  have "(if ?n = 8 then ?v else clamp_signed 4 ?v) = ?v" using clamp_load_signed(2) [OF assms(1)] by simp
  moreover have "reads vw (call_op (store_checked ?n q clamp_signed ?v)) [] m () (store_le m q ?n ?v)"
    by (intro reads_store_checked assms clamp_load_signed)
  ultimately show ?thesis
    unfolding pb_dec_varint_def store_signed [OF assms(1), symmetric]
    by (intro reads_stream_then [OF reads_varint]) simp
qed

lemma reads_dec_uvarint:
  assumes "int_size (pf_data_size f)" "{q..<q + pf_data_size f} \<subseteq> snd vw"
  shows "reads vw (call_op (pb_dec_uvarint f q)) (enc_varint (unat (load_le m' p (pf_data_size f)))) m ()
    (wr m q (rd m' p (pf_data_size f)))"
proof -
  have n: "pf_data_size f \<le> 8" using int_size_le [OF assms(1)] by simp
  show ?thesis
    unfolding pb_dec_uvarint_def store_unsigned [OF n, symmetric]
    by (intro reads_stream_then [OF reads_varint] reads_store_checked assms clamp_load_unsigned n)
qed

lemma reads_dec_svarint:
  assumes "int_size (pf_data_size f)" "{q..<q + pf_data_size f} \<subseteq> snd vw"
  shows "reads vw (call_op (pb_dec_svarint f q)) (enc_varint (unat (zigzag (load_signed m' p (pf_data_size f))))) m ()
    (wr m q (rd m' p (pf_data_size f)))"
  unfolding pb_dec_svarint_def store_signed [OF assms(1), symmetric]
  by (intro reads_stream_then [OF reads_svarint] reads_store_checked assms clamp_load_signed)

lemma store_bytes:
  "length bs = 4 \<Longrightarrow> store_le m q 4 (ucast (ucast (bytes_word bs) :: u32)) = wr m q bs"
  "length bs = 8 \<Longrightarrow> store_le m q 8 (bytes_word bs) = wr m q bs"
proof -
  assume l: "length bs = 4"
  have "take 4 (word_bytes (ucast (ucast (bytes_word bs) :: u32))) = bs"
    using l by (intro word_bytes_bits) (simp_all add: bit_simps)
  then show "store_le m q 4 (ucast (ucast (bytes_word bs) :: u32)) = wr m q bs" by (simp add: store_le_def)
next
  assume "length bs = 8"
  then show "store_le m q 8 (bytes_word bs) = wr m q bs" using word_bytes_word [of bs 8] by (simp add: store_le_def)
qed

lemma reads_dec_fixed32:
  assumes "length bs = 4" "{q..<q + 4} \<subseteq> snd vw"
  shows "reads vw (call_op (pb_dec_fixed32 q)) bs m () (wr m q bs)"
  unfolding pb_dec_fixed32_def store_bytes(1) [OF assms(1), symmetric]
  by (intro reads_stream_then [where v = "ucast (bytes_word bs)"] reads_stream reads_update refl store_outside [OF assms(2)]
    decode_fixed32_delivers assms(1))

lemma reads_dec_fixed64:
  assumes "length bs = 8" "{q..<q + 8} \<subseteq> snd vw"
  shows "reads vw (call_op (pb_dec_fixed64 q)) bs m () (wr m q bs)"
  unfolding pb_dec_fixed64_def store_bytes(2) [OF assms(1), symmetric]
  by (intro reads_stream_then [where v = "bytes_word bs"] reads_stream reads_update refl store_outside [OF assms(2)]
    decode_fixed64_delivers assms(1))

section \<open>Strings\<close>

lemma reads_length:
  "length bs < 2 ^ 32 \<Longrightarrow>
    reads vw (call_op (on_stream pb_decode_varint32)) (enc_varint (length bs)) m (word_of_nat (length bs)) m"
  by (intro reads_stream decode_varint32_enc)

lemma reads_string_then:
  fixes k :: "u32 \<Rightarrow> (('s, 'h) pb_dec, 'a) op"
  assumes "length bs < 2 ^ 32" "reads vw (call_op (k (word_of_nat (length bs)))) bs m x m'"
  shows "reads vw (call_op (op_bind (on_stream pb_decode_varint32) k)) (enc_string bs) m x m'"
proof -
  have "reads vw (call_op (on_stream pb_decode_varint32) :: ('s, 'h, u32) dec) (enc_varint (length bs)) m (word_of_nat (length bs)) m"
    by (rule reads_length [OF assms(1)])
  from reads_bind [OF this, of "\<lambda>x. call_op (k x)"] show ?thesis
    using assms(2) by (simp add: call_op_bind enc_string_def)
qed

lemma unat_length: "length bs < 2 ^ 32 \<Longrightarrow> unat (word_of_nat (length bs) :: u32) = length bs"
  by (simp add: unat_of_nat)

lemma reads_dec_bytes:
  fixes env :: "('s, 'h) pb_denv"
  assumes f: "pf_atype f = PB_ATYPE_STATIC" and n: "length bs + 4 \<le> pf_data_size f" "length bs < 2 ^ 32"
    and q: "{q..<q + pf_data_size f} \<subseteq> snd vw"
  shows "reads vw (call_op (pb_dec_bytes env f q)) (enc_string bs) m () (wr (store_size m q (length bs)) (q + 4) bs)"
  unfolding pb_dec_bytes_def
proof (rule reads_string_then [OF n(2)], goal_cases)
  case 1
  have w: "{q..<q + 4} \<subseteq> snd vw" "{q + 4..<q + 4 + length bs} \<subseteq> snd vw" using q n(1) by (force simp: subset_iff)+
  have z: "sz (length bs + 4) = length bs + 4" using n(2) by (intro sz_id) simp
  have u: "reads vw (call_op (update_mem (\<lambda>m. store_size m q (length bs))) :: ('s, 'h, unit) dec) [] m () (store_size m q (length bs))"
    unfolding store_size_def by (intro reads_update store_outside [OF w(1)] refl)
  have "reads vw (call_bind (call_op (update_mem (\<lambda>m. store_size m q (length bs)))) (\<lambda>_. call_op (read_to (q + 4) (length bs))) :: ('s, 'h, unit) dec)
      ([] @ bs) m () (wr (store_size m q (length bs)) (q + 4) bs)"
    by (intro reads_bind [OF u] reads_read_to w(2) refl)
  then show ?case
    using f n z by (simp add: Let_def unat_length op_bind_return call_op_bind)
qed

lemma reads_dec_string:
  fixes vw :: "'s view" and env :: "('s, 'h) pb_denv"
  assumes f: "pf_atype f = PB_ATYPE_STATIC" and n: "length bs < pf_data_size f" "length bs < 2 ^ 32 - 1"
    and q: "{q..<q + pf_data_size f} \<subseteq> snd vw"
  shows "reads vw (call_op (pb_dec_string env f q)) (enc_string bs) m () ((wr m q bs)(q + length bs := 0))"
proof -
  have l: "length bs < 2 ^ 32" using n(2) by simp
  have w: "{q..<q + length bs} \<subseteq> snd vw" "q + length bs \<in> snd vw" using q n(1) by (force simp: subset_iff)+
  have u: "unat (word_of_nat (length bs) + 1 :: u32) = length bs + 1"
    using n(2) by (simp add: unat_word_ariths unat_of_nat)
  let ?t = "\<lambda>dest (d :: ('s, 'h) pb_dec). let (status, d) = read_to dest (length bs) d in (status, d\<lparr>pd_mem := (pd_mem d)(dest + length bs := 0)\<rparr>)"
  have t: "reads vw (call_op (?t q)) bs m () ((wr m q bs)(q + length bs := 0))"
  proof (rule readsI)
    fix d :: "('s, 'h) pb_dec" and ys zs
    assume d: "pd_mem d = m" "delivers vw m (pd_in d) (bs @ ys) zs"
    from readsE [OF reads_read_to [OF refl w(1)] d] obtain s where
      s: "call_op (read_to q (length bs)) d = Some (Some (), d\<lparr>pd_mem := wr m q bs, pd_in := s\<rparr>)" "delivers vw (wr m q bs) s ys zs"
      by blast
    have "delivers vw ((wr m q bs)(q + length bs := 0)) s ys zs" using w(2) by (auto intro!: delivers_mem [OF s(2)])
    then show "\<exists>s. call_op (?t q) d = Some (Some (), d\<lparr>pd_mem := (wr m q bs)(q + length bs := 0), pd_in := s\<rparr>) \<and>
        delivers vw ((wr m q bs)(q + length bs := 0)) s ys zs"
      using s(1) by (intro exI [of _ s]) (simp add: call_op_def)
  qed
  show ?thesis
    unfolding pb_dec_string_def
    by (rule reads_string_then [OF l]) (use f n u t in \<open>simp add: Let_def unat_length [OF l] op_bind_return\<close>)
qed

lemma reads_dec_fixed_length:
  assumes "length bs = pf_data_size f" "length bs < 2 ^ 32" "{q..<q + pf_data_size f} \<subseteq> snd vw"
  shows "reads vw (call_op (pb_dec_fixed_length_bytes f q)) (enc_string bs) m () (wr m q bs)"
  unfolding pb_dec_fixed_length_bytes_def
proof (rule reads_string_then [OF assms(2)], cases "bs = []", goal_cases)
  case 1
  have "reads vw (call_op (update_mem (\<lambda>m. mem_zero m q 0))) [] m () m"
    by (intro reads_update) (simp_all add: mem_zero_def)
  then show ?case using 1 assms(1) by simp
next
  case 2
  have u: "unat (word_of_nat (pf_data_size f) :: u32) = pf_data_size f" using unat_length [OF assms(2)] assms(1) by simp
  moreover have "0 < pf_data_size f" using 2 assms(1) by (cases bs) auto
  ultimately have "(word_of_nat (pf_data_size f) :: u32) \<noteq> 0" by (metis unat_0 less_irrefl)
  moreover have "\<not> PB_SIZE_MAX < pf_data_size f" using assms by simp
  ultimately show ?case using assms reads_read_to [OF assms(1,3)] by (simp only: u if_False simp_thms)
qed

section \<open>Any value\<close>

lemma length_enc_string: "length bs < length (enc_string bs)"
  using enc_varint_ne [of "length bs"] by (simp add: enc_string_def)

lemma wr_elsewhere: "length bs \<le> n \<Longrightarrow> x \<notin> {q..<q + n} \<Longrightarrow> wr m q bs x = m x"
  by (rule wr_out) auto

lemma load_size_store: "n < 2 ^ 32 \<Longrightarrow> load_size (store_size m q n) q = n"
proof -
  have "bytes_word (take 4 (word_bytes v)) = take_bit 32 v" for v
    by (rule bit_word_eqI) (auto simp: bit_bytes_word word_bytes_def bit_simps)
  then show "n < 2 ^ 32 \<Longrightarrow> ?thesis"
    by (simp add: load_size_def load_le_def store_size_def store_le_def unat_take_bit unat_of_nat take_bit_nat_eq_self)
qed

lemma c_string_terminated:
  assumes "length c < n" "\<And>b. b \<in> set c \<Longrightarrow> b \<noteq> 0"
  shows "c_string ((wr m q c)(q + length c := 0)) q n = c"
proof -
  let ?m = "(wr m q c)(q + length c := 0)"
  obtain k where k: "n = length c + Suc k" using less_imp_Suc_add [OF assms(1)] by auto
  have "rd ?m q (length c) = c" by (rule nth_equalityI) auto
  moreover have "rd ?m (q + length c) (Suc k) = 0 # rd ?m (Suc (q + length c)) k" by (simp add: rd_Suc)
  ultimately have "rd ?m q (length c + Suc k) = c @ 0 # rd ?m (Suc (q + length c)) k"
    using rd_add [of ?m q "length c" "Suc k"] by presburger
  then show ?thesis using assms(2) unfolding c_string_def k by (simp add: takeWhile_append2)
qed

text \<open>Reading the encoding of a value writes a value that is the same.\<close>

lemma reads_value:
  fixes vw :: "'s view" and env :: "('s, 'h) pb_denv"
  assumes f: "field_ok msize rank r a s (f, d, z)" and q: "{q..<q + pf_data_size f} \<subseteq> snd vw" and p: "0 < p"
    and val: "ref_value rec m0 f p = Some (True, bs)" and len: "length bs < 2 ^ 32" and proper: "proper_value proper m0 f p"
    and sub: "\<And>j cs. pf_ptr f = Ptr_fields j \<Longrightarrow> rec j p = Some (True, cs) \<Longrightarrow> proper j p \<Longrightarrow> length cs < 2 ^ 32 \<Longrightarrow>
      \<exists>m'. reads_all vw (if pf_htype f = PB_HTYPE_REPEATED then decode j q else noinit j q) cs m () m' \<and>
        (\<forall>x. x \<notin> {q..<q + pf_data_size f} \<longrightarrow> m' x = m x) \<and> same m' j p q"
  shows "\<exists>m'. reads vw (PB_DECODERS env decode noinit f q) bs m () m' \<and>
    (\<forall>x. x \<notin> {q..<q + pf_data_size f} \<longrightarrow> m' x = m x) \<and> same_value (same m') m0 m' f p q"
proof -
  let ?n = "pf_data_size f" and ?dec = "PB_DECODERS env decode noinit f q"
  note st = field_ok_static [OF f subset_UNIV]
  have fixed: "pf_ltype f = 3 \<Longrightarrow> ?n = 4" "pf_ltype f = 4 \<Longrightarrow> ?n = 8" using f by (auto simp: field_ok_def)
  have copy: ?thesis
    if "reads vw ?dec bs m () (wr m q (rd m0 p ?n))" "pf_ltype f \<notin> {5, 6, 7}"
    using that wr_elsewhere [of "rd m0 p ?n" ?n]
    by (intro exI [of _ "wr m q (rd m0 p ?n)"]) (simp add: same_value_def Let_def)
  have int: "int_size ?n" "bs = enc_varint (unat v)" if "ref_int f v = Some (True, bs)" for v
    using that by (auto simp: ref_int_def produce_def refuse_def split: if_splits)
  show ?thesis
    using ltype_cases [OF st(3,2)]
  proof (elim disjE)
    assume t: "pf_ltype f = 0"
    then have "ref_int f (load_signed m0 p ?n) = Some (True, bs)" using val by (simp add: ref_value_def)
    note i = int [OF this]
    show ?thesis
      using reads_dec_varint [OF i(1) q] i(2) t by (intro copy) (simp_all add: PB_DECODERS_def)
  next
    assume t: "pf_ltype f = 1"
    then have "ref_int f (load_le m0 p ?n) = Some (True, bs)" using val by (simp add: ref_value_def)
    note i = int [OF this]
    show ?thesis
      using reads_dec_uvarint [OF i(1) q] i(2) t by (intro copy) (simp_all add: PB_DECODERS_def)
  next
    assume t: "pf_ltype f = 2"
    then have "ref_int f (zigzag (load_signed m0 p ?n)) = Some (True, bs)" using val by (simp add: ref_value_def)
    note i = int [OF this]
    show ?thesis
      using reads_dec_svarint [OF i(1) q] i(2) t by (intro copy) (simp_all add: PB_DECODERS_def)
  next
    assume t: "pf_ltype f = 3"
    then have "bs = rd m0 p 4" using val by (simp add: ref_value_def produce_def)
    then show ?thesis
      using t q fixed(1) reads_dec_fixed32 [of bs q vw m] by (intro copy) (simp_all add: PB_DECODERS_def)
  next
    assume t: "pf_ltype f = 4"
    then have "bs = rd m0 p 8" using val by (simp add: ref_value_def produce_def)
    then show ?thesis
      using t q fixed(2) reads_dec_fixed64 [of bs q vw m] by (intro copy) (simp_all add: PB_DECODERS_def)
  next
    assume t: "pf_ltype f = 9"
    then have "bs = enc_string (rd m0 p ?n)" using val by (simp add: ref_value_def produce_def)
    then show ?thesis
      using t q len reads_dec_fixed_length [of "rd m0 p ?n" f q vw m] length_enc_string [of "rd m0 p ?n"]
      by (intro copy) (simp_all add: PB_DECODERS_def)
  next
    assume t: "pf_ltype f = 5"
    define c where "c = rd m0 (p + 4) (load_size m0 p)"
    have c: "load_size m0 p + 4 \<le> ?n" "bs = enc_string c"
      using val t st(1) p by (auto simp: ref_value_def produce_def refuse_def c_def split: if_splits)
    have l: "length c < 2 ^ 32" "length c + 4 \<le> ?n" using c(1) load_size_less [of m0 p] by (simp_all add: c_def)
    let ?m = "wr (store_size m q (length c)) (q + 4) c"
    have "reads vw ?dec bs m () ?m"
      using reads_dec_bytes [OF st(1) l(2,1) q] t c(2) by (simp add: PB_DECODERS_def)
    moreover have "?m x = m x" if "x \<notin> {q..<q + ?n}" for x
    proof -
      have "?m x = store_size m q (length c) x" using that l(2) by (intro wr_out) auto
      also have "\<dots> = m x" using that l(2) unfolding store_size_def by (intro store_le_out) auto
      finally show ?thesis .
    qed
    moreover have "load_size ?m q = length c"
      using load_size_store [OF l(1)] load_size_cong [of q ?m "store_size m q (length c)"] wr_out by simp
    ultimately show ?thesis using t c(1) by (intro exI [of _ ?m]) (auto simp: same_value_def c_def)
  next
    assume t: "pf_ltype f = 6"
    define c where "c = c_string m0 p ?n"
    have c: "bs = enc_string c" "length c < ?n"
      using val t st(1) p proper by (auto simp: ref_value_def produce_def proper_value_def c_def split: if_splits)
    then have l: "length c < 2 ^ 32 - 1" using length_enc_string [of c] len by simp
    let ?m = "(wr m q c)(q + length c := 0)"
    have "reads vw ?dec bs m () ?m"
      using reads_dec_string [OF st(1) c(2) l q] t c(1) by (simp add: PB_DECODERS_def)
    moreover have "?m x = m x" if "x \<notin> {q..<q + ?n}" for x
      using that c(2) wr_elsewhere [of c ?n x q m] by auto
    moreover have "c_string ?m q ?n = c"
      by (rule c_string_terminated [OF c(2)]) (auto simp: c_def c_string_def dest: set_takeWhileD)
    ultimately show ?thesis using t by (intro exI [of _ ?m]) (auto simp: same_value_def c_def)
  next
    assume t: "pf_ltype f = 7"
    then obtain j where j: "pf_ptr f = Ptr_fields j" using field_ok_submessage [OF f] by blast
    then obtain cs where cs: "rec j p = Some (True, cs)" "bs = enc_string cs"
      using val t by (auto simp: ref_value_def nested_def split: if_splits)
    have l: "length cs < 2 ^ 32" using length_enc_string [of cs] cs(2) len by simp
    have "proper j p" using proper t j by (simp add: proper_value_def)
    then obtain m' where m': "reads_all vw (if pf_htype f = PB_HTYPE_REPEATED then decode j q else noinit j q) cs m () m'"
      "\<forall>x. x \<notin> {q..<q + ?n} \<longrightarrow> m' x = m x" "same m' j p q"
      using sub [OF j cs(1) _ l] by blast
    have "?dec = with_substream (if pf_htype f = PB_HTYPE_REPEATED then decode j q else noinit j q)"
      using t j by (simp add: PB_DECODERS_def pb_dec_submessage_def)
    then have "reads vw ?dec bs m () m'" using reads_with_substream [OF m'(1) l] cs(2) by simp
    moreover have "same_value (same m') m0 m' f p q" using m'(3) t j by (simp add: same_value_def)
    ultimately show ?thesis using m'(2) by blast
  qed
qed

end
