(* ===== verification/Pb_Fresh.thy ===== *)
theory Pb_Fresh
  imports Pb_Same
begin

text \<open>
  \<open>pb_message_set_to_defaults\<close> leaves a fresh struct and changes no other byte.
\<close>

text \<open>A change of the memory within \<open>R\<close> that comes back with \<open>Q\<close>.\<close>

definition sets :: "nat set \<Rightarrow> (memory \<Rightarrow> bool) \<Rightarrow> (memory \<Rightarrow> memory option) \<Rightarrow> bool" where
  "sets R Q f \<longleftrightarrow> (\<forall>m. \<exists>m'. f m = Some m' \<and> (\<forall>x. x \<notin> R \<longrightarrow> m' x = m x) \<and> Q m')"

lemma setsE:
  assumes "sets R Q f"
  obtains m' where "f m = Some m'" "\<And>x. x \<notin> R \<Longrightarrow> m' x = m x" "Q m'"
  using assms unfolding sets_def by blast

lemma fresh_value_zero:
  "pf_ltype f \<noteq> PB_LTYPE_SUBMESSAGE \<Longrightarrow> fresh_value fresh (mem_zero m d (pf_data_size f)) f d"
  by (simp add: fresh_value_def mem_zero_def)

text \<open>One field.\<close>

lemma sets_field:
  assumes f: "field_ok msize rank r a s (f, d, z)" and p: "plain_field (f, d, z)"
    and sub: "\<And>j. rank j < r \<Longrightarrow> sets {d..<d + msize j} (\<lambda>m. \<forall>k. fresh_message descs k m j d) (defaults j d)"
  shows "sets (bytes_of (f, d, z)) (\<lambda>m. \<forall>k. fresh_field (fresh_message descs k m) m (f, d, z)) (set_to_default defaults f d z)"
  unfolding sets_def
proof
  fix m
  note st = field_ok_static [OF f subset_UNIV]
  show "\<exists>m'. set_to_default defaults f d z m = Some m' \<and> (\<forall>x. x \<notin> bytes_of (f, d, z) \<longrightarrow> m' x = m x) \<and>
      (\<forall>k. fresh_field (fresh_message descs k m') m' (f, d, z))"
  proof (cases "pf_htype f = PB_HTYPE_REPEATED \<or> pf_htype f = PB_HTYPE_ONEOF")
    case True
    then have "x \<notin> {z..<z + 4}" if "x \<notin> bytes_of (f, d, z)" for x using bytes_of_value(3) [of f z d] that by blast
    then have "store_size m z 0 x = m x" if "x \<notin> bytes_of (f, d, z)" for x
      using that unfolding store_size_def by (intro store_le_out) blast
    moreover have "load_size (store_size m z 0) z = 0"
      by (simp add: load_size_def load_le_def store_size_def store_le_def word_bytes_def bytes_word_def upt_rec)
    ultimately show ?thesis
      using True st(1) by (intro exI [of _ "store_size m z 0"]) (auto simp: set_to_default_def fresh_field_def)
  next
    case False
    define flagged where "flagged \<longleftrightarrow> pf_htype f = PB_HTYPE_OPTIONAL \<and> pf_size_offset f \<noteq> 0"
    have zd: "pf_htype f = PB_HTYPE_OPTIONAL \<and> z \<noteq> d \<longleftrightarrow> flagged"
      using p by (auto simp: flagged_def plain_field_def size_bytes_def size_addr_def)
    define m1 where "m1 = (if flagged then m(z := 0) else m)"
    have d: "{d..<d + pf_data_size f} \<subseteq> bytes_of (f, d, z)"
      using bytes_of_value(1) [of d f z] False st(1) by (simp add: prev_size_def)
    have m1: "m1 x = m x" if "x \<notin> bytes_of (f, d, z)" for x
      using that bytes_of_value(2) [of f z d] by (auto simp: m1_def flagged_def)
    have z: "z \<notin> {d..<d + pf_data_size f}" if flagged
      using p that st(1) by (auto simp: flagged_def plain_field_def size_bytes_def apart_def prev_size_def)
    have fresh: "fresh_field (fresh_message descs k m') m' (f, d, z)"
      if "fresh_value (fresh_message descs k m') m' f d" "\<And>x. x \<notin> {d..<d + pf_data_size f} \<Longrightarrow> m' x = m1 x" for k m'
      using that(1) False htype_cases [of f] that(2) [OF z] by (auto simp: fresh_field_def flagged_def m1_def)
    have done': ?thesis
      if "set_to_default defaults f d z m = Some m'" "\<And>x. x \<notin> {d..<d + pf_data_size f} \<Longrightarrow> m' x = m1 x"
        "\<And>k. fresh_value (fresh_message descs k m') m' f d" for m'
    proof (intro exI [of _ m'] conjI allI impI)
      show "m' x = m x" if "x \<notin> bytes_of (f, d, z)" for x using m1 [OF that] that(1) d \<open>\<And>x. x \<notin> {d..<d + pf_data_size f} \<Longrightarrow> m' x = m1 x\<close> by (metis subsetD)
      show "fresh_field (fresh_message descs k m') m' (f, d, z)" for k by (rule fresh) (fact that)+
    qed (rule that(1))
    show ?thesis
    proof (cases "pf_ltype f = PB_LTYPE_SUBMESSAGE")
      case sm: True
      then obtain j where j: "pf_ptr f = Ptr_fields j" "msize j \<le> pf_data_size f" "rank j < r"
        using field_ok_submessage [OF f] by blast
      obtain m' where m': "defaults j d m1 = Some m'" "\<And>x. x \<notin> {d..<d + msize j} \<Longrightarrow> m' x = m1 x"
        "\<forall>k. fresh_message descs k m' j d"
        using setsE [OF sub [OF j(3)], of m1] by blast
      have "set_to_default defaults f d z m = Some m'"
        using False sm st(1) j(1) m'(1) unfolding set_to_default_def m1_def zd [symmetric] Let_def by (auto split: if_splits)
      then show ?thesis using m' j sm by (intro done' [of m']) (auto simp: fresh_value_def)
    next
      case ns: False
      then have np: "pf_ptr f \<noteq> Ptr_fields j" for j using field_ok_other [OF f] by blast
      have e: "set_to_default defaults f d z m = (case pf_ptr f of
          Ptr_null \<Rightarrow> Some (mem_zero m1 d (pf_data_size f))
        | Ptr_default bs \<Rightarrow> Some (wr m1 d (take (pf_data_size f) bs)) | Ptr_fields _ \<Rightarrow> None)"
        using False ns st(1) zd by (cases "pf_ptr f") (simp_all add: set_to_default_def Let_def m1_def)
      show ?thesis
      proof (cases "pf_ptr f")
        case Ptr_null
        then show ?thesis using e ns fresh_value_zero by (intro done' [of "mem_zero m1 d (pf_data_size f)"]) (auto intro: mem_zero_out)
      next
        case (Ptr_default bs)
        then have "\<not> (pf_htype f = PB_HTYPE_OPTIONAL \<and> pf_size_offset f = 0)" using p ns by (auto simp: plain_field_def)
        moreover have "wr m1 d (take (pf_data_size f) bs) x = m1 x" if "x \<notin> {d..<d + pf_data_size f}" for x
          using that by (intro wr_out) auto
        ultimately show ?thesis using e Ptr_default ns by (intro done' [of "wr m1 d (take (pf_data_size f) bs)"]) (auto simp: fresh_value_def)
      qed (use np in simp)
    qed
  qed
qed

text \<open>The fields of one union have one tag, and it is zero for all of them when it is for one.\<close>

lemma fresh_other:
  assumes xy: "parted x y" and x: "fresh_field fresh m x" and px: "pf_atype (fst x) = PB_ATYPE_STATIC"
    and out: "\<And>c. c \<notin> bytes_of y \<Longrightarrow> m' c = m c" and y: "fresh_field fresh'' m' y"
    and sub: "\<And>i q. pf_ptr (fst x) = Ptr_fields i \<Longrightarrow> {q..<q + pf_data_size (fst x)} \<subseteq> bytes_of x \<Longrightarrow>
      bytes_of x \<inter> bytes_of y = {} \<Longrightarrow> fresh i q \<Longrightarrow> fresh' i q"
  shows "fresh_field fresh' m' x"
proof (cases "same_union x y")
  case True
  then show ?thesis using x y by (auto simp: same_union_def fresh_field_def)
next
  case False
  then have d: "bytes_of x \<inter> bytes_of y = {}" using parted_disjoint [OF xy] by blast
  then have "m' c = m c" if "c \<in> bytes_of x" for c using out that by blast
  then show ?thesis by (rule fresh_field_frame [OF x _ px]) (assumption | rule sub d)+
qed

text \<open>The loop over the fields.\<close>

lemma sets_fields:
  assumes st: "static_messages descs msize rank" and pl: "plain_messages descs"
    and reset: "\<And>it. \<exists>i. it_at (descs j) a i it \<Longrightarrow> sets (bytes_of (it_entry it))
      (\<lambda>m. \<forall>k. fresh_field (fresh_message descs k m) m (it_entry it)) (reset it)"
  shows "it_at (descs j) a i it \<Longrightarrow> (\<forall>k. \<forall>x \<in> set (take i (layout (descs j) a)). fresh_field (fresh_message descs k m) m x) \<Longrightarrow>
    \<exists>m'. default_fields reset it m = Some m' \<and> (\<forall>x. x \<notin> {a..<a + msize j} \<longrightarrow> m' x = m x) \<and>
      (\<forall>k. list_all (fresh_field (fresh_message descs k m') m') (layout (descs j) a))"
proof (induction "length (descs j) - i" arbitrary: i it m rule: less_induct)
  case less
  let ?ls = "layout (descs j) a"
  have wf: "wf_fields (descs j)" using st by (simp add: static_messages_def)
  have i: "i < length ?ls" and e: "it_entry it = ?ls ! i" using less.prems(1) by (auto simp: it_at_def)
  have r: "sets (bytes_of (it_entry it)) (\<lambda>m. \<forall>k. fresh_field (fresh_message descs k m) m (it_entry it)) (reset it)"
    using reset less.prems(1) by blast
  obtain m1 where m1: "reset it m = Some m1" "\<And>x. x \<notin> bytes_of (?ls ! i) \<Longrightarrow> m1 x = m x"
    "\<forall>k. fresh_field (fresh_message descs k m1) m1 (?ls ! i)"
    using setsE [OF r, of m] unfolding e by blast
  have sorted: "sorted_wrt parted ?ls" using pl by (simp add: plain_messages_def)
  have before: "fresh_field (fresh_message descs k m1) m1 x" if x: "x \<in> set (take i ?ls)" for x k
  proof -
    obtain l where l: "l < i" "x = ?ls ! l" using x by (auto simp: in_set_conv_nth)
    then have p: "parted x (?ls ! i)" using sorted i by (simp add: sorted_wrt_iff_nth_less)
    have xin: "x \<in> set ?ls" using x by (rule in_set_takeD)
    note lx = layout_fields [OF st pl xin]
    have sub: "fresh_message descs k m1 u q"
      if u: "pf_ptr (fst x) = Ptr_fields u" "{q..<q + pf_data_size (fst x)} \<subseteq> bytes_of x"
        "bytes_of x \<inter> bytes_of (?ls ! i) = {}" "fresh_message descs k m u q" for u q
    proof (rule fresh_message_frame [OF st pl u(4) m1(2)])
      fix c assume "c \<in> {q..<q + msize u}"
      then have "c \<in> bytes_of x" using u(2) layout_sub(1) [OF st pl xin u(1)] by (auto simp: subset_iff)
      then show "c \<notin> bytes_of (?ls ! i)" using u(3) by blast
    qed
    have "fresh_field (fresh_message descs k m) m x" using less.prems(2) x by blast
    then show ?thesis
      by (rule fresh_other [OF p _ lx(3) m1(2) m1(3) [rule_format]]) (assumption | rule sub)+
  qed
  have upto: "\<forall>k. \<forall>x \<in> set (take (Suc i) ?ls). fresh_field (fresh_message descs k m1) m1 x"
    using before m1(3) i by (auto simp: take_Suc_conv_app_nth)
  have out: "m1 x = m x" if "x \<notin> {a..<a + msize j}" for x
    using that m1(2) layout_fields(4) [OF st pl nth_mem [OF i]] by blast
  obtain b it' where n: "pb_field_iter_next it = (b, it')" by (metis surj_pair)
  note next_at = iter_next_at [OF wf less.prems(1) n]
  show ?case
  proof (cases "Suc i < length (descs j) - 1")
    case True
    then have l: "length (descs j) - Suc i < length (descs j) - i" and at: "it_at (descs j) a (Suc i) it'"
      using next_at by simp_all
    obtain m' where m': "default_fields reset it' m1 = Some m'" "\<forall>x. x \<notin> {a..<a + msize j} \<longrightarrow> m' x = m1 x"
      "\<forall>k. list_all (fresh_field (fresh_message descs k m') m') ?ls"
      using less.hyps [OF l at upto] by blast
    then show ?thesis
      using True next_at n m1(1) out by (subst default_fields.simps) simp
  next
    case False
    then have "take (Suc i) ?ls = ?ls" by simp
    then show ?thesis
      using False next_at n m1(1) out upto by (subst default_fields.simps) (simp add: list_all_iff)
  qed
qed

lemma sets_begin:
  assumes st: "static_messages descs msize rank" and pl: "plain_messages descs"
    and reset: "\<And>it. \<exists>i. it_at (descs j) a i it \<Longrightarrow> sets (bytes_of (it_entry it))
      (\<lambda>m. \<forall>k. fresh_field (fresh_message descs k m) m (it_entry it)) (reset it)"
  shows "sets {a..<a + msize j} (\<lambda>m. \<forall>k. fresh_message descs k m j a)
    (\<lambda>m. case pb_field_iter_begin (descs j) a of (False, _) \<Rightarrow> Some m | (True, it) \<Rightarrow> default_fields reset it m)"
  unfolding sets_def
proof
  fix m
  have wf: "wf_fields (descs j)" using st by (simp add: static_messages_def)
  have all: "fresh_message descs k m' j a" if "\<forall>k. list_all (fresh_field (fresh_message descs k m') m') (layout (descs j) a)" for m' k
    using that by (cases k) simp_all
  obtain b it where b: "pb_field_iter_begin (descs j) a = (b, it)" by (metis surj_pair)
  show "\<exists>m'. (case pb_field_iter_begin (descs j) a of (False, _) \<Rightarrow> Some m | (True, it) \<Rightarrow> default_fields reset it m) = Some m' \<and>
      (\<forall>x. x \<notin> {a..<a + msize j} \<longrightarrow> m' x = m x) \<and> (\<forall>k. fresh_message descs k m' j a)"
  proof (cases b)
    case True
    then have at: "it_at (descs j) a 0 it" using iter_begin_at [OF wf b] by simp
    have "\<forall>k. \<forall>x \<in> set (take 0 (layout (descs j) a)). fresh_field (fresh_message descs k m) m x" by simp
    from sets_fields [OF st pl reset at this] obtain m' where
      "default_fields reset it m = Some m'" "\<forall>x. x \<notin> {a..<a + msize j} \<longrightarrow> m' x = m x"
      "\<forall>k. list_all (fresh_field (fresh_message descs k m') m') (layout (descs j) a)" by blast
    then show ?thesis using b True all by auto
  next
    case False
    then have "length (descs j) \<le> 1" using iter_begin_at(1) [OF wf b] by simp
    then have "layout (descs j) a = []" by (metis length_0_conv length_layout diff_is_0_eq)
    then show ?thesis using b False all by simp
  qed
qed

lemma sets_field_default:
  assumes st: "static_messages descs msize rank" and pl: "plain_messages descs"
  shows "rank j < n \<Longrightarrow> it_at (descs j) a i it \<Longrightarrow> sets (bytes_of (it_entry it))
    (\<lambda>m. \<forall>k. fresh_field (fresh_message descs k m) m (it_entry it)) (pb_field_set_to_default descs n it)"
proof (induction n arbitrary: j a i it)
  case (Suc n)
  have "it_entry it \<in> set (layout (descs j) a)"
    using Suc.prems(2) nth_mem [of i "layout (descs j) a"] by (auto simp: it_at_def)
  note l = layout_fields [OF st pl this]
  let ?defaults = "\<lambda>i dest m. case pb_field_iter_begin (descs i) dest of
      (False, _) \<Rightarrow> Some m | (True, it) \<Rightarrow> default_fields (pb_field_set_to_default descs n) it m"
  have "sets {d..<d + msize u} (\<lambda>m. \<forall>k. fresh_message descs k m u d) (?defaults u d)" if "rank u < rank j" for u d
    using that Suc.prems(1) by (intro sets_begin [OF st pl]) (auto intro!: Suc.IH [of u])
  then have "sets (bytes_of (it_entry it)) (\<lambda>m. \<forall>k. fresh_field (fresh_message descs k m) m (it_entry it))
      (set_to_default ?defaults (it_field it) (it_pData it) (it_pSize it))"
    by (intro sets_field [OF l(1,2)])
  moreover have "pb_field_set_to_default descs (Suc n) it =
      set_to_default ?defaults (it_field it) (it_pData it) (it_pSize it)"
    using field_ok_static(2) [OF l(1) subset_UNIV] by (simp add: fun_eq_iff)
  ultimately show ?case by simp
qed simp

lemma sets_defaults:
  assumes "static_messages descs msize rank" "plain_messages descs" "rank j < n"
  shows "sets {a..<a + msize j} (\<lambda>m. \<forall>k. fresh_message descs k m j a) (pb_message_set_to_defaults descs n j a)"
proof -
  have "pb_message_set_to_defaults descs n j a =
      (\<lambda>m. case pb_field_iter_begin (descs j) a of (False, _) \<Rightarrow> Some m
         | (True, it) \<Rightarrow> default_fields (pb_field_set_to_default descs n) it m)"
    by (simp add: pb_message_set_to_defaults_def fun_eq_iff)
  then show ?thesis
    using sets_field_default [OF assms(1,2,3)] by (auto intro!: sets_begin [OF assms(1,2)])
qed

end
