(* ===== verification/Pb_Read_Array.thy ===== *)
theory Pb_Read_Array
  imports Pb_Reads Pb_Fresh
begin

text \<open>
  Reading the encoding of one field: a value with its flag or tag, the entries of an array one by one or packed.
\<close>

section \<open>To every depth\<close>

definition agree :: "(nat \<Rightarrow> pb_field list) \<Rightarrow> memory \<Rightarrow> memory \<Rightarrow> nat \<Rightarrow> nat \<Rightarrow> nat \<Rightarrow> bool" where
  "agree descs m m' i a b \<longleftrightarrow> (\<forall>k. same_message descs k m m' i a b)"

definition blank :: "(nat \<Rightarrow> pb_field list) \<Rightarrow> memory \<Rightarrow> nat \<Rightarrow> nat \<Rightarrow> bool" where
  "blank descs m i a \<longleftrightarrow> (\<forall>k. fresh_message descs k m i a)"

lemma same_value_mono:
  "same_value same m m' f p q \<Longrightarrow> (\<And>i. same i p q \<Longrightarrow> same' i p q) \<Longrightarrow> same_value same' m m' f p q"
  by (cases "pf_ptr f") (auto simp: same_value_def Let_def split: if_splits)

lemma same_field_mono:
  assumes "same_field same m m' x y" "\<And>i p q. same i p q \<Longrightarrow> same' i p q"
  shows "same_field same' m m' x y"
proof -
  obtain f d z d' z' where xy: "x = (f, d, z)" "y = (f, d', z')" using assms(1) by (auto simp: same_field_def)
  have v: "same_value same' m m' f p q" if "same_value same m m' f p q" for p q
    using that assms(2) by (rule same_value_mono)
  show ?thesis
    using htype_cases [of f] assms(1) v unfolding xy by (elim disjE) (simp_all add: same_field_def list_all_iff, blast+)
qed

lemma agree_fields:
  assumes "list_all2 (same_field (agree descs m m') m m') (layout (descs i) a) (layout (descs i) b)"
  shows "agree descs m m' i a b"
  unfolding agree_def
proof
  fix k
  have "same_field (same_message descs n m m') m m' x y" if "same_field (agree descs m m') m m' x y" for n x y
    using that by (rule same_field_mono) (simp add: agree_def)
  then have "list_all2 (same_field (same_message descs n m m') m m') (layout (descs i) a) (layout (descs i) b)" for n
    using list.rel_mono_strong [OF assms] by blast
  then show "same_message descs k m m' i a b" by (cases k) simp_all
qed

lemma agree_frame:
  assumes "static_messages descs msize rank" "plain_messages descs" "agree descs m m1 i a b"
    "\<And>x. x \<in> {b..<b + msize i} \<Longrightarrow> m2 x = m1 x"
  shows "agree descs m m2 i a b"
  unfolding agree_def
proof
  fix k
  have "same_message descs k m m1 i a b" using assms(3) by (simp add: agree_def)
  then show "same_message descs k m m2 i a b" by (rule same_message_frame [OF assms(1,2)]) (rule assms(4))
qed

lemma blank_fields:
  assumes "blank descs m i a" "x \<in> set (layout (descs i) a)"
  shows "fresh_field (blank descs m) m x"
proof -
  have all: "fresh_field (fresh_message descs k m) m x" for k
  proof -
    have "fresh_message descs (Suc k) m i a" using assms(1) unfolding blank_def by blast
    then show ?thesis using assms(2) by (simp add: list_all_iff)
  qed
  obtain f d z where x: "x = (f, d, z)" by (metis surj_pair)
  have "fresh_value (blank descs m) m f d" if "\<And>k. fresh_value (fresh_message descs k m) m f d"
    using that unfolding fresh_value_def blank_def by (cases "pf_ptr f") (auto split: if_splits)
  then show ?thesis
    using all htype_cases [of f] unfolding x by (elim disjE) (simp_all add: fresh_field_def)
qed

lemma sets_blank:
  assumes "static_messages descs msize rank" "plain_messages descs" "rank j < n"
  obtains m' where "pb_message_set_to_defaults descs n j a m = Some m'" "\<And>x. x \<notin> {a..<a + msize j} \<Longrightarrow> m' x = m x"
    "blank descs m' j a"
  using setsE [OF sets_defaults [OF assms], where m = m] unfolding blank_def by metis

section \<open>One value\<close>

text \<open>What a decoder does for a value of the field \<open>f\<close>, wherever in \<open>R\<close> it goes.\<close>

definition value_reader ::
  "(nat \<Rightarrow> pb_field list) \<Rightarrow> (nat \<Rightarrow> nat \<Rightarrow> outcome) \<Rightarrow> (nat \<Rightarrow> nat \<Rightarrow> bool) \<Rightarrow> memory \<Rightarrow> 's view \<Rightarrow> nat set \<Rightarrow> pb_field \<Rightarrow>
   (nat \<Rightarrow> ('s, 'h, unit) dec) \<Rightarrow> bool" where
  "value_reader descs rec proper m0 vw R f func \<longleftrightarrow>
     (\<forall>p q m bs. ref_value rec m0 f p = Some (True, bs) \<longrightarrow> 0 < p \<longrightarrow> length bs < 2 ^ 32 \<longrightarrow> proper_value proper m0 f p \<longrightarrow>
        {q..<q + pf_data_size f} \<subseteq> R \<longrightarrow>
        (pf_ltype f = PB_LTYPE_SUBMESSAGE \<and> pf_htype f \<noteq> PB_HTYPE_REPEATED \<longrightarrow> fresh_value (blank descs m) m f q) \<longrightarrow>
        (\<exists>m'. reads vw (func q) bs m () m' \<and> (\<forall>x. x \<notin> {q..<q + pf_data_size f} \<longrightarrow> m' x = m x) \<and>
          same_value (agree descs m0 m') m0 m' f p q))"

lemma value_readerD:
  assumes "value_reader descs rec proper m0 vw R f func" "ref_value rec m0 f p = Some (True, bs)" "0 < p" "length bs < 2 ^ 32"
    "proper_value proper m0 f p" "{q..<q + pf_data_size f} \<subseteq> R"
    "pf_ltype f = PB_LTYPE_SUBMESSAGE \<Longrightarrow> pf_htype f \<noteq> PB_HTYPE_REPEATED \<Longrightarrow> fresh_value (blank descs m) m f q"
  shows "\<exists>m'. reads vw (func q) bs m () m' \<and> (\<forall>x. x \<notin> {q..<q + pf_data_size f} \<longrightarrow> m' x = m x) \<and>
    same_value (agree descs m0 m') m0 m' f p q"
  using assms unfolding value_reader_def by blast

text \<open>A value stays the same while its bytes do.\<close>

lemma agree_value_frame:
  assumes st: "static_messages descs msize rank" "plain_messages descs" and f: "(f, d, z) \<in> set (layout (descs i) a)"
    and v: "same_value (agree descs m0 m1) m0 m1 f p q" and m2: "\<And>x. x \<in> {q..<q + pf_data_size f} \<Longrightarrow> m2 x = m1 x"
  shows "same_value (agree descs m0 m2) m0 m2 f p q"
proof (rule same_value_frame [OF v m2])
  show "pf_ltype f = PB_LTYPE_BYTES \<Longrightarrow> 4 \<le> pf_data_size f"
    using layout_fields(2) [OF st f] by (simp add: plain_field_def)
next
  fix j assume j: "pf_ptr f = Ptr_fields j" "agree descs m0 m1 j p q"
  then have "msize j \<le> pf_data_size f" using layout_sub(1) [OF st f] by simp
  then show "agree descs m0 m2 j p q" using m2 by (intro agree_frame [OF st j(2)]) simp
qed

text \<open>The encoding of a value has at least one byte, and a tag before it has, too.\<close>

lemma ref_value_ne:
  assumes "ref_value rec m0 f p = Some (True, bs)"
  shows "bs \<noteq> []"
proof -
  have i: "ref_int f v = Some (True, xs) \<Longrightarrow> xs \<noteq> []" for v xs
    by (auto simp: ref_int_def produce_def refuse_def split: if_splits)
  have "enc_string xs \<noteq> []" for xs using length_enc_string [of xs] by auto
  then show ?thesis
    using assms i by (auto simp: ref_value_def produce_def refuse_def nested_def Let_def split: if_splits pb_ptr.splits option.splits)
qed

lemma seq_produceD:
  "seq (produce xs) r = Some (True, bs) \<Longrightarrow> \<exists>ys. r = Some (True, ys) \<and> bs = xs @ ys"
  by (auto simp: seq_def produce_def)

lemma seqD:
  "seq a b = Some (True, bs) \<Longrightarrow> \<exists>xs ys. a = Some (True, xs) \<and> b = Some (True, ys) \<and> bs = xs @ ys"
  by (auto simp: seq_def split: option.splits prod.splits bool.splits)

lemma nestedD: "nested r = Some (True, bs) \<Longrightarrow> \<exists>xs. r = Some (True, xs) \<and> bs = enc_string xs"
  by (auto simp: nested_def split: if_splits)

section \<open>Packed arrays\<close>

lemma reads_packed_loop:
  fixes func :: "nat \<Rightarrow> ('s, 'h, unit) dec" and vw :: "'s view"
  assumes st: "static_messages descs msize rank" "plain_messages descs" and f: "(f, d, y) \<in> set (layout (descs i) a)"
    and func: "value_reader descs rec proper m0 vw R f func" and R: "R \<subseteq> snd vw" and rep: "pf_htype f = PB_HTYPE_REPEATED"
    and c: "c \<le> pf_array_size f" "c < 2 ^ 32" and p: "0 < p"
    and proper: "\<And>i. i < c \<Longrightarrow> proper_value proper m0 f (p + pf_data_size f * i)"
    and q: "{q..<q + pf_data_size f * pf_array_size f} \<subseteq> R" and z: "{z..<z + 4} \<subseteq> snd vw"
    and apart: "apart q (pf_data_size f * pf_array_size f) z 4"
  shows "j + n = c \<Longrightarrow> ref_items (ref_value rec m0 f) (pf_data_size f) n (p + pf_data_size f * j) = Some (True, bs) \<Longrightarrow>
    length bs < k \<Longrightarrow> length bs < 2 ^ 32 \<Longrightarrow> load_size m z = j \<Longrightarrow>
    \<forall>i < j. same_value (agree descs m0 m) m0 m f (p + pf_data_size f * i) (q + pf_data_size f * i) \<Longrightarrow>
    \<exists>m'. reads_all vw (packed_loop func f (Size_at z) q k) bs m () m' \<and>
      (\<forall>x. x \<notin> {q..<q + pf_data_size f * pf_array_size f} \<and> x \<notin> {z..<z + 4} \<longrightarrow> m' x = m x) \<and> load_size m' z = c \<and>
      (\<forall>i < c. same_value (agree descs m0 m') m0 m' f (p + pf_data_size f * i) (q + pf_data_size f * i))"
proof (induction n arbitrary: j m bs k)
  case 0
  then have bs: "bs = []" "k \<noteq> 0" by (simp_all add: produce_def)
  then obtain k' where k: "k = Suc k'" by (cases k) auto
  have "reads_all vw (packed_loop func f (Size_at z) q k) [] m () m"
  proof (rule reads_allI)
    fix s :: "('s, 'h) pb_dec" and zs
    assume s: "pd_mem s = m" "delivers vw m (pd_in s) [] zs"
    then have "is_left (pd_in s) = 0" by (simp add: delivers_def)
    moreover have "s\<lparr>pd_mem := m, pd_in := pd_in s\<rparr> = s" using s(1) by (cases s) simp
    ultimately show "\<exists>t. packed_loop func f (Size_at z) q k s = Some (Some (), s\<lparr>pd_mem := m, pd_in := t\<rparr>) \<and> delivers vw m t [] zs"
      using s(2) k by (intro exI [of _ "pd_in s"]) simp
  qed
  then show ?case using 0 bs by (intro exI [of _ m]) simp
next
  case (Suc n)
  let ?n = "pf_data_size f" and ?N = "pf_data_size f * pf_array_size f"
  let ?q = "q + ?n * j"
  obtain xs ys where items: "ref_value rec m0 f (p + ?n * j) = Some (True, xs)"
    "ref_items (ref_value rec m0 f) ?n n (p + ?n * Suc j) = Some (True, ys)" "bs = xs @ ys"
    using seqD [OF Suc.prems(2) [unfolded ref_items.simps]] by (auto simp: algebra_simps)
  have j: "j < pf_array_size f" "j < c" using Suc.prems(1) c by simp_all
  have item: "{?q..<?q + ?n} \<subseteq> {q..<q + ?N}" by (rule item_subset [OF subset_refl j(1)])
  have l: "length xs < 2 ^ 32" using items(3) Suc.prems(4) by simp
  have "\<exists>m1. reads vw (func ?q) xs m () m1 \<and> (\<forall>x. x \<notin> {?q..<?q + ?n} \<longrightarrow> m1 x = m x) \<and>
      same_value (agree descs m0 m1) m0 m1 f (p + ?n * j) ?q"
    by (rule value_readerD [OF func items(1) _ l proper [OF j(2)] subset_trans [OF item q]]) (use p rep in simp_all)
  then obtain m1 where m1: "reads vw (func ?q) xs m () m1" "\<And>x. x \<notin> {?q..<?q + ?n} \<Longrightarrow> m1 x = m x"
    "same_value (agree descs m0 m1) m0 m1 f (p + ?n * j) ?q" by blast
  have zq: "x \<notin> {q..<q + ?N}" if "x \<in> {z..<z + 4}" for x using apart_disjoint [OF apart] that by blast
  have s1: "load_size m1 z = j"
  proof -
    have "m1 x = m x" if "x \<in> {z..<z + 4}" for x using zq [OF that] item by (intro m1(2)) blast
    then show ?thesis using load_size_cong [of z m1 m] Suc.prems(5) by blast
  qed
  define m2 where "m2 = store_size m1 z (j + 1)"
  have m2: "m2 x = m1 x" if "x \<notin> {z..<z + 4}" for x unfolding m2_def store_size_def by (rule store_le_out [OF that])
  have s2: "load_size m2 z = j + 1" using j(2) c(2) unfolding m2_def by (intro load_size_store) simp
  have before: "same_value (agree descs m0 m2) m0 m2 f (p + ?n * l) (q + ?n * l)" if l: "l < j + 1" for l
  proof (cases "l = j")
    case True
    have "m2 x = m1 x" if "x \<in> {?q..<?q + ?n}" for x using that item zq by (intro m2) blast
    then show ?thesis unfolding True by (rule agree_value_frame [OF st f m1(3)])
  next
    case False
    then have l: "l < j" using l by simp
    have sub: "{q + ?n * l..<q + ?n * l + ?n} \<subseteq> {q..<q + ?n * j}" by (rule item_subset [OF subset_refl l])
    have keep: "m2 x = m x" if "x \<in> {q..<q + ?n * j}" for x
    proof -
      have "?n * j \<le> ?N" using j(1) by (intro mult_le_mono2) simp
      then have "x \<in> {q..<q + ?N}" using that unfolding atLeastLessThan_iff by linarith
      then have "m2 x = m1 x" using zq by (intro m2) blast
      also have "\<dots> = m x" using that by (intro m1(2)) auto
      finally show ?thesis .
    qed
    have "same_value (agree descs m0 m) m0 m f (p + ?n * l) (q + ?n * l)" using Suc.prems(6) l by blast
    then show ?thesis by (rule agree_value_frame [OF st f]) (rule keep [OF subsetD [OF sub]])
  qed
  obtain k' where k: "k = Suc k'" using Suc.prems(3) by (cases k) auto
  have "xs \<noteq> []" by (rule ref_value_ne [OF items(1)])
  then have "length ys < k'" "length ys < 2 ^ 32" using Suc.prems(3,4) items(3) k by (cases xs; simp)+
  then obtain m3 where m3: "reads_all vw (packed_loop func f (Size_at z) q k') ys m2 () m3"
    "\<forall>x. x \<notin> {q..<q + ?N} \<and> x \<notin> {z..<z + 4} \<longrightarrow> m3 x = m2 x" "load_size m3 z = c"
    "\<forall>i < c. same_value (agree descs m0 m3) m0 m3 f (p + ?n * i) (q + ?n * i)"
    using Suc.IH [of "Suc j" ys k' m2] Suc.prems(1) items(2) s2 before by auto
  have "reads_all vw (packed_loop func f (Size_at z) q k) bs m () m3"
  proof (rule reads_allI)
    fix s :: "('s, 'h) pb_dec" and zs
    assume s: "pd_mem s = m" "delivers vw m (pd_in s) bs zs"
    have "delivers vw m (pd_in s) (xs @ ys) zs" using s(2) items(3) by simp
    from readsE [OF m1(1) s(1) this] obtain t where
      t: "func ?q s = Some (Some (), s\<lparr>pd_mem := m1, pd_in := t\<rparr>)" "delivers vw m1 t ys zs" by blast
    let ?s = "s\<lparr>pd_mem := m2, pd_in := t\<rparr>"
    have "delivers vw m2 t ys zs" using m2 z by (intro delivers_mem [OF t(2)]) blast
    then have "pd_mem ?s = m2" "delivers vw m2 (pd_in ?s) ys zs" by simp_all
    from reads_allE [OF m3(1) this] obtain u where
      u: "packed_loop func f (Size_at z) q k' ?s = Some (Some (), ?s\<lparr>pd_mem := m3, pd_in := u\<rparr>)" "delivers vw m3 u [] zs" by blast
    have "0 < is_left (pd_in s)" using s(2) items(3) \<open>xs \<noteq> []\<close> by (simp add: delivers_def)
    moreover have "put_count (Size_at z) (Suc j) (s\<lparr>pd_mem := m1, pd_in := t\<rparr>) = ?s"
      by (cases s) (simp add: put_count_def m2_def)
    ultimately have "packed_loop func f (Size_at z) q k s = packed_loop func f (Size_at z) q k' ?s"
      using t(1) j(1) s(1) Suc.prems(5) s1 by (simp add: k get_count_def)
    then show "\<exists>t. packed_loop func f (Size_at z) q k s = Some (Some (), s\<lparr>pd_mem := m3, pd_in := t\<rparr>) \<and> delivers vw m3 t [] zs"
      using u by (intro exI [of _ u]) simp
  qed
  moreover have "m3 x = m x" if "x \<notin> {q..<q + ?N} \<and> x \<notin> {z..<z + 4}" for x
  proof -
    have "m3 x = m2 x" using m3(2) that by blast
    also have "\<dots> = m1 x" using that by (intro m2) blast
    also have "\<dots> = m x" using that item by (intro m1(2)) blast
    finally show ?thesis .
  qed
  ultimately show ?case using m3(3,4) by blast
qed

end
