(* ===== verification/Pb_Same_Ref.thy ===== *)
theory Pb_Same_Ref
  imports Pb_Same
begin

text \<open>
  Structs that hold the same message have the same encoding, and a field that the encoder leaves out because it has its
  default value is the same as in a fresh struct.
\<close>

section \<open>Fields side by side\<close>

lemma layout_all2:
  assumes "\<And>x y. x \<in> set (layout fs a) \<Longrightarrow> y \<in> set (layout fs b) \<Longrightarrow> fst y = fst x \<Longrightarrow> R x y"
  shows "list_all2 R (layout fs a) (layout fs b)"
  unfolding list_all2_conv_all_nth
proof (intro conjI allI impI)
  fix i assume i: "i < length (layout fs a)"
  then have "fst (layout fs b ! i) = map fst (layout fs b) ! i" "fst (layout fs a ! i) = map fst (layout fs a) ! i"
    by (simp_all del: fst_layout)
  then have "fst (layout fs b ! i) = fst (layout fs a ! i)" by (simp only: fst_layout)
  then show "R (layout fs a ! i) (layout fs b ! i)" using i by (intro assms nth_mem) simp_all
qed simp

lemma layout_tag:
  assumes "static_messages descs msize rank" "x \<in> set (layout (descs i) a)"
  shows "0 < unat (pf_tag (fst x))"
proof -
  have "wf_fields (descs i)" using assms(1) by (simp add: static_messages_def)
  moreover have "fst x \<in> set (butlast (descs i))"
    using assms(2) fst_layout [of "descs i" a] by (metis image_eqI list.set_map)
  ultimately have "pf_tag (fst x) \<noteq> 0" by (auto simp: wf_fields_def list_all_iff)
  then show ?thesis by (simp add: unat_gt_0)
qed

lemma c_string_Nil: "0 < n \<Longrightarrow> c_string m p n = [] \<longleftrightarrow> m p = 0"
  by (cases n) (simp_all add: c_string_def rd_Suc)

lemma load_size_zero:
  assumes "rd m p n = replicate n 0" "4 \<le> n"
  shows "load_size m p = 0"
proof -
  have "take 4 (rd m p n) = take 4 (replicate n 0)" using assms(1) by simp
  then have "rd m p 4 = [0, 0, 0, 0]" using assms(2) by (simp add: min_absorb1 numeral_eq_Suc)
  then show ?thesis by (simp add: load_size_def load_le_def bytes_word_def)
qed

section \<open>Default values\<close>

lemma foldr_default:
  "foldr (\<lambda>(f, d, z) r. case g f d of None \<Rightarrow> None | Some False \<Rightarrow> Some False | Some True \<Rightarrow> r) ls (Some True) = Some True \<longleftrightarrow>
    (\<forall>(f, d, z) \<in> set ls. g f d = Some True)"
  by (induction ls) (auto split: option.splits bool.splits)

lemma default_same:
  assumes st: "static_messages descs msize rank" and pl: "plain_messages descs"
  shows "(f, d, z) \<in> set (layout (descs i) a) \<Longrightarrow> (f, d', z') \<in> set (layout (descs i) b) \<Longrightarrow>
    ref_default descs n m f d = Some True \<Longrightarrow> fresh_field (fresh_message descs k m') m' (f, d', z') \<Longrightarrow>
    same_field (same_message descs k m m') m m' (f, d, z) (f, d', z')"
proof (induction n arbitrary: f d z d' z' i a b k)
  case (Suc n)
  note lx = layout_fields [OF st pl Suc.prems(1)] and ly = layout_fields [OF st pl Suc.prems(2)]
  have z: "size_addr d f = z" "size_addr d' f = z'" using lx(2) ly(2) by (simp_all add: plain_field_def)
  have static: "pf_atype f = PB_ATYPE_STATIC" using lx(3) by simp
  have dflt: "ref_default descs (Suc n) m f d = Some True" by (rule Suc.prems)
  show ?case
    using htype_cases [of f]
  proof (elim disjE)
    assume "pf_htype f = 0x30"
    moreover have "0 < unat (pf_tag f)" using layout_tag [OF st Suc.prems(1)] by simp
    ultimately show ?thesis
      using dflt Suc.prems(4) by (auto simp: same_field_def fresh_field_def z Let_def)
  next
    assume opt: "pf_htype f = 0x10"
    show ?thesis
    proof (cases "pf_size_offset f = 0")
      case False
      then show ?thesis using opt dflt Suc.prems(4) by (simp add: same_field_def fresh_field_def z Let_def)
    next
      case True
      have fresh: "fresh_value (fresh_message descs k m') m' f d'"
        using Suc.prems(4) opt by (simp add: fresh_field_def)
      have "same_value (same_message descs k m m') m m' f d d'"
      proof (cases "pf_ltype f = PB_LTYPE_SUBMESSAGE")
        case sm: True
        then obtain j where j: "pf_ptr f = Ptr_fields j" using field_ok_submessage [OF lx(1)] by blast
        have all: "\<forall>(f, d, z) \<in> set (layout (descs j) d). ref_default descs n m f d = Some True"
          using dflt opt True static sm j by (simp add: z Let_def foldr_default)
        have "same_message descs k m m' j d d'"
        proof (cases k)
          case k: (Suc k')
          have "fresh_message descs k m' j d'" using fresh sm j by (simp add: fresh_value_def)
          then have fields: "list_all (fresh_field (fresh_message descs k' m') m') (layout (descs j) d')" by (simp add: k)
          show ?thesis
            unfolding k same_message.simps
          proof (rule layout_all2)
            fix x y assume x: "x \<in> set (layout (descs j) d)" and y: "y \<in> set (layout (descs j) d')" and e: "fst y = fst x"
            obtain g e1 z1 e2 z2 where xy: "x = (g, e1, z1)" "y = (g, e2, z2)" using e by (metis prod.collapse)
            show "same_field (same_message descs k' m m') m m' x y"
              using all fields x y unfolding xy by (intro Suc.IH) (auto simp: list_all_iff)
          qed
        qed simp
        then show ?thesis using sm j by (simp add: same_value_def)
      next
        case False
        then have zero: "rd m' d' (pf_data_size f) = replicate (pf_data_size f) 0"
          using fresh opt True by (simp add: fresh_value_def)
        have size: "pf_ltype f = PB_LTYPE_BYTES \<Longrightarrow> 4 \<le> pf_data_size f" "pf_ltype f = PB_LTYPE_STRING \<Longrightarrow> 0 < pf_data_size f"
          using lx(2) by (simp_all add: plain_field_def)
        have str: "c_string m' d' (pf_data_size f) = []"
          unfolding c_string_def zero by (simp add: takeWhile_eq_Nil_iff)
        have bytes: "pf_ltype f = PB_LTYPE_BYTES \<Longrightarrow> load_size m' d' = 0" using load_size_zero [OF zero] size(1) by blast
        have empty: "c_string m d (pf_data_size f) = []" if "m d = 0" "pf_ltype f = PB_LTYPE_STRING"
          using c_string_Nil [OF size(2) [OF that(2)]] that(1) by simp
        show ?thesis
          using dflt opt True static False zero str bytes size empty
          by (auto simp: same_value_def Let_def split: if_splits)
      qed
      then show ?thesis using opt True by (simp add: same_field_def)
    qed
  qed (use dflt Suc.prems(4) in \<open>simp_all add: same_field_def fresh_field_def z Let_def\<close>)
qed simp

lemma same_default:
  assumes st: "static_messages descs msize rank" and pl: "plain_messages descs"
  shows "(f, d, z) \<in> set (layout (descs i) a) \<Longrightarrow> (f, d', z') \<in> set (layout (descs i) b) \<Longrightarrow>
    same_field (same_message descs n m m') m m' (f, d, z) (f, d', z') \<Longrightarrow>
    ref_default descs n m' f d' = ref_default descs n m f d"
proof (induction n arbitrary: f d z d' z' i a b)
  case (Suc n)
  note lx = layout_fields [OF st pl Suc.prems(1)] and ly = layout_fields [OF st pl Suc.prems(2)]
  have z: "size_addr d f = z" "size_addr d' f = z'" using lx(2) ly(2) by (simp_all add: plain_field_def)
  have static: "pf_atype f = PB_ATYPE_STATIC" using lx(3) by simp
  show ?case
  proof (cases "pf_htype f = PB_HTYPE_OPTIONAL \<and> pf_size_offset f = 0")
    case False
    then show ?thesis
      using Suc.prems(3) htype_cases [of f] by (auto simp: same_field_def z Let_def)
  next
    case True
    then have v: "same_value (same_message descs (Suc n) m m') m m' f d d'"
      using Suc.prems(3) by (simp add: same_field_def del: same_message.simps)
    have str: "pf_ltype f = PB_LTYPE_STRING \<Longrightarrow> m' d' = 0 \<longleftrightarrow> m d = 0"
    proof -
      assume t: "pf_ltype f = PB_LTYPE_STRING"
      then have "0 < pf_data_size f" using lx(2) by (simp add: plain_field_def)
      note c_string_Nil [OF this, of m d] c_string_Nil [OF this, of m' d']
      then show ?thesis using v t by (simp add: same_value_def Let_def)
    qed
    show ?thesis
    proof (cases "pf_ltype f = PB_LTYPE_SUBMESSAGE")
      case sm: True
      then obtain j where j: "pf_ptr f = Ptr_fields j" using field_ok_submessage [OF lx(1)] by blast
      have l: "list_all2 (same_field (same_message descs n m m') m m') (layout (descs j) d) (layout (descs j) d')"
        using v sm j by (simp add: same_value_def)
      have "foldr (\<lambda>(f, d, z) r. case ref_default descs n m' f d of None \<Rightarrow> None | Some False \<Rightarrow> Some False | Some True \<Rightarrow> r) ys s =
          foldr (\<lambda>(f, d, z) r. case ref_default descs n m f d of None \<Rightarrow> None | Some False \<Rightarrow> Some False | Some True \<Rightarrow> r) xs s"
        if "list_all2 (same_field (same_message descs n m m') m m') xs ys"
          "set xs \<subseteq> set (layout (descs j) d)" "set ys \<subseteq> set (layout (descs j) d')" for xs ys s
        using that
      proof (induction xs ys rule: list_all2_induct)
        case (Cons x xs y ys)
        obtain g e1 z1 e2 z2 where xy: "x = (g, e1, z1)" "y = (g, e2, z2)"
          using Cons(1) by (auto simp: same_field_def)
        then have e: "ref_default descs n m' g e2 = ref_default descs n m g e1"
          using Cons by (intro Suc.IH [of g e1 z1 j d e2 z2 d']) auto
        have "foldr (\<lambda>(f, d, z) r. case ref_default descs n m' f d of None \<Rightarrow> None | Some False \<Rightarrow> Some False | Some True \<Rightarrow> r) ys s =
            foldr (\<lambda>(f, d, z) r. case ref_default descs n m f d of None \<Rightarrow> None | Some False \<Rightarrow> Some False | Some True \<Rightarrow> r) xs s"
          using Cons.prems by (intro Cons.IH) simp_all
        then show ?case by (simp only: xy e foldr.simps o_apply prod.case)
      qed simp
      from this [OF l] show ?thesis using True static sm j by (simp add: z Let_def)
    next
      case False
      then show ?thesis
        using True static v str by (auto simp: z Let_def same_value_def split: if_splits)
    qed
  qed
qed simp

section \<open>The encoding\<close>

lemma ref_items_cong:
  "(\<And>i. i < n \<Longrightarrow> h (q + step * i) = g (p + step * i)) \<Longrightarrow> ref_items h step n q = ref_items g step n p"
proof (induction n arbitrary: p q)
  case (Suc n)
  have "h q = g p" using Suc.prems [of 0] by simp
  moreover have "h (q + step + step * i) = g (p + step + step * i)" if "i < n" for i
    using Suc.prems [of "Suc i"] that by (simp add: add.assoc)
  then have "ref_items h step n (q + step) = ref_items g step n (p + step)" by (rule Suc.IH)
  ultimately show ?case by simp
qed simp

lemma same_ref_value:
  assumes "same_value same m m' f p q" "0 < p" "0 < q" "pf_atype f = PB_ATYPE_STATIC"
    and "\<And>i. same i p q \<Longrightarrow> rec' i q = rec i p"
    and "pf_ltype f = PB_LTYPE_FIXED32 \<Longrightarrow> pf_data_size f = 4" "pf_ltype f = PB_LTYPE_FIXED64 \<Longrightarrow> pf_data_size f = 8"
  shows "ref_value rec' m' f q = ref_value rec m f p"
proof (cases "pf_ltype f = PB_LTYPE_BYTES \<or> pf_ltype f = PB_LTYPE_STRING \<or> pf_ltype f = PB_LTYPE_SUBMESSAGE")
  case True
  then show ?thesis
    using assms by (auto simp: same_value_def ref_value_def Let_def split: pb_ptr.splits)
next
  case False
  then have r: "rd m' q (pf_data_size f) = rd m p (pf_data_size f)" using assms(1) by (simp add: same_value_def Let_def)
  then have "load_le m' q (pf_data_size f) = load_le m p (pf_data_size f)" by (simp add: load_le_def)
  moreover have "rd m' q 4 = rd m p 4" if "pf_ltype f = PB_LTYPE_FIXED32" using r assms(6) [OF that] by simp
  moreover have "rd m' q 8 = rd m p 8" if "pf_ltype f = PB_LTYPE_FIXED64" using r assms(7) [OF that] by simp
  ultimately show ?thesis using False r by (simp add: ref_value_def load_signed_def Let_def)
qed

lemma same_ref_field:
  assumes st: "static_messages descs msize rank" and pl: "plain_messages descs"
    and x: "(f, d, z) \<in> set (layout (descs i) a)" "(f, d', z') \<in> set (layout (descs i) b)" and pos: "0 < a" "0 < b"
    and same: "same_field (same_message descs n m m') m m' (f, d, z) (f, d', z')"
    and rec: "\<And>j p q. same_message descs n m m' j p q \<Longrightarrow> 0 < p \<Longrightarrow> 0 < q \<Longrightarrow> rec' j q = rec j p"
  shows "ref_basic (ref_default descs n m') rec' m' f d' = ref_basic (ref_default descs n m) rec m f d"
proof -
  note lx = layout_fields [OF st pl x(1)] and ly = layout_fields [OF st pl x(2)]
  have z: "size_addr d f = z" "size_addr d' f = z'" using lx(2) ly(2) by (simp_all add: plain_field_def)
  have static: "pf_atype f = PB_ATYPE_STATIC" using lx(3) by simp
  have d: "0 < d" "0 < d'" using lx(1) ly(1) pos by (simp_all add: field_ok_def within_def)
  have fixed: "pf_ltype f = PB_LTYPE_FIXED32 \<Longrightarrow> pf_data_size f = 4" "pf_ltype f = PB_LTYPE_FIXED64 \<Longrightarrow> pf_data_size f = 8"
    using lx(1) by (simp_all add: field_ok_def)
  have v: "ref_value rec' m' f q = ref_value rec m f p"
    if "same_value (same_message descs n m m') m m' f p q" "0 < p" "0 < q" for p q
    using that rec by (intro same_ref_value [OF that(1,2,3) static _ fixed]) blast+
  have dflt: "ref_default descs n m' f d' = ref_default descs n m f d" by (rule same_default [OF st pl x same])
  have array: "ref_array m' f d' c (ref_value rec' m' f) = ref_array m f d c (ref_value rec m f)"
    if s: "\<And>i. i < c \<Longrightarrow> same_value (same_message descs n m m') m m' f (d + pf_data_size f * i) (d' + pf_data_size f * i)" for c
  proof -
    have g: "ref_value rec' m' f (d' + pf_data_size f * i) = ref_value rec m f (d + pf_data_size f * i)" if "i < c" for i
      using d by (intro v s [OF that]) simp_all
    show ?thesis
      using static g unfolding ref_array_def
      by (intro if_cong refl arg_cong2 [where f = seq] arg_cong [where f = nested] ref_items_cong) simp_all
  qed
  have off: "pf_size_offset f \<noteq> 0" if "pf_htype f = PB_HTYPE_REPEATED \<or> pf_htype f = PB_HTYPE_ONEOF"
    using lx(2) that by (auto simp: plain_field_def size_bytes_def)
  show ?thesis
    using htype_cases [of f]
  proof (elim disjE)
    assume t: "pf_htype f = 0x20"
    then have "load_size m' z' = load_size m z"
      "\<And>i. i < load_size m z \<Longrightarrow> same_value (same_message descs n m m') m m' f (d + pf_data_size f * i) (d' + pf_data_size f * i)"
      using same by (simp_all add: same_field_def list_all_iff)
    then show ?thesis using t off static array by (simp add: ref_basic_def z Let_def)
  next
    assume t: "pf_htype f = 0x10"
    have "ref_value rec' m' f d' = ref_value rec m f d" if "\<not> (pf_size_offset f \<noteq> 0 \<and> m z = 0)"
      using same t that d by (intro v) (simp_all add: same_field_def)
    then show ?thesis using t same static dflt by (auto simp: ref_basic_def same_field_def z Let_def split: option.split)
  qed (use same static v d off in \<open>auto simp: ref_basic_def same_field_def z Let_def\<close>)
qed

lemma same_ref_message:
  assumes st: "static_messages descs msize rank" and pl: "plain_messages descs"
  shows "same_message descs n m m' i a b \<Longrightarrow> 0 < a \<Longrightarrow> 0 < b \<Longrightarrow>
    ref_message descs refs' n m' i b = ref_message descs refs n m i a"
proof (induction n arbitrary: i a b)
  case (Suc n)
  have l: "list_all2 (same_field (same_message descs n m m') m m') (layout (descs i) a) (layout (descs i) b)"
    using Suc.prems(1) by simp
  have "ref_fields (\<lambda>f d. if pf_ltype f = PB_LTYPE_EXTENSION then e' f d else ref_field refs' (ref_default descs n m') (ref_message descs refs' n m') m' f d) ys =
      ref_fields (\<lambda>f d. if pf_ltype f = PB_LTYPE_EXTENSION then e f d else ref_field refs (ref_default descs n m) (ref_message descs refs n m) m f d) xs"
    if "list_all2 (same_field (same_message descs n m m') m m') xs ys"
      "set xs \<subseteq> set (layout (descs i) a)" "set ys \<subseteq> set (layout (descs i) b)" for xs ys e e'
    using that
  proof (induction xs ys rule: list_all2_induct)
    case (Cons x xs y ys)
    obtain f d z d' z' where xy: "x = (f, d, z)" "y = (f, d', z')" using Cons(1) by (auto simp: same_field_def)
    have x: "(f, d, z) \<in> set (layout (descs i) a)" "(f, d', z') \<in> set (layout (descs i) b)"
      using Cons.prems by (simp_all add: xy)
    have ok: "pf_atype f = PB_ATYPE_STATIC" "pf_ltype f \<noteq> PB_LTYPE_EXTENSION"
      using field_ok_static [OF layout_fields(1) [OF st pl x(1)] subset_UNIV] by simp_all
    have "ref_basic (ref_default descs n m') (ref_message descs refs' n m') m' f d' =
        ref_basic (ref_default descs n m) (ref_message descs refs n m) m f d"
      using Cons(1) Suc.prems(2,3) Suc.IH by (intro same_ref_field [OF st pl x]) (simp_all add: xy)
    then show ?case using Cons ok by (simp add: ref_fields_def xy ref_field_def)
  qed (simp add: ref_fields_def)
  from this [OF l subset_refl subset_refl] show ?case by (simp only: ref_message.simps Let_def)
qed simp

end
