(* ===== verification/Pb_Read_Field.thy ===== *)
theory Pb_Read_Field
  imports Pb_Read_Array Pb_Same_Ref
begin

text \<open>
  Reading the encoding of one field of a static message. The tag may occur several times, once for every entry of an
  array that is not packed.
\<close>

section \<open>Occurrences\<close>

fun reads_each :: "'s view \<Rightarrow> ('s, 'h, unit) dec \<Rightarrow> bytes list \<Rightarrow> memory \<Rightarrow> memory \<Rightarrow> bool" where
  "reads_each vw f [] m m' \<longleftrightarrow> m' = m"
| "reads_each vw f (b # bs) m m' \<longleftrightarrow> (\<exists>m1. reads vw f b m () m1 \<and> reads_each vw f bs m1 m')"

definition field_reads :: "'s view \<Rightarrow> (nat \<Rightarrow> ('s, 'h, unit) dec) \<Rightarrow> pb_field \<Rightarrow> bytes \<Rightarrow> memory \<Rightarrow> memory \<Rightarrow> bool" where
  "field_reads vw D f bs m m' \<longleftrightarrow>
     (\<exists>wt bodies. wt < 8 \<and> bs = concat (map (\<lambda>b. enc_tag wt (pf_tag f) @ b) bodies) \<and> reads_each vw (D wt) bodies m m' \<and>
        (pf_htype f = PB_HTYPE_REQUIRED \<longrightarrow> length bodies = 1) \<and> (pf_htype f = PB_HTYPE_ONEOF \<longrightarrow> length bodies \<le> 1))"

lemma field_reads_skip: "pf_htype f \<noteq> PB_HTYPE_REQUIRED \<Longrightarrow> field_reads vw D f [] m m"
  unfolding field_reads_def by (intro exI [of _ "0 :: nat"] exI [of _ "[]"]) simp

lemma field_reads_one:
  "wt < 8 \<Longrightarrow> reads vw (D wt) body m () m' \<Longrightarrow> field_reads vw D f (enc_tag wt (pf_tag f) @ body) m m'"
  unfolding field_reads_def by (intro exI [of _ wt] exI [of _ "[body]"]) simp

lemma ref_oneD:
  assumes "seq (ref_tag f) r = Some (True, bs)"
  obtains wt body where "wt < 8" "bs = enc_tag wt (pf_tag f) @ body" "r = Some (True, body)" "field_wire f = Some wt"
proof -
  obtain xs body where x: "ref_tag f = Some (True, xs)" "r = Some (True, body)" "bs = xs @ body" using seqD [OF assms] by blast
  then obtain wt where wt: "field_wire f = Some wt" "xs = enc_tag wt (pf_tag f)"
    by (auto simp: ref_tag_def produce_def refuse_def split: option.splits)
  then have "wt < 8" by (auto simp: field_wire_def Let_def PB_WT_VARINT_def PB_WT_32BIT_def PB_WT_64BIT_def PB_WT_STRING_def split: if_splits)
  then show thesis using x wt that by blast
qed

section \<open>Before and after\<close>

text \<open>
  A field that has not been read, and one that has. The tag of a union may have been set for another of its fields already.
\<close>

definition pending_field :: "(nat \<Rightarrow> pb_field list) \<Rightarrow> memory \<Rightarrow> memory \<Rightarrow> pb_field \<times> nat \<times> nat \<Rightarrow> pb_field \<times> nat \<times> nat \<Rightarrow> bool" where
  "pending_field descs m0 m = (\<lambda>(f, p, z) (g, q, y). g = f \<and>
     (if pf_htype f = PB_HTYPE_ONEOF then load_size m y = 0 \<or> load_size m y = load_size m0 z
      else fresh_field (blank descs m) m (f, q, y)))"

definition read_field :: "(nat \<Rightarrow> pb_field list) \<Rightarrow> memory \<Rightarrow> memory \<Rightarrow> pb_field \<times> nat \<times> nat \<Rightarrow> pb_field \<times> nat \<times> nat \<Rightarrow> bool" where
  "read_field descs m0 m = (\<lambda>(f, p, z) (g, q, y). g = f \<and>
     (if pf_htype f = PB_HTYPE_ONEOF then
        (load_size m y = 0 \<or> load_size m y = load_size m0 z) \<and>
        (load_size m0 z = unat (pf_tag f) \<longrightarrow> load_size m y = load_size m0 z \<and> same_value (agree descs m0 m) m0 m f p q)
      else same_field (agree descs m0 m) m0 m (f, p, z) (f, q, y)))"

lemma blank_frame:
  assumes "static_messages descs msize rank" "plain_messages descs" "blank descs m1 i b"
    "\<And>x. x \<in> {b..<b + msize i} \<Longrightarrow> m2 x = m1 x"
  shows "blank descs m2 i b"
  unfolding blank_def
proof
  fix k
  have "fresh_message descs k m1 i b" using assms(3) by (simp add: blank_def)
  then show "fresh_message descs k m2 i b" by (rule fresh_message_frame [OF assms(1,2)]) (rule assms(4))
qed

lemma blank_value_frame:
  assumes st: "static_messages descs msize rank" "plain_messages descs" and f: "(f, d, z) \<in> set (layout (descs i) a)"
    and v: "fresh_value (blank descs m1) m1 f q" and m2: "\<And>x. x \<in> {q..<q + pf_data_size f} \<Longrightarrow> m2 x = m1 x"
  shows "fresh_value (blank descs m2) m2 f q"
proof (rule fresh_value_frame [OF v m2])
  fix j assume j: "pf_ptr f = Ptr_fields j" "blank descs m1 j q"
  then have "msize j \<le> pf_data_size f" using layout_sub(1) [OF st f] by simp
  then show "blank descs m2 j q" using m2 by (intro blank_frame [OF st j(2)]) simp
qed

section \<open>Packed arrays\<close>

lemma reads_decode_packed:
  fixes func :: "nat \<Rightarrow> ('s, 'h, unit) dec"
  assumes f: "reads_all vw (packed_loop func f loc q (length bs + 1)) bs m () m'" and l: "length bs < 2 ^ 32"
  shows "reads vw (decode_packed func f loc q) (enc_string bs) m () m'"
proof (rule readsI)
  fix d :: "('s, 'h) pb_dec" and ys zs
  assume d: "pd_mem d = m" "delivers vw m (pd_in d) (enc_string bs @ ys) zs"
  obtain sub s1 where 1: "pb_make_string_substream m (pd_in d) = (Some sub, s1)" "delivers vw m sub bs (ys @ zs)"
    "is_left s1 = length ys"
    using make_substream_delivers [OF l d(2)] by blast
  obtain s2 where 2: "on_substream sub (packed_loop func f loc q (length bs + 1)) (d\<lparr>pd_in := s1\<rparr>) =
      Some (Some (Some (), s2), d\<lparr>pd_in := s1\<rparr>\<lparr>pd_mem := m'\<rparr>)" "delivers vw m' s2 [] (ys @ zs)"
    using reads_on_substream [OF f _ 1(2), of "d\<lparr>pd_in := s1\<rparr>"] d(1) by auto
  obtain s3 where 3: "pb_close_string_substream m' s2 s1 = (Some (), s3)" "delivers vw m' s3 ys zs"
    using close_substream_delivers [OF 2(2) 1(3)] by blast
  have "is_left sub = length bs" "is_left s2 = 0" using 1(2) 2(2) by (simp_all add: delivers_def)
  then show "\<exists>s. decode_packed func f loc q d = Some (Some (), d\<lparr>pd_mem := m', pd_in := s\<rparr>) \<and> delivers vw m' s ys zs"
    using 1(1) 2(1) 3 d(1)
    by (intro exI [of _ s3]) (simp add: decode_packed_def call_bind_def call_op_def on_stream_def call_status_def del: packed_loop.simps)
qed

section \<open>Arrays entry by entry\<close>

lemma reads_entries:
  fixes func :: "nat \<Rightarrow> ('s, 'h, unit) dec" and vw :: "'s view"
  assumes st: "static_messages descs msize rank" "plain_messages descs" and f: "(f, d, y) \<in> set (layout (descs i) a)"
    and func: "value_reader descs rec proper m0 vw R f func" and rep: "pf_htype f = PB_HTYPE_REPEATED"
    and unpacked: "\<not> pf_ltype f \<le> PB_LTYPE_LAST_PACKABLE"
    and c: "c \<le> pf_array_size f" "c < 2 ^ 32" and p: "0 < p"
    and proper: "\<And>i. i < c \<Longrightarrow> proper_value proper m0 f (p + pf_data_size f * i)"
    and q: "{q..<q + pf_data_size f * pf_array_size f} \<subseteq> R" and z: "{z..<z + 4} \<subseteq> snd vw"
    and apart: "apart q (pf_data_size f * pf_array_size f) z 4" and wt: "field_wire f = Some wt"
  shows "j + n = c \<Longrightarrow>
    ref_items (\<lambda>p. seq (ref_tag f) (ref_value rec m0 f p)) (pf_data_size f) n (p + pf_data_size f * j) = Some (True, bs) \<Longrightarrow>
    length bs < 2 ^ 32 \<Longrightarrow> load_size m z = j \<Longrightarrow>
    \<forall>i < j. same_value (agree descs m0 m) m0 m f (p + pf_data_size f * i) (q + pf_data_size f * i) \<Longrightarrow>
    \<exists>bodies m'. bs = concat (map (\<lambda>b. enc_tag wt (pf_tag f) @ b) bodies) \<and>
      reads_each vw (decode_static_field env k func wt f q (Size_at z)) bodies m m' \<and>
      (\<forall>x. x \<notin> {q..<q + pf_data_size f * pf_array_size f} \<and> x \<notin> {z..<z + 4} \<longrightarrow> m' x = m x) \<and> load_size m' z = c \<and>
      (\<forall>i < c. same_value (agree descs m0 m') m0 m' f (p + pf_data_size f * i) (q + pf_data_size f * i))"
proof (induction n arbitrary: j m bs)
  case 0
  then show ?case by (intro exI [of _ "[]"] exI [of _ m]) (simp add: produce_def)
next
  case (Suc n)
  let ?n = "pf_data_size f" and ?N = "pf_data_size f * pf_array_size f" and ?D = "decode_static_field env k func wt f q (Size_at z)"
  let ?q = "q + ?n * j"
  obtain xs ys where items: "seq (ref_tag f) (ref_value rec m0 f (p + ?n * j)) = Some (True, xs)"
    "ref_items (\<lambda>p. seq (ref_tag f) (ref_value rec m0 f p)) ?n n (p + ?n * Suc j) = Some (True, ys)" "bs = xs @ ys"
    using seqD [OF Suc.prems(2) [unfolded ref_items.simps]] by (auto simp: algebra_simps)
  obtain body where body: "xs = enc_tag wt (pf_tag f) @ body" "ref_value rec m0 f (p + ?n * j) = Some (True, body)"
    using ref_oneD [OF items(1)] wt by (metis option.inject)
  have j: "j < pf_array_size f" "j < c" using Suc.prems(1) c by simp_all
  have item: "{?q..<?q + ?n} \<subseteq> {q..<q + ?N}" by (rule item_subset [OF subset_refl j(1)])
  have zq: "x \<notin> {q..<q + ?N}" if "x \<in> {z..<z + 4}" for x using apart_disjoint [OF apart] that by blast
  define m1 where "m1 = store_size m z (j + 1)"
  have m1: "m1 x = m x" if "x \<notin> {z..<z + 4}" for x unfolding m1_def store_size_def by (rule store_le_out [OF that])
  have s1: "load_size m1 z = j + 1" using j(2) c(2) unfolding m1_def by (intro load_size_store) simp
  have l: "length body < 2 ^ 32" using items(3) body(1) Suc.prems(3) by simp
  have "\<exists>m2. reads vw (func ?q) body m1 () m2 \<and> (\<forall>x. x \<notin> {?q..<?q + ?n} \<longrightarrow> m2 x = m1 x) \<and>
      same_value (agree descs m0 m2) m0 m2 f (p + ?n * j) ?q"
    by (rule value_readerD [OF func body(2) _ l proper [OF j(2)] subset_trans [OF item q]]) (use p rep in simp_all)
  then obtain m2 where m2: "reads vw (func ?q) body m1 () m2" "\<And>x. x \<notin> {?q..<?q + ?n} \<Longrightarrow> m2 x = m1 x"
    "same_value (agree descs m0 m2) m0 m2 f (p + ?n * j) ?q" by blast
  have D: "reads vw ?D body m () m2"
  proof (rule reads_pre [OF m2(1)])
    show "m1 x = m x" if "x \<notin> snd vw" for x using that z by (intro m1) blast
    show "?D s = func ?q (s\<lparr>pd_mem := m1\<rparr>)" if "pd_mem s = m" for s
      using that Suc.prems(4) j(1) rep unpacked
      by (simp add: decode_static_field_def is_packed_def get_count_def put_count_def m1_def)
  qed
  have s2: "load_size m2 z = j + 1"
  proof -
    have "m2 x = m1 x" if "x \<in> {z..<z + 4}" for x using zq [OF that] item by (intro m2(2)) blast
    then show ?thesis using load_size_cong [of z m2 m1] s1 by metis
  qed
  have before: "same_value (agree descs m0 m2) m0 m2 f (p + ?n * l) (q + ?n * l)" if l: "l < j + 1" for l
  proof (cases "l = j")
    case True
    then show ?thesis using m2(3) by simp
  next
    case False
    then have l: "l < j" using l by simp
    have sub: "{q + ?n * l..<q + ?n * l + ?n} \<subseteq> {q..<q + ?n * j}" by (rule item_subset [OF subset_refl l])
    have keep: "m2 x = m x" if "x \<in> {q..<q + ?n * j}" for x
    proof -
      have "?n * j \<le> ?N" using j(1) by (intro mult_le_mono2) simp
      then have "x \<in> {q..<q + ?N}" using that unfolding atLeastLessThan_iff by linarith
      then have "m1 x = m x" using zq by (intro m1) blast
      moreover have "m2 x = m1 x" using that by (intro m2(2)) auto
      ultimately show ?thesis by simp
    qed
    have "same_value (agree descs m0 m) m0 m f (p + ?n * l) (q + ?n * l)" using Suc.prems(5) l by blast
    then show ?thesis by (rule agree_value_frame [OF st f]) (rule keep [OF subsetD [OF sub]])
  qed
  have "length ys < 2 ^ 32" using items(3) Suc.prems(3) by simp
  then obtain bodies m3 where m3: "ys = concat (map (\<lambda>b. enc_tag wt (pf_tag f) @ b) bodies)" "reads_each vw ?D bodies m2 m3"
    "\<forall>x. x \<notin> {q..<q + ?N} \<and> x \<notin> {z..<z + 4} \<longrightarrow> m3 x = m2 x" "load_size m3 z = c"
    "\<forall>i < c. same_value (agree descs m0 m3) m0 m3 f (p + ?n * i) (q + ?n * i)"
    using Suc.IH [of "Suc j" ys m2] Suc.prems(1) items(2) s2 before by auto
  have "m3 x = m x" if "x \<notin> {q..<q + ?N} \<and> x \<notin> {z..<z + 4}" for x
  proof -
    have "m3 x = m2 x" using m3(3) that by blast
    also have "\<dots> = m1 x" using that item by (intro m2(2)) blast
    also have "\<dots> = m x" using that by (intro m1) blast
    finally show ?thesis .
  qed
  moreover have "reads_each vw ?D (body # bodies) m m3" using D m3(2) by auto
  moreover have "bs = concat (map (\<lambda>b. enc_tag wt (pf_tag f) @ b) (body # bodies))" using items(3) body(1) m3(1) by simp
  ultimately show ?case using m3(4,5) by blast
qed

section \<open>Any field\<close>

text \<open>What a field of the two structs has.\<close>

lemma entry_facts:
  assumes st: "static_messages descs msize rank" "plain_messages descs" and f: "(f, q, y) \<in> set (layout (descs i) b)"
  shows "size_addr q f = y" "pf_atype f = PB_ATYPE_STATIC" "b \<le> q"
    "pf_htype f \<noteq> PB_HTYPE_REPEATED \<Longrightarrow> {q..<q + pf_data_size f} \<subseteq> bytes_of (f, q, y)"
    "pf_htype f = PB_HTYPE_REPEATED \<Longrightarrow> prev_size f = pf_data_size f * pf_array_size f"
    "pf_htype f = PB_HTYPE_REPEATED \<Longrightarrow> apart q (pf_data_size f * pf_array_size f) y 4 \<and> pf_size_offset f \<noteq> 0"
    "pf_htype f = PB_HTYPE_ONEOF \<Longrightarrow> apart q (pf_data_size f) y 4 \<and> pf_size_offset f \<noteq> 0"
    "pf_htype f = PB_HTYPE_OPTIONAL \<Longrightarrow> pf_size_offset f \<noteq> 0 \<Longrightarrow> y \<noteq> q \<and> apart q (pf_data_size f) y 1"
    "pf_array_size f < 2 ^ 32" "0 < unat (pf_tag f)"
proof -
  note l = layout_fields [OF st f]
  show "size_addr q f = y" "pf_array_size f < 2 ^ 32" using l(2) by (simp_all add: plain_field_def)
  have c: "size_bytes f \<noteq> 0 \<Longrightarrow> pf_size_offset f \<noteq> 0 \<and> y \<noteq> q \<and> apart q (prev_size f) y (size_bytes f)"
    using l(2) unfolding plain_field_def prod.case by blast
  show s: "pf_atype f = PB_ATYPE_STATIC" using l(3) by simp
  show "b \<le> q" using l(1) by (simp add: field_ok_def within_def)
  show "pf_htype f \<noteq> PB_HTYPE_REPEATED \<Longrightarrow> {q..<q + pf_data_size f} \<subseteq> bytes_of (f, q, y)"
    using bytes_of_value(1) [of q f y] s by (simp add: prev_size_def)
  show "pf_htype f = PB_HTYPE_REPEATED \<Longrightarrow> prev_size f = pf_data_size f * pf_array_size f" using s by (simp add: prev_size_def)
  show "apart q (pf_data_size f * pf_array_size f) y 4 \<and> pf_size_offset f \<noteq> 0" if "pf_htype f = PB_HTYPE_REPEATED"
  proof -
    have "size_bytes f = 4" "prev_size f = pf_data_size f * pf_array_size f" using s that by (simp_all add: size_bytes_def prev_size_def)
    then show ?thesis using c by simp
  qed
  show "apart q (pf_data_size f) y 4 \<and> pf_size_offset f \<noteq> 0" if "pf_htype f = PB_HTYPE_ONEOF"
  proof -
    have "size_bytes f = 4" "prev_size f = pf_data_size f" using s that by (simp_all add: size_bytes_def prev_size_def)
    then show ?thesis using c by simp
  qed
  show "y \<noteq> q \<and> apart q (pf_data_size f) y 1" if "pf_htype f = PB_HTYPE_OPTIONAL" "pf_size_offset f \<noteq> 0"
  proof -
    have "size_bytes f = 1" "prev_size f = pf_data_size f" using s that by (simp_all add: size_bytes_def prev_size_def)
    then show ?thesis using c by simp
  qed
  show "0 < unat (pf_tag f)" using layout_tag [OF st(1) f] by simp
qed

lemma ref_packedD:
  assumes "ref_array m0 f p c g = Some (True, bs)" "c \<noteq> 0" "pf_ltype f \<le> PB_LTYPE_LAST_PACKABLE"
  obtains xs where "bs = enc_tag PB_WT_STRING (pf_tag f) @ enc_string xs" "ref_items g (pf_data_size f) c p = Some (True, xs)"
proof -
  have "seq (produce (enc_tag PB_WT_STRING (pf_tag f))) (nested (ref_items g (pf_data_size f) c p)) = Some (True, bs)"
    using assms by (auto simp: ref_array_def refuse_def split: if_splits)
  then obtain ys where ys: "nested (ref_items g (pf_data_size f) c p) = Some (True, ys)"
    "bs = enc_tag PB_WT_STRING (pf_tag f) @ ys" using seq_produceD by blast
  then show thesis using nestedD [OF ys(1)] that by blast
qed

lemma array_field:
  fixes func :: "nat \<Rightarrow> ('s, 'h, unit) dec" and vw :: "'s view"
  assumes st: "static_messages descs msize rank" "plain_messages descs"
    and x: "(f, p, z) \<in> set (layout (descs i) a)" "0 < a" and y: "(f, q, y) \<in> set (layout (descs i) b)"
    and R: "bytes_of (f, q, y) \<subseteq> snd vw" and func: "value_reader descs rec proper m0 vw (bytes_of (f, q, y)) f func"
    and ref: "ref_basic dflt rec m0 f p = Some (True, bs)" and len: "length bs < 2 ^ 32"
    and proper: "proper_field proper m0 ls (f, p, z)" and rep: "pf_htype f = PB_HTYPE_REPEATED" and count: "load_size m y = 0"
  shows "\<exists>m'. field_reads vw (\<lambda>wt. decode_static_field env k func wt f q (Size_at y)) f bs m m' \<and>
    (\<forall>c. c \<notin> bytes_of (f, q, y) \<longrightarrow> m' c = m c) \<and> same_field (agree descs m0 m') m0 m' (f, p, z) (f, q, y)"
proof -
  note ex = entry_facts [OF st x(1)] and ey = entry_facts [OF st y]
  let ?n = "pf_data_size f" and ?c = "load_size m0 z" and ?D = "\<lambda>wt. decode_static_field env k func wt f q (Size_at y)"
  have p: "0 < p" using ex(3) x(2) by simp
  have arr: "ref_array m0 f p ?c (ref_value rec m0 f) = Some (True, bs)"
    using ref rep ex(1,2) ex(6) [OF rep] by (simp add: ref_basic_def Let_def)
  have regions: "{q..<q + ?n * pf_array_size f} \<subseteq> bytes_of (f, q, y)" "{y..<y + 4} \<subseteq> bytes_of (f, q, y)"
    using bytes_of_value(1) [of q f y] bytes_of_value(3) [of f y q] rep ey(5) by simp_all
  have ys: "{y..<y + 4} \<subseteq> snd vw" and apart: "apart q (?n * pf_array_size f) y 4" using regions(2) R ey(6) [OF rep] by auto
  have c: "?c \<noteq> 0 \<Longrightarrow> ?c \<le> pf_array_size f" "?c < 2 ^ 32"
    using arr ex(2) load_size_less by (auto simp: ref_array_def refuse_def split: if_splits)
  have pr: "proper_value proper m0 f (p + ?n * l)" if "l < ?c" for l
    using proper rep that by (simp add: proper_field_def list_all_iff)
  have out: "\<forall>c. c \<notin> bytes_of (f, q, y) \<longrightarrow> m' c = m c"
    if "\<forall>x. x \<notin> {q..<q + ?n * pf_array_size f} \<and> x \<notin> {y..<y + 4} \<longrightarrow> m' x = m x" for m'
    using that regions by blast
  have same: "same_field (agree descs m0 m') m0 m' (f, p, z) (f, q, y)"
    if "load_size m' y = ?c" "?c \<le> pf_array_size f" "\<forall>i < ?c. same_value (agree descs m0 m') m0 m' f (p + ?n * i) (q + ?n * i)" for m'
    using that rep by (simp add: same_field_def list_all_iff)
  consider "?c = 0" | (packed) "?c \<noteq> 0" "pf_ltype f \<le> PB_LTYPE_LAST_PACKABLE" | (each) "?c \<noteq> 0" "\<not> pf_ltype f \<le> PB_LTYPE_LAST_PACKABLE"
    by blast
  then show ?thesis
  proof cases
    case 1
    then have "bs = []" using arr by (simp add: ref_array_def produce_def)
    moreover have "field_reads vw ?D f [] m m" by (rule field_reads_skip) (simp add: rep)
    moreover have "same_field (agree descs m0 m) m0 m (f, p, z) (f, q, y)" using 1 count by (intro same) simp_all
    ultimately show ?thesis by blast
  next
    case packed
    obtain xs where xs: "bs = enc_tag PB_WT_STRING (pf_tag f) @ enc_string xs" "ref_items (ref_value rec m0 f) ?n ?c p = Some (True, xs)"
      using ref_packedD [OF arr packed] by blast
    have l: "length xs < 2 ^ 32" using xs(1) len length_enc_string [of xs] by simp
    have "\<exists>m'. reads_all vw (packed_loop func f (Size_at y) q (length xs + 1)) xs m () m' \<and>
        (\<forall>x. x \<notin> {q..<q + ?n * pf_array_size f} \<and> x \<notin> {y..<y + 4} \<longrightarrow> m' x = m x) \<and> load_size m' y = ?c \<and>
        (\<forall>i < ?c. same_value (agree descs m0 m') m0 m' f (p + ?n * i) (q + ?n * i))"
      by (rule reads_packed_loop [OF st x(1) func R rep c(1) [OF packed(1)] c(2) p pr regions(1) ys apart, of 0 ?c])
        (use xs(2) l count in simp_all)
    then obtain m' where m': "reads_all vw (packed_loop func f (Size_at y) q (length xs + 1)) xs m () m'"
      "\<forall>x. x \<notin> {q..<q + ?n * pf_array_size f} \<and> x \<notin> {y..<y + 4} \<longrightarrow> m' x = m x" "load_size m' y = ?c"
      "\<forall>i < ?c. same_value (agree descs m0 m') m0 m' f (p + ?n * i) (q + ?n * i)" by blast
    have "?D PB_WT_STRING = decode_packed func f (Size_at y) q"
      using rep packed(2) by (simp add: decode_static_field_def is_packed_def fun_eq_iff)
    then have "reads vw (?D PB_WT_STRING) (enc_string xs) m () m'" using reads_decode_packed [OF m'(1) l] by simp
    then have "field_reads vw ?D f bs m m'" unfolding xs(1) by (intro field_reads_one) (simp_all add: PB_WT_STRING_def)
    then show ?thesis using out [OF m'(2)] same [OF m'(3) c(1) [OF packed(1)] m'(4)] by blast
  next
    case each
    have items: "ref_items (\<lambda>p. seq (ref_tag f) (ref_value rec m0 f p)) ?n ?c p = Some (True, bs)"
      using arr each ex(2) by (auto simp: ref_array_def refuse_def split: if_splits)
    obtain c' where "?c = Suc c'" using each(1) by (cases ?c) auto
    then have "\<exists>xs. seq (ref_tag f) (ref_value rec m0 f p) = Some (True, xs)" using items seqD by fastforce
    then obtain wt where wt: "field_wire f = Some wt" "wt < 8" using ref_oneD by metis
    have "\<exists>bodies m'. bs = concat (map (\<lambda>b. enc_tag wt (pf_tag f) @ b) bodies) \<and> reads_each vw (?D wt) bodies m m' \<and>
        (\<forall>x. x \<notin> {q..<q + ?n * pf_array_size f} \<and> x \<notin> {y..<y + 4} \<longrightarrow> m' x = m x) \<and> load_size m' y = ?c \<and>
        (\<forall>i < ?c. same_value (agree descs m0 m') m0 m' f (p + ?n * i) (q + ?n * i))"
      by (rule reads_entries [OF st x(1) func rep each(2) c(1) [OF each(1)] c(2) p pr regions(1) ys apart wt(1), of 0 ?c])
        (use items len count in simp_all)
    then obtain bodies m' where m': "bs = concat (map (\<lambda>b. enc_tag wt (pf_tag f) @ b) bodies)" "reads_each vw (?D wt) bodies m m'"
      "\<forall>x. x \<notin> {q..<q + ?n * pf_array_size f} \<and> x \<notin> {y..<y + 4} \<longrightarrow> m' x = m x" "load_size m' y = ?c"
      "\<forall>i < ?c. same_value (agree descs m0 m') m0 m' f (p + ?n * i) (q + ?n * i)" by blast
    have "field_reads vw ?D f bs m m'" unfolding field_reads_def using m'(1,2) wt(2) rep by auto
    then show ?thesis using out [OF m'(3)] same [OF m'(4) c(1) [OF each(1)] m'(5)] by blast
  qed
qed

text \<open>A single value, by its rule.\<close>

lemma read_required:
  fixes func :: "nat \<Rightarrow> ('s, 'h, unit) dec" and vw :: "'s view"
  assumes func: "value_reader descs rec proper m0 vw R f func" and R: "{q..<q + pf_data_size f} \<subseteq> R" and p: "0 < p"
    and ref: "ref_basic dflt rec m0 f p = Some (True, bs)" and f: "pf_atype f = PB_ATYPE_STATIC" and len: "length bs < 2 ^ 32"
    and proper: "proper_field proper m0 ls (f, p, z)" and req: "pf_htype f = PB_HTYPE_REQUIRED"
    and fresh: "fresh_field (blank descs m) m (f, q, y)"
  shows "\<exists>m'. field_reads vw (\<lambda>wt. decode_static_field env k func wt f q (Size_at y)) f bs m m' \<and>
    (\<forall>c. c \<notin> {q..<q + pf_data_size f} \<longrightarrow> m' c = m c) \<and> same_field (agree descs m0 m') m0 m' (f, p, z) (f, q, y)"
proof -
  let ?D = "\<lambda>wt. decode_static_field env k func wt f q (Size_at y)"
  have "seq (ref_tag f) (ref_value rec m0 f p) = Some (True, bs)" using ref req f p by (simp add: ref_basic_def Let_def)
  then obtain wt body where b: "wt < 8" "bs = enc_tag wt (pf_tag f) @ body" "ref_value rec m0 f p = Some (True, body)"
    by (rule ref_oneD)
  have l: "length body < 2 ^ 32" using b(2) len by simp
  have pr: "proper_value proper m0 f p" using proper req by (simp add: proper_field_def)
  have "fresh_value (blank descs m) m f q" using fresh req by (simp add: fresh_field_def)
  then obtain m' where m': "reads vw (func q) body m () m'" "\<forall>x. x \<notin> {q..<q + pf_data_size f} \<longrightarrow> m' x = m x"
    "same_value (agree descs m0 m') m0 m' f p q"
    using value_readerD [OF func b(3) p l pr R] by blast
  have "?D wt = func q" using req by (simp add: decode_static_field_def fun_eq_iff)
  then have "field_reads vw ?D f bs m m'" unfolding b(2) using m'(1) by (intro field_reads_one b(1)) simp
  then show ?thesis using m'(2,3) req by (auto simp: same_field_def)
qed

lemma read_optional:
  fixes func :: "nat \<Rightarrow> ('s, 'h, unit) dec" and vw :: "'s view"
  assumes st: "static_messages descs msize rank" "plain_messages descs"
    and x: "(f, p, z) \<in> set (layout (descs i) a)" "0 < a" and y: "(f, q, y) \<in> set (layout (descs i) b)"
    and R: "bytes_of (f, q, y) \<subseteq> snd vw" and func: "value_reader descs rec proper m0 vw (bytes_of (f, q, y)) f func"
    and ref: "ref_basic (ref_default descs n m0) rec m0 f p = Some (True, bs)" and len: "length bs < 2 ^ 32"
    and proper: "proper_field proper m0 ls (f, p, z)" and opt: "pf_htype f = PB_HTYPE_OPTIONAL"
    and fresh: "fresh_field (blank descs m) m (f, q, y)"
  shows "\<exists>m'. field_reads vw (\<lambda>wt. decode_static_field env k func wt f q (Size_at y)) f bs m m' \<and>
    (\<forall>c. c \<notin> bytes_of (f, q, y) \<longrightarrow> m' c = m c) \<and> same_field (agree descs m0 m') m0 m' (f, p, z) (f, q, y)"
proof (cases "bs = []")
  note ex = entry_facts [OF st x(1)] and ey = entry_facts [OF st y]
  let ?D = "\<lambda>wt. decode_static_field env k func wt f q (Size_at y)" and ?n = "pf_data_size f"
  have p: "0 < p" using ex(3) x(2) by simp
  have sent: "seq (ref_tag f) (ref_value rec m0 f p) = Some (True, bs)" "\<not> (pf_size_offset f \<noteq> 0 \<and> m0 z = 0)" if "bs \<noteq> []"
    using ref that opt ex(1,2) by (auto simp: ref_basic_def Let_def produce_def split: if_splits option.splits)
  have skipped: "if pf_size_offset f \<noteq> 0 then m0 z = 0 else ref_default descs n m0 f p = Some True" if "bs = []"
  proof -
    have "seq (ref_tag f) (ref_value rec m0 f p) \<noteq> Some (True, [])"
      using ref_oneD [of f "ref_value rec m0 f p" "[]"] ref_value_ne by (metis append_is_Nil_conv)
    then show ?thesis
      using ref that opt ex(1,2) by (auto simp: ref_basic_def Let_def split: if_splits option.splits)
  qed
  {
    case True
    have "same_field (agree descs m0 m) m0 m (f, p, z) (f, q, y)"
    proof (cases "pf_size_offset f = 0")
      case unflagged: True
      then have d: "ref_default descs n m0 f p = Some True" using skipped True by simp
      have "same_value (same_message descs l m0 m) m0 m f p q" for l
      proof -
        have "fresh_value (fresh_message descs l m) m f q"
          using fresh opt by (cases "pf_ptr f") (auto simp: fresh_field_def fresh_value_def blank_def split: if_splits)
        then have "fresh_field (fresh_message descs l m) m (f, q, y)" using opt unflagged by (simp add: fresh_field_def)
        from default_same [OF st x(1) y d this] show ?thesis using opt unflagged by (simp add: same_field_def)
      qed
      then have "same_value (agree descs m0 m) m0 m f p q"
        by (cases "pf_ptr f") (auto simp: same_value_def agree_def Let_def split: if_splits)
      then show ?thesis using opt unflagged by (simp add: same_field_def)
    next
      case False
      then show ?thesis using skipped True fresh opt by (simp add: same_field_def fresh_field_def)
    qed
    moreover have "field_reads vw ?D f bs m m" unfolding True by (rule field_reads_skip) (simp add: opt)
    ultimately show ?thesis by blast
  next
    case False
    obtain wt body where b: "wt < 8" "bs = enc_tag wt (pf_tag f) @ body" "ref_value rec m0 f p = Some (True, body)"
      using ref_oneD [OF sent(1) [OF False]] by metis
    have l: "length body < 2 ^ 32" using b(2) len by simp
    have pr: "proper_value proper m0 f p" using proper opt sent(2) [OF False] by (simp add: proper_field_def)
    define m1 where "m1 = (if y \<noteq> q then m(y := 1) else m)"
    have flag: "y \<noteq> q \<longleftrightarrow> pf_size_offset f \<noteq> 0" using ey(1,8) opt by (auto simp: size_addr_def)
    have y_out: "y \<notin> {q..<q + ?n}" if "y \<noteq> q" using ey(8) [OF opt] that flag by (auto simp: apart_def)
    have Rv: "{q..<q + ?n} \<subseteq> bytes_of (f, q, y)" using ey(4) opt by simp
    have yin: "y \<in> bytes_of (f, q, y)" if "y \<noteq> q" using bytes_of_value(2) [OF opt] that flag by blast
    have m1: "m1 c = m c" if "c \<in> {q..<q + ?n} \<or> c \<notin> bytes_of (f, q, y)" for c using that y_out yin by (auto simp: m1_def)
    have "fresh_value (blank descs m) m f q" using fresh opt by (simp add: fresh_field_def)
    then have "fresh_value (blank descs m1) m1 f q" by (rule blank_value_frame [OF st x(1)]) (use m1 in blast)
    then obtain m' where m': "reads vw (func q) body m1 () m'" "\<forall>c. c \<notin> {q..<q + ?n} \<longrightarrow> m' c = m1 c"
      "same_value (agree descs m0 m') m0 m' f p q"
      using value_readerD [OF func b(3) p l pr Rv] by blast
    have "reads vw (?D wt) body m () m'"
    proof (rule reads_pre [OF m'(1)])
      show "m1 c = m c" if "c \<notin> snd vw" for c using that R by (intro m1) blast
      show "?D wt s = func q (s\<lparr>pd_mem := m1\<rparr>)" if "pd_mem s = m" for s
        using that opt by (auto simp: decode_static_field_def m1_def)
    qed
    then have "field_reads vw ?D f bs m m'" unfolding b(2) by (rule field_reads_one [OF b(1)])
    moreover have "m' c = m c" if "c \<notin> bytes_of (f, q, y)" for c
    proof -
      have "c \<notin> {q..<q + ?n}" using that Rv by blast
      then show ?thesis using m'(2) m1 [of c] that by simp
    qed
    moreover have "pf_size_offset f \<noteq> 0 \<longrightarrow> m' y = 1" using m'(2) y_out flag by (auto simp: m1_def)
    then have "same_field (agree descs m0 m') m0 m' (f, p, z) (f, q, y)"
      using m'(3) opt sent(2) [OF False] by (auto simp: same_field_def)
    ultimately show ?thesis by blast
  }
qed

lemma read_oneof:
  fixes func :: "nat \<Rightarrow> ('s, 'h, unit) dec" and vw :: "'s view" and env :: "('s, 'h) pb_denv"
  assumes st: "static_messages (de_fields env) msize rank" "plain_messages (de_fields env)"
    and x: "(f, p, z) \<in> set (layout (de_fields env i) a)" "0 < a" and y: "(f, q, y) \<in> set (layout (de_fields env i) b)"
    and R: "bytes_of (f, q, y) \<subseteq> snd vw" and k: "rank i \<le> k"
    and func: "value_reader (de_fields env) rec proper m0 vw (bytes_of (f, q, y)) f func"
    and ref: "ref_basic dflt rec m0 f p = Some (True, bs)" and len: "length bs < 2 ^ 32"
    and proper: "proper_field proper m0 ls (f, p, z)" and one: "pf_htype f = PB_HTYPE_ONEOF"
    and pend: "pending_field (de_fields env) m0 m (f, p, z) (f, q, y)"
  shows "\<exists>m'. field_reads vw (\<lambda>wt. decode_static_field env k func wt f q (Size_at y)) f bs m m' \<and>
    (\<forall>c. c \<notin> bytes_of (f, q, y) \<longrightarrow> m' c = m c) \<and> read_field (de_fields env) m0 m' (f, p, z) (f, q, y)"
proof (cases "load_size m0 z = unat (pf_tag f)")
  case False
  note ex = entry_facts [OF st x(1)]
  have "bs = []" using ref False one ex(1,2) ex(7) [OF one] by (simp add: ref_basic_def Let_def produce_def)
  moreover have "field_reads vw (\<lambda>wt. decode_static_field env k func wt f q (Size_at y)) f [] m m"
    by (rule field_reads_skip) (simp add: one)
  ultimately show ?thesis using pend one False by (intro exI [of _ m]) (simp add: read_field_def pending_field_def)
next
  case True
  note ex = entry_facts [OF st x(1)] and ey = entry_facts [OF st y]
  let ?D = "\<lambda>wt. decode_static_field env k func wt f q (Size_at y)" and ?n = "pf_data_size f"
  have p: "0 < p" using ex(3) x(2) by simp
  have "seq (ref_tag f) (ref_value rec m0 f p) = Some (True, bs)"
    using ref True one ex(1,2) ex(7) [OF one] by (simp add: ref_basic_def Let_def)
  then obtain wt body where b: "wt < 8" "bs = enc_tag wt (pf_tag f) @ body" "ref_value rec m0 f p = Some (True, body)"
    by (rule ref_oneD)
  have l: "length body < 2 ^ 32" using b(2) len by simp
  have pr: "proper_value proper m0 f p" using proper one True by (simp add: proper_field_def)
  have Rv: "{q..<q + ?n} \<subseteq> bytes_of (f, q, y)" "{y..<y + 4} \<subseteq> bytes_of (f, q, y)"
    using ey(4) bytes_of_value(3) one by simp_all
  have apart: "{q..<q + ?n} \<inter> {y..<y + 4} = {}" using apart_disjoint ey(7) [OF one] by blast
  define m1 where "m1 = store_size m y (unat (pf_tag f))"
  have m1: "m1 c = m c" if "c \<notin> {y..<y + 4}" for c unfolding m1_def store_size_def by (rule store_le_out [OF that])
  have "unat (pf_tag f) < 2 ^ 32" using unsigned_less [of "pf_tag f", where 'a = nat] by simp
  then have s1: "load_size m1 y = unat (pf_tag f)" unfolding m1_def by (rule load_size_store)
  have "\<exists>m2. reads vw (?D wt) body m () m2 \<and> (\<forall>c. c \<notin> {q..<q + ?n} \<longrightarrow> m2 c = m1 c) \<and> same_value (agree (de_fields env) m0 m2) m0 m2 f p q"
  proof (cases "pf_ltype f = PB_LTYPE_SUBMESSAGE")
    case sm: True
    then obtain j where j: "pf_ptr f = Ptr_fields j" "msize j \<le> ?n" "rank j < rank i"
      using field_ok_submessage [OF layout_fields(1) [OF st y]] by blast
    define m2 where "m2 = mem_zero m1 q ?n"
    have m2: "m2 c = m1 c" if "c \<notin> {q..<q + ?n}" for c unfolding m2_def by (rule mem_zero_out [OF that])
    obtain m3 where m3: "pb_message_set_to_defaults (de_fields env) k j q m2 = Some m3"
      "\<And>c. c \<notin> {q..<q + msize j} \<Longrightarrow> m3 c = m2 c" "blank (de_fields env) m3 j q"
      using sets_blank [OF st, of j k q m2] j(3) k by auto
    have m31: "m3 c = m1 c" if "c \<notin> {q..<q + ?n}" for c using that m3(2) [of c] m2 [of c] j(2) by auto
    have "fresh_value (blank (de_fields env) m3) m3 f q" using m3(3) sm j(1) by (simp add: fresh_value_def)
    then obtain m' where m': "reads vw (func q) body m3 () m'" "\<forall>c. c \<notin> {q..<q + ?n} \<longrightarrow> m' c = m3 c"
      "same_value (agree (de_fields env) m0 m') m0 m' f p q"
      using value_readerD [OF func b(3) p l pr Rv(1)] by blast
    have defaults: "reads vw (call_defaults env k j q) [] m2 () m3"
    proof (rule reads_pure)
      show "call_defaults env k j q d = Some (Some (), d\<lparr>pd_mem := m3\<rparr>)" if "pd_mem d = m2" for d
        using m3(1) that by (simp add: call_defaults_def)
      show "m3 c = m2 c" if "c \<notin> snd vw" for c using that m3(2) [of c] Rv(1) R j(2) by (force simp: subset_iff)
    qed
    have "reads vw (call_bind (call_defaults env k j q) (\<lambda>_. func q)) body m2 () m'"
      using reads_bind [OF defaults m'(1)] by simp
    then have "reads vw (?D wt) body m () m'"
    proof (rule reads_pre)
      show "m2 c = m c" if "c \<notin> snd vw" for c
      proof -
        have "c \<notin> {q..<q + ?n}" "c \<notin> {y..<y + 4}" using that Rv R by blast+
        then show ?thesis using m2 m1 by simp
      qed
      show "?D wt s = call_bind (call_defaults env k j q) (\<lambda>_. func q) (s\<lparr>pd_mem := m2\<rparr>)" if "pd_mem s = m" for s
        using that one sm j(1) by (simp add: decode_static_field_def Let_def put_count_def m2_def m1_def)
    qed
    then show ?thesis using m'(2,3) m31 by auto
  next
    case False
    then obtain m' where m': "reads vw (func q) body m1 () m'" "\<forall>c. c \<notin> {q..<q + ?n} \<longrightarrow> m' c = m1 c"
      "same_value (agree (de_fields env) m0 m') m0 m' f p q"
      using value_readerD [OF func b(3) p l pr Rv(1)] by blast
    have "reads vw (?D wt) body m () m'"
    proof (rule reads_pre [OF m'(1)])
      show "m1 c = m c" if "c \<notin> snd vw" for c using that Rv R by (intro m1) blast
      show "?D wt s = func q (s\<lparr>pd_mem := m1\<rparr>)" if "pd_mem s = m" for s
        using that one False by (simp add: decode_static_field_def Let_def put_count_def m1_def)
    qed
    then show ?thesis using m'(2,3) by blast
  qed
  then obtain m2 where m2: "reads vw (?D wt) body m () m2" "\<forall>c. c \<notin> {q..<q + ?n} \<longrightarrow> m2 c = m1 c"
    "same_value (agree (de_fields env) m0 m2) m0 m2 f p q" by blast
  have "field_reads vw ?D f bs m m2" unfolding b(2) using m2(1) by (intro field_reads_one b(1)) simp
  moreover have "m2 c = m c" if "c \<notin> bytes_of (f, q, y)" for c
  proof -
    have "c \<notin> {q..<q + ?n}" "c \<notin> {y..<y + 4}" using that Rv by blast+
    then show ?thesis using m2(2) m1 by simp
  qed
  moreover have "load_size m2 y = unat (pf_tag f)"
  proof -
    have "m2 c = m1 c" if "c \<in> {y..<y + 4}" for c using m2(2) that apart by blast
    then show ?thesis using load_size_cong [of y m2 m1] s1 by simp
  qed
  ultimately show ?thesis using m2(3) one True by (intro exI [of _ m2]) (simp add: read_field_def)
qed

end
