(* ===== verification/Pb_Find.thy ===== *)
theory Pb_Find
  imports Pb_Decode
begin

text \<open>
  The search for a field in a message whose tags are distinct finds it wherever the iterator stands, and the
  bits the decoder sets for the required fields it has seen are complete when each of them has been read.
\<close>

section \<open>The iterator with its count of required fields\<close>

abbreviation required :: "pb_field \<Rightarrow> bool" where
  "required f \<equiv> pf_htype f = PB_HTYPE_REQUIRED"

definition required_before :: "pb_field list \<Rightarrow> nat \<Rightarrow> nat" where
  "required_before fs i = length (filter required (take i (butlast fs)))"

definition it_full :: "pb_field list \<Rightarrow> nat \<Rightarrow> nat \<Rightarrow> pb_field_iter \<Rightarrow> bool" where
  "it_full fs a i it \<longleftrightarrow> it_at fs a i it \<and> it_req it = required_before fs i"

lemma it_fullD:
  assumes "it_full fs a i it"
  shows "it_at fs a i it" "it_start it = fs" "it_pos it = i" "i < length fs - 1"
    "(it_field it, it_pData it, it_pSize it) = layout fs a ! i"
  using assms by (simp_all add: it_full_def it_at_def)

lemma required_before_Suc:
  assumes "i < length fs - 1"
  shows "required_before fs (Suc i) = required_before fs i + (if required (butlast fs ! i) then 1 else 0)"
proof -
  have "i < length (butlast fs)" using assms by simp
  then show ?thesis by (simp add: required_before_def take_Suc_conv_app_nth)
qed

lemma it_full_begin:
  assumes "wf_fields fs" "1 < length fs"
  shows "it_full fs a 0 (snd (pb_field_iter_begin fs a))"
proof -
  obtain b it where b: "pb_field_iter_begin fs a = (b, it)" by (metis surj_pair)
  then show ?thesis using iter_begin_at(2) [OF assms(1) b assms(2)] by (simp add: it_full_def required_before_def)
qed

lemma it_full_next:
  assumes wf: "wf_fields fs" and it: "it_full fs a i it" and n: "pb_field_iter_next it = (b, it')"
  shows "if Suc i < length fs - 1 then b \<and> it_full fs a (Suc i) it' else \<not> b \<and> it_full fs a 0 it'"
proof -
  note at = it_fullD(1) [OF it]
  note next_at = iter_next_at [OF wf at n]
  have i: "i < length fs - 1" by (rule it_fullD(4) [OF it])
  have f: "it_field it = butlast fs ! i" by (rule it_field_at [OF wf at])
  show ?thesis
  proof (cases "Suc i < length fs - 1")
    case True
    have "it_req it' = required_before fs (Suc i)"
      using n True next_at it f required_before_Suc [OF i]
      by (auto simp: pb_field_iter_next_def Let_def it_full_def split: if_splits)
    then show ?thesis using True next_at by (simp add: it_full_def)
  next
    case False
    have "pf_tag (it_field it) \<noteq> 0"
      using it_fullD(2,3) [OF it] wf_field_at(1) [OF wf, of i] i by (simp add: it_field_def)
    then have "it_req it' = 0"
      using n False next_at by (auto simp: pb_field_iter_next_def pb_field_iter_begin_def Let_def split: if_splits)
    then show ?thesis using False next_at by (simp add: it_full_def required_before_def)
  qed
qed

lemma it_full_snd_next:
  assumes "wf_fields fs" "it_full fs a (k mod (length fs - 1)) it"
  shows "it_full fs a (Suc k mod (length fs - 1)) (snd (pb_field_iter_next it))"
proof -
  obtain b it' where n: "pb_field_iter_next it = (b, it')" by (metis surj_pair)
  have "Suc (k mod (length fs - 1)) \<le> length fs - 1" using it_fullD(4) [OF assms(2)] by (rule Suc_leI)
  then show ?thesis using it_full_next [OF assms n] n unfolding mod_Suc by (auto split: if_splits)
qed

section \<open>Finding a field\<close>

lemma find_loop_full:
  assumes wf: "wf_fields fs" and d: "distinct (map pf_tag (butlast fs))" and j: "j < length fs - 1"
    and u: "(i + u) mod (length fs - 1) = j" "u < length fs - 1" and i: "i < length fs - 1"
    and ext: "pf_ltype (butlast fs ! j) \<noteq> PB_LTYPE_EXTENSION"
  shows "it_full fs a ((i + t) mod (length fs - 1)) it \<Longrightarrow> t \<le> u \<Longrightarrow> u - t < n \<Longrightarrow>
    \<exists>it'. iter_find_loop n i (pf_tag (butlast fs ! j)) it = (True, it') \<and> it_full fs a j it'"
proof (induction n arbitrary: t it)
  case (Suc n)
  let ?p = "(i + t) mod (length fs - 1)" and ?tag = "pf_tag (butlast fs ! j)"
  have f: "it_field it = butlast fs ! ?p" by (rule it_field_at [OF wf it_fullD(1) [OF Suc.prems(1)]])
  show ?case
  proof (cases "t = u")
    case True
    then show ?thesis using Suc.prems(1) f u ext by simp
  next
    case False
    then have t: "t < u" using Suc.prems(2) by simp
    have p: "?p < length fs - 1" using j by simp
    have "?p \<noteq> j"
    proof
      assume "?p = j"
      then have "(i + t) mod (length fs - 1) = (i + u) mod (length fs - 1)" using u by simp
      then have "(length fs - 1) dvd (u - t)" using t by (metis add_le_cancel_left diff_add_inverse2 diff_diff_left add.commute mod_eq_dvd_iff_nat less_imp_le_nat diff_cancel2)
      then show False using t u(2) by (auto dest: dvd_imp_le)
    qed
    then have "pf_tag (butlast fs ! ?p) \<noteq> ?tag"
      using d p j by (simp add: distinct_conv_nth)
    moreover have full: "it_full fs a ((i + Suc t) mod (length fs - 1)) (snd (pb_field_iter_next it))"
      using it_full_snd_next [OF wf Suc.prems(1)] by simp
    moreover have "(i + Suc t) mod (length fs - 1) \<noteq> i"
    proof
      assume "(i + Suc t) mod (length fs - 1) = i"
      then have "(i + Suc t) mod (length fs - 1) = i mod (length fs - 1)" using i by simp
      then have "(length fs - 1) dvd Suc t" by (metis diff_add_inverse le_add1 mod_eq_dvd_iff_nat)
      then show False using t u(2) by (auto dest: dvd_imp_le)
    qed
    ultimately show ?thesis
      using Suc.IH [OF full] Suc.prems(3) t f it_fullD(3) [OF full] by (simp add: Let_def)
  qed
qed simp

lemma find_full:
  assumes wf: "wf_fields fs" and d: "distinct (map pf_tag (butlast fs))" and j: "j < length fs - 1"
    and it: "it_full fs a i it" and ext: "pf_ltype (butlast fs ! j) \<noteq> PB_LTYPE_EXTENSION"
  shows "\<exists>it'. pb_field_iter_find it (pf_tag (butlast fs ! j)) = (True, it') \<and> it_full fs a j it'"
proof -
  let ?n = "length fs - 1"
  have i: "i < ?n" by (rule it_fullD(4) [OF it])
  define u where "u = (j + ?n - i) mod ?n"
  have "(i + u) mod ?n = (i + (j + ?n - i)) mod ?n" unfolding u_def by (rule mod_add_right_eq)
  also have "i + (j + ?n - i) = j + ?n" using i by (simp del: diff_Suc_1 One_nat_def)
  also have "(j + ?n) mod ?n = j" using j by (simp only: mod_add_self2 mod_less)
  finally have "(i + u) mod ?n = j" .
  moreover have "u < ?n" using j by (simp add: u_def)
  ultimately show ?thesis
    using find_loop_full [OF wf d j _ _ i ext, of u a 0 it "length fs + 1"] it i it_fullD(2,3) [OF it]
    by (simp add: pb_field_iter_find_def)
qed

lemma count_required_full:
  assumes wf: "wf_fields fs"
  shows "it_full fs a i it \<Longrightarrow> count_required it = required_before fs (length fs - 1)"
proof (induction "length fs - i" arbitrary: i it rule: less_induct)
  case less
  have i: "i < length fs - 1" by (rule it_fullD(4) [OF less.prems])
  obtain b it' where n: "pb_field_iter_next it = (b, it')" by (metis surj_pair)
  note full = it_full_next [OF wf less.prems n]
  show ?case
  proof (cases "Suc i < length fs - 1")
    case True
    then show ?thesis using less.hyps [of "Suc i" it'] full n by (subst count_required.simps) simp
  next
    case False
    then have e: "Suc i = length fs - 1" using i by simp
    have z: "it_full fs a 0 it'" "\<not> b" using full False by simp_all
    have "it_field it = butlast fs ! i" by (rule it_field_at [OF wf it_fullD(1) [OF less.prems]])
    moreover have "pf_tag (it_field it') \<noteq> 0"
      using it_fullD(2,3) [OF z(1)] wf_field_at(1) [OF wf, of 0] i by (simp add: it_field_def)
    ultimately show ?thesis
      using n z(2) required_before_Suc [OF i] less.prems e
      by (subst count_required.simps) (auto simp: it_full_def)
  qed
qed

section \<open>The bits of the required fields\<close>

definition seen :: "nat \<Rightarrow> u32 list" where
  "seen c = [mask (min c 32), mask (min (c - 32) 32)]"

lemma seen_0: "seen 0 = [0, 0]"
  by (simp add: seen_def)

lemma mask_step: "mask n OR 2 ^ n = (mask (Suc n) :: u32)"
  by (rule bit_word_eqI) (auto simp: bit_simps less_Suc_eq)

lemma seen_Suc:
  assumes "c < 64"
  shows "(seen c)[c div 32 := seen c ! (c div 32) OR push_bit (c mod 32) 1] = seen (Suc c)"
proof (cases "c < 32")
  case True
  then show ?thesis by (simp add: seen_def mask_step)
next
  case False
  then have "c div 32 = 1" "c mod 32 = c - 32" "Suc c - 32 = Suc (c - 32)" using assms by (simp_all add: div_if mod_if)
  then show ?thesis using assms False by (simp add: seen_def mask_step)
qed

lemma mask_32: "(mask 32 :: u32) = -1"
  by (simp add: mask_eq_exp_minus_1)

lemma mask_drop: "k \<le> 32 \<Longrightarrow> drop_bit (32 - k) (-1) = (mask k :: u32)"
  by (rule bit_word_eqI) (auto simp: bit_simps)

lemma all_required_seen: "all_required (seen (min c 64)) c"
proof -
  consider "c < 32" | "32 \<le> c" "c < 64" | "64 \<le> c" by linarith
  then show ?thesis
  proof cases
    case 1
    then show ?thesis by (simp add: all_required_def seen_def mask_drop)
  next
    case 2
    then have "c div 32 = 1" "c mod 32 = c - 32" by (simp_all add: div_if mod_if)
    then show ?thesis using 2 by (simp add: all_required_def seen_def mask_32 mask_drop)
  next
    case 3
    then show ?thesis by (simp add: all_required_def seen_def mask_32 min_absorb2 numeral_2_eq_2)
  qed
qed

end
