(* ===== verification/Pb_Read_Loop.thy ===== *)
theory Pb_Read_Loop
  imports Pb_Read_Field Pb_Find
begin

text \<open>
  The loop of \<open>pb_decode_noinit\<close> over the encodings of the fields: one tag with what follows it, then the tags
  of one field, with the bits of the required fields that have been seen.
\<close>

section \<open>One field by any rule\<close>

lemma field_step:
  fixes func :: "nat \<Rightarrow> ('s, 'h, unit) dec" and vw :: "'s view" and env :: "('s, 'h) pb_denv"
  assumes st: "static_messages (de_fields env) msize rank" "plain_messages (de_fields env)"
    and x: "(f, p, z) \<in> set (layout (de_fields env i) a)" "0 < a" and y: "(f, q, y) \<in> set (layout (de_fields env i) b)"
    and R: "bytes_of (f, q, y) \<subseteq> snd vw" and k: "rank i \<le> k"
    and func: "value_reader (de_fields env) rec proper m0 vw (bytes_of (f, q, y)) f func"
    and ref: "ref_basic (ref_default (de_fields env) n m0) rec m0 f p = Some (True, bs)" and len: "length bs < 2 ^ 32"
    and proper: "proper_field proper m0 ls (f, p, z)"
    and pend: "pending_field (de_fields env) m0 m (f, p, z) (f, q, y)"
  shows "\<exists>m'. field_reads vw (\<lambda>wt. decode_static_field env k func wt f q (Size_at y)) f bs m m' \<and>
    (\<forall>c. c \<notin> bytes_of (f, q, y) \<longrightarrow> m' c = m c) \<and> read_field (de_fields env) m0 m' (f, p, z) (f, q, y)"
proof -
  note ex = entry_facts [OF st x(1)] and ey = entry_facts [OF st y]
  have p: "0 < p" using ex(3) x(2) by simp
  have fresh: "fresh_field (blank (de_fields env) m) m (f, q, y)" if "pf_htype f \<noteq> PB_HTYPE_ONEOF"
    using pend that by (simp add: pending_field_def)
  have read: "read_field (de_fields env) m0 m' (f, p, z) (f, q, y)"
    if "same_field (agree (de_fields env) m0 m') m0 m' (f, p, z) (f, q, y)" "pf_htype f \<noteq> PB_HTYPE_ONEOF" for m'
    using that by (simp add: read_field_def)
  show ?thesis
    using htype_cases [of f]
  proof (elim disjE)
    assume h: "pf_htype f = 0"
    then have q: "{q..<q + pf_data_size f} \<subseteq> bytes_of (f, q, y)" using ey(4) by simp
    have fr: "fresh_field (blank (de_fields env) m) m (f, q, y)" by (rule fresh) (simp add: h)
    obtain m' where m': "field_reads vw (\<lambda>wt. decode_static_field env k func wt f q (Size_at y)) f bs m m'"
      "\<forall>c. c \<notin> {q..<q + pf_data_size f} \<longrightarrow> m' c = m c" "same_field (agree (de_fields env) m0 m') m0 m' (f, p, z) (f, q, y)"
      using read_required [OF func q p ref ex(2) len proper h fr, where env = env and k = k] by blast
    moreover have "m' c = m c" if "c \<notin> bytes_of (f, q, y)" for c using m'(2) q that by blast
    ultimately show ?thesis using read [OF m'(3)] h by (intro exI [of _ m']) simp
  next
    assume h: "pf_htype f = 0x10"
    have fr: "fresh_field (blank (de_fields env) m) m (f, q, y)" by (rule fresh) (simp add: h)
    obtain m' where m': "field_reads vw (\<lambda>wt. decode_static_field env k func wt f q (Size_at y)) f bs m m'"
      "\<forall>c. c \<notin> bytes_of (f, q, y) \<longrightarrow> m' c = m c" "same_field (agree (de_fields env) m0 m') m0 m' (f, p, z) (f, q, y)"
      using read_optional [OF st x y R func ref len proper h fr, where env = env and k = k] by blast
    then show ?thesis using read [OF m'(3)] h by (intro exI [of _ m']) simp
  next
    assume h: "pf_htype f = 0x20"
    have "load_size m y = 0" using fresh h by (simp add: fresh_field_def)
    then obtain m' where m': "field_reads vw (\<lambda>wt. decode_static_field env k func wt f q (Size_at y)) f bs m m'"
      "\<forall>c. c \<notin> bytes_of (f, q, y) \<longrightarrow> m' c = m c" "same_field (agree (de_fields env) m0 m') m0 m' (f, p, z) (f, q, y)"
      using array_field [OF st x y R func ref len proper h, where env = env and k = k] by blast
    then show ?thesis using read [OF m'(3)] h by (intro exI [of _ m']) simp
  next
    assume h: "pf_htype f = 0x30"
    show ?thesis by (rule read_oneof [OF st x y R k func ref len proper h pend])
  qed
qed

section \<open>One tag\<close>

definition saw :: "pb_field \<Rightarrow> pb_frame \<Rightarrow> pb_frame" where
  "saw f fr = (let r = it_req (fr_iter fr) in
     if required f \<and> r < 64 then fr\<lparr>fr_seen := (fr_seen fr)[r div 32 := fr_seen fr ! (r div 32) OR push_bit (r mod 32) 1]\<rparr> else fr)"

lemma reads_known:
  fixes env :: "('s, 'h) pb_denv" and vw :: "'s view"
  assumes it: "it_entry (fr_iter fr) = (f, q, y)" and f: "pf_atype f = PB_ATYPE_STATIC"
    and fixed: "pf_htype f = PB_HTYPE_REPEATED \<Longrightarrow> y \<noteq> q"
    and one: "pf_htype f = PB_HTYPE_ONEOF \<Longrightarrow> load_size m y = 0 \<or> load_size m y = unat (pf_tag f)"
    and body: "reads vw (decode_static_field env k (decoders f) wt f q (Size_at y)) body m () m'"
  shows "reads vw (decode_known env k decoders wt fr) body m (saw f fr) m'"
proof (rule readsI)
  fix d :: "('s, 'h) pb_dec" and ys zs
  assume d: "pd_mem d = m" "delivers vw m (pd_in d) (body @ ys) zs"
  from readsE [OF body d] obtain s where
    s: "decode_static_field env k (decoders f) wt f q (Size_at y) d = Some (Some (), d\<lparr>pd_mem := m', pd_in := s\<rparr>)"
    "delivers vw m' s ys zs" by blast
  have fd: "it_field (fr_iter fr) = f" "it_pData (fr_iter fr) = q" "it_pSize (fr_iter fr) = y" using it by simp_all
  have "pb_release_union_field env k (fr_iter fr) d = Some (Some (fr_iter fr), d)" if "pf_htype f = PB_HTYPE_ONEOF"
    using one [OF that] d(1) fd by (simp add: pb_release_union_field_def Let_def)
  then have "decode_field env k decoders wt (fr_iter fr) (Size_at y) d = Some (Some (fr_iter fr), d\<lparr>pd_mem := m', pd_in := s\<rparr>)"
    using s(1) f fd by (simp add: decode_field_def call_bind_def call_status_def Let_def)
  moreover have "\<not> (pf_htype f = PB_HTYPE_REPEATED \<and> y = q)" using fixed by blast
  moreover have "saw f fr\<lparr>fr_iter := fr_iter fr\<rparr> = saw f fr" by (cases fr) (simp add: saw_def Let_def)
  ultimately have "decode_known env k decoders wt fr d = Some (Some (saw f fr), d\<lparr>pd_mem := m', pd_in := s\<rparr>)"
    using fd by (auto simp: decode_known_def call_bind_def call_status_def Let_def saw_def)
  then show "\<exists>s. decode_known env k decoders wt fr d = Some (Some (saw f fr), d\<lparr>pd_mem := m', pd_in := s\<rparr>) \<and> delivers vw m' s ys zs"
    using s(2) by blast
qed

lemma enc_tag_ne: "enc_tag wt tag \<noteq> []"
  using enc_varint_ne by (simp add: enc_tag_def)

lemma loop_step:
  fixes env :: "('s, 'h) pb_denv" and vw :: "'s view"
  assumes wt: "wt < 8" and t: "unat tag < 2 ^ 29" "tag \<noteq> 0" and find: "pb_field_iter_find (fr_iter fr) tag = (True, it)"
    and known: "reads vw (decode_known env k decoders wt (fr\<lparr>fr_iter := it\<rparr>)) body m fr1 m1"
    and rest: "reads_all vw (decode_loop env k decoders n fr1) rest m1 fr2 m2"
  shows "reads_all vw (decode_loop env k decoders (Suc n) fr) (enc_tag wt tag @ body @ rest) m fr2 m2"
proof (rule reads_allI)
  fix d :: "('s, 'h) pb_dec" and zs
  assume d: "pd_mem d = m" "delivers vw m (pd_in d) (enc_tag wt tag @ body @ rest) zs"
  obtain s where s: "pb_decode_tag m (pd_in d) = (Some (wt, tag), False, s)" "delivers vw m s (body @ rest) zs"
    using decode_tag_delivers [OF wt t d(2)] by blast
  have "pd_mem (d\<lparr>pd_in := s\<rparr>) = m" "delivers vw m (pd_in (d\<lparr>pd_in := s\<rparr>)) (body @ rest) zs" using s(2) d(1) by simp_all
  from reads_allE [OF reads_all_bind [where g = "decode_loop env k decoders n", OF known rest] this] obtain s2 where
    s2: "call_bind (decode_known env k decoders wt (fr\<lparr>fr_iter := it\<rparr>)) (decode_loop env k decoders n) (d\<lparr>pd_in := s\<rparr>) =
      Some (Some fr2, d\<lparr>pd_in := s\<rparr>\<lparr>pd_mem := m2, pd_in := s2\<rparr>)" "delivers vw m2 s2 [] zs" by blast
  have "is_left (pd_in d) \<noteq> 0" using d(2) enc_tag_ne [of wt tag] by (simp add: delivers_def)
  then show "\<exists>s. decode_loop env k decoders (Suc n) fr d = Some (Some fr2, d\<lparr>pd_mem := m2, pd_in := s\<rparr>) \<and> delivers vw m2 s [] zs"
    using s(1) s2 d(1) find by (intro exI [of _ s2]) simp
qed

section \<open>All tags of one field\<close>

text \<open>With more fuel than there are bytes.\<close>

definition loop_reads ::
  "'s view \<Rightarrow> ('s, 'h) pb_denv \<Rightarrow> nat \<Rightarrow> (pb_field \<Rightarrow> nat \<Rightarrow> ('s, 'h, unit) dec) \<Rightarrow> pb_frame \<Rightarrow> bytes \<Rightarrow> memory \<Rightarrow>
   pb_frame \<Rightarrow> memory \<Rightarrow> bool" where
  "loop_reads vw env k decoders fr bs m fr' m' \<longleftrightarrow> (\<forall>n > length bs. reads_all vw (decode_loop env k decoders n fr) bs m fr' m')"

lemma loop_reads_step:
  assumes "wt < 8" "unat tag < 2 ^ 29" "tag \<noteq> 0" "pb_field_iter_find (fr_iter fr) tag = (True, it)"
    and "reads vw (decode_known env k decoders wt (fr\<lparr>fr_iter := it\<rparr>)) body m fr1 m1"
    and rest: "loop_reads vw env k decoders fr1 rest m1 fr2 m2"
  shows "loop_reads vw env k decoders fr (enc_tag wt tag @ body @ rest) m fr2 m2"
  unfolding loop_reads_def
proof (intro allI impI)
  fix n assume n: "length (enc_tag wt tag @ body @ rest) < n"
  have "0 < length (enc_tag wt tag)" using enc_tag_ne by simp
  then obtain n' where n': "n = Suc n'" "length rest < n'" using n by (cases n) (auto simp del: length_greater_0_conv)
  then have "reads_all vw (decode_loop env k decoders n' fr1) rest m1 fr2 m2" using rest by (simp add: loop_reads_def)
  then show "reads_all vw (decode_loop env k decoders n fr) (enc_tag wt tag @ body @ rest) m fr2 m2"
    unfolding n'(1) by (rule loop_step [OF assms(1-5)])
qed

lemma loop_reads_end: "loop_reads vw env k decoders fr [] m fr m"
  unfolding loop_reads_def
proof (intro allI impI)
  fix n assume "length ([] :: bytes) < n"
  then obtain n' where n: "n = Suc n'" by (cases n) auto
  show "reads_all vw (decode_loop env k decoders n fr) [] m fr m"
  proof (rule reads_allI)
    fix d :: "('a, 'b) pb_dec" and zs
    assume d: "pd_mem d = m" "delivers vw m (pd_in d) [] zs"
    then have "is_left (pd_in d) = 0" by (simp add: delivers_def)
    moreover have "d\<lparr>pd_mem := m, pd_in := pd_in d\<rparr> = d" using d(1) by (cases d) simp
    ultimately show "\<exists>s. decode_loop env k decoders n fr d = Some (Some fr, d\<lparr>pd_mem := m, pd_in := s\<rparr>) \<and> delivers vw m s [] zs"
      using d(2) n by (intro exI [of _ "pd_in d"]) simp
  qed
qed

text \<open>The frame after \<open>c\<close> of the required fields.\<close>

definition frame_at :: "pb_field list \<Rightarrow> nat \<Rightarrow> nat \<Rightarrow> pb_frame \<Rightarrow> bool" where
  "frame_at fs b c fr \<longleftrightarrow> (\<exists>i. it_full fs b i (fr_iter fr)) \<and> fr_seen fr = seen (min c 64) \<and> fr_fixed fr = None"

lemma frame_saw:
  assumes "frame_at fs b (required_before fs j) fr" "it_full fs b j it" "f = butlast fs ! j"
  shows "frame_at fs b (required_before fs (Suc j)) (saw f (fr\<lparr>fr_iter := it\<rparr>))"
proof -
  have j: "j < length fs - 1" by (rule it_fullD(4) [OF assms(2)])
  have r: "it_req it = required_before fs j" using assms(2) by (simp add: it_full_def)
  have seen: "fr_seen fr = seen (min (required_before fs j) 64)" using assms(1) by (simp add: frame_at_def)
  have "fr_seen (saw f (fr\<lparr>fr_iter := it\<rparr>)) = seen (min (required_before fs (Suc j)) 64)"
  proof (cases "required f \<and> required_before fs j < 64")
    case True
    then show ?thesis
      using seen r required_before_Suc [OF j] assms(3) seen_Suc [of "required_before fs j"] by (simp add: saw_def Let_def)
  next
    case False
    then have "min (required_before fs (Suc j)) 64 = min (required_before fs j) 64"
      using required_before_Suc [OF j] assms(3) by auto
    then show ?thesis using seen r False by (auto simp: saw_def Let_def)
  qed
  then show ?thesis using assms by (auto simp: frame_at_def saw_def Let_def)
qed

lemma occurrences:
  fixes env :: "('s, 'h) pb_denv" and vw :: "'s view"
  assumes st: "static_messages (de_fields env) msize rank" "plain_messages (de_fields env)"
    and fs: "fs = de_fields env i" and j: "j < length fs - 1" and y: "layout fs b ! j = (f, q, y)" and wt: "wt < 8"
  shows "reads_each vw (decode_static_field env k (decoders f) wt f q (Size_at y)) bodies m m' \<Longrightarrow>
    frame_at fs b (required_before fs (if required f then j else Suc j)) fr \<Longrightarrow>
    (required f \<Longrightarrow> length bodies = 1) \<Longrightarrow>
    (pf_htype f = PB_HTYPE_ONEOF \<Longrightarrow> length bodies \<le> 1 \<and> (bodies \<noteq> [] \<longrightarrow> load_size m y = 0 \<or> load_size m y = unat (pf_tag f))) \<Longrightarrow>
    \<exists>fr'. frame_at fs b (required_before fs (Suc j)) fr' \<and>
      (\<forall>rest fr2 m2. loop_reads vw env k decoders fr' rest m' fr2 m2 \<longrightarrow>
        loop_reads vw env k decoders fr (concat (map (\<lambda>b. enc_tag wt (pf_tag f) @ b) bodies) @ rest) m fr2 m2)"
proof (induction bodies arbitrary: m fr)
  case Nil
  then show ?case by (intro exI [of _ fr]) (auto split: if_splits)
next
  case (Cons body bodies)
  have yin: "(f, q, y) \<in> set (layout (de_fields env i) b)" using y j fs by (metis length_layout nth_mem)
  note ey = entry_facts [OF st yin] and py = layout_fields(2) [OF st yin]
  have wf: "wf_fields fs" using st(1) fs by (simp add: static_messages_def)
  have f: "f = butlast fs ! j" using y j fst_layout [of fs b] by (metis fst_conv length_layout nth_map)
  have dist: "distinct (map pf_tag (butlast fs))" using st(2) fs by (simp add: plain_messages_def)
  have ext: "pf_ltype (butlast fs ! j) \<noteq> PB_LTYPE_EXTENSION"
    using layout_fields(1) [OF st yin] f by (simp add: field_ok_def)
  obtain l where l: "it_full fs b l (fr_iter fr)" using Cons.prems(2) by (auto simp: frame_at_def)
  obtain it where it: "pb_field_iter_find (fr_iter fr) (pf_tag f) = (True, it)" "it_full fs b j it"
    using find_full [OF wf dist j l ext] f by blast
  have tag: "unat (pf_tag f) < 2 ^ 29" "pf_tag f \<noteq> 0" using py ey(10) by (auto simp: plain_field_def)
  have entry: "it_entry (fr_iter (fr\<lparr>fr_iter := it\<rparr>)) = (f, q, y)" using it_fullD(5) [OF it(2)] y by simp
  have fixed: "pf_htype f = PB_HTYPE_REPEATED \<Longrightarrow> y \<noteq> q" using py by (auto simp: plain_field_def size_bytes_def)
  obtain m1 where m1: "reads vw (decode_static_field env k (decoders f) wt f q (Size_at y)) body m () m1"
    "reads_each vw (decode_static_field env k (decoders f) wt f q (Size_at y)) bodies m1 m'"
    using Cons.prems(1) by auto
  let ?fr = "saw f (fr\<lparr>fr_iter := it\<rparr>)"
  have known: "reads vw (decode_known env k decoders wt (fr\<lparr>fr_iter := it\<rparr>)) body m ?fr m1"
    by (rule reads_known [where decoders = decoders, OF entry ey(2) fixed _ m1(1)]) (use Cons.prems(4) in simp_all)
  have "\<exists>fr'. frame_at fs b (required_before fs (Suc j)) fr' \<and>
      (\<forall>rest fr2 m2. loop_reads vw env k decoders fr' rest m' fr2 m2 \<longrightarrow>
        loop_reads vw env k decoders ?fr (concat (map (\<lambda>b. enc_tag wt (pf_tag f) @ b) bodies) @ rest) m1 fr2 m2)"
  proof (cases "required f")
    case True
    then have "bodies = []" using Cons.prems(3) by simp
    moreover have "frame_at fs b (required_before fs (Suc j)) ?fr"
      using Cons.prems(2) True by (intro frame_saw [OF _ it(2) f]) simp
    ultimately show ?thesis using m1(2) by (intro exI [of _ ?fr]) simp
  next
    case False
    then have "frame_at fs b (required_before fs (if required f then j else Suc j)) ?fr"
      using Cons.prems(2) it(2) by (auto simp: frame_at_def saw_def Let_def)
    then show ?thesis using Cons.prems(4) False by (intro Cons.IH [OF m1(2)]) auto
  qed
  then obtain fr' where fr': "frame_at fs b (required_before fs (Suc j)) fr'"
    "\<And>rest fr2 m2. loop_reads vw env k decoders fr' rest m' fr2 m2 \<Longrightarrow>
      loop_reads vw env k decoders ?fr (concat (map (\<lambda>b. enc_tag wt (pf_tag f) @ b) bodies) @ rest) m1 fr2 m2" by blast
  have "loop_reads vw env k decoders fr (concat (map (\<lambda>b. enc_tag wt (pf_tag f) @ b) (body # bodies)) @ rest) m fr2 m2"
    if "loop_reads vw env k decoders fr' rest m' fr2 m2" for rest fr2 m2
    using loop_reads_step [OF wt tag it(1) known fr'(2) [OF that]] by simp
  then show ?case using fr'(1) by blast
qed

lemma field_loop:
  fixes env :: "('s, 'h) pb_denv" and vw :: "'s view"
  assumes st: "static_messages (de_fields env) msize rank" "plain_messages (de_fields env)"
    and fs: "fs = de_fields env i" and j: "j < length fs - 1" and y: "layout fs b ! j = (f, q, y)"
    and f: "field_reads vw (\<lambda>wt. decode_static_field env k (decoders f) wt f q (Size_at y)) f bs m m'"
    and fr: "frame_at fs b (required_before fs j) fr"
    and one: "pf_htype f = PB_HTYPE_ONEOF \<Longrightarrow> bs \<noteq> [] \<Longrightarrow> load_size m y = 0 \<or> load_size m y = unat (pf_tag f)"
  obtains fr' where "frame_at fs b (required_before fs (Suc j)) fr'"
    "\<And>rest fr2 m2. loop_reads vw env k decoders fr' rest m' fr2 m2 \<Longrightarrow> loop_reads vw env k decoders fr (bs @ rest) m fr2 m2"
proof -
  obtain wt bodies where b: "wt < 8" "bs = concat (map (\<lambda>b. enc_tag wt (pf_tag f) @ b) bodies)"
    "reads_each vw (decode_static_field env k (decoders f) wt f q (Size_at y)) bodies m m'"
    "required f \<longrightarrow> length bodies = 1" "pf_htype f = PB_HTYPE_ONEOF \<longrightarrow> length bodies \<le> 1"
    using f by (auto simp: field_reads_def)
  have fj: "f = butlast fs ! j" using y j fst_layout [of fs b] by (metis fst_conv length_layout nth_map)
  then have "frame_at fs b (required_before fs (if required f then j else Suc j)) fr"
    using fr required_before_Suc [OF j] by simp
  moreover have "bs \<noteq> []" if "bodies \<noteq> []" using that enc_tag_ne by (cases bodies) (simp_all add: b(2))
  ultimately show thesis
    using occurrences [where decoders = decoders, OF st fs j y b(1,3), of fr] b(4,5) one that unfolding b(2) by blast
qed

lemma field_reads_none: "field_reads vw D f [] m m' \<Longrightarrow> m' = m"
proof -
  assume "field_reads vw D f [] m m'"
  then obtain wt bodies where b: "concat (map (\<lambda>b. enc_tag wt (pf_tag f) @ b) bodies) = []" "reads_each vw (D wt) bodies m m'"
    by (auto simp: field_reads_def)
  then show ?thesis using enc_tag_ne by (cases bodies) auto
qed

end
