(* ===== verification/Pb_Roundtrip.thy ===== *)
theory Pb_Roundtrip
  imports Pb_Read_Loop
begin

text \<open>
  Decoding the encoding of a static message: the loop reads field after field, and at the end the struct holds the
  same message. By induction on the depth this goes for submessages, too.
\<close>

section \<open>The fields of two structs\<close>

lemma walk_shift:
  "i < length fs \<Longrightarrow>
    int (fst (snd (walk prev d z fs ! i))) - int d = int (fst (snd (walk prev d' z' fs ! i))) - int d'"
proof (induction fs arbitrary: i prev d z d' z')
  case (Cons f fs)
  show ?case
  proof (cases i)
    case (Suc j)
    then have j: "j < length fs" using Cons.prems by simp
    show ?thesis
      using Cons.IH [OF j, of f d z d' z']
        Cons.IH [OF j, of f "d + prev_size prev + pf_data_offset f" "size_addr (d + prev_size prev + pf_data_offset f) f"
          "d' + prev_size prev + pf_data_offset f" "size_addr (d' + prev_size prev + pf_data_offset f) f"]
      by (auto simp: Suc Let_def)
  qed (simp add: Let_def)
qed simp

lemma layout_shift:
  assumes "i < length fs - 1" "layout fs a ! i = (f, p, z)" "layout fs b ! i = (g, q, y)"
  shows "g = f" "int q - int b = int p - int a"
proof -
  have "fst (layout fs b ! i) = map fst (layout fs b) ! i" "fst (layout fs a ! i) = map fst (layout fs a) ! i"
    using assms(1) by (simp_all del: fst_layout)
  then show "g = f" using assms(2,3) by (simp add: fst_layout)
  have l: "i < length (butlast fs)" using assms(1) by simp
  then obtain f0 gs where f0: "butlast fs = f0 # gs" by (cases "butlast fs") auto
  show "int q - int b = int p - int a"
  proof (cases i)
    case 0
    then show ?thesis using assms(2,3) by (auto simp: layout_def f0 Let_def)
  next
    case (Suc j)
    then have "j < length gs" using l f0 by simp
    from walk_shift [OF this, of f0 "a + pf_data_offset f0" "size_addr (a + pf_data_offset f0) f0"
        "b + pf_data_offset f0" "size_addr (b + pf_data_offset f0) f0"]
    show ?thesis using assms(2,3) by (simp add: layout_def f0 Let_def Suc)
  qed
qed

lemma layout_at: "i < length fs - 1 \<Longrightarrow> layout fs a ! i \<in> set (layout fs a)"
  by (simp add: nth_mem)

text \<open>The tag of a union has its place in both.\<close>

lemma size_shift:
  assumes st: "static_messages descs msize rank" "plain_messages descs" and i: "i < length (descs n) - 1"
    and x: "layout (descs n) a ! i = (f, p, z)" "layout (descs n) b ! i = (f, q, y)" and one: "pf_htype f = PB_HTYPE_ONEOF"
    and pos: "0 < z" "0 < y"
  shows "int y - int b = int z - int a"
proof -
  have "(f, p, z) \<in> set (layout (descs n) a)" "(f, q, y) \<in> set (layout (descs n) b)" using layout_at [OF i] x by metis+
  then have "size_addr p f = z" "size_addr q f = y" using entry_facts(1) [OF st] by blast+
  then have "int z = int p + pf_size_offset f" "int y = int q + pf_size_offset f" using pos by (auto simp: size_addr_def)
  then show ?thesis using layout_shift(2) [OF i x] by linarith
qed

lemma fields_apart:
  assumes "plain_messages descs" "i < length (descs n) - 1" "j < length (descs n) - 1" "i \<noteq> j"
  shows "same_union (layout (descs n) b ! i) (layout (descs n) b ! j) \<or>
    bytes_of (layout (descs n) b ! i) \<inter> bytes_of (layout (descs n) b ! j) = {}"
proof -
  let ?y = "\<lambda>i. layout (descs n) b ! i"
  have lt: "same_union (?y i) (?y j) \<or> bytes_of (?y i) \<inter> bytes_of (?y j) = {}" if "i < j" "j < length (descs n) - 1" for i j
  proof -
    have "sorted_wrt parted (layout (descs n) b)" using assms(1) by (simp add: plain_messages_def)
    then have "parted (?y i) (?y j)" by (rule sorted_wrt_nth_less) (use that in simp_all)
    then show ?thesis by (rule parted_disjoint)
  qed
  have sym: "same_union x y \<longleftrightarrow> same_union y x" for x y by (cases x; cases y) (auto simp: same_union_def)
  show ?thesis
  proof (cases "i < j")
    case True
    then show ?thesis using lt assms(3) by blast
  next
    case False
    then have "j < i" using assms(4) by simp
    then show ?thesis using lt [of j i] assms(2) sym Int_commute by metis
  qed
qed

lemma fields_tags:
  assumes "plain_messages descs" "i < length (descs n) - 1" "j < length (descs n) - 1" "i \<noteq> j"
  shows "pf_tag (fst (layout (descs n) b ! i)) \<noteq> pf_tag (fst (layout (descs n) b ! j))"
proof -
  have "distinct (map pf_tag (map fst (layout (descs n) b)))" using assms(1) by (simp only: fst_layout plain_messages_def)
  then show ?thesis using assms(2-4) by (simp add: distinct_conv_nth)
qed

section \<open>Reading one field leaves the others\<close>

lemma pending_frame:
  assumes st: "static_messages descs msize rank" "plain_messages descs" and y: "(f, q, y) \<in> set (layout (descs i) b)"
    and p: "pending_field descs m0 m x (f, q, y)" and m': "\<And>c. c \<in> bytes_of (f, q, y) \<Longrightarrow> m' c = m c"
  shows "pending_field descs m0 m' x (f, q, y)"
proof -
  obtain p z where x: "x = (f, p, z)" using p by (cases x) (auto simp: pending_field_def)
  note ly = layout_fields [OF st y]
  have "load_size m' y = load_size m y" if "pf_htype f = PB_HTYPE_ONEOF"
    using bytes_of_value(3) [of f y q] that by (intro load_size_cong m') auto
  moreover have "fresh_field (blank descs m') m' (f, q, y)" if "fresh_field (blank descs m) m (f, q, y)"
  proof (rule fresh_field_frame [OF that m' ly(3)])
    fix j q' assume j: "pf_ptr (fst (f, q, y)) = Ptr_fields j" "{q'..<q' + pf_data_size (fst (f, q, y))} \<subseteq> bytes_of (f, q, y)" "blank descs m j q'"
    then show "blank descs m' j q'" using layout_sub(1) [OF st y j(1)] by (intro blank_frame [OF st j(3)] m') (auto simp: subset_iff)
  qed
  ultimately show ?thesis using p by (simp add: x pending_field_def)
qed

lemma read_frame:
  assumes st: "static_messages descs msize rank" "plain_messages descs" and y: "(f, q, y) \<in> set (layout (descs i) b)"
    and r: "read_field descs m0 m x (f, q, y)" and m': "\<And>c. c \<in> bytes_of (f, q, y) \<Longrightarrow> m' c = m c"
  shows "read_field descs m0 m' x (f, q, y)"
proof -
  obtain p z where x: "x = (f, p, z)" using r by (cases x) (auto simp: read_field_def)
  note ly = layout_fields [OF st y]
  show ?thesis
  proof (cases "pf_htype f = PB_HTYPE_ONEOF")
    case True
    have "load_size m' y = load_size m y" using bytes_of_value(3) [of f y q] True by (intro load_size_cong m') auto
    moreover have "same_value (agree descs m0 m') m0 m' f p q" if "same_value (agree descs m0 m) m0 m f p q"
      using entry_facts(4) [OF st y] True by (intro agree_value_frame [OF st y that] m') auto
    ultimately show ?thesis using r True by (simp add: x read_field_def)
  next
    case False
    then have s: "same_field (agree descs m0 m) m0 m x (f, q, y)" using r by (simp add: x read_field_def)
    have "same_field (agree descs m0 m') m0 m' x (f, q, y)"
    proof (rule same_field_frame [OF s m' ly(2,3)])
      fix j p' q' assume j: "pf_ptr (fst (f, q, y)) = Ptr_fields j" "{q'..<q' + pf_data_size (fst (f, q, y))} \<subseteq> bytes_of (f, q, y)"
        "agree descs m0 m j p' q'"
      then show "agree descs m0 m' j p' q'"
        using layout_sub(1) [OF st y j(1)] by (intro agree_frame [OF st j(3)] m') (auto simp: subset_iff)
    qed
    then show ?thesis using False by (simp add: x read_field_def)
  qed
qed

text \<open>Of two fields of a union at most one is in the message.\<close>

lemma other_field:
  assumes st: "static_messages descs msize rank" "plain_messages descs" and l: "l < length (descs i) - 1" "j < length (descs i) - 1" "l \<noteq> j"
    and xl: "layout (descs i) a ! l = xl" and yl: "layout (descs i) b ! l = yl"
    and xj: "layout (descs i) a ! j = (f, p, z)" and yj: "layout (descs i) b ! j = (f, q, y)"
    and pos: "0 < a" "0 \<notin> {b..<b + msize i}"
    and m': "\<forall>c. c \<notin> bytes_of (f, q, y) \<longrightarrow> m' c = m c" and r: "read_field descs m0 m' (f, p, z) (f, q, y)"
    and none: "pf_htype f = PB_HTYPE_ONEOF \<Longrightarrow> load_size m0 z \<noteq> unat (pf_tag f) \<Longrightarrow> m' = m"
  shows "(pending_field descs m0 m xl yl \<longrightarrow> pending_field descs m0 m' xl yl) \<and>
    (read_field descs m0 m xl yl \<longrightarrow> read_field descs m0 m' xl yl)"
proof -
  obtain g p' z' where x: "xl = (g, p', z')" by (metis surj_pair)
  obtain g' q' y' where "yl = (g', q', y')" by (metis surj_pair)
  then have y: "yl = (g, q', y')" using layout_shift(1) [OF l(1)] xl yl x by blast
  have yin: "(g, q', y') \<in> set (layout (descs i) b)" using layout_at [OF l(1), of b] yl y by simp
  have jin: "(f, q, y) \<in> set (layout (descs i) b)" using layout_at [OF l(2), of b] yj by simp
  have xin: "(g, p', z') \<in> set (layout (descs i) a)" "(f, p, z) \<in> set (layout (descs i) a)"
    using layout_at [OF l(1), of a] layout_at [OF l(2), of a] xl xj x by simp_all
  show ?thesis
  proof (cases "bytes_of yl \<inter> bytes_of (f, q, y) = {}")
    case True
    then have "m' c = m c" if "c \<in> bytes_of (g, q', y')" for c using m' that y by blast
    then show ?thesis unfolding y using pending_frame [OF st yin] read_frame [OF st yin] by blast
  next
    case False
    then have u: "pf_htype g = PB_HTYPE_ONEOF" "pf_htype f = PB_HTYPE_ONEOF" "y' = y"
      using fields_apart [OF st(2) l, of b] yl yj y by (auto simp: same_union_def)
    have z4: "{z''..<z'' + 4} \<subseteq> {c..<c + msize i}" if "(h, e, z'') \<in> set (layout (descs i) c)" "pf_htype h = PB_HTYPE_ONEOF" for h e z'' c
      using bytes_of_value(3) [of h z'' e] that layout_fields(4) [OF st that(1)] by blast
    have "y \<in> {b..<b + msize i}" using z4 [OF jin u(2)] by auto
    then have py: "0 < y" using pos(2) by (cases "y = 0") auto
    have "z \<in> {a..<a + msize i}" "z' \<in> {a..<a + msize i}" using z4 [OF xin(2) u(2)] z4 [OF xin(1) u(1)] by auto
    then have pz: "0 < z" "0 < z'" using pos(1) by auto
    have "int y - int b = int z - int a" by (rule size_shift [OF st l(2) xj yj u(2) pz(1) py])
    moreover have "int y' - int b = int z' - int a"
      using size_shift [OF st l(1) _ _ u(1) pz(2)] xl yl x y py u(3) by blast
    ultimately have z: "z' = z" using u(3) by linarith
    have t: "load_size m' y = 0 \<or> load_size m' y = load_size m0 z" using r u(2) by (simp add: read_field_def)
    have "pf_tag g \<noteq> pf_tag f" using fields_tags [OF st(2) l, of b] yl yj y by simp
    then have ne: "unat (pf_tag g) \<noteq> unat (pf_tag f)" by (metis unsigned_word_eqI)
    have "m' = m" if "load_size m0 z = unat (pf_tag g)" using none [OF u(2)] that ne by simp
    then show ?thesis using t u z by (auto simp: x y pending_field_def read_field_def)
  qed
qed

section \<open>The fields of a message\<close>

abbreviation ref_plain ::
  "(nat \<Rightarrow> pb_field list) \<Rightarrow> nat \<Rightarrow> (nat \<Rightarrow> nat \<Rightarrow> outcome) \<Rightarrow> memory \<Rightarrow> (pb_field \<times> nat \<times> nat) list \<Rightarrow> outcome" where
  "ref_plain descs n rec m0 \<equiv> ref_fields (\<lambda>f d. ref_basic (ref_default descs n m0) rec m0 f d)"

lemma message_loop:
  fixes env :: "('s, 'h) pb_denv" and vw :: "'s view"
  assumes st: "static_messages (de_fields env) msize rank" "plain_messages (de_fields env)"
    and fs: "fs = de_fields env i" and pos: "0 < a" "0 \<notin> {b..<b + msize i}" and R: "{b..<b + msize i} \<subseteq> snd vw"
    and k: "rank i \<le> k"
    and func: "\<And>f q y. (f, q, y) \<in> set (layout fs b) \<Longrightarrow>
      value_reader (de_fields env) rec proper m0 vw (bytes_of (f, q, y)) f (decoders f)"
    and proper: "list_all (proper_field proper m0 (layout fs a)) (layout fs a)"
  shows "j + t = length fs - 1 \<Longrightarrow> ref_plain (de_fields env) n rec m0 (drop j (layout fs a)) = Some (True, bs) \<Longrightarrow>
    length bs < 2 ^ 32 \<Longrightarrow> frame_at fs b (required_before fs j) fr \<Longrightarrow>
    \<forall>l < j. read_field (de_fields env) m0 m (layout fs a ! l) (layout fs b ! l) \<Longrightarrow>
    \<forall>l. j \<le> l \<longrightarrow> l < length fs - 1 \<longrightarrow> pending_field (de_fields env) m0 m (layout fs a ! l) (layout fs b ! l) \<Longrightarrow>
    \<exists>fr' m'. loop_reads vw env k decoders fr bs m fr' m' \<and> frame_at fs b (required_before fs (length fs - 1)) fr' \<and>
      (\<forall>l < length fs - 1. read_field (de_fields env) m0 m' (layout fs a ! l) (layout fs b ! l)) \<and>
      (\<forall>c. c \<notin> {b..<b + msize i} \<longrightarrow> m' c = m c)"
proof (induction t arbitrary: j m bs fr)
  case 0
  then have "bs = []" by (simp add: ref_fields_def produce_def)
  then show ?case using 0 by (intro exI [of _ fr] exI [of _ m]) (simp add: loop_reads_end)
next
  case (Suc t)
  let ?X = "\<lambda>l. layout fs a ! l" and ?Y = "\<lambda>l. layout fs b ! l"
  have j: "j < length fs - 1" using Suc.prems(1) by simp
  obtain f p z where x: "?X j = (f, p, z)" by (metis surj_pair)
  obtain f' q y where "?Y j = (f', q, y)" by (metis surj_pair)
  then have y: "?Y j = (f, q, y)" using layout_shift(1) [OF j x] by blast
  have xin: "(f, p, z) \<in> set (layout (de_fields env i) a)" using layout_at [OF j, of a] x fs by simp
  have yin: "(f, q, y) \<in> set (layout (de_fields env i) b)" using layout_at [OF j, of b] y fs by simp
  have "drop j (layout fs a) = (f, p, z) # drop (Suc j) (layout fs a)"
    using x j by (metis Cons_nth_drop_Suc length_layout)
  then have "seq (ref_basic (ref_default (de_fields env) n m0) rec m0 f p)
      (ref_plain (de_fields env) n rec m0 (drop (Suc j) (layout fs a))) = Some (True, bs)"
    using Suc.prems(2) by (simp add: ref_fields_def)
  then obtain xs ys where bs: "ref_basic (ref_default (de_fields env) n m0) rec m0 f p = Some (True, xs)"
    "ref_plain (de_fields env) n rec m0 (drop (Suc j) (layout fs a)) = Some (True, ys)" "bs = xs @ ys"
    using seqD by blast
  have l: "length xs < 2 ^ 32" "length ys < 2 ^ 32" using bs(3) Suc.prems(3) by simp_all
  have within: "bytes_of (f, q, y) \<subseteq> {b..<b + msize i}" by (rule layout_fields(4) [OF st yin])
  then have Rf: "bytes_of (f, q, y) \<subseteq> snd vw" using R by blast
  have pr: "proper_field proper m0 (layout fs a) (f, p, z)" using proper xin fs by (auto simp: list_all_iff)
  have pend: "pending_field (de_fields env) m0 m (f, p, z) (f, q, y)" using Suc.prems(6) j x y by (metis order_refl)
  have fin: "value_reader (de_fields env) rec proper m0 vw (bytes_of (f, q, y)) f (decoders f)" using func yin fs by blast
  obtain m1 where m1: "field_reads vw (\<lambda>wt. decode_static_field env k (decoders f) wt f q (Size_at y)) f xs m m1"
    "\<forall>c. c \<notin> bytes_of (f, q, y) \<longrightarrow> m1 c = m c" "read_field (de_fields env) m0 m1 (f, p, z) (f, q, y)"
    using field_step [OF st xin pos(1) yin Rf k fin bs(1) l(1) pr pend] by blast
  have skipped: "xs = []" if "pf_htype f = PB_HTYPE_ONEOF" "load_size m0 z \<noteq> unat (pf_tag f)"
    using bs(1) that entry_facts(1,2,7) [OF st xin] by (simp add: ref_basic_def Let_def produce_def)
  have one: "load_size m y = 0 \<or> load_size m y = unat (pf_tag f)" if "pf_htype f = PB_HTYPE_ONEOF" "xs \<noteq> []"
    using pend skipped that by (auto simp: pending_field_def)
  obtain fr1 where fr1: "frame_at fs b (required_before fs (Suc j)) fr1"
    "\<And>rest fr2 m2. loop_reads vw env k decoders fr1 rest m1 fr2 m2 \<Longrightarrow> loop_reads vw env k decoders fr (xs @ rest) m fr2 m2"
    using field_loop [where decoders = decoders, OF st fs j y m1(1) Suc.prems(4) one] by blast
  have none: "m1 = m" if "pf_htype f = PB_HTYPE_ONEOF" "load_size m0 z \<noteq> unat (pf_tag f)"
    using m1(1) unfolding skipped [OF that] by (rule field_reads_none)
  have other: "(pending_field (de_fields env) m0 m (?X l) (?Y l) \<longrightarrow> pending_field (de_fields env) m0 m1 (?X l) (?Y l)) \<and>
      (read_field (de_fields env) m0 m (?X l) (?Y l) \<longrightarrow> read_field (de_fields env) m0 m1 (?X l) (?Y l))"
    if "l < length fs - 1" "l \<noteq> j" for l
    using other_field [OF st _ _ that(2) refl refl _ _ pos m1(2,3) none] that(1) j x y fs by blast
  have read: "read_field (de_fields env) m0 m1 (?X l) (?Y l)" if "l < Suc j" for l
  proof (cases "l = j")
    case True
    then show ?thesis using m1(3) x y by simp
  next
    case False
    then show ?thesis using other [of l] Suc.prems(5) that j by simp
  qed
  have pending: "pending_field (de_fields env) m0 m1 (?X l) (?Y l)" if "Suc j \<le> l" "l < length fs - 1" for l
    using other [of l] Suc.prems(6) that by simp
  obtain fr' m' where m': "loop_reads vw env k decoders fr1 ys m1 fr' m'" "frame_at fs b (required_before fs (length fs - 1)) fr'"
    "\<forall>l < length fs - 1. read_field (de_fields env) m0 m' (?X l) (?Y l)" "\<forall>c. c \<notin> {b..<b + msize i} \<longrightarrow> m' c = m1 c"
    using Suc.IH [OF _ bs(2) l(2) fr1(1), of m1] Suc.prems(1) read pending by auto
  have "loop_reads vw env k decoders fr bs m fr' m'" unfolding bs(3) by (rule fr1(2) [OF m'(1)])
  moreover have "m' c = m c" if "c \<notin> {b..<b + msize i}" for c using m'(4) m1(2) within that by (metis subsetD)
  ultimately show ?case using m'(2,3) by blast
qed

text \<open>At the end a union has the tag of the source.\<close>

lemma read_agree:
  assumes st: "static_messages descs msize rank" "plain_messages descs" and pos: "0 < a" "0 \<notin> {b..<b + msize i}"
    and read: "\<forall>l < length (descs i) - 1. read_field descs m0 m (layout (descs i) a ! l) (layout (descs i) b ! l)"
    and proper: "list_all (proper_field proper m0 (layout (descs i) a)) (layout (descs i) a)"
  shows "agree descs m0 m i a b"
proof (rule agree_fields, unfold list_all2_conv_all_nth, intro conjI allI impI)
  let ?X = "\<lambda>l. layout (descs i) a ! l" and ?Y = "\<lambda>l. layout (descs i) b ! l"
  fix l assume "l < length (layout (descs i) a)"
  then have l: "l < length (descs i) - 1" by simp
  obtain f p z where x: "?X l = (f, p, z)" by (metis surj_pair)
  obtain f' q y where "?Y l = (f', q, y)" by (metis surj_pair)
  then have y: "?Y l = (f, q, y)" using layout_shift(1) [OF l x] by blast
  have r: "read_field descs m0 m (f, p, z) (f, q, y)" using read l x y by metis
  have bound: "0 < z \<and> 0 < y" if "l < length (descs i) - 1" "?X l = (f, p, z)" "?Y l = (f, q, y)" "pf_htype f = PB_HTYPE_ONEOF" for l f p z q y
  proof -
    have "(f, p, z) \<in> set (layout (descs i) a)" "(f, q, y) \<in> set (layout (descs i) b)" using layout_at [OF that(1)] that by metis+
    from layout_fields(4) [OF st this(1)] layout_fields(4) [OF st this(2)]
    have "{z..<z + 4} \<subseteq> {a..<a + msize i}" "{y..<y + 4} \<subseteq> {b..<b + msize i}"
      using bytes_of_value(3) [of f z p] bytes_of_value(3) [of f y q] that(4) by blast+
    then have "z \<in> {a..<a + msize i}" "y \<in> {b..<b + msize i}" by auto
    then show ?thesis using pos by (cases "y = 0") auto
  qed
  show "same_field (agree descs m0 m) m0 m (?X l) (?Y l)"
  proof (cases "pf_htype f = PB_HTYPE_ONEOF")
    case False
    then show ?thesis using r by (simp add: x y read_field_def)
  next
    case True
    have "load_size m y = load_size m0 z"
    proof (cases "load_size m0 z = 0 \<or> load_size m0 z = unat (pf_tag f)")
      case simple: True
      then show ?thesis using r True by (auto simp: read_field_def)
    next
      case False
      have "proper_field proper m0 (layout (descs i) a) (f, p, z)"
        using proper layout_at [OF l, of a] x by (auto simp: list_all_iff)
      then obtain g e where g: "(g, e, z) \<in> set (layout (descs i) a)" "pf_htype g = PB_HTYPE_ONEOF" "unat (pf_tag g) = load_size m0 z"
        using False True by (auto simp: proper_field_def list_ex_iff)
      then obtain j where j: "j < length (descs i) - 1" "?X j = (g, e, z)" by (auto simp: in_set_conv_nth)
      obtain g' e' y' where "?Y j = (g', e', y')" by (metis surj_pair)
      then have yj: "?Y j = (g, e', y')" using layout_shift(1) [OF j] by blast
      note pl = bound [OF l x y True] and pj = bound [OF j yj g(2)]
      have "int y - int b = int z - int a" using pl by (intro size_shift [OF st l x y True]) simp_all
      moreover have "int y' - int b = int z - int a" using pj by (intro size_shift [OF st j yj g(2)]) simp_all
      ultimately have "y' = y" by linarith
      moreover have "read_field descs m0 m (g, e, z) (g, e', y')" using read j yj by metis
      ultimately show ?thesis using g(2,3) by (simp add: read_field_def)
    qed
    then show ?thesis using r True by (simp add: x y read_field_def same_field_def)
  qed
qed simp

section \<open>Messages\<close>

lemma reads_finish:
  fixes vw :: "'s view"
  assumes wf: "wf_fields fs" and fr: "frame_at fs b (required_before fs (length fs - 1)) fr"
  shows "reads vw (call_op (decode_finish fr) :: ('s, 'h, unit) dec) [] m () m"
proof (rule reads_pure)
  obtain l where "it_full fs b l (fr_iter fr)" using fr by (auto simp: frame_at_def)
  then have c: "count_required (fr_iter fr) = required_before fs (length fs - 1)" by (rule count_required_full [OF wf])
  have "all_required (fr_seen fr) (count_required (fr_iter fr))"
    using fr all_required_seen unfolding c by (simp add: frame_at_def)
  then show "call_op (decode_finish fr) d = Some (Some (), d\<lparr>pd_mem := m\<rparr>)" if "pd_mem d = m" for d :: "('s, 'h) pb_dec"
    using that fr by (cases d) (simp add: decode_finish_def call_op_def frame_at_def)
qed simp

lemma frame_begin:
  assumes "wf_fields fs" "1 < length fs"
  shows "frame_at fs b (required_before fs 0)
    \<lparr>fr_iter = snd (pb_field_iter_begin fs b), fr_seen = [0, 0], fr_ext_start = 0, fr_fixed = None\<rparr>"
  using it_full_begin [OF assms] seen_0 by (auto simp: frame_at_def required_before_def)

text \<open>The loop and the end of \<open>pb_decode_noinit\<close> make the function.\<close>

lemma reads_noinit_loop:
  fixes env :: "('s, 'h) pb_denv" and vw :: "'s view"
  assumes l: "loop_reads vw env n
      (PB_DECODERS env (decode_with_defaults env n (pb_decode_noinit env n)) (pb_decode_noinit env n))
      \<lparr>fr_iter = snd (pb_field_iter_begin (de_fields env i) b), fr_seen = [0, 0], fr_ext_start = 0, fr_fixed = None\<rparr> bs m fr m'"
    and f: "reads vw (call_op (decode_finish fr) :: ('s, 'h, unit) dec) [] m' () m'"
  shows "reads_all vw (pb_decode_noinit env (Suc n) i b) bs m () m'"
proof (rule reads_allI)
  fix d :: "('s, 'h) pb_dec" and zs
  assume d: "pd_mem d = m" "delivers vw m (pd_in d) bs zs"
  let ?decoders = "PB_DECODERS env (decode_with_defaults env n (pb_decode_noinit env n)) (pb_decode_noinit env n)"
  let ?fr = "\<lparr>fr_iter = snd (pb_field_iter_begin (de_fields env i) b), fr_seen = [0, 0], fr_ext_start = 0, fr_fixed = None\<rparr>"
  let ?d = "d\<lparr>pd_fixed := 0\<rparr>"
  have len: "is_left (pd_in d) = length bs" using d(2) by (simp add: delivers_def)
  have "reads_all vw (decode_loop env n ?decoders (length bs + 1) ?fr) bs m fr m'" using l by (simp add: loop_reads_def)
  moreover have "pd_mem ?d = m" "delivers vw m (pd_in ?d) bs zs" using d by simp_all
  ultimately obtain s where s: "decode_loop env n ?decoders (length bs + 1) ?fr ?d = Some (Some fr, ?d\<lparr>pd_mem := m', pd_in := s\<rparr>)"
    "delivers vw m' s [] zs" by (rule reads_allE)
  have "pd_mem (?d\<lparr>pd_mem := m', pd_in := s\<rparr>) = m'" "delivers vw m' (pd_in (?d\<lparr>pd_mem := m', pd_in := s\<rparr>)) ([] @ []) zs"
    using s(2) by simp_all
  from readsE [OF f this] obtain s' where
    s': "call_op (decode_finish fr) (?d\<lparr>pd_mem := m', pd_in := s\<rparr>) = Some (Some (), ?d\<lparr>pd_mem := m', pd_in := s\<rparr>\<lparr>pd_mem := m', pd_in := s'\<rparr>)"
    "delivers vw m' s' [] zs" by blast
  have "?d\<lparr>pd_mem := m', pd_in := s'\<rparr>\<lparr>pd_fixed := pd_fixed d\<rparr> = d\<lparr>pd_mem := m', pd_in := s'\<rparr>" by (cases d) simp
  then show "\<exists>s. pb_decode_noinit env (Suc n) i b d = Some (Some (), d\<lparr>pd_mem := m', pd_in := s\<rparr>) \<and> delivers vw m' s [] zs"
    using s(1) s' len by (intro exI [of _ s']) (simp add: call_bind_def Let_def)
qed

lemma reads_defaults:
  fixes env :: "('s, 'h) pb_denv" and vw :: "'s view"
  assumes d: "pb_message_set_to_defaults (de_fields env) n i b m = Some m1" and m1: "\<And>c. c \<notin> snd vw \<Longrightarrow> m1 c = m c"
    and f: "reads_all vw (noinit i b :: ('s, 'h, unit) dec) bs m1 () m'"
  shows "reads_all vw (decode_with_defaults env n noinit i b) bs m () m'"
proof (rule reads_allI)
  fix d :: "('s, 'h) pb_dec" and zs
  assume s: "pd_mem d = m" "delivers vw m (pd_in d) bs zs"
  let ?d = "d\<lparr>pd_mem := m1\<rparr>"
  have "pd_mem ?d = m1" "delivers vw m1 (pd_in ?d) bs zs" using delivers_mem [OF s(2)] m1 by simp_all
  from reads_allE [OF f this] obtain t where
    "noinit i b ?d = Some (Some (), ?d\<lparr>pd_mem := m', pd_in := t\<rparr>)" "delivers vw m' t [] zs" by blast
  then show "\<exists>t. decode_with_defaults env n noinit i b d = Some (Some (), d\<lparr>pd_mem := m', pd_in := t\<rparr>) \<and> delivers vw m' t [] zs"
    using d s(1) by (intro exI [of _ t]) (simp add: decode_with_defaults_def call_defaults_def)
qed

lemma static_ref_field:
  assumes "static_messages descs msize rank" "plain_messages descs"
  shows "ref_message descs refs (Suc n) m0 i a = ref_plain descs n (ref_message descs refs n m0) m0 (layout (descs i) a)"
proof -
  have "(if pf_ltype f = PB_LTYPE_EXTENSION then e else ref_field refs dflt rec m0 f p) = ref_basic dflt rec m0 f p"
    if "(f, p, z) \<in> set (layout (descs i) a)" for f p z e dflt rec
    using layout_fields(1) [OF assms that] by (simp add: field_ok_def ref_field_def)
  then show ?thesis
    by (auto simp: Let_def ref_fields_def intro!: foldr_cong)
qed

text \<open>What one call of \<open>pb_decode_noinit\<close> does, to some depth.\<close>

definition noinit_reads ::
  "('s, 'h) pb_denv \<Rightarrow> (nat \<Rightarrow> nat) \<Rightarrow> (nat \<Rightarrow> nat) \<Rightarrow> pb_refs \<Rightarrow> memory \<Rightarrow> 's view \<Rightarrow> nat \<Rightarrow> bool" where
  "noinit_reads env msize rank refs m0 vw n \<longleftrightarrow>
     (\<forall>i k a b m bs. rank i < n \<longrightarrow> ref_message (de_fields env) refs k m0 i a = Some (True, bs) \<longrightarrow>
        proper_message (de_fields env) k m0 i a \<longrightarrow> length bs < 2 ^ 32 \<longrightarrow> 0 < a \<longrightarrow> {b..<b + msize i} \<subseteq> snd vw \<longrightarrow>
        blank (de_fields env) m i b \<longrightarrow>
        (\<exists>m'. reads_all vw (pb_decode_noinit env n i b) bs m () m' \<and> (\<forall>c. c \<notin> {b..<b + msize i} \<longrightarrow> m' c = m c) \<and>
          agree (de_fields env) m0 m' i a b))"

lemma value_readers:
  fixes env :: "('s, 'h) pb_denv" and vw :: "'s view"
  assumes st: "static_messages (de_fields env) msize rank" "plain_messages (de_fields env)"
    and IH: "noinit_reads env msize rank refs m0 vw n" and y: "(f, d, z) \<in> set (layout (de_fields env i) b)"
    and R: "R \<subseteq> snd vw" and i: "rank i \<le> n"
  shows "value_reader (de_fields env) (ref_message (de_fields env) refs k m0) (proper_message (de_fields env) k m0) m0 vw R f
    (PB_DECODERS env (decode_with_defaults env n (pb_decode_noinit env n)) (pb_decode_noinit env n) f)"
  unfolding value_reader_def
proof (intro allI impI)
  fix p q m bs
  let ?noinit = "pb_decode_noinit env n"
  assume v: "ref_value (ref_message (de_fields env) refs k m0) m0 f p = Some (True, bs)" "0 < p" "length bs < 2 ^ 32"
    "proper_value (proper_message (de_fields env) k m0) m0 f p" "{q..<q + pf_data_size f} \<subseteq> R"
    "pf_ltype f = PB_LTYPE_SUBMESSAGE \<and> pf_htype f \<noteq> PB_HTYPE_REPEATED \<longrightarrow> fresh_value (blank (de_fields env) m) m f q"
  have q: "{q..<q + pf_data_size f} \<subseteq> snd vw" using v(5) R by blast
  show "\<exists>m'. reads vw (PB_DECODERS env (decode_with_defaults env n ?noinit) ?noinit f q) bs m () m' \<and>
      (\<forall>x. x \<notin> {q..<q + pf_data_size f} \<longrightarrow> m' x = m x) \<and> same_value (agree (de_fields env) m0 m') m0 m' f p q"
  proof (rule reads_value [OF layout_fields(1) [OF st y] q v(2,1,3,4)])
    fix j cs
    assume j: "pf_ptr f = Ptr_fields j" "ref_message (de_fields env) refs k m0 j p = Some (True, cs)"
      "proper_message (de_fields env) k m0 j p" "length cs < 2 ^ 32"
    have sub: "msize j \<le> pf_data_size f" "rank j < rank i" "pf_ltype f = PB_LTYPE_SUBMESSAGE" using layout_sub [OF st y] j(1) by simp_all
    then have jq: "{q..<q + msize j} \<subseteq> {q..<q + pf_data_size f}" and rj: "rank j < n" using i by auto
    have rec: "\<exists>m'. reads_all vw (?noinit j q) cs m1 () m' \<and> (\<forall>c. c \<notin> {q..<q + msize j} \<longrightarrow> m' c = m1 c) \<and>
        agree (de_fields env) m0 m' j p q" if "blank (de_fields env) m1 j q" for m1
      using IH rj j(2-4) v(2) subset_trans [OF jq q] that unfolding noinit_reads_def by blast
    show "\<exists>m'. reads_all vw (if pf_htype f = PB_HTYPE_REPEATED then decode_with_defaults env n ?noinit j q else ?noinit j q) cs m () m' \<and>
        (\<forall>x. x \<notin> {q..<q + pf_data_size f} \<longrightarrow> m' x = m x) \<and> agree (de_fields env) m0 m' j p q"
    proof (cases "pf_htype f = PB_HTYPE_REPEATED")
      case True
      obtain m1 where m1: "pb_message_set_to_defaults (de_fields env) n j q m = Some m1"
        "\<And>c. c \<notin> {q..<q + msize j} \<Longrightarrow> m1 c = m c" "blank (de_fields env) m1 j q"
        using sets_blank [OF st rj] by metis
      obtain m' where m': "reads_all vw (?noinit j q) cs m1 () m'" "\<forall>c. c \<notin> {q..<q + msize j} \<longrightarrow> m' c = m1 c"
        "agree (de_fields env) m0 m' j p q" using rec [OF m1(3)] by blast
      have "reads_all vw (decode_with_defaults env n ?noinit j q) cs m () m'"
        by (rule reads_defaults [where noinit = ?noinit, OF m1(1) m1(2) m'(1)]) (use jq q in blast)
      moreover have "m' x = m x" if "x \<notin> {q..<q + pf_data_size f}" for x
      proof -
        have "x \<notin> {q..<q + msize j}" using that jq by blast
        then show ?thesis using m'(2) m1(2) by simp
      qed
      ultimately show ?thesis using True m'(3) by auto
    next
      case False
      then have "blank (de_fields env) m j q" using v(6) sub(3) j(1) by (simp add: fresh_value_def)
      from rec [OF this] show ?thesis using False jq by (simp only: if_False) blast
    qed
  qed
qed

lemma reads_noinit:
  fixes env :: "('s, 'h) pb_denv" and vw :: "'s view"
  assumes st: "static_messages (de_fields env) msize rank" "plain_messages (de_fields env)" and vw: "0 \<notin> snd vw"
  shows "noinit_reads env msize rank refs m0 vw n"
proof (induction n)
  case 0
  then show ?case by (simp add: noinit_reads_def)
next
  case (Suc n)
  show ?case
    unfolding noinit_reads_def
  proof (intro allI impI)
    fix i k a b m bs
    assume i: "rank i < Suc n" and ref: "ref_message (de_fields env) refs k m0 i a = Some (True, bs)"
      and proper: "proper_message (de_fields env) k m0 i a" and len: "length bs < 2 ^ 32" and a: "0 < a"
      and R: "{b..<b + msize i} \<subseteq> snd vw" and blank: "blank (de_fields env) m i b"
    let ?fs = "de_fields env i"
    let ?decoders = "PB_DECODERS env (decode_with_defaults env n (pb_decode_noinit env n)) (pb_decode_noinit env n)"
    let ?fr = "\<lparr>fr_iter = snd (pb_field_iter_begin ?fs b), fr_seen = [0, 0], fr_ext_start = 0, fr_fixed = None\<rparr>"
    have wf: "wf_fields ?fs" using st(1) by (simp add: static_messages_def)
    obtain k' where k: "k = Suc k'" using ref by (cases k) auto
    have plain: "ref_plain (de_fields env) k' (ref_message (de_fields env) refs k' m0) m0 (layout ?fs a) = Some (True, bs)"
      using ref static_ref_field [OF st] unfolding k by simp
    have pr: "list_all (proper_field (proper_message (de_fields env) k' m0) m0 (layout ?fs a)) (layout ?fs a)"
      using proper by (simp add: k)
    have pos: "0 \<notin> {b..<b + msize i}" using R vw by blast
    show "\<exists>m'. reads_all vw (pb_decode_noinit env (Suc n) i b) bs m () m' \<and> (\<forall>c. c \<notin> {b..<b + msize i} \<longrightarrow> m' c = m c) \<and>
        agree (de_fields env) m0 m' i a b"
    proof (cases "1 < length ?fs")
      case False
      then have fs: "?fs = [PB_LAST_FIELD]" using wf wf_one [OF wf] by (cases ?fs) (auto simp: wf_fields_def)
      then have "layout ?fs c = []" for c by (simp add: layout_def)
      then have bs: "bs = []" and same: "agree (de_fields env) m0 m i a b"
        using plain by (auto simp: ref_fields_def produce_def intro!: agree_fields)
      have "decode_finish ?fr d = (Some (), d)" for d :: "('s, 'h) pb_dec"
        by (subst decode_finish_def, subst count_required.simps)
          (simp add: fs pb_field_iter_next_def pb_field_iter_begin_def it_field_def field_at_def PB_LAST_FIELD_def Let_def all_required_def)
      then have "reads vw (call_op (decode_finish ?fr) :: ('s, 'h, unit) dec) [] m () m"
        by (intro reads_pure) (auto simp: call_op_def)
      then have "reads_all vw (pb_decode_noinit env (Suc n) i b) bs m () m"
        unfolding bs by (rule reads_noinit_loop [OF loop_reads_end])
      then show ?thesis using same by blast
    next
      case True
      have func: "value_reader (de_fields env) (ref_message (de_fields env) refs k' m0) (proper_message (de_fields env) k' m0) m0 vw
          (bytes_of (f, q, y)) f (?decoders f)" if y: "(f, q, y) \<in> set (layout ?fs b)" for f q y
        using layout_fields(4) [OF st y] R i by (intro value_readers [OF st Suc.IH y]) auto
      have pend: "pending_field (de_fields env) m0 m (layout ?fs a ! l) (layout ?fs b ! l)" if l: "l < length ?fs - 1" for l
      proof -
        obtain f p z where x: "layout ?fs a ! l = (f, p, z)" by (metis surj_pair)
        obtain f' q y where "layout ?fs b ! l = (f', q, y)" by (metis surj_pair)
        then have y: "layout ?fs b ! l = (f, q, y)" using layout_shift(1) [OF l x] by blast
        have "fresh_field (blank (de_fields env) m) m (f, q, y)" using blank_fields [OF blank] layout_at [OF l, of b] y by metis
        then show ?thesis by (simp add: x y pending_field_def fresh_field_def)
      qed
      obtain fr' m' where m': "loop_reads vw env n ?decoders ?fr bs m fr' m'" "frame_at ?fs b (required_before ?fs (length ?fs - 1)) fr'"
        "\<forall>l < length ?fs - 1. read_field (de_fields env) m0 m' (layout ?fs a ! l) (layout ?fs b ! l)"
        "\<forall>c. c \<notin> {b..<b + msize i} \<longrightarrow> m' c = m c"
        using message_loop [OF st refl a pos R _ func pr, of n 0 "length ?fs - 1" k' bs ?fr m] plain len frame_begin [OF wf True] pend i
        by auto
      have "agree (de_fields env) m0 m' i a b" by (rule read_agree [OF st a pos m'(3) pr])
      then show ?thesis using reads_noinit_loop [OF m'(1) reads_finish [OF wf m'(2)]] m'(4) by blast
    qed
  qed
qed

text \<open>Decoding an encoding from a buffer.\<close>

lemma decode_encoding:
  fixes env :: "('s, 'h) pb_denv"
  assumes st: "static_messages (de_fields env) msize rank" "plain_messages (de_fields env)" and i: "rank i < n"
    and ref: "ref_message (de_fields env) refs k m0 i a = Some (True, bs)" and proper: "proper_message (de_fields env) k m0 i a"
    and len: "length bs < 2 ^ 32" and pos: "0 < a" "0 < b"
    and d: "pd_in d = pb_istream_from_buffer p (length bs)" "rd (pd_mem d) p (length bs) = bs"
    and apart: "{p..<p + length bs} \<inter> {b..<b + msize i} = {}"
  obtains d' where "pb_decode env n i b d = Some (Some (), d')" "is_left (pd_in d') = 0" "agree (de_fields env) m0 (pd_mem d') i a b"
proof -
  define vw :: "'s view" where "vw = (\<lambda>_. [], {b..<b + msize i})"
  have vw: "snd vw = {b..<b + msize i}" "0 \<notin> snd vw" using pos(2) by (simp_all add: vw_def)
  obtain m1 where m1: "pb_message_set_to_defaults (de_fields env) n i b (pd_mem d) = Some m1"
    "\<And>c. c \<notin> {b..<b + msize i} \<Longrightarrow> m1 c = pd_mem d c" "blank (de_fields env) m1 i b"
    using sets_blank [OF st i] by metis
  obtain m' where m': "reads_all vw (pb_decode_noinit env n i b) bs m1 () m'" "agree (de_fields env) m0 m' i a b"
    using reads_noinit [OF st vw(2), of refs m0 n] i ref proper len pos(1) m1(3) vw(1) unfolding noinit_reads_def by blast
  have "reads_all vw (pb_decode env n i b) bs (pd_mem d) () m'"
    unfolding pb_decode_def by (rule reads_defaults [where noinit = "pb_decode_noinit env n", OF m1(1) m1(2) m'(1)]) (simp add: vw(1))
  moreover have "delivers vw (pd_mem d) (pd_in d) bs []" using d apart vw(1) by (simp add: delivers_buffer)
  ultimately obtain s where "pb_decode env n i b d = Some (Some (), d\<lparr>pd_mem := m', pd_in := s\<rparr>)" "delivers vw m' s [] []"
    using reads_allE [OF _ refl] by metis
  then show thesis using that m'(2) by (simp add: delivers_def)
qed

end
