(* ===== verification/Pb_Props.thy ===== *)
theory Pb_Props
  imports Pb_Enc_Ref Pb_Enc_Total Pb_Dec_Total Pb_Roundtrip
begin

text \<open>
  The properties of nanopb, with their instances: a message \<open>demo\<close> with a required number, an optional
  submessage and a packed array, in a struct of 32 bytes.
\<close>

section \<open>The instance\<close>

definition demo_fields :: "nat \<Rightarrow> pb_field list" where
  "demo_fields i =
     (if i = 0 then
        [\<lparr>pf_tag = 1, pf_type = 0x01, pf_data_offset = 0, pf_size_offset = 0, pf_data_size = 4, pf_array_size = 0, pf_ptr = Ptr_null\<rparr>,
         \<lparr>pf_tag = 2, pf_type = 0x17, pf_data_offset = 4, pf_size_offset = -4, pf_data_size = 8, pf_array_size = 0, pf_ptr = Ptr_fields 1\<rparr>,
         \<lparr>pf_tag = 3, pf_type = 0x20, pf_data_offset = 4, pf_size_offset = -4, pf_data_size = 4, pf_array_size = 3, pf_ptr = Ptr_null\<rparr>,
         PB_LAST_FIELD]
      else if i = 1 then
        [\<lparr>pf_tag = 1, pf_type = 0x02, pf_data_offset = 0, pf_size_offset = 0, pf_data_size = 4, pf_array_size = 0, pf_ptr = Ptr_null\<rparr>,
         \<lparr>pf_tag = 2, pf_type = 0x03, pf_data_offset = 0, pf_size_offset = 0, pf_data_size = 4, pf_array_size = 0, pf_ptr = Ptr_null\<rparr>,
         PB_LAST_FIELD]
      else [PB_LAST_FIELD])"

definition demo_size :: "nat \<Rightarrow> nat" where
  "demo_size i = (if i = 0 then 32 else if i = 1 then 8 else 0)"

definition demo_rank :: "nat \<Rightarrow> nat" where
  "demo_rank i = (if i = 0 then 1 else 0)"

lemma nat_offset: "nat (numeral k + int a) = numeral k + a"
  by (simp add: nat_add_distrib)

lemma demo_static: "static_messages demo_fields demo_size demo_rank"
  by (auto simp: nat_offset Let_def static_messages_def demo_fields_def demo_size_def demo_rank_def wf_fields_def PB_LAST_FIELD_def layout_def
    PB_ATYPE_def PB_HTYPE_def PB_LTYPE_def size_addr_def prev_size_def field_ok_def within_def)

lemma demo_descs: "descs_ok demo_fields" "oneofs_ok demo_fields"
  by (simp_all add: descs_ok_def oneofs_ok_def demo_fields_def wf_fields_def PB_LAST_FIELD_def PB_HTYPE_def)

lemma demo_plain: "plain_messages demo_fields"
  by (auto simp: nat_offset Let_def plain_messages_def demo_fields_def PB_LAST_FIELD_def layout_def
    PB_ATYPE_def PB_HTYPE_def PB_LTYPE_def size_addr_def prev_size_def size_bytes_def plain_field_def parted_def apart_def)

definition demo_env :: "'s pb_env" where
  "demo_env = \<lparr>env_fields = demo_fields, env_encode = \<lambda>_ _ _ _. os_error ''no callback'', env_ext_encode = \<lambda>_ _ _. os_error ''no extension''\<rparr>"

definition demo_refs :: pb_refs where
  "demo_refs = \<lparr>refs_callback = \<lambda>_ _ _ _. refuse, refs_extension = \<lambda>_ _ _. refuse\<rparr>"

lemma demo_law: "env_law buf_write buf_put demo_env demo_refs"
  by (simp add: env_law_def demo_env_def demo_refs_def buf.does_error)

definition demo_denv :: "('s, 'h) pb_denv" where
  "demo_denv = \<lparr>de_fields = demo_fields, de_decode = \<lambda>_ _ _. pd_error ''no callback'', de_ext_decode = \<lambda>_ _ _ _. pd_error ''no extension'',
     de_realloc = \<lambda>h m _ _. (0, m, h), de_free = \<lambda>h m _. (m, h)\<rparr>"

text \<open>A message at address 100: the number 5, the submessage with 1 and 7, the array with 1 and 2.\<close>

definition demo_message :: memory where
  "demo_message = (\<lambda>_. 0)(100 := 5, 104 := 1, 108 := 1, 112 := 7, 116 := 2, 120 := 1, 124 := 2)"

lemma demo_encoding:
  "ref_message demo_fields demo_refs 3 demo_message 0 100 =
     Some (True, [0x08, 5, 0x12, 0x07, 0x08, 0x02, 0x15, 7, 0, 0, 0, 0x1a, 0x02, 1, 2])"
  by code_simp

lemma demo_proper: "proper_message demo_fields 3 demo_message 0 100"
  by code_simp

section \<open>Properties\<close>

text \<open>An encoding that fits is what the buffer gets.\<close>

lemma encode_fits:
  assumes "env_law buf_write buf_put env refs" "descs_ok (env_fields env)"
    and "ref_message (env_fields env) refs n msg flds src = Some (True, bs)" "length bs < 2 ^ 64" "length bs \<le> k"
  shows "pb_encode env n msg flds src (pb_ostream_from_buffer m buf k) =
    Some (Some (), put_out buf_put bs (pb_ostream_from_buffer m buf k))"
proof -
  have "does buf_write buf_put (pb_encode env n msg flds src) (Some (True, bs))"
    using buf.encode_does [OF assms(1,2), of n msg flds src] assms(3) by simp
  then show ?thesis using assms(4,5) by (simp add: does_def pb_ostream_from_buffer_def out_ok_def fits_def)
qed

text \<open>C2: The encoder of nanopb writes to a buffer exactly the reference encoding of the message, the
  concatenation of what its fields have, if this is valid and fits, and \<open>pb_get_encoded_size\<close> is its length; otherwise it reports an error, and
  it never writes outside the buffer.\<close>

theorem pb_encode_exact:
  assumes "env_law buf_write buf_put env refs" "descs_ok (env_fields env)"
    and "ref_message (env_fields env) refs n msg flds src = Some (ok, bs)" "length bs < 2 ^ 64"
  shows "(\<exists>r s. pb_encode env n msg flds src (pb_ostream_from_buffer m buf k) = Some (r, s) \<and>
      (r = Some () \<longleftrightarrow> ok \<and> length bs \<le> k) \<and>
      (r = Some () \<longrightarrow> os_sink s = Some (buf_write, (wr m buf bs, buf + length bs)) \<and> os_written s = length bs) \<and>
      (\<forall>m' p. os_sink s = Some (buf_write, (m', p)) \<longrightarrow> (\<forall>x. x \<notin> {buf..<buf + k} \<longrightarrow> m' x = m x))) \<and>
    pb_get_encoded_size env n msg flds src = Some (if ok then Some (length bs) else None)"
proof -
  have d: "does buf_write buf_put (pb_encode env n msg flds src) (Some (ok, bs))"
    using buf.encode_does [OF assms(1,2), of n msg flds src] assms(3) by simp
  let ?s = "pb_ostream_from_buffer m buf k"
  have s: "out_ok buf_write ?s" "os_written ?s = 0" "fits i ?s \<longleftrightarrow> i \<le> k" for i
    by (simp_all add: pb_ostream_from_buffer_def out_ok_def fits_def)
  have out: "wr m buf xs x = m x" if "length xs \<le> k" "x \<notin> {buf..<buf + k}" for xs x
    using that by (intro wr_out) auto
  have enc: "\<exists>r s. pb_encode env n msg flds src ?s = Some (r, s) \<and>
      (r = Some () \<longleftrightarrow> ok \<and> length bs \<le> k) \<and>
      (r = Some () \<longrightarrow> os_sink s = Some (buf_write, (wr m buf bs, buf + length bs)) \<and> os_written s = length bs) \<and>
      (\<forall>m' p. os_sink s = Some (buf_write, (m', p)) \<longrightarrow> (\<forall>x. x \<notin> {buf..<buf + k} \<longrightarrow> m' x = m x))"
  proof (cases "ok \<and> length bs \<le> k")
    case True
    then have "pb_encode env n msg flds src ?s = Some (Some (), put_out buf_put bs ?s)"
      using assms by (intro encode_fits [OF assms(1,2)]) simp_all
    then show ?thesis using True out [of bs] by (simp add: pb_ostream_from_buffer_def put_out_def buf_put_def)
  next
    case False
    then obtain s' xs where s': "pb_encode env n msg flds src ?s = Some (None, s')"
      "os_sink s' = map_option (\<lambda>(cb, st). (cb, buf_put st xs)) (os_sink ?s)" "length xs \<le> k"
      using does_full [OF d s(1)] s assms(4) by (auto simp: stopped_def)
    then show ?thesis using False out [of xs] by (auto simp: pb_ostream_from_buffer_def buf_put_def)
  qed
  obtain s' where "pb_encode env n msg flds src PB_OSTREAM_SIZING = Some (if ok then Some () else None, s')"
    "ok \<longrightarrow> os_written s' = length bs"
    using buf.does_sizing [OF d] assms(4) by auto
  then have "pb_get_encoded_size env n msg flds src = Some (if ok then Some (length bs) else None)"
    by (cases ok) (simp_all add: pb_get_encoded_size_def)
  with enc show ?thesis by blast
qed

theorem pb_encode_exact_witness:
  "pb_get_encoded_size (demo_env :: (memory \<times> nat) pb_env) 3 demo_message 0 100 = Some (Some 15) \<and>
   (\<exists>s. pb_encode demo_env 3 demo_message 0 100 (pb_ostream_from_buffer (\<lambda>_. 0) 500 15) = Some (Some (), s)) \<and>
   (\<exists>s. pb_encode demo_env 3 demo_message 0 100 (pb_ostream_from_buffer (\<lambda>_. 0) 500 14) = Some (None, s))"
proof -
  have e: "env_fields demo_env = demo_fields" by (simp add: demo_env_def)
  note x = pb_encode_exact [OF demo_law, unfolded e, OF demo_descs(1) demo_encoding, of "\<lambda>_. 0" 500]
  obtain r1 s1 where 1: "pb_encode demo_env 3 demo_message 0 100 (pb_ostream_from_buffer (\<lambda>_. 0) 500 15) = Some (r1, s1)" "r1 = Some ()"
    using x [of 15] by auto
  obtain r2 s2 where 2: "pb_encode demo_env 3 demo_message 0 100 (pb_ostream_from_buffer (\<lambda>_. 0) 500 14) = Some (r2, s2)" "r2 \<noteq> Some ()"
    using x [of 14] by auto
  show ?thesis using 1 2 conjunct2 [OF x [of 15]] by (cases r2) simp_all
qed

text \<open>C4: Decoding a message whose fields are all static comes back for every input, valid or not, changes no
  byte outside the message struct, does not use the allocator and never gives bytes back to the stream.\<close>

theorem pb_decode_safe:
  assumes "static_messages (de_fields env) msize rank" "rank flds + 1 < n" "in_ok (pd_in d)"
  shows "\<exists>r d'. pb_decode env n flds dest d = Some (r, d') \<and>
    (\<forall>x. x \<notin> {dest..<dest + msize flds} \<longrightarrow> pd_mem d' x = pd_mem d x) \<and> pd_heap d' = pd_heap d \<and>
    is_left (pd_in d') \<le> is_left (pd_in d)"
proof -
  have "runs {dest..<dest + msize flds} any (pb_decode env n flds dest)"
    by (intro runs_decode [OF assms(1,2)] subset_refl)
  from runsE [OF this assms(3)] show ?thesis by metis
qed

definition demo_state :: "memory \<Rightarrow> nat \<Rightarrow> (unit, unit) pb_dec" where
  "demo_state m k = \<lparr>pd_mem = m, pd_heap = (), pd_in = pb_istream_from_buffer 500 k, pd_fixed = 0\<rparr>"

theorem pb_decode_safe_witness:
  "\<forall>m k. \<exists>r d. pb_decode demo_denv 3 0 100 (demo_state m k) = Some (r, d) \<and> pd_mem d 99 = m 99 \<and> pd_mem d 132 = m 132"
proof (intro allI)
  fix m k
  have st: "static_messages (de_fields (demo_denv :: (unit, unit) pb_denv)) demo_size demo_rank"
    using demo_static by (simp add: demo_denv_def)
  have "demo_rank 0 + 1 < 3" "in_ok (pd_in (demo_state m k))"
    by (simp_all add: demo_rank_def demo_state_def in_ok_def src_ok_def pb_istream_from_buffer_def)
  from pb_decode_safe [OF st this, of 100]
  show "\<exists>r d. pb_decode demo_denv 3 0 100 (demo_state m k) = Some (r, d) \<and> pd_mem d 99 = m 99 \<and> pd_mem d 132 = m 132"
    by (fastforce simp: demo_size_def demo_state_def)
qed

text \<open>C3: A message with static fields, encoded to a buffer and decoded from what was written there, is the same message, field by field and to
  every depth: the decoder accepts it, uses up the bytes, and the struct it fills encodes to the same bytes again. The strings
  of the message have to end within their fields and the tag of a union has to be 0 or that of one of its fields.\<close>

theorem pb_message_roundtrip:
  fixes denv :: "('s, 'h) pb_denv" and d :: "('s, 'h) pb_dec"
  assumes "static_messages (de_fields denv) msize rank" "plain_messages (de_fields denv)" "rank flds < k"
    and "env_law buf_write buf_put env refs" "env_fields env = de_fields denv" "descs_ok (de_fields denv)"
    and "ref_message (de_fields denv) refs n msg flds src = Some (True, bs)" "proper_message (de_fields denv) n msg flds src"
    and "length bs < 2 ^ 32" "length bs \<le> z" "0 < src" "0 < dest" "{buf..<buf + z} \<inter> {dest..<dest + msize flds} = {}"
  shows "\<exists>s m' p d'. pb_encode env n msg flds src (pb_ostream_from_buffer m buf z) = Some (Some (), s) \<and>
    os_sink s = Some (buf_write, (m', p)) \<and>
    pb_decode denv k flds dest (d\<lparr>pd_mem := m', pd_in := pb_istream_from_buffer buf (os_written s)\<rparr>) = Some (Some (), d') \<and>
    is_left (pd_in d') = 0 \<and> (\<forall>j. same_message (de_fields denv) j msg (pd_mem d') flds src dest) \<and>
    ref_message (de_fields denv) refs n (pd_mem d') flds dest = Some (True, bs)"
proof -
  let ?s = "put_out buf_put bs (pb_ostream_from_buffer m buf z)" and ?m = "wr m buf bs"
  have enc: "pb_encode env n msg flds src (pb_ostream_from_buffer m buf z) = Some (Some (), ?s)"
    using assms by (intro encode_fits) simp_all
  have s: "os_sink ?s = Some (buf_write, (?m, buf + length bs))" "os_written ?s = length bs"
    by (simp_all add: pb_ostream_from_buffer_def put_out_def buf_put_def)
  let ?d = "d\<lparr>pd_mem := ?m, pd_in := pb_istream_from_buffer buf (length bs)\<rparr>"
  have apart: "{buf..<buf + length bs} \<inter> {dest..<dest + msize flds} = {}" using assms(10,13) by fastforce
  have "rd (pd_mem ?d) buf (length bs) = bs" "pd_in ?d = pb_istream_from_buffer buf (length bs)" by (simp_all add: rd_wr)
  then obtain d' where d': "pb_decode denv k flds dest ?d = Some (Some (), d')" "is_left (pd_in d') = 0"
    "agree (de_fields denv) msg (pd_mem d') flds src dest"
    using decode_encoding [OF assms(1-3,7-9,11,12) _ _ apart] by blast
  have same: "same_message (de_fields denv) j msg (pd_mem d') flds src dest" for j using d'(3) by (simp add: agree_def)
  have "ref_message (de_fields denv) refs n (pd_mem d') flds dest = Some (True, bs)"
    using same_ref_message [OF assms(1,2) same assms(11,12)] assms(7) by metis
  then show ?thesis using enc s d' same by auto
qed

theorem pb_message_roundtrip_witness:
  "\<exists>s m' p d'. pb_encode demo_env 3 demo_message 0 100 (pb_ostream_from_buffer (\<lambda>_. 9) 500 15) = Some (Some (), s) \<and>
    os_sink s = Some (buf_write, (m', p)) \<and>
    pb_decode demo_denv 3 0 200 (demo_state m' (os_written s)) = Some (Some (), d') \<and>
    ref_message demo_fields demo_refs 3 (pd_mem d') 0 200 =
      Some (True, [0x08, 5, 0x12, 0x07, 0x08, 0x02, 0x15, 7, 0, 0, 0, 0x1a, 0x02, 1, 2])"
proof -
  have e: "de_fields (demo_denv :: (unit, unit) pb_denv) = demo_fields" by (simp add: demo_denv_def)
  have d: "demo_state m 0\<lparr>pd_mem := m', pd_in := pb_istream_from_buffer 500 n\<rparr> = demo_state m' n" for m m' n
    by (simp add: demo_state_def)
  note x = pb_message_roundtrip [of "demo_denv :: (unit, unit) pb_denv" demo_size demo_rank 0 3, unfolded e, OF demo_static demo_plain _ demo_law _
    demo_descs(1) demo_encoding demo_proper, of 15 200 500 "\<lambda>_. 9" "demo_state (\<lambda>_. 9) 0", unfolded d]
  show ?thesis
    using x by (auto simp: demo_rank_def demo_size_def demo_env_def)
qed

text \<open>C30: Encoding a message whose fields are all static comes back, whatever its bytes are and
  whatever the stream and its callback do.\<close>

theorem pb_encode_returns:
  assumes "static_messages (env_fields env) msize rank" "oneofs_ok (env_fields env)" "rank flds + 1 < n"
  shows "\<exists>r s'. pb_encode env n msg flds src s = Some (r, s')"
  using returns_encode [OF assms, of msg src] by (auto simp: returns_def)

theorem pb_encode_returns_witness:
  "\<forall>m a. \<exists>r s'. pb_encode demo_env 3 m 0 a (pb_ostream_from_buffer (\<lambda>_. 0) 500 10) = Some (r, s')"
proof (intro allI)
  fix m a
  have "env_fields (demo_env :: (memory \<times> nat) pb_env) = demo_fields" "demo_rank 0 + 1 < 3"
    by (simp_all add: demo_env_def demo_rank_def)
  then show "\<exists>r s'. pb_encode demo_env 3 m 0 a (pb_ostream_from_buffer (\<lambda>_. 0) 500 10) = Some (r, s')"
    using demo_static demo_descs(2) by (intro pb_encode_returns [of demo_env demo_size demo_rank]) simp_all
qed

text \<open>C31: A zigzag integer always fits in ten bytes, and decoding them gives the integer back and leaves no byte.\<close>

theorem pb_svarint_roundtrip:
  assumes "10 \<le> k"
  shows "\<exists>s m' p. pb_encode_svarint v (pb_ostream_from_buffer m buf k) = (Some (), s) \<and> os_sink s = Some (buf_write, (m', p)) \<and>
    os_written s \<le> 10 \<and>
    (\<exists>s'. pb_decode_svarint m' (pb_istream_from_buffer buf (os_written s) :: 't pb_istream) = (Some v, s') \<and> is_left s' = 0)"
proof -
  let ?bs = "enc_varint (unat (zigzag v))" and ?s = "pb_ostream_from_buffer m buf k"
  have u: "unat (zigzag v) < 2 ^ 64" using unsigned_less [of "zigzag v", where 'a = nat] by simp
  then have l: "length ?bs \<le> 10" by (rule length_enc_varint_64)
  have "pb_encode_svarint v ?s = (Some (), put_out buf_put ?bs ?s)"
    using assms l by (intro emits_fits [OF buf.emits_svarint])
      (auto simp: pb_ostream_from_buffer_def out_ok_def fits_def)
  moreover have "delivers (\<lambda>_ :: 't. [], {}) (wr m buf ?bs) (pb_istream_from_buffer buf (length ?bs)) (?bs @ []) []"
    by (simp add: delivers_buffer rd_wr)
  from decode_svarint_delivers [OF is_varint_enc l this] obtain s' :: "'t pb_istream" where
    "pb_decode_svarint (wr m buf ?bs) (pb_istream_from_buffer buf (length ?bs)) = (Some (unzigzag (zigzag v)), s')" "is_left s' = 0"
    by (auto simp: varint_val_enc delivers_def)
  ultimately show ?thesis using l by (simp add: pb_ostream_from_buffer_def put_out_def buf_put_def)
qed

theorem pb_svarint_roundtrip_witness:
  "\<forall>m :: memory. \<exists>s m' p. pb_encode_svarint (-5) (pb_ostream_from_buffer m 500 10) = (Some (), s) \<and>
     os_sink s = Some (buf_write, (m', p)) \<and>
     (\<exists>s'. pb_decode_svarint m' (pb_istream_from_buffer 500 (os_written s) :: unit pb_istream) = (Some (-5), s'))"
  using pb_svarint_roundtrip [of 10 "-5" _ 500, where 't = unit] by fastforce

section \<open>A string without a terminator\<close>

text \<open>A string that fills its field has an encoding, which the decoder refuses for the same field: it wants room for
  a terminator.\<close>

definition full_string :: pb_field where
  "full_string = \<lparr>pf_tag = 1, pf_type = 0x06, pf_data_offset = 0, pf_size_offset = 0, pf_data_size = 2, pf_array_size = 0,
     pf_ptr = Ptr_null\<rparr>"

lemma full_string_encoded:
  "ref_value (\<lambda>_ _. None) ((\<lambda>_. 0)(100 := 7, 101 := 7)) full_string 100 = Some (True, [2, 7, 7])"
  by code_simp

lemma full_string_refused:
  "fst (pb_dec_string demo_denv full_string 200 (demo_state ((\<lambda>_. 0)(500 := 2, 501 := 7, 502 := 7)) 3)) = None"
  by code_simp

section \<open>A default that overflows\<close>

text \<open>An array with a fixed count has no count of its own: its \<open>pSize\<close> is its \<open>pData\<close>. Setting the count
  to 0 clears four bytes of the struct, also where the array is smaller.\<close>

theorem fixed_count_default_overflow:
  "\<exists>m'. set_to_default (\<lambda>_ _ _. None)
      \<lparr>pf_tag = 1, pf_type = 0x21, pf_data_offset = 0, pf_size_offset = 0, pf_data_size = 1, pf_array_size = 2, pf_ptr = Ptr_null\<rparr>
      100 100 (\<lambda>_. 1) = Some m' \<and> m' 102 = 0 \<and> m' 103 = 0"
  by (simp add: word_bytes_def set_to_default_def PB_ATYPE_def PB_HTYPE_def store_size_def store_le_def wr_def)

end
