(* ===== verification/Spec2Isabelle.thy ===== *)
theory Spec2Isabelle
  imports Const_Time Base64 Stack Registry Lhash_Run Mode_Props Pb_Props
begin

text \<open>
  A verification library of the C code in the pods of an iOS shop application: the parts of
  BoringSSL (\<open>src/src/Pods/BoringSSL-GRPC\<close>) that gRPC parses, builds and stores data with, its block cipher
  modes, and nanopb (\<open>src/src/Pods/nanopb\<close>), the protocol buffer library of Firestore. Paths below are
  relative to these pods. This theory imports all others and holds the properties of BoringSSL's
  data structures; \<open>Mode_Props\<close>, \<open>Lhash_Run\<close> and \<open>Pb_Props\<close> hold those of the block cipher modes, the
  histories of hash tables and nanopb. A property has the number C1, C2, ... and an instance,
  \<open>..._witness\<close>, where it has hypotheses.

  \<^bold>\<open>The parts of the program and their theories\<close>

  \<^item> \<^bold>\<open>Vocabulary\<close> (\<open>Prelude\<close>): C integers as words, \<open>size_t\<close> as a natural number with \<open>sz\<close> for
    the wrap-around, and operations: functions from a state to an optional result
    and the new state, None being the C return value 0 or \<open>false\<close>.
  \<^item> \<^bold>\<open>Constant-time code\<close> (\<open>Const_Time\<close>): the masks of crypto/internal.h.
  \<^item> \<^bold>\<open>Allocation and buffers\<close> (\<open>Memory\<close>, \<open>Buf\<close>): crypto/mem.c, crypto/buf/buf.c.
  \<^item> \<^bold>\<open>Byte strings\<close>: the parser CBS (\<open>Cbs\<close>; crypto/bytestring/cbs.c) and the builder CBB (\<open>Cbb\<close>; cbb.c). \<open>Der\<close> is the
    DER encoding as plain functions, \<open>Asn1\<close> relates the readers to it, \<open>Cbb_Flush\<close>, \<open>Cbb_Build\<close>,
    \<open>Cbb_Items\<close> and \<open>Cbb_Run\<close> the builder: its buffer and open children have the byte
    string \<open>cbb_val\<close> as their abstract value, and whole client programs have an encoding.
    \<open>Oid\<close> adds object identifiers and their text, \<open>Set_Of\<close> the sorting of a SET OF over the
    contracts of \<open>Sorting\<close>.
  \<^item> \<^bold>\<open>Base64\<close> (\<open>Base64\<close>): crypto/base64/base64.c.
  \<^item> \<^bold>\<open>Containers\<close>: stacks (\<open>Stack\<close>; crypto/stack/stack.c) over \<open>qsort\<close> and \<open>bsearch\<close> (\<open>Sorting\<close>), chained hash
    tables (\<open>Lhash\<close>; crypto/lhash/lhash.c) with the locale \<open>lhash_fns\<close> for what they need of their
    hash and comparison functions, and their histories (\<open>Lhash_Run\<close>).
  \<^item> \<^bold>\<open>Objects\<close>: \<open>Obj\<close> (crypto/asn1/a_object.c, crypto/obj/obj.c) and what the registry promises
    (\<open>Registry\<close>); the registry interprets \<open>lhash_fns\<close> for its four tables, and uses CBS and CBB for
    object identifiers.
  \<^item> \<^bold>\<open>Block cipher modes\<close> over a flat memory (\<open>Byte_Mem\<close>): what the byte-oriented modes share
    (\<open>Modes\<close>: locales of a mode as a step per byte, of encryption and decryption as a
    pair, of a mode on bits or bytes), OFB (\<open>Feedback\<close>; ofb.c), CTR (\<open>Ctr\<close>, \<open>Ctr32\<close>;
    ctr.c), CBC (\<open>Cbc\<close>; cbc.c), CFB (\<open>Cfb\<close>; cfb.c), CCM (\<open>Ccm\<close>; ccm.c, which calls ctr.c), all in
    crypto/fipsmodule/modes.
  \<^item> \<^bold>\<open>nanopb\<close>: the streams (\<open>Pb_Stream\<close>; pb_encode.c, pb_decode.c), with the locale \<open>sink\<close> for what an
    output stream promises; the wire format (\<open>Pb_Wire\<close>) and its reference (\<open>Pb_Varint\<close>,
    \<open>Pb_Num\<close>); field descriptors and the iterator over a message (\<open>Pb_Fields\<close>; pb.h,
    pb_common.c); the encoder (\<open>Pb_Encode\<close>), its reference encoding and the proof that it produces it (\<open>Pb_Enc_Spec\<close>,
    \<open>Pb_Enc_Ref\<close>), and that it comes back (\<open>Pb_Enc_Total\<close>); defaults, allocation and release of a message
    (\<open>Pb_Message\<close>) and the decoder (\<open>Pb_Decode\<close>), with a calculus for calls that come back and
    change only a region of the memory (\<open>Pb_Dec_Safe\<close>), its rules for the field decoders (\<open>Pb_Dec_Field\<close>), for messages of
    static fields (\<open>Pb_Dec_Static\<close>) and whole messages (\<open>Pb_Dec_Total\<close>). The round trip of a message has its own: when two
    structs hold the same message (\<open>Pb_Same\<close>) and why such have the same encoding (\<open>Pb_Same_Ref\<close>), a calculus for what the decoder
    does with the bytes of an encoding (\<open>Pb_Reads\<close>), the search for a field and the bits of the required ones (\<open>Pb_Find\<close>),
    the struct the decoder starts from (\<open>Pb_Fresh\<close>), arrays (\<open>Pb_Read_Array\<close>), one field by each rule (\<open>Pb_Read_Field\<close>), the loop
    over the tags (\<open>Pb_Read_Loop\<close>), and the message with its submessages (\<open>Pb_Roundtrip\<close>).

  \<^bold>\<open>What the lemmas show\<close>

  \<^item> Parsers accept exactly the encodings of their type, builders write exactly these, and
    so each undoes the other: DER elements, integers, object identifiers and their text,
    base64 in one piece and in any pieces.
  \<^item> Data structures refine lists, maps and multisets under every operation, allocation failures
    included; the hash table does so over every history of calls.
  \<^item> Optimised code does what its plain form does: counter mode with a 32-bit counter routine, word-wise
    and byte-wise loops, streaming and one-piece base64.
  \<^item> The modes are inverted by their counterparts for every length and every overlap of the buffers the code allows.
  \<^item> The encoder of nanopb writes the reference encoding of a message and never leaves its buffer; the decoder comes
    back for every input and changes nothing outside the message; and decoding what was encoded makes a struct with the same
    message, which has the same encoding.
  \<^item> Where the code does not do what it means to, a theorem shows the case: see the
    properties about \<open>sk_set\<close>, \<open>obj_add_object\<close> and \<open>c2i_ASN1_OBJECT\<close>, the lemma \<open>malloc_size_wraps\<close> below, the lemmas
    \<open>varint32_drops_bits\<close> and \<open>varint32_wraps\<close> in \<open>Pb_Num\<close>, and \<open>fixed_count_default_overflow\<close> and \<open>full_string_refused\<close>
    in \<open>Pb_Props\<close>.

  \<^bold>\<open>Conventions, bounds and fuel\<close>

  \<^item> The platform has 64-bit pointers and \<open>size_t\<close>, 8-bit \<open>uint_fast8_t\<close> and little endian words.
  \<^item> The allocator is a function of the number of bytes: None is a failure. \<open>alloc_bounded\<close> says that it serves
    no request of \<open>2 ^ 62\<close> bytes or more, as no C library does, which keeps the doubling of
    a buffer's capacity in \<open>size_t\<close>. \<open>alloc_total\<close> says that requests below that bound succeed.
  \<^item> Recursion over input is on the input itself or on a count that it bounds; \<open>count_elements\<close>
    and \<open>encode_lines\<close> take the length of the input as fuel, and each round takes at least one byte of it.
  \<^item> In nanopb, a call that does not return is None (\<open>('s, 'a) call\<close>). Loops over the fields of a message stop at the
    terminator or, for a search, after as many rounds as there are fields; loops over
    the input have one round more than there are bytes, and every round takes a byte. Functions that
    follow submessages take the depth to which they do, the depth of the call stack; \<open>Pb_Enc_Total\<close> and
    \<open>Pb_Dec_Total\<close> show that the nesting of the descriptors plus two is enough. A list of extensions is followed for as many
    entries as that depth.
  \<^item> The properties of whole messages of nanopb are about messages of static fields (\<open>static_messages\<close>): pointers, callbacks and extensions are
    modelled, and what they do is shown field by field. The round trip asks besides (\<open>plain_messages\<close>) what the generator of nanopb
    ensures, tags below \<open>2 ^ 29\<close> that are distinct and fields that do not overlap but in a union, and leaves out arrays
    with a fixed count; of the message it asks (\<open>proper_message\<close>) that strings have their terminator and that the tag of a union is one of its own.
  \<^item> The memory of the modes and of nanopb is a function from addresses to bytes, so that
    overlapping buffers, unions and the fields of a struct are what they are in C. An assertion of the code is a
    hypothesis of the properties.

  \<^bold>\<open>Parameters\<close>

  Code that is not in the repository, or is chosen by the caller, is an argument: the block cipher and
  \<open>ctr128_f\<close> of the modes, comparison, hash, copy and free functions of the containers, \<open>qsort\<close>
  and \<open>bsearch\<close> (locales \<open>qsort_spec\<close> and \<open>bsearch_spec\<close> state what C requires, and are
  interpreted by an insertion sort and a bisection), the compiled-in object table of obj_dat.h, and
  in nanopb the stream, field and extension callbacks, \<open>pb_realloc\<close> and \<open>pb_free\<close>.

  \<^bold>\<open>Not modelled\<close>

  \<^item> Locks and reference counts: every state has one owner. \<open>OPENSSL_cleanse\<close> and the \<open>printf\<close> wrappers only call the platform.
  \<^item> GCM (gcm.c, polyval.c) is the mode that is left of crypto/fipsmodule/modes.
  \<^item> The rest of BoringSSL (big numbers, elliptic curves, hashes, ciphers, X.509, EVP) is a
    vendored library of another size; the TLS code, gRPC, Firestore, leveldb, abseil and
    Realm are C++ or Objective-C, and the application itself is Swift over their interfaces.
\<close>

section \<open>The byte string builder and parser\<close>

text \<open>Concrete allocators for the instances below: one that serves every request of at most
  \<open>2 ^ 62\<close> bytes with zeroed memory.\<close>

definition zero_alloc :: allocator where
  "zero_alloc n = (if n < 2 ^ 62 then Some (\<lambda>_. 0) else None)"

lemma zero_alloc [simp]: "alloc_bounded zero_alloc" "alloc_total zero_alloc"
  by (auto simp: alloc_bounded_def alloc_total_def zero_alloc_def)

text \<open>C1: A client of the byte string builder that never runs out of memory gets exactly the
  encoding of the calls it made (nested ASN.1 elements, length-prefixed strings and typed values, at
  any depth), and gets an error exactly where some length does not fit its prefix.\<close>

theorem build_is_encode:
  assumes "alloc_bounded al" "alloc_total al" "cap < 2 ^ 61" "list_all item_ok is"
    and "\<And>e. encode_items is = Some e \<Longrightarrow> length e < 2 ^ 60"
  shows "build al cap is = encode_items is"
proof (cases "encode_items is")
  case None
  have "cap < 2 ^ 62" using assms(3) by simp
  with None build_sound [OF assms(1) _ assms(4)] show ?thesis by (cases "build al cap is") auto
next
  case (Some e)
  then show ?thesis using build_complete [OF assms(1-4)] assms(5) by simp
qed

theorem build_is_encode_witness:
  "build zero_alloc 4 [Asn1 0x20000010 [Uint64 0x80, Boolean 1], Prefixed 2 [U8 7]] =
     Some [0x30, 7, 2, 2, 0, 0x80, 1, 1, 0xff, 0, 1, 7]"
proof -
  let ?is = "[Asn1 0x20000010 [Uint64 0x80, Boolean 1], Prefixed 2 [U8 7]]"
  have e: "encode_items ?is = Some [0x30, 7, 2, 2, 0, 0x80, 1, 1, 0xff, 0, 1, 7]"
    by (simp add: enc_asn1_def enc_prefixed_def der_element_def der_tag_def tag_number_def
        tag_bits_def CBS_ASN1_TAG_NUMBER_MASK_def CBS_ASN1_INTEGER_def CBS_ASN1_BOOLEAN_def
        der_len_def der_uint_def der_bool_def be_bytes_numeral)
  have "build zero_alloc 4 ?is = encode_items ?is"
    by (rule build_is_encode) (auto simp only: e zero_alloc, simp_all)
  then show ?thesis by (simp only: e)
qed

text \<open>C10: Whatever allocations fail, the builder returns an error or the exact encoding of
  its client's calls, never anything else.\<close>

theorem build_safe:
  assumes "alloc_bounded al" "cap < 2 ^ 62" "list_all item_ok is"
  shows "build al cap is = None \<or> build al cap is = encode_items is"
  using build_sound [OF assms] by (cases "build al cap is") auto

text \<open>An allocator that fails from 24 bytes on.\<close>

definition tiny_alloc :: allocator where
  "tiny_alloc n = (if n < 24 then Some (\<lambda>_. 0xa5) else None)"

lemma tiny_alloc [simp]: "alloc_bounded tiny_alloc"
  by (simp add: alloc_bounded_def tiny_alloc_def)

theorem build_safe_witness:
  "build tiny_alloc 4 [U8 1, Prefixed 1 [U16 2]] = None \<or>
   build tiny_alloc 4 [U8 1, Prefixed 1 [U16 2]] = encode_items [U8 1, Prefixed 1 [U16 2]]"
  by (rule build_safe) simp_all

text \<open>C5: The DER parser is exact: \<open>CBS_get_any_asn1_element\<close> accepts precisely the inputs that
  start with the DER encoding of an element (a tag number and a length in their shortest forms), and
  returns that encoding, the tag, the length of the header and the rest.\<close>

theorem parse_element_exact:
  assumes "length cs < SIZE_LIMIT"
  shows "CBS_get_any_asn1_element cs = (Some (out, t, h), rest) \<longleftrightarrow>
    (\<exists>c. out = der_element t c \<and> cs = der_element t c @ rest \<and> length c < 2 ^ 32 \<and>
      h = length (der_tag t) + length (der_len (length c)))"
  by (rule get_any_element_iff [OF assms])

theorem parse_element_exact_witness:
  "CBS_get_any_asn1_element [0x30, 3, 1, 1, 0xff, 9] = (Some ([0x30, 3, 1, 1, 0xff], 0x20000010, 2), [9])"
proof -
  have t: "der_tag 0x20000010 = [0x30]" and l: "der_len (Suc (Suc (Suc 0))) = [3]"
    by (simp_all add: der_tag_def der_len_def tag_number_def tag_bits_def CBS_ASN1_TAG_NUMBER_MASK_def)
  have s: "length [0x30, 3, 1, 1, 0xff, 9 :: u8] < SIZE_LIMIT" by simp
  show ?thesis
    by (rule iffD2 [OF parse_element_exact [OF s]], rule exI [of _ "[1, 1, 0xff]"])
      (simp add: der_element_def t l)
qed

text \<open>C14: An INTEGER that \<open>CBB_add_asn1_uint64\<close> writes is read back by \<open>CBS_get_asn1_uint64\<close>, and
  that reader accepts nothing else: no other octets stand for the same number.\<close>

theorem uint64_exact:
  assumes "length cs < SIZE_LIMIT"
  shows "CBS_get_asn1_uint64 cs = (Some v, rest) \<longleftrightarrow>
    (\<exists>e. encode_items [Uint64 v] = Some e \<and> cs = e @ rest)"
  by (simp add: get_asn1_uint64_iff [OF assms])

theorem uint64_exact_witness:
  "CBS_get_asn1_uint64 [2, 2, 0, 0x80, 7] = (Some 0x80, [7])"
proof -
  have e: "encode_items [Uint64 0x80] = Some [2, 2, 0, 0x80]"
    by (simp add: der_element_def der_tag_def tag_number_def tag_bits_def CBS_ASN1_TAG_NUMBER_MASK_def
        CBS_ASN1_INTEGER_def der_len_def der_uint_def be_bytes_numeral)
  have s: "length [2, 2, 0, 0x80, 7 :: u8] < SIZE_LIMIT" by simp
  show ?thesis
    by (rule iffD2 [OF uint64_exact [OF s]], rule exI [of _ "[2, 2, 0, 0x80]"]) (simp only: e, simp)
qed

text \<open>C13: \<open>CBB_add_asn1_oid_from_text\<close> accepts exactly the dotted forms of valid object identifiers
  and appends their DER contents, nothing else.\<close>

theorem oid_from_text_ok:
  assumes "cbb_inv d s" "alloc_bounded al"
    and "CBB_add_asn1_oid_from_text al d tx len s = (Some u, s')"
  shows "\<exists>ns. oid_valid ns \<and> take len tx = dotted ns \<and> cbb_appends d s s' (oid_der ns)"
  by (rule CBB_add_asn1_oid_from_text_ok [OF assms])

lemma cbb_start: "\<exists>s. CBB_init zero_alloc 32 = Some s \<and> cbb_at 0 s [] \<and> cbb_holds zero_alloc s 1000 \<and>
  cbb_pos 0 s = 0"
proof -
  have c: "(32 :: nat) < 2 ^ 62" "(32 :: nat) < 2 ^ 61" by simp_all
  from CBB_init_total [OF zero_alloc(2) c(2)] obtain s where i: "CBB_init zero_alloc 32 = Some s" by auto
  from CBB_init_inv [OF zero_alloc(1) c(1) i] have "cbb_at 0 s []" "cbb_holds zero_alloc s 1000"
    using zero_alloc(2) by (auto simp: cbb_holds_def can_hold_def)
  moreover have "cbb_pos 0 s = 0"
    using i by (auto simp: CBB_init_def cbb_init_def cbb_pos_def fr_end_def split: option.splits if_splits)
  ultimately show ?thesis using i by blast
qed

lemma decimal_113549: "decimal 113549 = [0x31, 0x31, 0x33, 0x35, 0x34, 0x39]"
  by (simp add: decimal_step decimal_digit)

theorem oid_from_text_ok_witness:
  "\<exists>s s' ns. CBB_add_asn1_oid_from_text zero_alloc 0 [0x31, 0x2e, 0x32, 0x2e, 0x38, 0x34, 0x30] 7 s = (Some (), s') \<and>
     oid_valid ns \<and> [0x31, 0x2e, 0x32, 0x2e, 0x38, 0x34, 0x30] = dotted ns \<and> cbb_appends 0 s s' (oid_der ns)"
proof -
  let ?t = "[0x31, 0x2e, 0x32, 0x2e, 0x38, 0x34, 0x30] :: bytes"
  have v: "oid_valid [1, 2, 840]" by simp
  have t: "take 7 ?t = dotted [1, 2, 840]" by (simp add: decimal_digit decimal_step dot_tail_def)
  have l: "length (oid_der [1, 2, 840]) \<le> 1000" by (simp add: base128_def base128_hi.simps)
  from cbb_start obtain s where s: "cbb_at 0 s []" "cbb_holds zero_alloc s 1000" by blast
  have "cbb_room zero_alloc 0 s (length (oid_der [1, 2, 840]))"
    by (rule cbb_room_holds [OF s(1)]) (use s(2) l in \<open>auto intro: cbb_holds_mono\<close>)
  from CBB_add_asn1_oid_from_text_succeeds [OF cbb_at_inv [OF s(1)] zero_alloc(1) v t this] obtain s'
    where r: "CBB_add_asn1_oid_from_text zero_alloc 0 ?t 7 s = (Some (), s')" by blast
  from oid_from_text_ok [OF cbb_at_inv [OF s(1)] zero_alloc(1) r] obtain ns where
    "oid_valid ns" "?t = dotted ns" "cbb_appends 0 s s' (oid_der ns)" by auto
  with r show ?thesis by blast
qed

text \<open>C12: \<open>CBS_asn1_oid_to_text\<close> prints exactly the DER contents of valid object identifiers,
  as their dotted form with a NUL behind it, and rejects everything else.\<close>

theorem oid_to_text_exact:
  assumes "alloc_bounded al" "alloc_total al" "length cs < 2 ^ 50"
  shows "CBS_asn1_oid_to_text al cs = Some tx \<longleftrightarrow> (\<exists>ns. oid_valid ns \<and> cs = oid_der ns \<and> tx = dotted ns @ [0])"
proof
  assume "\<exists>ns. oid_valid ns \<and> cs = oid_der ns \<and> tx = dotted ns @ [0]"
  then obtain ns where ns: "oid_valid ns" "cs = oid_der ns" "tx = dotted ns @ [0]" by blast
  have "length (dotted ns) < 2 ^ 59" using length_dotted [OF ns(1)] assms(3) ns(2) by simp
  from CBS_asn1_oid_to_text_succeeds [OF assms(1,2) ns(1) this] show "CBS_asn1_oid_to_text al cs = Some tx"
    by (simp add: ns)
qed (rule CBS_asn1_oid_to_text_ok [OF assms(1)])

theorem oid_to_text_exact_witness:
  "CBS_asn1_oid_to_text zero_alloc [0x2a, 0x86, 0x48] = Some [0x31, 0x2e, 0x32, 0x2e, 0x38, 0x34, 0x30, 0]"
proof -
  have l: "length [0x2a, 0x86, 0x48 :: u8] < 2 ^ 50" by simp
  show ?thesis
    by (rule iffD2 [OF oid_to_text_exact [OF zero_alloc l]], rule exI [of _ "[1, 2, 840]"])
      (simp add: base128_def base128_hi.simps decimal_digit decimal_step dot_tail_def)
qed



section \<open>Containers\<close>

text \<open>C6: The hash table is a finite map: an insertion that succeeds returns what a lookup of the
  element would have returned before it, and afterwards a lookup of any key finds the new element
  if the two are equal for the table and what it found before otherwise. Resizing and
  collisions never show.\<close>

theorem lh_insert_map:
  assumes "lhash_fns cmpf hash" "lh_table cmpf hash lh" "lh_insert al lh d = (True, old, lh')"
  shows "lh_table cmpf hash lh' \<and> old = lh_retrieve lh d \<and>
    lh_retrieve lh' k = (if cmpf d k = 0 then Some d else lh_retrieve lh k)"
  using lhash_fns.insert_lookup(1,2) [OF assms(1) _ assms(3)] lhash_fns.insert_lookup(3) [OF assms(1) _ assms(3), of k] assms(2)
  by (simp add: lhash_fns.table_eq [OF assms(1)])

definition nth_object :: "nat \<Rightarrow> asn1_object" where
  "nth_object n = obj_zero\<lparr>ob_sn := Some (decimal n), ob_nid := int n\<rparr>"

lemma string_table: "\<exists>lh. lh_new zero_alloc hash_short_name cmp_short_name = Some lh \<and>
  lh_table cmp_short_name hash_short_name lh \<and> (\<forall>k. lh_retrieve lh k = None)"
proof -
  from malloc_total_small(3,4) [OF zero_alloc(2)] obtain lh
    where l: "lh_new zero_alloc hash_short_name cmp_short_name = Some lh"
    by (auto simp: lh_new_def)
  with by_short_name.new_empty [OF l] show ?thesis by (auto simp: by_short_name.table_eq)
qed

theorem lh_insert_map_witness:
  "\<exists>lh lh'. lh_insert zero_alloc lh (nth_object 7) = (True, None, lh') \<and>
     lh_retrieve lh' (nth_object 7) = Some (nth_object 7) \<and> lh_retrieve lh' (nth_object 8) = None"
proof -
  from string_table obtain lh where lh: "lh_table cmp_short_name hash_short_name lh"
    "\<forall>k. lh_retrieve lh k = None" by blast
  from lh_insert_total [OF zero_alloc(2), of lh "nth_object 7"] obtain old lh'
    where i: "lh_insert zero_alloc lh (nth_object 7) = (True, old, lh')" by blast
  have c: "cmp_short_name (nth_object 7) (nth_object 7) = 0" "cmp_short_name (nth_object 7) (nth_object 8) \<noteq> 0"
    by (simp_all add: cmp_name_zero_iff nth_object_def decimal_digit c_str_def)
  note m = lh_insert_map [OF by_short_name.lhash_fns_axioms lh(1) i]
  from m [of "nth_object 7"] m [of "nth_object 8"] c lh(2) i show ?thesis by auto
qed

text \<open>C17: A deletion returns what a lookup would have returned, and afterwards a lookup of any key
  finds nothing if the key is equal to the deleted one and what it found before otherwise.\<close>

theorem lh_delete_map:
  assumes "lhash_fns cmpf hash" "lh_table cmpf hash lh" "lh_delete al lh d = (r, lh')"
  shows "lh_table cmpf hash lh' \<and> r = lh_retrieve lh d \<and>
    lh_retrieve lh' k = (if cmpf d k = 0 then None else lh_retrieve lh k)"
  using lhash_fns.delete_lookup(1,2) [OF assms(1) _ assms(3)] lhash_fns.delete_lookup(3) [OF assms(1) _ assms(3), of k] assms(2)
  by (simp add: lhash_fns.table_eq [OF assms(1)])

theorem lh_delete_map_witness:
  "\<exists>lh lh'. lh_delete zero_alloc lh (nth_object 7) = (Some (nth_object 7), lh') \<and>
     lh_retrieve lh' (nth_object 7) = None"
proof -
  from string_table obtain lh where lh: "lh_table cmp_short_name hash_short_name lh" by blast
  from lh_insert_total [OF zero_alloc(2), of lh "nth_object 7"] obtain old lh1
    where i: "lh_insert zero_alloc lh (nth_object 7) = (True, old, lh1)" by blast
  have c: "cmp_short_name (nth_object 7) (nth_object 7) = 0" by (simp add: cmp_name_zero_iff)
  have t1: "lh_table cmp_short_name hash_short_name lh1"
    and r1: "lh_retrieve lh1 (nth_object 7) = Some (nth_object 7)"
    using by_short_name.insert_lookup(1) [OF _ i] by_short_name.insert_lookup(3) [OF _ i, of "nth_object 7"] lh c
    by (simp_all add: by_short_name.table_eq)
  obtain r lh2 where d: "lh_delete zero_alloc lh1 (nth_object 7) = (r, lh2)"
    by (cases "lh_delete zero_alloc lh1 (nth_object 7)")
  from lh_delete_map [OF by_short_name.lhash_fns_axioms t1 d, of "nth_object 7"] r1 c d show ?thesis by auto
qed

text \<open>C24: \<open>lh_doall\<close> calls its function on every element of the table exactly once, and leaves
  the same elements in the table.\<close>

theorem lh_doall_once:
  assumes "lh_ok lh" "lh_doall al func lh s = (lh', s')"
  shows "\<exists>xs. mset xs = lh_elems lh \<and> s' = fold func xs s \<and> lh_ok lh' \<and> lh_elems lh' = lh_elems lh"
  using lh_doall_visits [of al func lh s] lh_doall_keeps [OF assms(1), of al func s] assms(2)
  by (intro exI [of _ "map it_data (lh_all lh)"]) (simp add: lh_elems_def)

theorem lh_doall_once_witness:
  "\<exists>lh lh' xs. lh_doall zero_alloc (\<lambda>x n. n + ob_nid x) lh 0 = (lh', 7) \<and> lh_elems lh = {#nth_object 7#} \<and>
     mset xs = lh_elems lh \<and> 7 = fold (\<lambda>x n. n + ob_nid x) xs 0"
proof -
  from malloc_total_small(3,4) [OF zero_alloc(2)] obtain lh
    where l: "lh_new zero_alloc hash_short_name cmp_short_name = Some lh" by (auto simp: lh_new_def)
  note t = by_short_name.table_new [OF l]
  from lh_insert_total [OF zero_alloc(2), of lh "nth_object 7"] obtain old lh1
    where i: "lh_insert zero_alloc lh (nth_object 7) = (True, old, lh1)" by blast
  have r: "lh_retrieve lh (nth_object 7) = None" using t by_short_name.retrieve_None by force
  have t1: "by_short_name.table lh1" and e: "lh_elems lh1 = {#nth_object 7#}"
    using by_short_name.insert_adds(1) [OF conjunct1 [OF t] r i] t by auto
  have ok: "lh_ok lh1" using t1 by (simp add: by_short_name.table_def)
  obtain lh2 n where d: "lh_doall zero_alloc (\<lambda>x n. n + ob_nid x) lh1 0 = (lh2, n)"
    by (cases "lh_doall zero_alloc (\<lambda>x n. n + ob_nid x) lh1 0")
  from lh_doall_once [OF ok d] obtain xs where xs: "mset xs = lh_elems lh1" "n = fold (\<lambda>x n. n + ob_nid x) xs 0"
    by blast
  then have "xs = [nth_object 7]" using e by simp
  then have "n = 7" using xs(2) by (simp add: nth_object_def)
  then show ?thesis using d e xs by blast
qed

section \<open>The object registry\<close>


text \<open>The first entries of obj_dat.h: UNDEF, rsadsi (1.2.840.113549) and pkcs (1.2.840.113549.1).\<close>

definition small_tables :: obj_tables where
  "small_tables = \<lparr>kObjects =
     [\<lparr>ob_sn = Some [0x55, 0x4e], ob_ln = Some [0x75], ob_nid = 0, ob_length = 0, ob_data = None, ob_flags = 0\<rparr>,
      \<lparr>ob_sn = Some [0x72, 0x73], ob_ln = Some [0x52], ob_nid = 1, ob_length = 6,
       ob_data = Some [0x2a, 0x86, 0x48, 0x86, 0xf7, 0x0d], ob_flags = 0\<rparr>,
      \<lparr>ob_sn = Some [0x70, 0x6b], ob_ln = Some [0x52, 0x50], ob_nid = 2, ob_length = 7,
       ob_data = Some [0x2a, 0x86, 0x48, 0x86, 0xf7, 0x0d, 0x01], ob_flags = 0\<rparr>],
     kNIDsInOIDOrder = [1, 2], kNIDsInShortNameOrder = [0, 2, 1], kNIDsInLongNameOrder = [1, 2, 0]\<rparr>"





text \<open>C16: An object made from a dotted identifier prints as that identifier again: the return value
  is the length of the text, and the buffer gets as much of it as fits, with a NUL.\<close>

theorem obj_text_roundtrip:
  assumes "alloc_bounded al" "alloc_total al" "strlen s \<le> INT_MAX" "0 < n" "n \<le> int (length out)"
    and "OBJ_txt2obj bs al T g s True = Some ob"
  shows "OBJ_obj2txt bs' al T g' out n (Some ob) True =
    (int (strlen s), write_at out 0 (take (nat n - 1) (c_str s) @ [0]))"
  by (rule obj2txt_created [OF assms(1,2) txt2obj_created [OF assms(1,3,6)] assms(3-5)])

theorem obj_text_roundtrip_witness:
  "\<exists>ob. OBJ_txt2obj bsearch_by zero_alloc small_tables (obj_start small_tables) [0x32, 0x2e, 0x35, 0] True = Some ob \<and>
     OBJ_obj2txt bsearch_by zero_alloc small_tables (obj_start small_tables) [9, 9, 9, 9, 9] 5 (Some ob) True =
       (3, [0x32, 0x2e, 0x35, 0, 9])"
proof -
  let ?s = "[0x32, 0x2e, 0x35, 0] :: bytes"
  have v: "oid_valid [2, 5]" and c: "c_str ?s = dotted [2, 5]"
    by (simp_all add: c_str_def decimal_digit dot_tail_def)
  have l: "strlen ?s < 2 ^ 60" "strlen ?s \<le> INT_MAX" "strlen ?s = 3" by (simp_all add: strlen_Cons INT_MAX_def)
  from text_oid_der_total [OF zero_alloc v c l(1)] obtain buf n where t: "text_oid_der zero_alloc ?s = Some (buf, n)" by blast
  have "nat (to_int n) < 2 ^ 61"
    using sint_less [of "word_of_nat n :: u32"] by (simp add: to_int_def)
  from ASN1_OBJECT_create_total [OF zero_alloc(2) this, of None None NID_undef buf] obtain ob
    where "ASN1_OBJECT_create zero_alloc NID_undef buf (to_int n) None None = Some ob" by auto
  with t have o: "OBJ_txt2obj bsearch_by zero_alloc small_tables (obj_start small_tables) ?s True = Some ob"
    by (simp add: OBJ_txt2obj_def create_object_with_text_oid_def)
  have "(0 :: int) < 5" "(5 :: int) \<le> int (length [9, 9, 9, 9, 9 :: u8])" by simp_all
  from obj_text_roundtrip [OF zero_alloc l(2) this o, of bsearch_by "obj_start small_tables"] o show ?thesis
    by (simp add: l(3) c_str_def write_at_def)
qed

text \<open>C33: If the bucket arrays cannot be allocated when the first object is added, the code goes on
  with a NULL table (the outer None of the model): \<open>obj_add_object\<close> does not look at what
  \<open>lh_new\<close> returned.\<close>

theorem obj_add_object_null_table:
  assumes "global_added_by_nid g = None" "OPENSSL_malloc al (8 * kMinNumBuckets) = None"
  shows "obj_add_object al ob g = None"
  using assms by (simp add: obj_add_object_def Let_def make_tables_def lh_new_def added_insert_def)

theorem obj_add_object_null_table_witness:
  "obj_add_object tiny_alloc obj_zero (obj_start small_tables) = None"
  by (rule obj_add_object_null_table)
    (simp_all add: obj_start_def OPENSSL_malloc_def tiny_alloc_def sz_def kMinNumBuckets_def)

text \<open>C21: \<open>c2i_ASN1_OBJECT\<close> accepts exactly the nonempty sequences of base 128 subidentifiers,
  each in its shortest form.\<close>

theorem c2i_exact:
  assumes "length bs \<le> INT_MAX" "alloc_total al"
  shows "fst (c2i_ASN1_OBJECT al None (Some bs) (int (length bs))) \<noteq> None \<longleftrightarrow>
    (\<exists>ns. ns \<noteq> [] \<and> bs = concat (map base128 ns))"
proof -
  have "length bs < 2 ^ 61" using assms(1) by (simp add: INT_MAX_def)
  from malloc_total [OF assms(2) this] obtain d where "OPENSSL_malloc al (length bs) = Some d" by blast
  then show ?thesis
    using malloc_total_small(2) [OF assms(2)]
    unfolding c2i_valid_iff [OF assms(1), symmetric]
    by (auto simp: c2i_ASN1_OBJECT_def ASN1_OBJECT_new_def Let_def)
qed

theorem c2i_exact_witness:
  "fst (c2i_ASN1_OBJECT zero_alloc None (Some [0x2a, 0x86, 0x48]) (int (length [0x2a, 0x86, 0x48 :: u8]))) \<noteq> None"
proof -
  have l: "length [0x2a, 0x86, 0x48 :: u8] \<le> INT_MAX" by (simp add: INT_MAX_def)
  show ?thesis
    by (rule iffD2 [OF c2i_exact [OF l zero_alloc(2)]], rule exI [of _ "[42, 840]"])
      (simp add: base128_def base128_hi.simps)
qed

text \<open>C34: An object that is reused for new contents keeps the NID it had, so that \<open>OBJ_obj2nid\<close>
  names the old identifier.\<close>

theorem c2i_keeps_nid:
  assumes "ob_flags ob AND FLAG_DYNAMIC \<noteq> 0" "ob_nid ob \<noteq> NID_undef"
    and "c2i_ASN1_OBJECT al (Some ob) p len = (Some r, a, p')"
  shows "OBJ_obj2nid bs T g (Some r) = ob_nid ob"
  using assms by (auto simp: c2i_ASN1_OBJECT_def OBJ_obj2nid_def NID_undef_def Let_def split: if_splits option.splits)

theorem c2i_keeps_nid_witness:
  "\<exists>r a p'. c2i_ASN1_OBJECT zero_alloc
      (Some (obj_zero\<lparr>ob_nid := 2, ob_flags := FLAGS_ALL, ob_data := Some [0x2a], ob_length := 1\<rparr>)) (Some [0x55]) 1 =
      (Some r, a, p') \<and> obj_bytes r = [0x55] \<and>
     OBJ_obj2nid bsearch_by small_tables (obj_start small_tables) (Some r) = 2"
proof -
  let ?o = "obj_zero\<lparr>ob_nid := 2, ob_flags := FLAGS_ALL, ob_data := Some [0x2a], ob_length := 1\<rparr>"
  have d: "ob_flags ?o AND FLAG_DYNAMIC \<noteq> 0" "ob_nid ?o \<noteq> NID_undef"
    using FLAGS_ALL_dynamic by (simp_all add: NID_undef_def)
  have v: "c2i_valid (Some [0x55]) 1" by (simp add: c2i_valid_def INT_MAX_def c2i_scan.simps)
  let ?r = "?o\<lparr>ob_data := Some [0x55], ob_sn := None, ob_ln := None\<rparr>"
  have r: "c2i_ASN1_OBJECT zero_alloc (Some ?o) (Some [0x55]) 1 = (Some ?r, Some ?r, Some [])"
    using v d(1) by (simp add: c2i_ASN1_OBJECT_def Let_def write_at_def)
  from c2i_keeps_nid [OF d r, of bsearch_by small_tables "obj_start small_tables"] r show ?thesis
    by (simp add: obj_bytes_def)
qed

section \<open>Base64\<close>

lemma encode_chunks_init:
  assumes "list_all (\<lambda>c. length c < 2 ^ 30) cs"
  shows "encode_chunks EVP_EncodeInit cs = b64_text (concat cs)"
proof -
  have "enc_ok EVP_EncodeInit" "enc_pending EVP_EncodeInit = []"
    by (simp_all add: enc_ok_def enc_pending_def EVP_EncodeInit_def)
  then show ?thesis using encode_chunks_ok [OF _ assms] by simp
qed

text \<open>C9: A stream encoded with \<open>EVP_EncodeUpdate\<close> and \<open>EVP_EncodeFinal\<close> in any pieces is decoded
  by \<open>EVP_DecodeUpdate\<close> and \<open>EVP_DecodeFinal\<close>, in any other pieces and with whitespace added or
  removed anywhere, to the bytes that were encoded.\<close>

theorem b64_stream_roundtrip:
  assumes "list_all (\<lambda>c. length c < 2 ^ 30) cs" "list_all (\<lambda>d. length d < 2 ^ 29) ds"
    and "filter (\<lambda>c. \<not> is_b64_space c) (concat ds) =
      filter (\<lambda>c. \<not> is_b64_space c) (encode_chunks EVP_EncodeInit cs)"
  shows "decode_chunks EVP_DecodeInit ds = Some (concat cs)"
  using decode_text_chunks [OF _ assms(2)] assms(3)
  by (simp add: encode_chunks_init [OF assms(1)] filter_b64_text)

text \<open>\<open>QUI=\<close> stands for the bytes of \<open>AB\<close>.\<close>

theorem b64_stream_roundtrip_witness:
  "decode_chunks EVP_DecodeInit [[0x51, 0x20, 0x55], [0x49, 0x0a, 0x3d]] = Some [0x41, 0x42]"
proof -
  let ?cs = "[[0x41], [0x42]] :: bytes list" and ?ds = "[[0x51, 0x20, 0x55], [0x49, 0x0a, 0x3d]] :: bytes list"
  have l: "list_all (\<lambda>c. length c < 2 ^ 30) ?cs" "list_all (\<lambda>d. length d < 2 ^ 29) ?ds" by simp_all
  have "encode_chunks EVP_EncodeInit ?cs = b64_text (concat ?cs)" by (rule encode_chunks_init [OF l(1)])
  then have "encode_chunks EVP_EncodeInit ?cs = b64_text [0x41, 0x42]"
    by (simp only: concat.simps append.simps)
  then have "filter (\<lambda>c. \<not> is_b64_space c) (encode_chunks EVP_EncodeInit ?cs) = encode_block [0x41, 0x42]"
    by (simp only: filter_b64_text)
  also have "\<dots> = [0x51, 0x55, 0x49, 0x3d]"
    by (simp add: encode_block_2 b64_quad_def b64_num_def b64_char_def del: encode_block.simps)
  finally have f: "filter (\<lambda>c. \<not> is_b64_space c) (concat ?ds) =
      filter (\<lambda>c. \<not> is_b64_space c) (encode_chunks EVP_EncodeInit ?cs)"
    by (simp add: is_b64_space_def)
  from b64_stream_roundtrip [OF l f] show ?thesis by simp
qed

text \<open>C20: Encoding in pieces is encoding in one piece: every 48 bytes make a line of 64 characters
  and the rest a last, shorter line, wherever the pieces end.\<close>

theorem b64_stream_is_text:
  assumes "list_all (\<lambda>c. length c < 2 ^ 30) cs"
  shows "encode_chunks EVP_EncodeInit cs = b64_text (concat cs)"
  by (rule encode_chunks_init [OF assms])

theorem b64_stream_is_text_witness:
  "encode_chunks EVP_EncodeInit [[0x41], [], [0x42]] = [0x51, 0x55, 0x49, 0x3d, 0x0a]"
proof -
  have "encode_chunks EVP_EncodeInit [[0x41], [], [0x42]] = b64_text (concat [[0x41], [], [0x42]])"
    by (rule b64_stream_is_text) simp
  also have "\<dots> = encode_block [0x41, 0x42] @ [0x0a]" by (simp add: b64_text_def b64_short del: encode_block.simps)
  also have "encode_block [0x41, 0x42] = [0x51, 0x55, 0x49, 0x3d]"
    by (simp add: encode_block_2 b64_quad_def b64_num_def b64_char_def del: encode_block.simps)
  finally show ?thesis by simp
qed

text \<open>C22: \<open>EVP_DecodeBase64\<close> gives back what \<open>EVP_EncodeBlock\<close> encoded, whenever the output buffer
  has the room \<open>EVP_DecodedLength\<close> asks for.\<close>

theorem b64_block_roundtrip:
  assumes "EVP_EncodeBlock s (length s) = (dst, n)" "EVP_DecodedLength n = Some m" "m \<le> max_out"
  shows "EVP_DecodeBase64 max_out (take n dst) = Some s"
  using assms by (auto simp: EVP_EncodeBlock_def EVP_DecodeBase64_def EVP_DecodedLength_def Let_def
      length_encode_block decode_encode_block split: if_splits)

theorem b64_block_roundtrip_witness:
  "EVP_DecodeBase64 3 [0x51, 0x55, 0x49, 0x3d] = Some [0x41, 0x42]"
proof -
  have b: "encode_block [0x41, 0x42] = [0x51, 0x55, 0x49, 0x3d]"
    by (simp add: encode_block_2 b64_quad_def b64_num_def b64_char_def del: encode_block.simps)
  have e: "EVP_EncodeBlock [0x41, 0x42] (length [0x41, 0x42 :: u8]) = ([0x51, 0x55, 0x49, 0x3d, 0], 4)"
    by (simp add: EVP_EncodeBlock_def Let_def b del: encode_block.simps)
  have d: "EVP_DecodedLength 4 = Some 3" by (simp add: EVP_DecodedLength_def)
  from b64_block_roundtrip [OF e d order_refl] show ?thesis by simp
qed

text \<open>C26: \<open>EVP_EncodedLength\<close> is exact: it is the number of bytes \<open>EVP_EncodeBlock\<close> writes, the NUL
  included, and an error exactly where that number is not a \<open>size_t\<close>.\<close>

theorem b64_encoded_length:
  assumes "length s < SIZE_LIMIT"
  shows "EVP_EncodedLength (length s) =
    (let n = length (fst (EVP_EncodeBlock s (length s))) in if n < SIZE_LIMIT then Some n else None)"
  by (simp add: EVP_EncodedLength_eq [OF assms] EVP_EncodeBlock_def Let_def length_encode_block)

theorem b64_encoded_length_witness:
  "EVP_EncodedLength 4 = Some 9"
proof -
  have l: "length [1, 2, 3, 4 :: u8] < SIZE_LIMIT" by simp
  have "length (fst (EVP_EncodeBlock [1, 2, 3, 4] (length [1, 2, 3, 4 :: u8]))) = 9"
    by (simp add: EVP_EncodeBlock_def Let_def length_encode_block del: encode_block.simps)
  then have "EVP_EncodedLength (length [1, 2, 3, 4 :: u8]) = Some 9"
    unfolding b64_encoded_length [OF l] by (simp only: Let_def) simp
  then show ?thesis by (simp add: numeral_eq_Suc)
qed

section \<open>Stacks and buffers\<close>

text \<open>C19: \<open>sk_insert\<close> either fails and leaves the stack alone or inserts the pointer into the list of
  entries at the position asked for, shifting those behind it, growing the array when needed and
  marking the stack as not sorted.\<close>

theorem sk_insert_list:
  assumes "sk_ok sk" "alloc_bounded al" "sk_insert al sk p w = (n, sk')"
  shows "if n = 0 then sk' = sk
    else n = sk_n sk + 1 \<and> sk_ok sk' \<and> sk_contents sk' = take w (sk_contents sk) @ p # drop w (sk_contents sk) \<and>
      sk_flag_ok env sk' \<and> sk_comp sk' = sk_comp sk"
  using sk_insert_fail [of al sk p w sk'] sk_insert_ok [OF assms] assms(3) by auto

lemma sample_stack: "\<exists>sk. sk_ok sk \<and> sk_contents sk = [5, 3] \<and> sk_comp sk = Some 0 \<and> sk_num_alloc sk < 2 ^ 50 \<and>
  \<not> sk_sorted sk"
  by (rule exI [of _ "\<lparr>sk_n = 2, sk_data = [5, 3, 0, 0], sk_sorted = False, sk_num_alloc = 4, sk_comp = Some 0\<rparr>"])
    (simp add: sk_ok_def sk_contents_def)

theorem sk_insert_list_witness:
  "\<exists>sk sk'. sk_contents sk = [5, 3] \<and> sk_insert zero_alloc sk 4 1 = (3, sk') \<and> sk_contents sk' = [5, 4, 3]"
proof -
  from sample_stack obtain sk where sk: "sk_ok sk" "sk_contents sk = [5, 3]" "sk_num_alloc sk < 2 ^ 50" by blast
  have n: "sk_n sk = 2" using length_sk_contents [OF sk(1)] sk(2) by simp
  have "sk_num_alloc sk < 2 ^ 56" using sk(3) by simp
  from sk_insert_succeeds [OF sk(1) zero_alloc(2) this, of 4 1] n obtain sk'
    where r: "sk_insert zero_alloc sk 4 1 = (3, sk')" by (cases "sk_insert zero_alloc sk 4 1") simp
  from sk_insert_list [OF sk(1) zero_alloc(1) r, of "\<lambda>_ _ _. 0"] r sk(2) show ?thesis by auto
qed

text \<open>C18: \<open>sk_find\<close> with a comparison function sorts the stack if that was not done yet and returns the
  index of the first entry equal to the one looked for, and none only if there is none.\<close>

theorem sk_find_first:
  assumes "qsort_spec qsort" "bsearch_spec bsearch" "sk_ok sk" "sk_flag_ok env sk"
    and "sk_comp sk = Some c" "cmp_preorder (env c)" "p \<noteq> 0"
    and "sk_find qsort bsearch env sk p = (res, sk')"
  shows "mset (sk_contents sk') = mset (sk_contents sk) \<and> sk_flag_ok env sk' \<and>
    (case res of
       None \<Rightarrow> \<forall>x \<in> set (sk_contents sk). env c p x \<noteq> 0
     | Some k \<Rightarrow> k < sk_n sk' \<and> env c p (sk_contents sk' ! k) = 0 \<and>
         (\<forall>j < k. env c p (sk_contents sk' ! j) \<noteq> 0))"
  using sk_find_ok [OF assms] by (cases res) auto

definition int_cmp :: cmp_env where
  "int_cmp c a b = int a - int b"

lemma int_cmp_preorder: "cmp_preorder (int_cmp c)"
  by (auto simp: cmp_preorder_def int_cmp_def)

theorem sk_find_first_witness:
  "\<exists>sk k sk'. sk_contents sk = [5, 3] \<and> sk_find sort_by bsearch_by int_cmp sk 5 = (Some k, sk') \<and>
     sk_contents sk' ! k = 5"
proof -
  from sample_stack obtain sk where sk: "sk_ok sk" "sk_contents sk = [5, 3]" "sk_comp sk = Some 0" "\<not> sk_sorted sk"
    by blast
  have f: "sk_flag_ok int_cmp sk" using sk by (simp add: sk_flag_ok_def)
  obtain res sk' where r: "sk_find sort_by bsearch_by int_cmp sk 5 = (res, sk')"
    by (cases "sk_find sort_by bsearch_by int_cmp sk 5")
  from sk_find_first [OF sort_by.qsort_spec_axioms bsearch_by.bsearch_spec_axioms sk(1) f sk(3) int_cmp_preorder _ r]
  obtain k where "res = Some k" "sk_contents sk' ! k = 5"
    using sk(2) by (cases res) (auto simp: int_cmp_def)
  then show ?thesis using sk(2) r by blast
qed



text \<open>C23: \<open>sk_deep_copy\<close> either returns a stack with a copy of every non-NULL entry, or fails having
  made copies of the entries before the first one whose copy failed, which are exactly the ones
  it frees.\<close>

theorem sk_deep_copy_frees:
  assumes "alloc_bounded al" "sk_ok sk" "sk_dup al sk \<noteq> None"
  shows "case sk_deep_copy al f sk of
      Inr d \<Rightarrow> sk_ok d \<and> sk_contents d = map (copy_ptr f) (sk_contents sk) \<and>
        (\<forall>q \<in> set (sk_contents sk). q \<noteq> 0 \<longrightarrow> f q \<noteq> 0)
    | Inl freed \<Rightarrow> (\<exists>q \<in> set (sk_contents sk). q \<noteq> 0 \<and> f q = 0) \<and>
        freed = map f (filter (\<lambda>q. q \<noteq> 0) (takeWhile (\<lambda>q. q \<noteq> 0 \<longrightarrow> f q \<noteq> 0) (sk_contents sk)))"
proof -
  from assms(3) obtain ret where ret: "sk_dup al sk = Some ret" by auto
  have e: "take (sk_n ret) (sk_data ret) = sk_contents sk"
    using sk_dup_ok(2) [OF assms(1,2) ret] by (simp add: sk_contents_def)
  have fm: "filter (\<lambda>p. p \<noteq> 0) (map (copy_ptr f) (takeWhile (\<lambda>q. q \<noteq> 0 \<longrightarrow> f q \<noteq> 0) xs)) =
      map f (filter (\<lambda>q. q \<noteq> 0) (takeWhile (\<lambda>q. q \<noteq> 0 \<longrightarrow> f q \<noteq> 0) xs))" for xs
    by (induction xs) (auto simp: copy_ptr_def)
  show ?thesis
  proof (cases "sk_deep_copy al f sk")
    case (Inr d)
    with sk_deep_copy_ok [OF assms(1,2) Inr] show ?thesis
      using ret e by (auto simp: sk_deep_copy_def copy_loop_eq split: if_splits)
  next
    case (Inl freed)
    then show ?thesis using ret e by (auto simp: sk_deep_copy_def copy_loop_eq fm [simplified] split: if_splits)
  qed
qed

theorem sk_deep_copy_frees_witness:
  "\<exists>sk. sk_contents sk = [5, 0, 3] \<and> sk_deep_copy zero_alloc (\<lambda>q. q - 3) sk = Inl [2]"
proof -
  let ?s = "\<lparr>sk_n = 3, sk_data = [5, 0, 3, 0], sk_sorted = False, sk_num_alloc = 4, sk_comp = None\<rparr>"
  have ok: "sk_ok ?s" by (simp add: sk_ok_def)
  have c: "sk_contents ?s = [5, 0, 3]" by (simp add: sk_contents_def)
  have d: "sk_dup zero_alloc ?s \<noteq> None"
    by (simp add: sk_dup_def sk_new_def realloc_ptrs_def OPENSSL_malloc_def zero_alloc_def sz_def)
  from sk_deep_copy_frees [OF zero_alloc(1) ok d, of "\<lambda>q. q - 3"] c
  have "sk_deep_copy zero_alloc (\<lambda>q. q - 3) ?s = Inl [2]"
    by (cases "sk_deep_copy zero_alloc (\<lambda>q. q - 3) ?s") auto
  with c show ?thesis by blast
qed

text \<open>C25: \<open>BUF_MEM_append\<close> appends the bytes given, growing the buffer when it must, or fails and
  changes nothing.\<close>

theorem buf_mem_append:
  assumes "buf_wf b" "bm_length b + length src \<le> 2 ^ 63" "BUF_MEM_append al src b = (r, b')"
  shows "case r of Inl e \<Rightarrow> b' = b | Inr _ \<Rightarrow> buf_wf b' \<and> bm_bytes b' = bm_bytes b @ src"
  using BUF_MEM_append_ok [OF _ assms(1,2)] BUF_MEM_append_fail assms(3) by (cases r) auto

theorem buf_mem_append_witness:
  "\<exists>b b'. bm_bytes b = [1] \<and> BUF_MEM_append zero_alloc [2, 3] b = (Inr (), b') \<and> bm_bytes b' = [1, 2, 3]"
proof -
  let ?b = "\<lparr>bm_length = 1, bm_data = Some [1, 0, 0, 0], bm_max = 4\<rparr>"
  have wf: "buf_wf ?b" "bm_length ?b + length [2, 3 :: u8] \<le> 2 ^ 63" by (simp_all add: buf_wf_def)
  obtain r b' where r: "BUF_MEM_append zero_alloc [2, 3] ?b = (r, b')"
    by (cases "BUF_MEM_append zero_alloc [2, 3] ?b")
  have "r = Inr ()" using r by (simp add: BUF_MEM_append_def BUF_MEM_reserve_def sz_def)
  with buf_mem_append [OF wf r] r show ?thesis
    by (intro exI [of _ ?b] exI [of _ b']) (simp add: bm_bytes_def)
qed

text \<open>C27: \<open>BUF_strlcpy\<close> returns the length of the source and writes to a buffer of \<open>n\<close> bytes as
  much of it as fits with a terminating NUL, and nothing behind that.\<close>

theorem buf_strlcpy_bounded:
  assumes "n \<le> length dst" "0 < n"
  shows "BUF_strlcpy dst src n = (strlen src, write_at dst 0 (take (min (n - 1) (strlen src)) src @ [0]))"
  unfolding BUF_strlcpy_def by (rule BUF_strlcpy_at_eq) (use assms in simp_all)

theorem buf_strlcpy_bounded_witness:
  "BUF_strlcpy [9, 9, 9, 9] [0x61, 0x62, 0x63, 0] 3 = (3, [0x61, 0x62, 0, 9])"
proof -
  have h: "3 \<le> length [9, 9, 9, 9 :: u8]" "0 < (3 :: nat)" by simp_all
  from buf_strlcpy_bounded [OF h, of "[0x61, 0x62, 0x63, 0]"] show ?thesis
    by (simp add: strlen_Cons write_at_def)
qed

section \<open>Memory and constant-time helpers\<close>

text \<open>C28: \<open>CRYPTO_memcmp\<close> is zero exactly when the two regions hold the same bytes.\<close>

theorem memcmp_zero_exact:
  assumes "len \<le> length a" "len \<le> length b"
  shows "CRYPTO_memcmp a b len = 0 \<longleftrightarrow> take len a = take len b"
  by (rule CRYPTO_memcmp_zero_iff [OF assms])

theorem memcmp_zero_exact_witness:
  "CRYPTO_memcmp [1, 2, 3] [1, 2, 4] 2 = 0 \<and> CRYPTO_memcmp [1, 2, 3] [1, 2, 4] 3 \<noteq> 0"
proof -
  have l: "2 \<le> length [1, 2, 3 :: u8]" "2 \<le> length [1, 2, 4 :: u8]"
    "3 \<le> length [1, 2, 3 :: u8]" "3 \<le> length [1, 2, 4 :: u8]" by simp_all
  show ?thesis using memcmp_zero_exact [OF l(1,2)] memcmp_zero_exact [OF l(3,4)] by simp
qed

text \<open>C29: The branch-free comparisons of internal.h compute masks of ones and zeros that say what
  their names say, for every pair of words, and the selections pick by such a mask.\<close>

theorem constant_time_ops:
  "constant_time_select_w (constant_time_lt_w a b) x y = (if a < b then x else y) \<and>
   constant_time_select_w (constant_time_ge_w a b) x y = (if a \<ge> b then x else y) \<and>
   constant_time_select_w (constant_time_is_zero_w a) x y = (if a = 0 then x else y) \<and>
   constant_time_select_w (constant_time_eq_w a b) x y = (if a = b then x else y) \<and>
   constant_time_select_8 (constant_time_eq_8 a b) u v = (if a = b then u else v) \<and>
   constant_time_select_8 (constant_time_lt_8 a b) u v = (if a < b then u else v)"
  by (simp add: ct_simps)

text \<open>The addition of the header in \<open>OPENSSL_malloc\<close> is not checked: for the eight sizes at the
  top of \<open>size_t\<close> it wraps, and where the platform serves the tiny request that comes out, the
  block returned for a request of more than \<open>2 ^ 63\<close> bytes has none.\<close>

lemma malloc_size_wraps:
  assumes "SIZE_LIMIT \<le> n + 8" "n < SIZE_LIMIT" "al (n + 8 - SIZE_LIMIT) = Some f"
  shows "OPENSSL_malloc al n = Some []"
proof -
  have "sz (n + 8) = n + 8 - SIZE_LIMIT" using assms(1,2) by (simp add: sz_def mod_if)
  moreover have "n + 8 - SIZE_LIMIT < 8" using assms(2) by simp
  ultimately show ?thesis using assms(3) by (simp add: OPENSSL_malloc_def)
qed

lemma malloc_size_wraps_instance:
  "OPENSSL_malloc zero_alloc (2 ^ 64 - 1) = Some []"
  by (rule malloc_size_wraps [where f = "\<lambda>_. 0"]) (simp_all add: zero_alloc_def)

end
